(* ===== verification/Sq_Prelude.thy ===== *)
theory Sq_Prelude
  imports Complex_Main "HOL-Library.Product_Lexorder" "HOL-Library.Sublist"
begin

text \<open>
  Shared vocabulary of the sqlery development: the scalar types of the database columns, the
  Python exceptions that the modelled code raises, the SQL statement shapes on a table (a list of
  rows) and the list facts that the component theories use.

  Timestamps are whole microseconds since the epoch, which is the resolution of Python's
  \<^verbatim>\<open>datetime\<close>; a \<^verbatim>\<open>timedelta\<close> is a number of microseconds too. A Python \<^verbatim>\<open>float\<close> is a
  rational: the rounding of doubles is not modelled.
\<close>

section \<open>Scalar types and exceptions\<close>

type_synonym timestamp = int
type_synonym job_id = int

text \<open>Microseconds per second, the unit of \<^verbatim>\<open>timedelta(seconds=...)\<close>.\<close>

definition seconds :: "int \<Rightarrow> int" where
  "seconds n = 1000000 * n"

text \<open>\<^verbatim>\<open>timedelta.total_seconds()\<close>.\<close>

definition total_seconds :: "int \<Rightarrow> rat" where
  "total_seconds us = rat_of_int us / 1000000"

lemma seconds_mono [simp]: "seconds a \<le> seconds b \<longleftrightarrow> a \<le> b"
  by (simp add: seconds_def)

lemma seconds_less [simp]: "seconds a < seconds b \<longleftrightarrow> a < b"
  by (simp add: seconds_def)

lemma seconds_0 [simp]: "seconds 0 = 0"
  by (simp add: seconds_def)

lemma total_seconds_nonneg [simp]: "0 \<le> total_seconds us \<longleftrightarrow> 0 \<le> us"
  by (simp add: total_seconds_def)

text \<open>The exceptions that the modelled code raises (or lets a standard-library call raise).\<close>

datatype py_error =
    ValueError
  | TypeError
  | IndexError
  | InvalidExpression
  | JobFencingError
  | RuntimeError
  | TableMissingError
  | IntegrityError
  | OverflowError
  | AttributeError
  | ConcurrentModificationError
  | DatabaseError
  | DoesNotExist
  | KeyError
  | ValidationError
  | UnsafeDestination

type_synonym 'a result = "py_error + 'a"

text \<open>JSON column values (\<^verbatim>\<open>kwargs\<close>, \<^verbatim>\<open>meta\<close>, the raw entries of \<^verbatim>\<open>dependencies\<close>).\<close>

datatype json =
    JNull
  | JBool bool
  | JInt int
  | JFloat rat
  | JStr string
  | JArr "json list"
  | JObj "(string \<times> json) list"

section \<open>Python strings\<close>

definition is_digit :: "char \<Rightarrow> bool" where
  "is_digit c \<longleftrightarrow> c \<in> set ''0123456789''"

definition startswith :: "string \<Rightarrow> string \<Rightarrow> bool" where
  "startswith s p \<longleftrightarrow> take (length p) s = p"

lemma startswith_append [simp]: "startswith (p @ s) p"
  by (simp add: startswith_def)

lemma startswith_iff: "startswith s p \<longleftrightarrow> (\<exists>t. s = p @ t)"
  unfolding startswith_def by (metis append_eq_conv_conj append_take_drop_id)

lemma startswith_Nil [simp]: "startswith s []"
  by (simp add: startswith_def)

lemma startswith_prefix: "startswith s p \<longleftrightarrow> prefix p s"
  by (auto simp: startswith_iff prefix_def)

lemma startswith_trans_prefix: "startswith s p \<Longrightarrow> prefix q p \<Longrightarrow> startswith s q"
  by (auto simp: startswith_prefix intro: prefix_order.trans)

text \<open>Decimal rendering of a natural number, as \<^verbatim>\<open>str(n)\<close> does.\<close>

definition digit_char :: "nat \<Rightarrow> char" where
  "digit_char d = ''0123456789'' ! (d mod 10)"

fun show_nat :: "nat \<Rightarrow> string" where
  "show_nat n = (if n < 10 then [digit_char n] else show_nat (n div 10) @ [digit_char n])"

declare show_nat.simps [simp del]

text \<open>\<^verbatim>\<open>str(n)\<close> of an int and \<^verbatim>\<open>str(xs)\<close> of a list of ints.\<close>

definition show_int :: "int \<Rightarrow> string" where
  "show_int n = (if n < 0 then CHR ''-'' # show_nat (nat (- n)) else show_nat (nat n))"

fun comma_sep :: "string list \<Rightarrow> string" where
  "comma_sep [] = []"
| "comma_sep [x] = x"
| "comma_sep (x # y # ys) = x @ '', '' @ comma_sep (y # ys)"

definition show_int_list :: "int list \<Rightarrow> string" where
  "show_int_list xs = ''['' @ comma_sep (map show_int xs) @ '']''"

lemma digit_char_digit [simp]: "is_digit (digit_char d)"
proof -
  have "d mod 10 < length ''0123456789''" by simp
  then show ?thesis unfolding is_digit_def digit_char_def by (rule nth_mem)
qed

lemma show_nat_nonempty [simp]: "show_nat n \<noteq> []"
  by (subst show_nat.simps) simp

lemma show_nat_digits [simp]: "\<forall>c\<in>set (show_nat n). is_digit c"
proof (induction n rule: show_nat.induct)
  case (1 n)
  then show ?case by (subst show_nat.simps) auto
qed

section \<open>SQL statements on a table\<close>

text \<open>
  A table is the list of its rows, in insertion order. \<^verbatim>\<open>UPDATE t SET f WHERE P\<close>,
  \<^verbatim>\<open>DELETE FROM t WHERE P\<close> and \<^verbatim>\<open>rowcount\<close> are the three functions below; a \<^verbatim>\<open>SELECT\<close> is
  a \<open>filter\<close>, \<^verbatim>\<open>.first()\<close> is \<open>find\<close>.
\<close>

definition update_where :: "('a \<Rightarrow> bool) \<Rightarrow> ('a \<Rightarrow> 'a) \<Rightarrow> 'a list \<Rightarrow> 'a list" where
  "update_where P f t = map (\<lambda>r. if P r then f r else r) t"

definition delete_where :: "('a \<Rightarrow> bool) \<Rightarrow> 'a list \<Rightarrow> 'a list" where
  "delete_where P t = filter (\<lambda>r. \<not> P r) t"

definition rowcount :: "('a \<Rightarrow> bool) \<Rightarrow> 'a list \<Rightarrow> nat" where
  "rowcount P t = length (filter P t)"

lemma update_where_Nil [simp]: "update_where P f [] = []"
  by (simp add: update_where_def)

lemma update_where_Cons [simp]:
  "update_where P f (x # t) = (if P x then f x else x) # update_where P f t"
  by (simp add: update_where_def)

lemma delete_where_Nil [simp]: "delete_where P [] = []"
  by (simp add: delete_where_def)

lemma delete_where_Cons [simp]:
  "delete_where P (x # t) = (if P x then delete_where P t else x # delete_where P t)"
  by (simp add: delete_where_def)

lemma set_delete_where [simp]: "set (delete_where P t) = {r \<in> set t. \<not> P r}"
  by (auto simp: delete_where_def)

lemma set_update_where:
  "set (update_where P f t) = f ` {r \<in> set t. P r} \<union> {r \<in> set t. \<not> P r}"
  by (auto simp: update_where_def)

lemma update_where_mem:
  "r \<in> set (update_where P f t) \<longleftrightarrow>
     (\<exists>r0 \<in> set t. r = (if P r0 then f r0 else r0))"
  by (auto simp: update_where_def)

lemma length_update_where [simp]: "length (update_where P f t) = length t"
  by (simp add: update_where_def)

lemma map_update_where:
  "(\<And>r. g (f r) = g r) \<Longrightarrow> map g (update_where P f t) = map g t"
  by (simp add: update_where_def comp_def)

lemma delete_where_none: "\<forall>r\<in>set t. \<not> P r \<Longrightarrow> delete_where P t = t"
  by (simp add: delete_where_def)

lemma update_where_none: "\<forall>r\<in>set t. \<not> P r \<Longrightarrow> update_where P f t = t"
  by (simp add: update_where_def map_idI)

lemma rowcount_Nil [simp]: "rowcount P [] = 0"
  by (simp add: rowcount_def)

lemma rowcount_Cons [simp]: "rowcount P (x # t) = (if P x then 1 else 0) + rowcount P t"
  by (simp add: rowcount_def)

lemma rowcount_append [simp]: "rowcount P (s @ t) = rowcount P s + rowcount P t"
  by (simp add: rowcount_def)

lemma rowcount_zero: "rowcount P t = 0 \<longleftrightarrow> (\<forall>r\<in>set t. \<not> P r)"
  by (induction t) auto

lemma rowcount_pos: "0 < rowcount P t \<longleftrightarrow> (\<exists>r\<in>set t. P r)"
  by (induction t) auto

lemma rowcount_mono: "(\<And>r. r \<in> set t \<Longrightarrow> P r \<Longrightarrow> Q r) \<Longrightarrow> rowcount P t \<le> rowcount Q t"
  by (induction t) (auto simp: le_SucI)

lemma rowcount_less:
  assumes "\<And>r. r \<in> set t \<Longrightarrow> P r \<Longrightarrow> Q r" "x \<in> set t" "Q x" "\<not> P x"
  shows "rowcount P t < rowcount Q t"
  using assms
proof (induction t)
  case Nil
  then show ?case by simp
next
  case (Cons a t)
  have le: "rowcount P t \<le> rowcount Q t" using Cons.prems(1) by (intro rowcount_mono) simp
  show ?case
  proof (cases "x = a")
    case True
    then show ?thesis using Cons.prems le by simp
  next
    case False
    then have "rowcount P t < rowcount Q t" using Cons by simp
    then show ?thesis using Cons.prems(1) by auto
  qed
qed

lemma rowcount_filter_le: "rowcount P (filter R t) \<le> rowcount P t"
  by (induction t) auto

lemma rowcount_delete_where: "rowcount P (delete_where Q t) = rowcount (\<lambda>r. P r \<and> \<not> Q r) t"
  by (induction t) auto

lemma rowcount_update_where:
  "rowcount P (update_where Q f t) = rowcount (\<lambda>r. if Q r then P (f r) else P r) t"
  by (induction t) auto

lemma rowcount_cong: "(\<And>r. r \<in> set t \<Longrightarrow> P r = Q r) \<Longrightarrow> rowcount P t = rowcount Q t"
  by (induction t) auto

lemma rowcount_le1_unique:
  assumes "rowcount P t \<le> 1" "x \<in> set t" "P x" "y \<in> set t" "P y"
  shows "x = y"
  using assms
proof (induction t)
  case Nil
  then show ?case by simp
next
  case (Cons a t)
  have none: "P a \<Longrightarrow> r \<in> set t \<Longrightarrow> \<not> P r" for r
    using Cons.prems(1) by (auto simp: rowcount_zero)
  then show ?case using Cons by (auto split: if_splits)
qed

lemma rowcount_distinct_key:
  assumes "distinct (map k t)"
  shows "rowcount (\<lambda>r. k r = v) t \<le> 1"
  using assms
proof (induction t)
  case Nil
  then show ?case by simp
next
  case (Cons x t)
  show ?case
  proof (cases "k x = v")
    case True
    then have "\<forall>r\<in>set t. k r \<noteq> v" using Cons.prems by (force simp: image_iff)
    then have "rowcount (\<lambda>r. k r = v) t = 0" by (simp add: rowcount_zero)
    with True show ?thesis by simp
  next
    case False
    with Cons show ?thesis by simp
  qed
qed

lemma rowcount_key_exists:
  assumes "distinct (map k t)"
  shows "rowcount (\<lambda>r. k r = v \<and> P r) t = 1 \<longleftrightarrow> (\<exists>r\<in>set t. k r = v \<and> P r)"
proof -
  have "rowcount (\<lambda>r. k r = v \<and> P r) t \<le> rowcount (\<lambda>r. k r = v) t" by (rule rowcount_mono) simp
  then have "rowcount (\<lambda>r. k r = v \<and> P r) t = 1 \<longleftrightarrow> 0 < rowcount (\<lambda>r. k r = v \<and> P r) t"
    using rowcount_distinct_key [OF assms, of v] by linarith
  then show ?thesis by (simp only: rowcount_pos)
qed

lemma distinct_key_unique:
  assumes "distinct (map k t)" "x \<in> set t" "y \<in> set t" "k x = k y"
  shows "x = y"
  using assms by (simp add: distinct_map inj_on_def)

lemma distinct_key_delete_where [intro]:
  "distinct (map k t) \<Longrightarrow> distinct (map k (delete_where P t))"
  by (simp add: delete_where_def distinct_map_filter)

section \<open>First match\<close>

lemma find_mem: "List.find P t = Some x \<Longrightarrow> x \<in> set t \<and> P x"
  by (auto simp: find_Some_iff)

lemma find_none: "List.find P t = None \<longleftrightarrow> (\<forall>r\<in>set t. \<not> P r)"
  by (auto simp: find_None_iff)

lemma find_isSome: "(\<exists>x. List.find P t = Some x) \<longleftrightarrow> (\<exists>r\<in>set t. P r)"
  using find_none [of P t] by (cases "List.find P t") auto

lemma find_distinct_key:
  assumes "distinct (map k t)" "x \<in> set t" "k x = v"
  shows "List.find (\<lambda>r. k r = v) t = Some x"
proof -
  obtain y where y: "List.find (\<lambda>r. k r = v) t = Some y"
    using assms(2,3) find_isSome [of "\<lambda>r. k r = v" t] by auto
  then have "y = x" using assms find_mem [OF y] by (auto dest: distinct_key_unique)
  with y show ?thesis by simp
qed

lemma find_delete_where_other:
  "(\<And>r. Q r \<Longrightarrow> \<not> P r) \<Longrightarrow> List.find P (delete_where Q t) = List.find P t"
  by (induction t) auto

section \<open>Ordered selection\<close>

text \<open>\<^verbatim>\<open>ORDER BY key LIMIT 1\<close>: the head of the rows sorted by the key.\<close>

definition first_by :: "('a \<Rightarrow> 'k::linorder) \<Rightarrow> 'a list \<Rightarrow> 'a option" where
  "first_by k t = (case sort_key k t of [] \<Rightarrow> None | x # _ \<Rightarrow> Some x)"

lemma first_by_None [simp]: "first_by k t = None \<longleftrightarrow> t = []"
proof -
  have "sort_key k t = [] \<longleftrightarrow> t = []"
    by (metis length_0_conv length_sort)
  then show ?thesis by (auto simp: first_by_def split: list.splits)
qed

lemma first_by_Some:
  assumes "first_by k t = Some x"
  shows "x \<in> set t \<and> (\<forall>y\<in>set t. k x \<le> k y)"
proof -
  from assms obtain xs where s: "sort_key k t = x # xs"
    by (auto simp: first_by_def split: list.splits)
  have srt: "sorted (map k (x # xs))"
    using sorted_sort_key [of k t] by (simp only: s)
  have st: "set t = set (x # xs)"
    using set_sort [of k t] by (simp only: s)
  from srt st show ?thesis by auto
qed

end
