(* ===== verification/Sq_Models.thy ===== *)
theory Sq_Models
  imports Sq_Prelude
begin

text \<open>
  The rows of the database and the methods of the row classes (\<^verbatim>\<open>core/models.py\<close>). One record
  per table; a nullable column is an \<open>option\<close>. The job record carries every column of
  \<^verbatim>\<open>sqlery_queued_job\<close>: the history table has the same columns, so both tables hold values of
  this type, as the \<^verbatim>\<open>INSERT .. SELECT\<close> of the terminal transition requires. The clock is an
  argument (\<open>now\<close>) of every method that reads it.
\<close>

section \<open>Rows\<close>

datatype job_status = Queued | Running | Success | Failed | Archived | Shutting_down

text \<open>One entry of \<^verbatim>\<open>QueuedJob.runs\<close>; its two ISO strings are kept as timestamps.\<close>

record run_record =
  run_attempt_number :: nat
  run_started_at :: "timestamp option"
  run_finished_at :: "timestamp option"
  run_status :: job_status
  run_duration :: "rat option"
  run_output :: string
  run_error :: string

record job =
  j_id :: job_id
  j_task_path :: string
  j_kwargs :: json
  j_queue_name :: string
  j_priority :: int
  j_status :: job_status
  j_parent_job_id :: "job_id option"
  j_retry_count :: nat
  j_max_retries :: int
  j_retry_backoff :: rat
  j_allow_parallel :: bool
  j_timeout_seconds :: "int option"
  j_worker_pid :: "int option"
  j_child_pid :: "int option"
  j_job_name :: "string option"
  j_tags :: "string list"
  j_retry_intervals :: "rat list option"
  j_meta :: "json option"
  j_dependencies :: "json list"
  j_on_success_path :: string
  j_on_failure_path :: string
  j_ttl :: "int option"
  j_result_ttl :: "int option"
  j_failure_ttl :: "int option"
  j_version :: int
  j_runs :: "run_record list"
  j_scheduled_task_id :: "int option"
  j_worker_id :: "string option"
  j_created_at :: timestamp
  j_scheduled_at :: "timestamp option"
  j_started_at :: "timestamp option"
  j_finished_at :: "timestamp option"
  j_duration_seconds :: "rat option"
  j_output :: string
  j_error :: string
  j_traceback :: string
  j_termination_reason :: string

datatype outcome = Outcome_success | Outcome_failed | Outcome_abandoned

record attempt =
  a_id :: int
  a_job_id :: job_id
  a_token :: string
  a_worker_id :: "string option"
  a_worker_pid :: "int option"
  a_child_pid :: "int option"
  a_claimed_at :: timestamp
  a_finished_at :: "timestamp option"
  a_outcome :: "outcome option"

record ready_entry =
  r_slot :: nat
  r_job_id :: job_id
  r_queue_name :: string
  r_priority :: int
  r_created_at :: timestamp
  r_scheduled_at :: "timestamp option"

record blocked_row =
  b_job_id :: job_id
  b_dependency_id :: job_id
  b_created_at :: timestamp
  b_blocked_at :: timestamp

datatype worker_status = W_idle | W_busy | W_dead

record worker =
  w_id :: string
  w_node_id :: string
  w_pid :: int
  w_status :: worker_status
  w_current_job_id :: "job_id option"
  w_last_heartbeat :: timestamp
  w_jobs_processed :: int

record daemon_lease =
  l_queue_name :: string
  l_daemon_id :: string
  l_node_id :: string
  l_pid :: int
  l_acquired_at :: timestamp
  l_expires_at :: timestamp
  l_version :: int

datatype schedule_type = Cron | Interval | Once | Other_type

record scheduled_task =
  t_id :: int
  t_name :: string
  t_task_path :: string
  t_cron_expression :: string
  t_queue_name :: string
  t_priority :: int
  t_enabled :: bool
  t_next_run_at :: "timestamp option"

text \<open>
  The arguments of \<^verbatim>\<open>create_job\<close>, and the staging row of a job scheduled far ahead: its payload
  holds the task kwargs and, in the current format, the remaining creation arguments.
\<close>

record job_spec =
  s_task_path :: string
  s_kwargs :: json
  s_queue_name :: string
  s_priority :: int
  s_scheduled_at :: "timestamp option"
  s_max_retries :: int
  s_retry_backoff :: rat
  s_allow_parallel :: bool
  s_timeout_seconds :: "int option"
  s_retry_count :: "nat option"
  s_scheduled_task_id :: "int option"
  s_job_name :: "string option"
  s_retry_intervals :: "rat list option"
  s_meta :: "json option"
  s_dependencies :: "json list option"
  s_on_success_path :: string
  s_on_failure_path :: string
  s_ttl :: "int option"
  s_result_ttl :: "int option"
  s_failure_ttl :: "int option"
  s_parent_job_id :: "job_id option"
  s_tags :: "string list option"

record staged_spec =
  p_retry_backoff :: rat
  p_allow_parallel :: bool
  p_timeout_seconds :: "int option"
  p_retry_count :: nat
  p_scheduled_task_id :: "int option"
  p_job_name :: "string option"
  p_retry_intervals :: "rat list option"
  p_meta :: "json option"
  p_dependencies :: "json list"
  p_on_success_path :: string
  p_on_failure_path :: string
  p_ttl :: "int option"
  p_result_ttl :: "int option"
  p_failure_ttl :: "int option"
  p_parent_job_id :: "job_id option"
  p_tags :: "string list"

datatype payload = Full_payload json staged_spec | Legacy_payload json

record staged_job =
  sj_id :: job_id
  sj_created_at :: timestamp
  sj_queue_name :: string
  sj_task_path :: string
  sj_payload :: payload
  sj_scheduled_at :: timestamp
  sj_priority :: int
  sj_max_retries :: int

section \<open>Methods of the job row\<close>

text \<open>What a task returned: text, or an awaitable that nobody awaited.\<close>

datatype task_output = Output string | Awaitable

definition reject_unawaited_coroutine :: "task_output \<Rightarrow> unit result" where
  "reject_unawaited_coroutine out = (case out of Awaitable \<Rightarrow> Inl TypeError | Output _ \<Rightarrow> Inr ())"

fun py_str :: "task_output \<Rightarrow> string" where
  "py_str (Output s) = s"
| "py_str Awaitable = []"

definition run_of :: "job \<Rightarrow> job_status \<Rightarrow> string \<Rightarrow> string \<Rightarrow> run_record" where
  "run_of j st output error =
     \<lparr>run_attempt_number = j_retry_count j,
      run_started_at = j_started_at j,
      run_finished_at = j_finished_at j,
      run_status = st,
      run_duration = j_duration_seconds j,
      run_output = take 1000 output,
      run_error = take 1000 error\<rparr>"

definition record_run :: "job \<Rightarrow> job_status \<Rightarrow> string \<Rightarrow> string \<Rightarrow> job" where
  "record_run j st output error = j\<lparr>j_runs := j_runs j @ [run_of j st output error]\<rparr>"

text \<open>The assignments \<^verbatim>\<open>mark_success\<close> and \<^verbatim>\<open>mark_failed\<close> share: final status, clock, duration.\<close>

definition stamp_finished :: "timestamp \<Rightarrow> job_status \<Rightarrow> job \<Rightarrow> job" where
  "stamp_finished now st j =
     (let j1 = j\<lparr>j_status := st, j_finished_at := Some now\<rparr>
      in case j_started_at j of
           Some started \<Rightarrow> j1\<lparr>j_duration_seconds := Some (total_seconds (now - started))\<rparr>
         | None \<Rightarrow> j1)"

definition mark_success :: "timestamp \<Rightarrow> task_output \<Rightarrow> job \<Rightarrow> job result" where
  "mark_success now out j =
     (case reject_unawaited_coroutine out of
        Inl e \<Rightarrow> Inl e
      | Inr _ \<Rightarrow>
          Inr (record_run ((stamp_finished now Success j)\<lparr>j_output := py_str out\<rparr>)
                 Success (py_str out) []))"

definition mark_failed :: "timestamp \<Rightarrow> string \<Rightarrow> string \<Rightarrow> string \<Rightarrow> job \<Rightarrow> job" where
  "mark_failed now error tb reason j =
     record_run
       ((stamp_finished now Failed j)
          \<lparr>j_error := error, j_traceback := tb, j_termination_reason := reason\<rparr>)
       Failed [] error"

definition should_retry :: "job \<Rightarrow> bool" where
  "should_retry j \<longleftrightarrow>
     j_status j = Failed \<and> j_max_retries j > 0 \<and> int (j_retry_count j) < j_max_retries j"

definition calculate_retry_delay :: "job \<Rightarrow> rat" where
  "calculate_retry_delay j = j_retry_backoff j * 2 ^ j_retry_count j"

section \<open>Identifiers and liveness\<close>

text \<open>
  The 62-bit id taken from the integer value of a version-7 UUID. The UUID library is outside the
  repository: its value is the argument.
\<close>

definition generate_job_id_from_uuid7 :: "int \<Rightarrow> job_id" where
  "generate_job_id_from_uuid7 u = u mod 2 ^ 62"

definition is_worker_beating ::
  "worker_status option \<Rightarrow> timestamp option \<Rightarrow> timestamp \<Rightarrow> int \<Rightarrow> bool" where
  "is_worker_beating st hb now timeout_seconds =
     (case hb of
        None \<Rightarrow> False
      | Some t \<Rightarrow> st \<noteq> Some W_dead \<and> now - t < seconds timeout_seconds)"

definition is_worker_deletable ::
  "worker_status option \<Rightarrow> timestamp option \<Rightarrow> timestamp \<Rightarrow> int \<Rightarrow> bool" where
  "is_worker_deletable st hb now threshold_seconds =
     (if st = Some W_dead then True
      else case hb of None \<Rightarrow> True | Some t \<Rightarrow> now - t \<ge> seconds threshold_seconds)"

definition worker_delete_staleness_threshold_seconds :: int where
  "worker_delete_staleness_threshold_seconds = 300"

section \<open>Lemmas\<close>

lemma stamp_finished_simps [simp]:
  "j_status (stamp_finished now st j) = st"
  "j_finished_at (stamp_finished now st j) = Some now"
  "j_id (stamp_finished now st j) = j_id j"
  "j_created_at (stamp_finished now st j) = j_created_at j"
  "j_version (stamp_finished now st j) = j_version j"
  "j_parent_job_id (stamp_finished now st j) = j_parent_job_id j"
  "j_started_at (stamp_finished now st j) = j_started_at j"
  "j_runs (stamp_finished now st j) = j_runs j"
  "j_retry_count (stamp_finished now st j) = j_retry_count j"
  by (simp_all add: stamp_finished_def Let_def split: option.splits)

lemma record_run_simps [simp]:
  "j_status (record_run j st out err) = j_status j"
  "j_id (record_run j st out err) = j_id j"
  "j_created_at (record_run j st out err) = j_created_at j"
  "j_version (record_run j st out err) = j_version j"
  "j_parent_job_id (record_run j st out err) = j_parent_job_id j"
  "j_finished_at (record_run j st out err) = j_finished_at j"
  "j_termination_reason (record_run j st out err) = j_termination_reason j"
  "j_error (record_run j st out err) = j_error j"
  "j_output (record_run j st out err) = j_output j"
  "j_runs (record_run j st out err) = j_runs j @ [run_of j st out err]"
  by (simp_all add: record_run_def)

lemma mark_failed_simps [simp]:
  "j_status (mark_failed now e tb rs j) = Failed"
  "j_id (mark_failed now e tb rs j) = j_id j"
  "j_created_at (mark_failed now e tb rs j) = j_created_at j"
  "j_version (mark_failed now e tb rs j) = j_version j"
  "j_parent_job_id (mark_failed now e tb rs j) = j_parent_job_id j"
  "j_finished_at (mark_failed now e tb rs j) = Some now"
  "j_termination_reason (mark_failed now e tb rs j) = rs"
  "j_error (mark_failed now e tb rs j) = e"
  by (simp_all add: mark_failed_def)

lemma mark_success_Inr:
  "mark_success now out j = Inr j' \<Longrightarrow>
     j_status j' = Success \<and> j_id j' = j_id j \<and> j_created_at j' = j_created_at j \<and>
     j_version j' = j_version j \<and> j_parent_job_id j' = j_parent_job_id j \<and>
     j_finished_at j' = Some now"
  by (auto simp: mark_success_def split: sum.splits)

lemma mark_success_awaitable [simp]: "mark_success now Awaitable j = Inl TypeError"
  by (simp add: mark_success_def reject_unawaited_coroutine_def)

text \<open>A worker that the dashboard lets the user delete is never one that counts as alive.\<close>

lemma deletable_not_beating:
  assumes "is_worker_deletable st hb now threshold" and "timeout \<le> threshold"
  shows "\<not> is_worker_beating st hb now timeout"
  using assms
  by (auto simp: is_worker_deletable_def is_worker_beating_def seconds_def
      split: option.splits if_splits)

lemma generate_job_id_range:
  "0 \<le> generate_job_id_from_uuid7 u \<and> generate_job_id_from_uuid7 u < 2 ^ 62"
  by (simp add: generate_job_id_from_uuid7_def)

lemma generate_job_id_ignores_high_bits:
  "generate_job_id_from_uuid7 (hi * 2 ^ 62 + r) = generate_job_id_from_uuid7 r"
  by (simp add: generate_job_id_from_uuid7_def)

end
