(* ===== verification/Sq_Retry.thy ===== *)
theory Sq_Retry
  imports Sq_Models
begin

text \<open>
  The retry policy (\<^verbatim>\<open>core/retry.py\<close>, and \<^verbatim>\<open>compute_retry_delay\<close> / \<^verbatim>\<open>_should_retry\<close> of
  \<^verbatim>\<open>core/worker.py\<close>): the \<^verbatim>\<open>retry_pending\<close> marker, the budget, the exception policy, the delay and
  the columns of the retry row.

  User code is a parameter: \<open>load_task path\<close> is the policy declared on the task function, \<open>None\<close>
  when importing it fails; \<open>isinst\<close> is Python's \<^verbatim>\<open>isinstance\<close> on the user's exception classes;
  \<open>uniform a b\<close> is the draw of \<^verbatim>\<open>random.uniform\<close>.
\<close>

section \<open>The retry marker\<close>

definition RETRY_PENDING :: string where
  "RETRY_PENDING = ''retry_pending''"

definition pending_reason :: "string \<Rightarrow> string" where
  "pending_reason reason = RETRY_PENDING @ (if reason \<noteq> [] then '':'' @ reason else [])"

definition settled_reason :: "string \<Rightarrow> string" where
  "settled_reason reason =
     (if reason = RETRY_PENDING then []
      else if startswith reason (RETRY_PENDING @ '':'') then drop (length RETRY_PENDING + 1) reason
      else reason)"

definition is_retry_pending :: "string option \<Rightarrow> bool" where
  "is_retry_pending reason =
     (case reason of
        None \<Rightarrow> False
      | Some r \<Rightarrow> r \<noteq> [] \<and> (r = RETRY_PENDING \<or> startswith r (RETRY_PENDING @ '':'')))"

definition retry_budget_left :: "job \<Rightarrow> bool" where
  "retry_budget_left j \<longleftrightarrow> j_max_retries j > 0 \<and> int (j_retry_count j) < j_max_retries j"

section \<open>The exception policy\<close>

datatype exc = Retry_exc "rat option" | Other_exc string

record retry_policy =
  autoretry_for :: "string list option"
  backoff_max :: "rat option"
  jitter :: "bool option"

definition no_policy :: retry_policy where
  "no_policy = \<lparr>autoretry_for = None, backoff_max = None, jitter = None\<rparr>"

text \<open>The attributes \<^verbatim>\<open>@job(...)\<close> sets on a task function; an empty tuple counts as none.\<close>

definition get_retry_policy :: "string list option \<Rightarrow> rat option \<Rightarrow> bool option \<Rightarrow> retry_policy" where
  "get_retry_policy af bmax jit =
     \<lparr>autoretry_for = (case af of Some (c # cs) \<Rightarrow> Some (c # cs) | _ \<Rightarrow> None),
      backoff_max = bmax, jitter = jit\<rparr>"

fun is_Retry :: "exc option \<Rightarrow> bool" where
  "is_Retry (Some (Retry_exc _)) = True"
| "is_Retry _ = False"

definition policy_allows_retry ::
  "(string \<Rightarrow> retry_policy option) \<Rightarrow> (exc \<Rightarrow> string \<Rightarrow> bool) \<Rightarrow> job \<Rightarrow> exc option \<Rightarrow> bool" where
  "policy_allows_retry load_task isinst j e =
     (if is_Retry e then True
      else case load_task (j_task_path j) of
             None \<Rightarrow> True
           | Some policy \<Rightarrow>
               (case autoretry_for policy of
                  None \<Rightarrow> True
                | Some cs \<Rightarrow>
                    (case e of None \<Rightarrow> False | Some x \<Rightarrow> (\<exists>c\<in>set cs. isinst x c))))"

fun retry_countdown :: "exc option \<Rightarrow> rat option" where
  "retry_countdown (Some (Retry_exc c)) = c"
| "retry_countdown _ = None"

definition worker_should_retry ::
  "(string \<Rightarrow> retry_policy option) \<Rightarrow> (exc \<Rightarrow> string \<Rightarrow> bool) \<Rightarrow> job \<Rightarrow> exc option \<Rightarrow> bool" where
  "worker_should_retry load_task isinst j e =
     (if j_max_retries j \<le> 0 then False
      else if int (j_retry_count j) \<ge> j_max_retries j then False
      else policy_allows_retry load_task isinst j e)"

section \<open>The delay\<close>

text \<open>
  \<open>cap\<close> and \<open>jit\<close> are the settings \<^verbatim>\<open>RETRY_BACKOFF_MAX\<close> and \<^verbatim>\<open>RETRY_JITTER\<close>; a cap of
  \<^verbatim>\<open>None\<close> or 0 is off.
\<close>

definition compute_retry_delay ::
  "(rat \<Rightarrow> rat \<Rightarrow> rat) \<Rightarrow> rat option \<Rightarrow> bool \<Rightarrow> rat \<Rightarrow> nat \<Rightarrow> rat list option \<Rightarrow> rat" where
  "compute_retry_delay uniform cap jit backoff retry_count retry_intervals =
     (case retry_intervals of
        Some (x # xs) \<Rightarrow> (x # xs) ! min retry_count (length (x # xs) - 1)
      | _ \<Rightarrow>
          (let delay = backoff * 2 ^ retry_count;
               capped = (case cap of
                           Some c \<Rightarrow> if c \<noteq> 0 then min delay c else delay
                         | None \<Rightarrow> delay)
           in if jit then uniform 0 capped else capped))"

definition shape_retry_delay ::
  "(rat \<Rightarrow> rat \<Rightarrow> rat) \<Rightarrow> (string \<Rightarrow> retry_policy option) \<Rightarrow> bool \<Rightarrow> rat \<Rightarrow> job \<Rightarrow>
     rat option \<Rightarrow> rat" where
  "shape_retry_delay uniform load_task global_jitter delay j countdown =
     (case countdown of
        Some c \<Rightarrow> c
      | None \<Rightarrow>
          (let policy = (case load_task (j_task_path j) of Some p \<Rightarrow> p | None \<Rightarrow> no_policy);
               capped = (case backoff_max policy of
                           Some m \<Rightarrow> if m \<noteq> 0 then min delay m else delay
                         | None \<Rightarrow> delay)
           in if jitter policy = Some True \<and> \<not> global_jitter then uniform 0 capped else capped))"

section \<open>The retry row\<close>

text \<open>\<^verbatim>\<open>re.sub(r":retry:\\d+", "", name)\<close>: every leftmost match is removed, scanning resumes after it.\<close>

definition retry_tag :: string where
  "retry_tag = '':retry:''"

function strip_retry :: "string \<Rightarrow> string" where
  "strip_retry s =
     (if startswith s retry_tag \<and> takeWhile is_digit (drop (length retry_tag) s) \<noteq> []
      then strip_retry (dropWhile is_digit (drop (length retry_tag) s))
      else case s of [] \<Rightarrow> [] | c # cs \<Rightarrow> c # strip_retry cs)"
  by pat_completeness auto
termination
proof (relation "measure length")
  fix s :: string
  assume a: "startswith s retry_tag \<and> takeWhile is_digit (drop (length retry_tag) s) \<noteq> []"
  have "s \<noteq> []" using a by (auto simp: startswith_def retry_tag_def)
  then have "length (drop (length retry_tag) s) < length s" by (simp add: retry_tag_def)
  then have "length (dropWhile is_digit (drop (length retry_tag) s)) < length s"
    using length_dropWhile_le [of is_digit "drop (length retry_tag) s"] by linarith
  then show "(dropWhile is_digit (drop (length retry_tag) s), s) \<in> measure length" by simp
qed auto

declare strip_retry.simps [simp del]

definition retry_name :: "string option \<Rightarrow> nat \<Rightarrow> string option" where
  "retry_name name retry_count =
     (case name of
        None \<Rightarrow> None
      | Some n \<Rightarrow> if n = [] then None
                  else Some (strip_retry n @ retry_tag @ show_nat (retry_count + 1)))"

record job_fields =
  f_task_path :: string
  f_kwargs :: json
  f_queue_name :: string
  f_priority :: int
  f_parent_job_id :: "job_id option"
  f_retry_count :: nat
  f_max_retries :: int
  f_retry_backoff :: rat
  f_allow_parallel :: bool
  f_timeout_seconds :: "int option"
  f_job_name :: "string option"
  f_retry_intervals :: "rat list option"
  f_dependencies :: "json list"
  f_tags :: "string list"
  f_meta :: "json option"
  f_on_success_path :: string
  f_on_failure_path :: string
  f_result_ttl :: "int option"
  f_failure_ttl :: "int option"

definition dict_or_empty :: "json \<Rightarrow> json" where
  "dict_or_empty k = (case k of JObj kv \<Rightarrow> JObj kv | _ \<Rightarrow> JObj [])"

definition retry_job_fields :: "job \<Rightarrow> job_fields \<times> rat" where
  "retry_job_fields j =
     (let backoff = (if j_retry_backoff j = 0 then 1 else j_retry_backoff j);
          delay = (case j_retry_intervals j of
                     Some (x # xs) \<Rightarrow> (x # xs) ! min (j_retry_count j) (length (x # xs) - 1)
                   | _ \<Rightarrow> backoff * 2 ^ j_retry_count j)
      in (\<lparr>f_task_path = j_task_path j,
           f_kwargs = dict_or_empty (j_kwargs j),
           f_queue_name = j_queue_name j,
           f_priority = j_priority j,
           f_parent_job_id = Some (j_id j),
           f_retry_count = j_retry_count j + 1,
           f_max_retries = j_max_retries j,
           f_retry_backoff = backoff,
           f_allow_parallel = j_allow_parallel j,
           f_timeout_seconds = j_timeout_seconds j,
           f_job_name = retry_name (j_job_name j) (j_retry_count j),
           f_retry_intervals = j_retry_intervals j,
           f_dependencies = j_dependencies j,
           f_tags = j_tags j,
           f_meta = j_meta j,
           f_on_success_path = j_on_success_path j,
           f_on_failure_path = j_on_failure_path j,
           f_result_ttl = j_result_ttl j,
           f_failure_ttl = j_failure_ttl j\<rparr>, delay))"

section \<open>Lemmas\<close>

lemma RETRY_PENDING_nonempty [simp]: "RETRY_PENDING \<noteq> []"
  by (simp add: RETRY_PENDING_def)

lemma settled_pending [simp]: "settled_reason (pending_reason r) = r"
proof (cases "r = []")
  case True
  then show ?thesis by (simp add: settled_reason_def pending_reason_def)
next
  case False
  have "RETRY_PENDING @ '':'' @ r \<noteq> RETRY_PENDING" by simp
  moreover have "startswith (RETRY_PENDING @ '':'' @ r) (RETRY_PENDING @ '':'')"
    using startswith_append [of "RETRY_PENDING @ '':''" r] by simp
  ultimately show ?thesis
    using False by (simp add: settled_reason_def pending_reason_def)
qed

lemma pending_is_pending [simp]: "is_retry_pending (Some (pending_reason r))"
proof (cases "r = []")
  case True
  then show ?thesis by (simp add: is_retry_pending_def pending_reason_def)
next
  case False
  then show ?thesis
    using startswith_append [of "RETRY_PENDING @ '':''" r]
    by (simp add: is_retry_pending_def pending_reason_def)
qed

lemma is_retry_pending_None [simp]: "\<not> is_retry_pending None"
  by (simp add: is_retry_pending_def)

lemma is_retry_pending_empty [simp]: "\<not> is_retry_pending (Some [])"
  by (simp add: is_retry_pending_def)

lemma is_retry_pending_startswith:
  "is_retry_pending (Some r) \<Longrightarrow> startswith r RETRY_PENDING"
  by (auto simp: is_retry_pending_def startswith_iff)

lemma settled_not_pending:
  "\<not> is_retry_pending (Some r) \<Longrightarrow> settled_reason r = r"
  by (auto simp: is_retry_pending_def settled_reason_def)

lemma worker_should_retry_budget:
  "worker_should_retry lt isi j e \<Longrightarrow> retry_budget_left j"
  by (auto simp: worker_should_retry_def retry_budget_left_def split: if_splits)

lemma should_retry_budget: "should_retry j \<longleftrightarrow> j_status j = Failed \<and> retry_budget_left j"
  by (auto simp: should_retry_def retry_budget_left_def)

subsection \<open>Names along a retry chain\<close>

lemma retry_tag_simps [simp]: "length retry_tag = 7" "retry_tag \<noteq> []"
  by (simp_all add: retry_tag_def)

lemma colon_not_digit [simp]: "\<not> is_digit (CHR '':'')" "\<not> is_digit (CHR ''r'')"
  by (simp_all add: is_digit_def)

lemma retry_tag_hd: "retry_tag = CHR '':'' # ''retry:''"
  by (simp add: retry_tag_def)

lemma strip_retry_no_match:
  assumes "\<not> (startswith (c # cs) retry_tag \<and> takeWhile is_digit (drop 7 (c # cs)) \<noteq> [])"
  shows "strip_retry (c # cs) = c # strip_retry cs"
  by (subst strip_retry.simps) (use assms in auto)

text \<open>A match never straddles the place where a fresh tag was appended.\<close>

lemma short_no_match:
  assumes "s \<noteq> []" "length s < 7" "startswith (s @ retry_tag @ ds) retry_tag"
  shows "takeWhile is_digit (drop 7 (s @ retry_tag @ ds)) = []"
proof -
  define k where "k = length s"
  have k: "0 < k" "k < 7" using assms by (auto simp: k_def)
  have take7: "take 7 (s @ retry_tag @ ds) = retry_tag"
    using assms(3) by (simp add: startswith_def)
  have "(s @ retry_tag @ ds) ! k = retry_tag ! 0"
    by (simp add: k_def nth_append retry_tag_def)
  moreover have "(s @ retry_tag @ ds) ! k = retry_tag ! k"
    using k take7 by (metis nth_take)
  ultimately have eq: "retry_tag ! k = CHR '':''" by (simp add: retry_tag_def)
  have "k = 1 \<or> k = 2 \<or> k = 3 \<or> k = 4 \<or> k = 5 \<or> k = 6" using k by arith
  then have "k = 6" using eq by (auto simp: retry_tag_def)
  then have "drop 7 (s @ retry_tag @ ds) = ''retry:'' @ ds"
    by (simp add: k_def retry_tag_hd)
  then show ?thesis by (simp only:) simp
qed

lemma strip_retry_append:
  assumes "ds \<noteq> []" "\<forall>c\<in>set ds. is_digit c"
  shows "strip_retry (s @ retry_tag @ ds) = strip_retry s"
proof (induction s rule: strip_retry.induct)
  case (1 s)
  let ?m = "startswith s retry_tag \<and> takeWhile is_digit (drop (length retry_tag) s) \<noteq> []"
  let ?t = "s @ retry_tag @ ds"
  show ?case
  proof (cases ?m)
    case True
    then have len: "7 \<le> length s"
      by (auto simp: startswith_iff)
    have d: "drop 7 ?t = drop 7 s @ CHR '':'' # ''retry:'' @ ds"
      using len by (simp add: retry_tag_hd)
    have tm: "startswith ?t retry_tag" using True by (auto simp: startswith_iff)
    have tw: "takeWhile is_digit (drop 7 ?t) \<noteq> []"
    proof -
      obtain c cs where "drop 7 s = c # cs" "is_digit c"
        using True by (cases "drop 7 s") (auto split: if_splits)
      then show ?thesis by (simp add: d)
    qed
    have dw: "dropWhile is_digit (drop 7 ?t) = dropWhile is_digit (drop 7 s) @ retry_tag @ ds"
      unfolding d by (subst dropWhile_append3) (simp_all add: retry_tag_hd)
    have "strip_retry ?t = strip_retry (dropWhile is_digit (drop 7 s) @ retry_tag @ ds)"
      using tm tw dw by (subst strip_retry.simps) simp
    also have "\<dots> = strip_retry (dropWhile is_digit (drop 7 s))"
      using "1.IH"(1) [OF True] by simp
    also have "\<dots> = strip_retry s"
      using True by (subst (2) strip_retry.simps) simp
    finally show ?thesis .
  next
    case False
    show ?thesis
    proof (cases s)
      case Nil
      have dw: "dropWhile is_digit ds = []" using assms(2) by simp
      have tw: "takeWhile is_digit ds \<noteq> []" using assms by (cases ds) auto
      have nil: "strip_retry [] = []"
        by (subst strip_retry.simps) (simp add: startswith_def)
      have "strip_retry (retry_tag @ ds) = strip_retry (dropWhile is_digit ds)"
        using tw by (subst strip_retry.simps) simp
      then show ?thesis by (simp only: Nil append_Nil dw nil)
    next
      case (Cons c cs)
      have nm: "\<not> (startswith ?t retry_tag \<and> takeWhile is_digit (drop 7 ?t) \<noteq> [])"
      proof (cases "length s < 7")
        case True
        then show ?thesis using short_no_match [of s ds] Cons by blast
      next
        case long: False
        then have "startswith ?t retry_tag \<longleftrightarrow> startswith s retry_tag"
          by (simp add: startswith_def)
        moreover have "drop 7 ?t = drop 7 s @ CHR '':'' # ''retry:'' @ ds"
          using long by (simp add: retry_tag_hd)
        moreover have "takeWhile is_digit (drop 7 s @ CHR '':'' # x) = [] \<longleftrightarrow>
            takeWhile is_digit (drop 7 s) = []" for x
          by (cases "drop 7 s") auto
        ultimately show ?thesis using False by simp
      qed
      have nm': "\<not> (startswith (c # cs @ retry_tag @ ds) retry_tag \<and>
          takeWhile is_digit (drop 7 (c # cs @ retry_tag @ ds)) \<noteq> [])"
        using nm unfolding Cons append_Cons .
      have "strip_retry ?t = c # strip_retry (cs @ retry_tag @ ds)"
        unfolding Cons append_Cons by (rule strip_retry_no_match [OF nm'])
      also have "\<dots> = c # strip_retry cs"
        using "1.IH"(2) [OF False Cons] by simp
      also have "\<dots> = strip_retry s"
        unfolding Cons by (rule strip_retry_no_match [symmetric]) (use False Cons in simp)
      finally show ?thesis .
    qed
  qed
qed

lemma retry_name_of_retry:
  assumes "strip_retry n = n"
  shows "retry_name (Some (n @ retry_tag @ show_nat m)) k = Some (n @ retry_tag @ show_nat (k + 1))"
  using assms strip_retry_append [of "show_nat m" n] by (simp add: retry_name_def)

subsection \<open>Delays\<close>

lemma compute_retry_delay_intervals:
  assumes "retry_intervals = Some xs" "xs \<noteq> []"
  shows "compute_retry_delay u cap jit b n retry_intervals \<in> set xs"
proof -
  obtain y ys where xs: "xs = y # ys" using assms by (cases xs) auto
  have "(y # ys) ! min n (length (y # ys) - 1) \<in> set (y # ys)"
    by (rule nth_mem) simp
  then show ?thesis using assms xs by (simp only: compute_retry_delay_def option.case list.case)
qed

section \<open>Properties\<close>

text \<open>Marking a termination reason as owing a retry and settling it later gives the original
  reason back; a marked reason is recognised as pending, and a reason that is not pending is
  left alone by settling.\<close>

theorem retry_marker_roundtrip:
  "settled_reason (pending_reason r) = r \<and> is_retry_pending (Some (pending_reason r)) \<and>
   (is_retry_pending (Some q) \<or> settled_reason q = q)"
  using settled_not_pending by auto

end
