(* ===== verification/Sq_Decisions.thy ===== *)
theory Sq_Decisions
  imports Sq_Retry
begin

text \<open>
  The framework-agnostic decisions of the queue: \<^verbatim>\<open>core/attempts.py\<close> (when a job counts as
  running, whether a claim or a completion is accepted), \<^verbatim>\<open>core/ready.py\<close> (what the
  dependencies of a job decide) and the decision part of \<^verbatim>\<open>core/history.py\<close> (what a stray
  finished row becomes). They are pure functions of values the backend has read; the SQL that
  reads and writes is in the theory of the tables.
\<close>

section \<open>Attempts\<close>

definition derived_status :: "job_status option \<Rightarrow> bool \<Rightarrow> job_status option" where
  "derived_status stored_status has_open_attempt =
     (if has_open_attempt \<and> stored_status = Some Queued then Some Running else stored_status)"

datatype verdict = V_ok | V_stale

text \<open>\<^verbatim>\<open>(version or 0) != (expected_version or 0)\<close>: a null version counts as 0.\<close>

definition claim_verdict ::
  "job_status option \<Rightarrow> int option \<Rightarrow> int option \<Rightarrow> bool \<Rightarrow> verdict" where
  "claim_verdict stored_status version expected_version has_open_attempt =
     (if stored_status \<noteq> Some Queued then V_stale
      else if has_open_attempt then V_stale
      else case expected_version of
             None \<Rightarrow> V_ok
           | Some e \<Rightarrow> if (case version of None \<Rightarrow> 0 | Some v \<Rightarrow> v) \<noteq> e then V_stale else V_ok)"

record attempt_handle =
  h_id :: int
  h_token :: string
  h_job_id :: job_id
  h_claimed_at :: "timestamp option"
  h_worker_id :: "string option"
  h_worker_pid :: "int option"

definition decide_close :: "nat \<Rightarrow> attempt_handle \<Rightarrow> unit result" where
  "decide_close n handle = (if n \<noteq> 1 then Inl JobFencingError else Inr ())"

text \<open>
  The start-up guards \<^verbatim>\<open>require_attempt_table\<close>, \<^verbatim>\<open>require_ready_tables\<close> and
  \<^verbatim>\<open>require_history_table\<close>: a backend without the check method passes.
\<close>

definition require_table :: "bool option \<Rightarrow> unit result" where
  "require_table exists_check =
     (case exists_check of
        None \<Rightarrow> Inr ()
      | Some present \<Rightarrow> if \<not> present then Inl TableMissingError else Inr ())"

section \<open>Dependencies\<close>

text \<open>\<^verbatim>\<open>int(raw)\<close> on a JSON value: truncation of floats, sign, blanks and single underscores of
  a decimal literal; anything else raises.\<close>

definition is_space :: "char \<Rightarrow> bool" where
  "is_space c \<longleftrightarrow> c \<in> {CHR '' '', CHR 0x09, CHR 0x0A, CHR 0x0B, CHR 0x0C, CHR 0x0D}"

definition py_strip :: "string \<Rightarrow> string" where
  "py_strip s = rev (dropWhile is_space (rev (dropWhile is_space s)))"

fun digits_val :: "int \<Rightarrow> string \<Rightarrow> int option" where
  "digits_val acc [] = Some acc"
| "digits_val acc (c # cs) =
     (if is_digit c then digits_val (acc * 10 + (int (of_char c) - 48)) cs
      else if c = CHR ''_'' then
        (case cs of d # _ \<Rightarrow> if is_digit d then digits_val acc cs else None | [] \<Rightarrow> None)
      else None)"

fun int_literal :: "string \<Rightarrow> int option" where
  "int_literal [] = None"
| "int_literal (c # cs) = (if is_digit c then digits_val 0 (c # cs) else None)"

definition int_of_str :: "string \<Rightarrow> int result" where
  "int_of_str s =
     (let body = py_strip s;
          parsed = (case body of
                      [] \<Rightarrow> None
                    | c # cs \<Rightarrow>
                        if c = CHR ''-'' then map_option uminus (int_literal cs)
                        else if c = CHR ''+'' then int_literal cs
                        else int_literal body)
      in case parsed of None \<Rightarrow> Inl ValueError | Some n \<Rightarrow> Inr n)"

definition trunc_rat :: "rat \<Rightarrow> int" where
  "trunc_rat q = (if q \<ge> 0 then \<lfloor>q\<rfloor> else \<lceil>q\<rceil>)"

fun py_int :: "json \<Rightarrow> int result" where
  "py_int (JInt n) = Inr n"
| "py_int (JBool b) = Inr (if b then 1 else 0)"
| "py_int (JFloat q) = Inr (trunc_rat q)"
| "py_int (JStr s) = int_of_str s"
| "py_int JNull = Inl TypeError"
| "py_int (JArr _) = Inl TypeError"
| "py_int (JObj _) = Inl TypeError"

fun dependency_ids_loop :: "job_id list \<Rightarrow> json list \<Rightarrow> job_id list" where
  "dependency_ids_loop seen [] = seen"
| "dependency_ids_loop seen (raw # rest) =
     (case py_int raw of
        Inl _ \<Rightarrow> dependency_ids_loop seen rest
      | Inr dep \<Rightarrow>
          if dep \<notin> set seen then dependency_ids_loop (seen @ [dep]) rest
          else dependency_ids_loop seen rest)"

definition dependency_ids :: "job \<Rightarrow> job_id list" where
  "dependency_ids j = dependency_ids_loop [] (j_dependencies j)"

datatype dependency_verdict = Met | Pending | Dep_failed "job_id list"

definition MAX_CHAIN_HOPS :: nat where
  "MAX_CHAIN_HOPS = 1000"

text \<open>The \<^verbatim>\<open>while\<close> loop along a retry chain; the first argument is \<open>MAX_CHAIN_HOPS - hops\<close>.\<close>

fun newest_retry :: "(job_id \<Rightarrow> job option) \<Rightarrow> nat \<Rightarrow> job \<Rightarrow> job" where
  "newest_retry latest_retry 0 dep = dep"
| "newest_retry latest_retry (Suc hops) dep =
     (if j_status dep = Failed \<or> j_status dep = Archived then
        (case latest_retry (j_id dep) of
           None \<Rightarrow> dep
         | Some child \<Rightarrow> newest_retry latest_retry hops child)
      else dep)"

fun judge_loop ::
  "(job_id \<Rightarrow> job option) \<Rightarrow> (job_id \<Rightarrow> job option) \<Rightarrow> job_id list \<Rightarrow> bool \<Rightarrow> job_id list \<Rightarrow>
     job_id list \<times> bool" where
  "judge_loop fetch latest_retry failed pending [] = (failed, pending)"
| "judge_loop fetch latest_retry failed pending (dep_id # deps) =
     (case fetch dep_id of
        None \<Rightarrow> judge_loop fetch latest_retry (failed @ [dep_id]) pending deps
      | Some dep0 \<Rightarrow>
          (let dep = newest_retry latest_retry MAX_CHAIN_HOPS dep0 in
           if j_status dep = Success then judge_loop fetch latest_retry failed pending deps
           else if j_status dep = Failed then
             (if is_retry_pending (Some (j_termination_reason dep))
              then judge_loop fetch latest_retry failed True deps
              else judge_loop fetch latest_retry (failed @ [j_id dep]) pending deps)
           else judge_loop fetch latest_retry failed True deps))"

definition judge_dependencies ::
  "job_id list \<Rightarrow> (job_id \<Rightarrow> job option) \<Rightarrow> (job_id \<Rightarrow> job option) \<Rightarrow> dependency_verdict" where
  "judge_dependencies deps fetch latest_retry =
     (let (failed, pending) = judge_loop fetch latest_retry [] False deps
      in if failed \<noteq> [] then Dep_failed failed else if pending then Pending else Met)"

section \<open>Throttle\<close>

record throttle =
  th_interval :: rat
  th_last :: "rat option"

definition due :: "throttle \<Rightarrow> rat \<Rightarrow> throttle \<times> bool" where
  "due th now =
     (if th_interval th \<le> 0 then (th, False)
      else case th_last th of
             Some l \<Rightarrow> if now - l < th_interval th then (th, False)
                       else (th\<lparr>th_last := Some now\<rparr>, True)
           | None \<Rightarrow> (th\<lparr>th_last := Some now\<rparr>, True))"

section \<open>History\<close>

definition is_terminal :: "job_status \<Rightarrow> bool" where
  "is_terminal st \<longleftrightarrow> st \<in> {Success, Failed, Archived}"

definition settled_termination_reason :: "string option \<Rightarrow> string" where
  "settled_termination_reason reason = settled_reason (case reason of None \<Rightarrow> [] | Some r \<Rightarrow> r)"

definition settle_status :: "job_status \<Rightarrow> string option \<Rightarrow> bool \<Rightarrow> job_status option" where
  "settle_status st reason has_retry =
     (if st = Success \<or> st = Archived then Some st
      else if st \<noteq> Failed then None
      else if is_retry_pending reason then None
      else if has_retry then Some Archived else Some Failed)"

section \<open>Lemmas\<close>

lemma claim_verdict_ok_iff:
  "claim_verdict st v e oa = V_ok \<longleftrightarrow>
     st = Some Queued \<and> \<not> oa \<and> (e = None \<or> e = Some (case v of None \<Rightarrow> 0 | Some x \<Rightarrow> x))"
  by (auto simp: claim_verdict_def split: option.splits)

lemma decide_close_ok [simp]: "decide_close n h = Inr u \<longleftrightarrow> n = 1"
  by (simp add: decide_close_def)

lemma decide_close_stale [simp]: "decide_close n h = Inl e \<longleftrightarrow> n \<noteq> 1 \<and> e = JobFencingError"
  by (auto simp: decide_close_def)

lemma dependency_ids_loop_distinct:
  "distinct seen \<Longrightarrow> distinct (dependency_ids_loop seen raws)"
  by (induction seen raws rule: dependency_ids_loop.induct) (auto split: sum.splits)

lemma dependency_ids_distinct [simp]: "distinct (dependency_ids j)"
  by (simp add: dependency_ids_def dependency_ids_loop_distinct)

lemma set_dependency_ids_loop:
  "set (dependency_ids_loop seen raws) = set seen \<union> {d. \<exists>raw\<in>set raws. py_int raw = Inr d}"
  by (induction seen raws rule: dependency_ids_loop.induct) (auto split: sum.splits)

lemma set_dependency_ids:
  "set (dependency_ids j) = {d. \<exists>raw\<in>set (j_dependencies j). py_int raw = Inr d}"
  by (simp add: dependency_ids_def set_dependency_ids_loop)

subsection \<open>The judgement, dependency by dependency\<close>

text \<open>The fate a single dependency asks for; the loop combines them.\<close>

definition dep_state :: "(job_id \<Rightarrow> job option) \<Rightarrow> (job_id \<Rightarrow> job option) \<Rightarrow> job_id \<Rightarrow>
    dependency_verdict" where
  "dep_state fetch latest d =
     (case fetch d of
        None \<Rightarrow> Dep_failed [d]
      | Some dep0 \<Rightarrow>
          (let dep = newest_retry latest MAX_CHAIN_HOPS dep0 in
           if j_status dep = Success then Met
           else if j_status dep = Failed \<and> \<not> is_retry_pending (Some (j_termination_reason dep))
           then Dep_failed [j_id dep] else Pending))"

fun failed_of :: "dependency_verdict \<Rightarrow> job_id list" where
  "failed_of (Dep_failed ds) = ds"
| "failed_of _ = []"

lemma judge_loop_spec:
  "judge_loop fetch latest failed pending deps =
     (failed @ concat (map (\<lambda>d. failed_of (dep_state fetch latest d)) deps),
      pending \<or> (\<exists>d\<in>set deps. dep_state fetch latest d = Pending))"
proof (induction deps arbitrary: failed pending)
  case Nil
  then show ?case by simp
next
  case (Cons d deps)
  show ?case
  proof (cases "fetch d")
    case None
    then show ?thesis by (simp add: Cons.IH dep_state_def)
  next
    case (Some dep0)
    then show ?thesis
      by (simp add: Cons.IH dep_state_def Let_def)
  qed
qed

lemma failed_of_nonempty: "failed_of (dep_state f l d) \<noteq> [] \<longleftrightarrow> (\<exists>x. dep_state f l d = Dep_failed [x])"
  by (auto simp: dep_state_def Let_def split: option.splits)

lemma failed_of_empty: "failed_of (dep_state f l d) = [] \<longleftrightarrow> dep_state f l d \<in> {Met, Pending}"
  by (auto simp: dep_state_def Let_def split: option.splits if_splits)

lemma judge_dependencies_Met:
  "judge_dependencies deps f l = Met \<longleftrightarrow> (\<forall>d\<in>set deps. dep_state f l d = Met)"
proof -
  have "judge_dependencies deps f l = Met \<longleftrightarrow>
      (\<forall>d\<in>set deps. failed_of (dep_state f l d) = [] \<and> dep_state f l d \<noteq> Pending)"
    by (auto simp: judge_dependencies_def judge_loop_spec)
  then show ?thesis by (auto simp: failed_of_empty)
qed

lemma judge_dependencies_failed:
  "(\<exists>ds. judge_dependencies deps f l = Dep_failed ds) \<longleftrightarrow>
     (\<exists>d\<in>set deps. dep_state f l d \<notin> {Met, Pending})"
proof -
  have "(\<exists>ds. judge_dependencies deps f l = Dep_failed ds) \<longleftrightarrow>
      (\<exists>d\<in>set deps. failed_of (dep_state f l d) \<noteq> [])"
    by (auto simp: judge_dependencies_def judge_loop_spec)
  then show ?thesis by (simp only: failed_of_empty)
qed

lemma judge_dependencies_Nil [simp]: "judge_dependencies [] f l = Met"
  by (simp add: judge_dependencies_def)

text \<open>Where a retry chain ends: the specification of the bounded loop \<^const>\<open>newest_retry\<close>.\<close>

inductive chain_end :: "(job_id \<Rightarrow> job option) \<Rightarrow> job \<Rightarrow> nat \<Rightarrow> job \<Rightarrow> bool" for latest where
  chain_stop:
    "j_status d \<notin> {Failed, Archived} \<or> latest (j_id d) = None \<Longrightarrow> chain_end latest d 0 d"
| chain_hop:
    "j_status d \<in> {Failed, Archived} \<Longrightarrow> latest (j_id d) = Some c \<Longrightarrow> chain_end latest c k e \<Longrightarrow>
     chain_end latest d (Suc k) e"

lemma newest_retry_chain_end:
  "chain_end latest d k e \<Longrightarrow> k \<le> n \<Longrightarrow> newest_retry latest n d = e"
proof (induction arbitrary: n rule: chain_end.induct)
  case (chain_stop d)
  then show ?case by (cases n) auto
next
  case (chain_hop d c k e)
  then show ?case by (cases n) auto
qed

subsection \<open>Settling\<close>

lemma settle_status_terminal: "settle_status st r h = Some st' \<Longrightarrow> is_terminal st'"
  by (auto simp: settle_status_def is_terminal_def split: if_splits)

lemma settle_status_not_pending:
  "settle_status Failed r h = Some st' \<Longrightarrow> \<not> is_retry_pending r"
  by (auto simp: settle_status_def split: if_splits)

lemma is_terminal_simps [simp]:
  "is_terminal Success" "is_terminal Failed" "is_terminal Archived"
  "\<not> is_terminal Queued" "\<not> is_terminal Running" "\<not> is_terminal Shutting_down"
  by (simp_all add: is_terminal_def)

lemma due_spacing:
  assumes "due th now = (th', True)"
  shows "0 < th_interval th" "\<And>l. th_last th = Some l \<Longrightarrow> th_interval th \<le> now - l"
    "th_last th' = Some now" "th_interval th' = th_interval th"
  using assms by (auto simp: due_def split: option.splits if_splits)

end
