(* ===== verification/Sq_Tables.thy ===== *)
theory Sq_Tables
  imports Sq_Decisions
begin

text \<open>
  The database the backend works on, and the SQL statements of \<^verbatim>\<open>fastapi_sqlery/attempt_sql.py\<close>,
  \<^verbatim>\<open>core/ready_sql.py\<close>, \<^verbatim>\<open>fastapi_sqlery/history_sql.py\<close> and the view of \<^verbatim>\<open>core/history.py\<close> as
  functions on it. A statement that reports a row count returns it next to the new database.
  Everything a transaction of the backend does is a composition of these functions.

  The state of the model is the record \<open>db\<close>: one list of rows per table, and the sequence that
  numbers the attempts. Random values (attempt tokens), the clock and the process id are arguments.
\<close>

section \<open>State\<close>

record db =
  live :: "job list"
  history :: "job list"
  ready :: "ready_entry list"
  blocked :: "blocked_row list"
  attempts :: "attempt list"
  workers :: "worker list"
  staged :: "staged_job list"
  next_attempt :: int

definition SLOTS :: "nat list" where
  "SLOTS = [0, 1, 2]"

section \<open>Attempt statements\<close>

definition open_for :: "job_id \<Rightarrow> attempt \<Rightarrow> bool" where
  "open_for jid a \<longleftrightarrow> a_job_id a = jid \<and> a_finished_at a = None"

text \<open>\<^verbatim>\<open>open_attempt_exists\<close> / \<^verbatim>\<open>_is_running\<close>: an attempt is open for the job.\<close>

definition is_running :: "db \<Rightarrow> job_id \<Rightarrow> bool" where
  "is_running d jid \<longleftrightarrow> (\<exists>a\<in>set (attempts d). open_for jid a)"

definition running_clause :: "db \<Rightarrow> job \<Rightarrow> bool" where
  "running_clause d j \<longleftrightarrow> j_status j = Queued \<and> is_running d (j_id j)"

definition waiting_clause :: "db \<Rightarrow> job \<Rightarrow> bool" where
  "waiting_clause d j \<longleftrightarrow> j_status j = Queued \<and> \<not> is_running d (j_id j)"

definition overlay_running :: "attempt option \<Rightarrow> job \<Rightarrow> job" where
  "overlay_running att j =
     (case att of
        None \<Rightarrow> j
      | Some a \<Rightarrow> j\<lparr>j_status := Running, j_started_at := Some (a_claimed_at a),
                    j_worker_id := a_worker_id a, j_worker_pid := a_worker_pid a,
                    j_child_pid := a_child_pid a\<rparr>)"

definition close_row :: "outcome \<Rightarrow> timestamp \<Rightarrow> attempt \<Rightarrow> attempt" where
  "close_row oc now a = a\<lparr>a_finished_at := Some now, a_outcome := Some oc\<rparr>"

definition close_open :: "(attempt \<Rightarrow> bool) \<Rightarrow> outcome \<Rightarrow> timestamp \<Rightarrow> db \<Rightarrow> db \<times> nat" where
  "close_open P oc now d =
     (let Q = (\<lambda>a. P a \<and> a_finished_at a = None)
      in (d\<lparr>attempts := update_where Q (close_row oc now) (attempts d)\<rparr>,
          rowcount Q (attempts d)))"

definition abandon_open :: "job_id \<Rightarrow> timestamp \<Rightarrow> db \<Rightarrow> db \<times> nat" where
  "abandon_open jid now d = close_open (\<lambda>a. a_job_id a = jid) Outcome_abandoned now d"

definition close_exact :: "attempt_handle \<Rightarrow> outcome \<Rightarrow> timestamp \<Rightarrow> db \<Rightarrow> db \<times> nat" where
  "close_exact h oc now d =
     close_open (\<lambda>a. a_id a = h_id h \<and> a_token a = h_token h) oc now d"

definition close_unfenced :: "job_id \<Rightarrow> outcome \<Rightarrow> timestamp \<Rightarrow> db \<Rightarrow> db \<times> nat" where
  "close_unfenced jid oc now d =
     close_open (\<lambda>a. a_job_id a = jid)
       (if oc = Outcome_success then Outcome_success else Outcome_abandoned) now d"

definition new_attempt ::
  "int \<Rightarrow> job_id \<Rightarrow> string \<Rightarrow> string option \<Rightarrow> int \<Rightarrow> timestamp \<Rightarrow> attempt" where
  "new_attempt aid jid token wid pid now =
     \<lparr>a_id = aid, a_job_id = jid, a_token = token, a_worker_id = wid, a_worker_pid = Some pid,
      a_child_pid = None, a_claimed_at = now, a_finished_at = None, a_outcome = None\<rparr>"

text \<open>\<^verbatim>\<open>_open_attempts_in\<close> for one job: the newest open attempt wins.\<close>

definition open_attempt_in :: "db \<Rightarrow> job_id \<Rightarrow> attempt option" where
  "open_attempt_in d jid = first_by (\<lambda>a. - a_id a) (filter (open_for jid) (attempts d))"

definition child_pid_stmt :: "job_id \<Rightarrow> int \<Rightarrow> attempt_handle option \<Rightarrow> db \<Rightarrow> db" where
  "child_pid_stmt jid pid att d =
     d\<lparr>attempts := update_where
         (\<lambda>a. a_finished_at a = None \<and>
              (case att of
                 Some h \<Rightarrow> a_id a = h_id h \<and> a_token a = h_token h
               | None \<Rightarrow> a_job_id a = jid))
         (\<lambda>a. a\<lparr>a_child_pid := Some pid\<rparr>) (attempts d)\<rparr>"

section \<open>Ready and blocked statements\<close>

definition ready_values :: "nat \<Rightarrow> job \<Rightarrow> ready_entry" where
  "ready_values slot j =
     \<lparr>r_slot = slot, r_job_id = j_id j, r_queue_name = j_queue_name j, r_priority = j_priority j,
      r_created_at = j_created_at j, r_scheduled_at = j_scheduled_at j\<rparr>"

definition ready_key :: "ready_entry \<Rightarrow> nat \<times> job_id" where
  "ready_key e = (r_slot e, r_job_id e)"

text \<open>\<^verbatim>\<open>INSERT .. ON CONFLICT (slot, job_id) DO NOTHING\<close>, row by row.\<close>

fun insert_ready :: "ready_entry list \<Rightarrow> ready_entry list \<Rightarrow> ready_entry list" where
  "insert_ready [] t = t"
| "insert_ready (e # es) t =
     insert_ready es (if ready_key e \<in> ready_key ` set t then t else t @ [e])"

definition write_ready :: "nat \<Rightarrow> bool \<Rightarrow> job list \<Rightarrow> db \<Rightarrow> db" where
  "write_ready slot fresh js d =
     (let js' = (if fresh then js else filter (\<lambda>j. \<not> is_running d (j_id j)) js)
      in d\<lparr>ready := insert_ready (map (ready_values slot) js') (ready d)\<rparr>)"

definition blocked_key :: "blocked_row \<Rightarrow> job_id \<times> job_id" where
  "blocked_key b = (b_job_id b, b_dependency_id b)"

definition blocked_rows_of :: "timestamp \<Rightarrow> job \<Rightarrow> blocked_row list" where
  "blocked_rows_of now j =
     map (\<lambda>dep. \<lparr>b_job_id = j_id j, b_dependency_id = dep, b_created_at = j_created_at j,
                 b_blocked_at = now\<rparr>) (dependency_ids j)"

fun insert_blocked_rows :: "blocked_row list \<Rightarrow> blocked_row list \<Rightarrow> blocked_row list" where
  "insert_blocked_rows [] t = t"
| "insert_blocked_rows (b # bs) t =
     insert_blocked_rows bs (if blocked_key b \<in> blocked_key ` set t then t else t @ [b])"

text \<open>\<^verbatim>\<open>insert_blocked_stmt\<close>: no statement (\<open>None\<close>) when the job has no usable dependency id.\<close>

definition insert_blocked :: "timestamp \<Rightarrow> job \<Rightarrow> (db \<Rightarrow> db) option" where
  "insert_blocked now j =
     (if blocked_rows_of now j = [] then None
      else Some (\<lambda>d. d\<lparr>blocked := insert_blocked_rows (blocked_rows_of now j) (blocked d)\<rparr>))"

definition delete_entry :: "nat \<Rightarrow> job_id \<Rightarrow> db \<Rightarrow> db \<times> nat" where
  "delete_entry slot jid d =
     (let Q = (\<lambda>e. r_slot e = slot \<and> r_job_id e = jid)
      in (d\<lparr>ready := delete_where Q (ready d)\<rparr>, rowcount Q (ready d)))"

definition delete_ready :: "job_id list \<Rightarrow> db \<Rightarrow> db \<times> nat" where
  "delete_ready ids d =
     (let Q = (\<lambda>e. r_slot e \<in> set SLOTS \<and> r_job_id e \<in> set ids)
      in (d\<lparr>ready := delete_where Q (ready d)\<rparr>, rowcount Q (ready d)))"

definition delete_blocked :: "job_id list \<Rightarrow> db \<Rightarrow> db" where
  "delete_blocked ids d = d\<lparr>blocked := delete_where (\<lambda>b. b_job_id b \<in> set ids) (blocked d)\<rparr>"

definition update_ready :: "job \<Rightarrow> db \<Rightarrow> db" where
  "update_ready j d =
     d\<lparr>ready := update_where (\<lambda>e. r_slot e \<in> set SLOTS \<and> r_job_id e = j_id j)
         (\<lambda>e. e\<lparr>r_queue_name := j_queue_name j, r_priority := j_priority j,
               r_scheduled_at := j_scheduled_at j\<rparr>) (ready d)\<rparr>"

text \<open>The claim order, and the keyset cursor of \<^verbatim>\<open>next_entry_stmt\<close>.\<close>

type_synonym cursor = "int \<times> timestamp \<times> job_id"

definition claim_key :: "ready_entry \<Rightarrow> int \<times> timestamp \<times> job_id" where
  "claim_key e = (- r_priority e, r_created_at e, r_job_id e)"

definition after_cursor :: "cursor option \<Rightarrow> ready_entry \<Rightarrow> bool" where
  "after_cursor after e =
     (case after of
        None \<Rightarrow> True
      | Some (priority, created_at, jid) \<Rightarrow>
          r_priority e < priority \<or>
          (r_priority e = priority \<and>
           (r_created_at e > created_at \<or> (r_created_at e = created_at \<and> r_job_id e > jid))))"

definition entry_due :: "string list \<Rightarrow> timestamp \<Rightarrow> ready_entry \<Rightarrow> bool" where
  "entry_due queues now e \<longleftrightarrow>
     r_queue_name e \<in> set queues \<and>
     (case r_scheduled_at e of None \<Rightarrow> True | Some t \<Rightarrow> t \<le> now)"

text \<open>
  \<open>locked e\<close>: another transaction holds the row lock of \<open>e\<close> (\<^verbatim>\<open>FOR UPDATE SKIP LOCKED\<close> passes
  over it; on SQLite no row is ever locked).
\<close>

definition next_entry ::
  "string list \<Rightarrow> timestamp \<Rightarrow> cursor option \<Rightarrow> (ready_entry \<Rightarrow> bool) \<Rightarrow> db \<Rightarrow> ready_entry option" where
  "next_entry queues now after locked d =
     first_by claim_key
       (filter (\<lambda>e. entry_due queues now e \<and> after_cursor after e \<and> \<not> locked e) (ready d))"

definition job_of_entry :: "ready_entry \<Rightarrow> db \<Rightarrow> job option" where
  "job_of_entry e d =
     List.find (\<lambda>j. j_id j = r_job_id e \<and> j_created_at j = r_created_at e) (live d)"

definition live_by_id :: "job_id \<Rightarrow> db \<Rightarrow> job option" where
  "live_by_id jid d = List.find (\<lambda>j. j_id j = jid) (live d)"

definition next_due :: "string list \<Rightarrow> timestamp \<Rightarrow> db \<Rightarrow> timestamp option" where
  "next_due queues now d =
     (case [t. e \<leftarrow> ready d, r_queue_name e \<in> set queues, t \<leftarrow> (case r_scheduled_at e of Some t \<Rightarrow> [t] | None \<Rightarrow> []), now < t]
      of [] \<Rightarrow> None | t # ts \<Rightarrow> Some (fold min ts t))"

text \<open>\<^verbatim>\<open>_drop_entries\<close> and \<^verbatim>\<open>_ensure_entry\<close>: what the session hook does for a written job row.\<close>

definition drop_entries :: "job_id list \<Rightarrow> db \<Rightarrow> db" where
  "drop_entries ids d = (if ids = [] then d else delete_blocked ids (fst (delete_ready ids d)))"

definition ensure_entry :: "nat \<Rightarrow> bool \<Rightarrow> job \<Rightarrow> db \<Rightarrow> db" where
  "ensure_entry slot fresh j d = update_ready j (write_ready slot fresh [j] d)"

section \<open>The union view\<close>

definition live_view :: "db \<Rightarrow> job \<Rightarrow> job list" where
  "live_view d j =
     (if j_status j = Queued \<and> is_running d (j_id j)
      then map (\<lambda>a. overlay_running (Some a) j) (filter (open_for (j_id j)) (attempts d))
      else [j])"

definition job_all :: "db \<Rightarrow> job list" where
  "job_all d = concat (map (live_view d) (live d)) @ history d"

text \<open>\<^verbatim>\<open>{d.id: d for d in ...}.get\<close> over the view: the last row of an id wins.\<close>

definition anywhere_by_id :: "db \<Rightarrow> job_id \<Rightarrow> job option" where
  "anywhere_by_id d jid = List.find (\<lambda>j. j_id j = jid) (rev (job_all d))"

definition latest_retry :: "db \<Rightarrow> job_id \<Rightarrow> job option" where
  "latest_retry d jid =
     first_by (\<lambda>j. (- j_created_at j, - j_id j))
       (filter (\<lambda>j. j_parent_job_id j = Some jid) (job_all d))"

definition has_retry_child :: "db \<Rightarrow> job_id \<Rightarrow> bool" where
  "has_retry_child d jid \<longleftrightarrow> (\<exists>j\<in>set (job_all d). j_parent_job_id j = Some jid)"

definition history_by_id :: "db \<Rightarrow> job_id \<Rightarrow> job option" where
  "history_by_id d jid = List.find (\<lambda>j. j_id j = jid) (history d)"

text \<open>\<^verbatim>\<open>termination_reason LIKE 'retry_pending%'\<close>, where the underscore of the pattern matches any character
  (with the case-sensitive \<^verbatim>\<open>LIKE\<close> of PostgreSQL).\<close>

fun like_start :: "string \<Rightarrow> string \<Rightarrow> bool" where
  "like_start [] s = True"
| "like_start (p # ps) [] = False"
| "like_start (p # ps) (c # cs) \<longleftrightarrow> (p = CHR ''_'' \<or> p = c) \<and> like_start ps cs"

definition like_retry_pending :: "string \<Rightarrow> bool" where
  "like_retry_pending r \<longleftrightarrow> like_start RETRY_PENDING r"

lemma startswith_like: "startswith r p \<Longrightarrow> like_start p r"
  by (induction p r rule: like_start.induct) (auto simp: startswith_def)

definition stray_terminal :: "nat \<Rightarrow> timestamp \<Rightarrow> db \<Rightarrow> job list" where
  "stray_terminal limit cutoff d =
     take limit
       (sort_key (\<lambda>j. (j_created_at j, j_id j))
          (filter (\<lambda>j. is_terminal (j_status j) \<and> \<not> like_retry_pending (j_termination_reason j) \<and>
                       (case j_finished_at j of None \<Rightarrow> True | Some t \<Rightarrow> t \<le> cutoff)) (live d)))"

section \<open>The terminal transition\<close>

text \<open>
  The \<^verbatim>\<open>values\<close> dictionary of \<^verbatim>\<open>move_statements\<close>: the columns the callers override, each present
  or absent; \<open>v_ran\<close> stands for the four columns \<^verbatim>\<open>row_columns(attempt)\<close> contributes together.
\<close>

record finish_values =
  v_finished_at :: "timestamp option"
  v_duration :: "rat option option"
  v_output :: "string option"
  v_error :: "string option"
  v_traceback :: "string option"
  v_termination_reason :: "string option"
  v_runs :: "run_record list option"
  v_ran :: "attempt option"

definition no_values :: finish_values where
  "no_values = \<lparr>v_finished_at = None, v_duration = None, v_output = None, v_error = None,
     v_traceback = None, v_termination_reason = None, v_runs = None, v_ran = None\<rparr>"

definition override :: "'a option \<Rightarrow> 'a \<Rightarrow> 'a" where
  "override v own = (case v of None \<Rightarrow> own | Some x \<Rightarrow> x)"

definition coalesce :: "'a option \<Rightarrow> 'a option \<Rightarrow> 'a option" where
  "coalesce a b = (case a of None \<Rightarrow> b | Some x \<Rightarrow> Some x)"

definition newest_attempt :: "db \<Rightarrow> job_id \<Rightarrow> attempt option" where
  "newest_attempt d jid = first_by (\<lambda>a. - a_id a) (filter (\<lambda>a. a_job_id a = jid) (attempts d))"

definition set_values :: "finish_values \<Rightarrow> job \<Rightarrow> job" where
  "set_values v j =
     j\<lparr>j_duration_seconds := override (v_duration v) (j_duration_seconds j),
       j_output := override (v_output v) (j_output j),
       j_error := override (v_error v) (j_error j),
       j_traceback := override (v_traceback v) (j_traceback j),
       j_termination_reason := override (v_termination_reason v) (j_termination_reason j),
       j_runs := override (v_runs v) (j_runs j)\<rparr>"

definition set_ran :: "db \<Rightarrow> finish_values \<Rightarrow> job \<Rightarrow> job" where
  "set_ran d v j =
     (case v_ran v of
        Some a \<Rightarrow> j\<lparr>j_started_at := Some (a_claimed_at a), j_worker_id := a_worker_id a,
                    j_worker_pid := a_worker_pid a, j_child_pid := a_child_pid a\<rparr>
      | None \<Rightarrow>
          (case newest_attempt d (j_id j) of
             None \<Rightarrow> j
           | Some a \<Rightarrow> j\<lparr>j_started_at := Some (a_claimed_at a),
                         j_worker_id := coalesce (a_worker_id a) (j_worker_id j),
                         j_worker_pid := coalesce (a_worker_pid a) (j_worker_pid j),
                         j_child_pid := coalesce (a_child_pid a) (j_child_pid j)\<rparr>))"

definition history_row :: "db \<Rightarrow> timestamp \<Rightarrow> job_status \<Rightarrow> finish_values \<Rightarrow> job \<Rightarrow> job" where
  "history_row d now st v j =
     set_ran d v
       ((set_values v j)
          \<lparr>j_status := st, j_version := j_version j + 1,
           j_finished_at :=
             (case v_finished_at v of
                Some t \<Rightarrow> Some t
              | None \<Rightarrow> coalesce (j_finished_at j) (Some now))\<rparr>)"

record fences =
  fe_created_at :: "timestamp option"
  fe_version :: "int option"
  fe_status :: "job_status list option"
  fe_idle :: bool

definition no_fences :: fences where
  "no_fences = \<lparr>fe_created_at = None, fe_version = None, fe_status = None, fe_idle = False\<rparr>"

definition move_where :: "db \<Rightarrow> job_id \<Rightarrow> fences \<Rightarrow> job \<Rightarrow> bool" where
  "move_where d jid fe j \<longleftrightarrow>
     j_id j = jid \<and>
     (fe_idle fe \<longrightarrow> \<not> is_running d (j_id j)) \<and>
     (case fe_created_at fe of None \<Rightarrow> True | Some c \<Rightarrow> j_created_at j = c) \<and>
     (case fe_version fe of None \<Rightarrow> True | Some v \<Rightarrow> j_version j = v) \<and>
     (case fe_status fe of None \<Rightarrow> True | Some sts \<Rightarrow> j_status j \<in> set sts)"

definition close_stragglers :: "job_id \<Rightarrow> job_status \<Rightarrow> timestamp \<Rightarrow> db \<Rightarrow> db" where
  "close_stragglers jid st now d =
     fst (close_open (\<lambda>a. a_job_id a = jid)
            (if st = Success then Outcome_success else Outcome_abandoned) now d)"

definition history_key :: "job \<Rightarrow> timestamp option \<times> job_id" where
  "history_key j = (j_finished_at j, j_id j)"

text \<open>
  \<^verbatim>\<open>_finish_in\<close>: lock, \<^verbatim>\<open>INSERT .. SELECT\<close>, \<^verbatim>\<open>DELETE\<close>, close the stragglers. A second row of the
  same history key makes the insert fail; a row count other than one raises. Either exception
  leaves the transaction to be rolled back.
\<close>

definition finish_in ::
  "timestamp \<Rightarrow> job_id \<Rightarrow> job_status \<Rightarrow> finish_values \<Rightarrow> fences \<Rightarrow> db \<Rightarrow> (db \<times> bool) result" where
  "finish_in now jid st v fe d =
     (let W = move_where d jid fe;
          rows = map (history_row d now st v) (filter W (live d))
      in if rows = [] then Inr (d, False)
         else if \<not> distinct (map history_key (history d @ rows)) then Inl IntegrityError
         else if length rows \<noteq> 1 \<or> rowcount W (live d) \<noteq> 1 then Inl RuntimeError
         else Inr (close_stragglers jid st now
                     (d\<lparr>live := delete_where W (live d), history := history d @ rows\<rparr>), True))"

end
