(* ===== verification/Sq_Table_Laws.thy ===== *)
theory Sq_Table_Laws
  imports Sq_Tables
begin

text \<open>
  The laws of the table statements. \<open>wf_db\<close> is the integrity invariant of the database (job ids
  unique over the live table and the history, every history row terminal, attempt ids unique and
  below the sequence, an attempt has an outcome exactly when it is finished, at most one open attempt per
  job, one ready entry per slot and job).
  \<open>evolves\<close> says how the database may change over time: the history only grows, no job
  disappears, a closed attempt never changes again. \<open>safe\<close> combines the two; it is reflexive and
  transitive, so that the law of a transaction is the composition of the laws of its statements.
\<close>

section \<open>The invariant and the order of states\<close>

definition wf_jobs :: "db \<Rightarrow> bool" where
  "wf_jobs d \<longleftrightarrow> distinct (map sj_id (staged d) @ map j_id (live d @ history d)) \<and>
     (\<forall>j\<in>set (history d). is_terminal (j_status j))"

definition wf_attempts :: "db \<Rightarrow> bool" where
  "wf_attempts d \<longleftrightarrow> distinct (map a_id (attempts d)) \<and>
     (\<forall>a\<in>set (attempts d). a_id a < next_attempt d) \<and>
     (\<forall>a\<in>set (attempts d). a_finished_at a = None \<longleftrightarrow> a_outcome a = None) \<and>
     (\<forall>jid. rowcount (open_for jid) (attempts d) \<le> 1)"

definition wf_ready :: "db \<Rightarrow> bool" where
  "wf_ready d \<longleftrightarrow> distinct (map ready_key (ready d)) \<and> (\<forall>e\<in>set (ready d). r_slot e \<in> set SLOTS)"

definition wf_db :: "db \<Rightarrow> bool" where
  "wf_db d \<longleftrightarrow> wf_jobs d \<and> wf_attempts d \<and> wf_ready d"

definition job_ids :: "db \<Rightarrow> job_id set" where
  "job_ids d = j_id ` set (live d) \<union> j_id ` set (history d)"

definition att_le :: "attempt \<Rightarrow> attempt \<Rightarrow> bool" where
  "att_le a b \<longleftrightarrow> a_id b = a_id a \<and> a_job_id b = a_job_id a \<and> a_token b = a_token a \<and>
     (a_finished_at a \<noteq> None \<longrightarrow> b = a)"

definition history_grows :: "db \<Rightarrow> db \<Rightarrow> bool" where
  "history_grows d d' \<longleftrightarrow> prefix (history d) (history d')"

definition attempts_evolve :: "db \<Rightarrow> db \<Rightarrow> bool" where
  "attempts_evolve d d' \<longleftrightarrow> next_attempt d \<le> next_attempt d' \<and>
     (\<forall>a\<in>set (attempts d). \<exists>b\<in>set (attempts d'). att_le a b) \<and>
     (\<forall>b\<in>set (attempts d'). (\<exists>a\<in>set (attempts d). att_le a b) \<or> next_attempt d \<le> a_id b)"

definition evolves :: "db \<Rightarrow> db \<Rightarrow> bool" where
  "evolves d d' \<longleftrightarrow> history_grows d d' \<and> attempts_evolve d d' \<and> job_ids d \<subseteq> job_ids d'"

definition safe :: "db \<Rightarrow> db \<Rightarrow> bool" where
  "safe d d' \<longleftrightarrow> (wf_db d \<longrightarrow> wf_db d' \<and> evolves d d')"

section \<open>Order\<close>

lemma att_le_refl [simp]: "att_le a a"
  by (simp add: att_le_def)

lemma att_le_trans: "att_le a b \<Longrightarrow> att_le b c \<Longrightarrow> att_le a c"
  by (auto simp: att_le_def)

lemma attempts_evolve_refl [simp]: "attempts_evolve d d"
  by (auto simp: attempts_evolve_def intro: att_le_refl)

lemma attempts_evolve_trans:
  assumes "attempts_evolve d e" "attempts_evolve e f"
  shows "attempts_evolve d f"
  unfolding attempts_evolve_def
proof (intro conjI ballI)
  show "next_attempt d \<le> next_attempt f" using assms by (auto simp: attempts_evolve_def)
next
  fix a assume "a \<in> set (attempts d)"
  then show "\<exists>b\<in>set (attempts f). att_le a b"
    using assms unfolding attempts_evolve_def by (meson att_le_trans)
next
  fix c assume c: "c \<in> set (attempts f)"
  from assms(2) c have "(\<exists>b\<in>set (attempts e). att_le b c) \<or> next_attempt e \<le> a_id c"
    by (simp add: attempts_evolve_def)
  then show "(\<exists>a\<in>set (attempts d). att_le a c) \<or> next_attempt d \<le> a_id c"
  proof (elim disjE bexE)
    fix b assume b: "b \<in> set (attempts e)" "att_le b c"
    then have id: "a_id c = a_id b" by (simp add: att_le_def)
    from assms(1) b(1) have "(\<exists>a\<in>set (attempts d). att_le a b) \<or> next_attempt d \<le> a_id b"
      by (simp add: attempts_evolve_def)
    then show ?thesis using b(2) id by (auto intro: att_le_trans)
  next
    assume "next_attempt e \<le> a_id c"
    then show ?thesis using assms(1) by (auto simp: attempts_evolve_def)
  qed
qed

lemma evolves_refl [simp]: "evolves d d"
  by (simp add: evolves_def history_grows_def)

lemma evolves_trans: "evolves d e \<Longrightarrow> evolves e f \<Longrightarrow> evolves d f"
  unfolding evolves_def history_grows_def
  by (meson attempts_evolve_trans prefix_order.trans subset_trans)

lemma safe_refl [simp, intro]: "safe d d"
  by (simp add: safe_def)

lemma safe_trans [trans]: "safe d e \<Longrightarrow> safe e f \<Longrightarrow> safe d f"
  unfolding safe_def by (blast intro: evolves_trans)

section \<open>Statements that touch neither jobs nor attempts\<close>

lemma wf_frame:
  assumes "live d' = live d" "history d' = history d" "attempts d' = attempts d"
    "next_attempt d' = next_attempt d" "staged d' = staged d" "wf_ready d \<Longrightarrow> wf_ready d'"
  shows "safe d d'"
  using assms
  by (auto simp: safe_def wf_db_def wf_jobs_def wf_attempts_def evolves_def history_grows_def
      attempts_evolve_def job_ids_def intro: att_le_refl)

lemma is_running_cong [simp]:
  "is_running (d\<lparr>ready := r\<rparr>) = is_running d" "is_running (d\<lparr>blocked := b\<rparr>) = is_running d"
  "is_running (d\<lparr>live := l\<rparr>) = is_running d" "is_running (d\<lparr>history := h\<rparr>) = is_running d"
  "is_running (d\<lparr>workers := w\<rparr>) = is_running d" "is_running (d\<lparr>staged := s\<rparr>) = is_running d"
  by (auto simp: is_running_def fun_eq_iff)

lemma insert_ready_set:
  "e \<in> set (insert_ready es t) \<Longrightarrow> e \<in> set t \<or> e \<in> set es"
  by (induction es t rule: insert_ready.induct) (auto split: if_splits)

lemma insert_ready_keeps: "e \<in> set t \<Longrightarrow> e \<in> set (insert_ready es t)"
  by (induction es t rule: insert_ready.induct) auto

lemma insert_ready_distinct:
  "distinct (map ready_key t) \<Longrightarrow> distinct (map ready_key (insert_ready es t))"
  by (induction es t rule: insert_ready.induct) auto

lemma insert_ready_key:
  "e \<in> set es \<Longrightarrow> ready_key e \<in> ready_key ` set (insert_ready es t)"
proof (induction es t rule: insert_ready.induct)
  case (1 t)
  then show ?case by simp
next
  case (2 x es t)
  have "ready_key x \<in> ready_key ` set (insert_ready es t')"
    if "ready_key x \<in> ready_key ` set t'" for t'
    using that insert_ready_keeps [of _ t' es] by (metis (no_types, lifting) imageE imageI)
  then show ?case using 2 by auto
qed

lemma write_ready_safe:
  assumes "slot \<in> set SLOTS"
  shows "safe d (write_ready slot fresh js d)"
proof (rule wf_frame)
  assume wf_db: "wf_ready d"
  define es where "es = map (ready_values slot)
      (if fresh then js else filter (\<lambda>j. \<not> is_running d (j_id j)) js)"
  have r: "ready (write_ready slot fresh js d) = insert_ready es (ready d)"
    by (simp add: write_ready_def Let_def es_def)
  have "r_slot e \<in> set SLOTS" if "e \<in> set es" for e
    using that assms by (auto simp: es_def ready_values_def split: if_splits)
  then show "wf_ready (write_ready slot fresh js d)"
    using wf_db unfolding wf_ready_def r
    by (auto intro: insert_ready_distinct dest!: insert_ready_set)
qed (simp_all add: write_ready_def Let_def)

lemma write_ready_frame [simp]:
  "live (write_ready slot fresh js d) = live d" "history (write_ready slot fresh js d) = history d"
  "attempts (write_ready slot fresh js d) = attempts d"
  "blocked (write_ready slot fresh js d) = blocked d"
  "workers (write_ready slot fresh js d) = workers d" "staged (write_ready slot fresh js d) = staged d"
  "next_attempt (write_ready slot fresh js d) = next_attempt d"
  "is_running (write_ready slot fresh js d) = is_running d"
  by (simp_all add: write_ready_def Let_def)

lemma delete_entry_frame [simp]:
  "live (fst (delete_entry slot jid d)) = live d"
  "history (fst (delete_entry slot jid d)) = history d"
  "attempts (fst (delete_entry slot jid d)) = attempts d"
  "blocked (fst (delete_entry slot jid d)) = blocked d"
  "workers (fst (delete_entry slot jid d)) = workers d" "staged (fst (delete_entry slot jid d)) = staged d"
  "next_attempt (fst (delete_entry slot jid d)) = next_attempt d"
  "is_running (fst (delete_entry slot jid d)) = is_running d"
  "ready (fst (delete_entry slot jid d)) =
     delete_where (\<lambda>e. r_slot e = slot \<and> r_job_id e = jid) (ready d)"
  by (simp_all add: delete_entry_def Let_def)

lemma delete_ready_frame [simp]:
  "live (fst (delete_ready ids d)) = live d" "history (fst (delete_ready ids d)) = history d"
  "attempts (fst (delete_ready ids d)) = attempts d"
  "blocked (fst (delete_ready ids d)) = blocked d"
  "workers (fst (delete_ready ids d)) = workers d" "staged (fst (delete_ready ids d)) = staged d"
  "next_attempt (fst (delete_ready ids d)) = next_attempt d"
  "is_running (fst (delete_ready ids d)) = is_running d"
  "ready (fst (delete_ready ids d)) =
     delete_where (\<lambda>e. r_slot e \<in> set SLOTS \<and> r_job_id e \<in> set ids) (ready d)"
  by (simp_all add: delete_ready_def Let_def)

lemma delete_blocked_frame [simp]:
  "live (delete_blocked ids d) = live d" "history (delete_blocked ids d) = history d"
  "attempts (delete_blocked ids d) = attempts d" "ready (delete_blocked ids d) = ready d"
  "workers (delete_blocked ids d) = workers d" "staged (delete_blocked ids d) = staged d"
  "next_attempt (delete_blocked ids d) = next_attempt d"
  "is_running (delete_blocked ids d) = is_running d"
  "blocked (delete_blocked ids d) = delete_where (\<lambda>b. b_job_id b \<in> set ids) (blocked d)"
  by (simp_all add: delete_blocked_def)

lemma update_ready_frame [simp]:
  "live (update_ready j d) = live d" "history (update_ready j d) = history d"
  "attempts (update_ready j d) = attempts d" "blocked (update_ready j d) = blocked d"
  "workers (update_ready j d) = workers d" "staged (update_ready j d) = staged d" "next_attempt (update_ready j d) = next_attempt d"
  "is_running (update_ready j d) = is_running d"
  by (simp_all add: update_ready_def)

lemma delete_entry_safe [intro]: "safe d (fst (delete_entry slot jid d))"
  by (rule wf_frame) (auto simp: wf_ready_def)

lemma delete_ready_safe [intro]: "safe d (fst (delete_ready ids d))"
  by (rule wf_frame) (auto simp: wf_ready_def)

lemma delete_blocked_safe [intro]: "safe d (delete_blocked ids d)"
  by (rule wf_frame) (auto simp: wf_ready_def)

lemma update_ready_safe [intro]: "safe d (update_ready j d)"
proof (rule wf_frame)
  assume "wf_ready d"
  moreover have "map ready_key (ready (update_ready j d)) = map ready_key (ready d)"
    unfolding update_ready_def by (simp add: ready_key_def map_update_where)
  moreover have "map r_slot (ready (update_ready j d)) = map r_slot (ready d)"
    unfolding update_ready_def by (simp add: map_update_where)
  then have "r_slot ` set (ready (update_ready j d)) = r_slot ` set (ready d)"
    by (metis set_map)
  ultimately show "wf_ready (update_ready j d)"
    unfolding wf_ready_def by (metis (no_types, lifting) imageE imageI)
qed simp_all

lemma ensure_entry_safe: "slot \<in> set SLOTS \<Longrightarrow> safe d (ensure_entry slot fresh j d)"
  unfolding ensure_entry_def by (rule safe_trans [OF write_ready_safe update_ready_safe])

lemma drop_entries_safe [intro]: "safe d (drop_entries ids d)"
  unfolding drop_entries_def by (auto intro: safe_trans)

lemma insert_blocked_safe:
  assumes "insert_blocked now j = Some f"
  shows "safe d (f d)"
proof (rule wf_frame)
  have f: "f d = d\<lparr>blocked := insert_blocked_rows (blocked_rows_of now j) (blocked d)\<rparr>"
    using assms by (auto simp: insert_blocked_def split: if_splits)
  show "live (f d) = live d" "history (f d) = history d" "attempts (f d) = attempts d"
    "next_attempt (f d) = next_attempt d" "staged (f d) = staged d"
    by (simp_all add: f)
  show "wf_ready (f d)" if "wf_ready d" using that by (simp add: f wf_ready_def)
qed

section \<open>Attempt statements\<close>

lemma close_open_frame [simp]:
  "live (fst (close_open P oc now d)) = live d"
  "history (fst (close_open P oc now d)) = history d"
  "ready (fst (close_open P oc now d)) = ready d"
  "blocked (fst (close_open P oc now d)) = blocked d"
  "workers (fst (close_open P oc now d)) = workers d" "staged (fst (close_open P oc now d)) = staged d"
  "next_attempt (fst (close_open P oc now d)) = next_attempt d"
  "attempts (fst (close_open P oc now d)) =
     update_where (\<lambda>a. P a \<and> a_finished_at a = None) (close_row oc now) (attempts d)"
  "snd (close_open P oc now d) = rowcount (\<lambda>a. P a \<and> a_finished_at a = None) (attempts d)"
  by (simp_all add: close_open_def Let_def)

lemma close_row_simps [simp]:
  "a_id (close_row oc now a) = a_id a" "a_job_id (close_row oc now a) = a_job_id a"
  "a_token (close_row oc now a) = a_token a"
  "a_finished_at (close_row oc now a) = Some now" "a_outcome (close_row oc now a) = Some oc"
  "\<not> open_for jid (close_row oc now a)"
  by (simp_all add: close_row_def open_for_def)

lemma attempts_update_safe:
  assumes att: "attempts d' = update_where Q f (attempts d)"
    and open': "\<And>a. Q a \<Longrightarrow> a_finished_at a = None"
    and same: "\<And>a. a_id (f a) = a_id a \<and> a_job_id (f a) = a_job_id a \<and> a_token (f a) = a_token a"
    and outc: "\<And>a. a_finished_at a = None \<longleftrightarrow> a_outcome a = None \<Longrightarrow> a_finished_at (f a) = None \<longleftrightarrow> a_outcome (f a) = None"
    and rest: "live d' = live d" "history d' = history d" "ready d' = ready d"
      "next_attempt d' = next_attempt d" "staged d' = staged d"
  shows "safe d d'"
  unfolding safe_def
proof (intro impI conjI)
  assume w: "wf_db d"
  have ids: "map a_id (attempts d') = map a_id (attempts d)"
    unfolding att using same by (simp add: map_update_where)
  have lt: "\<forall>b\<in>set (attempts d'). a_id b < next_attempt d"
    using w ids unfolding wf_db_def wf_attempts_def
    by (metis (no_types, lifting) imageE imageI set_map)
  have cnt: "rowcount (open_for jid) (attempts d') \<le> rowcount (open_for jid) (attempts d)" for jid
    unfolding att rowcount_update_where
    by (rule rowcount_mono) (auto simp: open_for_def same open' split: if_splits)
  have "a_finished_at b = None \<longleftrightarrow> a_outcome b = None" if "b \<in> set (attempts d')" for b
    using that w outc unfolding att update_where_mem wf_db_def wf_attempts_def by metis
  then have "wf_attempts d'"
    using w ids lt le_trans [OF cnt] rest unfolding wf_db_def wf_attempts_def by simp
  then show "wf_db d'" using w rest by (simp add: wf_db_def wf_jobs_def wf_ready_def)
  have le: "att_le a (if Q a then f a else a)" for a
    using open' same by (auto simp: att_le_def)
  have fwd: "\<exists>b\<in>set (attempts d'). att_le a b" if "a \<in> set (attempts d)" for a
    by (rule bexI [where x = "if Q a then f a else a"])
      (use that le in \<open>auto simp: att update_where_def\<close>)
  have bwd: "\<exists>a\<in>set (attempts d). att_le a b" if "b \<in> set (attempts d')" for b
    using that le unfolding att update_where_mem by blast
  have "attempts_evolve d d'"
    unfolding attempts_evolve_def using rest fwd bwd by simp
  then show "evolves d d'" using rest by (simp add: evolves_def history_grows_def job_ids_def)
qed

lemma close_open_safe [intro]: "safe d (fst (close_open P oc now d))"
  by (rule attempts_update_safe [where Q = "\<lambda>a. P a \<and> a_finished_at a = None"
        and f = "close_row oc now"]) simp_all

lemma close_variants_safe [intro]:
  "safe d (fst (abandon_open jid now d))" "safe d (fst (close_exact h oc now d))"
  "safe d (fst (close_unfenced jid oc now d))" "safe d (close_stragglers jid st now d)"
  by (auto simp: abandon_open_def close_exact_def close_unfenced_def close_stragglers_def)

lemma child_pid_safe [intro]: "safe d (child_pid_stmt jid pid att d)"
  by (rule attempts_update_safe
      [where f = "\<lambda>a. a\<lparr>a_child_pid := Some pid\<rparr>" and
        Q = "\<lambda>a. a_finished_at a = None \<and> (case att of
                 Some h \<Rightarrow> a_id a = h_id h \<and> a_token a = h_token h | None \<Rightarrow> a_job_id a = jid)"])
    (simp_all add: child_pid_stmt_def)

lemma is_running_rowcount: "is_running d jid \<longleftrightarrow> 0 < rowcount (open_for jid) (attempts d)"
  by (simp add: is_running_def rowcount_pos)

lemma is_running_close_job [simp]:
  "is_running (fst (close_open (\<lambda>a. a_job_id a = jid) oc now d)) jid' \<longleftrightarrow>
     jid' \<noteq> jid \<and> is_running d jid'"
proof -
  have "(if a_job_id a = jid \<and> a_finished_at a = None then open_for jid' (close_row oc now a)
      else open_for jid' a) \<longleftrightarrow> jid' \<noteq> jid \<and> open_for jid' a" for a
    by (auto simp: open_for_def)
  then show ?thesis
    by (simp add: is_running_rowcount rowcount_update_where rowcount_pos)
qed

lemma snd_close_job:
  "snd (close_open (\<lambda>a. a_job_id a = jid) oc now d) = rowcount (open_for jid) (attempts d)"
  unfolding close_open_frame by (rule rowcount_cong) (simp add: open_for_def)

text \<open>Inserting the attempt of a claim keeps the invariant because the job is not running.\<close>

lemma open_attempt_safe:
  assumes "\<not> is_running d jid"
    and "d' = d\<lparr>attempts := attempts d @ [new_attempt (next_attempt d) jid tok wid pid now],
               next_attempt := next_attempt d + 1\<rparr>"
  shows "safe d d'"
  unfolding safe_def
proof (intro impI conjI)
  let ?a = "new_attempt (next_attempt d) jid tok wid pid now"
  assume w: "wf_db d"
  have z: "rowcount (open_for jid) (attempts d) = 0"
    using assms(1) is_running_rowcount [of d jid] by simp
  have "rowcount (open_for k) (attempts d @ [?a]) \<le> 1" for k
  proof (cases "k = jid")
    case True
    then show ?thesis using z by simp
  next
    case False
    then have "\<not> open_for k ?a" by (simp add: open_for_def new_attempt_def)
    then show ?thesis using w by (simp add: wf_db_def wf_attempts_def)
  qed
  moreover have "next_attempt d \<notin> a_id ` set (attempts d)"
    using w by (auto simp: wf_db_def wf_attempts_def)
  ultimately show "wf_db d'"
    using w assms(2)
    by (auto simp: wf_db_def wf_attempts_def wf_jobs_def wf_ready_def new_attempt_def less_le_not_le)
  show "evolves d d'"
    using assms(2)
    by (auto simp: evolves_def history_grows_def job_ids_def attempts_evolve_def new_attempt_def
        intro: att_le_refl)
qed

section \<open>Job statements\<close>

lemma live_update_safe:
  assumes "live d' = update_where Q f (live d)" "\<And>j. j_id (f j) = j_id j"
    "history d' = history d" "attempts d' = attempts d" "ready d' = ready d"
    "next_attempt d' = next_attempt d" "staged d' = staged d"
  shows "safe d d'"
proof -
  have ids: "map j_id (live d') = map j_id (live d)"
    using assms(1,2) by (simp add: map_update_where)
  then have "j_id ` set (live d') = j_id ` set (live d)" by (metis set_map)
  then show ?thesis
    using assms ids
    by (auto simp: safe_def wf_db_def wf_jobs_def wf_attempts_def wf_ready_def evolves_def
        history_grows_def attempts_evolve_def job_ids_def intro: att_le_refl)
qed

lemma set_ran_simps [simp]:
  "j_id (set_ran d v j) = j_id j" "j_status (set_ran d v j) = j_status j"
  "j_created_at (set_ran d v j) = j_created_at j" "j_version (set_ran d v j) = j_version j"
  "j_finished_at (set_ran d v j) = j_finished_at j"
  "j_termination_reason (set_ran d v j) = j_termination_reason j"
  "j_error (set_ran d v j) = j_error j" "j_output (set_ran d v j) = j_output j"
  "j_runs (set_ran d v j) = j_runs j" "j_parent_job_id (set_ran d v j) = j_parent_job_id j"
  "j_kwargs (set_ran d v j) = j_kwargs j" "j_task_path (set_ran d v j) = j_task_path j"
  by (simp_all add: set_ran_def split: option.splits)

lemma history_row_simps [simp]:
  "j_id (history_row d now st v j) = j_id j"
  "j_status (history_row d now st v j) = st"
  "j_created_at (history_row d now st v j) = j_created_at j"
  "j_version (history_row d now st v j) = j_version j + 1"
  "j_parent_job_id (history_row d now st v j) = j_parent_job_id j"
  "j_termination_reason (history_row d now st v j) =
     override (v_termination_reason v) (j_termination_reason j)"
  "j_error (history_row d now st v j) = override (v_error v) (j_error j)"
  "j_output (history_row d now st v j) = override (v_output v) (j_output j)"
  "j_runs (history_row d now st v j) = override (v_runs v) (j_runs j)"
  by (simp_all add: history_row_def set_values_def)

lemma history_row_finished: "\<exists>t. j_finished_at (history_row d now st v j) = Some t"
  by (auto simp: history_row_def coalesce_def split: option.splits)

lemma wf_live_unique:
  "wf_db d \<Longrightarrow> x \<in> set (live d) \<Longrightarrow> y \<in> set (live d) \<Longrightarrow> j_id x = j_id y \<Longrightarrow> x = y"
  by (auto simp: wf_db_def wf_jobs_def intro: distinct_key_unique)

lemma wf_live_not_history:
  "wf_db d \<Longrightarrow> x \<in> set (live d) \<Longrightarrow> j_id x \<notin> j_id ` set (history d)"
  by (auto simp: wf_db_def wf_jobs_def)

lemma live_by_id_Some:
  assumes "wf_db d"
  shows "live_by_id jid d = Some j \<longleftrightarrow> j \<in> set (live d) \<and> j_id j = jid"
proof
  assume "live_by_id jid d = Some j"
  then show "j \<in> set (live d) \<and> j_id j = jid" unfolding live_by_id_def by (rule find_mem)
next
  assume "j \<in> set (live d) \<and> j_id j = jid"
  moreover have "distinct (map j_id (live d))" using assms by (simp add: wf_db_def wf_jobs_def)
  ultimately show "live_by_id jid d = Some j"
    unfolding live_by_id_def by (auto intro: find_distinct_key)
qed

lemma live_by_id_None: "live_by_id jid d = None \<longleftrightarrow> (\<forall>j\<in>set (live d). j_id j \<noteq> jid)"
  by (simp add: live_by_id_def find_none)

lemma move_where_id: "move_where d jid fe j \<Longrightarrow> j_id j = jid"
  by (simp add: move_where_def)

text \<open>Under the invariant at most one row matches, so the transition never raises.\<close>

lemma move_filter:
  assumes "wf_db d"
  shows "filter (move_where d jid fe) (live d) =
    (case live_by_id jid d of
       None \<Rightarrow> [] | Some j \<Rightarrow> if move_where d jid fe j then [j] else [])"
proof -
  have dis: "distinct (map j_id (live d))" using assms by (simp add: wf_db_def wf_jobs_def)
  have "filter (move_where d jid fe) t =
      (case List.find (\<lambda>j. j_id j = jid) t of
         None \<Rightarrow> [] | Some j \<Rightarrow> if move_where d jid fe j then [j] else [])"
    if "distinct (map j_id t)" for t
    using that
  proof (induction t)
    case Nil
    then show ?case by simp
  next
    case (Cons x t)
    show ?case
    proof (cases "j_id x = jid")
      case True
      then have "\<forall>y\<in>set t. j_id y \<noteq> jid" using Cons.prems by (force simp: image_iff)
      then have "filter (move_where d jid fe) t = []"
        by (auto simp: filter_empty_conv move_where_def)
      then show ?thesis using True by simp
    next
      case False
      then have "\<not> move_where d jid fe x" by (auto simp: move_where_def)
      then show ?thesis using Cons False by simp
    qed
  qed
  then show ?thesis using dis by (simp add: live_by_id_def)
qed

definition moved_to_history ::
  "timestamp \<Rightarrow> job_id \<Rightarrow> job_status \<Rightarrow> finish_values \<Rightarrow> job \<Rightarrow> db \<Rightarrow> db" where
  "moved_to_history now jid st v j d =
     close_stragglers jid st now
       (d\<lparr>live := delete_where (\<lambda>x. j_id x = jid) (live d),
          history := history d @ [history_row d now st v j]\<rparr>)"

lemma finish_in_cases:
  assumes w: "wf_db d"
  shows "finish_in now jid st v fe d =
    (case live_by_id jid d of
       None \<Rightarrow> Inr (d, False)
     | Some j \<Rightarrow> if move_where d jid fe j then Inr (moved_to_history now jid st v j d, True)
                 else Inr (d, False))"
proof (cases "live_by_id jid d")
  case None
  then show ?thesis by (simp add: finish_in_def move_filter [OF w])
next
  case (Some j)
  then have j: "j \<in> set (live d)" "j_id j = jid" using live_by_id_Some [OF w] by auto
  show ?thesis
  proof (cases "move_where d jid fe j")
    case False
    then show ?thesis using Some by (simp add: finish_in_def move_filter [OF w])
  next
    case True
    have f: "filter (move_where d jid fe) (live d) = [j]"
      using Some True by (simp add: move_filter [OF w])
    have fresh: "history_key (history_row d now st v j) \<notin> history_key ` set (history d)"
      using wf_live_not_history [OF w j(1)] by (auto simp: history_key_def)
    have dh: "distinct (map history_key (history d))"
    proof -
      have "distinct (map j_id (history d))" using w by (simp add: wf_db_def wf_jobs_def)
      then have "distinct (map snd (map history_key (history d)))"
        by (simp add: history_key_def comp_def)
      then show ?thesis by (simp only: distinct_map)
    qed
    have del: "delete_where (move_where d jid fe) (live d) =
        delete_where (\<lambda>x. j_id x = jid) (live d)"
      unfolding delete_where_def
    proof (rule filter_cong)
      fix x assume "x \<in> set (live d)"
      then show "(\<not> move_where d jid fe x) = (j_id x \<noteq> jid)"
        using True j wf_live_unique [OF w, of x j] move_where_id by metis
    qed simp
    show ?thesis
      using Some True f fresh dh del
      by (simp add: finish_in_def rowcount_def moved_to_history_def Let_def)
  qed
qed

lemma moved_frame [simp]:
  "live (moved_to_history now jid st v j d) = delete_where (\<lambda>x. j_id x = jid) (live d)"
  "history (moved_to_history now jid st v j d) = history d @ [history_row d now st v j]"
  "ready (moved_to_history now jid st v j d) = ready d"
  "blocked (moved_to_history now jid st v j d) = blocked d"
  "workers (moved_to_history now jid st v j d) = workers d" "staged (moved_to_history now jid st v j d) = staged d"
  "next_attempt (moved_to_history now jid st v j d) = next_attempt d"
  "is_running (moved_to_history now jid st v j d) k \<longleftrightarrow> k \<noteq> jid \<and> is_running d k"
  by (simp_all add: moved_to_history_def close_stragglers_def)

lemma moved_safe:
  assumes j: "j \<in> set (live d)" "j_id j = jid" and st: "is_terminal st"
  shows "safe d (moved_to_history now jid st v j d)"
proof -
  let ?d = "d\<lparr>live := delete_where (\<lambda>x. j_id x = jid) (live d),
          history := history d @ [history_row d now st v j]\<rparr>"
  have "safe d ?d"
    unfolding safe_def
  proof (intro impI conjI)
    assume w: "wf_db d"
    have "distinct (map sj_id (staged ?d) @ map j_id (live ?d @ history ?d))"
      using w wf_live_not_history [OF w j(1)] j
      by (fastforce simp: wf_db_def wf_jobs_def)
    then show "wf_db ?d"
      using w st by (auto simp: wf_db_def wf_jobs_def wf_attempts_def wf_ready_def)
    show "evolves d ?d"
      using j by (auto simp: evolves_def history_grows_def attempts_evolve_def job_ids_def
          intro: att_le_refl)
  qed
  then show ?thesis
    unfolding moved_to_history_def by (rule safe_trans) (rule close_variants_safe)
qed

lemma finish_in_safe:
  assumes "finish_in now jid st v fe d = Inr (d', ok)" "is_terminal st"
  shows "safe d d'"
proof (cases "wf_db d")
  case False
  then show ?thesis by (simp add: safe_def)
next
  case True
  have *: "d' = d \<or> (\<exists>j. j \<in> set (live d) \<and> j_id j = jid \<and> d' = moved_to_history now jid st v j d)"
    using assms(1) finish_in_cases [OF True] live_by_id_Some [OF True]
    by (auto split: option.splits if_splits)
  then show ?thesis using moved_safe assms(2) by blast
qed

lemma finish_in_total: "wf_db d \<Longrightarrow> \<exists>d' ok. finish_in now jid st v fe d = Inr (d', ok)"
  by (auto simp: finish_in_cases split: option.splits)

lemma finish_in_False: "wf_db d \<Longrightarrow> finish_in now jid st v fe d = Inr (d', False) \<Longrightarrow> d' = d"
  by (auto simp: finish_in_cases split: option.splits if_splits)

lemma finish_in_True:
  assumes "wf_db d" "finish_in now jid st v fe d = Inr (d', True)"
  obtains j where "j \<in> set (live d)" "j_id j = jid" "move_where d jid fe j"
    "d' = moved_to_history now jid st v j d"
proof -
  from assms obtain j where "live_by_id jid d = Some j" "move_where d jid fe j"
    "d' = moved_to_history now jid st v j d"
    by (auto simp: finish_in_cases split: option.splits if_splits)
  then show ?thesis using that live_by_id_Some [OF assms(1)] by blast
qed

end
