(* ===== verification/Sq_Utils.thy ===== *)
theory Sq_Utils
  imports Sq_Models
begin

text \<open>
  The rate-limit parser of \<^verbatim>\<open>core/utils.py\<close>. The regular expression
  \<^verbatim>\<open>^(\d+)/(\d+)?([smh])$\<close> is the scanner below (\<^verbatim>\<open>$\<close> also accepts one newline at the end);
  \<^verbatim>\<open>\d\<close> is an ASCII digit here. A window beyond \<^verbatim>\<open>timedelta.max\<close> overflows.
\<close>

definition nat_of_digits :: "string \<Rightarrow> nat" where
  "nat_of_digits = foldl (\<lambda>acc c. acc * 10 + (of_char c - 48)) 0"

datatype time_unit = Unit_s | Unit_m | Unit_h

fun unit_of :: "string \<Rightarrow> time_unit option" where
  "unit_of (c # rest) =
     (if rest \<noteq> [] \<and> rest \<noteq> [CHR 0x0A] then None
      else if c = CHR ''s'' then Some Unit_s
      else if c = CHR ''m'' then Some Unit_m
      else if c = CHR ''h'' then Some Unit_h
      else None)"
| "unit_of [] = None"

text \<open>The three groups of the match, the second one possibly absent.\<close>

definition match_rate_limit :: "string \<Rightarrow> (string \<times> string option \<times> time_unit) option" where
  "match_rate_limit s =
     (let count = takeWhile is_digit s; rest = dropWhile is_digit s
      in if count = [] then None
         else case rest of
                [] \<Rightarrow> None
              | c # rest' \<Rightarrow>
                  if c \<noteq> CHR ''/'' then None
                  else (let mult = takeWhile is_digit rest'
                        in case unit_of (dropWhile is_digit rest') of
                             None \<Rightarrow> None
                           | Some u \<Rightarrow> Some (count, (if mult = [] then None else Some mult), u)))"

fun unit_seconds :: "time_unit \<Rightarrow> int" where
  "unit_seconds Unit_s = 1"
| "unit_seconds Unit_m = 60"
| "unit_seconds Unit_h = 3600"

definition timedelta_max_seconds :: int where
  "timedelta_max_seconds = 999999999 * 86400 + 86399"

text \<open>\<^verbatim>\<open>timedelta(seconds=q)\<close>: microseconds, rounded half to even.\<close>

definition timedelta_us :: "rat \<Rightarrow> int" where
  "timedelta_us q =
     (let x = q * 1000000; f = \<lfloor>x\<rfloor>; r = x - of_int f
      in if r < 1 / 2 then f else if r > 1 / 2 then f + 1 else if even f then f else f + 1)"

definition parse_rate_limit :: "string \<Rightarrow> (nat \<times> int) result" where
  "parse_rate_limit s =
     (case match_rate_limit s of
        None \<Rightarrow> Inl ValueError
      | Some (c, m, u) \<Rightarrow>
          (let count = nat_of_digits c;
               multiplier = (case m of Some ds \<Rightarrow> nat_of_digits ds | None \<Rightarrow> 1)
           in if count = 0 then Inl ValueError
              else if multiplier = 0 then Inl ValueError
              else if int multiplier * unit_seconds u > timedelta_max_seconds
              then Inl OverflowError
              else Inr (count, seconds (int multiplier * unit_seconds u))))"

definition calculate_rate_limit_seconds :: "string \<Rightarrow> (nat \<times> rat) result" where
  "calculate_rate_limit_seconds s =
     (case parse_rate_limit s of
        Inl e \<Rightarrow> Inl e | Inr (count, window) \<Rightarrow> Inr (count, total_seconds window))"

section \<open>Lemmas\<close>

lemma digit_value: "of_char (digit_char d) - (48::nat) = d mod 10"
proof -
  have "k < 10 \<Longrightarrow> of_char (''0123456789'' ! k) - (48::nat) = k" for k
    by (simp add: eval_nat_numeral less_Suc_eq) auto
  then show ?thesis by (simp add: digit_char_def)
qed

lemma nat_of_digits_show [simp]: "nat_of_digits (show_nat n) = n"
proof (induction n rule: show_nat.induct)
  case (1 n)
  show ?case
  proof (cases "n < 10")
    case True
    then show ?thesis by (subst show_nat.simps) (simp add: nat_of_digits_def digit_value)
  next
    case False
    then have "nat_of_digits (show_nat (n div 10)) = n div 10" using 1 by simp
    then show ?thesis
      using False by (subst show_nat.simps) (simp add: nat_of_digits_def digit_value)
  qed
qed

lemma takeWhile_show [simp]:
  "\<not> is_digit c \<Longrightarrow> takeWhile is_digit (show_nat n @ c # s) = show_nat n"
  by (simp add: takeWhile_append)

lemma dropWhile_show [simp]:
  "\<not> is_digit c \<Longrightarrow> dropWhile is_digit (show_nat n @ c # s) = c # s"
  by (simp add: dropWhile_append)

fun unit_char :: "time_unit \<Rightarrow> char" where
  "unit_char Unit_s = CHR ''s''"
| "unit_char Unit_m = CHR ''m''"
| "unit_char Unit_h = CHR ''h''"

lemma unit_char_not_digit [simp]: "\<not> is_digit (unit_char u)" "\<not> is_digit (CHR ''/'')"
  by (cases u; simp add: is_digit_def)+

lemma unit_of_char [simp]: "unit_of [unit_char u] = Some u"
  by (cases u) simp_all

declare unit_of.simps [simp del]

text \<open>Printing a limit and parsing it back, with and without a multiplier.\<close>

definition show_rate_limit :: "nat \<Rightarrow> nat option \<Rightarrow> time_unit \<Rightarrow> string" where
  "show_rate_limit count m u =
     show_nat count @ ''/'' @ (case m of None \<Rightarrow> [] | Some k \<Rightarrow> show_nat k) @ [unit_char u]"

lemma match_show:
  "match_rate_limit (show_rate_limit c m u) = Some (show_nat c, map_option show_nat m, u)"
  by (cases m) (simp_all add: match_rate_limit_def show_rate_limit_def Let_def)

lemma unit_seconds_pos [simp]: "0 < unit_seconds u"
  by (cases u) simp_all

section \<open>Properties\<close>

text \<open>A rate limit written as count, slash, optional multiplier and unit parses to exactly that
  count and that window in microseconds, as long as the window fits a timedelta.\<close>

theorem parse_rate_limit_roundtrip:
  assumes "0 < c" and "m \<noteq> Some 0"
    and "int (case m of None \<Rightarrow> 1 | Some k \<Rightarrow> k) * unit_seconds u \<le> timedelta_max_seconds"
  shows "parse_rate_limit (show_rate_limit c m u) =
    Inr (c, seconds (int (case m of None \<Rightarrow> 1 | Some k \<Rightarrow> k) * unit_seconds u))"
  using assms by (cases m) (auto simp: parse_rate_limit_def match_show Let_def)

theorem parse_rate_limit_roundtrip_witness:
  "parse_rate_limit (show_rate_limit 5 (Some 10) Unit_m) = Inr (5, 600000000)"
  using parse_rate_limit_roundtrip [of 5 "Some 10" Unit_m]
  by (simp add: timedelta_max_seconds_def seconds_def)

text \<open>Whatever the configured string, a parsed limit has a positive count and a positive
  window; the division in the descriptions and the window of the claim check are never empty.\<close>

lemma parse_rate_limit_positive:
  assumes "parse_rate_limit s = Inr (count, window)"
  shows "0 < count \<and> 0 < window"
proof -
  from assms obtain c m u where m: "match_rate_limit s = Some (c, m, u)"
    by (auto simp: parse_rate_limit_def split: option.splits)
  define k where "k = (case m of Some ds \<Rightarrow> nat_of_digits ds | None \<Rightarrow> 1)"
  have "count = nat_of_digits c" "nat_of_digits c \<noteq> 0" "k \<noteq> 0"
      "window = seconds (int k * unit_seconds u)"
    using assms m by (auto simp: parse_rate_limit_def k_def Let_def split: if_splits)
  then show ?thesis by (simp add: seconds_def)
qed

end
