(* ===== verification/Sq_Claim.thy ===== *)
theory Sq_Claim
  imports Sq_Table_Laws Sq_Utils "HOL-Library.Char_ord" "HOL-Library.List_Lexorder"
begin

text \<open>
  Claiming (\<^verbatim>\<open>fastapi_sqlery/backend.py\<close>: \<^verbatim>\<open>_claim_from_ready\<close> and what it calls,
  \<^verbatim>\<open>claim_job_by_id\<close>, \<^verbatim>\<open>atomic_claim_job\<close>). One pass of the claim loop is one transaction, the
  function \<open>claim_iteration\<close>; the loop is \<open>claim_from_ready\<close>, whose termination is proved from the
  keyset cursor: it moves strictly forward and the ready table does not grow during a claim.

  What other sessions hold locked and what the process supplies is the record \<open>claim_env\<close>: locked
  ready entries and job rows and busy tag locks (PostgreSQL; nothing is ever locked on SQLite),
  the configured tag limits, the tokens that \<^verbatim>\<open>uuid4\<close> draws, the process id and the worker row id.
\<close>

section \<open>Environment and results\<close>

record claim_env =
  ce_pg :: bool
  ce_locked :: "ready_entry \<Rightarrow> bool"
  ce_busy :: "job_id \<Rightarrow> bool"
  ce_tag_busy :: "string \<Rightarrow> bool"
  ce_conc :: "string \<Rightarrow> int option"
  ce_rate :: "string \<Rightarrow> string option"
  ce_token :: "int \<Rightarrow> string"
  ce_pid :: int
  ce_worker :: "string option"

datatype claim_strategy = Skip_locked | Optimistic_version | Basic_lock

definition determine_claim_strategy :: "string option \<Rightarrow> claim_strategy" where
  "determine_claim_strategy dialect_name =
     (if dialect_name = Some ''postgresql'' then Skip_locked
      else if dialect_name = Some ''sqlite'' then Optimistic_version
      else Basic_lock)"

text \<open>\<open>worker_pk\<close> turns a worker name into the primary key of its row (\<^verbatim>\<open>uuid5\<close>).\<close>

definition attempt_worker_id :: "(string \<Rightarrow> string) \<Rightarrow> string option \<Rightarrow> string option" where
  "attempt_worker_id worker_pk worker_id =
     (case worker_id of
        None \<Rightarrow> None
      | Some w \<Rightarrow> if startswith w ''lambda-'' \<or> startswith w ''trigger-'' then None
                  else Some (worker_pk w))"

datatype claim_outcome = Claimed | Keep | Restore

section \<open>Opening an attempt\<close>

definition open_attempt :: "claim_env \<Rightarrow> job_id \<Rightarrow> timestamp \<Rightarrow> db \<Rightarrow> db \<times> attempt_handle" where
  "open_attempt env jid now d =
     (let a = new_attempt (next_attempt d) jid (ce_token env (next_attempt d)) (ce_worker env)
                (ce_pid env) now
      in (d\<lparr>attempts := attempts d @ [a], next_attempt := next_attempt d + 1\<rparr>,
          \<lparr>h_id = a_id a, h_token = a_token a, h_job_id = jid, h_claimed_at = Some now,
           h_worker_id = ce_worker env, h_worker_pid = a_worker_pid a\<rparr>))"

definition start_attempt ::
  "claim_env \<Rightarrow> job \<Rightarrow> timestamp \<Rightarrow> db \<Rightarrow> db \<times> attempt_handle option \<times> claim_outcome" where
  "start_attempt env j now d =
     (case List.find (\<lambda>r. j_id r = j_id j \<and> j_created_at r = j_created_at j \<and>
                          \<not> (ce_pg env \<and> ce_busy env (j_id r))) (live d) of
        None \<Rightarrow> (d, None, Restore)
      | Some row \<Rightarrow>
          (let running = is_running d (j_id j);
               verdict = claim_verdict (Some (j_status row)) (Some (j_version row))
                           (Some (j_version j)) running
           in if verdict \<noteq> V_ok then
                (if j_status row \<noteq> Queued \<or> running then (d, None, Keep) else (d, None, Restore))
              else (let (d', h) = open_attempt env (j_id j) now d in (d', Some h, Claimed))))"

definition as_running :: "job \<Rightarrow> attempt_handle \<Rightarrow> job" where
  "as_running j h =
     j\<lparr>j_status := Running, j_started_at := h_claimed_at h, j_worker_id := h_worker_id h,
       j_worker_pid := h_worker_pid h, j_child_pid := None\<rparr>"

section \<open>Judging a candidate\<close>

definition fail_queued ::
  "timestamp \<Rightarrow> job \<Rightarrow> string \<Rightarrow> string \<Rightarrow> db \<Rightarrow> (db \<times> bool) result" where
  "fail_queued now j error reason d =
     (let d1 = fst (delete_ready [j_id j] d);
          d2 = delete_blocked [j_id j] d1
      in finish_in now (j_id j) Failed
           (no_values\<lparr>v_error := Some error, v_termination_reason := Some reason,
                      v_finished_at := Some now\<rparr>)
           (no_fences\<lparr>fe_created_at := Some (j_created_at j), fe_status := Some [Queued],
                      fe_idle := True\<rparr>) d2)"

definition judge_in :: "db \<Rightarrow> job_id list \<Rightarrow> dependency_verdict" where
  "judge_in d deps = judge_dependencies deps (anywhere_by_id d) (latest_retry d)"

datatype decision = D_ok | D_pending | D_expired | D_failed

definition ttl_expired :: "timestamp \<Rightarrow> job \<Rightarrow> bool" where
  "ttl_expired now j =
     (case j_ttl j of None \<Rightarrow> False | Some ttl \<Rightarrow> ttl \<noteq> 0 \<and> now - j_created_at j > seconds ttl)"

definition claim_decision :: "timestamp \<Rightarrow> job \<Rightarrow> db \<Rightarrow> (db \<times> decision) result" where
  "claim_decision now j d =
     (if ttl_expired now j then
        (case fail_queued now j
                (''Job expired after '' @ show_int (the (j_ttl j)) @ ''s in queue (ttl)'')
                ''expired'' d of
           Inl e \<Rightarrow> Inl e | Inr (d', _) \<Rightarrow> Inr (d', D_expired))
      else
        (let deps = dependency_ids j in
         if deps = [] then Inr (d, D_ok)
         else case judge_in d deps of
                Dep_failed failed \<Rightarrow>
                  (case fail_queued now j (''Dependencies failed: '' @ show_int_list failed)
                          ''dependency_failed'' d of
                     Inl e \<Rightarrow> Inl e | Inr (d', _) \<Rightarrow> Inr (d', D_failed))
              | Pending \<Rightarrow> Inr (d, D_pending)
              | Met \<Rightarrow> Inr (d, D_ok)))"

definition count_tag :: "string \<Rightarrow> job_status list \<Rightarrow> timestamp option \<Rightarrow> db \<Rightarrow> nat" where
  "count_tag tag sts since d =
     rowcount (\<lambda>j. j_status j \<in> set sts \<and>
                   (case since of
                      None \<Rightarrow> True
                    | Some t0 \<Rightarrow> (case j_started_at j of None \<Rightarrow> False | Some t \<Rightarrow> t \<ge> t0)) \<and>
                   tag \<in> set (j_tags j)) (job_all d)"

text \<open>\<^verbatim>\<open>datetime.min\<close> (year 1) in microseconds: subtracting a longer window raises.\<close>

definition datetime_min :: timestamp where
  "datetime_min = seconds (- 62135596800)"

fun tags_over_limit ::
  "(string \<Rightarrow> int option) \<Rightarrow> (string \<Rightarrow> string option) \<Rightarrow> timestamp \<Rightarrow> db \<Rightarrow> string list \<Rightarrow> bool result"
where
  "tags_over_limit conc rate now d [] = Inr False"
| "tags_over_limit conc rate now d (tag # tags) =
     (if (case conc tag of
            None \<Rightarrow> False | Some limit \<Rightarrow> int (count_tag tag [Running] None d) \<ge> limit)
      then Inr True
      else case rate tag of
             None \<Rightarrow> tags_over_limit conc rate now d tags
           | Some r \<Rightarrow>
               if r = [] then tags_over_limit conc rate now d tags
               else case parse_rate_limit r of
                      Inl ValueError \<Rightarrow> tags_over_limit conc rate now d tags
                    | Inl e \<Rightarrow> Inl e
                    | Inr (count, window) \<Rightarrow>
                        if now - window < datetime_min then Inl OverflowError
                        else if count_tag tag [Running, Success, Failed] (Some (now - window)) d
                                  \<ge> count then Inr True
                        else tags_over_limit conc rate now d tags)"

definition tag_limited :: "claim_env \<Rightarrow> timestamp \<Rightarrow> job \<Rightarrow> db \<Rightarrow> bool result" where
  "tag_limited env now j d =
     (let limited = sort (filter (\<lambda>t. ce_conc env t \<noteq> None \<or> ce_rate env t \<noteq> None) (j_tags j))
      in if limited = [] then Inr False
         else if ce_pg env \<and> (\<exists>t\<in>set limited. ce_tag_busy env t) then Inr True
         else tags_over_limit (ce_conc env) (ce_rate env) now d limited)"

section \<open>The claim loop\<close>

record claim_state =
  cs_db :: db
  cs_cursor :: "cursor option"
  cs_blocked :: "(job_id \<times> timestamp) list"
  cs_failed :: "job_id list"

datatype iteration = It_none | It_next | It_claimed job attempt_handle

definition job_under_entry :: "ready_entry \<Rightarrow> db \<Rightarrow> job option" where
  "job_under_entry e d =
     (case job_of_entry e d of Some j \<Rightarrow> Some j | None \<Rightarrow> live_by_id (r_job_id e) d)"

text \<open>The last part of an iteration: the entry delete is the mutex, then the attempt.\<close>

definition take_entry ::
  "claim_env \<Rightarrow> timestamp \<Rightarrow> ready_entry \<Rightarrow> job \<Rightarrow> db \<Rightarrow> db \<times> iteration" where
  "take_entry env now e j d =
     (let (d1, n) = delete_entry (r_slot e) (r_job_id e) d
      in if n \<noteq> 1 then (d1, It_next)
         else case start_attempt env j now d1 of
                (d2, Some h, _) \<Rightarrow> (d2, It_claimed (as_running j h) h)
              | (d2, None, Restore) \<Rightarrow> (d, It_next)
              | (d2, None, _) \<Rightarrow> (d2, It_next))"

text \<open>Moving a candidate with unmet dependencies from the ready to the blocked table.\<close>

definition park_entry ::
  "timestamp \<Rightarrow> ready_entry \<Rightarrow> job \<Rightarrow> db \<Rightarrow> db \<times> (job_id \<times> timestamp) list" where
  "park_entry now e j d =
     (case insert_blocked now j of
        None \<Rightarrow> (d, [])
      | Some ins \<Rightarrow>
          (let (d1, n) = delete_entry (r_slot e) (r_job_id e) d
           in if n = 1 then (ins d1, [(r_job_id e, r_created_at e)]) else (d1, [])))"

definition examine ::
  "claim_env \<Rightarrow> timestamp \<Rightarrow> ready_entry \<Rightarrow> claim_state \<Rightarrow> (claim_state \<times> iteration) result" where
  "examine env now e st =
     (let d = cs_db st in
      case job_under_entry e d of
        None \<Rightarrow> Inr (st\<lparr>cs_db := fst (delete_entry (r_slot e) (r_job_id e) d)\<rparr>, It_next)
      | Some j \<Rightarrow>
          if j_status j \<noteq> Queued \<or> is_running d (r_job_id e)
          then Inr (st\<lparr>cs_db := fst (delete_entry (r_slot e) (r_job_id e) d)\<rparr>, It_next)
          else case claim_decision now j d of
                 Inl err \<Rightarrow> Inl err
               | Inr (d1, dec) \<Rightarrow>
                   if dec = D_expired \<or> dec = D_failed then
                     Inr (st\<lparr>cs_db := fst (delete_ready [r_job_id e] d1),
                             cs_failed := cs_failed st @ [r_job_id e]\<rparr>, It_next)
                   else if dec = D_pending then
                     (let (d2, bl) = park_entry now e j d1
                      in Inr (st\<lparr>cs_db := d2, cs_blocked := cs_blocked st @ bl\<rparr>, It_next))
                   else (case tag_limited env now j d1 of
                           Inl err \<Rightarrow> Inl err
                         | Inr True \<Rightarrow> Inr (st\<lparr>cs_db := d1\<rparr>, It_next)
                         | Inr False \<Rightarrow>
                             (let (d2, it) = take_entry env now e j d1
                              in Inr (st\<lparr>cs_db := d2\<rparr>, it))))"

definition cursor_of :: "ready_entry \<Rightarrow> cursor" where
  "cursor_of e = (r_priority e, r_created_at e, r_job_id e)"

definition claim_iteration ::
  "claim_env \<Rightarrow> string list \<Rightarrow> timestamp \<Rightarrow> claim_state \<Rightarrow> (claim_state \<times> iteration) result" where
  "claim_iteration env queues now st =
     (case next_entry queues now (cs_cursor st) (ce_locked env) (cs_db st) of
        None \<Rightarrow> Inr (st, It_none)
      | Some e \<Rightarrow> examine env now e (st\<lparr>cs_cursor := Some (cursor_of e)\<rparr>))"

definition claim_measure :: "string list \<Rightarrow> timestamp \<Rightarrow> claim_state \<Rightarrow> nat" where
  "claim_measure queues now st =
     rowcount (\<lambda>e. entry_due queues now e \<and> after_cursor (cs_cursor st) e) (ready (cs_db st))"

subsection \<open>The cursor moves forward\<close>

definition shrinks :: "db \<Rightarrow> db \<Rightarrow> bool" where
  "shrinks d d' \<longleftrightarrow> (\<exists>P. ready d' = filter P (ready d))"

lemma shrinks_refl [simp]: "shrinks d d"
  unfolding shrinks_def by (rule exI [of _ "\<lambda>_. True"]) simp

lemma shrinks_trans: "shrinks d e \<Longrightarrow> shrinks e f \<Longrightarrow> shrinks d f"
  by (auto simp: shrinks_def filter_filter)

lemma shrinks_same: "ready d' = ready d \<Longrightarrow> shrinks d d'"
  unfolding shrinks_def by (rule exI [of _ "\<lambda>_. True"]) simp

lemma shrinks_delete: "ready d' = delete_where Q (ready d) \<Longrightarrow> shrinks d d'"
  by (auto simp: shrinks_def delete_where_def)

lemma shrinks_delete_entry [simp]: "shrinks d (fst (delete_entry slot jid d))"
  by (rule shrinks_delete) simp

lemma shrinks_delete_ready [simp]: "shrinks d (fst (delete_ready ids d))"
  by (rule shrinks_delete) simp

lemma finish_in_ready: "finish_in now jid st v fe d = Inr (d', ok) \<Longrightarrow> ready d' = ready d"
  by (auto simp: finish_in_def Let_def close_stragglers_def split: if_splits)

lemma fail_queued_ready:
  "fail_queued now j e r d = Inr (d', ok) \<Longrightarrow>
     ready d' = delete_where (\<lambda>x. r_slot x \<in> set SLOTS \<and> r_job_id x \<in> set [j_id j]) (ready d)"
  unfolding fail_queued_def Let_def by (drule finish_in_ready) simp

lemma claim_decision_cases:
  assumes "claim_decision now j d = Inr (d', dec)"
  shows "(d' = d \<and> (dec = D_ok \<or> dec = D_pending)) \<or>
    ((dec = D_expired \<or> dec = D_failed) \<and> (\<exists>e r ok. fail_queued now j e r d = Inr (d', ok)))"
proof (cases "ttl_expired now j")
  case True
  then show ?thesis using assms by (auto simp: claim_decision_def split: sum.splits)
next
  case False
  show ?thesis
  proof (cases "dependency_ids j = []")
    case True
    then show ?thesis using assms False by (simp add: claim_decision_def)
  next
    case deps: False
    show ?thesis
    proof (cases "judge_in d (dependency_ids j)")
      case (Dep_failed ds)
      then show ?thesis using assms False deps by (auto simp: claim_decision_def split: sum.splits)
    qed (use assms False deps in \<open>simp_all add: claim_decision_def\<close>)
  qed
qed

lemma shrinks_decision: "claim_decision now j d = Inr (d', dec) \<Longrightarrow> shrinks d d'"
  by (drule claim_decision_cases) (auto dest: fail_queued_ready intro: shrinks_delete)

lemma start_attempt_cases:
  obtains "start_attempt env j now d = (d, None, Keep)" | "start_attempt env j now d = (d, None, Restore)"
  | row d' h where "start_attempt env j now d = (d', Some h, Claimed)"
      "open_attempt env (j_id j) now d = (d', h)" "row \<in> set (live d)" "j_id row = j_id j"
      "j_created_at row = j_created_at j" "j_status row = Queued" "j_version row = j_version j"
      "\<not> is_running d (j_id j)"
proof -
  let ?P = "\<lambda>r. j_id r = j_id j \<and> j_created_at r = j_created_at j \<and>
      \<not> (ce_pg env \<and> ce_busy env (j_id r))"
  show ?thesis
  proof (cases "List.find ?P (live d)")
    case None
    then show ?thesis using that(2) by (simp add: start_attempt_def)
  next
    case (Some row)
    have row: "row \<in> set (live d)" "?P row" using find_mem [OF Some] by auto
    show ?thesis
    proof (cases "claim_verdict (Some (j_status row)) (Some (j_version row)) (Some (j_version j))
        (is_running d (j_id j))")
      case V_ok
      obtain d' h where oa: "open_attempt env (j_id j) now d = (d', h)" by fastforce
      have "start_attempt env j now d = (d', Some h, Claimed)"
        using Some V_ok oa by (simp add: start_attempt_def)
      then show ?thesis using that(3) oa row V_ok by (auto simp: claim_verdict_ok_iff)
    next
      case V_stale
      have "start_attempt env j now d =
          (if j_status row \<noteq> Queued \<or> is_running d (j_id j) then (d, None, Keep)
           else (d, None, Restore))"
        using Some V_stale by (simp add: start_attempt_def)
      then show ?thesis using that(1,2) by presburger
    qed
  qed
qed

lemma open_attempt_frame [simp]:
  "live (fst (open_attempt env jid now d)) = live d"
  "history (fst (open_attempt env jid now d)) = history d"
  "ready (fst (open_attempt env jid now d)) = ready d"
  "blocked (fst (open_attempt env jid now d)) = blocked d"
  "workers (fst (open_attempt env jid now d)) = workers d"
  "staged (fst (open_attempt env jid now d)) = staged d"
  by (simp_all add: open_attempt_def Let_def)

lemma take_entry_cases:
  obtains "take_entry env now e j d = (fst (delete_entry (r_slot e) (r_job_id e) d), It_next)"
  | "take_entry env now e j d = (d, It_next)"
  | d' h row where "take_entry env now e j d = (d', It_claimed (as_running j h) h)"
      "open_attempt env (j_id j) now (fst (delete_entry (r_slot e) (r_job_id e) d)) = (d', h)"
      "snd (delete_entry (r_slot e) (r_job_id e) d) = 1"
      "row \<in> set (live d)" "j_id row = j_id j" "j_created_at row = j_created_at j"
      "j_status row = Queued" "j_version row = j_version j" "\<not> is_running d (j_id j)"
proof -
  obtain d1 n where de: "delete_entry (r_slot e) (r_job_id e) d = (d1, n)" by fastforce
  have fr: "live d1 = live d" "is_running d1 = is_running d"
    using delete_entry_frame [of "r_slot e" "r_job_id e" d] by (simp_all add: de)
  show ?thesis
  proof (cases "n = 1")
    case False
    then show ?thesis using that(1) de by (simp add: take_entry_def)
  next
    case True
    show ?thesis
    proof (rule start_attempt_cases [of env j now d1])
      assume "start_attempt env j now d1 = (d1, None, Keep)"
      then show ?thesis using that(1) de True by (simp add: take_entry_def)
    next
      assume "start_attempt env j now d1 = (d1, None, Restore)"
      then show ?thesis using that(2) de True by (simp add: take_entry_def)
    next
      fix row d' h
      assume *: "start_attempt env j now d1 = (d', Some h, Claimed)"
        "open_attempt env (j_id j) now d1 = (d', h)" "row \<in> set (live d1)" "j_id row = j_id j"
        "j_created_at row = j_created_at j" "j_status row = Queued" "j_version row = j_version j"
        "\<not> is_running d1 (j_id j)"
      then have "take_entry env now e j d = (d', It_claimed (as_running j h) h)"
        using de True by (simp add: take_entry_def)
      then show ?thesis using that(3) * de True fr by simp
    qed
  qed
qed

lemma shrinks_take_entry: "take_entry env now e j d = (d', it) \<Longrightarrow> shrinks d d'"
proof (rule take_entry_cases [of env now e j d])
  fix d'' h row
  assume t: "take_entry env now e j d = (d', it)"
    "take_entry env now e j d = (d'', It_claimed (as_running j h) h)"
    and oa: "open_attempt env (j_id j) now (fst (delete_entry (r_slot e) (r_job_id e) d)) = (d'', h)"
  have "ready d'' = ready (fst (delete_entry (r_slot e) (r_job_id e) d))"
    using open_attempt_frame(3) [of env "j_id j" now "fst (delete_entry (r_slot e) (r_job_id e) d)"]
    unfolding oa by simp
  then show "shrinks d d'" using t by (auto intro: shrinks_delete)
qed auto

lemma shrinks_park: "park_entry now e j d = (d', bl) \<Longrightarrow> shrinks d d'"
  by (auto simp: park_entry_def insert_blocked_def delete_entry_def Let_def
      intro: shrinks_delete shrinks_same split: option.splits if_splits)

text \<open>The branches of an examination, as a case rule for every later proof about it.\<close>

lemma examine_cases:
  assumes "examine env now e st = Inr (st', it)"
  obtains
    (stale) "st' = st\<lparr>cs_db := fst (delete_entry (r_slot e) (r_job_id e) (cs_db st))\<rparr>"
      "it = It_next"
      "\<And>j. job_under_entry e (cs_db st) = Some j \<Longrightarrow>
         j_status j \<noteq> Queued \<or> is_running (cs_db st) (r_job_id e)"
  | (failed) j err r ok d1 where "job_under_entry e (cs_db st) = Some j"
      "fail_queued now j err r (cs_db st) = Inr (d1, ok)"
      "st' = st\<lparr>cs_db := fst (delete_ready [r_job_id e] d1),
               cs_failed := cs_failed st @ [r_job_id e]\<rparr>" "it = It_next"
  | (parked) j d2 bl where "job_under_entry e (cs_db st) = Some j"
      "claim_decision now j (cs_db st) = Inr (cs_db st, D_pending)"
      "park_entry now e j (cs_db st) = (d2, bl)"
      "st' = st\<lparr>cs_db := d2, cs_blocked := cs_blocked st @ bl\<rparr>" "it = It_next"
  | (limited) j where "job_under_entry e (cs_db st) = Some j"
      "tag_limited env now j (cs_db st) = Inr True" "st' = st" "it = It_next"
  | (taken) j d2 where "job_under_entry e (cs_db st) = Some j" "j_status j = Queued"
      "claim_decision now j (cs_db st) = Inr (cs_db st, D_ok)"
      "tag_limited env now j (cs_db st) = Inr False"
      "take_entry env now e j (cs_db st) = (d2, it)" "st' = st\<lparr>cs_db := d2\<rparr>"
proof (cases "job_under_entry e (cs_db st)")
  case None
  then show ?thesis using assms stale by (simp add: examine_def)
next
  case (Some j)
  show ?thesis
  proof (cases "j_status j \<noteq> Queued \<or> is_running (cs_db st) (r_job_id e)")
    case True
    then show ?thesis using assms Some stale by (simp add: examine_def)
  next
    case False
    then obtain d1 dec where cd: "claim_decision now j (cs_db st) = Inr (d1, dec)"
      using assms Some by (auto simp: examine_def split: sum.splits)
    show ?thesis
      using claim_decision_cases [OF cd]
    proof (elim disjE conjE exE)
      assume "d1 = cs_db st" "dec = D_pending"
      then show ?thesis
        using assms Some False cd parked by (auto simp: examine_def split: prod.splits)
    next
      assume d1: "d1 = cs_db st" "dec = D_ok"
      then obtain b where "tag_limited env now j (cs_db st) = Inr b"
        using assms Some False cd
        by (cases "tag_limited env now j (cs_db st)") (simp_all add: examine_def)
      then have tl: "tag_limited env now j (cs_db st) = Inr b" .
      show ?thesis
      proof (cases b)
        case True
        show ?thesis
          by (rule limited [OF Some]) (use assms Some False cd d1 tl True in \<open>simp_all add: examine_def\<close>)
      next
        case nb: False
        obtain d2 it' where te: "take_entry env now e j (cs_db st) = (d2, it')" by fastforce
        show ?thesis
          by (rule taken [OF Some, of d2])
            (use assms Some False cd d1 tl nb te in \<open>simp_all add: examine_def\<close>)
      qed
    qed (use assms Some False cd failed in \<open>auto simp: examine_def\<close>)
  qed
qed

lemma examine_shrinks:
  assumes "examine env now e st = Inr (st', it)"
  shows "shrinks (cs_db st) (cs_db st') \<and> cs_cursor st' = cs_cursor st"
  using assms
proof (cases rule: examine_cases)
  case (failed j err r ok d1)
  have "shrinks (cs_db st) d1" using fail_queued_ready [OF failed(2)] by (rule shrinks_delete)
  then show ?thesis using failed shrinks_trans by auto
qed (auto dest: shrinks_park shrinks_take_entry)

lemma after_cursor_key: "after_cursor (Some (cursor_of e)) x \<longleftrightarrow> claim_key e < claim_key x"
  by (auto simp: after_cursor_def cursor_of_def claim_key_def less_prod_def less_eq_prod_def)

lemma after_cursor_trans:
  "after_cursor c e \<Longrightarrow> after_cursor (Some (cursor_of e)) x \<Longrightarrow> after_cursor c x"
  by (auto simp: after_cursor_def cursor_of_def split: option.splits)

lemma next_entry_Some:
  assumes "next_entry queues now c locked d = Some e"
  shows "e \<in> set (ready d) \<and> entry_due queues now e \<and> after_cursor c e \<and> \<not> locked e \<and>
    (\<forall>x\<in>set (ready d). entry_due queues now x \<and> after_cursor c x \<and> \<not> locked x \<longrightarrow>
       claim_key e \<le> claim_key x)"
  using first_by_Some [OF assms [unfolded next_entry_def]] by auto

lemma claim_iteration_decreases:
  assumes "claim_iteration env queues now st = Inr (st', It_next)"
  shows "claim_measure queues now st' < claim_measure queues now st"
proof -
  from assms obtain e where e: "next_entry queues now (cs_cursor st) (ce_locked env) (cs_db st) = Some e"
    and ex: "examine env now e (st\<lparr>cs_cursor := Some (cursor_of e)\<rparr>) = Inr (st', It_next)"
    by (auto simp: claim_iteration_def split: option.splits)
  note ne = next_entry_Some [OF e]
  from examine_shrinks [OF ex] obtain P where r: "ready (cs_db st') = filter P (ready (cs_db st))"
    and c: "cs_cursor st' = Some (cursor_of e)"
    by (auto simp: shrinks_def)
  have "claim_measure queues now st' \<le>
      rowcount (\<lambda>x. entry_due queues now x \<and> after_cursor (Some (cursor_of e)) x) (ready (cs_db st))"
    unfolding claim_measure_def r c by (rule rowcount_filter_le)
  also have "\<dots> < claim_measure queues now st"
    unfolding claim_measure_def
  proof (rule rowcount_less [where x = e])
    show "\<not> (entry_due queues now e \<and> after_cursor (Some (cursor_of e)) e)"
      by (simp add: after_cursor_key)
  qed (use ne in \<open>auto intro: after_cursor_trans\<close>)
  finally show ?thesis .
qed

function claim_from_ready ::
  "claim_env \<Rightarrow> string list \<Rightarrow> timestamp \<Rightarrow> claim_state \<Rightarrow>
     claim_state \<times> (job \<times> attempt_handle) option result" where
  "claim_from_ready env queues now st =
     (case claim_iteration env queues now st of
        Inl err \<Rightarrow> (st, Inl err)
      | Inr (st', It_none) \<Rightarrow> (st', Inr None)
      | Inr (st', It_claimed j h) \<Rightarrow> (st', Inr (Some (j, h)))
      | Inr (st', It_next) \<Rightarrow> claim_from_ready env queues now st')"
  by pat_completeness auto
termination
  by (relation "measure (\<lambda>(env, queues, now, st). claim_measure queues now st)")
    (simp_all add: claim_iteration_decreases)

declare claim_from_ready.simps [simp del]

section \<open>Claiming one particular job\<close>

definition claim_job_by_id ::
  "claim_env \<Rightarrow> job_id \<Rightarrow> timestamp \<Rightarrow> db \<Rightarrow> db \<times> (job \<times> attempt_handle) option" where
  "claim_job_by_id env jid now d =
     (let entries = filter (\<lambda>e. r_slot e \<in> set SLOTS \<and> r_job_id e = jid) (ready d);
          held = filter (\<lambda>e. \<not> ce_locked env e) entries
      in if ce_pg env \<and> held = [] \<and> entries \<noteq> [] then (d, None)
         else case live_by_id jid d of
                None \<Rightarrow> (d, None)
              | Some j \<Rightarrow>
                  if j_status j \<noteq> Queued \<or> is_running d jid then (d, None)
                  else (case start_attempt env j now
                               (delete_blocked [jid] (fst (delete_ready [jid] d))) of
                          (d', Some h, _) \<Rightarrow> (d', Some (as_running j h, h))
                        | (_, None, _) \<Rightarrow> (d, None)))"

definition atomic_claim_job ::
  "claim_env \<Rightarrow> job \<Rightarrow> timestamp \<Rightarrow> db \<Rightarrow> db \<times> (job \<times> attempt_handle) option" where
  "atomic_claim_job env j now d =
     (let (d1, n) = delete_ready [j_id j] d
      in if n < 1 then (d1, None)
         else case start_attempt env j now d1 of
                (d2, Some h, _) \<Rightarrow> (d2, Some (as_running j h, h))
              | (d2, None, Restore) \<Rightarrow> (d, None)
              | (d2, None, _) \<Rightarrow> (d2, None))"

definition get_claimable_jobs ::
  "claim_env \<Rightarrow> string list \<Rightarrow> timestamp \<Rightarrow> nat \<Rightarrow> job_id list \<Rightarrow> db \<Rightarrow> job list" where
  "get_claimable_jobs env queues now limit exclude d =
     take limit
       (map snd
         (sort_key (\<lambda>(e, j). claim_key e)
           [(e, j). e \<leftarrow> ready d, j \<leftarrow> live d,
              r_job_id e = j_id j \<and> r_created_at e = j_created_at j \<and> entry_due queues now e \<and>
              waiting_clause d j \<and> r_job_id e \<notin> set exclude \<and>
              \<not> (ce_pg env \<and> ce_locked env e)]))"

end
