(* ===== verification/Sq_Claim_Laws.thy ===== *)
theory Sq_Claim_Laws
  imports Sq_Claim
begin

text \<open>
  What claiming guarantees, whatever path a claim takes. The locale \<open>claim_path\<close> is the contract
  of a claim operation: it either opens exactly one attempt for a job that was queued and idle,
  leaving the job rows as they were, or it changes nothing about which jobs run. Its lemmas are
  proved once and hold for the three paths of the backend (the ready-queue scan, the claim by id
  and the claim of a given candidate), which interpret it; \<open>claim_paths\<close> combines two of them.
\<close>

section \<open>The contract\<close>

definition handle_open :: "attempt_handle \<Rightarrow> db \<Rightarrow> bool" where
  "handle_open h d \<longleftrightarrow>
     (\<exists>a\<in>set (attempts d). a_id a = h_id h \<and> a_token a = h_token h \<and> a_finished_at a = None)"

definition claims :: "db \<Rightarrow> attempt_handle \<Rightarrow> db \<Rightarrow> bool" where
  "claims d h d' \<longleftrightarrow>
     \<not> is_running d (h_job_id h) \<and>
     (\<exists>row\<in>set (live d). j_id row = h_job_id h \<and> j_status row = Queued) \<and>
     live d' = live d \<and> history d' = history d \<and> h_id h = next_attempt d \<and>
     (\<exists>a. attempts d' = attempts d @ [a] \<and> a_id a = h_id h \<and> a_token a = h_token h \<and>
          a_job_id a = h_job_id h \<and> a_finished_at a = None)"

definition same_running :: "db \<Rightarrow> db \<Rightarrow> bool" where
  "same_running d d' \<longleftrightarrow> (\<forall>k. is_running d' k = is_running d k)"

locale claim_path =
  fixes claim :: "'a \<Rightarrow> db \<Rightarrow> (db \<times> attempt_handle option) result"
  assumes claim_safe: "claim x d = Inr (d', r) \<Longrightarrow> safe d d'"
    and claim_opens: "wf_db d \<Longrightarrow> claim x d = Inr (d', Some h) \<Longrightarrow>
      \<exists>dm. safe d dm \<and> same_running d dm \<and> claims dm h d'"
    and claim_refused: "wf_db d \<Longrightarrow> claim x d = Inr (d', None) \<Longrightarrow> same_running d d'"
begin

lemma claimed_running:
  assumes "wf_db d" "claim x d = Inr (d', Some h)"
  shows "\<not> is_running d (h_job_id h)" "is_running d' (h_job_id h)" "handle_open h d'"
    "k \<noteq> h_job_id h \<Longrightarrow> is_running d' k = is_running d k"
proof -
  obtain dm a where dm: "same_running d dm" "\<not> is_running dm (h_job_id h)"
    "attempts d' = attempts dm @ [a]" "a_id a = h_id h" "a_token a = h_token h"
    "a_job_id a = h_job_id h" "a_finished_at a = None"
    using claim_opens [OF assms] by (auto simp: claims_def)
  show "\<not> is_running d (h_job_id h)" using dm(1,2) by (simp add: same_running_def)
  show "is_running d' (h_job_id h)" using dm by (auto simp: is_running_def open_for_def)
  show "handle_open h d'" using dm by (auto simp: handle_open_def)
  show "is_running d' k = is_running d k" if "k \<noteq> h_job_id h"
  proof -
    have "is_running d' k = is_running dm k"
      using that dm by (auto simp: is_running_def open_for_def)
    then show ?thesis using dm(1) by (simp add: same_running_def)
  qed
qed

lemma claim_keeps_running:
  assumes "wf_db d" "claim x d = Inr (d', r)" "is_running d k"
  shows "is_running d' k"
proof (cases r)
  case None
  then show ?thesis using assms claim_refused by (auto simp: same_running_def)
next
  case (Some h)
  then show ?thesis using assms claimed_running [of d x d' h] by (cases "k = h_job_id h") auto
qed

end

text \<open>Two claim paths on the same database: a running job is not handed out by the other one.\<close>

locale claim_paths = first: claim_path claim1 + second: claim_path claim2
  for claim1 :: "'a \<Rightarrow> db \<Rightarrow> (db \<times> attempt_handle option) result"
  and claim2 :: "'b \<Rightarrow> db \<Rightarrow> (db \<times> attempt_handle option) result"
begin

lemma no_double_claim:
  assumes "wf_db d" "claim1 x d = Inr (d1, Some h1)" "claim2 y d1 = Inr (d2, Some h2)"
  shows "h_job_id h2 \<noteq> h_job_id h1"
proof -
  have "wf_db d1" using first.claim_safe [OF assms(2)] assms(1) by (simp add: safe_def)
  from second.claimed_running(1) [OF this assms(3)] first.claimed_running(2) [OF assms(1,2)]
  show ?thesis by metis
qed

end

section \<open>Laws of the claim transactions\<close>

lemma same_running_refl [simp]: "same_running d d"
  by (simp add: same_running_def)

lemma same_running_trans: "same_running d e \<Longrightarrow> same_running e f \<Longrightarrow> same_running d f"
  by (simp add: same_running_def)

lemma open_attempt_safe':
  "\<not> is_running d jid \<Longrightarrow> open_attempt env jid now d = (d', h) \<Longrightarrow> safe d d'"
  by (rule open_attempt_safe) (auto simp: open_attempt_def Let_def)

lemma open_attempt_claims:
  assumes "\<not> is_running d jid" "open_attempt env jid now d = (d', h)"
    "row \<in> set (live d)" "j_id row = jid" "j_status row = Queued"
  shows "claims d h d'" "h_job_id h = jid"
  using assms by (auto simp: claims_def open_attempt_def Let_def new_attempt_def)

lemma start_attempt_law:
  assumes "start_attempt env j now d = (d', ho, oc)"
  shows "safe d d' \<and>
    (case ho of None \<Rightarrow> d' = d | Some h \<Rightarrow> claims d h d' \<and> h_job_id h = j_id j)"
proof (rule start_attempt_cases [of env j now d])
  fix row d'' h
  assume *: "start_attempt env j now d = (d'', Some h, Claimed)"
    "open_attempt env (j_id j) now d = (d'', h)" "row \<in> set (live d)" "j_id row = j_id j"
    "j_status row = Queued" "\<not> is_running d (j_id j)"
  then show ?thesis
    using assms open_attempt_safe' [OF *(6,2)] open_attempt_claims [OF *(6,2,3,4,5)] by simp
qed (use assms in auto)

lemma fail_queued_law:
  assumes "fail_queued now j e r d = Inr (d', ok)"
  shows "safe d d' \<and> (wf_db d \<longrightarrow> same_running d d')"
proof -
  let ?d1 = "delete_blocked [j_id j] (fst (delete_ready [j_id j] d))"
  have f: "finish_in now (j_id j) Failed
      (no_values\<lparr>v_error := Some e, v_termination_reason := Some r, v_finished_at := Some now\<rparr>)
      (no_fences\<lparr>fe_created_at := Some (j_created_at j), fe_status := Some [Queued],
                 fe_idle := True\<rparr>) ?d1 = Inr (d', ok)"
    using assms by (simp add: fail_queued_def Let_def)
  have s1: "safe d ?d1" by (rule safe_trans [OF delete_ready_safe delete_blocked_safe])
  have s2: "safe ?d1 d'" by (rule finish_in_safe [OF f]) simp
  moreover have "same_running d d'" if "wf_db d"
  proof -
    have w: "wf_db ?d1" using s1 that by (simp add: safe_def)
    show ?thesis
    proof (cases ok)
      case False
      then have "d' = ?d1" using finish_in_False [OF w] f by simp
      then show ?thesis by (simp add: same_running_def)
    next
      case True
      with f have f': "finish_in now (j_id j) Failed
          (no_values\<lparr>v_error := Some e, v_termination_reason := Some r, v_finished_at := Some now\<rparr>)
          (no_fences\<lparr>fe_created_at := Some (j_created_at j), fe_status := Some [Queued],
                     fe_idle := True\<rparr>) ?d1 = Inr (d', True)" by simp
      obtain x where
        "j_id x = j_id j" "\<not> is_running ?d1 (j_id j)"
        "is_running d' = is_running (moved_to_history now (j_id j) Failed
          (no_values\<lparr>v_error := Some e, v_termination_reason := Some r, v_finished_at := Some now\<rparr>)
          x ?d1)"
        by (rule finish_in_True [OF w f']) (auto simp: move_where_def)
      then show ?thesis by (auto simp: same_running_def move_where_def)
    qed
  qed
  ultimately show ?thesis using safe_trans [OF s1] by blast
qed

lemma claim_decision_law:
  assumes "claim_decision now j d = Inr (d', dec)"
  shows "safe d d' \<and> (wf_db d \<longrightarrow> same_running d d')"
  using claim_decision_cases [OF assms] fail_queued_law by auto

lemma take_entry_law:
  assumes "take_entry env now e j d = (d', it)"
  shows "safe d d' \<and>
    (case it of
       It_claimed j' h \<Rightarrow> j' = as_running j h \<and> h_job_id h = j_id j \<and>
         claims (fst (delete_entry (r_slot e) (r_job_id e) d)) h d'
     | It_next \<Rightarrow> same_running d d'
     | It_none \<Rightarrow> False)"
proof (rule take_entry_cases [of env now e j d])
  let ?d1 = "fst (delete_entry (r_slot e) (r_job_id e) d)"
  fix d'' h row
  assume *: "take_entry env now e j d = (d'', It_claimed (as_running j h) h)"
    "open_attempt env (j_id j) now ?d1 = (d'', h)" "row \<in> set (live d)" "j_id row = j_id j"
    "j_status row = Queued" "\<not> is_running d (j_id j)"
  have i: "\<not> is_running ?d1 (j_id j)" and r: "row \<in> set (live ?d1)" using * by simp_all
  have "safe d d''" by (rule safe_trans [OF delete_entry_safe open_attempt_safe' [OF i *(2)]])
  then show ?thesis using assms *(1) open_attempt_claims [OF i *(2) r *(4,5)] by auto
qed (use assms in \<open>auto simp: same_running_def\<close>)

lemma park_entry_law:
  assumes "park_entry now e j d = (d', bl)"
  shows "safe d d' \<and> same_running d d'"
proof (cases "insert_blocked now j")
  case None
  then show ?thesis using assms by (simp add: park_entry_def)
next
  case (Some ins)
  let ?d1 = "fst (delete_entry (r_slot e) (r_job_id e) d)"
  have "d' = ins ?d1 \<or> d' = ?d1"
    using assms Some
    by (cases "delete_entry (r_slot e) (r_job_id e) d") (simp add: park_entry_def split: if_splits)
  moreover have "safe d (ins ?d1)"
    by (rule safe_trans [OF delete_entry_safe insert_blocked_safe [OF Some]])
  moreover have "same_running d (ins ?d1)"
    using Some by (simp add: insert_blocked_def same_running_def split: if_splits) auto
  moreover have "same_running d ?d1" by (simp add: same_running_def)
  ultimately show ?thesis using delete_entry_safe by metis
qed

lemma examine_law:
  assumes "examine env now e st = Inr (st', it)"
  shows "safe (cs_db st) (cs_db st') \<and>
    (case it of
       It_claimed j' h \<Rightarrow> claims (fst (delete_entry (r_slot e) (r_job_id e) (cs_db st))) h (cs_db st')
     | It_next \<Rightarrow> wf_db (cs_db st) \<longrightarrow> same_running (cs_db st) (cs_db st')
     | It_none \<Rightarrow> False)"
  using assms
proof (cases rule: examine_cases)
  case (failed j err r ok d1)
  then show ?thesis
    using fail_queued_law [OF failed(2)] safe_trans [OF _ delete_ready_safe]
    by (auto simp: same_running_def)
next
  case (parked j d2 bl)
  then show ?thesis using park_entry_law [OF parked(3)] by auto
next
  case (taken j d2)
  then show ?thesis using take_entry_law [OF taken(5)] by (cases it) auto
qed (auto simp: same_running_def)

lemma claim_iteration_law:
  assumes "claim_iteration env queues now st = Inr (st', it)"
  shows "safe (cs_db st) (cs_db st') \<and>
    (case it of
       It_claimed j' h \<Rightarrow> \<exists>dm. safe (cs_db st) dm \<and> same_running (cs_db st) dm \<and> claims dm h (cs_db st')
     | It_next \<Rightarrow> wf_db (cs_db st) \<longrightarrow> same_running (cs_db st) (cs_db st')
     | It_none \<Rightarrow> st' = st)"
proof (cases "next_entry queues now (cs_cursor st) (ce_locked env) (cs_db st)")
  case None
  then show ?thesis using assms by (auto simp: claim_iteration_def)
next
  case (Some e)
  let ?dm = "fst (delete_entry (r_slot e) (r_job_id e) (cs_db st))"
  have "same_running (cs_db st) ?dm" by (simp add: same_running_def)
  moreover have ex: "examine env now e (st\<lparr>cs_cursor := Some (cursor_of e)\<rparr>) = Inr (st', it)"
    using assms Some by (simp add: claim_iteration_def)
  ultimately show ?thesis
    using examine_law [OF ex] delete_entry_safe by (cases it) auto
qed

lemma claim_from_ready_law:
  assumes "claim_from_ready env queues now st = (st', r)"
  shows "safe (cs_db st) (cs_db st') \<and>
    (wf_db (cs_db st) \<longrightarrow>
      (case r of
         Inr (Some (j, h)) \<Rightarrow>
           \<exists>dm. safe (cs_db st) dm \<and> same_running (cs_db st) dm \<and> claims dm h (cs_db st')
       | _ \<Rightarrow> same_running (cs_db st) (cs_db st')))"
  using assms
proof (induction env queues now st rule: claim_from_ready.induct)
  case (1 env queues now st)
  note step = "1.prems" [unfolded claim_from_ready.simps [of env queues now st]]
  show ?case
  proof (cases "claim_iteration env queues now st")
    case (Inl err)
    then show ?thesis using step by auto
  next
    case (Inr p)
    obtain s1 it where p: "p = (s1, it)" by (cases p)
    note law = claim_iteration_law [OF Inr [unfolded p]]
    show ?thesis
    proof (cases it)
      case It_next
      have rest: "claim_from_ready env queues now s1 = (st', r)"
        using step Inr p It_next by simp
      note IH = "1.IH" [OF Inr p [symmetric] It_next rest]
      have s: "safe (cs_db st) (cs_db s1)"
        "wf_db (cs_db st) \<Longrightarrow> same_running (cs_db st) (cs_db s1)"
        using law It_next by auto
      have "safe (cs_db st) (cs_db st')" using s(1) IH safe_trans by blast
      moreover have "wf_db (cs_db s1)" if "wf_db (cs_db st)" using s(1) that by (simp add: safe_def)
      ultimately show ?thesis
        using IH s
        by (auto split: sum.splits option.splits intro: same_running_trans safe_trans)
    qed (use step Inr p law in auto)
  qed
qed

lemma claim_job_by_id_law:
  assumes "claim_job_by_id env jid now d = (d', r)"
  shows "safe d d' \<and>
    (case r of
       None \<Rightarrow> d' = d
     | Some (j, h) \<Rightarrow> h_job_id h = jid \<and>
         (\<exists>dm. safe d dm \<and> same_running d dm \<and> claims dm h d'))"
proof -
  let ?dm = "delete_blocked [jid] (fst (delete_ready [jid] d))"
  have s: "safe d ?dm" by (rule safe_trans [OF delete_ready_safe delete_blocked_safe])
  have r: "same_running d ?dm" by (simp add: same_running_def)
  show ?thesis
  proof (cases r)
    case None
    then show ?thesis
      using assms by (auto simp: claim_job_by_id_def Let_def split: if_splits option.splits prod.splits)
  next
    case (Some jh)
    then obtain j h oc where j: "live_by_id jid d = Some j" "jh = (as_running j h, h)"
      and sa: "start_attempt env j now ?dm = (d', Some h, oc)"
      using assms
      by (auto simp: claim_job_by_id_def Let_def split: if_splits option.splits prod.splits)
    have "j_id j = jid" using j(1) find_mem unfolding live_by_id_def by fast
    then show ?thesis
      using start_attempt_law [OF sa] Some j(2) s r safe_trans by auto
  qed
qed

lemma atomic_claim_job_law:
  assumes "atomic_claim_job env j now d = (d', r)"
  shows "safe d d' \<and>
    (case r of
       None \<Rightarrow> same_running d d'
     | Some (j', h) \<Rightarrow> h_job_id h = j_id j \<and>
         (\<exists>dm. safe d dm \<and> same_running d dm \<and> claims dm h d'))"
proof -
  let ?dm = "fst (delete_ready [j_id j] d)"
  have s: "safe d ?dm" by (rule delete_ready_safe)
  have rn: "same_running d ?dm" by (simp add: same_running_def)
  obtain d2 ho oc where sa: "start_attempt env j now ?dm = (d2, ho, oc)" by (metis prod_cases3)
  note law = start_attempt_law [OF sa]
  have "(d', r) = (?dm, None) \<or> (d', r) = (d, None) \<or> (d', r) = (d2, None) \<and> ho = None \<or>
      (\<exists>h. ho = Some h \<and> (d', r) = (d2, Some (as_running j h, h)))"
    using assms sa
    by (auto simp: atomic_claim_job_def Let_def split: prod.splits if_splits option.splits
        claim_outcome.splits)
  then show ?thesis using law s rn safe_trans by (auto split: option.splits)
qed

section \<open>Interpretations\<close>

definition scan_claim ::
  "claim_env \<times> string list \<times> timestamp \<Rightarrow> db \<Rightarrow> (db \<times> attempt_handle option) result" where
  "scan_claim x d =
     (case x of (env, queues, now) \<Rightarrow>
        (case claim_from_ready env queues now
                \<lparr>cs_db = d, cs_cursor = None, cs_blocked = [], cs_failed = []\<rparr> of
           (st, Inl e) \<Rightarrow> Inl e
         | (st, Inr r) \<Rightarrow> Inr (cs_db st, map_option snd r)))"

definition id_claim ::
  "claim_env \<times> job_id \<times> timestamp \<Rightarrow> db \<Rightarrow> (db \<times> attempt_handle option) result" where
  "id_claim x d = (case x of (env, jid, now) \<Rightarrow>
     Inr (apsnd (map_option snd) (claim_job_by_id env jid now d)))"

definition candidate_claim ::
  "claim_env \<times> job \<times> timestamp \<Rightarrow> db \<Rightarrow> (db \<times> attempt_handle option) result" where
  "candidate_claim x d = (case x of (env, j, now) \<Rightarrow>
     Inr (apsnd (map_option snd) (atomic_claim_job env j now d)))"

definition claim_result :: "db \<Rightarrow> attempt_handle option \<Rightarrow> db \<Rightarrow> bool" where
  "claim_result d r d' =
     (case r of
        None \<Rightarrow> same_running d d'
      | Some h \<Rightarrow> \<exists>dm. safe d dm \<and> same_running d dm \<and> claims dm h d')"

lemma scan_claim_law:
  assumes "scan_claim x d = Inr (d', r)"
  shows "safe d d' \<and> (wf_db d \<longrightarrow> claim_result d r d')"
proof -
  obtain env queues now where x: "x = (env, queues, now)" by (cases x)
  obtain st r0 where c: "claim_from_ready env queues now
      \<lparr>cs_db = d, cs_cursor = None, cs_blocked = [], cs_failed = []\<rparr> = (st, Inr r0)"
    "d' = cs_db st" "r = map_option snd r0"
    using assms by (auto simp: scan_claim_def x split: sum.splits prod.splits)
  show ?thesis
    using claim_from_ready_law [OF c(1)] c(2,3) by (cases r0) (auto simp: claim_result_def)
qed

lemma id_claim_law:
  assumes "id_claim x d = Inr (d', r)"
  shows "safe d d' \<and> (wf_db d \<longrightarrow> claim_result d r d')"
proof -
  obtain env jid now where x: "x = (env, jid, now)" by (cases x)
  obtain r0 where c: "claim_job_by_id env jid now d = (d', r0)" "r = map_option snd r0"
    using assms by (cases "claim_job_by_id env jid now d") (auto simp: id_claim_def x)
  show ?thesis
    using claim_job_by_id_law [OF c(1)] c(2) by (cases r0) (auto simp: claim_result_def)
qed

lemma candidate_claim_law:
  assumes "candidate_claim x d = Inr (d', r)"
  shows "safe d d' \<and> (wf_db d \<longrightarrow> claim_result d r d')"
proof -
  obtain env j now where x: "x = (env, j, now)" by (cases x)
  obtain r0 where c: "atomic_claim_job env j now d = (d', r0)" "r = map_option snd r0"
    using assms by (cases "atomic_claim_job env j now d") (auto simp: candidate_claim_def x)
  show ?thesis
    using atomic_claim_job_law [OF c(1)] c(2) by (cases r0) (auto simp: claim_result_def)
qed

interpretation scan: claim_path scan_claim
  by unfold_locales (auto dest!: scan_claim_law simp: claim_result_def)

interpretation by_id: claim_path id_claim
  by unfold_locales (auto dest!: id_claim_law simp: claim_result_def)

interpretation candidate: claim_path candidate_claim
  by unfold_locales (auto dest!: candidate_claim_law simp: claim_result_def)

interpretation scan_scan: claim_paths scan_claim scan_claim ..
interpretation scan_by_id: claim_paths scan_claim id_claim ..
interpretation by_id_scan: claim_paths id_claim scan_claim ..
interpretation scan_candidate: claim_paths scan_claim candidate_claim ..

section \<open>The scan examines every due entry\<close>

text \<open>What makes the job under an entry claimable at the moment the scan looks at it.\<close>

definition runnable :: "claim_env \<Rightarrow> timestamp \<Rightarrow> db \<Rightarrow> ready_entry \<Rightarrow> bool" where
  "runnable env now d e \<longleftrightarrow>
     (\<exists>j. job_under_entry e d = Some j \<and> j_status j = Queued \<and> \<not> is_running d (r_job_id e) \<and>
          claim_decision now j d = Inr (d, D_ok) \<and> tag_limited env now j d = Inr False \<and>
          \<not> (ce_pg env \<and> ce_busy env (r_job_id e)))"

lemma job_under_entry_id:
  "job_under_entry e d = Some j \<Longrightarrow> j \<in> set (live d) \<and> j_id j = r_job_id e"
  by (auto simp: job_under_entry_def job_of_entry_def live_by_id_def dest!: find_mem
      split: option.splits)

lemma runnable_taken:
  assumes w: "wf_db d" and e: "e \<in> set (ready d)" and run: "runnable env now d e" and st: "cs_db st = d"
  shows "\<exists>st' j h. examine env now e st = Inr (st', It_claimed (as_running j h) h) \<and>
    j_id j = r_job_id e \<and> j \<in> set (live d)"
proof -
  obtain j where j: "job_under_entry e d = Some j" "j_status j = Queued"
    "\<not> is_running d (r_job_id e)" "claim_decision now j d = Inr (d, D_ok)"
    "tag_limited env now j d = Inr False" "\<not> (ce_pg env \<and> ce_busy env (r_job_id e))"
    using run by (auto simp: runnable_def)
  note id = job_under_entry_id [OF j(1)]
  let ?d1 = "fst (delete_entry (r_slot e) (r_job_id e) d)"
  have "rowcount (\<lambda>x. r_slot x = r_slot e \<and> r_job_id x = r_job_id e) (ready d) =
      rowcount (\<lambda>x. ready_key x = ready_key e) (ready d)"
    by (rule rowcount_cong) (simp add: ready_key_def)
  also have "\<dots> = 1"
  proof -
    have "rowcount (\<lambda>x. ready_key x = ready_key e) (ready d) \<le> 1"
      using w by (intro rowcount_distinct_key) (simp add: wf_db_def wf_ready_def)
    moreover have "0 < rowcount (\<lambda>x. ready_key x = ready_key e) (ready d)"
      using e by (auto simp: rowcount_pos)
    ultimately show ?thesis by simp
  qed
  finally have n: "snd (delete_entry (r_slot e) (r_job_id e) d) = 1"
    by (simp add: delete_entry_def Let_def)
  let ?P = "\<lambda>r. j_id r = j_id j \<and> j_created_at r = j_created_at j \<and>
        \<not> (ce_pg env \<and> ce_busy env (j_id r))"
  have "\<exists>r\<in>set (live d). ?P r" using id j(6) by auto
  then obtain y where y: "List.find ?P (live d) = Some y" unfolding find_isSome [symmetric] ..
  have "y = j" using find_mem [OF y] wf_live_unique [OF w, of y j] id by simp
  with y have f: "List.find ?P (live d) = Some j" by simp
  obtain d2 h where oa: "open_attempt env (j_id j) now ?d1 = (d2, h)" by fastforce
  have "start_attempt env j now ?d1 = (d2, Some h, Claimed)"
    using f j id oa by (simp add: start_attempt_def claim_verdict_def)
  then have "take_entry env now e j d = (d2, It_claimed (as_running j h) h)"
    using n by (cases "delete_entry (r_slot e) (r_job_id e) d") (simp add: take_entry_def)
  then have "examine env now e st = Inr (st\<lparr>cs_db := d2\<rparr>, It_claimed (as_running j h) h)"
    using j st by (simp add: examine_def)
  then show ?thesis using id by blast
qed

lemma examine_keeps_other:
  assumes "examine env now e st = Inr (st', It_next)" "x \<in> set (ready (cs_db st))"
    "r_job_id x \<noteq> r_job_id e"
  shows "x \<in> set (ready (cs_db st'))"
  using assms(1)
proof (cases rule: examine_cases)
  case stale
  then show ?thesis using assms by simp
next
  case (failed j err r ok d1)
  then show ?thesis
    using assms fail_queued_ready [OF failed(2)] job_under_entry_id [OF failed(1)] by simp
next
  case (parked j d2 bl)
  then show ?thesis using assms
    by (auto simp: park_entry_def insert_blocked_def delete_entry_def Let_def split: option.splits if_splits)
next
  case (limited j)
  then show ?thesis using assms by simp
next
  case (taken j d2)
  show ?thesis
    by (rule take_entry_cases [of env now e j "cs_db st"]) (use taken assms in auto)
qed

text \<open>
  \<open>passes\<close>: one pass of the loop ran and moved on. Whenever a scan ends without a job, every due
  entry was the one fetched by some pass of it, and the job under it was not claimable then.
\<close>

definition passes :: "claim_env \<Rightarrow> string list \<Rightarrow> timestamp \<Rightarrow> claim_state \<Rightarrow> claim_state \<Rightarrow> bool" where
  "passes env queues now st st' \<longleftrightarrow> claim_iteration env queues now st = Inr (st', It_next)"

lemma scan_examines:
  assumes "claim_from_ready env queues now st = (st', Inr None)" "wf_db (cs_db st)"
    "x \<in> set (ready (cs_db st))" "entry_due queues now x" "\<not> ce_locked env x"
    "after_cursor (cs_cursor st) x"
  shows "\<exists>st1 e. (passes env queues now)\<^sup>*\<^sup>* st st1 \<and>
    next_entry queues now (cs_cursor st1) (ce_locked env) (cs_db st1) = Some e \<and>
    r_job_id e = r_job_id x \<and> \<not> runnable env now (cs_db st1) e"
  using assms
proof (induction env queues now st rule: claim_from_ready.induct)
  case (1 env queues now st)
  let ?d = "cs_db st"
  have "next_entry queues now (cs_cursor st) (ce_locked env) ?d \<noteq> None"
    using "1.prems" by (auto simp: next_entry_def filter_empty_conv)
  then obtain e where e: "next_entry queues now (cs_cursor st) (ce_locked env) ?d = Some e" by auto
  note ne = next_entry_Some [OF e]
  obtain s1 it where ci: "claim_iteration env queues now st = Inr (s1, it)"
    using "1.prems"(1) by (subst (asm) claim_from_ready.simps) (auto split: sum.splits)
  have ex: "examine env now e (st\<lparr>cs_cursor := Some (cursor_of e)\<rparr>) = Inr (s1, it)"
    using ci e by (simp add: claim_iteration_def)
  have it: "it = It_next"
    using "1.prems"(1) ci examine_law [OF ex]
    by (subst (asm) claim_from_ready.simps) (cases it; auto)
  have nr: "\<not> runnable env now ?d e"
    using runnable_taken [of ?d e env now "st\<lparr>cs_cursor := Some (cursor_of e)\<rparr>"] "1.prems"(2) ne
      ex it by fastforce
  show ?case
  proof (cases "r_job_id x = r_job_id e")
    case True
    then show ?thesis using nr e by (metis rtranclp.rtrancl_refl)
  next
    case False
    have kx: "x \<in> set (ready (cs_db s1))"
      using examine_keeps_other [OF ex [unfolded it]] "1.prems"(3) False by simp
    have "claim_key e \<le> claim_key x" using ne "1.prems" by blast
    moreover have "claim_key e \<noteq> claim_key x" using False by (simp add: claim_key_def)
    ultimately have "claim_key e < claim_key x" by simp
    then have ac: "after_cursor (cs_cursor s1) x"
      using examine_shrinks [OF ex] by (simp add: after_cursor_key)
    have sf: "safe ?d (cs_db s1)" using examine_law [OF ex] by simp
    then have w1: "wf_db (cs_db s1)" using "1.prems"(2) by (simp add: safe_def)
    have pass: "passes env queues now st s1" using ci it by (simp add: passes_def)
    have rest: "claim_from_ready env queues now s1 = (st', Inr None)"
      using "1.prems"(1) ci it by (subst (asm) claim_from_ready.simps) simp
    from "1.IH" [OF ci _ it rest w1 kx "1.prems"(4,5) ac]
    show ?thesis using converse_rtranclp_into_rtranclp [of "passes env queues now", OF pass] by blast
  qed
qed

end
