(* ===== verification/Sq_Cover.thy ===== *)
theory Sq_Cover
  imports Sq_Claim_Laws
begin

text \<open>
  The coverage invariant of \<^verbatim>\<open>core/ready.py\<close>: a queued job that is not running has an entry in the
  ready or in the blocked table, so that some claim or some recheck will look at it again.
  \<open>covered_but K\<close> is the invariant with the jobs of \<open>K\<close> excepted, which is what holds between the
  statements of a transaction.
\<close>

definition has_entry :: "db \<Rightarrow> job_id \<Rightarrow> bool" where
  "has_entry d k \<longleftrightarrow> (\<exists>e\<in>set (ready d). r_job_id e = k) \<or> (\<exists>b\<in>set (blocked d). b_job_id b = k)"

definition covered_but :: "job_id set \<Rightarrow> db \<Rightarrow> bool" where
  "covered_but K d \<longleftrightarrow>
     (\<forall>j\<in>set (live d). waiting_clause d j \<and> j_id j \<notin> K \<longrightarrow> has_entry d (j_id j))"

definition covered :: "db \<Rightarrow> bool" where
  "covered d \<longleftrightarrow> covered_but {} d"

section \<open>Statements\<close>

lemma covered_but_mono: "covered_but K d \<Longrightarrow> K \<subseteq> K' \<Longrightarrow> covered_but K' d"
  by (auto simp: covered_but_def)

lemma covered_but_drop:
  assumes "covered_but (insert k K) d"
    and "is_running d k \<or> has_entry d k \<or> (\<forall>j\<in>set (live d). j_id j = k \<longrightarrow> j_status j \<noteq> Queued)"
  shows "covered_but K d"
  using assms by (auto simp: covered_but_def waiting_clause_def)

lemma covered_delete_entry:
  "covered_but K d \<Longrightarrow> covered_but (insert k K) (fst (delete_entry s k d))"
  by (force simp: covered_but_def waiting_clause_def has_entry_def)

lemma covered_delete_ready:
  "covered_but K d \<Longrightarrow> covered_but (insert k K) (fst (delete_ready [k] d))"
  by (force simp: covered_but_def waiting_clause_def has_entry_def)

lemma covered_delete_blocked:
  "covered_but K d \<Longrightarrow> covered_but (insert k K) (delete_blocked [k] d)"
  by (force simp: covered_but_def waiting_clause_def has_entry_def)

lemma covered_open_attempt:
  assumes "covered_but (insert k K) d" "open_attempt env k now d = (d', h)"
  shows "covered_but K d'"
proof -
  have e: "live d' = live d" "ready d' = ready d" "blocked d' = blocked d"
    using open_attempt_frame [of env k now d] by (simp_all add: assms(2))
  have r: "is_running d' j \<longleftrightarrow> is_running d j \<or> j = k" for j
    using assms(2) by (auto simp: open_attempt_def Let_def is_running_def open_for_def new_attempt_def)
  show ?thesis
    using assms(1) by (auto simp: covered_but_def waiting_clause_def has_entry_def e r)
qed

lemma covered_write_ready:
  assumes "covered_but (insert (j_id j) K) d"
  shows "covered_but K (write_ready slot False [j] d)"
proof (cases "is_running d (j_id j)")
  case True
  then have "write_ready slot False [j] d = d" by (simp add: write_ready_def)
  then show ?thesis using covered_but_drop [OF assms] True by simp
next
  case False
  let ?d = "write_ready slot False [j] d"
  have r: "ready ?d = insert_ready [ready_values slot j] (ready d)"
    using False by (simp add: write_ready_def)
  have "ready_key (ready_values slot j) \<in> ready_key ` set (ready ?d)"
    unfolding r by (rule insert_ready_key) simp
  then have "has_entry ?d (j_id j)"
    by (auto simp: has_entry_def ready_key_def ready_values_def)
  moreover have "covered_but (insert (j_id j) K) ?d"
  proof -
    have "e \<in> set (ready d) \<Longrightarrow> e \<in> set (ready ?d)" for e
      unfolding r by (rule insert_ready_keeps)
    then show ?thesis
      using assms by (fastforce simp: covered_but_def waiting_clause_def has_entry_def)
  qed
  ultimately show ?thesis using covered_but_drop by blast
qed

lemma covered_close_job:
  "covered_but K d \<Longrightarrow> covered_but (insert k K) (fst (close_open (\<lambda>a. a_job_id a = k) oc now d))"
  by (force simp: covered_but_def waiting_clause_def has_entry_def)

lemma covered_moved:
  assumes "covered_but (insert jid K) d"
  shows "covered_but K (moved_to_history now jid st v j d)"
  using assms by (auto simp: covered_but_def waiting_clause_def has_entry_def)

lemma covered_insert_blocked:
  assumes "insert_blocked now j = Some ins" "covered_but (insert (j_id j) K) d"
  shows "covered_but K (ins d)"
proof -
  have ins: "ins d = d\<lparr>blocked := insert_blocked_rows (blocked_rows_of now j) (blocked d)\<rparr>"
    and ne: "blocked_rows_of now j \<noteq> []"
    using assms(1) by (auto simp: insert_blocked_def split: if_splits)
  have keep: "b \<in> set t \<Longrightarrow> b \<in> set (insert_blocked_rows bs t)" for b bs t
    by (induction bs t rule: insert_blocked_rows.induct) auto
  have key: "b \<in> set bs \<Longrightarrow> b_job_id b \<in> b_job_id ` set (insert_blocked_rows bs t)" for b bs t
  proof (induction bs t rule: insert_blocked_rows.induct)
    case (2 x bs t)
    have "b_job_id x \<in> b_job_id ` set (insert_blocked_rows bs t')"
      if "b_job_id x \<in> b_job_id ` set t'" for t'
      using that keep [of _ t' bs] by (metis (no_types, lifting) imageE imageI)
    then show ?case using 2 by (auto simp: blocked_key_def)
  qed simp
  obtain b where b: "b \<in> set (blocked_rows_of now j)" using ne by (cases "blocked_rows_of now j") auto
  then have "b_job_id b = j_id j" by (auto simp: blocked_rows_of_def)
  then have "has_entry (ins d) (j_id j)"
    using key [OF b, of "blocked d"] by (auto simp: has_entry_def ins)
  moreover have "covered_but (insert (j_id j) K) (ins d)"
    using assms(2) keep by (fastforce simp: covered_but_def waiting_clause_def has_entry_def ins)
  ultimately show ?thesis using covered_but_drop by blast
qed

section \<open>Transactions of a claim\<close>

lemma covered_finish:
  assumes w: "wf_db d" and f: "finish_in now jid st v fe d = Inr (d', ok)"
    and c: "covered_but (insert jid K) d"
    and miss: "\<And>j. \<not> ok \<Longrightarrow> j \<in> set (live d) \<Longrightarrow> j_id j = jid \<Longrightarrow> \<not> waiting_clause d j"
  shows "covered_but K d'"
proof (cases ok)
  case True
  with f have f': "finish_in now jid st v fe d = Inr (d', True)" by simp
  show ?thesis
    by (rule finish_in_True [OF w f']) (use c covered_moved in auto)
next
  case False
  then have "d' = d" using finish_in_False [OF w] f by simp
  then show ?thesis using c miss False by (auto simp: covered_but_def)
qed

lemma covered_fail_queued:
  assumes w: "wf_db d" and f: "fail_queued now j e r d = Inr (d', ok)" and c: "covered_but K d"
    and j: "j \<in> set (live d)"
  shows "covered_but K d'"
proof -
  let ?d1 = "delete_blocked [j_id j] (fst (delete_ready [j_id j] d))"
  let ?fe = "no_fences\<lparr>fe_created_at := Some (j_created_at j), fe_status := Some [Queued],
                 fe_idle := True\<rparr>"
  have c1: "covered_but (insert (j_id j) K) ?d1"
    using covered_delete_blocked [OF covered_delete_ready [OF c, of "j_id j"], of "j_id j"]
    by (simp add: insert_absorb)
  have w1: "wf_db ?d1"
    using w safe_trans [OF delete_ready_safe delete_blocked_safe] by (simp add: safe_def)
  have lb: "live_by_id (j_id j) ?d1 = Some j"
    using live_by_id_Some [OF w, of "j_id j" j] j by (simp add: live_by_id_def)
  show ?thesis
  proof (rule covered_finish [OF w1 _ c1])
    show "finish_in now (j_id j) Failed (no_values\<lparr>v_error := Some e,
        v_termination_reason := Some r, v_finished_at := Some now\<rparr>) ?fe ?d1 = Inr (d', ok)"
      using f by (simp add: fail_queued_def Let_def)
    then have "\<not> ok \<Longrightarrow> \<not> move_where ?d1 (j_id j) ?fe j"
      using lb by (auto simp: finish_in_cases [OF w1] split: if_splits)
    then show "\<not> ok \<Longrightarrow> x \<in> set (live ?d1) \<Longrightarrow> j_id x = j_id j \<Longrightarrow> \<not> waiting_clause ?d1 x" for x
      using wf_live_unique [OF w, of x j] j
      by (auto simp: move_where_def waiting_clause_def no_fences_def)
  qed
qed

lemma covered_park:
  assumes "park_entry now e j d = (d', bl)" "covered_but K d" "j_id j = r_job_id e"
    "rowcount (\<lambda>x. r_slot x = r_slot e \<and> r_job_id x = r_job_id e) (ready d) = 1"
  shows "covered_but K d'"
proof (cases "insert_blocked now j")
  case None
  then show ?thesis using assms by (simp add: park_entry_def)
next
  case (Some ins)
  have "d' = ins (fst (delete_entry (r_slot e) (r_job_id e) d))"
    using assms(1,4) Some by (auto simp: park_entry_def delete_entry_def Let_def)
  moreover have "covered_but (insert (j_id j) K) (fst (delete_entry (r_slot e) (r_job_id e) d))"
    using covered_delete_entry [OF assms(2)] assms(3) by simp
  ultimately show ?thesis using covered_insert_blocked [OF Some] by simp
qed

lemma entry_count:
  assumes "wf_db d" "e \<in> set (ready d)"
  shows "rowcount (\<lambda>x. r_slot x = r_slot e \<and> r_job_id x = r_job_id e) (ready d) = 1"
proof -
  have "rowcount (\<lambda>x. r_slot x = r_slot e \<and> r_job_id x = r_job_id e) (ready d) =
      rowcount (\<lambda>x. ready_key x = ready_key e) (ready d)"
    by (rule rowcount_cong) (simp add: ready_key_def)
  moreover have "rowcount (\<lambda>x. ready_key x = ready_key e) (ready d) \<le> 1"
    using assms by (intro rowcount_distinct_key) (simp add: wf_db_def wf_ready_def)
  moreover have "0 < rowcount (\<lambda>x. ready_key x = ready_key e) (ready d)"
    using assms by (auto simp: rowcount_pos)
  ultimately show ?thesis by simp
qed

text \<open>A claim that gives the entry up as stale leaves no waiting job without an entry.\<close>

lemma start_attempt_keep:
  assumes w: "wf_db d" and s: "start_attempt env j now d = (d', None, Keep)" and j: "x \<in> set (live d)"
    "j_id x = j_id j"
  shows "\<not> waiting_clause d x"
proof -
  let ?P = "\<lambda>r. j_id r = j_id j \<and> j_created_at r = j_created_at j \<and>
      \<not> (ce_pg env \<and> ce_busy env (j_id r))"
  obtain row where row: "List.find ?P (live d) = Some row"
    using s by (auto simp: start_attempt_def split: option.splits)
  then have "row = x" using find_mem [OF row] wf_live_unique [OF w, of row x] j by simp
  moreover have "j_status row \<noteq> Queued \<or> is_running d (j_id j)"
    using s row by (auto simp: start_attempt_def Let_def split: if_splits prod.splits)
  ultimately show ?thesis using j by (auto simp: waiting_clause_def)
qed

lemma covered_start:
  assumes w: "wf_db d" and c: "covered_but (insert (j_id j) K) d"
    and s: "start_attempt env j now d = (d', ho, oc)" and oc: "oc \<noteq> Restore"
  shows "covered_but K d'"
proof (rule start_attempt_cases [of env j now d])
  assume k: "start_attempt env j now d = (d, None, Keep)"
  then have "\<forall>x\<in>set (live d). j_id x = j_id j \<longrightarrow> \<not> waiting_clause d x"
    using start_attempt_keep [OF w] by blast
  then show ?thesis using k s c by (auto simp: covered_but_def)
next
  fix d'' h
  assume "start_attempt env j now d = (d'', Some h, Claimed)"
    "open_attempt env (j_id j) now d = (d'', h)"
  then show ?thesis using s covered_open_attempt [OF c] by auto
qed (use s oc in auto)

lemma covered_take:
  assumes w: "wf_db d" and c: "covered_but K d" and e: "e \<in> set (ready d)" "j_id j = r_job_id e"
    and t: "take_entry env now e j d = (d', it)"
  shows "covered_but K d'"
proof -
  let ?d1 = "fst (delete_entry (r_slot e) (r_job_id e) d)"
  have n: "snd (delete_entry (r_slot e) (r_job_id e) d) = 1"
    using entry_count [OF w e(1)] by (simp add: delete_entry_def Let_def)
  have c1: "covered_but (insert (j_id j) K) ?d1" using covered_delete_entry [OF c] e by simp
  have w1: "wf_db ?d1" using w delete_entry_safe by (simp add: safe_def)
  obtain d2 ho oc where sa: "start_attempt env j now ?d1 = (d2, ho, oc)" by (metis prod_cases3)
  obtain d1 where de: "delete_entry (r_slot e) (r_job_id e) d = (d1, 1)"
    using n by (metis prod.collapse)
  have oc: "oc = Claimed" if "ho = Some h" for h
    by (rule start_attempt_cases [of env j now ?d1]) (use sa that in auto)
  have "d' = d2 \<and> oc \<noteq> Restore \<or> d' = d"
    using t sa oc by (cases ho; cases oc) (auto simp: take_entry_def de)
  then show ?thesis using covered_start [OF w1 c1 sa] c by blast
qed

lemma covered_examine:
  assumes w: "wf_db (cs_db st)" and c: "covered (cs_db st)" and e: "e \<in> set (ready (cs_db st))"
    and ex: "examine env now e st = Inr (st', it)"
  shows "covered (cs_db st')"
  using ex
proof (cases rule: examine_cases)
  case stale
  have "\<forall>j\<in>set (live (cs_db st)). j_id j = r_job_id e \<longrightarrow> \<not> waiting_clause (cs_db st) j"
  proof (intro ballI impI)
    fix j assume j: "j \<in> set (live (cs_db st))" "j_id j = r_job_id e"
    have "job_under_entry e (cs_db st) = Some j"
    proof (cases "job_of_entry e (cs_db st)")
      case None
      then show ?thesis using j live_by_id_Some [OF w] by (simp add: job_under_entry_def)
    next
      case (Some y)
      then have "y \<in> set (live (cs_db st)) \<and> j_id y = r_job_id e"
        unfolding job_of_entry_def by (auto dest: find_mem)
      then have "y = j" using wf_live_unique [OF w, of y j] j by simp
      then show ?thesis using Some by (simp add: job_under_entry_def)
    qed
    then show "\<not> waiting_clause (cs_db st) j"
      using stale(3) j by (auto simp: waiting_clause_def)
  qed
  then show ?thesis
    using covered_delete_entry [of "{}" "cs_db st" "r_job_id e" "r_slot e"] c stale(1)
    by (auto simp: covered_def covered_but_def waiting_clause_def)
next
  case (failed j err r ok d1)
  note jid = job_under_entry_id [OF failed(1)]
  have d1: "covered_but {} d1" "wf_db d1"
    using covered_fail_queued [OF w failed(2)] c jid fail_queued_law [OF failed(2)] w
    by (auto simp: covered_def safe_def)
  have "fst (delete_ready [r_job_id e] d1) = d1"
    using fail_queued_ready [OF failed(2)] jid
    by (simp add: delete_ready_def Let_def delete_where_none)
  then show ?thesis using d1 failed(3) by (simp add: covered_def)
next
  case (parked j d2 bl)
  then show ?thesis
    using covered_park [OF parked(3) _ _ entry_count [OF w e]] job_under_entry_id [OF parked(1)] c
    by (auto simp: covered_def)
next
  case (limited j)
  then show ?thesis using c by simp
next
  case (taken j d2)
  then show ?thesis
    using covered_take [OF w _ e _ taken(5)] job_under_entry_id [OF taken(1)] c
    by (auto simp: covered_def)
qed

lemma covered_claim_iteration:
  assumes "wf_db (cs_db st)" "covered (cs_db st)" "claim_iteration env queues now st = Inr (st', it)"
  shows "covered (cs_db st')"
proof (cases "next_entry queues now (cs_cursor st) (ce_locked env) (cs_db st)")
  case None
  then show ?thesis using assms by (simp add: claim_iteration_def)
next
  case (Some e)
  then have ex: "examine env now e (st\<lparr>cs_cursor := Some (cursor_of e)\<rparr>) = Inr (st', it)"
    using assms(3) by (simp add: claim_iteration_def)
  show ?thesis
    by (rule covered_examine [OF _ _ _ ex]) (use assms next_entry_Some [OF Some] in auto)
qed

end
