(* ===== verification/Sq_Blocked.thy ===== *)
theory Sq_Blocked
  imports Sq_Cover
begin

text \<open>
  Jobs that wait for dependencies (\<^verbatim>\<open>fastapi_sqlery/backend.py\<close>: \<^verbatim>\<open>block_job\<close>, \<^verbatim>\<open>_recheck_blocked\<close>,
  \<^verbatim>\<open>_dependents_of\<close>, \<^verbatim>\<open>release_dependents\<close>, and \<^verbatim>\<open>claim_job\<close>, which rechecks what its scan parked
  and releases the dependents of what its scan failed). \<open>slot\<close> is the slot new ready entries go to.
  A transaction that raises has no effect; the \<^verbatim>\<open>..._quietly\<close> wrappers keep what was committed
  before the exception.
\<close>

section \<open>Rechecking\<close>

datatype recheck = Rc_ready | Rc_failed | Rc_blocked | Rc_gone

definition recheck_blocked ::
  "nat \<Rightarrow> timestamp \<Rightarrow> job_id \<Rightarrow> timestamp \<Rightarrow> db \<Rightarrow> (db \<times> recheck) result" where
  "recheck_blocked slot now jid created_at d =
     (case List.find (\<lambda>j. j_id j = jid \<and> j_created_at j = created_at) (live d) of
        None \<Rightarrow> Inr (delete_blocked [jid] d, Rc_gone)
      | Some j \<Rightarrow>
          if j_status j \<noteq> Queued \<or> is_running d jid then Inr (delete_blocked [jid] d, Rc_gone)
          else case judge_in d (dependency_ids j) of
                 Pending \<Rightarrow> Inr (d, Rc_blocked)
               | Dep_failed failed \<Rightarrow>
                   (case fail_queued now j (''Dependencies failed: '' @ show_int_list failed)
                           ''dependency_failed'' d of
                      Inl e \<Rightarrow> Inl e
                    | Inr (d', _) \<Rightarrow> Inr (d', Rc_failed))
               | Met \<Rightarrow> Inr (write_ready slot False [j] (delete_blocked [jid] d), Rc_ready))"

definition recheck_blocked_quietly ::
  "nat \<Rightarrow> timestamp \<Rightarrow> job_id \<Rightarrow> timestamp \<Rightarrow> db \<Rightarrow> db" where
  "recheck_blocked_quietly slot now jid created_at d =
     (case recheck_blocked slot now jid created_at d of Inl _ \<Rightarrow> d | Inr (d', _) \<Rightarrow> d')"

section \<open>Releasing dependents\<close>

fun parent_chain :: "db \<Rightarrow> nat \<Rightarrow> job_id list \<Rightarrow> job_id option \<Rightarrow> job_id list" where
  "parent_chain d 0 ids parent = ids"
| "parent_chain d (Suc hops) ids parent =
     (case parent of
        None \<Rightarrow> ids
      | Some p \<Rightarrow>
          if p = 0 \<or> p \<in> set ids then ids
          else parent_chain d hops (ids @ [p])
                 (case List.find (\<lambda>j. j_id j = p) (job_all d) of
                    None \<Rightarrow> None | Some j \<Rightarrow> j_parent_job_id j))"

definition dependents_of :: "job_id \<Rightarrow> job_id option \<Rightarrow> db \<Rightarrow> (job_id \<times> timestamp) list" where
  "dependents_of jid parent d =
     (let ids = parent_chain d MAX_CHAIN_HOPS [jid] parent
      in remdups (map (\<lambda>b. (b_job_id b, b_created_at b))
           (filter (\<lambda>b. b_dependency_id b \<in> set ids) (blocked d))))"

type_synonym work = "(job_id \<times> job_id option) list"

fun recheck_all ::
  "nat \<Rightarrow> timestamp \<Rightarrow> (job_id \<times> timestamp) list \<Rightarrow> nat \<Rightarrow> work \<Rightarrow> db \<Rightarrow> db \<times> (nat \<times> work) result" where
  "recheck_all slot now [] released work d = (d, Inr (released, work))"
| "recheck_all slot now ((bid, created_at) # rest) released work d =
     (case recheck_blocked slot now bid created_at d of
        Inl e \<Rightarrow> (d, Inl e)
      | Inr (d', Rc_ready) \<Rightarrow> recheck_all slot now rest (released + 1) work d'
      | Inr (d', Rc_failed) \<Rightarrow> recheck_all slot now rest released (work @ [(bid, None)]) d'
      | Inr (d', _) \<Rightarrow> recheck_all slot now rest released work d')"

lemma finish_in_live_length:
  assumes "finish_in now jid st v fe d = Inr (d', True)"
  shows "length (live d) = Suc (length (live d'))"
proof -
  let ?W = "move_where d jid fe"
  have "rowcount ?W (live d) = 1" "live d' = delete_where ?W (live d)"
    using assms by (auto simp: finish_in_def Let_def close_stragglers_def split: if_splits)
  moreover have "length t = rowcount Q t + length (delete_where Q t)" for Q and t :: "job list"
    by (induction t) auto
  ultimately show ?thesis by (metis plus_1_eq_Suc)
qed

lemma fail_queued_live_length:
  assumes f: "fail_queued now j e r d = Inr (d', ok)" and j: "j \<in> set (live d)" "j_status j = Queued"
    "\<not> is_running d (j_id j)"
  shows "length (live d) = Suc (length (live d'))"
proof -
  let ?d1 = "delete_blocked [j_id j] (fst (delete_ready [j_id j] d))"
  let ?fe = "no_fences\<lparr>fe_created_at := Some (j_created_at j), fe_status := Some [Queued],
                 fe_idle := True\<rparr>"
  have fi: "finish_in now (j_id j) Failed (no_values\<lparr>v_error := Some e,
        v_termination_reason := Some r, v_finished_at := Some now\<rparr>) ?fe ?d1 = Inr (d', ok)"
    using f by (simp add: fail_queued_def Let_def)
  have "move_where ?d1 (j_id j) ?fe j" using j by (simp add: move_where_def no_fences_def)
  then have "filter (move_where ?d1 (j_id j) ?fe) (live ?d1) \<noteq> []"
    using j by (auto simp: filter_empty_conv)
  then have ok: "ok" using fi by (auto simp: finish_in_def Let_def split: if_splits)
  show ?thesis using finish_in_live_length fi ok by fastforce
qed

lemma recheck_blocked_length:
  assumes "recheck_blocked slot now jid created_at d = Inr (d', rc)"
  shows "length (live d') + (if rc = Rc_failed then 1 else 0) = length (live d)"
proof (cases "List.find (\<lambda>j. j_id j = jid \<and> j_created_at j = created_at) (live d)")
  case None
  then show ?thesis using assms by (auto simp: recheck_blocked_def)
next
  case (Some j)
  have j: "j \<in> set (live d)" "j_id j = jid" using find_mem [OF Some] by auto
  show ?thesis
  proof (cases "j_status j \<noteq> Queued \<or> is_running d jid")
    case True
    then show ?thesis using assms Some by (auto simp: recheck_blocked_def)
  next
    case False
    show ?thesis
    proof (cases "judge_in d (dependency_ids j)")
      case (Dep_failed ds)
      then show ?thesis
        using assms Some False j fail_queued_live_length
        by (fastforce simp: recheck_blocked_def split: sum.splits prod.splits)
    qed (use assms Some False in \<open>auto simp: recheck_blocked_def\<close>)
  qed
qed

lemma recheck_all_length:
  assumes "recheck_all slot now bs released work d = (d', Inr (released', work'))"
  shows "2 * length (live d') + length work' \<le> 2 * length (live d) + length work"
  using assms
proof (induction slot now bs released work d rule: recheck_all.induct)
  case (1 slot now released work d)
  then show ?case by simp
next
  case (2 slot now bid created_at rest released work d)
  obtain d1 rc where rb: "recheck_blocked slot now bid created_at d = Inr (d1, rc)"
    using "2.prems" by (auto split: sum.splits)
  note len = recheck_blocked_length [OF rb]
  show ?case
    using "2.prems" "2.IH" [OF rb] len by (cases rc) (fastforce simp: rb)+
qed

function release_loop ::
  "nat \<Rightarrow> timestamp \<Rightarrow> work \<Rightarrow> job_id list \<Rightarrow> nat \<Rightarrow> db \<Rightarrow> db \<times> nat result" where
  "release_loop slot now work seen released d =
     (if work = [] then (d, Inr released)
      else if fst (last work) \<in> set seen
      then release_loop slot now (butlast work) seen released d
      else case recheck_all slot now (dependents_of (fst (last work)) (snd (last work)) d)
                  released (butlast work) d of
             (d', Inl e) \<Rightarrow> (d', Inl e)
           | (d', Inr (released', work')) \<Rightarrow>
               release_loop slot now work' (fst (last work) # seen) released' d')"
  by pat_completeness auto
termination
proof (relation "measure (\<lambda>(slot, now, work, seen, released, d). 2 * length (live d) + length work)",
    goal_cases)
  case (3 slot now work seen released d d' r pr released' work')
  then have "recheck_all slot now (dependents_of (fst (last work)) (snd (last work)) d) released
      (butlast work) d = (d', Inr (released', work'))" by simp
  from recheck_all_length [OF this]
  have "2 * length (live d') + length work' \<le> 2 * length (live d) + (length work - 1)" by simp
  moreover have "0 < length work" using 3(1) by simp
  ultimately have "2 * length (live d') + length work' < 2 * length (live d) + length work"
    by linarith
  then show ?case by simp
qed simp_all

declare release_loop.simps [simp del]

definition release_dependents ::
  "nat \<Rightarrow> timestamp \<Rightarrow> job_id \<Rightarrow> job_id option \<Rightarrow> db \<Rightarrow> db \<times> nat result" where
  "release_dependents slot now jid parent d = release_loop slot now [(jid, parent)] [] 0 d"

definition release_dependents_quietly ::
  "nat \<Rightarrow> timestamp \<Rightarrow> job_id \<Rightarrow> job_id option \<Rightarrow> db \<Rightarrow> db" where
  "release_dependents_quietly slot now jid parent d = fst (release_dependents slot now jid parent d)"

section \<open>Parking and claiming\<close>

definition block_job :: "nat \<Rightarrow> timestamp \<Rightarrow> job \<Rightarrow> db \<Rightarrow> db \<times> bool" where
  "block_job slot now j d =
     (case insert_blocked now j of
        None \<Rightarrow> (d, False)
      | Some ins \<Rightarrow>
          (let (d1, n) = delete_ready [j_id j] d
           in if n < 1 then (d1, False)
              else (recheck_blocked_quietly slot now (j_id j) (j_created_at j) (ins d1), True)))"

fun recheck_each :: "nat \<Rightarrow> timestamp \<Rightarrow> (job_id \<times> timestamp) list \<Rightarrow> db \<Rightarrow> db" where
  "recheck_each slot now [] d = d"
| "recheck_each slot now ((jid, created_at) # rest) d =
     recheck_each slot now rest (recheck_blocked_quietly slot now jid created_at d)"

fun release_each :: "nat \<Rightarrow> timestamp \<Rightarrow> job_id list \<Rightarrow> db \<Rightarrow> db" where
  "release_each slot now [] d = d"
| "release_each slot now (jid # rest) d =
     release_each slot now rest (release_dependents_quietly slot now jid None d)"

text \<open>\<^verbatim>\<open>claim_job\<close>: the \<^verbatim>\<open>finally\<close> block runs whether the scan returned or raised.\<close>

definition claim_job ::
  "claim_env \<Rightarrow> nat \<Rightarrow> string list \<Rightarrow> timestamp \<Rightarrow> db \<Rightarrow> db \<times> (job \<times> attempt_handle) option result" where
  "claim_job env slot queues now d =
     (let (st, r) = claim_from_ready env queues now
                      \<lparr>cs_db = d, cs_cursor = None, cs_blocked = [], cs_failed = []\<rparr>
      in (release_each slot now (cs_failed st)
            (recheck_each slot now (cs_blocked st) (cs_db st)), r))"

section \<open>Laws\<close>

lemma recheck_cases:
  assumes "recheck_blocked slot now jid created_at d = Inr (d', rc)"
  obtains
    (gone) "d' = delete_blocked [jid] d" "rc = Rc_gone"
      "\<And>j. j \<in> set (live d) \<Longrightarrow> j_id j = jid \<Longrightarrow> j_created_at j = created_at \<Longrightarrow> wf_db d \<Longrightarrow>
         \<not> waiting_clause d j"
  | (same) "d' = d" "rc = Rc_blocked"
  | (failed) j e r ok where "j \<in> set (live d)" "j_id j = jid"
      "fail_queued now j e r d = Inr (d', ok)" "rc = Rc_failed"
  | (woken) j where "j \<in> set (live d)" "j_id j = jid"
      "d' = write_ready slot False [j] (delete_blocked [jid] d)" "rc = Rc_ready"
proof (cases "List.find (\<lambda>j. j_id j = jid \<and> j_created_at j = created_at) (live d)")
  case None
  then have "\<forall>j\<in>set (live d). \<not> (j_id j = jid \<and> j_created_at j = created_at)"
    by (simp add: find_none)
  then show ?thesis using assms None gone by (auto simp: recheck_blocked_def)
next
  case (Some j)
  have j: "j \<in> set (live d)" "j_id j = jid" using find_mem [OF Some] by auto
  show ?thesis
  proof (cases "j_status j \<noteq> Queued \<or> is_running d jid")
    case True
    have "\<not> waiting_clause d x" if "x \<in> set (live d)" "j_id x = jid" "wf_db d" for x
      using wf_live_unique [OF that(3,1) j(1)] that(2) j True by (auto simp: waiting_clause_def)
    then show ?thesis using assms Some True gone by (auto simp: recheck_blocked_def)
  next
    case False
    show ?thesis
    proof (cases "judge_in d (dependency_ids j)")
      case Met
      then show ?thesis using assms Some False j woken by (auto simp: recheck_blocked_def)
    next
      case Pending
      then show ?thesis using assms Some False same by (auto simp: recheck_blocked_def)
    next
      case (Dep_failed ds)
      then obtain ok where "fail_queued now j (''Dependencies failed: '' @ show_int_list ds)
          ''dependency_failed'' d = Inr (d', ok)" "rc = Rc_failed"
        using assms Some False by (auto simp: recheck_blocked_def split: sum.splits)
      then show ?thesis using failed j by blast
    qed
  qed
qed

lemma recheck_blocked_safe:
  assumes "recheck_blocked slot now jid created_at d = Inr (d', rc)" "slot \<in> set SLOTS"
  shows "safe d d'"
  using assms(1)
proof (cases rule: recheck_cases)
  case (failed j e r ok)
  then show ?thesis using fail_queued_law by blast
next
  case (woken j)
  then show ?thesis
    using safe_trans [OF delete_blocked_safe write_ready_safe [OF assms(2)]] by simp
qed auto

text \<open>
  The recheck is addressed by the id and the creation time stored in the blocked row; when the
  stored time is the job's own, no waiting job loses its last entry.
\<close>

definition blocked_dated :: "db \<Rightarrow> bool" where
  "blocked_dated d \<longleftrightarrow>
     (\<forall>b\<in>set (blocked d). \<forall>j\<in>set (live d). j_id j = b_job_id b \<longrightarrow> j_created_at j = b_created_at b)"

lemma recheck_blocked_covered:
  assumes "recheck_blocked slot now jid created_at d = Inr (d', rc)" "wf_db d" "covered d"
    and dated: "\<And>j. j \<in> set (live d) \<Longrightarrow> j_id j = jid \<Longrightarrow> j_created_at j = created_at"
  shows "covered d'"
  using assms(1)
proof (cases rule: recheck_cases)
  case gone
  have "covered_but (insert jid {}) d'"
    using covered_delete_blocked [of "{}" d jid] assms(3) gone(1) by (simp add: covered_def)
  moreover have "\<not> waiting_clause d' j" if "j \<in> set (live d')" "j_id j = jid" for j
    using gone(1,3) that dated assms(2) by (auto simp: waiting_clause_def)
  ultimately show ?thesis by (auto simp: covered_def covered_but_def)
next
  case (failed j e r ok)
  then show ?thesis using covered_fail_queued [OF assms(2)] assms(3) by (auto simp: covered_def)
next
  case (woken j)
  have "covered_but (insert (j_id j) {}) (delete_blocked [jid] d)"
    using covered_delete_blocked [of "{}" d jid] assms(3) woken(2) by (simp add: covered_def)
  then show ?thesis using woken(3) covered_write_ready by (simp add: covered_def)
qed (use assms in auto)

lemma recheck_all_safe:
  assumes "recheck_all slot now bs released work d = (d', r)" "slot \<in> set SLOTS"
  shows "safe d d'"
  using assms
proof (induction slot now bs released work d rule: recheck_all.induct)
  case (2 slot now bid created_at rest released work d)
  show ?case
  proof (cases "recheck_blocked slot now bid created_at d")
    case (Inl e)
    then show ?thesis using "2.prems" by simp
  next
    case (Inr p)
    obtain d1 rc where p: "p = (d1, rc)" by (cases p)
    have s: "safe d d1" using recheck_blocked_safe Inr p "2.prems"(2) by blast
    show ?thesis
      using "2.prems" "2.IH" [OF Inr p [symmetric]] Inr p s
      by (cases rc) (auto intro: safe_trans)
  qed
qed auto

lemma release_loop_safe:
  assumes "release_loop slot now work seen released d = (d', r)" "slot \<in> set SLOTS"
  shows "safe d d'"
  using assms
proof (induction slot now work seen released d rule: release_loop.induct)
  case (1 slot now work seen released d)
  note step = "1.prems"(1) [unfolded release_loop.simps [of slot now work]]
  show ?case
  proof (cases "work = [] \<or> fst (last work) \<in> set seen")
    case True
    then show ?thesis using step "1.IH"(1) "1.prems"(2) by (auto split: if_splits)
  next
    case False
    obtain d1 r1 where ra: "recheck_all slot now (dependents_of (fst (last work)) (snd (last work)) d)
        released (butlast work) d = (d1, r1)" by fastforce
    have s: "safe d d1" by (rule recheck_all_safe [OF ra "1.prems"(2)])
    show ?thesis
    proof (cases r1)
      case (Inl e)
      then show ?thesis using step False ra s by auto
    next
      case (Inr p)
      obtain rel w where p: "p = (rel, w)" by (cases p)
      have "release_loop slot now w (fst (last work) # seen) rel d1 = (d', r)"
        using step False ra Inr p by auto
      then have "safe d1 d'"
        using "1.IH"(2) [OF _ _ ra [symmetric] Inr p [symmetric]] False "1.prems"(2) by blast
      then show ?thesis using s safe_trans by blast
    qed
  qed
qed

lemma release_quietly_safe:
  "slot \<in> set SLOTS \<Longrightarrow> safe d (release_dependents_quietly slot now jid parent d)"
  unfolding release_dependents_quietly_def release_dependents_def
  by (rule release_loop_safe [OF prod.collapse [symmetric]])

lemma recheck_quietly_safe:
  "slot \<in> set SLOTS \<Longrightarrow> safe d (recheck_blocked_quietly slot now jid created_at d)"
  by (auto simp: recheck_blocked_quietly_def dest: recheck_blocked_safe split: sum.splits)

lemma recheck_each_safe: "slot \<in> set SLOTS \<Longrightarrow> safe d (recheck_each slot now bs d)"
  by (induction slot now bs d rule: recheck_each.induct)
    (auto intro: safe_trans recheck_quietly_safe)

lemma release_each_safe: "slot \<in> set SLOTS \<Longrightarrow> safe d (release_each slot now bs d)"
  by (induction slot now bs d rule: release_each.induct)
    (auto intro: safe_trans release_quietly_safe)

lemma block_job_safe:
  assumes "slot \<in> set SLOTS"
  shows "safe d (fst (block_job slot now j d))"
proof (cases "insert_blocked now j")
  case None
  then show ?thesis by (simp add: block_job_def)
next
  case (Some ins)
  let ?d1 = "fst (delete_ready [j_id j] d)"
  have "safe d (recheck_blocked_quietly slot now (j_id j) (j_created_at j) (ins ?d1))"
    by (rule safe_trans [OF safe_trans [OF delete_ready_safe insert_blocked_safe [OF Some]]
          recheck_quietly_safe [OF assms]])
  moreover have "fst (block_job slot now j d) = ?d1 \<or> fst (block_job slot now j d) =
      recheck_blocked_quietly slot now (j_id j) (j_created_at j) (ins ?d1)"
    using Some by (cases "delete_ready [j_id j] d") (simp add: block_job_def)
  ultimately show ?thesis using delete_ready_safe [of d "[j_id j]"] by metis
qed

lemma claim_job_safe:
  assumes "claim_job env slot queues now d = (d', r)" "slot \<in> set SLOTS"
  shows "safe d d'"
proof -
  obtain st r0 where c: "claim_from_ready env queues now
      \<lparr>cs_db = d, cs_cursor = None, cs_blocked = [], cs_failed = []\<rparr> = (st, r0)" by fastforce
  have "safe d (cs_db st)" using claim_from_ready_law [OF c] by simp
  moreover have "d' = release_each slot now (cs_failed st) (recheck_each slot now (cs_blocked st) (cs_db st))"
    using assms(1) c by (simp add: claim_job_def)
  ultimately show ?thesis
    using safe_trans [OF safe_trans [OF _ recheck_each_safe [OF assms(2)]] release_each_safe [OF assms(2)]]
    by simp
qed

end
