(* ===== verification/Sq_Complete.thy ===== *)
theory Sq_Complete
  imports Sq_Blocked
begin

text \<open>
  Completions and recovery (\<^verbatim>\<open>fastapi_sqlery/backend.py\<close>): the fenced success and failure of an
  attempt, the bookkeeping of a retried failure, the failure of a zombie, the release of a claim,
  cancellation, expiry and revocation. An operation returns the database and a result; on an
  exception the database is the one before the call, because the session rolls back.

  \<open>mark_job_success\<close> and \<open>mark_job_failed\<close> read the job twice, in two sessions: first through
  \<^verbatim>\<open>get_job_by_id\<close> and then in the transaction that writes. Their argument \<open>d0\<close> is the database of
  the first read, which equals \<open>d\<close> when nothing happens in between.
\<close>

section \<open>Completion\<close>

definition close_attempt ::
  "timestamp \<Rightarrow> job_id \<Rightarrow> attempt_handle option \<Rightarrow> outcome \<Rightarrow> db \<Rightarrow> db result" where
  "close_attempt now jid att oc d =
     (case att of
        Some h \<Rightarrow>
          (let (d', n) = close_exact h oc now d
           in case decide_close n h of Inl e \<Rightarrow> Inl e | Inr _ \<Rightarrow> Inr d')
      | None \<Rightarrow> Inr (fst (close_unfenced jid oc now d)))"

definition find_job :: "job_id \<Rightarrow> db \<Rightarrow> job option" where
  "find_job jid d =
     (case live_by_id jid d of Some j \<Rightarrow> Some j | None \<Rightarrow> history_by_id d jid)"

text \<open>The \<^verbatim>\<open>UPDATE\<close> of a failure that will be retried: the job stays in the live table.\<close>

definition in_place_row :: "job_status \<Rightarrow> finish_values \<Rightarrow> job \<Rightarrow> job" where
  "in_place_row st v j =
     (let j1 = (set_values v j)
                 \<lparr>j_status := st, j_version := j_version j + 1,
                  j_finished_at := (case v_finished_at v of Some t \<Rightarrow> Some t | None \<Rightarrow> j_finished_at j)\<rparr>
      in case v_ran v of
           None \<Rightarrow> j1
         | Some a \<Rightarrow> j1\<lparr>j_started_at := Some (a_claimed_at a), j_worker_id := a_worker_id a,
                        j_worker_pid := a_worker_pid a, j_child_pid := a_child_pid a\<rparr>)"

definition version_where :: "job_id \<Rightarrow> int option \<Rightarrow> job \<Rightarrow> bool" where
  "version_where jid ver j \<longleftrightarrow>
     j_id j = jid \<and> (case ver of None \<Rightarrow> True | Some v \<Rightarrow> j_version j = v)"

text \<open>The write of a completion, after its attempt has been closed.\<close>

definition record_completion ::
  "timestamp \<Rightarrow> job_id \<Rightarrow> int option \<Rightarrow> job_status \<Rightarrow> finish_values \<Rightarrow> db \<Rightarrow> (db \<times> bool) result" where
  "record_completion now jid ver st v d =
     (if st = Failed \<and> is_retry_pending (v_termination_reason v) then
        (let W = version_where jid ver
         in Inr (d\<lparr>live := update_where W (in_place_row st v) (live d)\<rparr>, rowcount W (live d) > 0))
      else finish_in now jid st v (no_fences\<lparr>fe_version := ver\<rparr>) d)"

definition fenced_update ::
  "nat \<Rightarrow> timestamp \<Rightarrow> job_id \<Rightarrow> int option \<Rightarrow> job_status \<Rightarrow> finish_values \<Rightarrow> attempt_handle option \<Rightarrow>
     outcome \<Rightarrow> job_id option \<Rightarrow> db \<Rightarrow> db \<times> job option result" where
  "fenced_update slot now jid ver st v att oc parent d =
     (case close_attempt now jid att oc d of
        Inl e \<Rightarrow> (d, Inl e)
      | Inr d1 \<Rightarrow>
          (case record_completion now jid ver st v d1 of
             Inl e \<Rightarrow> (d, Inl e)
           | Inr (d2, applied) \<Rightarrow>
               if \<not> applied then
                 (d, if ver \<noteq> None then Inl JobFencingError else Inr None)
               else
                 (let d3 = (if (st = Success \<or> st = Failed) \<and>
                               \<not> is_retry_pending (v_termination_reason v)
                            then release_dependents_quietly slot now jid parent d2 else d2)
                  in (d3, Inr (find_job jid d3)))))"

definition already_finished ::
  "job \<Rightarrow> int option \<Rightarrow> attempt_handle option \<Rightarrow> job option result" where
  "already_finished j ver att =
     (if ver \<noteq> None \<or> att \<noteq> None then Inl JobFencingError else Inr (Some j))"

text \<open>What \<^verbatim>\<open>get_job_by_id\<close> finds: a live row (overlaid with its open attempt), a history row or
  nothing that could be completed (no row at all, or a staging row).\<close>

datatype found = F_live job | F_history job | F_other

definition get_job_by_id :: "job_id \<Rightarrow> db \<Rightarrow> found" where
  "get_job_by_id jid d =
     (case live_by_id jid d of
        Some j \<Rightarrow>
          F_live (if j_status j = Queued then overlay_running (open_attempt_in d jid) j else j)
      | None \<Rightarrow> (case history_by_id d jid of Some j \<Rightarrow> F_history j | None \<Rightarrow> F_other))"

definition mark_job_success ::
  "nat \<Rightarrow> timestamp \<Rightarrow> db \<Rightarrow> job_id \<Rightarrow> task_output \<Rightarrow> int option \<Rightarrow> attempt_handle option \<Rightarrow> db \<Rightarrow>
     db \<times> job option result" where
  "mark_job_success slot now d0 jid out ver att d =
     (case get_job_by_id jid d0 of
        F_history j \<Rightarrow> (d, already_finished j ver att)
      | F_other \<Rightarrow> (d, Inr None)
      | F_live j0 \<Rightarrow>
          (case live_by_id jid d of
             None \<Rightarrow> (d, Inr (Some j0))
           | Some row \<Rightarrow>
               (let running = open_attempt_in d jid
                in case mark_success now out (overlay_running running row) of
                     Inl e \<Rightarrow> (d, Inl e)
                   | Inr j \<Rightarrow>
                       fenced_update slot now jid ver Success
                         (no_values\<lparr>v_finished_at := j_finished_at j,
                                    v_duration := Some (j_duration_seconds j),
                                    v_output := Some (j_output j), v_runs := Some (j_runs j),
                                    v_ran := running\<rparr>)
                         att Outcome_success (j_parent_job_id j) d)))"

definition mark_job_failed ::
  "nat \<Rightarrow> timestamp \<Rightarrow> db \<Rightarrow> job_id \<Rightarrow> string \<Rightarrow> string \<Rightarrow> int option \<Rightarrow> string \<Rightarrow>
     attempt_handle option \<Rightarrow> db \<Rightarrow> db \<times> job option result" where
  "mark_job_failed slot now d0 jid error tb ver reason att d =
     (case get_job_by_id jid d0 of
        F_history j \<Rightarrow> (d, already_finished j ver att)
      | F_other \<Rightarrow> (d, Inr None)
      | F_live j0 \<Rightarrow>
          (case live_by_id jid d of
             None \<Rightarrow> (d, Inr (Some j0))
           | Some row \<Rightarrow>
               (let running = open_attempt_in d jid;
                    j = mark_failed now error tb reason (overlay_running running row)
                in fenced_update slot now jid ver Failed
                     (no_values\<lparr>v_finished_at := j_finished_at j,
                                v_duration := Some (j_duration_seconds j),
                                v_error := Some (j_error j), v_traceback := Some (j_traceback j),
                                v_termination_reason := Some (j_termination_reason j),
                                v_runs := Some (j_runs j), v_ran := running\<rparr>)
                     att Outcome_failed (j_parent_job_id j) d)))"

section \<open>After a retried failure\<close>

definition settle_failed_row :: "timestamp \<Rightarrow> job_id \<Rightarrow> job_status \<Rightarrow> db \<Rightarrow> db result" where
  "settle_failed_row now jid st d =
     (case List.find (\<lambda>j. j_id j = jid \<and> j_status j = Failed) (live d) of
        None \<Rightarrow> Inr d
      | Some j \<Rightarrow>
          (case finish_in now jid st
                  (no_values\<lparr>v_termination_reason :=
                     Some (settled_termination_reason (Some (j_termination_reason j)))\<rparr>)
                  (no_fences\<lparr>fe_created_at := Some (j_created_at j), fe_status := Some [Failed]\<rparr>) d of
             Inl e \<Rightarrow> Inl e | Inr (d', _) \<Rightarrow> Inr d'))"

definition mark_job_archived :: "timestamp \<Rightarrow> job_id \<Rightarrow> db \<Rightarrow> db result" where
  "mark_job_archived now jid d = settle_failed_row now jid Archived d"

definition settle_retry_pending :: "timestamp \<Rightarrow> job_id \<Rightarrow> db \<Rightarrow> db result" where
  "settle_retry_pending now jid d = settle_failed_row now jid Failed d"

definition get_jobs_pending_retry :: "timestamp \<Rightarrow> nat \<Rightarrow> db \<Rightarrow> job list" where
  "get_jobs_pending_retry cutoff limit d =
     take limit
       (sort_key (\<lambda>j. case j_finished_at j of Some t \<Rightarrow> t | None \<Rightarrow> cutoff)
          (filter (\<lambda>j. j_status j = Failed \<and> like_retry_pending (j_termination_reason j) \<and>
                       (case j_finished_at j of Some t \<Rightarrow> t \<le> cutoff | None \<Rightarrow> False)) (live d)))"

section \<open>Recovery and control\<close>

definition fail_zombie_job ::
  "nat \<Rightarrow> timestamp \<Rightarrow> job_id \<Rightarrow> string \<Rightarrow> db \<Rightarrow> db \<times> bool result" where
  "fail_zombie_job slot now jid reason d =
     (case live_by_id jid d of
        None \<Rightarrow> (d, Inr False)
      | Some row \<Rightarrow>
          if j_status row \<noteq> Queued then (d, Inr False)
          else case open_attempt_in d jid of
                 None \<Rightarrow> (d, Inr False)
               | Some a \<Rightarrow>
                   (let (d1, closed) = close_unfenced jid Outcome_abandoned now d
                    in if closed < 1 then (d, Inr False)
                       else
                         (let j = mark_failed now reason [] ''zombie_job'' (overlay_running (Some a) row)
                          in case finish_in now jid Failed
                                    (no_values\<lparr>v_finished_at := j_finished_at j,
                                               v_duration := Some (j_duration_seconds j),
                                               v_error := Some (j_error j),
                                               v_traceback := Some (j_traceback j),
                                               v_termination_reason := Some (j_termination_reason j),
                                               v_runs := Some (j_runs j)\<rparr>)
                                    (no_fences\<lparr>fe_created_at := Some (j_created_at j)\<rparr>) d1 of
                               Inl e \<Rightarrow> (d, Inl e)
                             | Inr (_, False) \<Rightarrow> (d, Inr False)
                             | Inr (d2, True) \<Rightarrow>
                                 (release_dependents_quietly slot now jid (j_parent_job_id j) d2,
                                  Inr True))))"

definition release_job :: "nat \<Rightarrow> timestamp \<Rightarrow> job_id \<Rightarrow> db \<Rightarrow> db" where
  "release_job slot now jid d =
     (case live_by_id jid d of
        None \<Rightarrow> d
      | Some j \<Rightarrow>
          if j_status j \<noteq> Queued then d
          else (let (d1, closed) = close_unfenced jid Outcome_abandoned now d
                in if closed < 1 then d else write_ready slot False [j] d1))"

definition request_job_revoke :: "job_id \<Rightarrow> db \<Rightarrow> db \<times> bool" where
  "request_job_revoke jid d =
     (let W = (\<lambda>j. j_id j = jid \<and> running_clause d j)
      in (d\<lparr>live := update_where W (\<lambda>j. j\<lparr>j_termination_reason := ''revoke_requested''\<rparr>) (live d)\<rparr>,
          rowcount W (live d) > 0))"

definition is_job_revoke_requested :: "job_id \<Rightarrow> db \<Rightarrow> bool" where
  "is_job_revoke_requested jid d \<longleftrightarrow>
     (\<exists>j\<in>set (live d). j_id j = jid \<and> running_clause d j \<and>
        j_termination_reason j = ''revoke_requested'')"

definition update_job_child_pid :: "job_id \<Rightarrow> int \<Rightarrow> attempt_handle option \<Rightarrow> db \<Rightarrow> db" where
  "update_job_child_pid jid pid att d = child_pid_stmt jid pid att d"

definition abandon_attempts :: "timestamp \<Rightarrow> job_id \<Rightarrow> db \<Rightarrow> db \<times> nat" where
  "abandon_attempts now jid d = abandon_open jid now d"

definition expire_queued_job ::
  "nat \<Rightarrow> timestamp \<Rightarrow> job \<Rightarrow> string \<Rightarrow> string \<Rightarrow> db \<Rightarrow> db \<times> bool result" where
  "expire_queued_job slot now j error reason d =
     (case fail_queued now j error reason d of
        Inl e \<Rightarrow> (d, Inl e)
      | Inr (_, False) \<Rightarrow> (d, Inr False)
      | Inr (d', True) \<Rightarrow> (release_dependents_quietly slot now (j_id j) None d', Inr True))"

definition get_expired_ttl_jobs :: "timestamp \<Rightarrow> db \<Rightarrow> job list" where
  "get_expired_ttl_jobs now d =
     filter (\<lambda>j. waiting_clause d j \<and>
                 (case j_ttl j of None \<Rightarrow> False | Some ttl \<Rightarrow> j_created_at j + seconds ttl < now))
       (live d)"

text \<open>\<open>partitioned\<close>: PostgreSQL with partitioned job tables, where far-future jobs are staged.\<close>

definition cancel_job :: "bool \<Rightarrow> nat \<Rightarrow> timestamp \<Rightarrow> job_id \<Rightarrow> db \<Rightarrow> db \<times> bool result" where
  "cancel_job partitioned slot now jid d =
     (let cancel_staged =
            (\<lambda>d. if partitioned \<and> (\<exists>s\<in>set (staged d). sj_id s = jid)
                 then (d\<lparr>staged := delete_where (\<lambda>s. sj_id s = jid) (staged d)\<rparr>, Inr True)
                 else (d, Inr False))
      in case List.find (\<lambda>j. j_id j = jid \<and> waiting_clause d j) (live d) of
           None \<Rightarrow> cancel_staged d
         | Some j \<Rightarrow>
             (case finish_in now jid Failed (no_values\<lparr>v_error := Some ''Cancelled by user''\<rparr>)
                     (no_fences\<lparr>fe_created_at := Some (j_created_at j), fe_status := Some [Queued],
                                fe_idle := True\<rparr>)
                     (delete_blocked [jid] (fst (delete_ready [jid] d))) of
                Inl e \<Rightarrow> (d, Inl e)
              | Inr (_, False) \<Rightarrow> cancel_staged d
              | Inr (d', True) \<Rightarrow> (release_dependents_quietly slot now jid None d', Inr True)))"

section \<open>Releasing a processed job\<close>

definition idle_worker :: "timestamp \<Rightarrow> int \<Rightarrow> worker \<Rightarrow> worker" where
  "idle_worker now processed w =
     w\<lparr>w_status := W_idle, w_current_job_id := None, w_jobs_processed := processed,
       w_last_heartbeat := now\<rparr>"

definition release_job_row ::
  "nat \<Rightarrow> timestamp \<Rightarrow> job \<Rightarrow> job_status \<Rightarrow> finish_values \<Rightarrow> db \<Rightarrow> db result" where
  "release_job_row slot now j st kw d =
     (let att = open_attempt_in d (j_id j);
          started = (case att of Some a \<Rightarrow> Some (a_claimed_at a) | None \<Rightarrow> j_started_at j);
          d1 = fst (close_unfenced (j_id j)
                      (if st = Success then Outcome_success else Outcome_failed) now d);
          v = kw\<lparr>v_finished_at := coalesce (v_finished_at kw) (Some now),
                 v_duration := coalesce (v_duration kw)
                    (Some (map_option (\<lambda>t. total_seconds (now - t)) started))\<rparr>
      in if is_terminal st then
           (case finish_in now (j_id j) st v (no_fences\<lparr>fe_created_at := Some (j_created_at j)\<rparr>) d1 of
              Inl e \<Rightarrow> Inl e | Inr (d2, _) \<Rightarrow> Inr d2)
         else if st = Queued then Inr (write_ready slot False [j] d1)
         else
           (let d2 = (if j_status j \<noteq> st then drop_entries [j_id j] d1 else d1);
                upd = (\<lambda>r. (in_place_row st v r)\<lparr>j_version := j_version r\<rparr>)
            in Inr (d2\<lparr>live := update_where (\<lambda>r. j_id r = j_id j \<and> j_created_at r = j_created_at j) upd
                                     (live d2)\<rparr>)))"

definition release_claimed_job ::
  "nat \<Rightarrow> timestamp \<Rightarrow> job_id \<Rightarrow> timestamp option \<Rightarrow> string \<Rightarrow> job_status \<Rightarrow> int \<Rightarrow> finish_values \<Rightarrow> db \<Rightarrow>
     db \<times> job option result" where
  "release_claimed_job slot now jid created_at wpk st processed kw d =
     (let touch = (\<lambda>d. d\<lparr>workers := update_where (\<lambda>w. w_id w = wpk) (idle_worker now processed)
                         (workers d)\<rparr>)
      in case List.find (\<lambda>j. j_id j = jid \<and>
                (case created_at of None \<Rightarrow> True | Some c \<Rightarrow> j_created_at j = c)) (live d) of
           None \<Rightarrow> (touch d, Inr None)
         | Some j \<Rightarrow>
             (case release_job_row slot now j st kw d of
                Inl e \<Rightarrow> (d, Inl e)
              | Inr d1 \<Rightarrow>
                  (let d2 = touch d1; result = find_job jid d2
                   in case result of
                        None \<Rightarrow> (d2, Inr None)
                      | Some r \<Rightarrow>
                          (if j_status r = Success \<or> j_status r = Failed
                           then release_dependents_quietly slot now (j_id r) (j_parent_job_id j) d2
                           else d2, Inr (Some r)))))"

end
