(* ===== verification/Sq_Complete_Laws.thy ===== *)
theory Sq_Complete_Laws
  imports Sq_Complete
begin

text \<open>
  Laws of the completions: every operation is safe (keeps the invariant, loses no job, never
  reopens an attempt), and the exactly-once contract of a fenced completion, the locale
  \<open>fenced_completion\<close>, interpreted for success and for failure.
\<close>

section \<open>Every operation is safe\<close>

lemma close_attempt_safe: "close_attempt now jid att oc d = Inr d' \<Longrightarrow> safe d d'"
  by (auto simp: close_attempt_def split: option.splits prod.splits sum.splits)
    (metis close_variants_safe(2) fst_conv)

lemma in_place_row_id [simp]: "j_id (in_place_row st v j) = j_id j"
  by (simp add: in_place_row_def set_values_def Let_def split: option.splits)

lemma record_completion_safe:
  assumes "record_completion now jid ver st v d = Inr (d', ok)" "is_terminal st"
  shows "safe d d'"
proof (cases "st = Failed \<and> is_retry_pending (v_termination_reason v)")
  case True
  then show ?thesis
    using assms
    by (auto simp: record_completion_def Let_def
        intro!: live_update_safe [where Q = "version_where jid ver" and f = "in_place_row st v"])
next
  case False
  then have "finish_in now jid st v (no_fences\<lparr>fe_version := ver\<rparr>) d = Inr (d', ok)"
    using assms(1) by (simp only: record_completion_def False if_False)
  then show ?thesis using finish_in_safe assms(2) by blast
qed

lemma release_if_safe:
  "slot \<in> set SLOTS \<Longrightarrow> safe d (if b then release_dependents_quietly slot now jid parent d else d)"
  by (simp add: release_quietly_safe)

lemma fenced_update_cases:
  obtains (rejected) e where "fenced_update slot now jid ver st v att oc parent d = (d, Inl e)"
  | (vanished) d1 d2 where "fenced_update slot now jid ver st v att oc parent d = (d, Inr None)"
      "ver = None" "close_attempt now jid att oc d = Inr d1"
      "record_completion now jid ver st v d1 = Inr (d2, False)"
  | (accepted) d1 d2 d3 where "close_attempt now jid att oc d = Inr d1"
      "record_completion now jid ver st v d1 = Inr (d2, True)"
      "d3 = (if (st = Success \<or> st = Failed) \<and> \<not> is_retry_pending (v_termination_reason v)
             then release_dependents_quietly slot now jid parent d2 else d2)"
      "fenced_update slot now jid ver st v att oc parent d = (d3, Inr (find_job jid d3))"
proof (cases "close_attempt now jid att oc d")
  case (Inl e)
  then show ?thesis using rejected by (simp add: fenced_update_def)
next
  case (Inr d1)
  show ?thesis
  proof (cases "record_completion now jid ver st v d1")
    case (Inl e)
    then show ?thesis using Inr rejected by (simp add: fenced_update_def)
  next
    case (Inr p)
    obtain d2 applied where p: "p = (d2, applied)" by (cases p)
    show ?thesis
    proof (cases applied)
      case True
      then show ?thesis using \<open>close_attempt _ _ _ _ _ = _\<close> Inr p accepted
        by (simp add: fenced_update_def Let_def)
    next
      case False
      then show ?thesis using \<open>close_attempt _ _ _ _ _ = _\<close> Inr p rejected vanished
        by (cases ver) (simp_all add: fenced_update_def)
    qed
  qed
qed

lemma fenced_update_safe:
  assumes "is_terminal st" "slot \<in> set SLOTS"
  shows "safe d (fst (fenced_update slot now jid ver st v att oc parent d))"
proof (rule fenced_update_cases [of slot now jid ver st v att oc parent d])
  fix d1 d2 d3
  assume *: "close_attempt now jid att oc d = Inr d1"
    "record_completion now jid ver st v d1 = Inr (d2, True)"
    "d3 = (if (st = Success \<or> st = Failed) \<and> \<not> is_retry_pending (v_termination_reason v)
           then release_dependents_quietly slot now jid parent d2 else d2)"
    "fenced_update slot now jid ver st v att oc parent d = (d3, Inr (find_job jid d3))"
  have "safe d d2"
    by (rule safe_trans [OF close_attempt_safe [OF *(1)] record_completion_safe [OF *(2) assms(1)]])
  then show ?thesis
    unfolding *(4) *(3) fst_conv by (rule safe_trans) (rule release_if_safe [OF assms(2)])
qed simp_all

lemma mark_job_success_safe:
  assumes "slot \<in> set SLOTS"
  shows "safe d (fst (mark_job_success slot now d0 jid out ver att d))"
  using fenced_update_safe [OF _ assms]
  by (simp add: mark_job_success_def Let_def split: found.splits option.splits sum.splits)

lemma mark_job_failed_safe:
  assumes "slot \<in> set SLOTS"
  shows "safe d (fst (mark_job_failed slot now d0 jid error tb ver reason att d))"
  using fenced_update_safe [OF _ assms]
  by (simp add: mark_job_failed_def Let_def split: found.splits option.splits)

lemma settle_failed_row_safe:
  assumes "settle_failed_row now jid st d = Inr d'" "is_terminal st"
  shows "safe d d'"
  using assms
  by (auto simp: settle_failed_row_def dest: finish_in_safe split: option.splits sum.splits)

lemma fail_zombie_cases:
  assumes "fail_zombie_job slot now jid reason d = (d', r)"
  shows "(d' = d \<and> r \<noteq> Inr True) \<or>
    (\<exists>v fe d2 parent. finish_in now jid Failed v fe (fst (close_unfenced jid Outcome_abandoned now d)) =
        Inr (d2, True) \<and> d' = release_dependents_quietly slot now jid parent d2 \<and> r = Inr True)"
proof (cases "live_by_id jid d")
  case None
  then show ?thesis using assms by (auto simp: fail_zombie_job_def)
next
  case row: (Some row)
  show ?thesis
  proof (cases "open_attempt_in d jid")
    case None
    then show ?thesis using assms row by (auto simp: fail_zombie_job_def split: if_splits)
  next
    case (Some a)
    obtain d1 n where cu: "close_unfenced jid Outcome_abandoned now d = (d1, n)" by fastforce
    show ?thesis
      using assms row Some
      unfolding fail_zombie_job_def Let_def option.case cu prod.case fst_conv
      by (auto split: if_splits sum.splits prod.splits bool.splits)
  qed
qed

lemma fail_zombie_safe:
  assumes "slot \<in> set SLOTS"
  shows "safe d (fst (fail_zombie_job slot now jid reason d))"
proof -
  obtain d' r where z: "fail_zombie_job slot now jid reason d = (d', r)" by fastforce
  from fail_zombie_cases [OF z] show ?thesis
  proof (elim disjE exE conjE)
    fix v fe d2 parent
    assume *: "finish_in now jid Failed v fe (fst (close_unfenced jid Outcome_abandoned now d)) =
        Inr (d2, True)" "d' = release_dependents_quietly slot now jid parent d2"
    have "safe d d2"
      by (rule safe_trans [OF close_variants_safe(3) finish_in_safe [OF *(1)]]) simp
    then show ?thesis
      using safe_trans release_quietly_safe [OF assms] by (simp add: z *(2))
  qed (simp add: z)
qed

lemma release_job_safe:
  assumes "slot \<in> set SLOTS"
  shows "safe d (release_job slot now jid d)"
proof -
  have "safe d (write_ready slot False [j] (fst (close_unfenced jid Outcome_abandoned now d)))" for j
    by (rule safe_trans [OF close_variants_safe(3) write_ready_safe [OF assms]])
  then show ?thesis
    by (cases "close_unfenced jid Outcome_abandoned now d")
      (simp add: release_job_def split: option.splits)
qed

lemma request_job_revoke_safe: "safe d (fst (request_job_revoke jid d))"
  unfolding request_job_revoke_def Let_def
  by (rule live_update_safe [where f = "\<lambda>j. j\<lparr>j_termination_reason := ''revoke_requested''\<rparr>"
        and Q = "\<lambda>j. j_id j = jid \<and> running_clause d j"]) simp_all

lemma expire_safe:
  assumes "slot \<in> set SLOTS"
  shows "safe d (fst (expire_queued_job slot now j error reason d))"
proof (cases "fail_queued now j error reason d")
  case (Inl e)
  then show ?thesis by (simp add: expire_queued_job_def)
next
  case (Inr p)
  obtain d1 ok where p: "p = (d1, ok)" by (cases p)
  have "safe d (release_dependents_quietly slot now (j_id j) None d1)"
    using fail_queued_law Inr p safe_trans release_quietly_safe [OF assms] by blast
  then show ?thesis using Inr p by (cases ok) (simp_all add: expire_queued_job_def)
qed

lemma staged_delete_safe: "safe d (d\<lparr>staged := delete_where P (staged d)\<rparr>)"
proof -
  have "distinct (map sj_id (delete_where P t) @ ys)" if "distinct (map sj_id t @ ys)"
    for t :: "staged_job list" and ys
    using that by (auto simp: delete_where_def distinct_map_filter)
  then show ?thesis
    by (auto simp: safe_def wf_db_def wf_jobs_def wf_attempts_def wf_ready_def evolves_def
        history_grows_def attempts_evolve_def job_ids_def intro: att_le_refl)
qed

lemma cancel_job_safe:
  assumes "slot \<in> set SLOTS"
  shows "safe d (fst (cancel_job partitioned slot now jid d))"
proof (cases "List.find (\<lambda>j. j_id j = jid \<and> waiting_clause d j) (live d)")
  case None
  then show ?thesis using staged_delete_safe by (simp add: cancel_job_def)
next
  case (Some j)
  let ?d1 = "delete_blocked [jid] (fst (delete_ready [jid] d))"
  let ?f = "finish_in now jid Failed (no_values\<lparr>v_error := Some ''Cancelled by user''\<rparr>)
     (no_fences\<lparr>fe_created_at := Some (j_created_at j), fe_status := Some [Queued],
                fe_idle := True\<rparr>) ?d1"
  have s1: "safe d ?d1" by (rule safe_trans [OF delete_ready_safe delete_blocked_safe])
  show ?thesis
  proof (cases ?f)
    case (Inl e)
    then show ?thesis using Some by (simp add: cancel_job_def)
  next
    case (Inr p)
    obtain d2 ok where p: "p = (d2, ok)" by (cases p)
    have "safe ?d1 d2" using finish_in_safe Inr p by fastforce
    then have "safe d (release_dependents_quietly slot now jid None d2)"
      using s1 safe_trans release_quietly_safe [OF assms] by blast
    then show ?thesis
      using Some Inr p staged_delete_safe by (cases ok) (simp_all add: cancel_job_def)
  qed
qed

lemma release_job_row_safe:
  assumes "release_job_row slot now j st kw d = Inr d'" "slot \<in> set SLOTS"
  shows "safe d d'"
proof -
  define d1 where "d1 = fst (close_unfenced (j_id j)
      (if st = Success then Outcome_success else Outcome_failed) now d)"
  define v where "v = kw\<lparr>v_finished_at := coalesce (v_finished_at kw) (Some now),
      v_duration := coalesce (v_duration kw) (Some (map_option (\<lambda>t. total_seconds (now - t))
        (case open_attempt_in d (j_id j) of Some a \<Rightarrow> Some (a_claimed_at a) | None \<Rightarrow> j_started_at j)))\<rparr>"
  define d2 where "d2 = (if j_status j \<noteq> st then drop_entries [j_id j] d1 else d1)"
  define upd where "upd = (\<lambda>r. (in_place_row st v r)\<lparr>j_version := j_version r\<rparr>)"
  have s1: "safe d d1" unfolding d1_def by (rule close_variants_safe)
  have s2: "safe d d2" unfolding d2_def using s1 safe_trans drop_entries_safe by auto
  have s3: "safe d2 (d2\<lparr>live := update_where Q upd (live d2)\<rparr>)" for Q
    by (rule live_update_safe [where f = upd and Q = Q]) (simp_all add: upd_def)
  show ?thesis
  proof (cases "is_terminal st")
    case True
    then obtain ok where "finish_in now (j_id j) st v
        (no_fences\<lparr>fe_created_at := Some (j_created_at j)\<rparr>) d1 = Inr (d', ok)"
      using assms(1) by (auto simp: release_job_row_def Let_def d1_def v_def split: sum.splits)
    then show ?thesis using finish_in_safe True s1 safe_trans by blast
  next
    case False
    then show ?thesis
      using assms(1) safe_trans [OF s1 write_ready_safe [OF assms(2)]] safe_trans [OF s2 s3]
      by (auto simp: release_job_row_def Let_def d1_def [symmetric] v_def [symmetric]
          d2_def [symmetric] upd_def [symmetric] split: if_splits)
  qed
qed

lemma workers_safe: "safe d (d\<lparr>workers := w\<rparr>)"
  by (rule wf_frame) (simp_all add: wf_ready_def)

lemma release_claimed_job_safe:
  assumes "slot \<in> set SLOTS"
  shows "safe d (fst (release_claimed_job slot now jid created_at wpk st processed kw d))"
proof (cases "List.find (\<lambda>j. j_id j = jid \<and>
    (case created_at of None \<Rightarrow> True | Some c \<Rightarrow> j_created_at j = c)) (live d)")
  case None
  then show ?thesis using workers_safe by (simp add: release_claimed_job_def)
next
  case (Some j)
  show ?thesis
  proof (cases "release_job_row slot now j st kw d")
    case (Inl e)
    then show ?thesis using Some by (simp add: release_claimed_job_def)
  next
    case (Inr d1)
    let ?d2 = "d1\<lparr>workers := update_where (\<lambda>w. w_id w = wpk) (idle_worker now processed) (workers d1)\<rparr>"
    have s: "safe d ?d2"
      by (rule safe_trans [OF release_job_row_safe [OF Inr assms] workers_safe])
    then have "safe d (release_dependents_quietly slot now k p ?d2)" for k p
      by (rule safe_trans) (rule release_quietly_safe [OF assms])
    then show ?thesis
      using Some Inr s by (simp add: release_claimed_job_def Let_def split: option.splits)
  qed
qed

section \<open>Fenced completions\<close>

lemma handle_closed_stays:
  assumes "\<not> handle_open h d" "evolves d d'" "h_id h < next_attempt d"
  shows "\<not> handle_open h d'"
proof
  assume "handle_open h d'"
  then obtain b where b: "b \<in> set (attempts d')" "a_id b = h_id h" "a_token b = h_token h"
    "a_finished_at b = None" by (auto simp: handle_open_def)
  from assms(2) b(1) have "(\<exists>a\<in>set (attempts d). att_le a b) \<or> next_attempt d \<le> a_id b"
    by (simp add: evolves_def attempts_evolve_def)
  then obtain a where a: "a \<in> set (attempts d)" "att_le a b" using assms(3) b(2) by auto
  then have "a_id a = h_id h" "a_token a = h_token h" using b by (simp_all add: att_le_def)
  then have "a_finished_at a \<noteq> None" using assms(1) a(1) by (auto simp: handle_open_def)
  then show False using a(2) b(4) by (auto simp: att_le_def)
qed

text \<open>
  A completion that presents a handle: with the handle's attempt closed it is rejected and changes
  nothing; accepted, it closes the attempt.
\<close>

locale fenced_completion =
  fixes complete :: "'a \<Rightarrow> attempt_handle \<Rightarrow> db \<Rightarrow> db \<times> job option result"
  assumes stale_rejected: "wf_db d \<Longrightarrow> \<not> handle_open h d \<Longrightarrow> h_job_id h \<in> job_ids d \<Longrightarrow>
      complete x h d = (d, Inl JobFencingError)"
    and accepted_closes: "wf_db d \<Longrightarrow> h_job_id h \<in> job_ids d \<Longrightarrow> complete x h d = (d', Inr r) \<Longrightarrow>
      handle_open h d \<and> \<not> handle_open h d' \<and> safe d d'"
begin

lemma rejected_forever:
  assumes "wf_db d" "\<not> handle_open h d" "h_id h < next_attempt d" "h_job_id h \<in> job_ids d"
    and "evolves d d'" "wf_db d'"
  shows "complete x h d' = (d', Inl JobFencingError)"
  using stale_rejected handle_closed_stays assms by (meson evolves_def subsetD)

lemma at_most_once:
  assumes "wf_db d" "h_id h < next_attempt d" "h_job_id h \<in> job_ids d"
    and "complete x h d = (d1, Inr r)" and "evolves d1 d2" "wf_db d2"
  shows "complete y h d2 = (d2, Inl JobFencingError)"
proof (rule rejected_forever)
  have s: "safe d d1" "\<not> handle_open h d1" using accepted_closes assms by blast+
  then show "wf_db d1" "\<not> handle_open h d1" "h_job_id h \<in> job_ids d1" "h_id h < next_attempt d1"
    using assms by (auto simp: safe_def evolves_def attempts_evolve_def)
qed (use assms in auto)

end

lemma close_exact_rowcount:
  assumes "wf_db d"
  shows "snd (close_exact h oc now d) = (if handle_open h d then 1 else 0)"
proof -
  let ?P = "\<lambda>a. (a_id a = h_id h \<and> a_token a = h_token h) \<and> a_finished_at a = None"
  have "rowcount ?P (attempts d) \<le> rowcount (\<lambda>a. a_id a = h_id h) (attempts d)"
    by (rule rowcount_mono) simp
  also have "\<dots> \<le> 1"
    using assms by (intro rowcount_distinct_key) (simp add: wf_db_def wf_attempts_def)
  finally have "rowcount ?P (attempts d) \<le> 1" .
  moreover have "0 < rowcount ?P (attempts d) \<longleftrightarrow> handle_open h d"
    by (auto simp: rowcount_pos handle_open_def)
  ultimately show ?thesis by (cases "handle_open h d") (simp_all add: close_exact_def)
qed

lemma close_exact_closes: "\<not> handle_open h (fst (close_exact h oc now d))"
  by (auto simp: handle_open_def close_exact_def update_where_mem split: if_splits)
    (metis close_row_simps(4))

lemma close_attempt_fenced:
  assumes "wf_db d"
  shows "close_attempt now jid (Some h) oc d =
    (if handle_open h d then Inr (fst (close_exact h oc now d)) else Inl JobFencingError)"
proof -
  obtain d' n where c: "close_exact h oc now d = (d', n)" by fastforce
  then have "n = (if handle_open h d then 1 else 0)"
    using close_exact_rowcount [OF assms, of h oc now] by simp
  then show ?thesis using c by (simp add: close_attempt_def decide_close_def)
qed

lemma fenced_update_stale:
  "wf_db d \<Longrightarrow> \<not> handle_open h d \<Longrightarrow>
     fenced_update slot now jid ver st v (Some h) oc parent d = (d, Inl JobFencingError)"
  by (simp add: fenced_update_def close_attempt_fenced)

text \<open>The write of a completion applies whenever the row is live and the version, if given, fits.\<close>

lemma record_completion_applies:
  assumes w: "wf_db d" and row: "live_by_id jid d = Some row"
  shows "\<exists>d'. record_completion now jid ver st v d =
    Inr (d', ver = None \<or> ver = Some (j_version row))"
proof -
  have j: "row \<in> set (live d)" "j_id row = jid" using row live_by_id_Some [OF w] by auto
  have uniq: "r = row" if "r \<in> set (live d)" "j_id r = jid" for r
    using wf_live_unique [OF w that(1) j(1)] that(2) j(2) by simp
  show ?thesis
  proof (cases "st = Failed \<and> is_retry_pending (v_termination_reason v)")
    case True
    have "0 < rowcount (version_where jid ver) (live d) \<longleftrightarrow> version_where jid ver row"
      unfolding rowcount_pos using j(1) uniq version_where_def by metis
    also have "\<dots> \<longleftrightarrow> ver = None \<or> ver = Some (j_version row)"
      using j(2) by (cases ver) (auto simp: version_where_def)
    finally have "0 < rowcount (version_where jid ver) (live d) \<longleftrightarrow>
        ver = None \<or> ver = Some (j_version row)" .
    then show ?thesis using True by (simp add: record_completion_def Let_def)
  next
    case False
    have "move_where d jid (no_fences\<lparr>fe_version := ver\<rparr>) row \<longleftrightarrow>
        ver = None \<or> ver = Some (j_version row)"
      using j by (auto simp: move_where_def no_fences_def split: option.splits)
    then show ?thesis
      unfolding record_completion_def using False row by (auto simp: finish_in_cases [OF w])
  qed
qed

lemma fenced_update_accepted:
  assumes w: "wf_db d" and row: "live_by_id jid d = Some row" and st: "is_terminal st"
    and slot: "slot \<in> set SLOTS"
    and f: "fenced_update slot now jid ver st v (Some h) oc parent d = (d', Inr r)"
  shows "handle_open h d \<and> \<not> handle_open h d' \<and> safe d d' \<and> (ver = None \<or> ver = Some (j_version row))"
proof -
  have ho: "handle_open h d" using f fenced_update_stale [OF w] by (metis Inl_Inr_False Pair_inject)
  let ?d1 = "fst (close_exact h oc now d)"
  have ca: "close_attempt now jid (Some h) oc d = Inr ?d1"
    by (simp add: close_attempt_fenced [OF w] ho)
  have s1: "safe d ?d1" by (rule close_variants_safe)
  then have w1: "wf_db ?d1" using w by (simp add: safe_def)
  have row1: "live_by_id jid ?d1 = Some row"
    using row by (simp add: live_by_id_def close_exact_def)
  from record_completion_applies [OF w1 row1] obtain d2 where
    rc: "record_completion now jid ver st v ?d1 = Inr (d2, ver = None \<or> ver = Some (j_version row))"
    by blast
  have ver: "ver = None \<or> ver = Some (j_version row)"
    using f ca rc by (auto simp: fenced_update_def split: if_splits)
  have d': "d' = (if (st = Success \<or> st = Failed) \<and> \<not> is_retry_pending (v_termination_reason v)
      then release_dependents_quietly slot now jid parent d2 else d2)"
    using f ca rc ver by (auto simp: fenced_update_def Let_def)
  have s2: "safe ?d1 d'"
    unfolding d' by (rule safe_trans [OF record_completion_safe [OF rc st] release_if_safe [OF slot]])
  have lt: "h_id h < next_attempt ?d1"
    using ho w by (auto simp: handle_open_def wf_db_def wf_attempts_def close_exact_def)
  have "\<not> handle_open h d'"
    using handle_closed_stays [OF close_exact_closes _ lt] s2 w1 by (simp add: safe_def)
  then show ?thesis using ho ver safe_trans [OF s1 s2] by blast
qed

lemma job_ids_found:
  assumes "jid \<in> job_ids d"
  shows "(\<exists>row. live_by_id jid d = Some row) \<or> (live_by_id jid d = None \<and> (\<exists>j. history_by_id d jid = Some j))"
  using assms by (cases "live_by_id jid d")
    (auto simp: job_ids_def live_by_id_None history_by_id_def find_isSome)

section \<open>Success and failure are fenced completions\<close>

definition complete_success ::
  "nat \<times> timestamp \<times> string \<times> int option \<Rightarrow> attempt_handle \<Rightarrow> db \<Rightarrow> db \<times> job option result" where
  "complete_success x h d =
     (case x of (gen, now, out, ver) \<Rightarrow>
        mark_job_success (gen mod 3) now d (h_job_id h) (Output out) ver (Some h) d)"

definition complete_failure ::
  "nat \<times> timestamp \<times> (string \<times> string \<times> string) \<times> int option \<Rightarrow> attempt_handle \<Rightarrow> db \<Rightarrow>
     db \<times> job option result" where
  "complete_failure x h d =
     (case x of (gen, now, (error, tb, reason), ver) \<Rightarrow>
        mark_job_failed (gen mod 3) now d (h_job_id h) error tb ver reason (Some h) d)"

lemma mod3_slot [simp]: "n mod 3 \<in> set SLOTS"
proof -
  have "n mod 3 < 3" by simp
  then show ?thesis by (auto simp: SLOTS_def)
qed

lemma mark_success_Output: "\<exists>j. mark_success now (Output s) j0 = Inr j"
  by (simp add: mark_success_def reject_unawaited_coroutine_def)

lemma complete_success_shape:
  assumes "live_by_id (h_job_id h) d = Some row"
  shows "\<exists>v parent. complete_success (gen, now, out, ver) h d =
    fenced_update (gen mod 3) now (h_job_id h) ver Success v (Some h) Outcome_success parent d"
proof -
  obtain j where "mark_success now (Output out) (overlay_running (open_attempt_in d (h_job_id h)) row) =
      Inr j" using mark_success_Output by blast
  then show ?thesis
    using assms by (auto simp: complete_success_def mark_job_success_def get_job_by_id_def)
qed

lemma complete_failure_shape:
  assumes "live_by_id (h_job_id h) d = Some row"
  shows "\<exists>v parent. complete_failure (gen, now, (e, tb, rs), ver) h d =
    fenced_update (gen mod 3) now (h_job_id h) ver Failed v (Some h) Outcome_failed parent d"
  using assms by (simp add: complete_failure_def mark_job_failed_def get_job_by_id_def Let_def) blast

lemma complete_in_history:
  assumes "live_by_id (h_job_id h) d = None" "history_by_id d (h_job_id h) = Some j"
  shows "complete_success x h d = (d, Inl JobFencingError)"
    "complete_failure y h d = (d, Inl JobFencingError)"
  using assms
  by (auto simp: complete_success_def complete_failure_def mark_job_success_def mark_job_failed_def
      get_job_by_id_def already_finished_def split: prod.splits)

lemma complete_stale:
  assumes w: "wf_db d" and id: "h_job_id h \<in> job_ids d" and st: "\<not> handle_open h d"
  shows "complete_success x h d = (d, Inl JobFencingError)"
    "complete_failure y h d = (d, Inl JobFencingError)"
proof -
  obtain gen now out ver where x: "x = (gen, now, out, ver)" by (cases x)
  obtain gen' now' e tb rs ver' where y: "y = (gen', now', (e, tb, rs), ver')" by (cases y) auto
  note stale = fenced_update_stale [OF w st]
  show "complete_success x h d = (d, Inl JobFencingError)"
    using job_ids_found [OF id]
  proof (elim disjE exE conjE)
    fix row assume "live_by_id (h_job_id h) d = Some row"
    from complete_success_shape [OF this, of gen now out ver] show ?thesis using stale x by auto
  qed (rule complete_in_history(1))
  show "complete_failure y h d = (d, Inl JobFencingError)"
    using job_ids_found [OF id]
  proof (elim disjE exE conjE)
    fix row assume "live_by_id (h_job_id h) d = Some row"
    from complete_failure_shape [OF this, of gen' now' e tb rs ver'] show ?thesis using stale y by auto
  qed (rule complete_in_history(2))
qed

lemma complete_success_accepted:
  assumes w: "wf_db d" and id: "h_job_id h \<in> job_ids d" and a: "complete_success x h d = (d', Inr r)"
  shows "handle_open h d \<and> \<not> handle_open h d' \<and> safe d d'"
proof -
  obtain gen now out ver where x: "x = (gen, now, out, ver)" by (cases x)
  obtain row where row: "live_by_id (h_job_id h) d = Some row"
    using job_ids_found [OF id] complete_in_history(1) [of h d _ x] a by auto
  from complete_success_shape [OF row, of gen now out ver]
  show ?thesis using a x fenced_update_accepted [OF w row _ mod3_slot] is_terminal_simps by metis
qed

lemma complete_failure_accepted:
  assumes w: "wf_db d" and id: "h_job_id h \<in> job_ids d" and a: "complete_failure x h d = (d', Inr r)"
  shows "handle_open h d \<and> \<not> handle_open h d' \<and> safe d d'"
proof -
  obtain gen now e tb rs ver where x: "x = (gen, now, (e, tb, rs), ver)" by (cases x) auto
  obtain row where row: "live_by_id (h_job_id h) d = Some row"
    using job_ids_found [OF id] complete_in_history(2) [of h d _ x] a by auto
  from complete_failure_shape [OF row, of gen now e tb rs ver]
  show ?thesis using a x fenced_update_accepted [OF w row _ mod3_slot] is_terminal_simps by metis
qed

interpretation success: fenced_completion complete_success
  by unfold_locales (use complete_stale(1) complete_success_accepted in blast)+

interpretation failure: fenced_completion complete_failure
  by unfold_locales (use complete_stale(2) complete_failure_accepted in blast)+

end
