(* ===== verification/Sq_Enqueue.thy ===== *)
theory Sq_Enqueue
  imports Sq_Complete_Laws
begin

text \<open>
  Where jobs come from: \<^verbatim>\<open>create_job\<close>, \<^verbatim>\<open>_build_queued_job\<close> and \<^verbatim>\<open>retry_failed_jobs\<close> of
  \<^verbatim>\<open>fastapi_sqlery/backend.py\<close>, the retry of \<^verbatim>\<open>core/worker.py\<close> (\<^verbatim>\<open>_retry_job\<close>) and the promotion of
  staged jobs of \<^verbatim>\<open>core/scheduler.py\<close>. Ids come from the UUID generator and are arguments.
\<close>

section \<open>Creating jobs\<close>

definition or_empty :: "'a list option \<Rightarrow> 'a list" where
  "or_empty xs = (case xs of None \<Rightarrow> [] | Some ys \<Rightarrow> ys)"

text \<open>The constructor call \<^verbatim>\<open>QueuedJob(...)\<close> of \<^verbatim>\<open>create_job\<close>, with the column defaults of the model.\<close>

definition queued_job :: "job_id \<Rightarrow> timestamp \<Rightarrow> job_spec \<Rightarrow> job" where
  "queued_job new_id now s =
     \<lparr>j_id = new_id, j_task_path = s_task_path s, j_kwargs = s_kwargs s,
      j_queue_name = s_queue_name s, j_priority = s_priority s, j_status = Queued,
      j_parent_job_id = s_parent_job_id s,
      j_retry_count = (case s_retry_count s of Some n \<Rightarrow> n | None \<Rightarrow> 0),
      j_max_retries = s_max_retries s, j_retry_backoff = s_retry_backoff s,
      j_allow_parallel = s_allow_parallel s, j_timeout_seconds = s_timeout_seconds s,
      j_worker_pid = None, j_child_pid = None, j_job_name = s_job_name s,
      j_tags = or_empty (s_tags s), j_retry_intervals = s_retry_intervals s, j_meta = s_meta s,
      j_dependencies = or_empty (s_dependencies s), j_on_success_path = s_on_success_path s,
      j_on_failure_path = s_on_failure_path s, j_ttl = s_ttl s, j_result_ttl = s_result_ttl s,
      j_failure_ttl = s_failure_ttl s, j_version = 0, j_runs = [],
      j_scheduled_task_id = s_scheduled_task_id s, j_worker_id = None, j_created_at = now,
      j_scheduled_at = s_scheduled_at s, j_started_at = None, j_finished_at = None,
      j_duration_seconds = None, j_output = [], j_error = [], j_traceback = [],
      j_termination_reason = []\<rparr>"

text \<open>Adding the object to the session: the flush hook writes the ready entry, then the row.\<close>

definition add_job :: "nat \<Rightarrow> job \<Rightarrow> db \<Rightarrow> db" where
  "add_job slot j d = (let d1 = ensure_entry slot True j d in d1\<lparr>live := live d1 @ [j]\<rparr>)"

definition replace_named :: "nat \<Rightarrow> timestamp \<Rightarrow> string \<Rightarrow> db \<Rightarrow> db" where
  "replace_named slot now name d =
     (let replaced = map j_id (filter (\<lambda>j. j_job_name j = Some name) (live d));
          d1 = drop_entries replaced d
      in release_each slot now replaced
           (d1\<lparr>live := delete_where (\<lambda>j. j_job_name j = Some name) (live d1)\<rparr>))"

definition staging_row :: "job_id \<Rightarrow> timestamp \<Rightarrow> timestamp \<Rightarrow> job_spec \<Rightarrow> staged_job" where
  "staging_row new_id now at_time s =
     \<lparr>sj_id = new_id, sj_created_at = now, sj_queue_name = s_queue_name s,
      sj_task_path = s_task_path s,
      sj_payload = Full_payload (s_kwargs s)
        \<lparr>p_retry_backoff = s_retry_backoff s, p_allow_parallel = s_allow_parallel s,
         p_timeout_seconds = s_timeout_seconds s,
         p_retry_count = (case s_retry_count s of Some n \<Rightarrow> n | None \<Rightarrow> 0),
         p_scheduled_task_id = s_scheduled_task_id s, p_job_name = s_job_name s,
         p_retry_intervals = s_retry_intervals s, p_meta = s_meta s,
         p_dependencies = or_empty (s_dependencies s), p_on_success_path = s_on_success_path s,
         p_on_failure_path = s_on_failure_path s, p_ttl = s_ttl s,
         p_result_ttl = s_result_ttl s, p_failure_ttl = s_failure_ttl s,
         p_parent_job_id = s_parent_job_id s, p_tags = or_empty (s_tags s)\<rparr>,
      sj_scheduled_at = at_time, sj_priority = s_priority s, sj_max_retries = s_max_retries s\<rparr>"

definition far_future :: "bool \<Rightarrow> int \<Rightarrow> timestamp \<Rightarrow> job_spec \<Rightarrow> bool" where
  "far_future partitioned threshold_days now s \<longleftrightarrow>
     partitioned \<and>
     (case s_scheduled_at s of None \<Rightarrow> False | Some t \<Rightarrow> t > now + seconds (86400 * threshold_days))"

definition create_job ::
  "bool \<Rightarrow> int \<Rightarrow> nat \<Rightarrow> timestamp \<Rightarrow> job_id \<Rightarrow> job_spec \<Rightarrow> db \<Rightarrow> db \<times> (staged_job + job)" where
  "create_job partitioned threshold_days slot now new_id s d =
     (let d1 = (case s_job_name s of
                  Some n \<Rightarrow> if n \<noteq> [] then replace_named slot now n d else d
                | None \<Rightarrow> d)
      in if far_future partitioned threshold_days now s then
           (let row = staging_row new_id now (the (s_scheduled_at s)) s
            in (d1\<lparr>staged := staged d1 @ [row]\<rparr>, Inl row))
         else (let j = queued_job new_id now s in (add_job slot j d1, Inr j)))"

text \<open>The constructor used when a schedule fires: \<^verbatim>\<open>tags\<close> is not among its arguments.\<close>

definition build_queued_job :: "job_id \<Rightarrow> timestamp \<Rightarrow> job_spec \<Rightarrow> job" where
  "build_queued_job new_id now s = queued_job new_id now (s\<lparr>s_tags := None\<rparr>)"

definition retry_copy :: "job_id \<Rightarrow> timestamp \<Rightarrow> job \<Rightarrow> job" where
  "retry_copy new_id now old =
     queued_job new_id now
       \<lparr>s_task_path = j_task_path old, s_kwargs = dict_or_empty (j_kwargs old),
        s_queue_name = j_queue_name old, s_priority = j_priority old, s_scheduled_at = None,
        s_max_retries = j_max_retries old, s_retry_backoff = j_retry_backoff old,
        s_allow_parallel = j_allow_parallel old, s_timeout_seconds = j_timeout_seconds old,
        s_retry_count = Some 0, s_scheduled_task_id = j_scheduled_task_id old,
        s_job_name = j_job_name old, s_retry_intervals = j_retry_intervals old,
        s_meta = j_meta old, s_dependencies = Some (j_dependencies old),
        s_on_success_path = j_on_success_path old, s_on_failure_path = j_on_failure_path old,
        s_ttl = j_ttl old, s_result_ttl = j_result_ttl old, s_failure_ttl = j_failure_ttl old,
        s_parent_job_id = Some (j_id old), s_tags = Some (j_tags old)\<rparr>"

definition retryable_failures :: "string option \<Rightarrow> nat option \<Rightarrow> db \<Rightarrow> job list" where
  "retryable_failures queue max_jobs d =
     (let sel = sort_key (\<lambda>j. (case j_finished_at j of Some t \<Rightarrow> t | None \<Rightarrow> 0, j_id j))
                  (filter (\<lambda>j. j_status j = Failed \<and> \<not> has_retry_child d (j_id j) \<and>
                     (case queue of
                        Some q \<Rightarrow> q \<noteq> [] \<longrightarrow> j_queue_name j = q | None \<Rightarrow> True)) (history d))
      in case max_jobs of Some n \<Rightarrow> if n \<noteq> 0 then take n sel else sel | None \<Rightarrow> sel)"

fun add_jobs :: "nat \<Rightarrow> job list \<Rightarrow> db \<Rightarrow> db" where
  "add_jobs slot [] d = d"
| "add_jobs slot (j # js) d = add_jobs slot js (add_job slot j d)"

text \<open>\<open>new_id k\<close> is the id drawn for the copy of the failed job \<open>k\<close>.\<close>

definition retry_failed_jobs ::
  "nat \<Rightarrow> timestamp \<Rightarrow> (job_id \<Rightarrow> job_id) \<Rightarrow> string option \<Rightarrow> nat option \<Rightarrow> db \<Rightarrow> db \<times> nat" where
  "retry_failed_jobs slot now new_id queue max_jobs d =
     (let failed = retryable_failures queue max_jobs d
      in (add_jobs slot (map (\<lambda>old. retry_copy (new_id (j_id old)) now old) failed) d,
          length failed))"

section \<open>Promotion of staged jobs\<close>

definition promoted_spec :: "staged_job \<Rightarrow> job_spec" where
  "promoted_spec s =
     (let base = (\<lambda>kw p.
            \<lparr>s_task_path = sj_task_path s, s_kwargs = kw, s_queue_name = sj_queue_name s,
             s_priority = sj_priority s, s_scheduled_at = Some (sj_scheduled_at s),
             s_max_retries = sj_max_retries s, s_retry_backoff = p_retry_backoff p,
             s_allow_parallel = p_allow_parallel p, s_timeout_seconds = p_timeout_seconds p,
             s_retry_count = Some (p_retry_count p),
             s_scheduled_task_id = p_scheduled_task_id p, s_job_name = p_job_name p,
             s_retry_intervals = p_retry_intervals p, s_meta = p_meta p,
             s_dependencies = Some (p_dependencies p),
             s_on_success_path = p_on_success_path p, s_on_failure_path = p_on_failure_path p,
             s_ttl = p_ttl p, s_result_ttl = p_result_ttl p, s_failure_ttl = p_failure_ttl p,
             s_parent_job_id = p_parent_job_id p, s_tags = Some (p_tags p)\<rparr>)
      in case sj_payload s of
           Full_payload kw p \<Rightarrow> base kw p
         | Legacy_payload kw \<Rightarrow>
             base kw
               \<lparr>p_retry_backoff = 1, p_allow_parallel = False, p_timeout_seconds = None,
                p_retry_count = 0, p_scheduled_task_id = None, p_job_name = None,
                p_retry_intervals = None, p_meta = None, p_dependencies = [],
                p_on_success_path = [], p_on_failure_path = [], p_ttl = None,
                p_result_ttl = None, p_failure_ttl = None, p_parent_job_id = None,
                p_tags = []\<rparr>)"

definition promoted_job :: "staged_job \<Rightarrow> job" where
  "promoted_job s = queued_job (sj_id s) (sj_created_at s) (promoted_spec s)"

text \<open>
  \<open>leader\<close>: this daemon got the advisory lock; \<open>locked s\<close>: another transaction holds the row
  (skipped). The deletes and the inserts are one transaction; the ready entries go to \<open>slot\<close>.
\<close>

definition PROMOTION_LOOKAHEAD_SECONDS :: int where
  "PROMOTION_LOOKAHEAD_SECONDS = 30"

definition promote_due_scheduled_jobs ::
  "bool \<Rightarrow> (staged_job \<Rightarrow> bool) \<Rightarrow> nat \<Rightarrow> timestamp \<Rightarrow> db \<Rightarrow> db \<times> nat" where
  "promote_due_scheduled_jobs leader locked slot now d =
     (if \<not> leader then (d, 0)
      else
        (let P = (\<lambda>s. sj_scheduled_at s \<le> now + seconds PROMOTION_LOOKAHEAD_SECONDS \<and> \<not> locked s);
             rows = filter P (staged d);
             js = map promoted_job rows
         in (d\<lparr>staged := delete_where P (staged d), live := live d @ js,
               ready := insert_ready (map (ready_values slot) js) (ready d)\<rparr>, length rows)))"

section \<open>The retry of a failed job\<close>

text \<open>
  \<^verbatim>\<open>_retry_job\<close>: an existing retry is reused; otherwise the retry row is created, scheduled after
  the delay, and the failed job is archived. \<open>timedelta(seconds=x)\<close> rounds to the nearest
  microsecond, halves to even.
\<close>

record retry_env =
  re_uniform :: "rat \<Rightarrow> rat \<Rightarrow> rat"
  re_load_task :: "string \<Rightarrow> retry_policy option"
  re_cap :: "rat option"
  re_jitter :: bool
  re_partitioned :: bool
  re_threshold_days :: int

definition retry_delay_seconds :: "retry_env \<Rightarrow> job \<Rightarrow> exc option \<Rightarrow> rat option \<Rightarrow> rat" where
  "retry_delay_seconds env j e countdown =
     shape_retry_delay (re_uniform env) (re_load_task env) (re_jitter env)
       (compute_retry_delay (re_uniform env) (re_cap env) (re_jitter env)
          (if j_retry_backoff j = 0 then 1 else j_retry_backoff j) (j_retry_count j)
          (j_retry_intervals j))
       j (case countdown of Some c \<Rightarrow> Some c | None \<Rightarrow> retry_countdown e)"

definition retry_spec :: "timestamp \<Rightarrow> job \<Rightarrow> job_spec" where
  "retry_spec at_time j =
     \<lparr>s_task_path = j_task_path j, s_kwargs = dict_or_empty (j_kwargs j),
      s_queue_name = j_queue_name j, s_priority = j_priority j, s_scheduled_at = Some at_time,
      s_max_retries = j_max_retries j, s_retry_backoff = j_retry_backoff j,
      s_allow_parallel = j_allow_parallel j, s_timeout_seconds = j_timeout_seconds j,
      s_retry_count = Some (j_retry_count j + 1), s_scheduled_task_id = None,
      s_job_name = retry_name (j_job_name j) (j_retry_count j),
      s_retry_intervals = j_retry_intervals j, s_meta = j_meta j,
      s_dependencies = Some (j_dependencies j), s_on_success_path = j_on_success_path j,
      s_on_failure_path = j_on_failure_path j, s_ttl = None, s_result_ttl = j_result_ttl j,
      s_failure_ttl = j_failure_ttl j, s_parent_job_id = Some (j_id j),
      s_tags = Some (j_tags j)\<rparr>"

definition quiet :: "db result \<Rightarrow> db \<Rightarrow> db" where
  "quiet r d = (case r of Inl _ \<Rightarrow> d | Inr d' \<Rightarrow> d')"

definition finish_retry_bookkeeping :: "timestamp \<Rightarrow> job_id \<Rightarrow> db \<Rightarrow> db" where
  "finish_retry_bookkeeping now jid d =
     (let d1 = quiet (mark_job_archived now jid d) d
      in quiet (settle_retry_pending now jid d1) d1)"

text \<open>\<^verbatim>\<open>_retry_job\<close>: the look-up of an existing retry is a transaction of its own; \<open>existing\<close> is what it read, \<open>d\<close>
  the database when the call goes on. \<open>retry_job\<close> is a call that no other session interrupts.\<close>

definition retry_with ::
  "retry_env \<Rightarrow> nat \<Rightarrow> timestamp \<Rightarrow> job_id \<Rightarrow> job \<Rightarrow> exc option \<Rightarrow> rat option \<Rightarrow> job option \<Rightarrow> db \<Rightarrow>
     db \<times> (staged_job + job)" where
  "retry_with env slot now new_id j e countdown existing d =
     (case existing of
        Some r \<Rightarrow> (finish_retry_bookkeeping now (j_id j) d, Inr r)
      | None \<Rightarrow>
          (let at_time = now + timedelta_us (retry_delay_seconds env j e countdown);
               (d1, created) = create_job (re_partitioned env) (re_threshold_days env) slot now
                                 new_id (retry_spec at_time j) d
           in (finish_retry_bookkeeping now (j_id j) d1, created)))"

definition retry_job ::
  "retry_env \<Rightarrow> nat \<Rightarrow> timestamp \<Rightarrow> job_id \<Rightarrow> job \<Rightarrow> exc option \<Rightarrow> rat option \<Rightarrow> db \<Rightarrow>
     db \<times> (staged_job + job)" where
  "retry_job env slot now new_id j e countdown d =
     retry_with env slot now new_id j e countdown (latest_retry d (j_id j)) d"

text \<open>\<^verbatim>\<open>recover_lost_retries\<close>: the failures that wait for their retry since before \<open>cutoff\<close>.\<close>

fun recover_each ::
  "retry_env \<Rightarrow> nat \<Rightarrow> timestamp \<Rightarrow> (job_id \<Rightarrow> job_id) \<Rightarrow> job list \<Rightarrow> nat \<Rightarrow> db \<Rightarrow> db \<times> nat" where
  "recover_each env slot now new_id [] recovered d = (d, recovered)"
| "recover_each env slot now new_id (j # js) recovered d =
     (if retry_budget_left j
      then recover_each env slot now new_id js (recovered + 1)
             (fst (retry_job env slot now (new_id (j_id j)) j None None d))
      else recover_each env slot now new_id js recovered
             (quiet (settle_retry_pending now (j_id j) d) d))"

definition recover_lost_retries ::
  "retry_env \<Rightarrow> nat \<Rightarrow> timestamp \<Rightarrow> (job_id \<Rightarrow> job_id) \<Rightarrow> timestamp \<Rightarrow> nat \<Rightarrow> db \<Rightarrow> db \<times> nat" where
  "recover_lost_retries env slot now new_id cutoff limit d =
     recover_each env slot now new_id (get_jobs_pending_retry cutoff limit d) 0 d"

section \<open>Laws\<close>

lemma queued_job_simps [simp]:
  "j_id (queued_job k now s) = k" "j_created_at (queued_job k now s) = now"
  "j_status (queued_job k now s) = Queued" "j_version (queued_job k now s) = 0"
  "j_parent_job_id (queued_job k now s) = s_parent_job_id s"
  "j_job_name (queued_job k now s) = s_job_name s"
  "j_max_retries (queued_job k now s) = s_max_retries s"
  by (simp_all add: queued_job_def)

definition fresh_id :: "job_id \<Rightarrow> db \<Rightarrow> bool" where
  "fresh_id k d \<longleftrightarrow> k \<notin> job_ids d \<and> k \<notin> sj_id ` set (staged d)"

lemma insert_live_safe:
  assumes "fresh_id (j_id j) d"
  shows "safe d (d\<lparr>live := live d @ [j]\<rparr>)"
  using assms
  by (auto simp: safe_def wf_db_def wf_jobs_def wf_attempts_def wf_ready_def evolves_def
      history_grows_def attempts_evolve_def job_ids_def fresh_id_def intro: att_le_refl)

lemma ensure_entry_frame [simp]:
  "live (ensure_entry slot fresh j d) = live d" "history (ensure_entry slot fresh j d) = history d"
  "attempts (ensure_entry slot fresh j d) = attempts d"
  "staged (ensure_entry slot fresh j d) = staged d"
  "is_running (ensure_entry slot fresh j d) = is_running d"
  by (simp_all add: ensure_entry_def)

lemma add_job_safe:
  assumes "fresh_id (j_id j) d" "slot \<in> set SLOTS"
  shows "safe d (add_job slot j d)"
proof -
  have "fresh_id (j_id j) (ensure_entry slot True j d)"
    using assms(1) by (simp add: fresh_id_def job_ids_def)
  from safe_trans [OF ensure_entry_safe [OF assms(2)] insert_live_safe [OF this]]
  show ?thesis by (simp add: add_job_def Let_def)
qed

text \<open>Staging a job and promoting it later gives the job that would have been queued at once.\<close>

lemma promoted_staged:
  assumes "s_scheduled_at s = Some t"
  shows "promoted_job (staging_row k now t s) = queued_job k now s"
  using assms by (simp add: promoted_job_def staging_row_def promoted_spec_def queued_job_def or_empty_def)

end
