(* ===== verification/Sq_Maintain.thy ===== *)
theory Sq_Maintain
  imports Sq_Enqueue
begin

text \<open>
  The periodic sweep (\<^verbatim>\<open>maintain_ready_queue\<close> and \<^verbatim>\<open>settle_finished_jobs\<close> of
  \<^verbatim>\<open>fastapi_sqlery/backend.py\<close>): terminal rows stranded in the live table move to history, queued
  jobs without an entry get one, stale entries go, and a page of blocked jobs is judged again.
\<close>

section \<open>Settling\<close>

fun settle_each :: "nat \<Rightarrow> timestamp \<Rightarrow> job list \<Rightarrow> nat \<Rightarrow> db \<Rightarrow> db \<times> nat" where
  "settle_each slot now [] moved d = (d, moved)"
| "settle_each slot now (j # js) moved d =
     (case settle_status (j_status j) (Some (j_termination_reason j)) (has_retry_child d (j_id j)) of
        None \<Rightarrow> settle_each slot now js moved d
      | Some st \<Rightarrow>
          (case finish_in now (j_id j) st
                  (no_values\<lparr>v_termination_reason :=
                     Some (settled_termination_reason (Some (j_termination_reason j)))\<rparr>)
                  (no_fences\<lparr>fe_created_at := Some (j_created_at j),
                             fe_status := Some [j_status j]\<rparr>) d of
             Inl _ \<Rightarrow> (d, moved)
           | Inr (d1, ok) \<Rightarrow>
               if ok then settle_each slot now js (moved + 1)
                            (release_dependents_quietly slot now (j_id j) (j_parent_job_id j) d1)
               else settle_each slot now js moved d1))"

definition settle_finished_jobs :: "nat \<Rightarrow> timestamp \<Rightarrow> timestamp \<Rightarrow> nat \<Rightarrow> db \<Rightarrow> db \<times> nat" where
  "settle_finished_jobs slot now cutoff limit d =
     settle_each slot now (stray_terminal limit cutoff d) 0 d"

section \<open>Repairing the ready table\<close>

definition in_queues :: "string list \<Rightarrow> string \<Rightarrow> bool" where
  "in_queues qs q \<longleftrightarrow> qs = [] \<or> q \<in> set qs"

definition in_ready :: "db \<Rightarrow> job_id \<Rightarrow> bool" where
  "in_ready d k \<longleftrightarrow> (\<exists>e\<in>set (ready d). r_slot e \<in> set SLOTS \<and> r_job_id e = k)"

definition in_blocked :: "db \<Rightarrow> job_id \<Rightarrow> bool" where
  "in_blocked d k \<longleftrightarrow> (\<exists>b\<in>set (blocked d). b_job_id b = k)"

definition lost_jobs :: "string list \<Rightarrow> nat \<Rightarrow> db \<Rightarrow> job list" where
  "lost_jobs qs limit d =
     take limit (filter (\<lambda>j. waiting_clause d j \<and> \<not> in_ready d (j_id j) \<and> \<not> in_blocked d (j_id j) \<and>
                             in_queues qs (j_queue_name j)) (live d))"

definition entry_live :: "db \<Rightarrow> ready_entry \<Rightarrow> bool" where
  "entry_live d e \<longleftrightarrow>
     (\<exists>j\<in>set (live d). j_id j = r_job_id e \<and> j_created_at j = r_created_at e \<and> waiting_clause d j)"

definition stale_entries :: "string list \<Rightarrow> nat \<Rightarrow> (ready_entry \<Rightarrow> bool) \<Rightarrow> db \<Rightarrow> ready_entry list" where
  "stale_entries qs limit locked d =
     take limit (filter (\<lambda>e. \<not> entry_live d e \<and> in_queues qs (r_queue_name e) \<and> \<not> locked e) (ready d))"

fun delete_entries :: "ready_entry list \<Rightarrow> db \<Rightarrow> db" where
  "delete_entries [] d = d"
| "delete_entries (e # es) d = delete_entries es (fst (delete_entry (r_slot e) (r_job_id e) d))"

definition repair_ready ::
  "string list \<Rightarrow> nat \<Rightarrow> (ready_entry \<Rightarrow> bool) \<Rightarrow> nat \<Rightarrow> db \<Rightarrow> db \<times> nat" where
  "repair_ready qs limit locked slot d =
     (let lost = lost_jobs qs limit d;
          d1 = (if lost \<noteq> [] then write_ready slot False lost d else d)
      in (delete_entries (stale_entries qs limit locked d1) d1, length lost))"

definition blocked_page :: "nat \<Rightarrow> job_id \<Rightarrow> db \<Rightarrow> (job_id \<times> timestamp) list" where
  "blocked_page limit after d =
     take limit
       (sort_key fst
          (remdups (map (\<lambda>b. (b_job_id b, b_created_at b)) (filter (\<lambda>b. b_job_id b > after) (blocked d)))))"

record sweep_result =
  sw_restored :: nat
  sw_rechecked :: nat
  sw_settled :: nat
  sw_cursor :: job_id

definition maintain_ready_queue ::
  "string list \<Rightarrow> nat \<Rightarrow> job_id \<Rightarrow> timestamp \<Rightarrow> (ready_entry \<Rightarrow> bool) \<Rightarrow> nat \<Rightarrow> timestamp \<Rightarrow> db \<Rightarrow>
     db \<times> sweep_result" where
  "maintain_ready_queue qs limit after cutoff locked slot now d =
     (let (d1, settled) = settle_finished_jobs slot now cutoff limit d;
          (d2, restored) = repair_ready qs limit locked slot d1;
          page = blocked_page limit after d2
      in (recheck_each slot now page d2,
          \<lparr>sw_restored = restored, sw_rechecked = length page, sw_settled = settled,
           sw_cursor = (if length page \<ge> limit \<and> page \<noteq> [] then fst (last page) else 0)\<rparr>))"

section \<open>Laws\<close>

lemma settle_each_safe:
  assumes "slot \<in> set SLOTS"
  shows "safe d (fst (settle_each slot now js moved d))"
  using assms
proof (induction slot now js moved d rule: settle_each.induct)
  case (2 slot now j js moved d)
  show ?case
  proof (cases "settle_status (j_status j) (Some (j_termination_reason j)) (has_retry_child d (j_id j))")
    case None
    then show ?thesis using 2 by simp
  next
    case (Some st)
    let ?f = "finish_in now (j_id j) st
      (no_values\<lparr>v_termination_reason :=
         Some (settled_termination_reason (Some (j_termination_reason j)))\<rparr>)
      (no_fences\<lparr>fe_created_at := Some (j_created_at j), fe_status := Some [j_status j]\<rparr>) d"
    show ?thesis
    proof (cases ?f)
      case (Inl e)
      then show ?thesis using Some by simp
    next
      case (Inr p)
      obtain d1 ok where p: "p = (d1, ok)" by (cases p)
      have s: "safe d d1" by (rule finish_in_safe [OF Inr [unfolded p] settle_status_terminal [OF Some]])
      show ?thesis
      proof (cases ok)
        case True
        note IH = "2.IH"(2) [OF Some Inr p [symmetric] True "2.prems"]
        show ?thesis
          using Some Inr p True
            safe_trans [OF safe_trans [OF s release_quietly_safe [OF "2.prems"]] IH] by simp
      next
        case False
        note IH = "2.IH"(3) [OF Some Inr p [symmetric] False "2.prems"]
        show ?thesis using Some Inr p False safe_trans [OF s IH] by simp
      qed
    qed
  qed
qed simp

lemma delete_entries_safe: "safe d (delete_entries es d)"
  by (induction es d rule: delete_entries.induct) (auto intro: safe_trans)

lemma repair_ready_safe:
  assumes "slot \<in> set SLOTS"
  shows "safe d (fst (repair_ready qs limit locked slot d))"
  unfolding repair_ready_def Let_def fst_conv
  by (rule safe_trans [OF _ delete_entries_safe]) (simp add: write_ready_safe [OF assms])

lemma maintain_safe:
  assumes "slot \<in> set SLOTS"
  shows "safe d (fst (maintain_ready_queue qs limit after cutoff locked slot now d))"
proof -
  let ?d1 = "fst (settle_finished_jobs slot now cutoff limit d)"
  let ?d2 = "fst (repair_ready qs limit locked slot ?d1)"
  have "safe d ?d1" unfolding settle_finished_jobs_def by (rule settle_each_safe [OF assms])
  from safe_trans [OF this repair_ready_safe [OF assms]]
  have "safe d ?d2" .
  from safe_trans [OF this recheck_each_safe [OF assms]]
  show ?thesis by (simp add: maintain_ready_queue_def Let_def case_prod_unfold)
qed

text \<open>Entries carry the creation time of their job.\<close>

definition ready_dated :: "db \<Rightarrow> bool" where
  "ready_dated d \<longleftrightarrow>
     (\<forall>e\<in>set (ready d). \<forall>j\<in>set (live d). j_id j = r_job_id e \<longrightarrow> j_created_at j = r_created_at e)"

lemma delete_entries_frame [simp]:
  "live (delete_entries es d) = live d" "blocked (delete_entries es d) = blocked d"
  "is_running (delete_entries es d) = is_running d"
  by (induction es d rule: delete_entries.induct) simp_all

lemma delete_entries_keeps:
  "x \<in> set (ready d) \<Longrightarrow> (\<And>e. e \<in> set es \<Longrightarrow> ready_key e \<noteq> ready_key x) \<Longrightarrow>
     x \<in> set (ready (delete_entries es d))"
proof (induction es d rule: delete_entries.induct)
  case (2 e es d)
  have "ready_key e \<noteq> ready_key x" using "2.prems"(2) by simp
  then have "x \<in> set (ready (fst (delete_entry (r_slot e) (r_job_id e) d)))"
    using "2.prems"(1) by (auto simp: ready_key_def)
  then show ?case using 2 by simp
qed simp

lemma write_ready_entries:
  assumes "e \<in> set (ready (write_ready slot False js d))"
  shows "e \<in> set (ready d) \<or> (\<exists>j\<in>set js. e = ready_values slot j)"
  using insert_ready_set [of e "map (ready_values slot) (filter (\<lambda>j. \<not> is_running d (j_id j)) js)" "ready d"]
    assms by (auto simp: write_ready_def)

lemma write_ready_has:
  assumes "j \<in> set js" "\<not> is_running d (j_id j)"
  shows "\<exists>e\<in>set (ready (write_ready slot False js d)). r_job_id e = j_id j"
proof -
  let ?es = "map (ready_values slot) (filter (\<lambda>j. \<not> is_running d (j_id j)) js)"
  have "ready_key (ready_values slot j) \<in> ready_key ` set (insert_ready ?es (ready d))"
    by (rule insert_ready_key) (use assms in auto)
  then show ?thesis by (auto simp: write_ready_def ready_key_def ready_values_def)
qed

text \<open>One unrestricted sweep gives every waiting job an entry again.\<close>

lemma repair_covers:
  assumes w: "wf_db d" and dated: "ready_dated d" and lim: "length (live d) \<le> limit"
    and slot: "slot \<in> set SLOTS"
  shows "covered (fst (repair_ready [] limit locked slot d))"
proof -
  define lost where "lost = lost_jobs [] limit d"
  define d1 where "d1 = (if lost \<noteq> [] then write_ready slot False lost d else d)"
  have fr: "live d1 = live d" "blocked d1 = blocked d" "is_running d1 = is_running d"
    by (simp_all add: d1_def)
  have "safe d d1" using write_ready_safe [OF slot] by (simp add: d1_def)
  then have w1: "wf_db d1" using w by (simp add: safe_def)
  have lost_all: "set lost = {j \<in> set (live d). waiting_clause d j \<and> \<not> in_ready d (j_id j) \<and>
      \<not> in_blocked d (j_id j)}"
  proof -
    have "length (filter P (live d)) \<le> limit" for P using lim le_trans length_filter_le by blast
    then show ?thesis by (auto simp: lost_def lost_jobs_def in_queues_def)
  qed
  have dated1: "j_created_at j = r_created_at e"
    if "e \<in> set (ready d1)" "j \<in> set (live d)" "j_id j = r_job_id e" for e j
  proof -
    from that(1) have "e \<in> set (ready d) \<or> (\<exists>x\<in>set lost. e = ready_values slot x)"
      using write_ready_entries by (auto simp: d1_def split: if_splits)
    then show ?thesis
    proof (elim disjE bexE)
      fix x assume "x \<in> set lost" "e = ready_values slot x"
      then have "x \<in> set (live d)" "j_id x = j_id j" using lost_all that(3) by (auto simp: ready_values_def)
      then have "x = j" using wf_live_unique [OF w _ that(2)] by simp
      then show ?thesis using \<open>e = ready_values slot x\<close> by (simp add: ready_values_def)
    qed (use dated that in \<open>auto simp: ready_dated_def\<close>)
  qed
  let ?d2 = "delete_entries (stale_entries [] limit locked d1) d1"
  have cov: "has_entry ?d2 (j_id j)" if j: "j \<in> set (live d)" "waiting_clause d j" for j
  proof (cases "in_blocked d (j_id j)")
    case True
    then show ?thesis by (auto simp: has_entry_def in_blocked_def fr)
  next
    case False
    have "\<exists>e\<in>set (ready d1). r_job_id e = j_id j"
    proof (cases "in_ready d (j_id j)")
      case True
      then obtain e where "e \<in> set (ready d)" "r_job_id e = j_id j" by (auto simp: in_ready_def)
      then show ?thesis
        by (auto simp: d1_def write_ready_def intro: insert_ready_keeps)
    next
      case nr: False
      then have "j \<in> set lost" using lost_all j False by simp
      then show ?thesis
        using write_ready_has [of j lost d slot] j(2) by (auto simp: d1_def waiting_clause_def)
    qed
    then obtain e where e: "e \<in> set (ready d1)" "r_job_id e = j_id j" by blast
    have "entry_live d1 e"
      using e j dated1 [OF e(1) j(1)] by (auto simp: entry_live_def waiting_clause_def fr)
    have "ready_key x \<noteq> ready_key e" if "x \<in> set (stale_entries [] limit locked d1)" for x
    proof
      assume "ready_key x = ready_key e"
      moreover have "x \<in> set (ready d1)" "\<not> entry_live d1 x"
        using that set_take_subset [of limit] by (auto simp: stale_entries_def dest!: in_set_takeD)
      ultimately have "x = e"
        using e(1) w1 by (auto simp: wf_db_def wf_ready_def dest: distinct_key_unique)
      then show False using \<open>\<not> entry_live d1 x\<close> \<open>entry_live d1 e\<close> by simp
    qed
    then show ?thesis
      using delete_entries_keeps [OF e(1)] e(2) by (auto simp: has_entry_def)
  qed
  have "fst (repair_ready [] limit locked slot d) = ?d2"
    by (simp add: repair_ready_def Let_def lost_def d1_def)
  then show ?thesis using cov by (auto simp: covered_def covered_but_def waiting_clause_def fr)
qed

end
