(* ===== verification/Sq_System.thy ===== *)
theory Sq_System
  imports Sq_Maintain
begin

text \<open>
  The queue as a transition system. A step is one committed transaction of the backend, with any
  arguments: the transactions of all workers, daemons and clients interleave in any order, and an
  operation that spans several transactions (a completion followed by the release of the
  dependents) is a sequence of steps with others in between. A claim iteration is one step, with
  whatever cursor and lists its scan has reached. The relation over-approximates the workers: the values
  of a completion, its fence and its handle are arbitrary, so what holds along all steps holds whatever the
  callers pass; what a caller does pass is the subject of the properties of that caller. The transactions of
  retention are \<open>rt_step\<close> of \<open>Sq_Django_System\<close>.
\<close>

section \<open>Steps\<close>

definition replaced_by_name :: "string \<Rightarrow> db \<Rightarrow> db" where
  "replaced_by_name name d =
     (let d1 = drop_entries (map j_id (filter (\<lambda>j. j_job_name j = Some name) (live d))) d
      in d1\<lparr>live := delete_where (\<lambda>j. j_job_name j = Some name) (live d1)\<rparr>)"

inductive step :: "db \<Rightarrow> db \<Rightarrow> bool" where
  st_scan: "claim_iteration env queues now st = Inr (st', it) \<Longrightarrow> step (cs_db st) (cs_db st')"
| st_claim_id: "claim_job_by_id env jid now d = (d', r) \<Longrightarrow> step d d'"
| st_claim_job: "atomic_claim_job env j now d = (d', r) \<Longrightarrow> step d d'"
| st_recheck: "slot \<in> set SLOTS \<Longrightarrow> recheck_blocked slot now jid created_at d = Inr (d', rc) \<Longrightarrow>
    step d d'"
| st_park: "insert_blocked now j = Some ins \<Longrightarrow> step d (ins (fst (delete_ready [j_id j] d)))"
| st_complete: "close_attempt now jid att oc d = Inr d1 \<Longrightarrow> st = Success \<or> st = Failed \<Longrightarrow>
    record_completion now jid ver st v d1 = Inr (d2, True) \<Longrightarrow> step d d2"
| st_settle_failed: "st = Archived \<or> st = Failed \<Longrightarrow> settle_failed_row now jid st d = Inr d' \<Longrightarrow>
    step d d'"
| st_zombie: "finish_in now jid Failed v fe (fst (close_unfenced jid Outcome_abandoned now d)) =
    Inr (d2, True) \<Longrightarrow> step d d2"
| st_release: "slot \<in> set SLOTS \<Longrightarrow> step d (release_job slot now jid d)"
| st_revoke: "step d (fst (request_job_revoke jid d))"
| st_child_pid: "step d (update_job_child_pid jid pid att d)"
| st_abandon: "step d (fst (abandon_attempts now jid d))"
| st_expire: "fail_queued now j error reason d = Inr (d', True) \<Longrightarrow> step d d'"
| st_cancel: "finish_in now jid Failed v fe (delete_blocked [jid] (fst (delete_ready [jid] d))) =
    Inr (d', True) \<Longrightarrow> step d d'"
| st_cancel_staged: "step d (d\<lparr>staged := delete_where (\<lambda>s. sj_id s = jid) (staged d)\<rparr>)"
| st_processed: "slot \<in> set SLOTS \<Longrightarrow> release_job_row slot now j st kw d = Inr d' \<Longrightarrow>
    step d (d'\<lparr>workers := w\<rparr>)"
| st_enqueue: "slot \<in> set SLOTS \<Longrightarrow> fresh_id (j_id j) d \<Longrightarrow> step d (add_job slot j d)"
| st_stage: "fresh_id (sj_id s) d \<Longrightarrow> step d (d\<lparr>staged := staged d @ [s]\<rparr>)"
| st_promote: "slot \<in> set SLOTS \<Longrightarrow>
    step d (fst (promote_due_scheduled_jobs leader locked slot now d))"
| st_settle: "settle_status st0 reason hr = Some st \<Longrightarrow> finish_in now jid st v fe d = Inr (d', ok) \<Longrightarrow>
    step d d'"
| st_repair: "slot \<in> set SLOTS \<Longrightarrow> step d (fst (repair_ready qs limit locked slot d))"
| st_replace: "step d (replaced_by_name name d)"

text \<open>Every reachable state starts from the empty database of a fresh installation.\<close>

definition empty_db :: db where
  "empty_db = \<lparr>live = [], history = [], ready = [], blocked = [], attempts = [], workers = [],
     staged = [], next_attempt = 1\<rparr>"

abbreviation reachable :: "db \<Rightarrow> bool" where
  "reachable d \<equiv> step\<^sup>*\<^sup>* empty_db d"

section \<open>Steps are safe\<close>

definition grows :: "db \<Rightarrow> db \<Rightarrow> bool" where
  "grows d d' \<longleftrightarrow> history_grows d d' \<and> attempts_evolve d d'"

lemma grows_refl [simp]: "grows d d"
  by (simp add: grows_def history_grows_def)

lemma grows_trans: "grows d e \<Longrightarrow> grows e f \<Longrightarrow> grows d f"
  unfolding grows_def history_grows_def by (meson attempts_evolve_trans prefix_order.trans)

lemma evolves_grows: "evolves d d' \<Longrightarrow> grows d d'"
  by (simp add: grows_def evolves_def)

lemma insert_ready_safe:
  assumes "\<And>e. e \<in> set es \<Longrightarrow> r_slot e \<in> set SLOTS"
  shows "safe d (d\<lparr>ready := insert_ready es (ready d)\<rparr>)"
  by (rule wf_frame) (use assms in \<open>auto simp: wf_ready_def intro: insert_ready_distinct
      dest!: insert_ready_set\<close>)

lemma promoted_id [simp]: "j_id (promoted_job s) = sj_id s" "j_id \<circ> promoted_job = sj_id"
  by (simp_all add: promoted_job_def fun_eq_iff)

lemma distinct_move:
  "distinct (map f xs @ ys @ zs) \<Longrightarrow>
     distinct (map f (delete_where P xs) @ ys @ map f (filter P xs) @ zs)"
  by (induction xs) auto

lemma promote_move_safe:
  "safe d (d\<lparr>staged := delete_where P (staged d), live := live d @ map promoted_job (filter P (staged d))\<rparr>)"
  (is "safe d ?d")
  unfolding safe_def
proof (intro impI conjI)
  assume w: "wf_db d"
  have dis: "distinct (map sj_id (staged d) @ map j_id (live d @ history d))"
    using w by (simp add: wf_db_def wf_jobs_def)
  have "distinct (map sj_id (delete_where P (staged d)) @ map j_id (live d) @
      map sj_id (filter P (staged d)) @ map j_id (history d))"
    using distinct_move [of sj_id "staged d" "map j_id (live d)" "map j_id (history d)"] dis by simp
  then have "distinct (map sj_id (staged ?d) @ map j_id (live ?d @ history ?d))"
    by simp
  then show "wf_db ?d"
    using w by (simp add: wf_db_def wf_jobs_def wf_attempts_def wf_ready_def)
  show "evolves d ?d"
    by (auto simp: evolves_def history_grows_def attempts_evolve_def job_ids_def intro: att_le_refl)
qed

lemma promote_safe:
  assumes "slot \<in> set SLOTS"
  shows "safe d (fst (promote_due_scheduled_jobs leader locked slot now d))"
proof (cases leader)
  case False
  then show ?thesis by (simp add: promote_due_scheduled_jobs_def)
next
  case True
  let ?P = "\<lambda>s. sj_scheduled_at s \<le> now + seconds PROMOTION_LOOKAHEAD_SECONDS \<and> \<not> locked s"
  let ?js = "map promoted_job (filter ?P (staged d))"
  let ?d1 = "d\<lparr>staged := delete_where ?P (staged d), live := live d @ ?js\<rparr>"
  have "safe ?d1 (?d1\<lparr>ready := insert_ready (map (ready_values slot) ?js) (ready ?d1)\<rparr>)"
    by (rule insert_ready_safe) (use assms in \<open>auto simp: ready_values_def\<close>)
  from safe_trans [OF promote_move_safe this] show ?thesis
    using True by (simp add: promote_due_scheduled_jobs_def Let_def)
qed

lemma stage_safe: "fresh_id (sj_id s) d \<Longrightarrow> safe d (d\<lparr>staged := staged d @ [s]\<rparr>)"
  by (auto simp: safe_def wf_db_def wf_jobs_def wf_attempts_def wf_ready_def evolves_def
      history_grows_def attempts_evolve_def job_ids_def fresh_id_def intro: att_le_refl)

lemma replaced_law:
  assumes "wf_db d"
  shows "wf_db (replaced_by_name name d) \<and> grows d (replaced_by_name name d)"
proof -
  let ?d1 = "drop_entries (map j_id (filter (\<lambda>j. j_job_name j = Some name) (live d))) d"
  have s: "wf_db ?d1" "grows d ?d1"
    using drop_entries_safe [of d] assms evolves_grows by (auto simp: safe_def)
  have "wf_db (?d1\<lparr>live := delete_where P (live ?d1)\<rparr>)" for P
    using s(1)
    by (auto simp: wf_db_def wf_jobs_def wf_attempts_def wf_ready_def delete_where_def
        distinct_map_filter)
  moreover have "grows ?d1 (?d1\<lparr>live := delete_where P (live ?d1)\<rparr>)" for P
    by (auto simp: grows_def history_grows_def attempts_evolve_def intro: att_le_refl)
  ultimately show ?thesis
    using grows_trans [OF s(2)] by (simp add: replaced_by_name_def Let_def)
qed

lemma step_safe_or_replace:
  "step d d' \<Longrightarrow> safe d d' \<or> (\<exists>name. d' = replaced_by_name name d)"
proof (induction rule: step.induct)
  case (st_complete now jid att oc d d1 st ver v d2)
  then show ?case
    using safe_trans [OF close_attempt_safe record_completion_safe] is_terminal_simps by blast
next
  case (st_settle_failed st now jid d d')
  then show ?case using settle_failed_row_safe is_terminal_simps by blast
next
  case (st_zombie now jid v fe d d2)
  then show ?case
    using safe_trans [OF close_variants_safe(3) finish_in_safe] is_terminal_simps by blast
next
  case (st_cancel now jid v fe d d')
  have "safe d (delete_blocked [jid] (fst (delete_ready [jid] d)))"
    by (rule safe_trans [OF delete_ready_safe delete_blocked_safe])
  then show ?case using safe_trans finish_in_safe [OF st_cancel] is_terminal_simps by blast
next
  case (st_park now j ins d)
  then show ?case using safe_trans [OF delete_ready_safe insert_blocked_safe] by blast
next
  case (st_processed slot now j st kw d d' w)
  then show ?case using safe_trans [OF release_job_row_safe workers_safe] by blast
next
  case (st_settle st0 reason hr st now jid v fe d d' ok)
  then show ?case using finish_in_safe settle_status_terminal by blast
next
  case (st_expire now j error reason d d')
  then show ?case using fail_queued_law by blast
next
  case (st_child_pid d jid pid att)
  then show ?case using child_pid_safe by (simp add: update_job_child_pid_def)
next
  case (st_abandon d now jid)
  then show ?case using close_variants_safe(1) by (simp add: abandon_attempts_def)
next
  case (st_scan env queues now st st' it)
  then show ?case using claim_iteration_law [OF st_scan] by simp
next
  case (st_claim_id env jid now d d' r)
  then show ?case using claim_job_by_id_law [OF st_claim_id] by simp
next
  case (st_claim_job env j now d d' r)
  then show ?case using atomic_claim_job_law [OF st_claim_job] by simp
next
  case (st_recheck slot now jid created_at d d' rc)
  then show ?case using recheck_blocked_safe by blast
next
  case (st_enqueue slot j d)
  then show ?case using add_job_safe by simp
next
  case (st_replace d name)
  then show ?case by blast
qed (simp_all add: release_job_safe request_job_revoke_safe staged_delete_safe stage_safe
    promote_safe repair_ready_safe)

lemma step_law: "step d d' \<Longrightarrow> wf_db d \<Longrightarrow> wf_db d' \<and> grows d d'"
  using step_safe_or_replace replaced_law evolves_grows unfolding safe_def by blast

lemma steps_law: "step\<^sup>*\<^sup>* d d' \<Longrightarrow> wf_db d \<Longrightarrow> wf_db d' \<and> grows d d'"
proof (induction rule: rtranclp_induct)
  case (step e f)
  then show ?case using step_law grows_trans by blast
qed simp

lemma empty_wf: "wf_db empty_db"
  by (simp add: empty_db_def wf_db_def wf_jobs_def wf_attempts_def wf_ready_def)

lemma reachable_wf: "reachable d \<Longrightarrow> wf_db d"
  using steps_law empty_wf by blast

text \<open>The only jobs that ever disappear are named jobs that a new job of that name replaces.\<close>

lemma step_keeps_job:
  assumes "step d d'" "wf_db d" "k \<in> job_ids d"
  shows "k \<in> job_ids d' \<or> (\<exists>j\<in>set (live d). j_id j = k \<and> j_job_name j \<noteq> None)"
  using step_safe_or_replace [OF assms(1)]
proof
  assume "safe d d'"
  then show ?thesis using assms by (auto simp: safe_def evolves_def)
next
  assume "\<exists>name. d' = replaced_by_name name d"
  then obtain name where d': "d' = replaced_by_name name d" ..
  have "history d' = history d" "live d' = delete_where (\<lambda>j. j_job_name j = Some name) (live d)"
    by (simp_all add: d' replaced_by_name_def Let_def drop_entries_def)
  then show ?thesis using assms(3) by (auto simp: job_ids_def)
qed

lemma handle_closed_grows:
  assumes "\<not> handle_open h d" "grows d d'" "h_id h < next_attempt d"
  shows "\<not> handle_open h d'"
proof -
  have "attempts_evolve d d'" using assms(2) by (simp add: grows_def)
  then have "evolves d (d'\<lparr>live := live d, history := history d\<rparr>)"
    by (simp add: evolves_def history_grows_def attempts_evolve_def job_ids_def)
  from handle_closed_stays [OF assms(1) this assms(3)] show ?thesis by (simp add: handle_open_def)
qed

section \<open>A sample database\<close>

text \<open>One queued job with its ready entry, and the same job claimed by a worker.\<close>

definition sample_spec :: job_spec where
  "sample_spec =
     \<lparr>s_task_path = ''tasks.run'', s_kwargs = JObj [], s_queue_name = ''default'', s_priority = 0,
      s_scheduled_at = None, s_max_retries = 3, s_retry_backoff = 1, s_allow_parallel = False,
      s_timeout_seconds = None, s_retry_count = None, s_scheduled_task_id = None,
      s_job_name = None, s_retry_intervals = None, s_meta = None, s_dependencies = None,
      s_on_success_path = [], s_on_failure_path = [], s_ttl = None, s_result_ttl = None,
      s_failure_ttl = None, s_parent_job_id = None, s_tags = None\<rparr>"

definition sample_job :: job where
  "sample_job = queued_job 7 100 sample_spec"

definition sample_db :: db where
  "sample_db = add_job 0 sample_job empty_db"

definition sample_env :: claim_env where
  "sample_env =
     \<lparr>ce_pg = False, ce_locked = (\<lambda>_. False), ce_busy = (\<lambda>_. False), ce_tag_busy = (\<lambda>_. False),
      ce_conc = (\<lambda>_. None), ce_rate = (\<lambda>_. None), ce_token = (\<lambda>_. ''tok''), ce_pid = 42,
      ce_worker = Some ''w1''\<rparr>"

definition sample_handle :: attempt_handle where
  "sample_handle =
     \<lparr>h_id = 1, h_token = ''tok'', h_job_id = 7, h_claimed_at = Some 200, h_worker_id = Some ''w1'',
      h_worker_pid = Some 42\<rparr>"

definition sample_running :: db where
  "sample_running = fst (claim_job_by_id sample_env 7 200 sample_db)"

lemma sample_db_eval:
  "sample_db = empty_db\<lparr>live := [sample_job], ready := [ready_values 0 sample_job]\<rparr>"
  by (simp add: sample_db_def add_job_def ensure_entry_def write_ready_def update_ready_def
      empty_db_def ready_values_def sample_job_def queued_job_def SLOTS_def sample_spec_def)

lemma sample_reachable: "reachable sample_db"
proof -
  have "step empty_db (add_job 0 sample_job empty_db)"
    by (rule st_enqueue) (simp_all add: SLOTS_def fresh_id_def job_ids_def empty_db_def)
  then show ?thesis by (simp add: sample_db_def)
qed

lemma sample_running_reachable: "reachable sample_running"
proof -
  have "step sample_db sample_running"
    unfolding sample_running_def by (rule st_claim_id) (rule prod.collapse [symmetric])
  then show ?thesis using sample_reachable by simp
qed

lemma sample_running_eval:
  "sample_running = empty_db\<lparr>live := [sample_job],
     attempts := [new_attempt 1 7 ''tok'' (Some ''w1'') 42 200], next_attempt := 2\<rparr>"
  "snd (claim_job_by_id sample_env 7 200 sample_db) =
     Some (as_running sample_job sample_handle, sample_handle)"
  unfolding sample_running_def sample_db_eval
  by (simp_all add: claim_job_by_id_def sample_env_def live_by_id_def sample_job_def is_running_def
      empty_db_def start_attempt_def delete_ready_def delete_blocked_def claim_verdict_def
      open_attempt_def ready_values_def queued_job_def SLOTS_def new_attempt_def sample_handle_def)

end
