(* ===== verification/Sq_Retry_Flow.thy ===== *)
theory Sq_Retry_Flow
  imports Sq_System
begin

text \<open>
  What the worker's retry of a failed job does to the database: the retry row exists exactly once,
  carries the next retry number within the budget, and the failed job ends in the history as
  archived with its marker settled. Also the wake-up of blocked jobs and the fate of a running job
  that is replaced by name.
\<close>

section \<open>Children in the union view\<close>

lemma live_view_parent: "y \<in> set (live_view d x) \<Longrightarrow> j_parent_job_id y = j_parent_job_id x"
  by (auto simp: live_view_def overlay_running_def split: if_splits)

lemma live_view_nonempty: "live_view d x \<noteq> []"
  by (auto simp: live_view_def is_running_def filter_empty_conv)

lemma job_all_parent:
  "(\<exists>y\<in>set (job_all d). j_parent_job_id y = p) \<longleftrightarrow>
     (\<exists>x\<in>set (live d) \<union> set (history d). j_parent_job_id x = p)"
proof
  assume "\<exists>x\<in>set (live d) \<union> set (history d). j_parent_job_id x = p"
  then obtain x where x: "x \<in> set (live d) \<union> set (history d)" "j_parent_job_id x = p" by blast
  show "\<exists>y\<in>set (job_all d). j_parent_job_id y = p"
  proof (cases "x \<in> set (history d)")
    case True
    then show ?thesis using x by (auto simp: job_all_def)
  next
    case False
    obtain y where y: "y \<in> set (live_view d x)"
      using live_view_nonempty [of d x] by (cases "live_view d x") auto
    then have "y \<in> set (job_all d)" using x(1) False by (auto simp: job_all_def)
    then show ?thesis using live_view_parent [OF y] x(2) by auto
  qed
next
  assume "\<exists>y\<in>set (job_all d). j_parent_job_id y = p"
  then obtain y where "y \<in> set (job_all d)" "j_parent_job_id y = p" by blast
  then consider x where "x \<in> set (live d)" "y \<in> set (live_view d x)" | "y \<in> set (history d)"
    by (auto simp: job_all_def)
  then show "\<exists>x\<in>set (live d) \<union> set (history d). j_parent_job_id x = p"
    using live_view_parent \<open>j_parent_job_id y = p\<close> by cases (metis UnI1, blast)
qed

lemma latest_retry_None:
  "latest_retry d k = None \<longleftrightarrow> (\<forall>x\<in>set (live d) \<union> set (history d). j_parent_job_id x \<noteq> Some k)"
  using job_all_parent [of d "Some k"] by (auto simp: latest_retry_def filter_empty_conv)

lemma filter_single:
  assumes "\<And>y. y \<in> set ys \<Longrightarrow> \<not> P y" "\<And>z. z \<in> set zs \<Longrightarrow> \<not> P z" "P x"
  shows "filter P (ys @ [x] @ zs) = [x]"
  using assms by (simp add: filter_empty_conv)

section \<open>Archiving the failed job\<close>

lemma settle_failed_row_moves:
  assumes w: "wf_db d" and j: "j \<in> set (live d)" "j_status j = Failed" and st: "is_terminal st"
  shows "settle_failed_row now (j_id j) st d =
    Inr (moved_to_history now (j_id j) st
      (no_values\<lparr>v_termination_reason := Some (settled_reason (j_termination_reason j))\<rparr>) j d)"
proof -
  let ?P = "\<lambda>x. j_id x = j_id j \<and> j_status x = Failed"
  have "\<exists>x\<in>set (live d). ?P x" using j by blast
  then obtain y where y: "List.find ?P (live d) = Some y" unfolding find_isSome [symmetric] ..
  have "y = j" using find_mem [OF y] wf_live_unique [OF w, of y j] j by simp
  moreover have "live_by_id (j_id j) d = Some j" using live_by_id_Some [OF w] j by simp
  ultimately show ?thesis
    using y j by (simp add: settle_failed_row_def finish_in_cases [OF w] move_where_def no_fences_def
        settled_termination_reason_def)
qed

lemma settle_failed_row_none:
  "\<forall>x\<in>set (live d). j_id x \<noteq> k \<Longrightarrow> settle_failed_row now k st d = Inr d"
  using find_none [of "\<lambda>x. j_id x = k \<and> j_status x = Failed" "live d"]
  by (simp add: settle_failed_row_def)

lemma bookkeeping_archives:
  assumes "wf_db d" "j \<in> set (live d)" "j_status j = Failed"
  shows "finish_retry_bookkeeping now (j_id j) d =
    moved_to_history now (j_id j) Archived
      (no_values\<lparr>v_termination_reason := Some (settled_reason (j_termination_reason j))\<rparr>) j d"
  using settle_failed_row_moves [OF assms, of Archived now]
    settle_failed_row_none [of "moved_to_history now (j_id j) Archived
      (no_values\<lparr>v_termination_reason := Some (settled_reason (j_termination_reason j))\<rparr>) j d" "j_id j"]
  by (simp add: finish_retry_bookkeeping_def quiet_def mark_job_archived_def settle_retry_pending_def)

section \<open>Creating the retry\<close>

definition retry_row :: "retry_env \<Rightarrow> timestamp \<Rightarrow> job_id \<Rightarrow> job \<Rightarrow> exc option \<Rightarrow> rat option \<Rightarrow> job" where
  "retry_row env now new_id j e countdown =
     queued_job new_id now (retry_spec (now + timedelta_us (retry_delay_seconds env j e countdown)) j)"

lemma retry_job_new:
  assumes w: "wf_db d" and j: "j \<in> set (live d)" "j_status j = Failed" "j_job_name j = None"
    and new: "fresh_id k d" and none: "latest_retry d (j_id j) = None"
    and np: "\<not> re_partitioned env" and slot: "slot \<in> set SLOTS"
  shows "retry_job env slot now k j e c d =
    (moved_to_history now (j_id j) Archived
       (no_values\<lparr>v_termination_reason := Some (settled_reason (j_termination_reason j))\<rparr>) j
       (add_job slot (retry_row env now k j e c) d), Inr (retry_row env now k j e c))"
proof -
  have nm: "s_job_name (retry_spec t j) = None" for t
    using j(3) by (simp add: retry_spec_def retry_name_def)
  have cj: "create_job (re_partitioned env) (re_threshold_days env) slot now k
      (retry_spec (now + timedelta_us (retry_delay_seconds env j e c)) j) d =
      (add_job slot (retry_row env now k j e c) d, Inr (retry_row env now k j e c))"
    using np nm by (simp add: create_job_def far_future_def Let_def retry_row_def)
  have "safe d (add_job slot (retry_row env now k j e c) d)"
    by (rule add_job_safe) (use new slot in \<open>simp_all add: retry_row_def\<close>)
  then have w': "wf_db (add_job slot (retry_row env now k j e c) d)" using w by (simp add: safe_def)
  have "j \<in> set (live (add_job slot (retry_row env now k j e c) d))"
    using j(1) by (simp add: add_job_def Let_def)
  from bookkeeping_archives [OF w' this j(2)] show ?thesis
    using none cj by (simp add: retry_job_def retry_with_def Let_def)
qed

lemma retry_job_latest:
  assumes w: "wf_db d" and j: "j \<in> set (live d)" and new: "fresh_id k d" "\<not> is_running d k"
    and none: "latest_retry d (j_id j) = None"
    and r: "r = retry_row env now k j e c"
    and d1: "d1 = moved_to_history now (j_id j) Archived v j (add_job slot r d)"
  shows "latest_retry d1 (j_id j) = Some r"
proof -
  let ?P = "\<lambda>x. j_parent_job_id x = Some (j_id j)"
  have rk: "j_id r = k" "?P r" by (simp_all add: r retry_row_def retry_spec_def)
  have kj: "k \<noteq> j_id j" using new j by (auto simp: fresh_id_def job_ids_def)
  have old: "\<not> ?P x" if "x \<in> set (live d) \<union> set (history d)" for x
    using none that by (simp add: latest_retry_None)
  have live1: "live d1 = delete_where (\<lambda>x. j_id x = j_id j) (live d) @ [r]"
    using kj rk by (simp add: d1 add_job_def Let_def delete_where_def)
  have hist1: "history d1 = history d @ [history_row (add_job slot r d) now Archived v j]"
    by (simp add: d1 add_job_def Let_def)
  have "\<not> is_running d1 k" using new(2) by (simp add: d1 add_job_def Let_def)
  then have lv: "live_view d1 r = [r]" using rk by (simp add: live_view_def)
  have "filter ?P (job_all d1) = [r]"
    unfolding job_all_def live1 hist1 map_append concat_append append_assoc list.map concat.simps
      append_Nil2 lv
  proof (rule filter_single)
    fix y assume "y \<in> set (concat (map (live_view d1) (delete_where (\<lambda>x. j_id x = j_id j) (live d))))"
    then obtain x where "x \<in> set (live d)" "y \<in> set (live_view d1 x)" by auto
    then show "\<not> ?P y" using live_view_parent [of y d1 x] old [of x] by simp
  next
    fix z assume "z \<in> set (history d @ [history_row (add_job slot r d) now Archived v j])"
    then show "\<not> ?P z" using old [of z] old [of j] j by auto
  qed (rule rk(2))
  then show ?thesis unfolding latest_retry_def by (simp add: first_by_def)
qed

section \<open>Properties\<close>

text \<open>C36: the retry of a failed job without a name, on a database without partitions, is created exactly once by
  calls that do not overlap. The first call archives the failed job (with its termination reason
  restored), adds one queued job whose parent is the failed job and whose retry number is the next one,
  and a second call finds that job and changes nothing.\<close>

theorem retry_created_once:
  assumes w: "wf_db d" and j: "j \<in> set (live d)" "j_status j = Failed" "j_job_name j = None"
    and reason: "j_termination_reason j = pending_reason rs"
    and new: "fresh_id k d" "\<not> is_running d k" and none: "latest_retry d (j_id j) = None"
    and np: "\<not> re_partitioned env"
    and d1: "retry_job env (gen mod 3) now k j e c d = (d1, Inr r)"
  shows "r \<in> set (live d1) \<and> j_parent_job_id r = Some (j_id j) \<and> j_status r = Queued \<and>
    j_retry_count r = j_retry_count j + 1 \<and>
    (\<exists>h\<in>set (history d1). j_id h = j_id j \<and> j_status h = Archived \<and> j_termination_reason h = rs) \<and>
    retry_job env (gen mod 3) now' k' j e' c' d1 = (d1, Inr r)"
proof -
  let ?r = "retry_row env now k j e c"
  let ?v = "no_values\<lparr>v_termination_reason := Some (settled_reason (j_termination_reason j))\<rparr>"
  have eq: "d1 = moved_to_history now (j_id j) Archived ?v j (add_job (gen mod 3) ?r d)" "r = ?r"
    using retry_job_new [OF w j new(1) none np mod3_slot] d1 by auto
  have kj: "k \<noteq> j_id j" using new j(1) by (auto simp: fresh_id_def job_ids_def)
  have lr: "latest_retry d1 (j_id j) = Some r"
    by (rule retry_job_latest [OF w j(1) new none eq(2) eq(1) [folded eq(2)]])
  have gone: "\<forall>x\<in>set (live d1). j_id x \<noteq> j_id j" by (simp add: eq(1))
  then have same: "finish_retry_bookkeeping now' (j_id j) d1 = d1"
    by (simp add: finish_retry_bookkeeping_def mark_job_archived_def settle_retry_pending_def
        settle_failed_row_none quiet_def)
  have "r \<in> set (live d1)" using kj by (simp add: eq add_job_def Let_def retry_row_def)
  moreover have "j_parent_job_id r = Some (j_id j)" "j_status r = Queued"
      "j_retry_count r = j_retry_count j + 1"
    by (simp_all add: eq retry_row_def retry_spec_def queued_job_def)
  moreover have "\<exists>h\<in>set (history d1). j_id h = j_id j \<and> j_status h = Archived \<and>
      j_termination_reason h = rs"
    by (simp add: eq(1) reason override_def)
  moreover have "retry_job env (gen mod 3) now' k' j e' c' d1 = (d1, Inr r)"
    using lr same by (simp add: retry_job_def retry_with_def)
  ultimately show ?thesis by blast
qed

definition sample_failed :: job where
  "sample_failed = sample_job\<lparr>j_status := Failed, j_termination_reason := pending_reason ''timeout''\<rparr>"

definition sample_failed_db :: db where
  "sample_failed_db = empty_db\<lparr>live := [sample_failed]\<rparr>"

definition sample_retry_env :: retry_env where
  "sample_retry_env = \<lparr>re_uniform = (\<lambda>a b. a), re_load_task = (\<lambda>_. None), re_cap = None,
     re_jitter = False, re_partitioned = False, re_threshold_days = 1\<rparr>"

lemma sample_failed_facts:
  "wf_db sample_failed_db" "sample_failed \<in> set (live sample_failed_db)"
  "j_status sample_failed = Failed" "j_job_name sample_failed = None"
  "j_termination_reason sample_failed = pending_reason ''timeout''" "fresh_id 8 sample_failed_db"
  "\<not> is_running sample_failed_db 8" "latest_retry sample_failed_db (j_id sample_failed) = None"
  by (simp_all add: sample_failed_db_def sample_failed_def empty_db_def sample_job_def sample_spec_def
      wf_db_def wf_jobs_def wf_attempts_def wf_ready_def fresh_id_def job_ids_def is_running_def
      latest_retry_None)

theorem retry_created_once_witness:
  "\<exists>d1 r. retry_job sample_retry_env (0 mod 3) 500 8 sample_failed None None sample_failed_db =
       (d1, Inr r) \<and> r \<in> set (live d1) \<and> j_retry_count r = 1"
proof -
  have np: "\<not> re_partitioned sample_retry_env" by (simp add: sample_retry_env_def)
  obtain d1 r where rj: "retry_job sample_retry_env (0 mod 3) 500 8 sample_failed None None
      sample_failed_db = (d1, Inr r)"
    using retry_job_new [OF sample_failed_facts(1-4,6,8) np mod3_slot] by blast
  have "j_retry_count sample_failed = 0"
    by (simp add: sample_failed_def sample_job_def queued_job_def sample_spec_def)
  with retry_created_once [OF sample_failed_facts np rj] rj show ?thesis by auto
qed

text \<open>Two calls that overlap create two retries. The look-up and the creation are separate transactions:
  when the worker and a recovery sweep both look before either creates, each adds its own queued retry of
  the failed job, with the same parent and the same retry number.\<close>

theorem overlapping_retries_duplicate:
  assumes w: "wf_db d" and j: "j \<in> set (live d)" "j_status j = Failed" "j_job_name j = None"
    and none: "latest_retry d (j_id j) = None" and new: "fresh_id k d" "fresh_id k' d" "k \<noteq> k'"
    and np: "\<not> re_partitioned env" and slot: "slot \<in> set SLOTS"
    and d1: "retry_with env slot now k j e c (latest_retry d (j_id j)) d = (d1, x)"
    and d2: "retry_with env slot now' k' j e' c' (latest_retry d (j_id j)) d1 = (d2, x')"
  shows "\<exists>r r'. x = Inr r \<and> x' = Inr r' \<and> r \<in> set (live d2) \<and> r' \<in> set (live d2) \<and> j_id r \<noteq> j_id r' \<and>
    j_parent_job_id r = Some (j_id j) \<and> j_parent_job_id r' = Some (j_id j) \<and>
    j_status r = Queued \<and> j_status r' = Queued \<and> j_retry_count r = j_retry_count r'"
proof -
  let ?r = "retry_row env now k j e c" and ?r' = "retry_row env now' k' j e' c'"
  have x: "x = Inr ?r" and d1': "d1 = moved_to_history now (j_id j) Archived
      (no_values\<lparr>v_termination_reason := Some (settled_reason (j_termination_reason j))\<rparr>) j (add_job slot ?r d)"
    using retry_job_new [OF w j new(1) none np slot, of now e c] d1 by (auto simp: retry_job_def)
  have ids: "k \<noteq> j_id j" "k' \<noteq> j_id j" using new j(1) by (auto simp: fresh_id_def job_ids_def)
  have gone: "\<forall>y\<in>set (live (add_job slot ?r' d1)). j_id y \<noteq> j_id j"
    using ids by (simp add: d1' add_job_def Let_def retry_row_def)
  have nm: "s_job_name (retry_spec t j) = None" for t using j(3) by (simp add: retry_spec_def retry_name_def)
  have "retry_with env slot now' k' j e' c' None d1 = (finish_retry_bookkeeping now' (j_id j) (add_job slot ?r' d1), Inr ?r')"
    using np nm by (simp add: retry_with_def create_job_def far_future_def Let_def retry_row_def)
  then have x': "x' = Inr ?r'" and d2': "d2 = add_job slot ?r' d1"
    using d2 none settle_failed_row_none [OF gone]
    by (auto simp: finish_retry_bookkeeping_def mark_job_archived_def settle_retry_pending_def quiet_def)
  have "?r \<in> set (live d2)" "?r' \<in> set (live d2)"
    using ids by (simp_all add: d2' d1' add_job_def Let_def retry_row_def)
  then show ?thesis using x x' new(3) by (auto simp: retry_row_def retry_spec_def queued_job_def)
qed

theorem overlapping_retries_duplicate_witness:
  "\<exists>d1 d2 r r'. retry_with sample_retry_env 0 500 8 sample_failed None None None sample_failed_db = (d1, Inr r) \<and>
     retry_with sample_retry_env 0 501 9 sample_failed None None None d1 = (d2, Inr r') \<and>
     r \<in> set (live d2) \<and> r' \<in> set (live d2) \<and> j_id r \<noteq> j_id r'"
proof -
  have np: "\<not> re_partitioned sample_retry_env" by (simp add: sample_retry_env_def)
  have k: "fresh_id 9 sample_failed_db" "(8 :: job_id) \<noteq> 9" "0 \<in> set SLOTS"
    by (simp_all add: fresh_id_def job_ids_def sample_failed_db_def sample_failed_def sample_job_def empty_db_def SLOTS_def)
  obtain d1 x where 1: "retry_with sample_retry_env 0 500 8 sample_failed None None None sample_failed_db = (d1, x)" by fastforce
  obtain d2 x' where 2: "retry_with sample_retry_env 0 501 9 sample_failed None None None d1 = (d2, x')" by fastforce
  from overlapping_retries_duplicate [OF sample_failed_facts(1-4,8,6) k(1,2) np k(3), of 500 None None d1 x 501 None None d2 x']
  show ?thesis using 1 2 sample_failed_facts(8) by auto
qed

text \<open>A blocked job wakes up. When the last dependency of a queued, idle job is met, rechecking it
  moves the job from the blocked to the ready table and leaves its row alone.\<close>

theorem recheck_wakes_job:
  assumes w: "wf_db d" and j: "j \<in> set (live d)" "waiting_clause d j"
    and met: "\<forall>dep\<in>set (dependency_ids j). dep_state (anywhere_by_id d) (latest_retry d) dep = Met"
  shows "\<exists>d'. recheck_blocked (gen mod 3) now (j_id j) (j_created_at j) d = Inr (d', Rc_ready) \<and>
    (\<exists>e\<in>set (ready d'). r_job_id e = j_id j) \<and> (\<forall>b\<in>set (blocked d'). b_job_id b \<noteq> j_id j) \<and>
    live d' = live d"
proof -
  let ?P = "\<lambda>x. j_id x = j_id j \<and> j_created_at x = j_created_at j"
  have "\<exists>x\<in>set (live d). ?P x" using j(1) by blast
  then obtain y where y: "List.find ?P (live d) = Some y" unfolding find_isSome [symmetric] ..
  have "y = j" using find_mem [OF y] wf_live_unique [OF w, of y j] j by simp
  then have f: "List.find ?P (live d) = Some j" using y by simp
  have m: "judge_in d (dependency_ids j) = Met"
    unfolding judge_in_def using met judge_dependencies_Met by blast
  let ?d' = "write_ready (gen mod 3) False [j] (delete_blocked [j_id j] d)"
  have "recheck_blocked (gen mod 3) now (j_id j) (j_created_at j) d = Inr (?d', Rc_ready)"
    using f m j(2) by (simp add: recheck_blocked_def waiting_clause_def)
  moreover have "\<exists>e\<in>set (ready ?d'). r_job_id e = j_id j"
    by (rule write_ready_has) (use j(2) in \<open>simp_all add: waiting_clause_def\<close>)
  ultimately show ?thesis by auto
qed

theorem recheck_wakes_job_witness:
  "\<exists>d'. recheck_blocked (0 mod 3) 500 7 100 sample_db = Inr (d', Rc_ready)"
proof -
  have f: "sample_job \<in> set (live sample_db)" "waiting_clause sample_db sample_job"
    "\<forall>dep\<in>set (dependency_ids sample_job).
       dep_state (anywhere_by_id sample_db) (latest_retry sample_db) dep = Met"
    by (simp_all add: sample_db_eval waiting_clause_def is_running_def empty_db_def sample_job_def
        dependency_ids_def queued_job_def sample_spec_def or_empty_def)
  have "j_id sample_job = 7" "j_created_at sample_job = 100" by (simp_all add: sample_job_def)
  then show ?thesis
    using recheck_wakes_job [OF reachable_wf [OF sample_reachable] f, of 0 500] by auto
qed

text \<open>Replacing a running job by name orphans its attempt. The job row disappears while the attempt
  stays open, and the worker's completion then changes nothing: no completion of that handle ever
  closes the attempt again.\<close>

theorem replaced_job_leaks_attempt:
  assumes w: "wf_db d" and j: "j \<in> set (live d)" "j_job_name j = Some name"
    and h: "handle_open h d" "h_job_id h = j_id j" and d': "d' = replaced_by_name name d"
  shows "j_id j \<notin> job_ids d' \<and> handle_open h d' \<and>
    complete_success x h d' = (d', Inr None) \<and> complete_failure y h d' = (d', Inr None)"
proof -
  have l: "live d' = delete_where (\<lambda>x. j_job_name x = Some name) (live d)" "history d' = history d"
    "attempts d' = attempts d"
    by (simp_all add: d' replaced_by_name_def Let_def drop_entries_def)
  have gone: "\<forall>x\<in>set (live d'). j_id x \<noteq> j_id j"
    using wf_live_unique [OF w] j by (auto simp: l)
  have nh: "\<forall>x\<in>set (history d'). j_id x \<noteq> j_id j"
    using wf_live_not_history [OF w j(1)] l(2) by (metis imageI)
  have "get_job_by_id (j_id j) d' = F_other"
    using gone nh by (simp add: get_job_by_id_def live_by_id_def history_by_id_def find_none [THEN iffD2])
  then show ?thesis
    using gone nh h
    by (auto simp: job_ids_def handle_open_def l complete_success_def complete_failure_def
        mark_job_success_def mark_job_failed_def split: prod.splits)
qed

definition sample_named_db :: db where
  "sample_named_db = sample_running\<lparr>live := [sample_job\<lparr>j_job_name := Some ''nightly''\<rparr>]\<rparr>"

theorem replaced_job_leaks_attempt_witness:
  "handle_open sample_handle (replaced_by_name ''nightly'' sample_named_db) \<and>
   7 \<notin> job_ids (replaced_by_name ''nightly'' sample_named_db)"
proof -
  let ?j = "sample_job\<lparr>j_job_name := Some ''nightly''\<rparr>"
  have f: "wf_db sample_named_db" "?j \<in> set (live sample_named_db)" "j_job_name ?j = Some ''nightly''"
    "handle_open sample_handle sample_named_db" "h_job_id sample_handle = j_id ?j"
    by (simp_all add: sample_named_db_def sample_running_eval empty_db_def sample_job_def wf_db_def
        wf_jobs_def wf_attempts_def wf_ready_def open_for_def new_attempt_def handle_open_def
        sample_handle_def)
  have "j_id ?j = 7" by (simp add: sample_job_def)
  then show ?thesis using replaced_job_leaks_attempt [OF f refl] by metis
qed

end
