(* ===== verification/Sq_Leases.thy ===== *)
theory Sq_Leases
  imports Sq_Claim "HOL-Library.Char_ord" "HOL-Library.List_Lexorder"
begin

text \<open>
  The scheduler leases: \<^verbatim>\<open>claim_queue_leases\<close>, \<^verbatim>\<open>_claim_one_lease\<close>, \<^verbatim>\<open>renew_queue_leases\<close> and
  \<^verbatim>\<open>release_queue_leases\<close> of \<^verbatim>\<open>fastapi_sqlery/backend.py\<close>, and the lease management of the daemon
  loop (\<^verbatim>\<open>DaemonManager._run_daemon\<close>).

  A claim reads the lease row and writes it in two statements, so other sessions may commit in
  between. \<open>claim_one_lease\<close> therefore takes the row that its \<^verbatim>\<open>SELECT\<close> saw beside the table its
  write meets, and \<open>lease_step\<close> is a transition system with the claims in flight as part of the
  state: on PostgreSQL a claim that saw a row holds its lock until it ends, on SQLite nothing is
  locked and the version column has to detect the race.
\<close>

section \<open>Statements and operations\<close>

type_synonym leases = "daemon_lease list"

record claimant =
  cl_daemon :: string
  cl_node :: string
  cl_pid :: int

definition lease_of :: "string \<Rightarrow> leases \<Rightarrow> daemon_lease option" where
  "lease_of q ls = List.find (\<lambda>l. l_queue_name l = q) ls"

definition new_lease :: "string \<Rightarrow> claimant \<Rightarrow> timestamp \<Rightarrow> int \<Rightarrow> daemon_lease" where
  "new_lease q c now secs =
     \<lparr>l_queue_name = q, l_daemon_id = cl_daemon c, l_node_id = cl_node c, l_pid = cl_pid c,
      l_acquired_at = now, l_expires_at = now + seconds secs, l_version = 0\<rparr>"

definition take_lease :: "claimant \<Rightarrow> timestamp \<Rightarrow> int \<Rightarrow> int \<Rightarrow> daemon_lease \<Rightarrow> daemon_lease" where
  "take_lease c now secs version l =
     l\<lparr>l_daemon_id := cl_daemon c, l_node_id := cl_node c, l_pid := cl_pid c,
       l_acquired_at := now, l_expires_at := now + seconds secs, l_version := version\<rparr>"

text \<open>\<^verbatim>\<open>session.add\<close> and commit of a new lease: the primary key is the queue name.\<close>

definition insert_lease :: "daemon_lease \<Rightarrow> leases \<Rightarrow> leases result" where
  "insert_lease l ls =
     (if l_queue_name l \<in> l_queue_name ` set ls then Inl IntegrityError else Inr (ls @ [l]))"

text \<open>The version-guarded \<^verbatim>\<open>UPDATE\<close> of the SQLite path; \<open>P\<close> is its further condition.\<close>

definition cas_lease ::
  "(daemon_lease \<Rightarrow> bool) \<Rightarrow> string \<Rightarrow> claimant \<Rightarrow> timestamp \<Rightarrow> int \<Rightarrow> int \<Rightarrow> leases \<Rightarrow> leases \<times> bool" where
  "cas_lease P q c now secs current_version ls =
     (let W = (\<lambda>l. l_queue_name l = q \<and> l_version l = current_version \<and> P l)
      in (update_where W (take_lease c now secs (current_version + 1)) ls, rowcount W ls = 1))"

definition claim_one_lease ::
  "claim_strategy \<Rightarrow> string \<Rightarrow> claimant \<Rightarrow> timestamp \<Rightarrow> int \<Rightarrow> daemon_lease option \<Rightarrow> leases \<Rightarrow>
     leases \<times> bool" where
  "claim_one_lease strategy q c now secs seen ls =
     (case seen of
        None \<Rightarrow> (case insert_lease (new_lease q c now secs) ls of
                   Inl _ \<Rightarrow> (ls, False)
                 | Inr ls' \<Rightarrow> (ls', True))
      | Some existing \<Rightarrow>
          if strategy = Skip_locked then
            (if l_expires_at existing < now \<or> l_daemon_id existing = cl_daemon c
             then (update_where (\<lambda>l. l_queue_name l = q)
                     (take_lease c now secs (l_version existing + 1)) ls, True)
             else (ls, False))
          else if l_daemon_id existing = cl_daemon c
          then cas_lease (\<lambda>_. True) q c now secs (l_version existing) ls
          else if l_expires_at existing < now
          then cas_lease (\<lambda>l. l_expires_at l < now) q c now secs (l_version existing) ls
          else (ls, False))"

text \<open>
  What other sessions commit while the claims of one call run: before the \<^verbatim>\<open>SELECT\<close> of a queue and
  between it and the write.
\<close>

record lease_env =
  le_now :: "string \<Rightarrow> timestamp"
  le_before :: "string \<Rightarrow> leases \<Rightarrow> leases"
  le_between :: "string \<Rightarrow> leases \<Rightarrow> leases"

fun claim_queue_leases ::
  "claim_strategy \<Rightarrow> lease_env \<Rightarrow> claimant \<Rightarrow> int \<Rightarrow> string list \<Rightarrow> leases \<Rightarrow> leases \<times> string list" where
  "claim_queue_leases strategy env c secs [] ls = (ls, [])"
| "claim_queue_leases strategy env c secs (q # qs) ls =
     (let ls0 = le_before env q ls;
          (ls1, ok) = claim_one_lease strategy q c (le_now env q) secs (lease_of q ls0)
                        (le_between env q ls0);
          (ls2, claimed) = claim_queue_leases strategy env c secs qs ls1
      in (ls2, if ok then q # claimed else claimed))"

definition renew_queue_leases :: "string list \<Rightarrow> string \<Rightarrow> timestamp \<Rightarrow> int \<Rightarrow> leases \<Rightarrow> leases" where
  "renew_queue_leases owned daemon_id now secs ls =
     (if owned = [] then ls
      else update_where (\<lambda>l. l_queue_name l \<in> set owned \<and> l_daemon_id l = daemon_id)
             (\<lambda>l. l\<lparr>l_expires_at := now + seconds secs\<rparr>) ls)"

definition release_queue_leases :: "string list \<Rightarrow> string \<Rightarrow> leases \<Rightarrow> leases" where
  "release_queue_leases owned daemon_id ls =
     (if owned = [] then ls
      else delete_where (\<lambda>l. l_queue_name l \<in> set owned \<and> l_daemon_id l = daemon_id) ls)"

section \<open>The daemon's lease management\<close>

text \<open>
  A daemon and the set \<^verbatim>\<open>owned_queues\<close> it believes to own: at start, in every cycle of the main
  loop, and at shutdown. \<^verbatim>\<open>lease_secs\<close> is three check intervals.
\<close>

record daemon =
  dm_claimant :: claimant
  dm_queues :: "string list"
  dm_check_interval :: int
  dm_owned :: "string set"

definition lease_secs :: "daemon \<Rightarrow> int" where
  "lease_secs dm = dm_check_interval dm * 3"

definition daemon_start ::
  "claim_strategy \<Rightarrow> lease_env \<Rightarrow> daemon \<Rightarrow> leases \<Rightarrow> leases \<times> daemon" where
  "daemon_start strategy env dm ls =
     (let (ls', claimed) = claim_queue_leases strategy env (dm_claimant dm) (lease_secs dm) (dm_queues dm) ls
      in (ls', dm\<lparr>dm_owned := set claimed\<rparr>))"

definition daemon_cycle ::
  "claim_strategy \<Rightarrow> lease_env \<Rightarrow> timestamp \<Rightarrow> daemon \<Rightarrow> leases \<Rightarrow> leases \<times> daemon" where
  "daemon_cycle strategy env now dm ls =
     (let ls1 = (if dm_owned dm = {} then ls
                 else renew_queue_leases (sorted_list_of_set (dm_owned dm)) (cl_daemon (dm_claimant dm))
                        now (lease_secs dm) ls);
          unowned = sorted_list_of_set (set (dm_queues dm) - dm_owned dm)
      in if unowned = [] then (ls1, dm)
         else (let (ls2, newly) = claim_queue_leases strategy env (dm_claimant dm) (lease_secs dm) unowned ls1
               in (ls2, dm\<lparr>dm_owned := dm_owned dm \<union> set newly\<rparr>)))"

definition daemon_shutdown :: "daemon \<Rightarrow> leases \<Rightarrow> leases" where
  "daemon_shutdown dm ls =
     release_queue_leases (sorted_list_of_set (dm_owned dm)) (cl_daemon (dm_claimant dm)) ls"

section \<open>The lease row of a queue\<close>

definition wf_leases :: "leases \<Rightarrow> bool" where
  "wf_leases ls \<longleftrightarrow> distinct (map l_queue_name ls)"

lemma wf_leases_Cons [simp]:
  "wf_leases (a # ls) \<longleftrightarrow> (\<forall>r\<in>set ls. l_queue_name r \<noteq> l_queue_name a) \<and> wf_leases ls"
proof -
  have "l_queue_name a \<notin> l_queue_name ` set ls \<longleftrightarrow> (\<forall>r\<in>set ls. l_queue_name r \<noteq> l_queue_name a)"
    by (auto simp: image_iff)
  then show ?thesis by (simp add: wf_leases_def)
qed

lemma wf_leases_append:
  "wf_leases ls \<Longrightarrow> l_queue_name l \<notin> l_queue_name ` set ls \<Longrightarrow> wf_leases (ls @ [l])"
  by (simp add: wf_leases_def)

lemma lease_of_Some: "lease_of q ls = Some l \<Longrightarrow> l \<in> set ls \<and> l_queue_name l = q"
  unfolding lease_of_def by (drule find_mem) simp

lemma lease_of_None: "lease_of q ls = None \<longleftrightarrow> q \<notin> l_queue_name ` set ls"
  by (auto simp: lease_of_def find_none)

lemma take_lease_simps [simp]:
  "l_queue_name (take_lease c now secs v l) = l_queue_name l"
  "l_daemon_id (take_lease c now secs v l) = cl_daemon c"
  "l_expires_at (take_lease c now secs v l) = now + seconds secs"
  "l_version (take_lease c now secs v l) = v"
  by (simp_all add: take_lease_def)

lemma new_lease_simps [simp]:
  "l_queue_name (new_lease q c now secs) = q"
  "l_daemon_id (new_lease q c now secs) = cl_daemon c"
  "l_expires_at (new_lease q c now secs) = now + seconds secs"
  "l_version (new_lease q c now secs) = 0"
  by (simp_all add: new_lease_def)

lemma lease_of_update:
  assumes "\<And>l. l_queue_name (f l) = l_queue_name l"
  shows "lease_of q (update_where P f ls) = map_option (\<lambda>l. if P l then f l else l) (lease_of q ls)"
  by (induction ls) (auto simp: lease_of_def assms)

lemma wf_leases_update:
  assumes "\<And>l. l_queue_name (f l) = l_queue_name l"
  shows "wf_leases (update_where P f ls) = wf_leases ls"
proof -
  have "map l_queue_name (update_where P f ls) = map l_queue_name ls"
    by (induction ls) (auto simp: assms)
  then show ?thesis by (simp add: wf_leases_def)
qed

lemma lease_of_append:
  "lease_of q (ls @ [l]) =
     (case lease_of q ls of None \<Rightarrow> if l_queue_name l = q then Some l else None | Some r \<Rightarrow> Some r)"
  by (induction ls) (auto simp: lease_of_def)

lemma lease_of_delete:
  assumes "wf_leases ls"
  shows "lease_of q (delete_where P ls) =
    (case lease_of q ls of None \<Rightarrow> None | Some l \<Rightarrow> if P l then None else Some l)"
  using assms
proof (induction ls)
  case (Cons a ls)
  then show ?case
    by (cases "P a") (auto simp: lease_of_def find_none split: option.splits dest!: find_mem)
qed (simp add: lease_of_def)

lemma wf_leases_delete: "wf_leases ls \<Longrightarrow> wf_leases (delete_where P ls)"
  by (auto simp: wf_leases_def)

lemma cas_count:
  assumes "wf_leases ls"
  shows "rowcount (\<lambda>l. l_queue_name l = q \<and> P l) ls = 1 \<longleftrightarrow>
    (case lease_of q ls of None \<Rightarrow> False | Some l \<Rightarrow> P l)"
  using assms
proof (induction ls)
  case (Cons a ls)
  have "rowcount (\<lambda>l. l_queue_name l = q \<and> P l) ls = 0" if "l_queue_name a = q"
    using Cons.prems that unfolding rowcount_zero by auto
  then show ?case using Cons by (auto simp: lease_of_def)
qed (simp add: lease_of_def)


section \<open>What a claim does\<close>

text \<open>A queue is free for a claimant: nobody, the claimant itself or an expired holder has it.\<close>

definition lease_free :: "claimant \<Rightarrow> timestamp \<Rightarrow> leases \<Rightarrow> string \<Rightarrow> bool" where
  "lease_free c now ls q \<longleftrightarrow>
     (case lease_of q ls of
        None \<Rightarrow> True
      | Some l \<Rightarrow> l_daemon_id l = cl_daemon c \<or> l_expires_at l < now)"

text \<open>
  The contract both strategies share, for a claim whose read is \<open>consistent\<close> with the table its
  write meets: a refused claim changes nothing; an accepted one makes the claimant the holder of
  the queue's lease with the new expiry, touches no other queue, and never replaces another
  daemon's lease that had not expired when the claim began.
\<close>

locale lease_claim =
  fixes strategy :: claim_strategy
    and consistent :: "string \<Rightarrow> daemon_lease option \<Rightarrow> leases \<Rightarrow> bool"
  assumes read_consistent: "consistent q (lease_of q ls) ls"
    and refused_unchanged:
      "wf_leases ls \<Longrightarrow> consistent q seen ls \<Longrightarrow>
         claim_one_lease strategy q c now secs seen ls = (ls', False) \<Longrightarrow> ls' = ls"
    and accepted_holds:
      "wf_leases ls \<Longrightarrow> consistent q seen ls \<Longrightarrow>
         claim_one_lease strategy q c now secs seen ls = (ls', True) \<Longrightarrow>
         \<exists>l. lease_of q ls' = Some l \<and> l_daemon_id l = cl_daemon c \<and> l_expires_at l = now + seconds secs"
    and claim_local:
      "q' \<noteq> q \<Longrightarrow> claim_one_lease strategy q c now secs seen ls = (ls', ok) \<Longrightarrow>
         lease_of q' ls' = lease_of q' ls"
    and claim_wf:
      "wf_leases ls \<Longrightarrow> claim_one_lease strategy q c now secs seen ls = (ls', ok) \<Longrightarrow> wf_leases ls'"
    and live_not_taken:
      "wf_leases ls \<Longrightarrow> consistent q seen ls \<Longrightarrow> \<not> lease_free c now ls q \<Longrightarrow>
         \<not> snd (claim_one_lease strategy q c now secs seen ls)"
    and free_is_taken:
      "wf_leases ls \<Longrightarrow> seen = lease_of q ls \<Longrightarrow> lease_free c now ls q \<Longrightarrow>
         snd (claim_one_lease strategy q c now secs seen ls)"
begin

text \<open>Without interference \<^verbatim>\<open>claim_queue_leases\<close> returns exactly the claimable queues.\<close>

lemma claim_queues_exact:
  assumes "wf_leases ls" "distinct qs"
    and quiet: "le_before env = (\<lambda>_ s. s)" "le_between env = (\<lambda>_ s. s)"
    and r: "claim_queue_leases strategy env c secs qs ls = (ls', claimed)"
  shows "claimed = filter (\<lambda>q. lease_free c (le_now env q) ls q) qs \<and> wf_leases ls' \<and>
    (\<forall>q. q \<notin> set claimed \<longrightarrow> lease_of q ls' = lease_of q ls) \<and>
    (\<forall>q\<in>set claimed. \<exists>l. lease_of q ls' = Some l \<and> l_daemon_id l = cl_daemon c \<and>
       l_expires_at l = le_now env q + seconds secs)"
  using assms(1,2) r
proof (induction qs arbitrary: ls ls' claimed)
  case Nil
  then show ?case by simp
next
  case (Cons q qs)
  obtain ls1 ok where c1: "claim_one_lease strategy q c (le_now env q) secs (lease_of q ls) ls = (ls1, ok)"
    by fastforce
  obtain ls2 cl where c2: "claim_queue_leases strategy env c secs qs ls1 = (ls2, cl)" by fastforce
  have res: "ls' = ls2" "claimed = (if ok then q # cl else cl)"
    using Cons.prems(3) c1 c2 quiet by (simp_all add: Let_def)
  have w1: "wf_leases ls1" by (rule claim_wf [OF Cons.prems(1) c1])
  have same: "lease_of p ls1 = lease_of p ls" if "p \<noteq> q" for p by (rule claim_local [OF that c1])
  have "distinct qs" using Cons.prems(2) by simp
  note ih = Cons.IH [OF w1 this c2]
  have sub: "set cl \<subseteq> set qs" using ih by auto
  have q: "q \<notin> set cl" using sub Cons.prems(2) by auto
  have "lease_free c (le_now env p) ls1 p = lease_free c (le_now env p) ls p" if "p \<in> set qs" for p
  proof -
    have "p \<noteq> q" using that Cons.prems(2) by auto
    then show ?thesis using same [of p] by (simp add: lease_free_def)
  qed
  then have flt: "filter (\<lambda>p. lease_free c (le_now env p) ls1 p) qs =
      filter (\<lambda>p. lease_free c (le_now env p) ls p) qs" by (rule filter_cong [OF refl])
  have okq: "ok \<longleftrightarrow> lease_free c (le_now env q) ls q"
    using free_is_taken [OF Cons.prems(1) refl, of c "le_now env q" q secs]
      live_not_taken [OF Cons.prems(1) read_consistent, of c "le_now env q" q secs] c1
    by auto
  have lq: "lease_of q ls2 = lease_of q ls1" using ih q by blast
  have held: "ok \<Longrightarrow> \<exists>l. lease_of q ls1 = Some l \<and> l_daemon_id l = cl_daemon c \<and>
      l_expires_at l = le_now env q + seconds secs"
    using accepted_holds [OF Cons.prems(1) read_consistent, of q c "le_now env q" secs ls1] c1 by simp
  have unheld: "\<not> ok \<Longrightarrow> ls1 = ls"
    using refused_unchanged [OF Cons.prems(1) read_consistent, of q c "le_now env q" secs ls1] c1 by simp
  have cl: "cl = filter (\<lambda>p. lease_free c (le_now env p) ls p) qs" "wf_leases ls2"
    "\<And>p. p \<notin> set cl \<Longrightarrow> lease_of p ls2 = lease_of p ls1"
    "\<And>p. p \<in> set cl \<Longrightarrow> \<exists>l. lease_of p ls2 = Some l \<and> l_daemon_id l = cl_daemon c \<and>
       l_expires_at l = le_now env p + seconds secs"
    using ih flt by auto
  have f: "claimed = filter (\<lambda>q. lease_free c (le_now env q) ls q) (q # qs)"
    using res(2) okq cl(1) by simp
  have o: "lease_of p ls2 = lease_of p ls" if "p \<notin> set claimed" for p
    using that res(2) cl(3) same unheld by (cases "p = q"; cases ok) auto
  have h: "\<exists>l. lease_of p ls2 = Some l \<and> l_daemon_id l = cl_daemon c \<and>
       l_expires_at l = le_now env p + seconds secs" if "p \<in> set claimed" for p
    using that res(2) cl(4) held lq q by (cases "p = q"; cases ok) auto
  show ?case using f o h cl(2) res(1) by blast
qed

end

section \<open>The two strategies\<close>

text \<open>
  PostgreSQL: the row that was read is locked, so the write meets it. SQLite: the row may have
  changed, but every change of holder raised its version (releases apart, see \<open>lease_aba\<close>).
\<close>

definition locked_read :: "string \<Rightarrow> daemon_lease option \<Rightarrow> leases \<Rightarrow> bool" where
  "locked_read q seen ls \<longleftrightarrow> seen = None \<or> lease_of q ls = seen"

definition versioned_read :: "string \<Rightarrow> daemon_lease option \<Rightarrow> leases \<Rightarrow> bool" where
  "versioned_read q seen ls \<longleftrightarrow>
     (\<forall>r. seen = Some r \<longrightarrow> (\<exists>l. lease_of q ls = Some l \<and>
        (l_version r < l_version l \<or> l_version l = l_version r \<and> l_daemon_id l = l_daemon_id r)))"

lemmas claim_lease_defs = claim_one_lease_def insert_lease_def cas_lease_def Let_def

lemma claim_one_lease_local:
  "q' \<noteq> q \<Longrightarrow> claim_one_lease strategy q c now secs seen ls = (ls', ok) \<Longrightarrow>
     lease_of q' ls' = lease_of q' ls"
  by (auto simp: claim_lease_defs lease_of_update lease_of_append split: option.splits if_splits
      dest!: lease_of_Some intro!: option.map_ident_strong)

lemma claim_one_lease_wf:
  "wf_leases ls \<Longrightarrow> claim_one_lease strategy q c now secs seen ls = (ls', ok) \<Longrightarrow> wf_leases ls'"
  by (auto simp: claim_lease_defs wf_leases_update wf_leases_append split: option.splits if_splits)

lemma claim_one_lease_unseen:
  "claim_one_lease strategy q c now secs None ls =
     (case lease_of q ls of None \<Rightarrow> (ls @ [new_lease q c now secs], True) | Some _ \<Rightarrow> (ls, False))"
  by (auto simp: claim_lease_defs lease_of_None [symmetric] split: option.splits)

lemma claim_one_lease_seen:
  "claim_one_lease Skip_locked q c now secs (Some r) ls =
     (if l_expires_at r < now \<or> l_daemon_id r = cl_daemon c
      then (update_where (\<lambda>l. l_queue_name l = q) (take_lease c now secs (l_version r + 1)) ls, True)
      else (ls, False))"
  "strategy \<noteq> Skip_locked \<Longrightarrow> claim_one_lease strategy q c now secs (Some r) ls =
     (if l_daemon_id r = cl_daemon c then cas_lease (\<lambda>_. True) q c now secs (l_version r) ls
      else if l_expires_at r < now
      then cas_lease (\<lambda>l. l_expires_at l < now) q c now secs (l_version r) ls else (ls, False))"
  by (simp_all add: claim_one_lease_def)

lemmas claim_lease_simps = claim_one_lease_unseen claim_one_lease_seen

lemma cas_refused:
  assumes "wf_leases ls" "\<not> snd (cas_lease P q c now secs v ls)"
  shows "fst (cas_lease P q c now secs v ls) = ls"
proof -
  have "lease_of q ls = None \<or> (\<exists>l. lease_of q ls = Some l \<and> \<not> (l_version l = v \<and> P l))"
    using assms cas_count [OF assms(1), of q "\<lambda>l. l_version l = v \<and> P l"]
    by (auto simp: cas_lease_def Let_def split: option.splits)
  then have "\<forall>l\<in>set ls. \<not> (l_queue_name l = q \<and> l_version l = v \<and> P l)"
    using assms(1) lease_of_None [of q ls]
    by (metis distinct_key_unique image_eqI lease_of_Some wf_leases_def)
  then show ?thesis by (simp add: cas_lease_def Let_def update_where_none)
qed

lemma cas_accepted:
  assumes "wf_leases ls"
  shows "snd (cas_lease P q c now secs v ls) \<longleftrightarrow>
    (case lease_of q ls of None \<Rightarrow> False | Some l \<Rightarrow> l_version l = v \<and> P l)"
  using cas_count [OF assms, of q "\<lambda>l. l_version l = v \<and> P l"] by (simp add: cas_lease_def Let_def)

lemma cas_row:
  "lease_of q (fst (cas_lease P q c now secs v ls)) =
     map_option (\<lambda>l. if l_version l = v \<and> P l then take_lease c now secs (v + 1) l else l) (lease_of q ls)"
proof -
  have "map_option (\<lambda>l. if l_queue_name l = q \<and> l_version l = v \<and> P l
          then take_lease c now secs (v + 1) l else l) (lease_of q ls) =
        map_option (\<lambda>l. if l_version l = v \<and> P l then take_lease c now secs (v + 1) l else l) (lease_of q ls)"
    by (cases "lease_of q ls") (auto dest!: lease_of_Some)
  then show ?thesis by (simp add: cas_lease_def Let_def lease_of_update)
qed

lemma cas_False:
  assumes "wf_leases ls" "cas_lease P q c now secs v ls = (ls', False)"
  shows "ls' = ls"
  using cas_refused [OF assms(1), of P q c now secs v] assms(2) by simp

lemma cas_True:
  assumes "wf_leases ls" "cas_lease P q c now secs v ls = (ls', True)"
  shows "\<exists>l. lease_of q ls' = Some l \<and> l_daemon_id l = cl_daemon c \<and> l_expires_at l = now + seconds secs"
  using cas_accepted [OF assms(1), of P q c now secs v] cas_row [of q P c now secs v ls] assms(2)
  by (auto split: option.splits)

lemma locked_update:
  assumes "lease_of q ls = Some r"
  shows "\<exists>l. lease_of q (update_where (\<lambda>l. l_queue_name l = q) (take_lease c now secs v) ls) = Some l \<and>
    l_daemon_id l = cl_daemon c \<and> l_expires_at l = now + seconds secs"
  using assms lease_of_Some [OF assms] by (simp add: lease_of_update)

interpretation row_lock: lease_claim Skip_locked locked_read
proof unfold_locales
  fix q ls show "locked_read q (lease_of q ls) ls" by (simp add: locked_read_def)
next
  fix ls ls' q seen c now secs
  assume "locked_read q seen ls" "claim_one_lease Skip_locked q c now secs seen ls = (ls', False)"
  then show "ls' = ls"
    by (cases seen) (auto simp: claim_lease_simps split: if_splits option.splits)
next
  fix ls ls' q seen c now secs
  assume "locked_read q seen ls" "claim_one_lease Skip_locked q c now secs seen ls = (ls', True)"
  then show "\<exists>l. lease_of q ls' = Some l \<and> l_daemon_id l = cl_daemon c \<and> l_expires_at l = now + seconds secs"
    using locked_update [of q ls _ c now secs]
    by (cases seen) (auto simp: claim_lease_simps locked_read_def
        lease_of_append split: option.splits if_splits)
next
  fix ls q seen c now secs
  assume "locked_read q seen ls" "\<not> lease_free c now ls q"
  then show "\<not> snd (claim_one_lease Skip_locked q c now secs seen ls)"
    by (cases seen)
      (auto simp: claim_lease_simps locked_read_def lease_free_def
        split: option.splits)
next
  fix ls seen q c now secs
  assume "seen = lease_of q ls" "lease_free c now ls q"
  then show "snd (claim_one_lease Skip_locked q c now secs seen ls)"
    by (auto simp: claim_lease_simps lease_free_def split: option.splits)
qed (auto intro: claim_one_lease_local claim_one_lease_wf)

lemma versioned_laws:
  assumes st: "strategy \<noteq> Skip_locked"
  shows "lease_claim strategy versioned_read"
proof unfold_locales
  fix q ls show "versioned_read q (lease_of q ls) ls" by (simp add: versioned_read_def)
next
  fix ls ls' q seen c now secs
  assume w: "wf_leases ls" and "claim_one_lease strategy q c now secs seen ls = (ls', False)"
  then show "ls' = ls"
    using cas_False [OF w] st
    by (cases seen) (auto simp: claim_lease_simps split: if_splits option.splits)
next
  fix ls ls' q seen c now secs
  assume w: "wf_leases ls" and "claim_one_lease strategy q c now secs seen ls = (ls', True)"
  then show "\<exists>l. lease_of q ls' = Some l \<and> l_daemon_id l = cl_daemon c \<and> l_expires_at l = now + seconds secs"
    using cas_True [OF w] st
    by (cases seen) (auto simp: claim_lease_simps lease_of_append
        split: option.splits if_splits)
next
  fix ls q seen c now secs
  assume w: "wf_leases ls" and c: "versioned_read q seen ls" and l: "\<not> lease_free c now ls q"
  then show "\<not> snd (claim_one_lease strategy q c now secs seen ls)"
    using cas_accepted [OF w, of _ q c now secs] st
    by (cases seen) (auto simp: claim_lease_simps versioned_read_def
        lease_free_def split: option.splits)
next
  fix ls seen q c now secs
  assume w: "wf_leases ls" and "seen = lease_of q ls" "lease_free c now ls q"
  then show "snd (claim_one_lease strategy q c now secs seen ls)"
    using cas_accepted [OF w, of _ q c now secs] st
    by (auto simp: claim_lease_simps lease_free_def split: option.splits)
qed (auto intro: claim_one_lease_local claim_one_lease_wf)

interpretation optimistic: lease_claim Optimistic_version versioned_read
  by (rule versioned_laws) simp

interpretation basic: lease_claim Basic_lock versioned_read
  by (rule versioned_laws) simp

section \<open>Claims in flight\<close>

record pending =
  pe_queue :: string
  pe_claimant :: claimant
  pe_now :: timestamp
  pe_secs :: int
  pe_seen :: "daemon_lease option"

record lease_sys =
  ly_clock :: timestamp
  ly_rows :: leases
  ly_pending :: "pending list"

text \<open>
  The transactions of the lease table. \<open>rel\<close> says whether releases occur (a daemon releases its
  leases at shutdown only). A row that a PostgreSQL claim has read stays locked until that claim
  ends: no other claim reads it for update, and no renewal or release writes it.
\<close>

definition row_locked :: "claim_strategy \<Rightarrow> lease_sys \<Rightarrow> string \<Rightarrow> bool" where
  "row_locked strategy s q \<longleftrightarrow> strategy = Skip_locked \<and>
     (\<exists>p\<in>set (ly_pending s). pe_queue p = q \<and> pe_seen p \<noteq> None)"

definition begin_claim :: "string \<Rightarrow> claimant \<Rightarrow> timestamp \<Rightarrow> int \<Rightarrow> lease_sys \<Rightarrow> lease_sys" where
  "begin_claim q c now secs s =
     s\<lparr>ly_pending := \<lparr>pe_queue = q, pe_claimant = c, pe_now = now, pe_secs = secs,
                      pe_seen = lease_of q (ly_rows s)\<rparr> # ly_pending s\<rparr>"

definition end_claim :: "claim_strategy \<Rightarrow> pending \<Rightarrow> lease_sys \<Rightarrow> lease_sys" where
  "end_claim strategy p s =
     s\<lparr>ly_rows := fst (claim_one_lease strategy (pe_queue p) (pe_claimant p) (pe_now p) (pe_secs p)
                         (pe_seen p) (ly_rows s)),
       ly_pending := remove1 p (ly_pending s)\<rparr>"

inductive lease_step :: "claim_strategy \<Rightarrow> bool \<Rightarrow> lease_sys \<Rightarrow> lease_sys \<Rightarrow> bool"
  for strategy :: claim_strategy and rel :: bool where
  ls_tick: "ly_clock s \<le> t \<Longrightarrow> lease_step strategy rel s (s\<lparr>ly_clock := t\<rparr>)"
| ls_read: "\<not> row_locked strategy s q \<Longrightarrow> now \<le> ly_clock s \<Longrightarrow>
    lease_step strategy rel s (begin_claim q c now secs s)"
| ls_write: "p \<in> set (ly_pending s) \<Longrightarrow>
    lease_step strategy rel s (end_claim strategy p s)"
| ls_renew: "\<forall>q\<in>set qs. \<not> row_locked strategy s q \<Longrightarrow>
    lease_step strategy rel s (s\<lparr>ly_rows := renew_queue_leases qs d (ly_clock s) secs (ly_rows s)\<rparr>)"
| ls_release: "rel \<Longrightarrow> \<forall>q\<in>set qs. \<not> row_locked strategy s q \<Longrightarrow>
    lease_step strategy rel s (s\<lparr>ly_rows := release_queue_leases qs d (ly_rows s)\<rparr>)"

lemma begin_claim_simps [simp]:
  "ly_clock (begin_claim q c now secs s) = ly_clock s"
  "ly_rows (begin_claim q c now secs s) = ly_rows s"
  "ly_pending (begin_claim q c now secs s) =
     \<lparr>pe_queue = q, pe_claimant = c, pe_now = now, pe_secs = secs, pe_seen = lease_of q (ly_rows s)\<rparr> #
       ly_pending s"
  by (simp_all add: begin_claim_def)

lemma end_claim_simps [simp]:
  "ly_clock (end_claim strategy p s) = ly_clock s"
  "ly_rows (end_claim strategy p s) =
     fst (claim_one_lease strategy (pe_queue p) (pe_claimant p) (pe_now p) (pe_secs p) (pe_seen p) (ly_rows s))"
  "ly_pending (end_claim strategy p s) = remove1 p (ly_pending s)"
  by (simp_all add: end_claim_def)

text \<open>
  The invariant: the table is well formed, the reads of the claims in flight are consistent with
  it and older than the clock, and on PostgreSQL no two claims hold the same row.
\<close>

definition read_ok :: "claim_strategy \<Rightarrow> string \<Rightarrow> daemon_lease option \<Rightarrow> leases \<Rightarrow> bool" where
  "read_ok strategy = (if strategy = Skip_locked then locked_read else versioned_read)"

definition lock_key :: "pending list \<Rightarrow> string list" where
  "lock_key ps = map pe_queue (filter (\<lambda>p. pe_seen p \<noteq> None) ps)"

definition lease_inv :: "claim_strategy \<Rightarrow> lease_sys \<Rightarrow> bool" where
  "lease_inv strategy s \<longleftrightarrow> wf_leases (ly_rows s) \<and>
     (\<forall>p\<in>set (ly_pending s). pe_now p \<le> ly_clock s \<and> read_ok strategy (pe_queue p) (pe_seen p) (ly_rows s)) \<and>
     (strategy = Skip_locked \<longrightarrow> distinct (lock_key (ly_pending s)))"

lemma read_ok_laws: "lease_claim strategy (read_ok strategy)"
  using row_lock.lease_claim_axioms versioned_laws by (cases "strategy = Skip_locked") (auto simp: read_ok_def)

text \<open>A write that leaves the row of \<open>q\<close> or raises its version keeps every read of \<open>q\<close> consistent.\<close>

lemma versioned_read_mono:
  assumes "versioned_read q seen ls"
    and "\<And>l. lease_of q ls = Some l \<Longrightarrow> \<exists>l'. lease_of q ls' = Some l' \<and>
      (l_version l < l_version l' \<or> l_version l' = l_version l \<and> l_daemon_id l' = l_daemon_id l)"
  shows "versioned_read q seen ls'"
  unfolding versioned_read_def
proof (intro allI impI)
  fix r assume "seen = Some r"
  then obtain l where l: "lease_of q ls = Some l"
    "l_version r < l_version l \<or> l_version l = l_version r \<and> l_daemon_id l = l_daemon_id r"
    using assms(1) by (auto simp: versioned_read_def)
  then obtain l' where "lease_of q ls' = Some l'"
    "l_version l < l_version l' \<or> l_version l' = l_version l \<and> l_daemon_id l' = l_daemon_id l"
    using assms(2) by blast
  with l show "\<exists>l'. lease_of q ls' = Some l' \<and>
      (l_version r < l_version l' \<or> l_version l' = l_version r \<and> l_daemon_id l' = l_daemon_id r)"
    by auto
qed

lemma claim_raises_version:
  assumes "strategy \<noteq> Skip_locked" "lease_of q ls = Some l"
  shows "\<exists>l'. lease_of q (fst (claim_one_lease strategy p c now secs seen ls)) = Some l' \<and>
    (l_version l < l_version l' \<or> l_version l' = l_version l \<and> l_daemon_id l' = l_daemon_id l)"
proof (cases "q = p")
  case True
  then show ?thesis using assms cas_row [of p _ c now secs _ ls]
    by (cases seen) (auto simp: claim_lease_simps lease_of_append split: option.splits)
next
  case False
  then show ?thesis using assms(2) claim_one_lease_local [of q p strategy c now secs seen ls] by (simp add: prod_eq_iff)
qed

lemma renew_row:
  "lease_of q (renew_queue_leases qs d now secs ls) =
     map_option (\<lambda>l. if q \<in> set qs \<and> l_daemon_id l = d then l\<lparr>l_expires_at := now + seconds secs\<rparr> else l)
       (lease_of q ls)"
  by (cases "lease_of q ls")
    (auto simp: renew_queue_leases_def lease_of_update dest!: lease_of_Some)

lemma release_row:
  assumes "wf_leases ls"
  shows "lease_of q (release_queue_leases qs d ls) =
    (case lease_of q ls of None \<Rightarrow> None | Some l \<Rightarrow> if q \<in> set qs \<and> l_daemon_id l = d then None else Some l)"
  using lease_of_delete [OF assms]
  by (auto simp: release_queue_leases_def split: option.splits dest!: lease_of_Some)

lemma locked_write_keeps:
  assumes i: "lease_inv Skip_locked s" and p: "p \<in> set (ly_pending s)"
    and p': "p' \<in> set (remove1 p (ly_pending s))" "pe_seen p' = Some r"
  shows "lease_of (pe_queue p') (fst (claim_one_lease Skip_locked (pe_queue p) (pe_claimant p) (pe_now p)
    (pe_secs p) (pe_seen p) (ly_rows s))) = lease_of (pe_queue p') (ly_rows s)"
proof (cases "pe_queue p' = pe_queue p")
  case True
  have "pe_seen p = None"
  proof (rule ccontr)
    assume n: "pe_seen p \<noteq> None"
    obtain xs ys where sp: "ly_pending s = xs @ p # ys" "p \<notin> set xs"
      using split_list_first [OF p] by blast
    then have "p' \<in> set (xs @ ys)" using p'(1) by (simp add: remove1_append)
    then have "pe_queue p' \<in> set (lock_key (xs @ ys))" using p'(2) by (auto simp: lock_key_def)
    moreover have "distinct (lock_key (ly_pending s))" using i by (simp add: lease_inv_def)
    ultimately show False using sp n True by (auto simp: lock_key_def)
  qed
  moreover have "lease_of (pe_queue p) (ly_rows s) = Some r"
    using i p' True set_remove1_subset [of p "ly_pending s"]
    by (force simp: lease_inv_def read_ok_def locked_read_def)
  ultimately show ?thesis using True by (simp add: claim_one_lease_unseen)
next
  case False
  then show ?thesis
    using claim_one_lease_local [of "pe_queue p'" "pe_queue p"] by (metis prod.collapse)
qed

lemma lock_key_remove1: "distinct (lock_key ps) \<Longrightarrow> distinct (lock_key (remove1 p ps))"
proof (induction ps)
  case (Cons a ps)
  have "set (lock_key (remove1 p ps)) \<subseteq> set (lock_key ps)"
    using set_remove1_subset [of p ps] by (auto simp: lock_key_def)
  then show ?case using Cons by (auto simp: lock_key_def split: if_splits)
qed (simp add: lock_key_def)

lemma read_kept:
  assumes "lease_inv strategy s" "p \<in> set (ly_pending s)"
    and k: "strategy = Skip_locked \<Longrightarrow> pe_seen p \<noteq> None \<Longrightarrow>
        lease_of (pe_queue p) ls' = lease_of (pe_queue p) (ly_rows s)"
    and v: "\<And>l. strategy \<noteq> Skip_locked \<Longrightarrow> lease_of (pe_queue p) (ly_rows s) = Some l \<Longrightarrow>
        \<exists>l'. lease_of (pe_queue p) ls' = Some l' \<and>
          (l_version l < l_version l' \<or> l_version l' = l_version l \<and> l_daemon_id l' = l_daemon_id l)"
  shows "read_ok strategy (pe_queue p) (pe_seen p) ls'"
proof (cases "strategy = Skip_locked")
  case True
  have "locked_read (pe_queue p) (pe_seen p) (ly_rows s)"
    using assms(1,2) True by (auto simp: lease_inv_def read_ok_def)
  then show ?thesis using k True by (cases "pe_seen p") (auto simp: read_ok_def locked_read_def)
next
  case False
  have "versioned_read (pe_queue p) (pe_seen p) (ly_rows s)"
    using assms(1,2) False by (auto simp: lease_inv_def read_ok_def)
  then have "versioned_read (pe_queue p) (pe_seen p) ls'"
    by (rule versioned_read_mono) (use v False in blast)
  then show ?thesis using False by (simp add: read_ok_def)
qed

lemma lease_step_inv:
  assumes "lease_step strategy rel s s'" "lease_inv strategy s" "strategy = Skip_locked \<or> \<not> rel"
  shows "lease_inv strategy s'"
  using assms(1)
proof cases
  case (ls_tick t)
  then show ?thesis using assms(2) by (fastforce simp: lease_inv_def)
next
  case (ls_read q now c secs)
  have "read_ok strategy q (lease_of q (ly_rows s)) (ly_rows s)"
    using read_ok_laws [of strategy] by (rule lease_claim.read_consistent)
  moreover have "q \<notin> set (lock_key (ly_pending s))" if "strategy = Skip_locked"
    using ls_read(2) that by (auto simp: row_locked_def lock_key_def)
  ultimately show ?thesis
    using assms(2) ls_read by (auto simp: lease_inv_def lock_key_def)
next
  case (ls_write p)
  let ?ls = "ly_rows s'"
  have w: "wf_leases ?ls"
    using assms(2) ls_write claim_one_lease_wf by (fastforce simp: lease_inv_def prod_eq_iff)
  have "read_ok strategy (pe_queue p') (pe_seen p') ?ls" if p': "p' \<in> set (remove1 p (ly_pending s))" for p'
  proof (rule read_kept [OF assms(2)])
    show "p' \<in> set (ly_pending s)" using p' set_remove1_subset by fast
  next
    assume "strategy = Skip_locked" "pe_seen p' \<noteq> None"
    then show "lease_of (pe_queue p') ?ls = lease_of (pe_queue p') (ly_rows s)"
      using locked_write_keeps [OF _ ls_write(2) p'] assms(2) ls_write(1) by auto
  next
    fix l assume "strategy \<noteq> Skip_locked" "lease_of (pe_queue p') (ly_rows s) = Some l"
    from claim_raises_version [OF this] show "\<exists>l'. lease_of (pe_queue p') ?ls = Some l' \<and>
        (l_version l < l_version l' \<or> l_version l' = l_version l \<and> l_daemon_id l' = l_daemon_id l)"
      using ls_write(1) by simp
  qed
  then show ?thesis using w assms(2) ls_write lock_key_remove1 set_remove1_subset [of p "ly_pending s"]
    by (auto simp: lease_inv_def)
next
  case (ls_renew qs d secs)
  have "read_ok strategy (pe_queue p) (pe_seen p) (ly_rows s')" if p: "p \<in> set (ly_pending s)" for p
    by (rule read_kept [OF assms(2) p])
      (use ls_renew p in \<open>auto simp: renew_row row_locked_def map_option_case split: option.splits\<close>)
  then show ?thesis
    using assms(2) ls_renew by (auto simp: lease_inv_def renew_queue_leases_def wf_leases_update)
next
  case (ls_release qs d)
  have w: "wf_leases (ly_rows s)" using assms(2) by (simp add: lease_inv_def)
  have "read_ok strategy (pe_queue p) (pe_seen p) (ly_rows s')" if p: "p \<in> set (ly_pending s)" for p
    by (rule read_kept [OF assms(2) p])
      (use ls_release p assms(3) in \<open>auto simp: release_row [OF w] row_locked_def split: option.splits\<close>)
  then show ?thesis
    using assms(2) ls_release by (auto simp: lease_inv_def release_queue_leases_def wf_leases_delete)
qed

lemma lease_steps_inv:
  "(lease_step strategy rel)\<^sup>*\<^sup>* s s' \<Longrightarrow> lease_inv strategy s \<Longrightarrow> strategy = Skip_locked \<or> \<not> rel \<Longrightarrow>
     lease_inv strategy s'"
  by (induction rule: rtranclp_induct) (auto intro: lease_step_inv)

section \<open>A live lease is never stolen\<close>

lemma write_keeps_live:
  assumes i: "lease_inv strategy s" and p: "p \<in> set (ly_pending s)"
    and l: "lease_of q (ly_rows s) = Some l" and live: "ly_clock s \<le> l_expires_at l"
  shows "\<exists>l'. lease_of q (fst (claim_one_lease strategy (pe_queue p) (pe_claimant p) (pe_now p) (pe_secs p)
      (pe_seen p) (ly_rows s))) = Some l' \<and> l_daemon_id l' = l_daemon_id l"
proof -
  let ?r = "claim_one_lease strategy (pe_queue p) (pe_claimant p) (pe_now p) (pe_secs p) (pe_seen p) (ly_rows s)"
  have w: "wf_leases (ly_rows s)" and c: "read_ok strategy (pe_queue p) (pe_seen p) (ly_rows s)"
    and t: "pe_now p \<le> ly_clock s" using i p by (auto simp: lease_inv_def)
  note laws = read_ok_laws [of strategy]
  show ?thesis
  proof (cases "q = pe_queue p \<and> l_daemon_id l \<noteq> cl_daemon (pe_claimant p)")
    case True
    then have "\<not> lease_free (pe_claimant p) (pe_now p) (ly_rows s) (pe_queue p)"
      using l live t by (simp add: lease_free_def)
    from lease_claim.live_not_taken [OF laws w c this]
    have "?r = (fst ?r, False)" by (simp add: prod_eq_iff)
    from lease_claim.refused_unchanged [OF laws w c this] show ?thesis using l by simp
  next
    case False
    show ?thesis
    proof (cases "q = pe_queue p \<and> snd ?r")
      case True
      then have "?r = (fst ?r, True)" by (simp add: prod_eq_iff)
      from lease_claim.accepted_holds [OF laws w c this] show ?thesis using True False by auto
    next
      case F: False
      have "lease_of q (fst ?r) = lease_of q (ly_rows s)"
      proof (cases "q = pe_queue p")
        case True
        then have "?r = (fst ?r, False)" using F by (simp add: prod_eq_iff)
        from lease_claim.refused_unchanged [OF laws w c this] show ?thesis by simp
      next
        case False
        then show ?thesis using claim_one_lease_local by (metis prod.collapse)
      qed
      then show ?thesis using l by simp
    qed
  qed
qed

definition lease_init :: "timestamp \<Rightarrow> lease_sys" where
  "lease_init t = \<lparr>ly_clock = t, ly_rows = [], ly_pending = []\<rparr>"

lemma lease_init_inv: "lease_inv strategy (lease_init t)"
  by (simp add: lease_inv_def lease_init_def wf_leases_def lock_key_def)

text \<open>C26: while a lease has not expired, no transaction of any other daemon takes it over, however the
  statements of the claims interleave: only the holder's own release removes it. This holds on
  PostgreSQL with releases, and with the version column (SQLite) as long as no daemon releases.\<close>

theorem live_lease_not_stolen:
  assumes run: "(lease_step strategy rel)\<^sup>*\<^sup>* (lease_init t) s"
    and mode: "strategy = Skip_locked \<or> \<not> rel"
    and step: "lease_step strategy rel s s'"
    and l: "lease_of q (ly_rows s) = Some l" and live: "ly_clock s \<le> l_expires_at l"
  shows "(\<exists>l'. lease_of q (ly_rows s') = Some l' \<and> l_daemon_id l' = l_daemon_id l) \<or>
    (rel \<and> (\<exists>qs. q \<in> set qs \<and> ly_rows s' = release_queue_leases qs (l_daemon_id l) (ly_rows s)))"
proof -
  have i: "lease_inv strategy s" by (rule lease_steps_inv [OF run lease_init_inv mode])
  then have w: "wf_leases (ly_rows s)" by (simp add: lease_inv_def)
  from step show ?thesis
  proof cases
    case (ls_write p)
    then show ?thesis using write_keeps_live [OF i ls_write(2) l live] by simp
  next
    case (ls_renew qs d secs)
    then show ?thesis using l by (simp add: renew_row)
  next
    case (ls_release qs d)
    then show ?thesis using l release_row [OF w, of q qs d] by (cases "q \<in> set qs \<and> l_daemon_id l = d") auto
  qed (use l in auto)
qed

text \<open>A claim that runs undisturbed, as two steps of the system.\<close>

definition claim_run :: "claim_strategy \<Rightarrow> string \<Rightarrow> claimant \<Rightarrow> int \<Rightarrow> lease_sys \<Rightarrow> lease_sys" where
  "claim_run strategy q c secs s =
     (let s1 = begin_claim q c (ly_clock s) secs s in end_claim strategy (hd (ly_pending s1)) s1)"

lemma claim_run_steps:
  assumes "\<not> row_locked strategy s q"
  shows "(lease_step strategy rel)\<^sup>*\<^sup>* s (claim_run strategy q c secs s)"
proof -
  let ?s1 = "begin_claim q c (ly_clock s) secs s"
  have "lease_step strategy rel s ?s1" using assms by (intro ls_read) simp_all
  moreover have "lease_step strategy rel ?s1 (end_claim strategy (hd (ly_pending ?s1)) ?s1)"
    by (intro ls_write) simp
  ultimately show ?thesis by (simp add: claim_run_def Let_def)
qed

definition host :: "string \<Rightarrow> claimant" where
  "host d = \<lparr>cl_daemon = d, cl_node = ''node'', cl_pid = 1\<rparr>"

definition sample_leases :: lease_sys where
  "sample_leases = begin_claim ''q'' (host ''b'') 5 30 ((claim_run Skip_locked ''q'' (host ''a'') 30 (lease_init 0))\<lparr>ly_clock := 5\<rparr>)"

theorem live_lease_not_stolen_witness:
  "\<exists>l'. lease_of ''q'' (ly_rows (end_claim Skip_locked (hd (ly_pending sample_leases)) sample_leases)) = Some l' \<and>
     l_daemon_id l' = ''a''"
proof -
  let ?s0 = "claim_run Skip_locked ''q'' (host ''a'') 30 (lease_init 0)"
  have "(lease_step Skip_locked False)\<^sup>*\<^sup>* (lease_init 0) ?s0"
    by (rule claim_run_steps) (simp add: row_locked_def lease_init_def)
  moreover have "lease_step Skip_locked False ?s0 (?s0\<lparr>ly_clock := 5\<rparr>)"
    by (rule ls_tick) (simp add: claim_run_def lease_init_def)
  moreover have "lease_step Skip_locked False (?s0\<lparr>ly_clock := 5\<rparr>) sample_leases"
    unfolding sample_leases_def
    by (rule ls_read) (simp_all add: row_locked_def claim_run_def lease_init_def)
  ultimately have run: "(lease_step Skip_locked False)\<^sup>*\<^sup>* (lease_init 0) sample_leases" by simp
  have step: "lease_step Skip_locked False sample_leases
      (end_claim Skip_locked (hd (ly_pending sample_leases)) sample_leases)"
    by (rule ls_write) (simp add: sample_leases_def)
  have "lease_of ''q'' (ly_rows sample_leases) = Some (new_lease ''q'' (host ''a'') 0 30)"
    "ly_clock sample_leases \<le> l_expires_at (new_lease ''q'' (host ''a'') 0 30)" by code_simp+
  from live_lease_not_stolen [OF run _ step this] show ?thesis by (simp add: host_def)
qed

text \<open>With the version column the exclusion has one gap: releasing deletes the row, and the next
  claim starts again at version 0. A daemon that read its own old lease, then stalled while that
  lease was taken over, released and claimed anew by a third daemon, passes the version check and
  takes the third daemon's live lease.\<close>

theorem lease_version_reuse:
  "\<exists>s s' l l'. (lease_step Optimistic_version True)\<^sup>*\<^sup>* (lease_init 0) s \<and>
     lease_step Optimistic_version True s s' \<and>
     lease_of ''q'' (ly_rows s) = Some l \<and> ly_clock s \<le> l_expires_at l \<and>
     lease_of ''q'' (ly_rows s') = Some l' \<and> l_daemon_id l \<noteq> l_daemon_id l' \<and>
     (\<forall>qs d. ly_rows s' \<noteq> release_queue_leases qs d (ly_rows s))"
proof -
  let ?st = "lease_step Optimistic_version True"
  define s1 where "s1 = claim_run Optimistic_version ''q'' (host ''a'') 30 (lease_init 0)"
  define s2 where "s2 = begin_claim ''q'' (host ''a'') 0 30 s1"
  define s3 where "s3 = claim_run Optimistic_version ''q'' (host ''b'') 30 (s2\<lparr>ly_clock := seconds 40\<rparr>)"
  define s4 where "s4 = s3\<lparr>ly_rows := release_queue_leases [''q''] ''b'' (ly_rows s3)\<rparr>"
  define s where "s = claim_run Optimistic_version ''q'' (host ''c'') 30 s4"
  let ?p = "hd (ly_pending s2)"
  define s' where "s' = end_claim Optimistic_version ?p s"
  note [simp] = row_locked_def
  have "?st\<^sup>*\<^sup>* (lease_init 0) s1" unfolding s1_def by (rule claim_run_steps) simp
  also have "?st s1 s2" unfolding s2_def by (rule ls_read) (simp_all add: s1_def claim_run_def lease_init_def)
  also have "?st s2 (s2\<lparr>ly_clock := seconds 40\<rparr>)"
    by (rule ls_tick) (simp add: s2_def s1_def claim_run_def lease_init_def seconds_def)
  also have "?st\<^sup>*\<^sup>* \<dots> s3" unfolding s3_def by (rule claim_run_steps) simp
  also have "?st s3 s4" unfolding s4_def by (rule ls_release) simp_all
  also have "?st\<^sup>*\<^sup>* s4 s" unfolding s_def by (rule claim_run_steps) simp
  finally have run: "?st\<^sup>*\<^sup>* (lease_init 0) s" .
  note defs = s'_def s_def s4_def s3_def s2_def s1_def
  have "?p \<in> set (ly_pending s)" unfolding s_def s4_def s3_def s2_def s1_def by code_simp
  then have step: "?st s s'" unfolding s'_def by (rule ls_write)
  have rows: "ly_rows s = [new_lease ''q'' (host ''c'') (seconds 40) 30]"
    "ly_rows s' = [take_lease (host ''a'') 0 30 1 (new_lease ''q'' (host ''c'') (seconds 40) 30)]"
    "ly_clock s = seconds 40"
    unfolding defs by code_simp+
  then have "\<forall>qs d. ly_rows s' \<noteq> release_queue_leases qs d (ly_rows s)"
    by (auto simp: release_queue_leases_def new_lease_def take_lease_def host_def)
  with run step rows show ?thesis
    by (intro exI [of _ s] exI [of _ s']) (simp add: lease_of_def host_def seconds_def)
qed

section \<open>What the daemon believes\<close>

definition quiet_leases :: "timestamp \<Rightarrow> lease_env" where
  "quiet_leases now = \<lparr>le_now = (\<lambda>_. now), le_before = (\<lambda>_ s. s), le_between = (\<lambda>_ s. s)\<rparr>"

text \<open>Undisturbed, \<^verbatim>\<open>claim_queue_leases\<close> returns exactly the queues whose lease is absent, expired or
  the daemon's own, in order; the daemon then holds those leases until the new expiry and no other
  lease is touched. The same holds for every claim strategy.\<close>

theorem claim_queue_leases_exact:
  assumes "wf_leases ls" "distinct qs"
    and r: "claim_queue_leases strategy (quiet_leases now) c secs qs ls = (ls', claimed)"
  shows "claimed = filter (lease_free c now ls) qs \<and> wf_leases ls' \<and>
    (\<forall>q. q \<notin> set claimed \<longrightarrow> lease_of q ls' = lease_of q ls) \<and>
    (\<forall>q\<in>set claimed. \<exists>l. lease_of q ls' = Some l \<and> l_daemon_id l = cl_daemon c \<and>
       l_expires_at l = now + seconds secs)"
  using lease_claim.claim_queues_exact [OF read_ok_laws assms(1,2) _ _ r] by (simp add: quiet_leases_def)

theorem claim_queue_leases_exact_witness:
  "snd (claim_queue_leases Optimistic_version (quiet_leases 9) (host ''a'') 30 [''x'', ''y'']
     [new_lease ''x'' (host ''b'') 0 30]) = [''y'']"
proof -
  obtain ls' claimed where r: "claim_queue_leases Optimistic_version (quiet_leases 9) (host ''a'') 30
      [''x'', ''y''] [new_lease ''x'' (host ''b'') 0 30] = (ls', claimed)" by fastforce
  have "claimed = filter (lease_free (host ''a'') 9 [new_lease ''x'' (host ''b'') 0 30]) [''x'', ''y'']"
    using claim_queue_leases_exact [OF _ _ r] by (simp add: wf_leases_def)
  also have "\<dots> = [''y'']" by code_simp
  finally show ?thesis using r by simp
qed

lemma wf_renew: "wf_leases (renew_queue_leases qs d now secs ls) = wf_leases ls"
  by (simp add: renew_queue_leases_def wf_leases_update)

lemma daemon_cycle_unfold:
  assumes "finite (dm_owned dm)" "wf_leases ls"
  shows "\<exists>ls1 new. dm_owned (snd (daemon_cycle strategy (quiet_leases now) now dm ls)) = dm_owned dm \<union> set new \<and>
    (\<forall>q. lease_of q ls1 = map_option (\<lambda>l. if q \<in> dm_owned dm \<and> l_daemon_id l = cl_daemon (dm_claimant dm)
        then l\<lparr>l_expires_at := now + seconds (lease_secs dm)\<rparr> else l) (lease_of q ls)) \<and>
    set new \<inter> dm_owned dm = {} \<and> set new \<subseteq> set (dm_queues dm) \<and>
    (\<forall>q. q \<notin> set new \<longrightarrow> lease_of q (fst (daemon_cycle strategy (quiet_leases now) now dm ls)) = lease_of q ls1) \<and>
    (\<forall>q\<in>set new. lease_free (dm_claimant dm) now ls1 q) \<and>
    (\<forall>q\<in>set new. \<exists>l. lease_of q (fst (daemon_cycle strategy (quiet_leases now) now dm ls)) = Some l \<and>
        l_daemon_id l = cl_daemon (dm_claimant dm))"
proof -
  define ls1 where "ls1 = (if dm_owned dm = {} then ls
      else renew_queue_leases (sorted_list_of_set (dm_owned dm)) (cl_daemon (dm_claimant dm)) now (lease_secs dm) ls)"
  define un where "un = sorted_list_of_set (set (dm_queues dm) - dm_owned dm)"
  have w1: "wf_leases ls1" using assms(2) by (simp add: ls1_def wf_renew)
  have row: "lease_of q ls1 = map_option (\<lambda>l. if q \<in> dm_owned dm \<and> l_daemon_id l = cl_daemon (dm_claimant dm)
        then l\<lparr>l_expires_at := now + seconds (lease_secs dm)\<rparr> else l) (lease_of q ls)" for q
    using assms(1) by (auto simp: ls1_def renew_row option.map_ident)
  obtain ls2 new where c: "claim_queue_leases strategy (quiet_leases now) (dm_claimant dm) (lease_secs dm) un ls1 =
      (ls2, new)" by fastforce
  have "distinct un" "set un = set (dm_queues dm) - dm_owned dm" by (simp_all add: un_def)
  from claim_queue_leases_exact [OF w1 this(1) c] this(2)
  have new: "set new \<inter> dm_owned dm = {}" "set new \<subseteq> set (dm_queues dm)"
    "\<forall>q. q \<notin> set new \<longrightarrow> lease_of q ls2 = lease_of q ls1" "\<forall>q\<in>set new. lease_free (dm_claimant dm) now ls1 q"
    "\<forall>q\<in>set new. \<exists>l. lease_of q ls2 = Some l \<and> l_daemon_id l = cl_daemon (dm_claimant dm)" by auto
  have "daemon_cycle strategy (quiet_leases now) now dm ls = (ls2, dm\<lparr>dm_owned := dm_owned dm \<union> set new\<rparr>) \<or>
      (daemon_cycle strategy (quiet_leases now) now dm ls = (ls2, dm) \<and> new = [])"
    using c by (auto simp: daemon_cycle_def Let_def ls1_def [symmetric] un_def [symmetric] split: prod.splits)
  then show ?thesis using new row
    by (intro exI [of _ ls1] exI [of _ new]) auto
qed

text \<open>One cycle of the daemon loop renews every lease the daemon holds and takes over the free
  queues, but \<^verbatim>\<open>owned_queues\<close> never shrinks: a queue whose lease another daemon has taken over stays
  in the set, the other daemon's lease is left alone, and so both daemons run the coordinator work
  of that queue.\<close>

theorem daemon_cycle_ownership:
  assumes w: "wf_leases ls" and f: "finite (dm_owned dm)"
    and c: "daemon_cycle strategy (quiet_leases now) now dm ls = (ls', dm')"
  shows "dm_owned dm \<subseteq> dm_owned dm' \<and>
    (\<forall>q\<in>dm_owned dm' - dm_owned dm. lease_free (dm_claimant dm) now ls q \<and>
       (\<exists>l. lease_of q ls' = Some l \<and> l_daemon_id l = cl_daemon (dm_claimant dm))) \<and>
    (\<forall>q\<in>dm_owned dm. \<forall>l. lease_of q ls = Some l \<longrightarrow>
       (if l_daemon_id l = cl_daemon (dm_claimant dm)
        then lease_of q ls' = Some (l\<lparr>l_expires_at := now + seconds (lease_secs dm)\<rparr>)
        else lease_of q ls' = Some l))"
proof -
  obtain ls1 new where o: "dm_owned dm' = dm_owned dm \<union> set new"
    and row: "\<And>q. lease_of q ls1 = map_option (\<lambda>l. if q \<in> dm_owned dm \<and> l_daemon_id l = cl_daemon (dm_claimant dm)
        then l\<lparr>l_expires_at := now + seconds (lease_secs dm)\<rparr> else l) (lease_of q ls)"
    and n: "set new \<inter> dm_owned dm = {}" "\<And>q. q \<notin> set new \<Longrightarrow> lease_of q ls' = lease_of q ls1"
      "\<And>q. q \<in> set new \<Longrightarrow> lease_free (dm_claimant dm) now ls1 q"
      "\<And>q. q \<in> set new \<Longrightarrow> \<exists>l. lease_of q ls' = Some l \<and> l_daemon_id l = cl_daemon (dm_claimant dm)"
    using daemon_cycle_unfold [OF f w, of strategy now, unfolded c fst_conv snd_conv] by blast
  have same: "lease_of q ls1 = lease_of q ls" if "q \<notin> dm_owned dm" for q
    using row [of q] that by (simp add: option.map_ident)
  have "lease_free (dm_claimant dm) now ls q" if "q \<in> set new" for q
  proof -
    have "q \<notin> dm_owned dm" using that n(1) by auto
    then show ?thesis using n(3) [OF that] same [of q] by (simp add: lease_free_def)
  qed
  moreover have "lease_of q ls' = Some (if l_daemon_id l = cl_daemon (dm_claimant dm)
      then l\<lparr>l_expires_at := now + seconds (lease_secs dm)\<rparr> else l)"
    if "q \<in> dm_owned dm" "lease_of q ls = Some l" for q l
  proof -
    have "q \<notin> set new" using that(1) n(1) by auto
    then show ?thesis using n(2) row [of q] that by simp
  qed
  ultimately show ?thesis using o n(4) by auto
qed

text \<open>Daemon \<open>a\<close> still believes to own \<open>q\<close> after daemon \<open>b\<close> has taken the expired lease over.\<close>

theorem daemon_cycle_ownership_witness:
  "''q'' \<in> dm_owned (snd (daemon_cycle Skip_locked (quiet_leases 90) 90
       \<lparr>dm_claimant = host ''a'', dm_queues = [''q''], dm_check_interval = 10, dm_owned = {''q''}\<rparr>
       [new_lease ''q'' (host ''b'') 80 30]))"
proof -
  let ?dm = "\<lparr>dm_claimant = host ''a'', dm_queues = [''q''], dm_check_interval = 10, dm_owned = {''q''}\<rparr>"
  obtain ls' dm' where c: "daemon_cycle Skip_locked (quiet_leases 90) 90 ?dm
      [new_lease ''q'' (host ''b'') 80 30] = (ls', dm')" by fastforce
  have "dm_owned ?dm \<subseteq> dm_owned dm'"
    using daemon_cycle_ownership [OF _ _ c] by (simp add: wf_leases_def)
  then show ?thesis using c by simp
qed

end
