(* ===== verification/Sq_Calendar.thy ===== *)
theory Sq_Calendar
  imports Sq_Prelude
begin

text \<open>
  The part of Python's \<^verbatim>\<open>datetime\<close> and \<^verbatim>\<open>calendar\<close> that the schedulers use: the proleptic Gregorian
  calendar of the years 1 to 9999, ordinals, weekdays (Monday is 0), and the calendar fields of a
  UTC timestamp. The facts are that ordinals enumerate the valid dates in order
  (\<open>to_ordinal_less\<close>, \<open>of_to_ordinal\<close>, \<open>to_of_ordinal\<close>) and that the fields determine the timestamp.
\<close>

section \<open>Dates\<close>

text \<open>A \<^verbatim>\<open>datetime.date\<close>: year, month, day.\<close>

type_synonym date = "int \<times> int \<times> int"

definition MAXYEAR :: int where "MAXYEAR = 9999"

definition isleap :: "int \<Rightarrow> bool" where
  "isleap y \<longleftrightarrow> y mod 4 = 0 \<and> (y mod 100 \<noteq> 0 \<or> y mod 400 = 0)"

definition days_in_month :: "int \<Rightarrow> int \<Rightarrow> int" where
  "days_in_month y m =
     (if m = 2 then (if isleap y then 29 else 28) else if m \<in> {4, 6, 9, 11} then 30 else 31)"

definition days_before_year :: "int \<Rightarrow> int" where
  "days_before_year y = (y - 1) * 365 + (y - 1) div 4 - (y - 1) div 100 + (y - 1) div 400"

text \<open>Days before the first of a month, from the cumulative table of \<^verbatim>\<open>datetime\<close>.\<close>

definition days_before_month :: "int \<Rightarrow> int \<Rightarrow> int" where
  "days_before_month y m =
     [0, 0, 31, 59, 90, 120, 151, 181, 212, 243, 273, 304, 334] ! nat m + (if m > 2 \<and> isleap y then 1 else 0)"

definition valid_date :: "date \<Rightarrow> bool" where
  "valid_date = (\<lambda>(y, m, d). 1 \<le> y \<and> y \<le> MAXYEAR \<and> 1 \<le> m \<and> m \<le> 12 \<and> 1 \<le> d \<and> d \<le> days_in_month y m)"

definition to_ordinal :: "date \<Rightarrow> int" where
  "to_ordinal = (\<lambda>(y, m, d). days_before_year y + days_before_month y m + d)"

definition weekday :: "date \<Rightarrow> int" where
  "weekday dt = (to_ordinal dt + 6) mod 7"

definition year_of :: "int \<Rightarrow> int" where
  "year_of n =
     (let y = 400 * n div 146097 + 1
      in if n \<le> days_before_year y then y - 1
         else if days_before_year (y + 1) < n then y + 1 else y)"

definition month_of :: "int \<Rightarrow> int \<Rightarrow> int" where
  "month_of y r =
     (case List.find (\<lambda>m. days_before_month y m < r) [12, 11, 10, 9, 8, 7, 6, 5, 4, 3, 2] of
        None \<Rightarrow> 1
      | Some m \<Rightarrow> m)"

definition of_ordinal :: "int \<Rightarrow> date" where
  "of_ordinal n =
     (let y = year_of n; r = n - days_before_year y; m = month_of y r
      in (y, m, r - days_before_month y m))"

section \<open>Months and years\<close>

lemma month_cases:
  fixes m :: int
  assumes "1 \<le> m" "m \<le> 12"
  obtains "m = 1" | "m = 2" | "m = 3" | "m = 4" | "m = 5" | "m = 6" | "m = 7" | "m = 8" | "m = 9"
    | "m = 10" | "m = 11" | "m = 12"
proof -
  have "m = 1 \<or> m = 2 \<or> m = 3 \<or> m = 4 \<or> m = 5 \<or> m = 6 \<or> m = 7 \<or> m = 8 \<or> m = 9 \<or> m = 10 \<or> m = 11 \<or> m = 12"
    using assms by arith
  then show thesis using that by blast
qed

lemma div_bounds:
  fixes c :: int
  assumes "0 < c"
  shows "c * (x div c) \<le> x" "x < c * (x div c) + c"
  using mult_div_mod_eq [of c x] pos_mod_sign [OF assms, of x] pos_mod_bound [OF assms, of x] by linarith+

lemma div_pred:
  fixes c :: int
  assumes "1 < c"
  shows "x div c = (x - 1) div c + (if x mod c = 0 then 1 else 0)"
proof -
  let ?q = "(x - 1) div c" and ?r = "(x - 1) mod c"
  have x: "x = c * ?q + (?r + 1)" using mult_div_mod_eq [of c "x - 1"] by linarith
  have r: "0 \<le> ?r" "?r < c" using assms by simp_all
  show ?thesis
  proof (cases "?r + 1 = c")
    case True
    then have "x = c * (?q + 1) + 0" using x by (simp add: algebra_simps)
    then have "x div c = ?q + 1" "x mod c = 0"
      using int_div_pos_eq [of x c "?q + 1" 0] int_mod_pos_eq [of x c "?q + 1" 0] assms by simp_all
    then show ?thesis by simp
  next
    case False
    then have "x div c = ?q" "x mod c = ?r + 1"
      using int_div_pos_eq [of x c ?q "?r + 1"] int_mod_pos_eq [of x c ?q "?r + 1"] assms r x by simp_all
    then show ?thesis using r by simp
  qed
qed

lemma days_before_month_next:
  "1 \<le> m \<Longrightarrow> m < 12 \<Longrightarrow> days_before_month y (m + 1) = days_before_month y m + days_in_month y m"
  by (rule month_cases [of m]) (auto simp: days_before_month_def days_in_month_def)

lemma days_before_month_first [simp]: "days_before_month y 1 = 0"
  by (simp add: days_before_month_def)

lemma days_in_month_pos: "28 \<le> days_in_month y m" "days_in_month y m \<le> 31"
  by (auto simp: days_in_month_def)

lemma days_before_month_mono:
  "1 \<le> m \<Longrightarrow> m < m' \<Longrightarrow> m' \<le> 12 \<Longrightarrow> days_before_month y m + days_in_month y m \<le> days_before_month y m'"
proof (induction "nat (m' - m)" arbitrary: m' rule: less_induct)
  case less
  show ?case
  proof (cases "m' = m + 1")
    case True
    then show ?thesis using less.prems days_before_month_next [of m y] by simp
  next
    case False
    then have "days_before_month y m + days_in_month y m \<le> days_before_month y (m' - 1)"
      using less by simp
    also have "\<dots> \<le> days_before_month y m'"
      using days_before_month_next [of "m' - 1" y] days_in_month_pos [of y "m' - 1"] less.prems False by simp
    finally show ?thesis .
  qed
qed

lemma year_sum:
  fixes y :: int
  assumes "q4 = p4 + i4" "q100 = p100 + i100" "q400 = p400 + i400"
  shows "y * 365 + q4 - q100 + q400 = ((y - 1) * 365 + p4 - p100 + p400) + (365 + i4 - i100 + i400)"
  by (simp add: assms algebra_simps)

lemma leap_sum:
  assumes "c \<longrightarrow> b" "b \<longrightarrow> a"
  shows "365 + (if a then 1 else 0) - (if b then 1 else 0) + (if c then 1 else 0) =
    (if a \<and> (\<not> b \<or> c) then 366 else (365 :: int))"
  using assms by (cases a; cases b; cases c) simp_all

lemma year_length:
  "days_before_year (y + 1) = days_before_year y + (if isleap y then 366 else 365)"
proof -
  have d: "y div 4 = (y - 1) div 4 + (if y mod 4 = 0 then 1 else 0)"
    "y div 100 = (y - 1) div 100 + (if y mod 100 = 0 then 1 else 0)"
    "y div 400 = (y - 1) div 400 + (if y mod 400 = 0 then 1 else 0)" by (rule div_pred; simp)+
  have "(100 :: int) dvd 400" "(4 :: int) dvd 100" by simp_all
  then have m: "y mod 400 = 0 \<longrightarrow> y mod 100 = 0" "y mod 100 = 0 \<longrightarrow> y mod 4 = 0"
    unfolding mod_eq_0_iff_dvd by (blast intro: dvd_trans)+
  have "days_before_year (y + 1) = y * 365 + y div 4 - y div 100 + y div 400"
    by (simp add: days_before_year_def)
  also have "\<dots> = days_before_year y + (365 + (if y mod 4 = 0 then 1 else 0) -
      (if y mod 100 = 0 then 1 else 0) + (if y mod 400 = 0 then 1 else 0))"
    unfolding days_before_year_def by (rule year_sum [OF d])
  also have "365 + (if y mod 4 = 0 then 1 else 0) - (if y mod 100 = 0 then 1 else 0) +
      (if y mod 400 = 0 then 1 else 0) = (if isleap y then 366 else (365 :: int))"
    unfolding isleap_def by (rule leap_sum [OF m])
  finally show ?thesis .
qed

lemma last_day_of_year:
  "days_before_month y 12 + days_in_month y 12 = (if isleap y then 366 else 365)"
  by (simp add: days_before_month_def days_in_month_def)

lemma days_before_year_mono: "y \<le> y' \<Longrightarrow> days_before_year y \<le> days_before_year y'"
proof (induction "nat (y' - y)" arbitrary: y' rule: less_induct)
  case less
  show ?case
  proof (cases "y' = y")
    case False
    then have "days_before_year y \<le> days_before_year (y' - 1)" using less by simp
    then show ?thesis using year_length [of "y' - 1"] by (simp split: if_splits)
  qed simp
qed

lemma day_of_year_bounds:
  assumes "1 \<le> m" "m \<le> 12" "1 \<le> d" "d \<le> days_in_month y m"
  shows "1 \<le> days_before_month y m + d"
    and "days_before_month y m + d \<le> (if isleap y then 366 else 365)"
proof -
  have "0 \<le> days_before_month y m"
    using days_before_month_mono [of 1 m y] days_in_month_pos [of y 1] assms(1,2) by (cases "m = 1") auto
  then show "1 \<le> days_before_month y m + d" using assms by simp
  show "days_before_month y m + d \<le> (if isleap y then 366 else 365)"
    using days_before_month_mono [of m 12 y] days_in_month_pos [of y 12] last_day_of_year [of y] assms
    by (cases "m = 12") auto
qed

section \<open>Ordinals enumerate the valid dates in order\<close>

lemma to_ordinal_less:
  assumes v: "valid_date a" "valid_date b" and l: "a < b"
  shows "to_ordinal a < to_ordinal b"
proof -
  obtain y m d y' m' d' where ab: "a = (y, m, d)" "b = (y', m', d')" by (cases a; cases b) auto
  have ba: "1 \<le> m" "m \<le> 12" "1 \<le> d" "d \<le> days_in_month y m"
    and bb: "1 \<le> m'" "m' \<le> 12" "1 \<le> d'" "d' \<le> days_in_month y' m'"
    using v by (auto simp: valid_date_def ab)
  consider "y < y'" | "y = y'" "m < m'" | "y = y'" "m = m'" "d < d'" using l by (auto simp: ab order_le_less)
  then show ?thesis
  proof cases
    case 1
    then have "days_before_year (y + 1) \<le> days_before_year y'" by (intro days_before_year_mono) simp
    then show ?thesis
      using year_length [of y] day_of_year_bounds(2) [OF ba] day_of_year_bounds(1) [OF bb]
      by (simp add: ab to_ordinal_def split: if_splits)
  next
    case 2
    then show ?thesis using days_before_month_mono [of m m' y] ba bb by (simp add: ab to_ordinal_def)
  qed (simp add: ab to_ordinal_def)
qed

lemma year_of_bounds:
  "days_before_year (year_of n) < n" "n \<le> days_before_year (year_of n + 1)"
proof -
  define k where "k = 400 * n div 146097"
  have k: "146097 * k \<le> 400 * n" "400 * n < 146097 * k + 146097"
    unfolding k_def by (rule div_bounds; simp)+
  have up: "400 * days_before_year (j + 1) \<le> 146097 * j + 396" for j
  proof -
    have "4 * (j div 4) \<le> j" "100 * (j div 100) \<ge> j - 99" "400 * (j div 400) \<le> j"
      using div_bounds [of 4 j] div_bounds [of 100 j] div_bounds [of 400 j] by linarith+
    then show ?thesis by (simp add: days_before_year_def)
  qed
  have lo: "146097 * j - 699 \<le> 400 * days_before_year (j + 1)" for j
  proof -
    have "4 * (j div 4) \<ge> j - 3" "100 * (j div 100) \<le> j" "400 * (j div 400) \<ge> j - 399"
      using div_bounds [of 4 j] div_bounds [of 100 j] div_bounds [of 400 j] by linarith+
    then show ?thesis by (simp add: days_before_year_def)
  qed
  have a: "days_before_year (k + 1) \<le> n" using up [of k] k by simp
  have b: "n \<le> days_before_year (k + 2) + 1" using lo [of "k + 1"] k by (simp add: algebra_simps)
  have c: "days_before_year (k + 3) \<ge> days_before_year (k + 2) + 365" "days_before_year k \<le> days_before_year (k + 1) - 365"
    using year_length [of "k + 2"] year_length [of k] by (simp_all add: algebra_simps split: if_splits)
  have y: "year_of n = (if n \<le> days_before_year (k + 1) then k
      else if days_before_year (k + 2) < n then k + 2 else k + 1)"
    by (simp add: year_of_def k_def Let_def algebra_simps)
  have e: "k + 1 + 1 = k + 2" "k + 2 + 1 = k + 3" by simp_all
  have "days_before_year (year_of n) < n \<and> n \<le> days_before_year (year_of n + 1)"
    unfolding y using a b c by (auto simp: e)
  then show "days_before_year (year_of n) < n" "n \<le> days_before_year (year_of n + 1)" by auto
qed

lemma month_of_bounds:
  assumes "1 \<le> r" "r \<le> (if isleap y then 366 else 365)"
  shows "1 \<le> month_of y r \<and> month_of y r \<le> 12 \<and> days_before_month y (month_of y r) < r \<and>
    r \<le> days_before_month y (month_of y r) + days_in_month y (month_of y r)"
  using assms by (cases "isleap y") (auto simp: month_of_def days_before_month_def days_in_month_def)

lemma to_of_ordinal: "to_ordinal (of_ordinal n) = n"
  by (simp add: of_ordinal_def to_ordinal_def Let_def)

lemma of_ordinal_valid:
  assumes "1 \<le> n" "n \<le> days_before_year (MAXYEAR + 1)"
  shows "valid_date (of_ordinal n)"
proof -
  let ?y = "year_of n"
  note b = year_of_bounds [of n]
  have r: "1 \<le> n - days_before_year ?y" "n - days_before_year ?y \<le> (if isleap ?y then 366 else 365)"
    using b year_length [of ?y] by auto
  have "1 \<le> ?y"
  proof (rule ccontr)
    assume "\<not> 1 \<le> ?y"
    then have "days_before_year (?y + 1) \<le> days_before_year 1" by (intro days_before_year_mono) simp
    then show False using b(2) assms(1) by (simp add: days_before_year_def)
  qed
  moreover have "?y \<le> MAXYEAR"
  proof (rule ccontr)
    assume "\<not> ?y \<le> MAXYEAR"
    then have "days_before_year (MAXYEAR + 1) \<le> days_before_year ?y" by (intro days_before_year_mono) simp
    then show False using b(1) assms(2) by simp
  qed
  ultimately show ?thesis
    using month_of_bounds [OF r] by (auto simp: valid_date_def of_ordinal_def Let_def)
qed

lemma to_ordinal_inj: "valid_date a \<Longrightarrow> valid_date b \<Longrightarrow> to_ordinal a = to_ordinal b \<Longrightarrow> a = b"
  by (metis linorder_less_linear order_less_irrefl to_ordinal_less)

lemma to_ordinal_range:
  assumes "valid_date a"
  shows "1 \<le> to_ordinal a" "to_ordinal a \<le> days_before_year (MAXYEAR + 1)"
proof -
  obtain y m d where a: "a = (y, m, d)" by (cases a) auto
  have y: "1 \<le> y" "y \<le> MAXYEAR" and b: "1 \<le> m" "m \<le> 12" "1 \<le> d" "d \<le> days_in_month y m"
    using assms by (auto simp: valid_date_def a)
  have "days_before_year 1 \<le> days_before_year y" using y by (intro days_before_year_mono)
  then show "1 \<le> to_ordinal a"
    using day_of_year_bounds(1) [OF b] by (simp add: a to_ordinal_def days_before_year_def)
  have "days_before_year (y + 1) \<le> days_before_year (MAXYEAR + 1)"
    using y by (intro days_before_year_mono) simp
  then show "to_ordinal a \<le> days_before_year (MAXYEAR + 1)"
    using day_of_year_bounds(2) [OF b] year_length [of y] by (simp add: a to_ordinal_def)
qed

lemma of_to_ordinal: "valid_date a \<Longrightarrow> of_ordinal (to_ordinal a) = a"
  by (intro to_ordinal_inj of_ordinal_valid to_of_ordinal) (simp_all add: to_ordinal_range)

section \<open>Timestamps\<close>

text \<open>
  A UTC timestamp counts microseconds since the epoch (ordinal 719163 is 1970-01-01); \<open>ts_of\<close> is the
  instant of a calendar minute, \<open>date_of\<close>, \<open>hour_of\<close> and \<open>minute_of\<close> read the fields of an instant.
\<close>

definition EPOCH :: int where "EPOCH = 719163"

definition minutes_us :: "int \<Rightarrow> int" where "minutes_us n = seconds (60 * n)"

definition ts_of :: "date \<Rightarrow> int \<Rightarrow> int \<Rightarrow> timestamp" where
  "ts_of dt h mi = minutes_us (((to_ordinal dt - EPOCH) * 24 + h) * 60 + mi)"

definition minute_index :: "timestamp \<Rightarrow> int" where
  "minute_index t = t div minutes_us 1"

definition date_of :: "timestamp \<Rightarrow> date" where
  "date_of t = of_ordinal (minute_index t div 1440 + EPOCH)"

definition hour_of :: "timestamp \<Rightarrow> int" where
  "hour_of t = minute_index t mod 1440 div 60"

definition minute_of :: "timestamp \<Rightarrow> int" where
  "minute_of t = minute_index t mod 60"

text \<open>The instants Python can represent: years 1 to 9999.\<close>

definition representable :: "timestamp \<Rightarrow> bool" where
  "representable t \<longleftrightarrow> ts_of (1, 1, 1) 0 0 \<le> t \<and> t < ts_of (MAXYEAR, 12, 31) 23 59 + minutes_us 1"

lemma minutes_us_mono [simp]: "minutes_us a \<le> minutes_us b \<longleftrightarrow> a \<le> b" "minutes_us a < minutes_us b \<longleftrightarrow> a < b"
  by (simp_all add: minutes_us_def)

lemma minutes_us_add: "minutes_us a + minutes_us b = minutes_us (a + b)"
  by (simp add: minutes_us_def seconds_def)

lemma minute_index_minutes [simp]: "minute_index (minutes_us n) = n"
  by (simp add: minute_index_def minutes_us_def seconds_def)

lemma minute_index_floor: "minutes_us (minute_index t) \<le> t" "t < minutes_us (minute_index t + 1)"
  using div_bounds [of "minutes_us 1" t] by (simp_all add: minute_index_def minutes_us_def seconds_def)

lemma minute_split:
  fixes x :: int
  shows "(x div 1440 * 24 + x mod 1440 div 60) * 60 + x mod 60 = x"
proof -
  have "x mod 1440 mod 60 = x mod 60" by (rule mod_mod_cancel) simp
  moreover have "1440 * (x div 1440) + x mod 1440 = x"
    "60 * (x mod 1440 div 60) + x mod 1440 mod 60 = x mod 1440" by (rule mult_div_mod_eq)+
  ultimately have "1440 * (x div 1440) + (60 * (x mod 1440 div 60) + x mod 60) = x" by simp
  then show ?thesis by (simp add: distrib_right mult.commute add.assoc)
qed

lemma ts_of_fields:
  "ts_of (date_of t) (hour_of t) (minute_of t) = minutes_us (minute_index t)"
proof -
  have "(minute_index t div 1440 * 24 + minute_index t mod 1440 div 60) * 60 + minute_index t mod 60 = minute_index t"
    by (rule minute_split)
  then show ?thesis
    by (simp add: ts_of_def date_of_def hour_of_def minute_of_def to_of_ordinal)
qed

lemma field_bounds: "0 \<le> hour_of t" "hour_of t \<le> 23" "0 \<le> minute_of t" "minute_of t \<le> 59"
  using pos_mod_bound [of 1440 "minute_index t"] pos_mod_sign [of 1440 "minute_index t"]
    pos_mod_bound [of 60 "minute_index t"] div_bounds(1) [of 60 "minute_index t mod 1440"]
  unfolding hour_of_def minute_of_def by (auto simp: pos_imp_zdiv_nonneg_iff)

lemma representable_date:
  assumes "representable t"
  shows "valid_date (date_of t)"
proof -
  have "minutes_us (((to_ordinal (1, 1, 1) - EPOCH) * 24 + 0) * 60 + 0) < minutes_us (minute_index t + 1)"
    using assms minute_index_floor(2) [of t] unfolding representable_def ts_of_def by linarith
  then have a: "(1 - EPOCH) * 1440 \<le> minute_index t"
    by (simp add: to_ordinal_def days_before_year_def)
  have "minutes_us (minute_index t) < minutes_us (((to_ordinal (MAXYEAR, 12, 31) - EPOCH) * 24 + 23) * 60 + 59 + 1)"
    using assms minute_index_floor(1) [of t] unfolding representable_def ts_of_def minutes_us_add by linarith
  moreover have "to_ordinal (MAXYEAR, 12, 31) = days_before_year (MAXYEAR + 1)"
    by (simp add: to_ordinal_def days_before_month_def days_before_year_def isleap_def MAXYEAR_def)
  ultimately have b: "minute_index t < (days_before_year (MAXYEAR + 1) - EPOCH) * 1440 + 1440" by simp
  show ?thesis unfolding date_of_def by (rule of_ordinal_valid) (use a b div_bounds [of 1440 "minute_index t"] in simp_all)
qed

text \<open>Calendar minutes of valid dates are ordered like their instants.\<close>

lemma ts_of_less_date:
  assumes "valid_date a" "valid_date b" "a < b" "h \<le> 23" "mi \<le> 59" "0 \<le> h'" "0 \<le> mi'"
  shows "ts_of a h mi < ts_of b h' mi'"
  using to_ordinal_less [OF assms(1-3)] assms(4-) 
  by (simp add: ts_of_def algebra_simps)

lemma ts_of_le_time:
  "ts_of a h mi \<le> ts_of a h' mi' \<longleftrightarrow> h * 60 + mi \<le> h' * 60 + mi'"
  by (simp add: ts_of_def)

end
