(* ===== verification/Sq_Crontab.thy ===== *)
theory Sq_Crontab
  imports Sq_Calendar Sq_Decisions
begin

text \<open>
  Cron expressions (\<^verbatim>\<open>crontab.py\<close>): the parser \<^verbatim>\<open>parse_cron_string\<close> / \<^verbatim>\<open>_expression_to_list\<close> with its
  error paths, and \<^verbatim>\<open>Crontab.next_from\<close>, the first element of the generator \<^verbatim>\<open>date_times\<close>. The
  generator runs over the years; after year 9999 the constructor of \<^verbatim>\<open>date\<close> raises, which ends the
  search, so \<open>next_from\<close> is total.

  The calculation of solar schedules (\<^verbatim>\<open>solar.py\<close>, floating-point trigonometry) is not modelled: the
  record \<open>solar_env\<close> stands for its parser and its search.
\<close>

section \<open>Parsing\<close>

fun split_on :: "char \<Rightarrow> string \<Rightarrow> string list" where
  "split_on c [] = [[]]"
| "split_on c (x # xs) =
     (if x = c then [] # split_on c xs
      else (case split_on c xs of [] \<Rightarrow> [[x]] | y # ys \<Rightarrow> (x # y) # ys))"

definition isnumeric :: "string \<Rightarrow> bool" where
  "isnumeric s \<longleftrightarrow> s \<noteq> [] \<and> list_all is_digit s"

definition py_range :: "int \<Rightarrow> int \<Rightarrow> int \<Rightarrow> int list result" where
  "py_range a b step =
     (if step = 0 then Inl ValueError
      else Inr (map (\<lambda>i. a + int i * step) [0..<nat ((b - a + step - 1) div step)]))"

definition try_int :: "string \<Rightarrow> int \<Rightarrow> int \<Rightarrow> int result" where
  "try_int v max_value min_value =
     (case int_of_str v of
        Inl _ \<Rightarrow> Inl InvalidExpression
      | Inr r \<Rightarrow>
          if r < 0 \<or> min_value > r \<or> max_value < r then Inl InvalidExpression else Inr r)"

text \<open>The values of several sub-expressions: the first error is raised.\<close>

fun collect_values :: "int list result list \<Rightarrow> int list result" where
  "collect_values [] = Inr []"
| "collect_values (Inl e # rs) = Inl e"
| "collect_values (Inr xs # rs) =
     (case collect_values rs of Inl e \<Rightarrow> Inl e | Inr ys \<Rightarrow> Inr (xs @ ys))"

lemma split_on_length: "x \<in> set (split_on c s) \<Longrightarrow> length x \<le> length s"
  by (induction c s arbitrary: x rule: split_on.induct) (fastforce split: if_splits list.splits)+

lemma split_on_shorter: "x \<in> set (split_on c s) \<Longrightarrow> c \<in> set s \<Longrightarrow> length x < length s"
proof (induction c s arbitrary: x rule: split_on.induct)
  case (2 c a s)
  show ?case
  proof (cases "a = c")
    case True
    then show ?thesis using "2.prems" split_on_length [of x c s] by auto
  next
    case False
    then have "c \<in> set s" using "2.prems" by simp
    then show ?thesis using "2.IH"(2) [OF False] "2.prems" False
      by (fastforce split: list.splits)
  qed
qed simp

function expression_to_list :: "string \<Rightarrow> int \<Rightarrow> int \<Rightarrow> int \<Rightarrow> int list result" where
  "expression_to_list expr max_value min_value step =
     (if CHR '','' \<in> set expr then
        (case collect_values
                (map (\<lambda>sub. expression_to_list sub max_value min_value step) (split_on (CHR '','') expr)) of
           Inl e \<Rightarrow> Inl e
         | Inr values \<Rightarrow> Inr (sort (remdups values)))
      else if expr = ''*'' then py_range min_value (max_value + 1) step
      else if isnumeric expr then
        (case try_int expr max_value min_value of Inl e \<Rightarrow> Inl e | Inr v \<Rightarrow> Inr [v])
      else if CHR ''/'' \<in> set expr then
        (case split_on (CHR ''/'') expr of
           [lhs, rhs] \<Rightarrow>
             (case try_int rhs max_value min_value of
                Inl e \<Rightarrow> Inl e
              | Inr rhs_step \<Rightarrow> expression_to_list lhs max_value min_value rhs_step)
         | _ \<Rightarrow> Inl ValueError)
      else if CHR ''-'' \<in> set expr then
        (case split_on (CHR ''-'') expr of
           [range_start, range_end] \<Rightarrow>
             (case try_int range_start max_value min_value of
                Inl e \<Rightarrow> Inl e
              | Inr a \<Rightarrow>
                  (case try_int range_end max_value min_value of
                     Inl e \<Rightarrow> Inl e
                   | Inr b \<Rightarrow> py_range a (b + 1) step))
         | _ \<Rightarrow> Inl ValueError)
      else Inl InvalidExpression)"
  by pat_completeness auto
termination
proof (relation "measure (\<lambda>(expr, _). length expr)", goal_cases)
  case (2 expr max_value min_value step sub)
  then show ?case using split_on_shorter by simp
next
  case (3 expr max_value min_value step lhs rest rhs rest' rhs_step)
  then have "lhs \<in> set (split_on (CHR ''/'') expr)" by simp
  from split_on_shorter [OF this] show ?case using 3 by simp
qed simp

declare expression_to_list.simps [simp del]

record crontab =
  ct_minutes :: "int list"
  ct_hours :: "int list"
  ct_day_of_month :: "int list"
  ct_months :: "int list"
  ct_day_of_week :: "int list"
  ct_day_of_month_asterisk :: bool
  ct_day_of_week_asterisk :: bool

definition MACROS :: "(string \<times> string) list" where
  "MACROS =
     [(''@yearly'', ''0 0 1 1 *''), (''@annually'', ''0 0 1 1 *''), (''@monthly'', ''0 0 1 * *''),
      (''@weekly'', ''0 0 * * 0''), (''@daily'', ''0 0 * * *''), (''@midnight'', ''0 0 * * *''),
      (''@hourly'', ''0 * * * *'')]"

definition parse_crontab :: "string \<Rightarrow> crontab result" where
  "parse_crontab expression0 =
     (let expression = (case map_of MACROS expression0 of None \<Rightarrow> expression0 | Some e \<Rightarrow> e)
      in case split_on (CHR '' '') expression of
           [minute_expr, hour_expr, day_month_expr, month_expr, day_week_expr] \<Rightarrow>
             (case expression_to_list minute_expr 59 0 1 of Inl e \<Rightarrow> Inl e | Inr minutes \<Rightarrow>
              case expression_to_list hour_expr 23 0 1 of Inl e \<Rightarrow> Inl e | Inr hours \<Rightarrow>
              case expression_to_list day_month_expr 31 1 1 of Inl e \<Rightarrow> Inl e | Inr day_months \<Rightarrow>
              case expression_to_list month_expr 12 1 1 of Inl e \<Rightarrow> Inl e | Inr months \<Rightarrow>
              case expression_to_list day_week_expr 6 0 1 of Inl e \<Rightarrow> Inl e | Inr day_weeks \<Rightarrow>
                Inr \<lparr>ct_minutes = minutes, ct_hours = hours, ct_day_of_month = day_months,
                     ct_months = months, ct_day_of_week = day_weeks,
                     ct_day_of_month_asterisk = (day_month_expr = ''*''),
                     ct_day_of_week_asterisk = (day_week_expr = ''*'')\<rparr>)
         | _ \<Rightarrow> Inl InvalidExpression)"

section \<open>The next occurrence\<close>

definition day_of_week_to_cron :: "int \<Rightarrow> int" where
  "day_of_week_to_cron d = (d + 1) mod 7"

text \<open>\<^verbatim>\<open>Calendar().itermonthdays2\<close>: whole weeks from Monday, days outside the month are 0.\<close>

definition itermonthdays2 :: "int \<Rightarrow> int \<Rightarrow> (int \<times> int) list" where
  "itermonthdays2 y m =
     (let day1 = weekday (y, m, 1);
          ndays = days_in_month y m;
          ds = replicate (nat day1) 0 @ [1..ndays] @ replicate (nat ((- day1 - ndays) mod 7)) 0
      in map (\<lambda>(i, d). (d, int i mod 7)) (enumerate 0 ds))"

definition day_matches :: "crontab \<Rightarrow> int \<Rightarrow> int \<Rightarrow> bool" where
  "day_matches ct day_of_month day_of_week =
     (let dom = day_of_month \<in> set (ct_day_of_month ct);
          dow = day_of_week_to_cron day_of_week \<in> set (ct_day_of_week ct)
      in if ct_day_of_week_asterisk ct then dom
         else if ct_day_of_month_asterisk ct then dow
         else dom \<or> dow)"

text \<open>The dates of one year that the generator \<^verbatim>\<open>dates\<close> yields, from \<open>anchor\<close> on.\<close>

definition dates_of_year :: "crontab \<Rightarrow> date \<Rightarrow> date list" where
  "dates_of_year ct anchor =
     (case anchor of (y, am, ad) \<Rightarrow>
        concat (map (\<lambda>month.
          map (\<lambda>(d, _). (y, month, d))
            (filter (\<lambda>(d, w). d \<noteq> 0 \<and> \<not> (month = am \<and> d < ad) \<and> day_matches ct d w)
              (itermonthdays2 y month)))
          (filter (\<lambda>month. \<not> month < am) (ct_months ct))))"

definition times_of_day :: "crontab \<Rightarrow> timestamp \<Rightarrow> date \<Rightarrow> timestamp list" where
  "times_of_day ct start day =
     (let is_start_day = (day = date_of start)
      in concat (map (\<lambda>hour.
           map (\<lambda>minute. ts_of day hour minute)
             (filter (\<lambda>minute. \<not> (is_start_day \<and> hour = hour_of start \<and> minute < minute_of start))
               (ct_minutes ct)))
           (filter (\<lambda>hour. \<not> (is_start_day \<and> hour < hour_of start)) (ct_hours ct))))"

definition date_times_of_year :: "crontab \<Rightarrow> timestamp \<Rightarrow> date \<Rightarrow> timestamp list" where
  "date_times_of_year ct start anchor = concat (map (times_of_day ct start) (dates_of_year ct anchor))"

function next_from_anchor :: "crontab \<Rightarrow> timestamp \<Rightarrow> date \<Rightarrow> timestamp result" where
  "next_from_anchor ct start anchor =
     (case date_times_of_year ct start anchor of
        t # _ \<Rightarrow> Inr t
      | [] \<Rightarrow>
          if fst anchor + 1 > MAXYEAR then Inl ValueError
          else next_from_anchor ct start (fst anchor + 1, 1, 1))"
  by pat_completeness auto
termination
  by (relation "measure (\<lambda>(ct, start, anchor). nat (MAXYEAR - fst anchor))") auto

declare next_from_anchor.simps [simp del]

definition next_from :: "crontab \<Rightarrow> timestamp \<Rightarrow> timestamp result" where
  "next_from ct start = next_from_anchor ct start (date_of start)"

text \<open>The solar schedules share the field; \<^verbatim>\<open>InvalidSolarSpec\<close> becomes \<^verbatim>\<open>InvalidExpression\<close>.\<close>

definition lower :: "string \<Rightarrow> string" where
  "lower s = map (\<lambda>c. if 65 \<le> (of_char c :: nat) \<and> (of_char c :: nat) \<le> 90
                      then char_of (of_char c + 32 :: nat) else c) s"

definition is_solar :: "string \<Rightarrow> bool" where
  "is_solar expression \<longleftrightarrow> expression \<noteq> [] \<and> startswith (lower (py_strip expression)) ''solar:''"

record solar_env =
  so_parse :: "string \<Rightarrow> unit option"
  so_next :: "string \<Rightarrow> timestamp \<Rightarrow> timestamp option"

datatype schedule = Cron_schedule crontab | Solar_schedule string

definition parse_cron_string :: "solar_env \<Rightarrow> string \<Rightarrow> schedule result" where
  "parse_cron_string env expression =
     (if is_solar expression then
        (case so_parse env expression of
           None \<Rightarrow> Inl InvalidExpression
         | Some _ \<Rightarrow> Inr (Solar_schedule expression))
      else map_sum id Cron_schedule (parse_crontab expression))"

definition validate_cron_expression :: "solar_env \<Rightarrow> string \<Rightarrow> bool result" where
  "validate_cron_expression env expression =
     (case parse_cron_string env expression of
        Inr _ \<Rightarrow> Inr True
      | Inl InvalidExpression \<Rightarrow> Inr False
      | Inl e \<Rightarrow> Inl e)"

definition next_cron_occurrence :: "solar_env \<Rightarrow> string \<Rightarrow> timestamp \<Rightarrow> timestamp result" where
  "next_cron_occurrence env cron_string base_date =
     (case parse_cron_string env cron_string of
        Inl e \<Rightarrow> Inl e
      | Inr sched \<Rightarrow>
          (let base = base_date + minutes_us 1
           in if \<not> representable base then Inl OverflowError
              else case sched of
                     Cron_schedule ct \<Rightarrow>
                       (case next_from ct base of Inl _ \<Rightarrow> Inl InvalidExpression | Inr t \<Rightarrow> Inr t)
                   | Solar_schedule spec \<Rightarrow>
                       (case so_next env spec base of None \<Rightarrow> Inl InvalidExpression | Some t \<Rightarrow> Inr t)))"

section \<open>What the parser accepts\<close>

lemma try_int_bounds: "try_int v mx mn = Inr r \<Longrightarrow> mn \<le> r \<and> r \<le> mx \<and> 0 \<le> r"
  by (auto simp: try_int_def split: sum.splits if_splits)

lemma py_range_sorted:
  assumes "py_range a b step = Inr xs" "0 \<le> step"
  shows "sorted_wrt (<) xs \<and> (\<forall>x\<in>set xs. a \<le> x \<and> x < b)"
proof -
  have st: "0 < step" and xs: "xs = map (\<lambda>i. a + int i * step) [0..<nat ((b - a + step - 1) div step)]"
    using assms by (auto simp: py_range_def split: if_splits)
  have "sorted_wrt (<) xs"
    unfolding xs by (rule sorted_wrt_map_mono [OF sorted_wrt_upt]) (use st in simp)
  moreover have "a \<le> x \<and> x < b" if x: "x \<in> set xs" for x
  proof -
    obtain i where i: "i < nat ((b - a + step - 1) div step)" "x = a + int i * step" using x unfolding xs by auto
    then have "int i + 1 \<le> (b - a + step - 1) div step" by simp
    then have "(int i + 1) * step \<le> (b - a + step - 1) div step * step" using st by simp
    also have "\<dots> \<le> b - a + step - 1" using div_bounds(1) [OF st, of "b - a + step - 1"] by (simp add: mult.commute)
    finally show ?thesis using i(2) st by (simp add: algebra_simps)
  qed
  ultimately show ?thesis by blast
qed

lemma collect_values_mem:
  "collect_values rs = Inr vs \<Longrightarrow> x \<in> set vs \<Longrightarrow> \<exists>xs. Inr xs \<in> set rs \<and> x \<in> set xs"
  by (induction rs arbitrary: vs rule: collect_values.induct) (fastforce split: sum.splits)+

lemma expression_cases [consumes 1, case_names comma range single step]:
  assumes "expression_to_list expr mx mn step = Inr xs"
  obtains vs where "CHR '','' \<in> set expr"
      "collect_values (map (\<lambda>sub. expression_to_list sub mx mn step) (split_on (CHR '','') expr)) = Inr vs"
      "xs = sort (remdups vs)"
    | a b where "py_range a (b + 1) step = Inr xs" "mn \<le> a" "b \<le> mx"
    | v where "xs = [v]" "mn \<le> v" "v \<le> mx"
    | lhs rhs s where "CHR '','' \<notin> set expr" "expr \<noteq> ''*''" "\<not> isnumeric expr" "CHR ''/'' \<in> set expr"
        "split_on (CHR ''/'') expr = [lhs, rhs]" "try_int rhs mx mn = Inr s"
        "expression_to_list lhs mx mn s = Inr xs"
proof -
  note e = assms [unfolded expression_to_list.simps [of expr]]
  consider "CHR '','' \<in> set expr" | "CHR '','' \<notin> set expr" "expr = ''*''"
    | "CHR '','' \<notin> set expr" "expr \<noteq> ''*''" "isnumeric expr"
    | "CHR '','' \<notin> set expr" "expr \<noteq> ''*''" "\<not> isnumeric expr" "CHR ''/'' \<in> set expr"
    | "CHR '','' \<notin> set expr" "expr \<noteq> ''*''" "\<not> isnumeric expr" "CHR ''/'' \<notin> set expr" "CHR ''-'' \<in> set expr"
    | "CHR '','' \<notin> set expr" "expr \<noteq> ''*''" "\<not> isnumeric expr" "CHR ''/'' \<notin> set expr" "CHR ''-'' \<notin> set expr"
    by blast
  then show thesis
  proof cases
    case 1
    then show thesis using e that(1) by (simp split: sum.splits)
  next
    case 2
    then show thesis using e that(2) [of mn mx] by simp
  next
    case 3
    then show thesis using e that(3) by (auto split: sum.splits dest!: try_int_bounds)
  next
    case 4
    then obtain lhs rhs where sp: "split_on (CHR ''/'') expr = [lhs, rhs]" using e by (auto split: list.splits)
    then obtain s where "try_int rhs mx mn = Inr s" "expression_to_list lhs mx mn s = Inr xs"
      using e 4 by (auto split: sum.splits)
    then show thesis using that(4) [OF 4 sp] by blast
  next
    case 5
    then obtain l r where sp: "split_on (CHR ''-'') expr = [l, r]" using e by (auto split: list.splits)
    then obtain a b where "try_int l mx mn = Inr a" "try_int r mx mn = Inr b" "py_range a (b + 1) step = Inr xs"
      using e 5 by (auto split: sum.splits)
    then show thesis using that(2) [of a b] try_int_bounds by blast
  next
    case 6
    then show thesis using e by simp
  qed
qed

lemma expression_to_list_bounds:
  assumes "expression_to_list expr mx mn step = Inr xs" "0 \<le> step"
  shows "sorted_wrt (<) xs \<and> (\<forall>x\<in>set xs. mn \<le> x \<and> x \<le> mx)"
  using assms
proof (induction expr mx mn step arbitrary: xs rule: expression_to_list.induct)
  case (1 expr mx mn step)
  from "1.prems"(1) show ?case
  proof (cases rule: expression_cases)
    case (comma vs)
    have "mn \<le> x \<and> x \<le> mx" if x: "x \<in> set vs" for x
    proof -
      obtain ys where "Inr ys \<in> set (map (\<lambda>sub. expression_to_list sub mx mn step) (split_on (CHR '','') expr))"
        "x \<in> set ys" using collect_values_mem [OF comma(2) x] by blast
      then obtain sub where sub: "sub \<in> set (split_on (CHR '','') expr)"
        "expression_to_list sub mx mn step = Inr ys" by force
      then show ?thesis using "1.IH"(1) [OF comma(1) sub(1,2)] "1.prems"(2) \<open>x \<in> set ys\<close> by blast
    qed
    then show ?thesis using comma(3) by (simp add: strict_sorted_iff)
  next
    case (range a b)
    then show ?thesis using py_range_sorted [OF range(1) "1.prems"(2)] by fastforce
  next
    case (single v)
    then show ?thesis by simp
  next
    case (step lhs rhs s)
    have "0 \<le> s" using try_int_bounds [OF step(6)] by simp
    from "1.IH"(2) [OF step(1-4) step(5) refl refl step(6) step(7) this] show ?thesis .
  qed
qed

definition wf_crontab :: "crontab \<Rightarrow> bool" where
  "wf_crontab ct \<longleftrightarrow>
     sorted_wrt (<) (ct_minutes ct) \<and> set (ct_minutes ct) \<subseteq> {0..59} \<and>
     sorted_wrt (<) (ct_hours ct) \<and> set (ct_hours ct) \<subseteq> {0..23} \<and>
     sorted_wrt (<) (ct_day_of_month ct) \<and> set (ct_day_of_month ct) \<subseteq> {1..31} \<and>
     sorted_wrt (<) (ct_months ct) \<and> set (ct_months ct) \<subseteq> {1..12} \<and>
     sorted_wrt (<) (ct_day_of_week ct) \<and> set (ct_day_of_week ct) \<subseteq> {0..6}"

lemma parse_crontab_wf: "parse_crontab s = Inr ct \<Longrightarrow> wf_crontab ct"
  by (auto simp: parse_crontab_def wf_crontab_def Let_def dest!: expression_to_list_bounds
      split: list.splits sum.splits)

section \<open>The search is exact\<close>

lemma weekday_in_month: "weekday (y, m, d) = (weekday (y, m, 1) + (d - 1)) mod 7"
proof -
  have "to_ordinal (y, m, d) + 6 = to_ordinal (y, m, 1) + 6 + (d - 1)" by (simp add: to_ordinal_def)
  then show ?thesis unfolding weekday_def by (simp only: mod_add_left_eq)
qed

lemma enumerate_weekdays:
  assumes "int k = weekday (y, m, 1)"
  shows "map (\<lambda>(i, d). (d, int i mod 7)) (enumerate k [1..n]) = map (\<lambda>d. (d, weekday (y, m, d))) [1..n]"
proof (rule nth_equalityI)
  fix i assume "i < length (map (\<lambda>(i, d). (d, int i mod 7)) (enumerate k [1..n]))"
  then have "i < nat n" by simp
  then have n: "[1..n] ! i = 1 + int i" "enumerate k [1..n] ! i = (k + i, [1..n] ! i)"
    by (simp_all add: nth_enumerate_eq)
  show "map (\<lambda>(i, d). (d, int i mod 7)) (enumerate k [1..n]) ! i = map (\<lambda>d. (d, weekday (y, m, d))) [1..n] ! i"
    using \<open>i < nat n\<close> n assms weekday_in_month [of y m "1 + int i"] by simp
qed simp

lemma enumerate_zeros:
  "filter (\<lambda>(d, w). d \<noteq> 0 \<and> P d w) (map (\<lambda>(i, d). (d, int i mod 7)) (enumerate k (replicate n (0 :: int)))) = []"
proof -
  have "snd p = 0" if "p \<in> set (enumerate k (replicate n (0 :: int)))" for p
    using that by (auto simp: in_set_enumerate_eq)
  then show ?thesis by (fastforce simp: filter_empty_conv)
qed

lemma itermonthdays2_days:
  "filter (\<lambda>(d, w). d \<noteq> 0 \<and> P d w) (itermonthdays2 y m) =
   map (\<lambda>d. (d, weekday (y, m, d))) (filter (\<lambda>d. P d (weekday (y, m, d))) [1..days_in_month y m])"
proof -
  have w: "int (nat (weekday (y, m, 1))) = weekday (y, m, 1)" by (simp add: weekday_def)
  have "filter (\<lambda>(d, w). d \<noteq> 0 \<and> P d w) (itermonthdays2 y m) = filter (\<lambda>(d, w). d \<noteq> 0 \<and> P d w)
      (map (\<lambda>d. (d, weekday (y, m, d))) [1..days_in_month y m])"
    by (simp add: itermonthdays2_def Let_def enumerate_append_eq enumerate_zeros enumerate_weekdays [OF w])
  also have "\<dots> = map (\<lambda>d. (d, weekday (y, m, d))) (filter (\<lambda>d. P d (weekday (y, m, d))) [1..days_in_month y m])"
    by (auto simp: filter_map comp_def intro!: arg_cong [where f = "map _"] filter_cong)
  finally show ?thesis .
qed

text \<open>The specification: the instants that a crontab denotes.\<close>

definition cron_date :: "crontab \<Rightarrow> date \<Rightarrow> bool" where
  "cron_date ct day \<longleftrightarrow> valid_date day \<and> fst (snd day) \<in> set (ct_months ct) \<and>
     day_matches ct (snd (snd day)) (weekday day)"

definition cron_instant :: "crontab \<Rightarrow> date \<Rightarrow> int \<Rightarrow> int \<Rightarrow> bool" where
  "cron_instant ct day h mi \<longleftrightarrow> cron_date ct day \<and> h \<in> set (ct_hours ct) \<and> mi \<in> set (ct_minutes ct)"

lemma dates_of_year_eq:
  "dates_of_year ct (y, am, ad) =
     concat (map (\<lambda>m. map (\<lambda>d. (y, m, d))
       (filter (\<lambda>d. \<not> (m = am \<and> d < ad) \<and> day_matches ct d (weekday (y, m, d))) [1..days_in_month y m]))
       (filter (\<lambda>m. \<not> m < am) (ct_months ct)))"
  by (simp add: dates_of_year_def itermonthdays2_days comp_def)

lemma set_dates_of_year:
  assumes "wf_crontab ct" "1 \<le> y" "y \<le> MAXYEAR"
  shows "set (dates_of_year ct (y, am, ad)) = {day. cron_date ct day \<and> fst day = y \<and> (y, am, ad) \<le> day}"
proof (rule set_eqI)
  fix day :: date
  obtain y' m d where day: "day = (y', m, d)" by (cases day) auto
  have m: "m \<in> set (ct_months ct) \<Longrightarrow> 1 \<le> m \<and> m \<le> 12" using assms(1) by (auto simp: wf_crontab_def)
  show "day \<in> set (dates_of_year ct (y, am, ad)) \<longleftrightarrow>
      day \<in> {day. cron_date ct day \<and> fst day = y \<and> (y, am, ad) \<le> day}"
    using m assms(2,3) by (auto simp: dates_of_year_eq cron_date_def valid_date_def day)
qed

lemma sorted_concat_map:
  assumes "sorted_wrt (\<lambda>a b. \<forall>x\<in>set (f a). \<forall>y\<in>set (f b). P x y) xs" "\<And>a. a \<in> set xs \<Longrightarrow> sorted_wrt P (f a)"
  shows "sorted_wrt P (concat (map f xs))"
  using assms by (induction xs) (auto simp: sorted_wrt_append)

lemma sorted_wrt_weaken:
  "sorted_wrt P xs \<Longrightarrow> (\<And>a b. a \<in> set xs \<Longrightarrow> b \<in> set xs \<Longrightarrow> P a b \<Longrightarrow> Q a b) \<Longrightarrow> sorted_wrt Q xs"
  by (induction xs) auto

lemma dates_of_year_sorted:
  assumes "wf_crontab ct"
  shows "sorted_wrt (<) (dates_of_year ct (y, am, ad))"
  unfolding dates_of_year_eq
proof (rule sorted_concat_map)
  let ?f = "\<lambda>m. map (\<lambda>d. (y, m, d))
       (filter (\<lambda>d. \<not> (m = am \<and> d < ad) \<and> day_matches ct d (weekday (y, m, d))) [1..days_in_month y m])"
  have "sorted_wrt (<) (filter (\<lambda>m. \<not> m < am) (ct_months ct))"
    using assms by (simp add: wf_crontab_def sorted_wrt_filter)
  then show "sorted_wrt (\<lambda>a b. \<forall>x\<in>set (?f a). \<forall>y\<in>set (?f b). x < y) (filter (\<lambda>m. \<not> m < am) (ct_months ct))"
    by (rule sorted_wrt_weaken) auto
  show "sorted_wrt (<) (?f m)" for m
    by (auto simp: sorted_wrt_map intro!: sorted_wrt_filter sorted_wrt_weaken [OF sorted_wrt_upto])
qed

lemma crontab_bounds:
  assumes "wf_crontab ct"
  shows "h \<in> set (ct_hours ct) \<Longrightarrow> 0 \<le> h \<and> h \<le> 23" "mi \<in> set (ct_minutes ct) \<Longrightarrow> 0 \<le> mi \<and> mi \<le> 59"
  using assms by (auto simp: wf_crontab_def)

lemma set_times_of_day:
  assumes w: "wf_crontab ct" and r: "representable start" and v: "valid_date day" and d: "date_of start \<le> day"
  shows "set (times_of_day ct start day) =
    {t. \<exists>h\<in>set (ct_hours ct). \<exists>mi\<in>set (ct_minutes ct). t = ts_of day h mi \<and> minutes_us (minute_index start) \<le> t}"
proof -
  have k: "(\<not> (day = date_of start \<and> h < hour_of start) \<and>
      \<not> (day = date_of start \<and> h = hour_of start \<and> mi < minute_of start)) \<longleftrightarrow>
      minutes_us (minute_index start) \<le> ts_of day h mi"
    if hm: "h \<in> set (ct_hours ct)" "mi \<in> set (ct_minutes ct)" for h mi
  proof (cases "day = date_of start")
    case True
    then show ?thesis
      using crontab_bounds(1) [OF w hm(1)] crontab_bounds(2) [OF w hm(2)] field_bounds [of start]
      by (auto simp: ts_of_fields [symmetric] ts_of_le_time)
  next
    case False
    then have "date_of start < day" using d by simp
    from ts_of_less_date [OF representable_date [OF r] v this, of "hour_of start" "minute_of start" h mi]
    show ?thesis using crontab_bounds [OF w] hm field_bounds [of start] False
      by (simp add: ts_of_fields [symmetric])
  qed
  have "set (times_of_day ct start day) =
      {t. \<exists>h\<in>set (ct_hours ct). \<exists>mi\<in>set (ct_minutes ct). t = ts_of day h mi \<and>
        (\<not> (day = date_of start \<and> h < hour_of start) \<and>
         \<not> (day = date_of start \<and> h = hour_of start \<and> mi < minute_of start))}"
    by (auto simp: times_of_day_def Let_def)
  moreover have "(\<exists>h\<in>set (ct_hours ct). \<exists>mi\<in>set (ct_minutes ct). t = ts_of day h mi \<and>
        (\<not> (day = date_of start \<and> h < hour_of start) \<and>
         \<not> (day = date_of start \<and> h = hour_of start \<and> mi < minute_of start))) \<longleftrightarrow>
      (\<exists>h\<in>set (ct_hours ct). \<exists>mi\<in>set (ct_minutes ct). t = ts_of day h mi \<and>
         minutes_us (minute_index start) \<le> t)" for t
    by (intro bex_cong conj_cong refl) (simp only: k)
  ultimately show ?thesis by simp
qed

lemma times_of_day_sorted:
  assumes "wf_crontab ct"
  shows "sorted_wrt (<) (times_of_day ct start day)"
  unfolding times_of_day_def Let_def
proof (rule sorted_concat_map)
  let ?f = "\<lambda>h. map (\<lambda>mi. ts_of day h mi)
      (filter (\<lambda>mi. \<not> (day = date_of start \<and> h = hour_of start \<and> mi < minute_of start)) (ct_minutes ct))"
  have "ts_of day h mi < ts_of day h' mi'" if "h < h'" "mi \<in> set (ct_minutes ct)" "mi' \<in> set (ct_minutes ct)" for h h' mi mi'
    using crontab_bounds(2) [OF assms that(2)] crontab_bounds(2) [OF assms that(3)] that(1)
    by (simp add: ts_of_def)
  moreover have "sorted_wrt (<) (filter (\<lambda>h. \<not> (day = date_of start \<and> h < hour_of start)) (ct_hours ct))"
    using assms by (simp add: wf_crontab_def sorted_wrt_filter)
  ultimately show "sorted_wrt (\<lambda>a b. \<forall>x\<in>set (?f a). \<forall>y\<in>set (?f b). x < y)
      (filter (\<lambda>h. \<not> (day = date_of start \<and> h < hour_of start)) (ct_hours ct))"
    by (auto elim!: sorted_wrt_weaken)
  have "sorted_wrt (<) (ct_minutes ct)" using assms by (simp add: wf_crontab_def)
  then show "sorted_wrt (<) (?f h)" for h
    by (auto simp: sorted_wrt_map ts_of_def intro!: sorted_wrt_filter)
qed

text \<open>The matching instants from \<open>start\<close> on whose date is not before \<open>anchor\<close>.\<close>

definition cron_times :: "crontab \<Rightarrow> timestamp \<Rightarrow> date \<Rightarrow> timestamp set" where
  "cron_times ct start anchor =
     {t. \<exists>day h mi. cron_instant ct day h mi \<and> anchor \<le> day \<and> t = ts_of day h mi \<and>
        minutes_us (minute_index start) \<le> t}"

lemma set_date_times_of_year:
  assumes w: "wf_crontab ct" and r: "representable start" and y: "1 \<le> y" "y \<le> MAXYEAR"
    and a: "date_of start \<le> (y, am, ad)"
  shows "set (date_times_of_year ct start (y, am, ad)) =
    {t. \<exists>day h mi. cron_instant ct day h mi \<and> fst day = y \<and> (y, am, ad) \<le> day \<and> t = ts_of day h mi \<and>
        minutes_us (minute_index start) \<le> t}"
proof -
  have "set (times_of_day ct start day) = {t. \<exists>h\<in>set (ct_hours ct). \<exists>mi\<in>set (ct_minutes ct). t = ts_of day h mi \<and>
      minutes_us (minute_index start) \<le> t}" if "day \<in> set (dates_of_year ct (y, am, ad))" for day
    using that a set_dates_of_year [OF w y] by (intro set_times_of_day [OF w r]) (auto simp: cron_date_def)
  then have "set (date_times_of_year ct start (y, am, ad)) = (\<Union>day\<in>set (dates_of_year ct (y, am, ad)).
      {t. \<exists>h\<in>set (ct_hours ct). \<exists>mi\<in>set (ct_minutes ct). t = ts_of day h mi \<and> minutes_us (minute_index start) \<le> t})"
    by (auto simp: date_times_of_year_def)
  then show ?thesis unfolding set_dates_of_year [OF w y] cron_instant_def by blast
qed

lemma date_times_of_year_sorted:
  assumes w: "wf_crontab ct" and r: "representable start" and y: "1 \<le> y" "y \<le> MAXYEAR"
    and a: "date_of start \<le> (y, am, ad)"
  shows "sorted_wrt (<) (date_times_of_year ct start (y, am, ad))"
  unfolding date_times_of_year_def
proof (rule sorted_concat_map)
  have "\<forall>t\<in>set (times_of_day ct start p). \<forall>u\<in>set (times_of_day ct start q). t < u"
    if pq: "p \<in> set (dates_of_year ct (y, am, ad))" "q \<in> set (dates_of_year ct (y, am, ad))" "p < q" for p q
  proof -
    have v: "valid_date p" "valid_date q" "date_of start \<le> p" "date_of start \<le> q"
      using pq(1,2) a set_dates_of_year [OF w y] by (auto simp: cron_date_def)
    show ?thesis
      unfolding set_times_of_day [OF w r v(1,3)] set_times_of_day [OF w r v(2,4)]
      using crontab_bounds [OF w] by (auto intro!: ts_of_less_date [OF v(1,2) pq(3)])
  qed
  then show "sorted_wrt (\<lambda>p q. \<forall>t\<in>set (times_of_day ct start p). \<forall>u\<in>set (times_of_day ct start q). t < u)
      (dates_of_year ct (y, am, ad))"
    by (rule sorted_wrt_weaken [OF dates_of_year_sorted [OF w]])
qed (rule times_of_day_sorted [OF w])

lemma cron_times_split:
  assumes w: "wf_crontab ct" and r: "representable start" and y: "1 \<le> y" "y \<le> MAXYEAR"
    and a: "date_of start \<le> (y, am, ad)"
  shows "cron_times ct start (y, am, ad) =
    set (date_times_of_year ct start (y, am, ad)) \<union> cron_times ct start (y + 1, 1, 1)"
proof -
  have "(y, am, ad) \<le> day \<longleftrightarrow> (fst day = y \<and> (y, am, ad) \<le> day) \<or> (y + 1, 1, 1) \<le> day"
    if "cron_instant ct day h mi" for day h mi
    using that by (cases day) (auto simp: cron_instant_def cron_date_def valid_date_def)
  then show ?thesis unfolding set_date_times_of_year [OF w r y a] cron_times_def by blast
qed

lemma cron_times_later:
  assumes w: "wf_crontab ct" and "t \<in> set (date_times_of_year ct start (y, am, ad))"
    and r: "representable start" and y: "1 \<le> y" "y \<le> MAXYEAR" and a: "date_of start \<le> (y, am, ad)"
    and u: "u \<in> cron_times ct start (y + 1, 1, 1)"
  shows "t < u"
proof -
  obtain p h mi where p: "cron_instant ct p h mi" "fst p = y" "t = ts_of p h mi"
    using assms(2) unfolding set_date_times_of_year [OF w r y a] by auto
  obtain q h' mi' where q: "cron_instant ct q h' mi'" "(y + 1, 1, 1) \<le> q" "u = ts_of q h' mi'"
    using u by (auto simp: cron_times_def)
  have "p < q" using p(2) q(2) by (cases p; cases q) auto
  then show ?thesis using p q crontab_bounds [OF w]
    by (auto simp: cron_instant_def cron_date_def intro!: ts_of_less_date)
qed

lemma cron_times_end: "cron_times ct start (MAXYEAR + 1, 1, 1) = {}"
  by (auto simp: cron_times_def cron_instant_def cron_date_def valid_date_def)

definition is_least :: "timestamp result \<Rightarrow> timestamp set \<Rightarrow> bool" where
  "is_least r S \<longleftrightarrow>
     (case r of Inr t \<Rightarrow> t \<in> S \<and> (\<forall>u\<in>S. t \<le> u) | Inl e \<Rightarrow> e = ValueError \<and> S = {})"

lemma next_from_anchor_least:
  assumes "wf_crontab ct" "representable start" "1 \<le> fst anchor" "fst anchor \<le> MAXYEAR" "date_of start \<le> anchor"
  shows "is_least (next_from_anchor ct start anchor) (cron_times ct start anchor)"
  using assms
proof (induction ct start anchor rule: next_from_anchor.induct)
  case (1 ct start anchor)
  obtain y am ad where an: "anchor = (y, am, ad)" by (cases anchor) auto
  have y: "1 \<le> y" "y \<le> MAXYEAR" and a: "date_of start \<le> (y, am, ad)" using "1.prems" an by auto
  note split = cron_times_split [OF "1.prems"(1,2) y a]
  show ?case
  proof (cases "date_times_of_year ct start anchor")
    case (Cons t ts)
    have "t \<le> u" if u: "u \<in> cron_times ct start anchor" for u
    proof (cases "u \<in> set (date_times_of_year ct start anchor)")
      case True
      then show ?thesis using date_times_of_year_sorted [OF "1.prems"(1,2) y a] Cons an by auto
    next
      case False
      then have "u \<in> cron_times ct start (y + 1, 1, 1)" using u split an by blast
      then show ?thesis
        using cron_times_later [OF "1.prems"(1) _ "1.prems"(2) y a, of t u] Cons an by simp
    qed
    then show ?thesis
      using Cons split an by (subst next_from_anchor.simps) (auto simp: is_least_def)
  next
    case Nil
    then have e: "cron_times ct start anchor = cron_times ct start (y + 1, 1, 1)" using split an by simp
    show ?thesis
    proof (cases "y + 1 > MAXYEAR")
      case True
      then have "y = MAXYEAR" using y by simp
      then show ?thesis using Nil e cron_times_end an
        by (subst next_from_anchor.simps) (auto simp: is_least_def)
    next
      case False
      have "date_of start \<le> (y + 1, 1, 1)" using a by (cases "date_of start") auto
      then have "is_least (next_from_anchor ct start (y + 1, 1, 1)) (cron_times ct start (y + 1, 1, 1))"
        using "1.IH" [OF Nil] "1.prems" False y an by simp
      then show ?thesis using Nil e an False by (subst next_from_anchor.simps) simp
    qed
  qed
qed

text \<open>No matching instant from \<open>start\<close> on lies on an earlier date.\<close>

lemma cron_times_start:
  assumes w: "wf_crontab ct" and r: "representable start"
  shows "cron_times ct start (date_of start) =
    {t. \<exists>day h mi. cron_instant ct day h mi \<and> t = ts_of day h mi \<and> minutes_us (minute_index start) \<le> t}"
proof -
  have "date_of start \<le> day" if "cron_instant ct day h mi" "minutes_us (minute_index start) \<le> ts_of day h mi" for day h mi
  proof (rule ccontr)
    assume "\<not> date_of start \<le> day"
    then have "ts_of day h mi < ts_of (date_of start) (hour_of start) (minute_of start)"
      using that(1) representable_date [OF r] crontab_bounds [OF w] field_bounds [of start]
      by (intro ts_of_less_date) (auto simp: cron_instant_def cron_date_def)
    then show False using that(2) by (simp add: ts_of_fields)
  qed
  then show ?thesis unfolding cron_times_def by blast
qed

definition cron_match :: "crontab \<Rightarrow> timestamp \<Rightarrow> bool" where
  "cron_match ct t \<longleftrightarrow> (\<exists>day h mi. cron_instant ct day h mi \<and> t = ts_of day h mi)"

lemma next_minute_after:
  "minutes_us (minute_index (base + minutes_us 1)) \<le> minutes_us k \<longleftrightarrow> base < minutes_us k"
proof -
  have "minute_index (base + minutes_us 1) = minute_index base + 1"
    by (simp add: minute_index_def minutes_us_def seconds_def)
  then show ?thesis using minute_index_floor [of base] minutes_us_mono by (metis add1_zle_eq not_le order_le_less_trans order_less_le_trans)
qed

lemma cron_times_after:
  assumes "wf_crontab ct" "representable (base + minutes_us 1)"
  shows "cron_times ct (base + minutes_us 1) (date_of (base + minutes_us 1)) = {t. cron_match ct t \<and> base < t}"
proof -
  have "minutes_us (minute_index (base + minutes_us 1)) \<le> ts_of day h mi \<longleftrightarrow> base < ts_of day h mi" for day h mi
    unfolding ts_of_def by (rule next_minute_after)
  then show ?thesis unfolding cron_times_start [OF assms] cron_match_def by blast
qed

lemma next_cron_exact:
  assumes s: "\<not> is_solar s" "parse_crontab s = Inr ct" and r: "representable (base + minutes_us 1)"
  shows "case next_cron_occurrence env s base of
      Inr t \<Rightarrow> cron_match ct t \<and> base < t \<and> (\<forall>u. cron_match ct u \<and> base < u \<longrightarrow> t \<le> u)
    | Inl e \<Rightarrow> e = InvalidExpression \<and> (\<forall>u. cron_match ct u \<longrightarrow> u \<le> base)"
proof -
  let ?b = "base + minutes_us 1"
  have w: "wf_crontab ct" by (rule parse_crontab_wf [OF s(2)])
  have "valid_date (date_of ?b)" by (rule representable_date [OF r])
  then have "1 \<le> fst (date_of ?b)" "fst (date_of ?b) \<le> MAXYEAR" by (auto simp: valid_date_def split: prod.splits)
  from next_from_anchor_least [OF w r this order_refl]
  have l: "is_least (next_from ct ?b) {t. cron_match ct t \<and> base < t}"
    by (simp add: next_from_def cron_times_after [OF w r])
  have n: "next_cron_occurrence env s base =
      (case next_from ct ?b of Inl _ \<Rightarrow> Inl InvalidExpression | Inr t \<Rightarrow> Inr t)"
    using s r by (simp add: next_cron_occurrence_def parse_cron_string_def)
  show ?thesis unfolding n using l by (cases "next_from ct ?b") (auto simp: is_least_def not_less)
qed

text \<open>C28: \<^verbatim>\<open>next_cron_occurrence\<close> of a cron expression is exact: it returns the earliest instant strictly
  after the base time that the expression denotes, and it reports an invalid expression only when
  the expression denotes no instant after the base time up to the end of year 9999.\<close>

theorem next_cron_occurrence_least:
  assumes "\<not> is_solar s" "parse_crontab s = Inr ct" "representable (base + minutes_us 1)"
  shows "case next_cron_occurrence env s base of
      Inr t \<Rightarrow> cron_match ct t \<and> base < t \<and> (\<forall>u. cron_match ct u \<and> base < u \<longrightarrow> t \<le> u)
    | Inl e \<Rightarrow> e = InvalidExpression \<and> (\<forall>u. cron_match ct u \<longrightarrow> u \<le> base)"
  by (rule next_cron_exact [OF assms])

definition no_solar :: solar_env where
  "no_solar = \<lparr>so_parse = (\<lambda>_. None), so_next = (\<lambda>_ _. None)\<rparr>"

definition leap_day :: crontab where
  "leap_day = \<lparr>ct_minutes = [30], ct_hours = [2], ct_day_of_month = [29], ct_months = [2],
     ct_day_of_week = [0, 1, 2, 3, 4, 5, 6], ct_day_of_month_asterisk = False, ct_day_of_week_asterisk = True\<rparr>"

lemma leap_day_eval:
  "\<not> is_solar ''30 2 29 2 *''" "parse_crontab ''30 2 29 2 *'' = Inr leap_day"
  "representable (ts_of (2022, 5, 1) 8 0 + minutes_us 1)"
  "next_cron_occurrence no_solar ''30 2 29 2 *'' (ts_of (2022, 5, 1) 8 0) = Inr (ts_of (2024, 2, 29) 2 30)"
  by code_simp+

theorem next_cron_occurrence_least_witness:
  "cron_match leap_day (ts_of (2024, 2, 29) 2 30) \<and>
   \<not> (\<exists>u. cron_match leap_day u \<and> ts_of (2022, 5, 1) 8 0 < u \<and> u < ts_of (2024, 2, 29) 2 30)"
  using next_cron_occurrence_least [OF leap_day_eval(1-3), of no_solar] by (auto simp: leap_day_eval(4) not_less)

text \<open>C38: every list of an accepted expression is strictly increasing and within the bounds of its
  field, so the generator never builds an invalid date or time.\<close>

theorem parse_cron_string_bounds:
  assumes "parse_cron_string env s = Inr (Cron_schedule ct)"
  shows "sorted_wrt (<) (ct_minutes ct) \<and> set (ct_minutes ct) \<subseteq> {0..59} \<and>
     sorted_wrt (<) (ct_hours ct) \<and> set (ct_hours ct) \<subseteq> {0..23} \<and>
     sorted_wrt (<) (ct_day_of_month ct) \<and> set (ct_day_of_month ct) \<subseteq> {1..31} \<and>
     sorted_wrt (<) (ct_months ct) \<and> set (ct_months ct) \<subseteq> {1..12} \<and>
     sorted_wrt (<) (ct_day_of_week ct) \<and> set (ct_day_of_week ct) \<subseteq> {0..6}"
proof -
  have "parse_crontab s = Inr ct"
    using assms by (cases "parse_crontab s") (auto simp: parse_cron_string_def split: if_splits option.splits)
  then show ?thesis using parse_crontab_wf unfolding wf_crontab_def by blast
qed

theorem parse_cron_string_bounds_witness:
  "set (ct_months leap_day) \<subseteq> {1..12} \<and> sorted_wrt (<) (ct_day_of_week leap_day)"
proof -
  have "parse_cron_string no_solar ''30 2 29 2 *'' = Inr (Cron_schedule leap_day)"
    by (simp add: parse_cron_string_def leap_day_eval)
  from parse_cron_string_bounds [OF this] show ?thesis by blast
qed

lemma py_strip_keeps_first:
  assumes "\<not> is_space c"
  shows "\<exists>t. py_strip (c # s) = c # t"
proof (cases "\<forall>x\<in>set s. is_space x")
  case True
  then have "dropWhile is_space (rev s @ [c]) = [c]" using assms by (subst dropWhile_append2) auto
  then show ?thesis using assms by (simp add: py_strip_def)
next
  case False
  then have "dropWhile is_space (rev s @ [c]) = dropWhile is_space (rev s) @ [c]"
    by (metis dropWhile_append1 set_rev)
  then show ?thesis using assms by (simp add: py_strip_def)
qed

lemma star_not_solar: "\<not> is_solar (CHR ''*'' # s)"
proof -
  obtain t where "py_strip (CHR ''*'' # s) = CHR ''*'' # t"
    using py_strip_keeps_first [of "CHR ''*''" s] by (auto simp: is_space_def)
  then show ?thesis by (simp add: is_solar_def lower_def startswith_def)
qed

lemma zero_step: "expression_to_list ''*/0'' 59 0 1 = Inl ValueError"
  by code_simp

text \<open>A zero step in the minute field is not reported as an invalid expression:
  \<^verbatim>\<open>validate_cron_expression\<close>, which promises a pair, raises the \<^verbatim>\<open>ValueError\<close> of \<^verbatim>\<open>range\<close>.\<close>

theorem zero_step_not_validated:
  assumes "length (split_on (CHR '' '') rest) = 4"
  shows "validate_cron_expression env (''*/0 '' @ rest) = Inl ValueError"
proof -
  obtain h dm m dw where r: "split_on (CHR '' '') rest = [h, dm, m, dw]"
    using assms by (auto simp: numeral_eq_Suc length_Suc_conv)
  then have "split_on (CHR '' '') (''*/0 '' @ rest) = [''*/0'', h, dm, m, dw]" by simp
  moreover have "map_of MACROS (''*/0 '' @ rest) = None" by (simp add: MACROS_def)
  ultimately have "parse_crontab (''*/0 '' @ rest) = Inl ValueError"
    by (simp only: parse_crontab_def Let_def option.case list.case zero_step sum.case)
  then show ?thesis
    using star_not_solar [of "''/0 '' @ rest"] by (simp add: validate_cron_expression_def parse_cron_string_def)
qed

theorem zero_step_not_validated_witness:
  "validate_cron_expression no_solar ''*/0 * * * *'' = Inl ValueError"
  using zero_step_not_validated [of "''* * * *''" no_solar] by simp

section \<open>Lists of values\<close>

fun comma_list :: "int list \<Rightarrow> string" where
  "comma_list [] = []"
| "comma_list [x] = show_int x"
| "comma_list (x # y # ys) = show_int x @ CHR '','' # comma_list (y # ys)"

lemma digit_char_value: "int (of_char (digit_char d)) - 48 = int (d mod 10)"
proof -
  have "d mod 10 < 10" by simp
  then have "d mod 10 = 0 \<or> d mod 10 = 1 \<or> d mod 10 = 2 \<or> d mod 10 = 3 \<or> d mod 10 = 4 \<or> d mod 10 = 5 \<or>
      d mod 10 = 6 \<or> d mod 10 = 7 \<or> d mod 10 = 8 \<or> d mod 10 = 9" by presburger
  then show ?thesis by (elim disjE) (simp_all add: digit_char_def)
qed

lemma digits_val_append:
  "\<forall>c\<in>set s. is_digit c \<Longrightarrow> digits_val acc (s @ t) = (case digits_val acc s of None \<Rightarrow> None | Some v \<Rightarrow> digits_val v t)"
  by (induction s arbitrary: acc) auto

lemma of_nat_div_mult_mod: "int (n div 10) * 10 + int (n mod 10) = int n"
  by (metis div_mult_mod_eq of_nat_add of_nat_mult of_nat_numeral)

lemma digits_val_show: "digits_val 0 (show_nat n) = Some (int n)"
proof (induction n rule: show_nat.induct)
  case (1 n)
  show ?case
  proof (cases "n < 10")
    case True
    then show ?thesis using digit_char_value [of n] by (subst show_nat.simps) simp
  next
    case False
    then show ?thesis
      using 1 digit_char_value [of n] of_nat_div_mult_mod [of n]
      by (subst show_nat.simps) (simp add: digits_val_append)
  qed
qed

lemma digit_not_space: "is_digit c \<Longrightarrow> \<not> is_space c"
  by (auto simp: is_digit_def is_space_def)

lemma py_strip_digits:
  assumes "\<forall>c\<in>set s. is_digit c"
  shows "py_strip s = s"
proof -
  have "dropWhile is_space t = t" if "\<forall>c\<in>set t. is_digit c" for t
    using that digit_not_space by (cases t) auto
  then show ?thesis using assms by (simp add: py_strip_def)
qed

lemma int_of_show: "int_of_str (show_nat n) = Inr (int n)"
proof -
  obtain c cs where c: "show_nat n = c # cs" using show_nat_nonempty [of n] by (cases "show_nat n") auto
  then have d: "is_digit c" using show_nat_digits [of n] by simp
  then have "c \<noteq> CHR ''-''" "c \<noteq> CHR ''+''" by (auto simp: is_digit_def)
  then show ?thesis
    using c d digits_val_show [of n] py_strip_digits [OF show_nat_digits [of n]]
    by (simp add: int_of_str_def Let_def)
qed

lemma show_int_digits: "0 \<le> x \<Longrightarrow> \<forall>c\<in>set (show_int x). is_digit c"
  by (simp add: show_int_def)

lemma comma_star_not_digit: "\<not> is_digit (CHR '','')" "\<not> is_digit (CHR ''*'')"
  by (simp_all add: is_digit_def)

lemma split_on_comma_list:
  assumes "\<forall>x\<in>set xs. 0 \<le> x" "xs \<noteq> []"
  shows "split_on (CHR '','') (comma_list xs) = map show_int xs"
proof -
  have no: "CHR '','' \<notin> set (show_int x)" if "0 \<le> x" for x
    using show_int_digits [OF that] comma_star_not_digit(1) by blast
  have one: "split_on c s = [s]" if "c \<notin> set s" for c s using that by (induction s) auto
  have more: "split_on c (s @ c # t) = s # split_on c t" if "c \<notin> set s" for c s t
    using that by (induction s) auto
  show ?thesis using assms by (induction xs rule: comma_list.induct) (auto simp: one more no)
qed

lemma single_value:
  assumes "0 \<le> x" "mn \<le> x" "x \<le> mx"
  shows "expression_to_list (show_int x) mx mn step = Inr [x]"
proof -
  have d: "\<forall>c\<in>set (show_int x). is_digit c" by (rule show_int_digits [OF assms(1)])
  have n: "isnumeric (show_int x)" using d assms(1) by (auto simp: isnumeric_def list_all_iff show_int_def)
  have "CHR '','' \<notin> set (show_int x)" "show_int x \<noteq> ''*''"
    using d comma_star_not_digit by auto
  moreover have "try_int (show_int x) mx mn = Inr x"
    using assms int_of_show [of "nat x"] by (simp add: try_int_def show_int_def)
  ultimately show ?thesis using n by (subst expression_to_list.simps) simp
qed

text \<open>A comma-separated list of values is parsed back to exactly those values, for every field.\<close>

theorem value_list_roundtrip:
  assumes "xs \<noteq> []" "sorted_wrt (<) xs" "\<forall>x\<in>set xs. 0 \<le> x \<and> mn \<le> x \<and> x \<le> mx"
  shows "expression_to_list (comma_list xs) mx mn 1 = Inr xs"
proof (cases "tl xs = []")
  case True
  then obtain x where "xs = [x]" using assms(1) by (cases xs) auto
  then show ?thesis using assms(3) single_value by simp
next
  case False
  then obtain x y ys where xs: "xs = x # y # ys" using assms(1) by (cases xs; cases "tl xs") auto
  have "map (\<lambda>sub. expression_to_list sub mx mn 1) (split_on (CHR '','') (comma_list xs)) = map (\<lambda>x. Inr [x]) xs"
    using assms split_on_comma_list [of xs] by (auto intro!: single_value)
  moreover have "collect_values (map (\<lambda>x. Inr [x]) zs) = Inr zs" for zs :: "int list" by (induction zs) auto
  moreover have "CHR '','' \<in> set (comma_list xs)" by (simp add: xs)
  moreover have "sort (remdups xs) = xs"
    using assms(2) by (simp add: strict_sorted_iff distinct_remdups_id sorted_sort_id)
  ultimately show ?thesis by (subst expression_to_list.simps) simp
qed

theorem value_list_roundtrip_witness:
  "expression_to_list ''5,20,35'' 59 0 1 = Inr [5, 20, 35]"
proof -
  have "comma_list [5, 20, 35] = ''5,20,35''" by code_simp
  then show ?thesis using value_list_roundtrip [of "[5, 20, 35]" 0 59] by simp
qed

end
