(* ===== verification/Sq_Scheduler.thy ===== *)
theory Sq_Scheduler
  imports Sq_Crontab Sq_Maintain
begin

text \<open>
  Scheduled tasks: \<^verbatim>\<open>core/scheduler.py\<close> (\<^verbatim>\<open>Scheduler\<close>) and the scheduled-task operations of
  \<^verbatim>\<open>fastapi_sqlery/backend.py\<close>. The state \<open>sched_db\<close> is the task table beside the queue tables, because
  firing a task advances the task and enqueues the job in one transaction.

  The task row of the standalone backend has no \<^verbatim>\<open>schedule_type\<close>, \<^verbatim>\<open>max_retries\<close> or other execution
  options, so the \<^verbatim>\<open>getattr\<close> defaults of the scheduler apply; \<open>schedule_type\<close> and the interval are
  arguments here because the Django rows have them. The jitter sleep changes no state.
\<close>

section \<open>State and statements\<close>

record sched_db =
  sd_tasks :: "scheduled_task list"
  sd_db :: db

definition task_by_id :: "int \<Rightarrow> scheduled_task list \<Rightarrow> scheduled_task option" where
  "task_by_id tid ts = List.find (\<lambda>t. t_id t = tid) ts"

text \<open>The due tasks, each with its \<^verbatim>\<open>next_run_at\<close>: the comparison of the query excludes null.\<close>

definition get_due_scheduled_tasks :: "timestamp \<Rightarrow> sched_db \<Rightarrow> (scheduled_task \<times> timestamp) list" where
  "get_due_scheduled_tasks now sd =
     sort_key snd
       (concat (map (\<lambda>t. case t_next_run_at t of
                             None \<Rightarrow> []
                           | Some r \<Rightarrow> if t_enabled t \<and> r \<le> now then [(t, r)] else [])
                 (sd_tasks sd)))"

definition create_scheduled_task ::
  "solar_env \<Rightarrow> timestamp \<Rightarrow> int \<Rightarrow> string \<Rightarrow> string \<Rightarrow> string \<Rightarrow> string \<Rightarrow> int \<Rightarrow> bool \<Rightarrow> timestamp option \<Rightarrow>
     sched_db \<Rightarrow> (sched_db \<times> scheduled_task) result" where
  "create_scheduled_task env now new_id name task_path cron queue priority enabled next_run sd =
     (case (case next_run of Some r \<Rightarrow> Inr r | None \<Rightarrow> next_cron_occurrence env cron now) of
        Inl e \<Rightarrow> Inl e
      | Inr r \<Rightarrow>
          (let t = \<lparr>t_id = new_id, t_name = name, t_task_path = task_path, t_cron_expression = cron,
                    t_queue_name = queue, t_priority = priority, t_enabled = enabled,
                    t_next_run_at = Some r\<rparr>
           in if name \<in> t_name ` set (sd_tasks sd) then Inl IntegrityError
              else Inr (sd\<lparr>sd_tasks := sd_tasks sd @ [t]\<rparr>, t)))"

definition update_scheduled_task ::
  "int \<Rightarrow> (scheduled_task \<Rightarrow> scheduled_task) \<Rightarrow> sched_db \<Rightarrow> sched_db \<times> scheduled_task option" where
  "update_scheduled_task tid f sd =
     (case task_by_id tid (sd_tasks sd) of
        None \<Rightarrow> (sd, None)
      | Some t \<Rightarrow> (sd\<lparr>sd_tasks := update_where (\<lambda>t. t_id t = tid) f (sd_tasks sd)\<rparr>, Some (f t)))"

definition update_scheduled_task_next_run :: "int \<Rightarrow> timestamp \<Rightarrow> sched_db \<Rightarrow> sched_db" where
  "update_scheduled_task_next_run tid r sd =
     fst (update_scheduled_task tid (\<lambda>t. t\<lparr>t_next_run_at := Some r\<rparr>) sd)"

definition delete_scheduled_task :: "int \<Rightarrow> sched_db \<Rightarrow> sched_db \<times> bool" where
  "delete_scheduled_task tid sd =
     (case task_by_id tid (sd_tasks sd) of
        None \<Rightarrow> (sd, False)
      | Some _ \<Rightarrow> (sd\<lparr>sd_tasks := delete_where (\<lambda>t. t_id t = tid) (sd_tasks sd)\<rparr>, True))"

definition has_pending_job_for_scheduled_task :: "int \<Rightarrow> sched_db \<Rightarrow> bool" where
  "has_pending_job_for_scheduled_task tid sd \<longleftrightarrow>
     rowcount (\<lambda>j. j_scheduled_task_id j = Some tid \<and> j_status j \<in> {Queued, Running}) (live (sd_db sd)) > 0"

text \<open>
  The atomic advance. On PostgreSQL the row is locked, read, compared and written; on SQLite one
  \<^verbatim>\<open>UPDATE\<close> carries the comparison. A null \<^verbatim>\<open>next_run_at\<close> never equals the observed time.
\<close>

definition fire_job :: "nat \<Rightarrow> timestamp \<Rightarrow> job_id \<Rightarrow> job_spec \<Rightarrow> sched_db \<Rightarrow> sched_db \<times> job option" where
  "fire_job slot now new_id spec sd =
     (let j = build_queued_job new_id now spec in (sd\<lparr>sd_db := add_job slot j (sd_db sd)\<rparr>, Some j))"

definition advance_locked ::
  "nat \<Rightarrow> timestamp \<Rightarrow> job_id \<Rightarrow> int \<Rightarrow> timestamp \<Rightarrow> timestamp \<Rightarrow> job_spec \<Rightarrow> sched_db \<Rightarrow> sched_db \<times> job option" where
  "advance_locked slot now new_id tid observed new_run spec sd =
     (case task_by_id tid (sd_tasks sd) of
        None \<Rightarrow> (sd, None)
      | Some existing \<Rightarrow>
          (case t_next_run_at existing of
             None \<Rightarrow> (sd, None)
           | Some existing_due \<Rightarrow>
               if \<not> t_enabled existing then (sd, None)
               else if existing_due \<noteq> observed then (sd, None)
               else fire_job slot now new_id spec
                      (sd\<lparr>sd_tasks := update_where (\<lambda>t. t_id t = tid)
                            (\<lambda>t. t\<lparr>t_next_run_at := Some new_run\<rparr>) (sd_tasks sd)\<rparr>)))"

definition advance_cas ::
  "nat \<Rightarrow> timestamp \<Rightarrow> job_id \<Rightarrow> int \<Rightarrow> timestamp \<Rightarrow> timestamp \<Rightarrow> job_spec \<Rightarrow> sched_db \<Rightarrow> sched_db \<times> job option" where
  "advance_cas slot now new_id tid observed new_run spec sd =
     (let W = (\<lambda>t. t_id t = tid \<and> t_next_run_at t = Some observed \<and> t_enabled t)
      in if rowcount W (sd_tasks sd) \<noteq> 1 then (sd, None)
         else fire_job slot now new_id spec
                (sd\<lparr>sd_tasks := update_where W (\<lambda>t. t\<lparr>t_next_run_at := Some new_run\<rparr>) (sd_tasks sd)\<rparr>))"

definition advance_scheduled_task_if_due ::
  "claim_strategy \<Rightarrow> nat \<Rightarrow> timestamp \<Rightarrow> job_id \<Rightarrow> int \<Rightarrow> timestamp \<Rightarrow> timestamp \<Rightarrow> job_spec \<Rightarrow> sched_db \<Rightarrow>
     sched_db \<times> job option" where
  "advance_scheduled_task_if_due strategy slot now new_id tid observed new_run spec sd =
     (if strategy = Skip_locked then advance_locked slot now new_id tid observed new_run spec sd
      else advance_cas slot now new_id tid observed new_run spec sd)"

section \<open>The scheduler\<close>

definition MAX_CLAMP_ITERATIONS :: nat where "MAX_CLAMP_ITERATIONS = 2000000"

fun clamp_loop :: "(timestamp \<Rightarrow> timestamp result) \<Rightarrow> timestamp \<Rightarrow> nat \<Rightarrow> timestamp \<Rightarrow> timestamp result" where
  "clamp_loop nxt now n candidate =
     (if candidate \<le> now \<and> n \<noteq> 0 then
        (case nxt candidate of Inl e \<Rightarrow> Inl e | Inr c \<Rightarrow> clamp_loop nxt now (n - 1) c)
      else Inr candidate)"

declare clamp_loop.simps [simp del]

definition scheduler_next_run :: "solar_env \<Rightarrow> string \<Rightarrow> timestamp \<Rightarrow> timestamp \<Rightarrow> timestamp result" where
  "scheduler_next_run env cron base now =
     (case next_cron_occurrence env cron base of
        Inl e \<Rightarrow> Inl e
      | Inr c0 \<Rightarrow>
          (case clamp_loop (next_cron_occurrence env cron) now MAX_CLAMP_ITERATIONS c0 of
             Inl e \<Rightarrow> Inl e
           | Inr c \<Rightarrow> if c \<le> now then next_cron_occurrence env cron now else Inr c))"

definition task_job_kwargs :: "scheduled_task \<Rightarrow> job_spec" where
  "task_job_kwargs t =
     \<lparr>s_task_path = t_task_path t, s_kwargs = JObj [], s_queue_name = t_queue_name t,
      s_priority = t_priority t, s_scheduled_at = None, s_max_retries = 0, s_retry_backoff = 1,
      s_allow_parallel = False, s_timeout_seconds = None, s_retry_count = None,
      s_scheduled_task_id = Some (t_id t), s_job_name = None, s_retry_intervals = None, s_meta = None,
      s_dependencies = None, s_on_success_path = [], s_on_failure_path = [], s_ttl = None,
      s_result_ttl = None, s_failure_ttl = None, s_parent_job_id = None, s_tags = None\<rparr>"

text \<open>
  What one scheduler instance brings to a cycle: the dialect, its slot, the clock it reads, the ids
  drawn for the jobs, the schedule type and interval of a task and the staging parameters.
\<close>

record sched_env =
  sc_solar :: solar_env
  sc_strategy :: claim_strategy
  sc_slot :: nat
  sc_now :: timestamp
  sc_new_id :: "int \<Rightarrow> job_id"
  sc_type :: "scheduled_task \<Rightarrow> schedule_type"
  sc_interval :: "scheduled_task \<Rightarrow> int"
  sc_partitioned :: bool
  sc_threshold_days :: int

definition is_cron :: "sched_env \<Rightarrow> scheduled_task \<Rightarrow> bool" where
  "is_cron env t \<longleftrightarrow>
     (sc_type env t = Cron \<and> t_cron_expression t \<noteq> []) \<or>
     (sc_type env t \<notin> {Cron, Interval, Once} \<and> t_cron_expression t \<noteq> [])"

definition enqueue_for_scheduled_task ::
  "sched_env \<Rightarrow> scheduled_task \<times> timestamp \<Rightarrow> sched_db \<Rightarrow> (sched_db \<times> (staged_job + job) option) result" where
  "enqueue_for_scheduled_task env due_task sd =
    (case due_task of (t, observed) \<Rightarrow>
      if is_cron env t then
        (case scheduler_next_run (sc_solar env) (t_cron_expression t) observed (sc_now env) of
           Inl e \<Rightarrow> Inl e
         | Inr new_run \<Rightarrow>
             (let (sd', j) = advance_scheduled_task_if_due (sc_strategy env) (sc_slot env) (sc_now env)
                               (sc_new_id env (t_id t)) (t_id t) observed new_run (task_job_kwargs t) sd
              in Inr (sd', map_option Inr j)))
      else if has_pending_job_for_scheduled_task (t_id t) sd then Inr (sd, None)
      else
        (let (d, created) = create_job (sc_partitioned env) (sc_threshold_days env) (sc_slot env) (sc_now env)
                              (sc_new_id env (t_id t)) (task_job_kwargs t) (sd_db sd);
             sd1 = sd\<lparr>sd_db := d\<rparr>;
             sd2 = (if sc_type env t = Interval then
                      (if sc_interval env t > 0
                       then update_scheduled_task_next_run (t_id t)
                              (sc_now env + seconds (sc_interval env t)) sd1
                       else sd1)
                    else if sc_type env t = Once
                    then fst (update_scheduled_task (t_id t)
                           (\<lambda>t. t\<lparr>t_enabled := False, t_next_run_at := None\<rparr>) sd1)
                    else sd1)
         in Inr (sd2, Some created)))"

text \<open>One cycle: the due tasks are read once; a task that raises is logged and skipped.\<close>

fun enqueue_each ::
  "sched_env \<Rightarrow> (scheduled_task \<times> timestamp) list \<Rightarrow> sched_db \<Rightarrow> sched_db \<times> (staged_job + job) list" where
  "enqueue_each env [] sd = (sd, [])"
| "enqueue_each env (t # ts) sd =
     (case enqueue_for_scheduled_task env t sd of
        Inl _ \<Rightarrow> enqueue_each env ts sd
      | Inr (sd1, None) \<Rightarrow> enqueue_each env ts sd1
      | Inr (sd1, Some j) \<Rightarrow> (let (sd2, js) = enqueue_each env ts sd1 in (sd2, j # js)))"

definition run_due_tasks ::
  "sched_env \<Rightarrow> string list option \<Rightarrow> sched_db \<Rightarrow> sched_db \<times> (staged_job + job) list" where
  "run_due_tasks env queue_names sd =
     (let due_tasks = get_due_scheduled_tasks (sc_now env) sd;
          mine = (case queue_names of
                    None \<Rightarrow> due_tasks
                  | Some qs \<Rightarrow> filter (\<lambda>(t, _). t_queue_name t \<in> set qs) due_tasks)
      in enqueue_each env mine sd)"

definition register_scheduled_task ::
  "solar_env \<Rightarrow> timestamp \<Rightarrow> int \<Rightarrow> string \<Rightarrow> string \<Rightarrow> string \<Rightarrow> string \<Rightarrow> int \<Rightarrow> bool \<Rightarrow> sched_db \<Rightarrow>
     (sched_db \<times> scheduled_task) result" where
  "register_scheduled_task env now new_id name task_path cron queue priority enabled sd =
     (case scheduler_next_run env cron now now of
        Inl e \<Rightarrow> Inl e
      | Inr r \<Rightarrow> create_scheduled_task env now new_id name task_path cron queue priority enabled (Some r) sd)"

text \<open>The throttled sweep of the leader: at most once per interval, and an error keeps the cursor.\<close>

record scheduler =
  sr_sweep :: throttle
  sr_cursor :: job_id

definition scheduler_maintain ::
  "scheduler \<Rightarrow> rat \<Rightarrow> (job_id \<Rightarrow> db \<Rightarrow> (db \<times> sweep_result) result) \<Rightarrow> db \<Rightarrow> scheduler \<times> db" where
  "scheduler_maintain sr clock sweep d =
     (let (th, run) = due (sr_sweep sr) clock;
          sr1 = sr\<lparr>sr_sweep := th\<rparr>
      in if \<not> run then (sr1, d)
         else case sweep (sr_cursor sr) d of
                Inl _ \<Rightarrow> (sr1, d)
              | Inr (d', res) \<Rightarrow> (sr1\<lparr>sr_cursor := sw_cursor res\<rparr>, d'))"

section \<open>The next run is the next future occurrence\<close>

lemma representable_between: "representable a \<Longrightarrow> representable c \<Longrightarrow> a \<le> b \<Longrightarrow> b \<le> c \<Longrightarrow> representable b"
  by (simp add: representable_def)

text \<open>An occurrence after \<open>b\<close> that exists is the same from every base time between \<open>b\<close> and it.\<close>

lemma next_cron_skip:
  assumes s: "\<not> is_solar s" "parse_crontab s = Inr ct"
    and r: "representable (b + minutes_us 1)" "representable (b' + minutes_us 1)"
    and t: "next_cron_occurrence env s b = Inr t" and b: "b \<le> b'" "b' < t"
  shows "next_cron_occurrence env s b' = Inr t"
proof -
  have e: "cron_match ct t" "b < t" "\<And>u. cron_match ct u \<Longrightarrow> b < u \<Longrightarrow> t \<le> u"
    using next_cron_exact [OF s r(1), of env] t by auto
  show ?thesis
  proof (cases "next_cron_occurrence env s b'")
    case (Inl err)
    then have "t \<le> b'" using next_cron_exact [OF s r(2), of env] e(1) by simp
    then show ?thesis using b by simp
  next
    case (Inr t')
    then have "cron_match ct t'" "b' < t'" "t' \<le> t"
      using next_cron_exact [OF s r(2), of env] e(1) b(2) by auto
    then show ?thesis using Inr e(3) [of t'] b(1) by simp
  qed
qed

lemma next_cron_error_later:
  assumes s: "\<not> is_solar s" "parse_crontab s = Inr ct"
    and r: "representable (b + minutes_us 1)" "representable (b' + minutes_us 1)"
    and t: "next_cron_occurrence env s b = Inl e" and b: "b \<le> b'"
  shows "next_cron_occurrence env s b' = Inl e"
proof -
  have e: "e = InvalidExpression" "\<And>u. cron_match ct u \<Longrightarrow> u \<le> b"
    using next_cron_exact [OF s r(1), of env] t by auto
  show ?thesis
  proof (cases "next_cron_occurrence env s b'")
    case (Inl err)
    then show ?thesis using next_cron_exact [OF s r(2), of env] e(1) by simp
  next
    case (Inr t')
    then have "cron_match ct t'" "b' < t'" using next_cron_exact [OF s r(2), of env] by auto
    then show ?thesis using e(2) [of t'] b by simp
  qed
qed

lemma next_cron_later:
  assumes "\<not> is_solar s" "parse_crontab s = Inr ct" "representable (b + minutes_us 1)"
    "next_cron_occurrence env s b = Inr t"
  shows "b < t"
  using next_cron_exact [OF assms(1-3), of env] assms(4) by simp

lemma clamp_loop_next:
  assumes s: "\<not> is_solar s" "parse_crontab s = Inr ct"
    and c: "representable (c + minutes_us 1)" "representable (now + minutes_us 1)" "c \<le> now"
  shows "(case clamp_loop (next_cron_occurrence env s) now n c of
      Inl e \<Rightarrow> next_cron_occurrence env s now = Inl e
    | Inr t \<Rightarrow> t \<le> now \<or> next_cron_occurrence env s now = Inr t)"
  using c
proof (induction n arbitrary: c)
  case 0
  then show ?case by (simp add: clamp_loop.simps)
next
  case (Suc n)
  show ?case
  proof (cases "next_cron_occurrence env s c")
    case (Inl e)
    then have "next_cron_occurrence env s now = Inl e"
      using next_cron_error_later [OF s Suc.prems(1,2)] Suc.prems(3) by blast
    then show ?thesis using Inl Suc.prems(3) by (subst clamp_loop.simps) simp
  next
    case (Inr t)
    have lt: "c < t" by (rule next_cron_later [OF s Suc.prems(1) Inr])
    show ?thesis
    proof (cases "t \<le> now")
      case True
      have "representable (t + minutes_us 1)"
        by (rule representable_between [OF Suc.prems(1,2)]) (use lt True in simp_all)
      from Suc.IH [OF this Suc.prems(2) True] show ?thesis
        using Inr Suc.prems(3) by (subst clamp_loop.simps) simp
    next
      case False
      then have "next_cron_occurrence env s now = Inr t"
        using next_cron_skip [OF s Suc.prems(1,2) Inr Suc.prems(3)] by simp
      then show ?thesis using Inr Suc.prems(3) False
        by (subst clamp_loop.simps) (simp add: clamp_loop.simps [of _ _ n])
    qed
  qed
qed

text \<open>The bounded catch-up loop of \<^verbatim>\<open>calculate_next_run\<close> computes what a direct search would: the
  first occurrence after both the task's due time and the present, whether or not the iteration
  cap is reached, and the same error when there is none.\<close>

theorem scheduler_next_run_spec:
  assumes s: "\<not> is_solar s" "parse_crontab s = Inr ct"
    and r: "representable (base + minutes_us 1)" "representable (now + minutes_us 1)"
  shows "scheduler_next_run env s base now = next_cron_occurrence env s (max base now)"
proof (cases "next_cron_occurrence env s base")
  case (Inl e)
  have "next_cron_occurrence env s (max base now) = Inl e"
  proof (rule next_cron_error_later [OF s r(1) _ Inl])
    show "representable (max base now + minutes_us 1)" using r by (cases "base \<le> now") simp_all
  qed simp
  then show ?thesis using Inl by (simp add: scheduler_next_run_def)
next
  case (Inr c)
  have bc: "base < c" by (rule next_cron_later [OF s r(1) Inr])
  show ?thesis
  proof (cases "c \<le> now")
    case True
    have rc: "representable (c + minutes_us 1)"
      by (rule representable_between [OF r]) (use bc True in simp_all)
    have "max base now = now" using bc True by simp
    then show ?thesis
      using clamp_loop_next [OF s rc r(2) True, of env MAX_CLAMP_ITERATIONS] Inr
      by (cases "clamp_loop (next_cron_occurrence env s) now MAX_CLAMP_ITERATIONS c")
        (auto simp: scheduler_next_run_def)
  next
    case False
    have "next_cron_occurrence env s (max base now) = Inr c"
      using next_cron_skip [OF s r(1) _ Inr, of "max base now"] r bc False by (cases "base \<le> now") auto
    then show ?thesis
      using Inr False by (simp add: scheduler_next_run_def clamp_loop.simps [of _ now _ c])
  qed
qed

theorem scheduler_next_run_spec_witness:
  "scheduler_next_run no_solar ''30 2 29 2 *'' (ts_of (2015, 1, 1) 0 0) (ts_of (2022, 5, 1) 8 0) =
     Inr (ts_of (2024, 2, 29) 2 30)"
proof -
  have "representable (ts_of (2015, 1, 1) 0 0 + minutes_us 1)" by code_simp
  from scheduler_next_run_spec [OF leap_day_eval(1,2) this leap_day_eval(3), of no_solar]
  have "scheduler_next_run no_solar ''30 2 29 2 *'' (ts_of (2015, 1, 1) 0 0) (ts_of (2022, 5, 1) 8 0) =
      next_cron_occurrence no_solar ''30 2 29 2 *'' (max (ts_of (2015, 1, 1) 0 0) (ts_of (2022, 5, 1) 8 0))" .
  moreover have "max (ts_of (2015, 1, 1) 0 0) (ts_of (2022, 5, 1) 8 0) = ts_of (2022, 5, 1) 8 0" by code_simp
  ultimately show ?thesis using leap_day_eval(4) by simp
qed

lemma scheduler_next_run_future:
  assumes s: "\<not> is_solar s" "parse_crontab s = Inr ct"
    and r: "representable (base + minutes_us 1)" "representable (now + minutes_us 1)"
    and n: "scheduler_next_run env s base now = Inr t"
  shows "now < t"
proof -
  obtain c0 c where "next_cron_occurrence env s base = Inr c0"
    "clamp_loop (next_cron_occurrence env s) now MAX_CLAMP_ITERATIONS c0 = Inr c"
    "(if c \<le> now then next_cron_occurrence env s now else Inr c) = Inr t"
    using n by (auto simp: scheduler_next_run_def split: sum.splits)
  then show ?thesis using next_cron_later [OF s r(2), of env t] by (cases "c \<le> now") auto
qed

section \<open>A tick fires once\<close>

definition set_next_run :: "int \<Rightarrow> timestamp \<Rightarrow> scheduled_task list \<Rightarrow> scheduled_task list" where
  "set_next_run tid r ts = update_where (\<lambda>t. t_id t = tid) (\<lambda>t. t\<lparr>t_next_run_at := Some r\<rparr>) ts"

lemma map_t_id_set_next_run [simp]: "map t_id (set_next_run tid r ts) = map t_id ts"
  by (induction ts) (auto simp: set_next_run_def)

lemma set_next_run_mem:
  assumes "t \<in> set (set_next_run tid r ts)" "t_id t = tid"
  shows "t_next_run_at t = Some r"
proof -
  obtain t0 where "t = (if t_id t0 = tid then t0\<lparr>t_next_run_at := Some r\<rparr> else t0)"
    using assms(1) unfolding set_next_run_def update_where_mem by blast
  then show ?thesis using assms(2) by (cases "t_id t0 = tid") simp_all
qed

lemma task_by_id_Some: "task_by_id tid ts = Some t \<Longrightarrow> t \<in> set ts \<and> t_id t = tid"
  unfolding task_by_id_def by (drule find_mem) simp

text \<open>The state after a won advance, and when an advance is won.\<close>

definition wins :: "int \<Rightarrow> timestamp \<Rightarrow> sched_db \<Rightarrow> bool" where
  "wins tid observed sd \<longleftrightarrow>
     (\<exists>t\<in>set (sd_tasks sd). t_id t = tid \<and> t_next_run_at t = Some observed \<and> t_enabled t)"

lemma advance_cas_eq:
  assumes d: "distinct (map t_id (sd_tasks sd))"
  shows "advance_cas slot now nid tid observed new_run spec sd =
    (if wins tid observed sd
     then fire_job slot now nid spec (sd\<lparr>sd_tasks := set_next_run tid new_run (sd_tasks sd)\<rparr>)
     else (sd, None))"
proof -
  let ?W = "\<lambda>t. t_id t = tid \<and> t_next_run_at t = Some observed \<and> t_enabled t"
  have "update_where ?W f (sd_tasks sd) = update_where (\<lambda>t. t_id t = tid) f (sd_tasks sd)" if "wins tid observed sd" for f
  proof -
    have "?W t \<longleftrightarrow> t_id t = tid" if t: "t \<in> set (sd_tasks sd)" for t
      using \<open>wins tid observed sd\<close> distinct_key_unique [OF d _ t] by (auto simp: wins_def)
    then show ?thesis by (auto simp: update_where_def)
  qed
  then show ?thesis using rowcount_key_exists [OF d, of tid "\<lambda>t. t_next_run_at t = Some observed \<and> t_enabled t"]
    by (auto simp: advance_cas_def Let_def wins_def set_next_run_def)
qed

lemma advance_locked_eq:
  assumes d: "distinct (map t_id (sd_tasks sd))"
  shows "advance_locked slot now nid tid observed new_run spec sd =
    (if wins tid observed sd
     then fire_job slot now nid spec (sd\<lparr>sd_tasks := set_next_run tid new_run (sd_tasks sd)\<rparr>)
     else (sd, None))"
proof (cases "task_by_id tid (sd_tasks sd)")
  case None
  then have "\<not> wins tid observed sd" by (auto simp: task_by_id_def find_none wins_def)
  then show ?thesis using None by (simp add: advance_locked_def)
next
  case (Some t)
  have t: "t \<in> set (sd_tasks sd)" "t_id t = tid" using task_by_id_Some [OF Some] by auto
  have "y = t" if "y \<in> set (sd_tasks sd)" "t_id y = tid" for y
    using distinct_key_unique [OF d that(1) t(1)] that(2) t(2) by simp
  then have "wins tid observed sd \<longleftrightarrow> t_next_run_at t = Some observed \<and> t_enabled t"
    using t unfolding wins_def by blast
  then show ?thesis
    using Some by (auto simp: advance_locked_def set_next_run_def split: option.splits)
qed

lemma advance_eq:
  assumes "distinct (map t_id (sd_tasks sd))"
  shows "advance_scheduled_task_if_due strategy slot now nid tid observed new_run spec sd =
    (if wins tid observed sd
     then fire_job slot now nid spec (sd\<lparr>sd_tasks := set_next_run tid new_run (sd_tasks sd)\<rparr>)
     else (sd, None))"
  by (simp add: advance_scheduled_task_if_due_def advance_cas_eq [OF assms] advance_locked_eq [OF assms])

text \<open>The two dialects of the atomic advance are the same function: the row-locked read, compare
  and write of PostgreSQL and the predicate update of SQLite fire in the same states and leave the
  same tables.\<close>

theorem advance_dialects_agree:
  assumes "distinct (map t_id (sd_tasks sd))"
  shows "advance_locked slot now nid tid observed new_run spec sd =
    advance_cas slot now nid tid observed new_run spec sd"
  by (simp only: advance_locked_eq [OF assms] advance_cas_eq [OF assms])

definition sample_task :: scheduled_task where
  "sample_task = \<lparr>t_id = 5, t_name = ''nightly'', t_task_path = ''app.run'', t_cron_expression = ''30 2 29 2 *'',
     t_queue_name = ''default'', t_priority = 0, t_enabled = True, t_next_run_at = Some 100\<rparr>"

definition sample_sched :: sched_db where
  "sample_sched = \<lparr>sd_tasks = [sample_task],
     sd_db = \<lparr>live = [], history = [], ready = [], blocked = [], attempts = [], workers = [], staged = [],
       next_attempt = 1\<rparr>\<rparr>"

theorem advance_dialects_agree_witness:
  "advance_locked 0 200 9 5 100 300 (task_job_kwargs sample_task) sample_sched =
   advance_cas 0 200 9 5 100 300 (task_job_kwargs sample_task) sample_sched"
  using advance_dialects_agree [of sample_sched 0 200 9 5 100 300 "task_job_kwargs sample_task"]
  by (simp add: sample_sched_def)




lemma live_add_job [simp]: "live (add_job slot j d) = live d @ [j]"
  by (simp add: add_job_def Let_def)






lemma due_tasks_mem:
  "(t, r) \<in> set (get_due_scheduled_tasks now sd) \<longleftrightarrow>
     t \<in> set (sd_tasks sd) \<and> t_enabled t \<and> t_next_run_at t = Some r \<and> r \<le> now"
  by (auto simp: get_due_scheduled_tasks_def split: option.splits if_splits)

text \<open>A cron task that fired is not due again at the same time: its next run lies in the future
  however long the scheduler was down, so a cycle cannot enqueue it over and over.\<close>

theorem fired_task_not_due:
  assumes d: "distinct (map t_id (sd_tasks sd))" and c: "is_cron env t"
    and s: "\<not> is_solar (t_cron_expression t)" "parse_crontab (t_cron_expression t) = Inr ct"
    and r: "representable (observed + minutes_us 1)" "representable (sc_now env + minutes_us 1)"
    and e: "enqueue_for_scheduled_task env (t, observed) sd = Inr (sd', Some job)"
  shows "\<forall>(t', due)\<in>set (get_due_scheduled_tasks (sc_now env) sd'). t_id t' \<noteq> t_id t"
proof -
  obtain new_run where n: "scheduler_next_run (sc_solar env) (t_cron_expression t) observed (sc_now env) = Inr new_run"
    using e c by (auto simp: enqueue_for_scheduled_task_def split: sum.splits)
  have f: "sc_now env < new_run" by (rule scheduler_next_run_future [OF s r n])
  have "sd_tasks sd' = set_next_run (t_id t) new_run (sd_tasks sd)"
    using e c n by (auto simp: enqueue_for_scheduled_task_def advance_eq [OF d] fire_job_def Let_def
        split: if_splits)
  then have "t_next_run_at t' = Some new_run" if "t' \<in> set (sd_tasks sd')" "t_id t' = t_id t" for t'
    using that set_next_run_mem [of t' "t_id t"] by simp
  then show ?thesis using f by (fastforce simp: due_tasks_mem)
qed

definition sample_sched_env :: sched_env where
  "sample_sched_env = \<lparr>sc_solar = no_solar, sc_strategy = Optimistic_version, sc_slot = 0,
     sc_now = ts_of (2022, 5, 1) 8 0, sc_new_id = (\<lambda>t. t + 100), sc_type = (\<lambda>_. Cron), sc_interval = (\<lambda>_. 0),
     sc_partitioned = False, sc_threshold_days = 7\<rparr>"

definition late_task :: scheduled_task where
  "late_task = sample_task\<lparr>t_next_run_at := Some (ts_of (2022, 5, 1) 7 0)\<rparr>"

definition late_sched :: sched_db where
  "late_sched = sample_sched\<lparr>sd_tasks := [late_task]\<rparr>"

lemma late_next_run:
  "scheduler_next_run (sc_solar sample_sched_env) ''30 2 29 2 *'' (ts_of (2022, 5, 1) 7 0) (sc_now sample_sched_env) =
     Inr (ts_of (2024, 2, 29) 2 30)"
proof -
  have "next_cron_occurrence no_solar ''30 2 29 2 *'' (ts_of (2022, 5, 1) 7 0) = Inr (ts_of (2024, 2, 29) 2 30)"
    "\<not> ts_of (2024, 2, 29) 2 30 \<le> ts_of (2022, 5, 1) 8 0" by code_simp+
  then show ?thesis by (simp add: scheduler_next_run_def sample_sched_env_def clamp_loop.simps [of _ "ts_of (2022, 5, 1) 8 0"])
qed

lemma late_fires:
  "case advance_scheduled_task_if_due (sc_strategy sample_sched_env) (sc_slot sample_sched_env) (sc_now sample_sched_env)
      (sc_new_id sample_sched_env (t_id late_task)) (t_id late_task) (ts_of (2022, 5, 1) 7 0) (ts_of (2024, 2, 29) 2 30)
      (task_job_kwargs late_task) late_sched of
     (sd', j) \<Rightarrow> j \<noteq> None \<and> map t_id (sd_tasks sd') = [5]"
  by code_simp

theorem fired_task_not_due_witness:
  "\<exists>sd' job. enqueue_for_scheduled_task sample_sched_env (late_task, ts_of (2022, 5, 1) 7 0) late_sched = Inr (sd', Some job) \<and>
     get_due_scheduled_tasks (ts_of (2022, 5, 1) 8 0) sd' = []"
proof -
  have c: "is_cron sample_sched_env late_task" "representable (ts_of (2022, 5, 1) 7 0 + minutes_us 1)" by code_simp+
  have "distinct (map t_id (sd_tasks late_sched))" by (simp add: late_sched_def)
  moreover have k: "t_cron_expression late_task = ''30 2 29 2 *''" "t_id late_task = 5"
    "sc_now sample_sched_env = ts_of (2022, 5, 1) 8 0" by (simp_all add: late_task_def sample_task_def sample_sched_env_def)
  moreover have "case enqueue_for_scheduled_task sample_sched_env (late_task, ts_of (2022, 5, 1) 7 0) late_sched of
      Inr (sd', Some job) \<Rightarrow> map t_id (sd_tasks sd') = [5] | _ \<Rightarrow> False"
    using late_fires c(1) late_next_run k(1) by (simp add: enqueue_for_scheduled_task_def Let_def split: prod.splits option.splits)
  then obtain sd' job where e: "enqueue_for_scheduled_task sample_sched_env (late_task, ts_of (2022, 5, 1) 7 0) late_sched =
      Inr (sd', Some job)" and ids: "map t_id (sd_tasks sd') = [5]"
    by (auto split: sum.splits prod.splits option.splits)
  ultimately have "\<forall>(t', due)\<in>set (get_due_scheduled_tasks (sc_now sample_sched_env) sd'). t_id t' \<noteq> 5"
    using fired_task_not_due [OF _ c(1) _ _ c(2) _ e] leap_day_eval by simp
  moreover have "t_id t' = 5" if "(t', due) \<in> set (get_due_scheduled_tasks (sc_now sample_sched_env) sd')" for t' due
  proof -
    have "t_id t' \<in> set (map t_id (sd_tasks sd'))" using that by (simp add: due_tasks_mem)
    then show ?thesis using ids by simp
  qed
  ultimately have "get_due_scheduled_tasks (sc_now sample_sched_env) sd' = []"
    by (cases "get_due_scheduled_tasks (sc_now sample_sched_env) sd'") auto
  then show ?thesis using e k by auto
qed

end
