(* ===== verification/Sq_Rotation.thy ===== *)
theory Sq_Rotation
  imports Sq_Cover
begin

text \<open>
  Rotation of the PostgreSQL ready queue (\<^verbatim>\<open>core/rotation.py\<close>): the writer's choice of a slot, the pure
  decision \<^verbatim>\<open>decide_rotation_step\<close>, the executors \<^verbatim>\<open>switch\<close>, \<^verbatim>\<open>drain\<close> and \<^verbatim>\<open>reclaim\<close>, the bounded tick
  and the health verdict.

  The record \<open>ring\<close> is what the rotator derives its state from: the ready entries with their slot,
  the generation sequence, whether a partition has storage (\<^verbatim>\<open>pg_relation_size\<close>), the two timestamp
  sequences, and the fenced writers that are open, each with the slot it has read; such a writer
  holds the advisory lock shared until its transaction ends. Row locks of claimers and the table
  locks of other transactions are arguments of the executors.
\<close>

section \<open>Decisions\<close>

definition SLOT_COUNT :: nat where "SLOT_COUNT = 3"

definition slot_for_generation :: "nat \<Rightarrow> nat" where
  "slot_for_generation g = g mod SLOT_COUNT"

record writer_plan =
  wp_fenced :: bool
  wp_slot :: "nat option"

definition plan_writer :: "bool \<Rightarrow> string \<Rightarrow> bool \<Rightarrow> writer_plan" where
  "plan_writer enabled dialect sequence_present =
     (if enabled \<and> dialect = ''postgresql'' \<and> sequence_present
      then \<lparr>wp_fenced = True, wp_slot = None\<rparr> else \<lparr>wp_fenced = False, wp_slot = Some 0\<rparr>)"

text \<open>\<^verbatim>\<open>writer_slot\<close>: \<open>present\<close> is the verdict of the sequence probe, \<open>g\<close> the generation it reads.\<close>

definition writer_slot :: "bool \<Rightarrow> nat \<Rightarrow> bool \<Rightarrow> string \<Rightarrow> nat" where
  "writer_slot present g enabled dialect =
     (let plan = plan_writer enabled dialect True
      in if \<not> wp_fenced plan then the (wp_slot plan)
         else if \<not> present then 0
         else slot_for_generation g)"

record rotation_state =
  rs_generation :: nat
  rs_nonempty :: "nat \<Rightarrow> bool"
  rs_dirty :: "nat \<Rightarrow> bool"
  rs_now :: rat
  rs_last_switch :: "rat option"
  rs_interval :: rat
  rs_switch_lock :: "bool option"
  rs_reclaim_lock :: "bool option"

definition current :: "rotation_state \<Rightarrow> nat" where
  "current st = slot_for_generation (rs_generation st)"

definition others_of :: "nat \<Rightarrow> nat list" where
  "others_of cur = [(cur + 2) mod SLOT_COUNT, (cur + 1) mod SLOT_COUNT]"

definition interval_elapsed :: "rotation_state \<Rightarrow> bool" where
  "interval_elapsed st \<longleftrightarrow>
     (case rs_last_switch st of None \<Rightarrow> True | Some l \<Rightarrow> rs_now st - l \<ge> rs_interval st)"

datatype action = Idle | Drain nat | Reclaim nat | Switch | Retry string

definition decide_rotation_step :: "rotation_state \<Rightarrow> action" where
  "decide_rotation_step st =
     (case List.find (rs_nonempty st) (others_of (current st)) of
        Some slot \<Rightarrow> Drain slot
      | None \<Rightarrow>
          (case List.find (rs_dirty st) (others_of (current st)) of
             Some slot \<Rightarrow>
               if rs_reclaim_lock st = Some False
               then Retry ''partition is locked by another transaction'' else Reclaim slot
           | None \<Rightarrow>
               if \<not> interval_elapsed st then Idle
               else if rs_switch_lock st = Some False
               then Retry ''a writer of the current generation is still open''
               else Switch))"

definition rotation_lag :: "rat \<Rightarrow> rat option \<Rightarrow> rat option \<Rightarrow> rat option" where
  "rotation_lag now last_reclaim last_switch =
     (case last_reclaim of
        Some r \<Rightarrow> Some (max 0 (now - r))
      | None \<Rightarrow> (case last_switch of Some s \<Rightarrow> Some (max 0 (now - s)) | None \<Rightarrow> None))"

datatype health = OK | DEGRADED | UNKNOWN

definition assess_rotation :: "bool \<Rightarrow> rat option \<Rightarrow> rat \<Rightarrow> health" where
  "assess_rotation enabled lag threshold =
     (if \<not> enabled then OK
      else case lag of
             None \<Rightarrow> UNKNOWN
           | Some l \<Rightarrow> if threshold > 0 \<and> l > threshold then DEGRADED else OK)"

section \<open>The executors\<close>

record ring =
  ri_ready :: "ready_entry list"
  ri_generation :: nat
  ri_storage :: "nat \<Rightarrow> bool"
  ri_switch_ts :: int
  ri_reclaim_ts :: int
  ri_writers :: "nat list"

text \<open>A timestamp kept in a sequence; the start value 1 means "never".\<close>

definition seq_ts :: "int \<Rightarrow> rat option" where
  "seq_ts v = (if v > 1 then Some (rat_of_int v) else None)"

definition current_slot :: "ring \<Rightarrow> nat" where
  "current_slot r = slot_for_generation (ri_generation r)"

definition in_slot :: "ring \<Rightarrow> nat \<Rightarrow> ready_entry list" where
  "in_slot r s = filter (\<lambda>e. r_slot e = s) (ri_ready r)"

definition read_state :: "rat \<Rightarrow> int \<Rightarrow> ring \<Rightarrow> rotation_state" where
  "read_state interval now r =
     \<lparr>rs_generation = ri_generation r, rs_nonempty = (\<lambda>s. in_slot r s \<noteq> []),
      rs_dirty = (\<lambda>s. in_slot r s \<noteq> [] \<or> ri_storage r s), rs_now = rat_of_int now,
      rs_last_switch = seq_ts (ri_switch_ts r), rs_interval = interval,
      rs_switch_lock = None, rs_reclaim_lock = None\<rparr>"

datatype switch_outcome = Switched | Busy | Skipped

text \<open>The exclusive key is free exactly when no fenced writer is open.\<close>

definition switch_step :: "rat \<Rightarrow> int \<Rightarrow> ring \<Rightarrow> ring \<times> switch_outcome" where
  "switch_step interval now r =
     (if ri_writers r \<noteq> [] then (r, Busy)
      else if decide_rotation_step ((read_state interval now r)\<lparr>rs_switch_lock := Some True\<rparr>) \<noteq> Switch
      then (r, Skipped)
      else (r\<lparr>ri_generation := ri_generation r + 1, ri_switch_ts := now\<rparr>, Switched))"

text \<open>\<^verbatim>\<open>_move_sql\<close>: delete the rows and insert them into the current slot, \<^verbatim>\<open>ON CONFLICT DO NOTHING\<close>.\<close>

definition move_rows :: "nat \<Rightarrow> ready_entry list \<Rightarrow> ring \<Rightarrow> ring" where
  "move_rows cur rows r =
     r\<lparr>ri_ready := insert_ready (map (\<lambda>e. e\<lparr>r_slot := cur\<rparr>) rows) (filter (\<lambda>e. e \<notin> set rows) (ri_ready r)),
       ri_storage := (if rows = [] then ri_storage r else (ri_storage r)(cur := True))\<rparr>"

definition drain :: "(ready_entry \<Rightarrow> bool) \<Rightarrow> nat \<Rightarrow> nat \<Rightarrow> ring \<Rightarrow> ring \<times> nat" where
  "drain held slot batch r =
     (let cur = current_slot r
      in if slot = cur then (r, 0)
         else (let rows = take batch (filter (\<lambda>e. \<not> held e) (in_slot r slot))
               in (move_rows cur rows r, length rows)))"

definition reclaim :: "(nat \<Rightarrow> bool) \<Rightarrow> int \<Rightarrow> nat \<Rightarrow> nat \<Rightarrow> ring \<Rightarrow> ring \<times> bool" where
  "reclaim locked now slot batch r =
     (let cur = current_slot r
      in if slot = cur then (r, False)
         else if locked slot then (r, False)
         else (let rows = in_slot r slot;
                   r1 = move_rows cur rows r
               in if length rows > max batch 1 * 10 then (r1, False)
                  else (r1\<lparr>ri_ready := filter (\<lambda>e. r_slot e \<noteq> slot) (ri_ready r1),
                           ri_storage := (ri_storage r1)(slot := False),
                           ri_reclaim_ts := now\<rparr>, True)))"

record report =
  rp_switched :: nat
  rp_drained :: nat
  rp_reclaimed :: nat
  rp_retry :: string

record tick_env =
  te_held :: "ready_entry \<Rightarrow> bool"
  te_locked :: "nat \<Rightarrow> bool"
  te_now :: int
  te_interval :: rat
  te_batch :: nat

definition MAX_STEPS_PER_TICK :: nat where "MAX_STEPS_PER_TICK = 50"

fun rotation_steps :: "tick_env \<Rightarrow> nat \<Rightarrow> ring \<Rightarrow> report \<Rightarrow> ring \<times> report" where
  "rotation_steps env 0 r rp = (r, rp)"
| "rotation_steps env (Suc n) r rp =
     (let st = read_state (te_interval env) (te_now env) r
      in case decide_rotation_step st of
           Idle \<Rightarrow> (r, rp)
         | Drain slot \<Rightarrow>
             (let (r1, moved) = drain (te_held env) slot (te_batch env) r;
                  rp1 = rp\<lparr>rp_drained := rp_drained rp + moved\<rparr>
              in if moved = 0
                 then (r1, rp1\<lparr>rp_retry := ''drain: remaining entries are held by claimers''\<rparr>)
                 else rotation_steps env n r1 rp1)
         | Reclaim slot \<Rightarrow>
             (let (r1, ok) = reclaim (te_locked env) (te_now env) slot (te_batch env) r
              in if ok then rotation_steps env n r1 (rp\<lparr>rp_reclaimed := rp_reclaimed rp + 1\<rparr>)
                 else (r1, rp\<lparr>rp_retry :=
                         (case decide_rotation_step (st\<lparr>rs_reclaim_lock := Some False\<rparr>) of
                            Retry reason \<Rightarrow> reason | _ \<Rightarrow> ''reclaim'')\<rparr>))
         | Switch \<Rightarrow>
             if rp_switched rp > 0 then (r, rp)
             else (case switch_step (te_interval env) (te_now env) r of
                     (r1, Switched) \<Rightarrow> rotation_steps env n r1 (rp\<lparr>rp_switched := rp_switched rp + 1\<rparr>)
                   | (r1, Busy) \<Rightarrow>
                       (r1, rp\<lparr>rp_retry :=
                          (case decide_rotation_step (st\<lparr>rs_switch_lock := Some False\<rparr>) of
                             Retry reason \<Rightarrow> reason | _ \<Rightarrow> [])\<rparr>)
                   | (r1, Skipped) \<Rightarrow> (r1, rp\<lparr>rp_retry := ''state changed''\<rparr>))
         | Retry reason \<Rightarrow> (r, rp\<lparr>rp_retry := reason\<rparr>))"

definition run_rotation_tick :: "tick_env \<Rightarrow> ring \<Rightarrow> ring \<times> report" where
  "run_rotation_tick env r =
     rotation_steps env MAX_STEPS_PER_TICK r
       \<lparr>rp_switched = 0, rp_drained = 0, rp_reclaimed = 0, rp_retry = []\<rparr>"

section \<open>No entry is lost\<close>

definition entry_jobs :: "ready_entry list \<Rightarrow> job_id set" where
  "entry_jobs t = r_job_id ` set t"

lemma entry_jobs_insert [simp]: "entry_jobs (insert_ready es t) = entry_jobs es \<union> entry_jobs t"
proof (induction es arbitrary: t)
  case (Cons e es)
  have "r_job_id e \<in> entry_jobs t" if "ready_key e \<in> ready_key ` set t"
    using that by (auto simp: entry_jobs_def ready_key_def)
  then show ?case using Cons by (auto simp: entry_jobs_def)
qed (simp add: entry_jobs_def)

lemma entry_jobs_move:
  assumes "set rows \<subseteq> set (ri_ready r)"
  shows "entry_jobs (ri_ready (move_rows cur rows r)) = entry_jobs (ri_ready r)"
proof -
  have "entry_jobs (map (\<lambda>e. e\<lparr>r_slot := cur\<rparr>) rows) = r_job_id ` set rows"
    by (force simp: entry_jobs_def image_image)
  then have "entry_jobs (ri_ready (move_rows cur rows r)) =
      r_job_id ` set rows \<union> entry_jobs (filter (\<lambda>e. e \<notin> set rows) (ri_ready r))"
    by (simp add: move_rows_def)
  then show ?thesis using assms by (auto simp: entry_jobs_def)
qed

lemma move_all_empties:
  assumes "cur \<noteq> slot" "e \<in> set (ri_ready (move_rows cur (in_slot r slot) r))"
  shows "r_slot e \<noteq> slot"
  using assms insert_ready_set [of e] by (fastforce simp: move_rows_def in_slot_def)

lemma in_slot_subset: "set (in_slot r s) \<subseteq> set (ri_ready r)"
  by (auto simp: in_slot_def)

lemma drain_jobs: "entry_jobs (ri_ready (fst (drain held slot batch r))) = entry_jobs (ri_ready r)"
proof -
  have "set (take batch (filter (\<lambda>e. \<not> held e) (in_slot r slot))) \<subseteq> set (ri_ready r)"
    by (auto simp: in_slot_def dest!: in_set_takeD)
  then show ?thesis by (simp add: drain_def Let_def entry_jobs_move)
qed

lemma reclaim_jobs: "entry_jobs (ri_ready (fst (reclaim locked now slot batch r))) = entry_jobs (ri_ready r)"
proof (cases "slot = current_slot r \<or> locked slot")
  case False
  let ?r1 = "move_rows (current_slot r) (in_slot r slot) r"
  have "filter (\<lambda>e. r_slot e \<noteq> slot) (ri_ready ?r1) = ri_ready ?r1"
    using move_all_empties [of "current_slot r" slot] False by (auto intro!: filter_True)
  then show ?thesis
    using False entry_jobs_move [OF in_slot_subset] by (auto simp: reclaim_def Let_def)
qed (auto simp: reclaim_def Let_def)

lemma switch_jobs: "ri_ready (fst (switch_step interval now r)) = ri_ready r"
  by (auto simp: switch_step_def)

lemma rotation_steps_jobs:
  "entry_jobs (ri_ready (fst (rotation_steps env n r rp))) = entry_jobs (ri_ready r)"
proof (induction env n r rp rule: rotation_steps.induct)
  case (2 env n r rp)
  let ?st = "read_state (te_interval env) (te_now env) r"
  show ?case
  proof (cases "decide_rotation_step ?st")
    case (Drain slot)
    obtain r1 moved where d: "drain (te_held env) slot (te_batch env) r = (r1, moved)" by fastforce
    have "entry_jobs (ri_ready r1) = entry_jobs (ri_ready r)"
      using drain_jobs [of "te_held env" slot "te_batch env" r] d by simp
    then show ?thesis using "2.IH"(1) [OF refl Drain d [symmetric] refl refl] Drain d
      by (simp add: Let_def)
  next
    case (Reclaim slot)
    obtain r1 ok where d: "reclaim (te_locked env) (te_now env) slot (te_batch env) r = (r1, ok)" by fastforce
    have "entry_jobs (ri_ready r1) = entry_jobs (ri_ready r)"
      using reclaim_jobs [of "te_locked env" "te_now env" slot "te_batch env" r] d by simp
    then show ?thesis using "2.IH"(2) [OF refl Reclaim d [symmetric] refl] Reclaim d
      by (simp add: Let_def)
  next
    case Switch
    obtain r1 oc where d: "switch_step (te_interval env) (te_now env) r = (r1, oc)" by fastforce
    have "ri_ready r1 = ri_ready r" using switch_jobs [of "te_interval env" "te_now env" r] d by simp
    moreover have "entry_jobs (ri_ready (fst (rotation_steps env n r1 (rp\<lparr>rp_switched := rp_switched rp + 1\<rparr>)))) =
        entry_jobs (ri_ready r1)" if "\<not> 0 < rp_switched rp" "oc = Switched"
      using "2.IH"(3) [OF refl Switch that(1) d [symmetric] that(2)] .
    ultimately show ?thesis using Switch d by (cases oc) (simp_all add: Let_def)
  qed (simp_all add: Let_def)
qed simp

text \<open>C35: rotation is invisible to the queue: whatever a rotation tick does (drain, truncate, switch,
  and however it is cut short), the set of jobs that have a ready entry is unchanged.\<close>

theorem rotation_tick_refines_queue:
  "entry_jobs (ri_ready (fst (run_rotation_tick env r))) = entry_jobs (ri_ready r)"
  unfolding run_rotation_tick_def by (rule rotation_steps_jobs)

section \<open>The ring\<close>

text \<open>
  The transactions on the ring: a fenced writer reads the generation under the shared key, inserts
  into that slot and ends; a writer without rotation inserts into slot 0; a claim deletes an entry;
  the rotator steps. The exclusive key of \<open>switch_step\<close> is the only one that excludes writers.
\<close>

inductive ring_step :: "ring \<Rightarrow> ring \<Rightarrow> bool" where
  rg_open: "ring_step r (r\<lparr>ri_writers := writer_slot True (ri_generation r) True ''postgresql'' # ri_writers r\<rparr>)"
| rg_insert: "s \<in> set (ri_writers r) \<Longrightarrow> r_slot e = s \<Longrightarrow>
    ring_step r (r\<lparr>ri_ready := insert_ready [e] (ri_ready r), ri_storage := (ri_storage r)(s := True)\<rparr>)"
| rg_close: "s \<in> set (ri_writers r) \<Longrightarrow> ring_step r (r\<lparr>ri_writers := remove1 s (ri_writers r)\<rparr>)"
| rg_unfenced: "r_slot e = writer_slot present g False dialect \<Longrightarrow>
    ring_step r (r\<lparr>ri_ready := insert_ready [e] (ri_ready r), ri_storage := (ri_storage r)(r_slot e := True)\<rparr>)"
| rg_claim: "ring_step r (r\<lparr>ri_ready := filter (\<lambda>e. e \<noteq> x) (ri_ready r)\<rparr>)"
| rg_drain: "ring_step r (fst (drain held slot batch r))"
| rg_reclaim: "ring_step r (fst (reclaim locked now slot batch r))"
| rg_switch: "ring_step r (fst (switch_step interval now r))"

definition ring_inv :: "ring \<Rightarrow> bool" where
  "ring_inv r \<longleftrightarrow> (\<forall>s\<in>set (ri_writers r). s = current_slot r) \<and>
     (\<forall>e\<in>set (ri_ready r). ri_storage r (r_slot e))"

lemma ring_inv_insert:
  "ring_inv r \<Longrightarrow> ring_inv (r\<lparr>ri_ready := insert_ready [e] (ri_ready r), ri_storage := (ri_storage r)(r_slot e := True)\<rparr>)"
  by (auto simp: ring_inv_def current_slot_def)

lemma ring_inv_move:
  assumes "ring_inv r" "set rows \<subseteq> set (ri_ready r)"
  shows "ring_inv (move_rows cur rows r)"
proof -
  have "ri_storage (move_rows cur rows r) (r_slot e)" if e: "e \<in> set (ri_ready (move_rows cur rows r))" for e
  proof -
    have "e \<in> set (map (\<lambda>e. e\<lparr>r_slot := cur\<rparr>) rows) \<union> set (filter (\<lambda>e. e \<notin> set rows) (ri_ready r))"
      using e insert_ready_set by (fastforce simp: move_rows_def)
    then show ?thesis using assms(1) by (auto simp: move_rows_def ring_inv_def)
  qed
  then show ?thesis using assms(1) by (simp add: ring_inv_def current_slot_def) (simp add: move_rows_def)
qed

lemma ring_step_inv: "ring_step r r' \<Longrightarrow> ring_inv r \<Longrightarrow> ring_inv r'"
proof (induction rule: ring_step.induct)
  case (rg_open r)
  then show ?case by (simp add: ring_inv_def current_slot_def writer_slot_def plan_writer_def Let_def)
next
  case (rg_insert s r e)
  then show ?case using ring_inv_insert [of r e] by simp
next
  case (rg_close s r)
  have "\<forall>x\<in>set (remove1 s (ri_writers r)). x = current_slot r"
    using rg_close.prems set_remove1_subset [of s "ri_writers r"] unfolding ring_inv_def by blast
  then show ?case using rg_close.prems by (simp add: ring_inv_def current_slot_def)
next
  case (rg_unfenced e present g dialect r)
  then show ?case using ring_inv_insert by blast
next
  case (rg_claim r x)
  then show ?case by (auto simp: ring_inv_def current_slot_def)
next
  case (rg_drain r held slot batch)
  have "set (take batch (filter (\<lambda>e. \<not> held e) (in_slot r slot))) \<subseteq> set (ri_ready r)"
    by (auto simp: in_slot_def dest!: in_set_takeD)
  then show ?case using rg_drain ring_inv_move by (simp add: drain_def Let_def)
next
  case (rg_reclaim r locked now slot batch)
  let ?r1 = "move_rows (current_slot r) (in_slot r slot) r"
  have "ring_inv ?r1" by (rule ring_inv_move [OF rg_reclaim in_slot_subset])
  then show ?case using rg_reclaim
    by (auto simp: reclaim_def Let_def ring_inv_def current_slot_def)
next
  case (rg_switch r interval now)
  then show ?case by (auto simp: switch_step_def ring_inv_def current_slot_def)
qed

definition empty_ring :: ring where
  "empty_ring = \<lparr>ri_ready = [], ri_generation = 3, ri_storage = (\<lambda>_. False), ri_switch_ts = 1, ri_reclaim_ts = 1,
     ri_writers = []\<rparr>"

lemma ring_reachable_inv: "ring_step\<^sup>*\<^sup>* empty_ring r \<Longrightarrow> ring_inv r"
proof (induction rule: rtranclp_induct)
  case base
  show ?case by (simp add: ring_inv_def empty_ring_def)
qed (rule ring_step_inv)

definition clean :: "ring \<Rightarrow> nat \<Rightarrow> bool" where
  "clean r s \<longleftrightarrow> in_slot r s = [] \<and> \<not> ri_storage r s"

lemma slot_mod: "slot_for_generation (g + 1) = (slot_for_generation g + 1) mod SLOT_COUNT"
  by (simp add: slot_for_generation_def SLOT_COUNT_def mod_Suc_eq)

text \<open>The rotator decides to switch only when both other slots are clean.\<close>

lemma decide_switch:
  assumes "decide_rotation_step (read_state i now r\<lparr>rs_switch_lock := l\<rparr>) = Switch"
  shows "\<forall>s\<in>set (others_of (current_slot r)). clean r s"
  using assms by (auto simp: decide_rotation_step_def read_state_def current_def current_slot_def clean_def
      find_none split: option.splits if_splits)

text \<open>C39: in every reachable state the open fenced writers insert into the current slot, and a slot without
  storage holds no entry; and the ring never moves into a slot that still holds data: when the generation
  advances, by one, no fenced writer is open, and the slot that writers use from then on is empty and its
  storage has been reclaimed.\<close>

theorem switch_into_clean_slot:
  assumes "ring_step\<^sup>*\<^sup>* empty_ring r"
  shows "(\<forall>s\<in>set (ri_writers r). s = ri_generation r mod 3) \<and>
    (\<forall>s. \<not> ri_storage r s \<longrightarrow> in_slot r s = []) \<and>
    (\<forall>interval now r'. switch_step interval now r = (r', Switched) \<longrightarrow>
       ri_generation r' = ri_generation r + 1 \<and> in_slot r' (current_slot r') = [] \<and>
       \<not> ri_storage r' (current_slot r') \<and> ri_writers r = [])"
proof -
  have inv: "ring_inv r" by (rule ring_reachable_inv [OF assms])
  have "ri_generation r' = ri_generation r + 1 \<and> in_slot r' (current_slot r') = [] \<and>
      \<not> ri_storage r' (current_slot r') \<and> ri_writers r = []"
    if "switch_step interval now r = (r', Switched)" for interval now r'
  proof -
    have sw: "ri_writers r = []"
      "decide_rotation_step (read_state interval now r\<lparr>rs_switch_lock := Some True\<rparr>) = Switch"
      "r' = r\<lparr>ri_generation := ri_generation r + 1, ri_switch_ts := now\<rparr>"
      using that by (auto simp: switch_step_def split: if_splits)
    have "current_slot r' = (current_slot r + 1) mod SLOT_COUNT"
      using slot_mod [of "ri_generation r"] by (simp add: sw(3) current_slot_def)
    then have "clean r (current_slot r')" using decide_switch [OF sw(2)] by (simp add: others_of_def)
    then show ?thesis using sw by (simp add: clean_def in_slot_def)
  qed
  moreover have "\<forall>s\<in>set (ri_writers r). s = ri_generation r mod 3" "\<forall>s. \<not> ri_storage r s \<longrightarrow> in_slot r s = []"
    using inv by (auto simp: ring_inv_def current_slot_def slot_for_generation_def SLOT_COUNT_def in_slot_def filter_empty_conv)
  ultimately show ?thesis by blast
qed

theorem switch_into_clean_slot_witness:
  "in_slot (fst (switch_step 60 1000 empty_ring)) 1 = [] \<and>
   (let r = empty_ring\<lparr>ri_writers := [writer_slot True 3 True ''postgresql'']\<rparr> in list_all (\<lambda>s. s = 0) (ri_writers r))"
proof -
  have "snd (switch_step 60 1000 empty_ring) = Switched" by code_simp
  then obtain r' where s: "switch_step 60 1000 empty_ring = (r', Switched)" by (metis prod.collapse)
  have c: "current_slot (fst (switch_step 60 1000 empty_ring)) = 1" by code_simp
  let ?r = "empty_ring\<lparr>ri_writers := [writer_slot True 3 True ''postgresql'']\<rparr>"
  have "ring_step empty_ring ?r" using rg_open [of empty_ring] by (simp add: empty_ring_def)
  then have "\<forall>s\<in>set (ri_writers ?r). s = ri_generation ?r mod 3"
    using switch_into_clean_slot [of ?r] by blast
  moreover have "in_slot r' (current_slot r') = []"
    using switch_into_clean_slot [OF rtranclp.rtrancl_refl] s by blast
  ultimately show ?thesis using s c by (simp add: Let_def empty_ring_def)
qed

section \<open>A tick cleans the ring\<close>

text \<open>
  Without locks held by others, every step of a tick makes progress. The measure counts the batches that are
  left to drain and the unreclaimed slots outside the current slot, and what a switch may add: the
  batches and the storage of the slot it leaves.
\<close>

definition batches :: "nat \<Rightarrow> ready_entry list \<Rightarrow> nat" where
  "batches b t = (length t + b - 1) div b"

definition drains_outside :: "nat \<Rightarrow> ring \<Rightarrow> nat" where
  "drains_outside b r = sum_list (map (\<lambda>s. batches b (in_slot r s)) (others_of (current_slot r)))"

definition storage_outside :: "ring \<Rightarrow> nat" where
  "storage_outside r = length (filter (ri_storage r) (others_of (current_slot r)))"

definition tick_measure :: "nat \<Rightarrow> nat \<Rightarrow> ring \<Rightarrow> report \<Rightarrow> nat" where
  "tick_measure b n r rp =
     drains_outside b r + storage_outside r + (if rp_switched rp > 0 then 0 else n div b + 4)"

definition clean_ring :: "ring \<Rightarrow> bool" where
  "clean_ring r \<longleftrightarrow> (\<forall>s\<in>set (others_of (current_slot r)). clean r s)"

lemma others_of_current: "s < 3 \<Longrightarrow> set (others_of s) = {0, 1, 2} - {s}"
proof -
  assume "s < 3"
  then have "s = 0 \<or> s = 1 \<or> s = 2" by linarith
  moreover have "others_of 0 = [2, 1]" "others_of 1 = [0, 2]" "others_of 2 = [1, 0]" by code_simp+
  ultimately show ?thesis by auto
qed

lemma current_slot_less: "current_slot r < 3"
  by (simp add: current_slot_def slot_for_generation_def SLOT_COUNT_def)

lemma decide_cases [consumes 1, case_names idle drain reclaim switch]:
  assumes "decide_rotation_step (read_state i now r) = a"
  obtains "a = Idle" "clean_ring r"
    | slot where "a = Drain slot" "slot \<in> set (others_of (current_slot r))" "in_slot r slot \<noteq> []"
    | slot where "a = Reclaim slot" "slot \<in> set (others_of (current_slot r))" "ri_storage r slot"
        "\<forall>s\<in>set (others_of (current_slot r)). in_slot r s = []"
    | "a = Switch" "clean_ring r"
  using assms
  by (auto simp: decide_rotation_step_def read_state_def current_def current_slot_def clean_ring_def clean_def
      find_none split: option.splits if_splits dest!: find_mem)

lemma move_rows_current [simp]: "current_slot (move_rows cur rows r) = current_slot r"
  by (simp add: move_rows_def current_slot_def)

lemma length_insert_ready: "length (insert_ready es t) \<le> length es + length t"
proof (induction es arbitrary: t)
  case (Cons e es)
  show ?case
    using Cons [of t] Cons [of "t @ [e]"] by simp
qed simp

lemma filter_remove_length:
  assumes "distinct t" "set rows \<subseteq> set t" "distinct rows"
  shows "length (filter (\<lambda>e. e \<notin> set rows) t) + length rows = length t"
proof -
  have "set (filter (\<lambda>e. e \<in> set rows) t) = set rows" using assms(2) by auto
  then have "length (filter (\<lambda>e. e \<in> set rows) t) = length rows"
    using assms(1,3) distinct_card [of rows] distinct_card [of "filter (\<lambda>e. e \<in> set rows) t"] by simp
  then show ?thesis using sum_length_filter_compl [of "\<lambda>e. e \<in> set rows" t] by simp
qed

lemma move_rows_length:
  assumes "distinct (ri_ready r)" "set rows \<subseteq> set (ri_ready r)" "distinct rows"
  shows "length (ri_ready (move_rows cur rows r)) \<le> length (ri_ready r)"
  using filter_remove_length [OF assms]
    length_insert_ready [of "map (\<lambda>e. e\<lparr>r_slot := cur\<rparr>) rows" "filter (\<lambda>e. e \<notin> set rows) (ri_ready r)"]
  by (simp add: move_rows_def)

text \<open>Moving all rows of a slot empties it and leaves the third slot alone.\<close>

lemma insert_ready_other_slot:
  "\<forall>e\<in>set es. r_slot e \<noteq> s \<Longrightarrow> filter (\<lambda>e. r_slot e = s) (insert_ready es t) = filter (\<lambda>e. r_slot e = s) t"
  by (induction es arbitrary: t) auto

lemma filter_not_take:
  assumes "distinct t"
  shows "filter (\<lambda>e. e \<notin> set (take b t)) t = drop b t"
proof -
  let ?A = "take b t" and ?B = "drop b t"
  have t: "?A @ ?B = t" by simp
  have "set ?A \<inter> set ?B = {}" using assms by (simp add: set_take_disj_set_drop_if_distinct)
  then have "filter (\<lambda>e. e \<notin> set ?A) ?B = ?B" by (auto simp: filter_id_conv)
  then have "filter (\<lambda>e. e \<notin> set ?A) (?A @ ?B) = ?B" by (simp del: append_take_drop_id add: filter_empty_conv)
  then show ?thesis by (simp only: t)
qed

lemma two_slots_length:
  "s \<noteq> s' \<Longrightarrow> length (filter (\<lambda>e. r_slot e = s) t) + length (filter (\<lambda>e. r_slot e = s') t) \<le> length t"
  by (induction t) auto

lemma in_slot_move:
  assumes "s \<noteq> cur" "distinct (ri_ready r)"
  shows "in_slot (move_rows cur (take b (in_slot r slot)) r) s =
    (if s = slot then drop b (in_slot r s) else in_slot r s)"
proof -
  let ?rows = "take b (in_slot r slot)"
  have "in_slot (move_rows cur ?rows r) s = filter (\<lambda>e. e \<notin> set ?rows) (in_slot r s)"
    unfolding in_slot_def [of "move_rows _ _ _"] using assms(1)
    by (auto simp: move_rows_def insert_ready_other_slot in_slot_def conj_commute)
  moreover have "filter (\<lambda>e. e \<notin> set ?rows) (in_slot r s) = in_slot r s" if "s \<noteq> slot"
  proof (rule filter_True, rule ballI)
    fix e assume "e \<in> set (in_slot r s)"
    then show "e \<notin> set ?rows" using that by (auto simp: in_slot_def dest: in_set_takeD)
  qed
  ultimately show ?thesis using filter_not_take [of "in_slot r slot" b] assms(2) by (simp add: in_slot_def)
qed

lemma batches_drop: "t \<noteq> [] \<Longrightarrow> 0 < b \<Longrightarrow> batches b (drop b t) < batches b t"
proof -
  assume t: "t \<noteq> []" and b: "0 < b"
  show ?thesis
  proof (cases "b \<le> length t")
    case True
    then have "length t + b - 1 = (length (drop b t) + b - 1) + b" using b by simp
    then have "batches b t = batches b (drop b t) + 1" unfolding batches_def using b by (metis div_add_self2 less_numeral_extra(3))
    then show ?thesis by simp
  next
    case False
    then have "batches b (drop b t) = 0" using b by (simp add: batches_def div_eq_0_iff)
    moreover have "b \<le> length t + b - 1" using t by (cases t) auto
    then have "0 < batches b t" using b by (simp add: batches_def div_greater_zero_iff)
    ultimately show ?thesis by simp
  qed
qed

lemma move_rows_keys:
  "distinct (map ready_key (ri_ready r)) \<Longrightarrow> distinct (map ready_key (ri_ready (move_rows cur rows r)))"
  by (simp add: move_rows_def insert_ready_distinct distinct_map_filter)

lemma filter_weaker_less:
  assumes "slot \<in> set xs" "f slot" "\<not> g slot" "\<And>x. x \<in> set xs \<Longrightarrow> g x \<Longrightarrow> f x"
  shows "length (filter g xs) < length (filter f xs)"
  using rowcount_less [of xs g f slot] assms by (simp add: rowcount_def)

lemma storage_outside_move: "storage_outside (move_rows (current_slot r) rows r) = storage_outside r"
proof -
  have "s \<noteq> current_slot r" if "s \<in> set (others_of (current_slot r))" for s
    using others_of_current [OF current_slot_less [of r]] that by auto
  then show ?thesis
    unfolding storage_outside_def move_rows_current
    by (auto simp: move_rows_def intro!: arg_cong [of _ _ length] filter_cong)
qed

lemma drain_progress:
  assumes d: "distinct (map ready_key (ri_ready r))" and s: "slot \<in> set (others_of (current_slot r))"
    "in_slot r slot \<noteq> []" and b: "0 < batch" "\<And>e. \<not> held e"
  shows "\<exists>r1 moved. drain held slot batch r = (r1, moved) \<and> 0 < moved \<and>
    drains_outside batch r1 < drains_outside batch r \<and>
    storage_outside r1 = storage_outside r \<and> length (ri_ready r1) \<le> length (ri_ready r) \<and>
    distinct (map ready_key (ri_ready r1)) \<and> ri_writers r1 = ri_writers r"
proof -
  let ?rows = "take batch (in_slot r slot)" and ?cur = "current_slot r"
  have ns: "x \<noteq> ?cur" if "x \<in> set (others_of ?cur)" for x
    using that others_of_current [OF current_slot_less [of r]] by auto
  have dr: "distinct (ri_ready r)" using d by (simp add: distinct_map)
  have e: "drain held slot batch r = (move_rows ?cur ?rows r, length ?rows)"
    using ns [OF s(1)] b(2) by (simp add: drain_def Let_def)
  have one: "batches batch (in_slot (move_rows ?cur ?rows r) x) \<le> batches batch (in_slot r x) \<and>
      (x = slot \<longrightarrow> batches batch (in_slot (move_rows ?cur ?rows r) x) < batches batch (in_slot r x))"
    if "x \<in> set (others_of ?cur)" for x
    using in_slot_move [OF ns [OF that] dr, of batch slot] batches_drop [OF s(2) b(1)] by auto
  have "drains_outside batch (move_rows ?cur ?rows r) < drains_outside batch r"
    using one [of "(?cur + 2) mod SLOT_COUNT"] one [of "(?cur + 1) mod SLOT_COUNT"] s(1)
    unfolding drains_outside_def move_rows_current by (auto simp: others_of_def)
  moreover have "set ?rows \<subseteq> set (ri_ready r)" by (auto simp: in_slot_def dest: in_set_takeD)
  then have "length (ri_ready (move_rows ?cur ?rows r)) \<le> length (ri_ready r)"
    by (rule move_rows_length [OF dr]) (simp add: in_slot_def dr)
  moreover have "ri_writers (move_rows ?cur ?rows r) = ri_writers r" by (simp add: move_rows_def)
  ultimately show ?thesis
    unfolding e using s(2) b(1) storage_outside_move [of r ?rows] move_rows_keys [OF d, of ?cur ?rows] by auto
qed

lemma reclaim_progress:
  assumes s: "slot \<in> set (others_of (current_slot r))" "in_slot r slot = []" "ri_storage r slot" "\<not> locked slot"
  shows "\<exists>r1. reclaim locked now slot batch r = (r1, True) \<and> ri_ready r1 = ri_ready r \<and>
    (\<forall>b. drains_outside b r1 = drains_outside b r) \<and> storage_outside r1 < storage_outside r \<and> ri_writers r1 = ri_writers r"
proof -
  have ns: "slot \<noteq> current_slot r" using s(1) others_of_current [OF current_slot_less [of r]] by auto
  have f: "filter (\<lambda>e. r_slot e \<noteq> slot) (ri_ready r) = ri_ready r"
    using s(2) by (auto simp: in_slot_def filter_empty_conv intro!: filter_True)
  let ?r1 = "r\<lparr>ri_storage := (ri_storage r)(slot := False), ri_reclaim_ts := now\<rparr>"
  have e: "reclaim locked now slot batch r = (?r1, True)"
    using ns s f by (simp add: reclaim_def Let_def move_rows_def)
  have "length (filter (ri_storage ?r1) (others_of (current_slot r))) <
      length (filter (ri_storage r) (others_of (current_slot r)))"
    by (rule filter_weaker_less [where f = "ri_storage r", OF s(1,3)]) (auto split: if_splits)
  then have "ri_ready ?r1 = ri_ready r \<and> (\<forall>b. drains_outside b ?r1 = drains_outside b r) \<and>
      storage_outside ?r1 < storage_outside r \<and> ri_writers ?r1 = ri_writers r"
    by (simp add: drains_outside_def storage_outside_def current_slot_def in_slot_def)
  then show ?thesis unfolding e by blast
qed

lemma switch_progress:
  assumes "decide_rotation_step (read_state i now r) = Switch" "ri_writers r = []"
  shows "\<exists>r1. switch_step i now r = (r1, Switched) \<and> ri_ready r1 = ri_ready r \<and> ri_writers r1 = [] \<and>
    (\<forall>s\<in>set (others_of (current_slot r1)). s = current_slot r \<or> in_slot r1 s = [])"
proof -
  have sw: "decide_rotation_step ((read_state i now r)\<lparr>rs_switch_lock := Some True\<rparr>) = Switch"
    using assms(1) by (auto simp: decide_rotation_step_def read_state_def current_def interval_elapsed_def
        split: option.splits if_splits)
  let ?r1 = "r\<lparr>ri_generation := ri_generation r + 1, ri_switch_ts := now\<rparr>"
  have "s = current_slot r \<or> in_slot ?r1 s = []" if "s \<in> set (others_of (current_slot ?r1))" for s
  proof -
    have "s \<in> {0, 1, 2}"
      using that unfolding others_of_current [OF current_slot_less [of ?r1]] by blast
    then have "s = current_slot r \<or> s \<in> set (others_of (current_slot r))"
      unfolding others_of_current [OF current_slot_less [of r]] by blast
    then show ?thesis using decide_switch [OF sw] unfolding clean_def in_slot_def by auto
  qed
  then show ?thesis using sw assms(2) by (simp add: switch_step_def)
qed

lemma storage_outside_le: "storage_outside r \<le> 2"
  using length_filter_le [of "ri_storage r" "others_of (current_slot r)"]
  by (simp add: storage_outside_def others_of_def)

lemma batches_le: "0 < b \<Longrightarrow> batches b t \<le> length t div b + 1"
proof -
  assume b: "0 < b"
  have "batches b t \<le> (length t + b) div b" unfolding batches_def by (rule div_le_mono) simp
  then show ?thesis using b by simp
qed

lemma batches_Nil [simp]: "batches b [] = 0"
  by (cases b) (simp_all add: batches_def)

text \<open>Before the first switch all slots may hold entries; right after it only the slot that was left.\<close>

lemma drains_outside_start:
  assumes "0 < b"
  shows "drains_outside b r \<le> length (ri_ready r) div b + 2"
proof -
  let ?s = "(current_slot r + 2) mod SLOT_COUNT" and ?t = "(current_slot r + 1) mod SLOT_COUNT"
  have "?s \<noteq> ?t" unfolding SLOT_COUNT_def by presburger
  then have "length (in_slot r ?s) + length (in_slot r ?t) \<le> length (ri_ready r)"
    unfolding in_slot_def by (rule two_slots_length)
  then have "(length (in_slot r ?s) + length (in_slot r ?t)) div b \<le> length (ri_ready r) div b"
    by (rule div_le_mono)
  moreover have "length (in_slot r ?s) div b + length (in_slot r ?t) div b \<le>
      (length (in_slot r ?s) + length (in_slot r ?t)) div b"
    unfolding div_add1_eq [of "length (in_slot r ?s)" "length (in_slot r ?t)"] by simp
  ultimately show ?thesis
    using batches_le [OF assms, of "in_slot r ?s"] batches_le [OF assms, of "in_slot r ?t"]
    by (simp add: drains_outside_def others_of_def)
qed

lemma drains_outside_switched:
  assumes "0 < b" "\<forall>s\<in>set (others_of (current_slot r1)). s = c \<or> in_slot r1 s = []"
  shows "drains_outside b r1 \<le> length (ri_ready r1) div b + 1"
proof -
  let ?s = "(current_slot r1 + 2) mod SLOT_COUNT" and ?t = "(current_slot r1 + 1) mod SLOT_COUNT"
  have ne: "?s \<noteq> ?t" unfolding SLOT_COUNT_def by presburger
  have le: "batches b (in_slot r1 x) \<le> length (ri_ready r1) div b + 1" for x
    using batches_le [OF assms(1), of "in_slot r1 x"] div_le_mono [of "length (in_slot r1 x)" "length (ri_ready r1)" b]
    by (simp add: in_slot_def)
  have "in_slot r1 ?s = [] \<or> in_slot r1 ?t = []" using assms(2) ne by (auto simp: others_of_def)
  then show ?thesis using le by (auto simp: drains_outside_def others_of_def)
qed

lemma rotation_steps_clean:
  assumes q: "\<And>e. \<not> te_held env e" "\<And>s. \<not> te_locked env s" "0 < te_batch env"
    and "ri_writers r = []" "distinct (map ready_key (ri_ready r))" "length (ri_ready r) \<le> N"
      "tick_measure (te_batch env) N r rp < n"
  shows "clean_ring (fst (rotation_steps env n r rp)) \<and> rp_retry (snd (rotation_steps env n r rp)) = rp_retry rp"
  using assms(4-7)
proof (induction n arbitrary: r rp)
  case (Suc n)
  let ?st = "read_state (te_interval env) (te_now env) r" and ?b = "te_batch env"
  have "decide_rotation_step ?st = decide_rotation_step ?st" ..
  then show ?case
  proof (cases rule: decide_cases)
    case idle
    then show ?thesis by (simp add: Let_def)
  next
    case (drain slot)
    from drain_progress [OF Suc.prems(2) drain(2,3) q(3), of "te_held env", OF q(1)]
    obtain r1 moved where d: "drain (te_held env) slot ?b r = (r1, moved)" "0 < moved"
      and m: "drains_outside ?b r1 < drains_outside ?b r" "storage_outside r1 = storage_outside r"
        "length (ri_ready r1) \<le> length (ri_ready r)" "distinct (map ready_key (ri_ready r1))" "ri_writers r1 = ri_writers r"
      by blast
    let ?rp = "rp\<lparr>rp_drained := rp_drained rp + moved\<rparr>"
    have "tick_measure ?b N r1 ?rp < n" using Suc.prems(4) m by (auto simp: tick_measure_def split: if_splits)
    from Suc.IH [OF _ m(4) _ this] show ?thesis using Suc.prems(1,3) m(3,5) drain(1) d by (simp add: Let_def)
  next
    case (reclaim slot)
    from reclaim_progress [OF reclaim(2) _ reclaim(3), of "te_locked env", OF _ q(2)] reclaim(2,4)
    obtain r1 where d: "reclaim (te_locked env) (te_now env) slot ?b r = (r1, True)"
      and m: "ri_ready r1 = ri_ready r" "drains_outside ?b r1 = drains_outside ?b r" "storage_outside r1 < storage_outside r"
        "ri_writers r1 = ri_writers r" by blast
    let ?rp = "rp\<lparr>rp_reclaimed := rp_reclaimed rp + 1\<rparr>"
    have "tick_measure ?b N r1 ?rp < n" using Suc.prems(4) m by (auto simp: tick_measure_def split: if_splits)
    from Suc.IH [OF _ _ _ this] show ?thesis using Suc.prems(1-3) m reclaim(1) d by (simp add: Let_def)
  next
    case switch
    show ?thesis
    proof (cases "rp_switched rp > 0")
      case True
      then show ?thesis using switch by (simp add: Let_def)
    next
      case False
      obtain r1 where d: "switch_step (te_interval env) (te_now env) r = (r1, Switched)"
        and m: "ri_ready r1 = ri_ready r" "ri_writers r1 = []"
          "\<forall>s\<in>set (others_of (current_slot r1)). s = current_slot r \<or> in_slot r1 s = []"
        using switch_progress [OF switch(1) Suc.prems(1)] by blast
      let ?rp = "rp\<lparr>rp_switched := rp_switched rp + 1\<rparr>"
      have "drains_outside ?b r1 \<le> N div ?b + 1"
        using drains_outside_switched [OF q(3) m(3)] div_le_mono [OF Suc.prems(3), of ?b] m(1) by simp
      then have "tick_measure ?b N r1 ?rp < n"
        using Suc.prems(4) False storage_outside_le [of r1] by (simp add: tick_measure_def)
      from Suc.IH [OF _ _ _ this] show ?thesis using Suc.prems(2,3) m switch(1) False d by (simp add: Let_def)
    qed
  qed
qed simp

text \<open>C40: a rotation tick finishes the work it finds. When no other transaction holds a row, a
  partition or the writer key, and the ready table holds less than 21 drain batches (of 1000 entries by
  default), one tick leaves both non-current slots empty and reclaimed, within its limit of 50 steps, and
  reports nothing to retry.\<close>

theorem rotation_tick_cleans:
  assumes "\<And>e. \<not> te_held env e" "\<And>s. \<not> te_locked env s"
    and "ri_writers r = []" "distinct (map ready_key (ri_ready r))" "length (ri_ready r) < 21 * te_batch env"
  shows "clean_ring (fst (run_rotation_tick env r)) \<and> rp_retry (snd (run_rotation_tick env r)) = []"
proof -
  let ?rp = "\<lparr>rp_switched = 0, rp_drained = 0, rp_reclaimed = 0, rp_retry = []\<rparr>" and ?b = "te_batch env"
  have b: "0 < ?b" using assms(5) by (cases ?b) auto
  have "length (ri_ready r) div ?b < 21" using assms(5) b by (simp add: div_less_iff_less_mult)
  then have "tick_measure ?b (length (ri_ready r)) r ?rp < MAX_STEPS_PER_TICK"
    using drains_outside_start [OF b, of r] storage_outside_le [of r]
    by (simp add: tick_measure_def MAX_STEPS_PER_TICK_def)
  from rotation_steps_clean [OF assms(1,2) b assms(3,4) le_refl this] show ?thesis by (simp add: run_rotation_tick_def)
qed

definition sample_ring :: ring where
  "sample_ring = empty_ring\<lparr>
     ri_ready := [\<lparr>r_slot = 2, r_job_id = 7, r_queue_name = ''default'', r_priority = 0, r_created_at = 100,
                   r_scheduled_at = None\<rparr>],
     ri_storage := (\<lambda>_. False)(2 := True)\<rparr>"

definition sample_tick :: tick_env where
  "sample_tick = \<lparr>te_held = (\<lambda>_. False), te_locked = (\<lambda>_. False), te_now = 1000, te_interval = 60, te_batch = 1000\<rparr>"

theorem rotation_tick_cleans_witness:
  "clean_ring (fst (run_rotation_tick sample_tick sample_ring)) \<and>
   entry_jobs (ri_ready (fst (run_rotation_tick sample_tick sample_ring))) = {7}"
proof -
  have "clean_ring (fst (run_rotation_tick sample_tick sample_ring))"
    using rotation_tick_cleans [of sample_tick sample_ring] by (simp add: sample_tick_def sample_ring_def empty_ring_def)
  moreover have "entry_jobs (ri_ready (fst (run_rotation_tick sample_tick sample_ring))) = {7}"
    unfolding run_rotation_tick_def rotation_steps_jobs by (simp add: sample_ring_def entry_jobs_def)
  ultimately show ?thesis by blast
qed

end
