(* ===== verification/Sq_Retention.thy ===== *)
theory Sq_Retention
  imports Sq_System
begin

text \<open>
  Retention and the registries: \<^verbatim>\<open>cleanup_jobs\<close>, \<^verbatim>\<open>_delete_history_batch\<close>,
  \<^verbatim>\<open>_prune_attempts_without_history\<close>, \<^verbatim>\<open>cleanup_per_job_ttl\<close>, \<^verbatim>\<open>cleanup_jobs_by_count\<close> and the
  registry statements of \<^verbatim>\<open>fastapi_sqlery/backend.py\<close> (the path without partitioned tables),
  \<^verbatim>\<open>CleanupManager\<close> of \<^verbatim>\<open>core/cleanup.py\<close> and the tracking functions of \<^verbatim>\<open>core/registry.py\<close>.

  Retention deletes in batches, one transaction each; the loops are functions whose termination is
  proved from the history getting shorter. The properties compare them with the one statement they
  stand for. \<open>finished_at\<close> is a key column of the history and never null there; \<open>finish_time\<close> gives
  its value. The metadata of a registry entry is descriptive and left out.
\<close>

section \<open>Batches\<close>

definition CLEANUP_BATCH_SIZE :: nat where
  "CLEANUP_BATCH_SIZE = 500"

definition days :: "int \<Rightarrow> int" where
  "days n = seconds (86400 * n)"

definition finish_time :: "job \<Rightarrow> timestamp" where
  "finish_time j = (case j_finished_at j of Some t \<Rightarrow> t | None \<Rightarrow> 0)"

definition delete_history_batch :: "job_id list \<Rightarrow> (job \<Rightarrow> bool) \<Rightarrow> db \<Rightarrow> db \<times> nat" where
  "delete_history_batch ids filters d =
     (let W = (\<lambda>j. j_id j \<in> set ids \<and> filters j)
      in (d\<lparr>history := delete_where W (history d),
            attempts := delete_where (\<lambda>a. a_job_id a \<in> set ids \<and> a_finished_at a \<noteq> None) (attempts d)\<rparr>,
          rowcount W (history d)))"

definition retention_filter ::
  "job_status option \<Rightarrow> string option \<Rightarrow> timestamp option \<Rightarrow> job \<Rightarrow> bool" where
  "retention_filter status queue_name cutoff j \<longleftrightarrow>
     (case status of None \<Rightarrow> True | Some s \<Rightarrow> j_status j = s) \<and>
     (case queue_name of None \<Rightarrow> True | Some q \<Rightarrow> q = [] \<or> j_queue_name j = q) \<and>
     (case cutoff of None \<Rightarrow> True | Some c \<Rightarrow> finish_time j < c)"

section \<open>Retention by age\<close>

definition oldest_ids :: "(job \<Rightarrow> bool) \<Rightarrow> db \<Rightarrow> job_id list" where
  "oldest_ids F d =
     take CLEANUP_BATCH_SIZE
       (map j_id (sort_key (\<lambda>j. (finish_time j, j_id j)) (filter F (history d))))"

lemma delete_batch_shrinks:
  "0 < snd (delete_history_batch ids F d) \<Longrightarrow>
     length (history (fst (delete_history_batch ids F d))) < length (history d)"
proof -
  have "length t = rowcount W t + length (delete_where W t)" for W and t :: "job list"
    by (induction t) auto
  then show "0 < snd (delete_history_batch ids F d) \<Longrightarrow> ?thesis"
    by (simp add: delete_history_batch_def Let_def) (metis add_less_same_cancel2 less_add_same_cancel2)
qed

function cleanup_loop :: "(job \<Rightarrow> bool) \<Rightarrow> nat \<Rightarrow> db \<Rightarrow> db \<times> nat" where
  "cleanup_loop F n d =
     (if oldest_ids F d = [] then (d, n)
      else if snd (delete_history_batch (oldest_ids F d) F d) = 0
      then (fst (delete_history_batch (oldest_ids F d) F d), n)
      else cleanup_loop F (n + snd (delete_history_batch (oldest_ids F d) F d))
             (fst (delete_history_batch (oldest_ids F d) F d)))"
  by pat_completeness auto
termination
  by (relation "measure (\<lambda>(F, n, d). length (history d))") (simp_all add: delete_batch_shrinks)

declare cleanup_loop.simps [simp del]

record cleanup_stats =
  cl_deleted :: nat
  cl_count :: nat

definition cleanup_jobs ::
  "job_status option \<Rightarrow> int option \<Rightarrow> string option \<Rightarrow> bool \<Rightarrow> timestamp \<Rightarrow> db \<Rightarrow> db \<times> cleanup_stats" where
  "cleanup_jobs status max_age_days queue_name dry_run now d =
     (let cutoff = (case max_age_days of
                      None \<Rightarrow> None | Some n \<Rightarrow> if n = 0 then None else Some (now - days n));
          F = retention_filter status queue_name cutoff
      in if dry_run then (d, \<lparr>cl_deleted = 0, cl_count = rowcount F (history d)\<rparr>)
         else (let (d', n) = cleanup_loop F 0 d in (d', \<lparr>cl_deleted = n, cl_count = n\<rparr>)))"

text \<open>Finished attempts whose job is in neither table.\<close>

definition prune_attempts_without_history :: "nat \<Rightarrow> db \<Rightarrow> db \<times> nat" where
  "prune_attempts_without_history limit d =
     (let ids = take limit (map a_id (filter (\<lambda>a. a_finished_at a \<noteq> None \<and>
                    \<not> (\<exists>j\<in>set (job_all d). j_id j = a_job_id a)) (attempts d)));
          W = (\<lambda>a. a_id a \<in> set ids)
      in (d\<lparr>attempts := delete_where W (attempts d)\<rparr>, rowcount W (attempts d)))"

section \<open>Retention by count\<close>

text \<open>\<^verbatim>\<open>ORDER BY finished_at DESC, id DESC\<close>.\<close>

definition newest_first :: "(job \<Rightarrow> bool) \<Rightarrow> db \<Rightarrow> job list" where
  "newest_first F d = sort_key (\<lambda>j. (- finish_time j, - j_id j)) (filter F (history d))"

definition surplus_ids :: "(job \<Rightarrow> bool) \<Rightarrow> nat \<Rightarrow> db \<Rightarrow> job_id list" where
  "surplus_ids F keep d = take CLEANUP_BATCH_SIZE (drop keep (map j_id (newest_first F d)))"

function count_loop :: "(job \<Rightarrow> bool) \<Rightarrow> nat \<Rightarrow> nat \<Rightarrow> db \<Rightarrow> db \<times> nat" where
  "count_loop F keep deleted d =
     (if surplus_ids F keep d = [] then (d, deleted)
      else if snd (delete_history_batch (surplus_ids F keep d) (\<lambda>_. True) d) = 0
      then (fst (delete_history_batch (surplus_ids F keep d) (\<lambda>_. True) d), deleted)
      else count_loop F keep (deleted + snd (delete_history_batch (surplus_ids F keep d) (\<lambda>_. True) d))
             (fst (delete_history_batch (surplus_ids F keep d) (\<lambda>_. True) d)))"
  by pat_completeness auto
termination
  by (relation "measure (\<lambda>(F, keep, deleted, d). length (history d))")
    (simp_all add: delete_batch_shrinks)

declare count_loop.simps [simp del]

definition cleanup_jobs_by_count ::
  "job_status option \<Rightarrow> nat \<Rightarrow> string option \<Rightarrow> bool \<Rightarrow> db \<Rightarrow> db \<times> cleanup_stats" where
  "cleanup_jobs_by_count status keep_count queue_name dry_run d =
     (let F = retention_filter status queue_name None
      in if dry_run then (d, \<lparr>cl_deleted = 0, cl_count = rowcount F (history d) - keep_count\<rparr>)
         else (let (d', n) = count_loop F keep_count 0 d in (d', \<lparr>cl_deleted = n, cl_count = n\<rparr>)))"

section \<open>Per-job TTL\<close>

fun chunks :: "nat \<Rightarrow> 'a list \<Rightarrow> 'a list list" where
  "chunks n [] = []"
| "chunks n (x # xs) = take (Suc n) (x # xs) # chunks n (drop n xs)"

definition ttl_over :: "job_status list \<Rightarrow> (job \<Rightarrow> int option) \<Rightarrow> timestamp \<Rightarrow> job \<Rightarrow> bool" where
  "ttl_over sts ttl_col now j \<longleftrightarrow>
     j_status j \<in> set sts \<and>
     (case ttl_col j of
        None \<Rightarrow> False | Some ttl \<Rightarrow> ttl \<noteq> - 1 \<and> finish_time j + seconds ttl < now)"

definition ttl_pass ::
  "bool \<Rightarrow> job_status list \<Rightarrow> (job \<Rightarrow> int option) \<Rightarrow> timestamp \<Rightarrow> db \<times> nat \<Rightarrow> db \<times> nat" where
  "ttl_pass dry_run sts ttl_col now s =
     (let (d, n) = s;
          expired = map j_id (filter (ttl_over sts ttl_col now) (history d))
      in (if dry_run then d
          else fold (\<lambda>ids d. fst (delete_history_batch ids (\<lambda>_. True) d))
                 (chunks (CLEANUP_BATCH_SIZE - 1) expired) d,
          n + length expired))"

definition cleanup_per_job_ttl :: "bool \<Rightarrow> timestamp \<Rightarrow> db \<Rightarrow> db \<times> nat" where
  "cleanup_per_job_ttl dry_run now d =
     ttl_pass dry_run [Failed, Archived] j_failure_ttl now
       (ttl_pass dry_run [Success] j_result_ttl now (d, 0))"

section \<open>Registries\<close>

datatype registry_type =
  Reg_started | Reg_finished | Reg_failed | Reg_scheduled | Reg_deferred | Reg_canceled

record registry_entry =
  g_job_id :: job_id
  g_type :: registry_type
  g_entered_at :: timestamp
  g_exited_at :: "timestamp option"

type_synonym registry = "registry_entry list"

definition add_job_to_registry :: "timestamp \<Rightarrow> job_id \<Rightarrow> registry_type \<Rightarrow> registry \<Rightarrow> registry" where
  "add_job_to_registry now jid ty g =
     g @ [\<lparr>g_job_id = jid, g_type = ty, g_entered_at = now, g_exited_at = None\<rparr>]"

definition active_in :: "job_id \<Rightarrow> registry_type \<Rightarrow> registry_entry \<Rightarrow> bool" where
  "active_in jid ty e \<longleftrightarrow> g_job_id e = jid \<and> g_type e = ty \<and> g_exited_at e = None"

definition remove_job_from_registry :: "timestamp \<Rightarrow> job_id \<Rightarrow> registry_type \<Rightarrow> registry \<Rightarrow> registry" where
  "remove_job_from_registry now jid ty g =
     update_where (active_in jid ty) (\<lambda>e. e\<lparr>g_exited_at := Some now\<rparr>) g"

text \<open>The join with the union view gives one row per matching job row; each is fetched again by id.\<close>

definition get_registry_jobs ::
  "registry_type \<Rightarrow> string option \<Rightarrow> nat option \<Rightarrow> db \<Rightarrow> registry \<Rightarrow> job list" where
  "get_registry_jobs ty queue_name limit d g =
     (let rows = concat (map (\<lambda>e. map (\<lambda>_. e)
                   (filter (\<lambda>j. j_id j = g_job_id e \<and>
                      (case queue_name of None \<Rightarrow> True | Some q \<Rightarrow> q = [] \<or> j_queue_name j = q)) (job_all d)))
                   (filter (\<lambda>e. g_type e = ty \<and> g_exited_at e = None) g));
          entries = (case limit of None \<Rightarrow> rows | Some n \<Rightarrow> if n = 0 then rows else take n rows)
      in List.map_filter (\<lambda>e. List.find (\<lambda>j. j_id j = g_job_id e) (job_all d)) entries)"

definition cleanup_registry ::
  "registry_type option \<Rightarrow> int option \<Rightarrow> timestamp \<Rightarrow> registry \<Rightarrow> registry \<times> nat" where
  "cleanup_registry ty max_age_days now g =
     (let W = (\<lambda>e. (case ty of None \<Rightarrow> True | Some t \<Rightarrow> g_type e = t) \<and>
                   (case max_age_days of
                      None \<Rightarrow> True | Some n \<Rightarrow> n = 0 \<or> g_entered_at e < now - days n))
      in (delete_where W g, rowcount W g))"

text \<open>
  \<^verbatim>\<open>RegistryManager.cleanup_registry\<close> calls the backend with a keyword \<^verbatim>\<open>cutoff_time\<close> that its method
  does not have.
\<close>

definition manager_cleanup_registry ::
  "registry_type \<Rightarrow> int option \<Rightarrow> timestamp \<Rightarrow> registry \<Rightarrow> registry \<times> nat result" where
  "manager_cleanup_registry ty max_age_days now g = (g, Inl TypeError)"

definition track_job_start :: "timestamp \<Rightarrow> job \<Rightarrow> registry \<Rightarrow> registry" where
  "track_job_start now j g = add_job_to_registry now (j_id j) Reg_started g"

definition track_job_finish :: "timestamp \<Rightarrow> timestamp \<Rightarrow> job \<Rightarrow> job_status \<Rightarrow> registry \<Rightarrow> registry" where
  "track_job_finish exit_now now j status g =
     (let g1 = remove_job_from_registry exit_now (j_id j) Reg_started g
      in if status = Success then add_job_to_registry now (j_id j) Reg_finished g1
         else if status = Failed then add_job_to_registry now (j_id j) Reg_failed g1
         else g1)"

definition track_job_schedule :: "timestamp \<Rightarrow> job \<Rightarrow> registry \<Rightarrow> registry" where
  "track_job_schedule now j g = add_job_to_registry now (j_id j) Reg_scheduled g"

definition track_job_cancel :: "timestamp \<Rightarrow> timestamp \<Rightarrow> job \<Rightarrow> registry \<Rightarrow> registry" where
  "track_job_cancel exit_now now j g =
     add_job_to_registry now (j_id j) Reg_canceled
       (fold (remove_job_from_registry exit_now (j_id j)) [Reg_started, Reg_scheduled, Reg_deferred] g)"

section \<open>Automatic cleanup\<close>

record retention_config =
  rc_max_age :: "job_status \<Rightarrow> int option"
  rc_max_count :: "job_status \<Rightarrow> nat option"
  rc_registries :: "(registry_type \<times> int) list"
  rc_auto_registries :: bool

definition cleanup_old_jobs ::
  "job_status \<Rightarrow> int \<Rightarrow> bool \<Rightarrow> timestamp \<Rightarrow> db \<Rightarrow> db" where
  "cleanup_old_jobs status max_age dry_run now d =
     fst (cleanup_jobs (Some status) (Some max_age) None dry_run now d)"

definition cleanup_by_count :: "job_status \<Rightarrow> nat \<Rightarrow> bool \<Rightarrow> db \<Rightarrow> db" where
  "cleanup_by_count status keep_count dry_run d =
     fst (cleanup_jobs_by_count (Some status) keep_count None dry_run d)"

definition age_pass :: "retention_config \<Rightarrow> bool \<Rightarrow> timestamp \<Rightarrow> job_status \<Rightarrow> db \<Rightarrow> db" where
  "age_pass cfg dry_run now status d =
     (case rc_max_age cfg status of None \<Rightarrow> d | Some n \<Rightarrow> cleanup_old_jobs status n dry_run now d)"

definition count_pass :: "retention_config \<Rightarrow> bool \<Rightarrow> job_status \<Rightarrow> db \<Rightarrow> db" where
  "count_pass cfg dry_run status d =
     (case rc_max_count cfg status of None \<Rightarrow> d | Some n \<Rightarrow> cleanup_by_count status n dry_run d)"

definition cleanup_old_registries ::
  "bool \<Rightarrow> timestamp \<Rightarrow> registry_type \<times> int \<Rightarrow> registry \<Rightarrow> registry" where
  "cleanup_old_registries dry_run now p g =
     (if dry_run then g else fst (cleanup_registry (Some (fst p)) (Some (snd p)) now g))"

definition auto_cleanup ::
  "retention_config \<Rightarrow> bool \<Rightarrow> bool \<Rightarrow> timestamp \<Rightarrow> db \<times> registry \<Rightarrow> db \<times> registry" where
  "auto_cleanup cfg partition_mode dry_run now s =
     (let d1 = (if partition_mode then fst s
                else fst (cleanup_per_job_ttl dry_run now
                       (fold (count_pass cfg dry_run) [Success, Failed]
                         (fold (age_pass cfg dry_run now) [Success, Failed] (fst s)))));
          g1 = (if rc_auto_registries cfg
                then fold (cleanup_old_registries dry_run now) (rc_registries cfg) (snd s)
                else snd s)
      in (d1, g1))"

section \<open>What retention may do\<close>

text \<open>
  \<open>pruned R\<close>: the rows of \<open>R\<close> are gone from the history, the finished attempts of their jobs with
  them, and nothing else has changed. Every retention operation is \<open>pruned R\<close> for the \<open>R\<close> it stands for.
\<close>

definition pruned :: "job set \<Rightarrow> db \<Rightarrow> db \<Rightarrow> bool" where
  "pruned R d d' \<longleftrightarrow>
     d' = d\<lparr>history := delete_where (\<lambda>j. j \<in> R) (history d),
            attempts := delete_where (\<lambda>a. a_job_id a \<in> j_id ` (R \<inter> set (history d)) \<and>
                                           a_finished_at a \<noteq> None) (attempts d)\<rparr>"

lemma delete_where_delete_where:
  "delete_where P (delete_where Q t) = delete_where (\<lambda>r. P r \<or> Q r) t"
  by (induction t) auto

lemma delete_where_cong:
  "(\<And>r. r \<in> set t \<Longrightarrow> P r = Q r) \<Longrightarrow> delete_where P t = delete_where Q t"
  by (induction t) auto

lemma prunedI:
  assumes "d' = d\<lparr>history := delete_where P (history d), attempts := delete_where Q (attempts d)\<rparr>"
    and "\<And>j. j \<in> set (history d) \<Longrightarrow> P j \<longleftrightarrow> j \<in> R"
    and "\<And>a. a \<in> set (attempts d) \<Longrightarrow>
      Q a \<longleftrightarrow> a_job_id a \<in> j_id ` (R \<inter> set (history d)) \<and> a_finished_at a \<noteq> None"
  shows "pruned R d d'"
proof -
  have "delete_where P (history d) = delete_where (\<lambda>j. j \<in> R) (history d)"
    using assms(2) by (rule delete_where_cong)
  moreover have "delete_where Q (attempts d) = delete_where (\<lambda>a. a_job_id a \<in> j_id ` (R \<inter> set (history d)) \<and>
      a_finished_at a \<noteq> None) (attempts d)"
    using assms(3) by (rule delete_where_cong)
  ultimately show ?thesis using assms(1) by (simp only: pruned_def)
qed

lemma pruned_empty:
  assumes "R \<inter> set (history d) = {}"
  shows "pruned R d d"
proof -
  have "delete_where (\<lambda>j. j \<in> R) (history d) = history d"
    by (rule delete_where_none) (use assms in blast)
  then show ?thesis by (simp add: pruned_def assms delete_where_def)
qed

lemma pruned_trans:
  assumes "pruned R d e" "pruned S e f"
  shows "pruned (R \<union> S) d f"
proof -
  have "R \<inter> set (history d) \<union> S \<inter> set (history e) = (R \<union> S) \<inter> set (history d)"
    using assms(1) by (auto simp: pruned_def)
  then have "j_id ` ((R \<union> S) \<inter> set (history d)) =
      j_id ` (R \<inter> set (history d)) \<union> j_id ` (S \<inter> set (history e))"
    by (metis image_Un)
  moreover have "f = d\<lparr>history := delete_where (\<lambda>j. j \<in> S \<or> j \<in> R) (history d),
      attempts := delete_where (\<lambda>a. a_job_id a \<in> j_id ` (S \<inter> set (history e)) \<and> a_finished_at a \<noteq> None \<or>
        a_job_id a \<in> j_id ` (R \<inter> set (history d)) \<and> a_finished_at a \<noteq> None) (attempts d)\<rparr>"
    using assms by (simp add: pruned_def delete_where_delete_where)
  ultimately show ?thesis by (elim prunedI) auto
qed

lemma pruned_same:
  assumes "pruned R d d'" "R \<inter> set (history d) = S \<inter> set (history d)"
  shows "pruned S d d'"
proof -
  have "delete_where (\<lambda>j. j \<in> R) (history d) = delete_where (\<lambda>j. j \<in> S) (history d)"
    by (rule delete_where_cong) (use assms(2) in blast)
  then show ?thesis using assms by (simp add: pruned_def)
qed

lemma pruned_frame:
  assumes "pruned R d d'"
  shows "live d' = live d" "ready d' = ready d" "blocked d' = blocked d" "workers d' = workers d"
    "staged d' = staged d" "next_attempt d' = next_attempt d"
    "history d' = delete_where (\<lambda>j. j \<in> R) (history d)"
  using assms by (simp_all add: pruned_def)

lemma pruned_open: "pruned R d d' \<Longrightarrow> filter (\<lambda>a. a_finished_at a = None) (attempts d') =
    filter (\<lambda>a. a_finished_at a = None) (attempts d)"
  by (simp add: pruned_def delete_where_def) (rule filter_cong, auto)

lemma pruned_wf:
  assumes w: "wf_db d" and p: "pruned R d d'"
  shows "wf_db d'"
proof -
  have "distinct (map sj_id (staged d') @ map j_id (live d' @ history d'))"
    using w pruned_frame [OF p] by (auto simp: wf_db_def wf_jobs_def)
  moreover have "\<forall>j\<in>set (history d'). is_terminal (j_status j)"
    using w pruned_frame [OF p] by (simp add: wf_db_def wf_jobs_def)
  moreover have "rowcount (open_for k) (attempts d') = rowcount (open_for k) (attempts d)" for k
    using p by (auto simp: pruned_def rowcount_delete_where open_for_def intro!: rowcount_cong)
  moreover have "distinct (map a_id (attempts d'))" "set (attempts d') \<subseteq> set (attempts d)"
    using w p by (auto simp: pruned_def wf_db_def wf_attempts_def)
  ultimately show ?thesis
    using w pruned_frame [OF p] by (auto simp: wf_db_def wf_jobs_def wf_attempts_def wf_ready_def)
qed

lemma wf_history_ids: "wf_db d \<Longrightarrow> distinct (map j_id (history d))"
  by (simp add: wf_db_def wf_jobs_def)

lemma rows_count:
  assumes w: "wf_db d" and sub: "set rows \<subseteq> set (history d)" and d: "distinct rows"
  shows "rowcount (\<lambda>j. j \<in> set rows) (history d) = length rows"
proof -
  have "distinct (filter (\<lambda>j. j \<in> set rows) (history d))"
    using wf_history_ids [OF w] by (auto simp: distinct_map)
  then have "rowcount (\<lambda>j. j \<in> set rows) (history d) = card (set (filter (\<lambda>j. j \<in> set rows) (history d)))"
    unfolding rowcount_def by (rule distinct_card [symmetric])
  also have "set (filter (\<lambda>j. j \<in> set rows) (history d)) = set rows" using sub by auto
  finally show ?thesis using d by (simp add: distinct_card)
qed

lemma batch_pruned:
  assumes w: "wf_db d" and sub: "set rows \<subseteq> set (history d)" and F: "\<forall>r\<in>set rows. F r" and d: "distinct rows"
  shows "pruned (set rows) d (fst (delete_history_batch (map j_id rows) F d))"
    and "snd (delete_history_batch (map j_id rows) F d) = length rows"
proof -
  have *: "j_id j \<in> set (map j_id rows) \<and> F j \<longleftrightarrow> j \<in> set rows" if "j \<in> set (history d)" for j
    using that sub F distinct_key_unique [OF wf_history_ids [OF w], of j] by auto
  have "j_id ` (set rows \<inter> set (history d)) = set (map j_id rows)" using sub by auto
  then show "pruned (set rows) d (fst (delete_history_batch (map j_id rows) F d))"
    using * by (intro prunedI [where P = "\<lambda>j. j_id j \<in> set (map j_id rows) \<and> F j" and
          Q = "\<lambda>a. a_job_id a \<in> set (map j_id rows) \<and> a_finished_at a \<noteq> None"])
      (simp_all add: delete_history_batch_def Let_def)
  have "rowcount (\<lambda>j. j_id j \<in> set (map j_id rows) \<and> F j) (history d) =
      rowcount (\<lambda>j. j \<in> set rows) (history d)" using * by (rule rowcount_cong)
  also have "\<dots> = length rows" by (rule rows_count [OF w sub d])
  finally show "snd (delete_history_batch (map j_id rows) F d) = length rows"
    by (simp add: delete_history_batch_def Let_def)
qed

lemma sorted_rows:
  assumes "wf_db d"
  shows "set (sort_key k (filter F (history d))) = {j \<in> set (history d). F j}"
    "distinct (sort_key k (filter F (history d)))"
  using wf_history_ids [OF assms] by (auto simp: distinct_map)

section \<open>The loops delete what they stand for\<close>

lemma cleanup_loop_exact:
  assumes "wf_db d"
  shows "pruned {j. F j} d (fst (cleanup_loop F n d)) \<and>
    snd (cleanup_loop F n d) = n + rowcount F (history d)"
  using assms
proof (induction F n d rule: cleanup_loop.induct)
  case (1 F n d)
  define rows where
    "rows = take CLEANUP_BATCH_SIZE (sort_key (\<lambda>j. (finish_time j, j_id j)) (filter F (history d)))"
  have ids: "oldest_ids F d = map j_id rows" by (simp add: oldest_ids_def rows_def take_map)
  have sub: "set rows \<subseteq> {j \<in> set (history d). F j}" and dist: "distinct rows"
    using sorted_rows [OF 1(2), of "\<lambda>j. (finish_time j, j_id j)" F] set_take_subset
    unfolding rows_def by fastforce+
  show ?case
  proof (cases "rows = []")
    case True
    then have none: "filter F (history d) = []"
      by (auto simp: rows_def CLEANUP_BATCH_SIZE_def) (metis length_0_conv length_sort)
    then have "{j. F j} \<inter> set (history d) = {}" by (auto simp: filter_empty_conv)
    then show ?thesis
      using True none ids by (subst (1 2) cleanup_loop.simps) (simp add: pruned_empty rowcount_def)
  next
    case False
    let ?b = "delete_history_batch (map j_id rows) F d"
    have p: "pruned (set rows) d (fst ?b)" and c: "snd ?b = length rows"
      using batch_pruned [OF 1(2), of rows F] sub dist by auto
    have "0 < snd ?b" using False c by simp
    then have step: "cleanup_loop F n d = cleanup_loop F (n + length rows) (fst ?b)"
      using False ids c by (subst cleanup_loop.simps) simp
    have ih: "pruned {j. F j} (fst ?b) (fst (cleanup_loop F (n + length rows) (fst ?b)))"
      "snd (cleanup_loop F (n + length rows) (fst ?b)) =
         n + length rows + rowcount F (history (fst ?b))"
      using 1(1) False ids c pruned_wf [OF 1(2) p] by simp_all
    have "pruned {j. F j} d (fst (cleanup_loop F n d))"
      unfolding step by (rule pruned_same [OF pruned_trans [OF p ih(1)]]) (use sub in auto)
    moreover have "rowcount F (history d) = length rows + rowcount F (history (fst ?b))"
    proof -
      have "rowcount F (delete_where (\<lambda>j. j \<in> set rows) t) + rowcount (\<lambda>j. j \<in> set rows) t = rowcount F t"
        if "set rows \<subseteq> {j. F j}" for t
        using that by (induction t) auto
      moreover have "set rows \<subseteq> {j. F j}" "set rows \<subseteq> set (history d)" using sub by auto
      ultimately show ?thesis
        using rows_count [OF 1(2) _ dist] pruned_frame(7) [OF p] by (metis add.commute)
    qed
    ultimately show ?thesis using ih(2) step by simp
  qed
qed

lemma filter_not_window:
  assumes "distinct L"
  shows "filter (\<lambda>x. x \<notin> set (take n (drop k L))) L = take k L @ drop n (drop k L)"
proof -
  let ?A = "take k L" and ?B = "take n (drop k L)" and ?C = "drop n (drop k L)"
  have L: "?A @ ?B @ ?C = L" by (metis append_take_drop_id)
  have "distinct (?A @ ?B @ ?C)" using assms by (simp only: L)
  then have "set ?A \<inter> set ?B = {}" "set ?C \<inter> set ?B = {}" by auto
  then have "filter (\<lambda>x. x \<notin> set ?B) (?A @ ?B @ ?C) = ?A @ ?C"
    by (simp add: filter_empty_conv filter_id_conv disjoint_iff)
  then show ?thesis by (simp only: L)
qed

lemma count_loop_exact:
  assumes "wf_db d"
  shows "pruned (set (drop keep (newest_first F d))) d (fst (count_loop F keep n d)) \<and>
    snd (count_loop F keep n d) = n + (rowcount F (history d) - keep)"
  using assms
proof (induction F keep n d rule: count_loop.induct)
  case (1 F keep n d)
  let ?L = "newest_first F d"
  define rows where "rows = take CLEANUP_BATCH_SIZE (drop keep ?L)"
  have ids: "surplus_ids F keep d = map j_id rows"
    by (simp add: surplus_ids_def rows_def take_map drop_map)
  have L: "set ?L = {j \<in> set (history d). F j}" "distinct ?L" "length ?L = rowcount F (history d)"
    using sorted_rows [OF 1(2)] by (simp_all add: newest_first_def rowcount_def)
  then have sub: "set rows \<subseteq> set (history d)" "set rows \<subseteq> set (drop keep ?L)" and dist: "distinct rows"
    unfolding rows_def using set_take_subset set_drop_subset by fastforce+
  show ?case
  proof (cases "rows = []")
    case True
    then have none: "drop keep ?L = []" by (simp add: rows_def CLEANUP_BATCH_SIZE_def)
    then show ?thesis
      using True ids L(3) by (subst (1 2) count_loop.simps) (simp add: pruned_empty)
  next
    case False
    let ?b = "delete_history_batch (map j_id rows) (\<lambda>_. True) d"
    have p: "pruned (set rows) d (fst ?b)" and c: "snd ?b = length rows"
      using batch_pruned [OF 1(2) sub(1)] dist by auto
    then have step: "count_loop F keep n d = count_loop F keep (n + length rows) (fst ?b)"
      using False ids by (subst count_loop.simps) simp
    have "newest_first F (fst ?b) = filter (\<lambda>x. x \<notin> set rows) ?L"
      using pruned_frame(7) [OF p]
      by (simp add: newest_first_def filter_sort delete_where_def conj_commute)
    then have L1: "newest_first F (fst ?b) = take keep ?L @ drop CLEANUP_BATCH_SIZE (drop keep ?L)"
      using filter_not_window [OF L(2)] by (simp add: rows_def)
    have long: "keep < length ?L" using False by (simp add: rows_def CLEANUP_BATCH_SIZE_def)
    have d1: "drop keep (newest_first F (fst ?b)) = drop CLEANUP_BATCH_SIZE (drop keep ?L)"
      unfolding L1 using long by simp
    have w1: "wf_db (fst ?b)" by (rule pruned_wf [OF 1(2) p])
    have "rowcount F (history (fst ?b)) = length (newest_first F (fst ?b))"
      by (simp add: newest_first_def rowcount_def)
    also have "\<dots> = keep + (length ?L - keep - CLEANUP_BATCH_SIZE)" using long by (simp add: L1)
    finally have cnt: "rowcount F (history d) - keep = length rows + (rowcount F (history (fst ?b)) - keep)"
      using long L(3) by (simp add: rows_def)
    have ih: "pruned (set (drop keep (newest_first F (fst ?b)))) (fst ?b)
        (fst (count_loop F keep (n + length rows) (fst ?b))) \<and>
      snd (count_loop F keep (n + length rows) (fst ?b)) =
         n + length rows + (rowcount F (history (fst ?b)) - keep)"
      by (rule 1(1) [unfolded ids c, OF _ _ w1]) (use False in simp_all)
    have "set rows \<union> set (drop keep (newest_first F (fst ?b))) = set (drop keep ?L)"
      unfolding d1 by (simp only: rows_def set_append [symmetric] append_take_drop_id)
    then show ?thesis using pruned_trans [OF p conjunct1 [OF ih]] conjunct2 [OF ih] step cnt by simp
  qed
qed

lemma concat_chunks: "concat (chunks n xs) = xs"
  by (induction n xs rule: chunks.induct) simp_all

lemma delete_batches:
  "fold (\<lambda>ids d. fst (delete_history_batch ids (\<lambda>_. True) d)) iss d =
     fst (delete_history_batch (concat iss) (\<lambda>_. True) d)"
proof (induction iss arbitrary: d)
  case Nil
  show ?case by (simp add: delete_history_batch_def Let_def delete_where_def)
next
  case (Cons ids iss)
  then show ?case
    by (simp add: delete_history_batch_def Let_def delete_where_delete_where disj_commute conj_disj_distribR)
qed

lemma ttl_pass_exact:
  assumes "wf_db d" "ttl_pass dry sts ttl_col now (d, n) = (d', m)"
  shows "pruned (if dry then {} else {j. ttl_over sts ttl_col now j}) d d'"
    and "m = n + rowcount (ttl_over sts ttl_col now) (history d)"
proof -
  let ?rows = "filter (ttl_over sts ttl_col now) (history d)"
  have "distinct ?rows" using wf_history_ids [OF assms(1)] by (auto simp: distinct_map)
  then have "pruned (set ?rows) d (fst (delete_history_batch (map j_id ?rows) (\<lambda>_. True) d))"
    using batch_pruned(1) [OF assms(1), of ?rows "\<lambda>_. True"] by auto
  then have "pruned {j. ttl_over sts ttl_col now j} d
      (fst (delete_history_batch (map j_id ?rows) (\<lambda>_. True) d))"
    by (rule pruned_same) auto
  then show "pruned (if dry then {} else {j. ttl_over sts ttl_col now j}) d d'"
    using assms(2) by (auto simp: ttl_pass_def Let_def delete_batches concat_chunks pruned_empty)
  show "m = n + rowcount (ttl_over sts ttl_col now) (history d)"
    using assms(2) by (auto simp: ttl_pass_def Let_def rowcount_def)
qed

section \<open>Rules\<close>

text \<open>Deleting only rows that a rule allows.\<close>

definition prunes_by :: "(job \<Rightarrow> bool) \<Rightarrow> db \<Rightarrow> db \<Rightarrow> bool" where
  "prunes_by rule d d' \<longleftrightarrow> (\<exists>R. R \<subseteq> {j. rule j} \<and> pruned R d d')"

lemma prunes_by_refl: "prunes_by rule d d"
  unfolding prunes_by_def by (rule exI [of _ "{}"]) (simp add: pruned_empty)

lemma prunes_by_trans: "prunes_by rule d e \<Longrightarrow> prunes_by rule e f \<Longrightarrow> prunes_by rule d f"
  unfolding prunes_by_def using pruned_trans by (metis Un_least)

lemma prunes_by_wf: "prunes_by rule d d' \<Longrightarrow> wf_db d \<Longrightarrow> wf_db d'"
  by (auto simp: prunes_by_def dest: pruned_wf)

text \<open>The rules of a configuration: an age limit for the status, a count limit with at least that many newer
  rows of the status in the history \<open>hist\<close>, or a TTL of the job itself.\<close>

definition newer_rows :: "job list \<Rightarrow> job \<Rightarrow> nat" where
  "newer_rows hist j =
     rowcount (\<lambda>k. j_status k = j_status j \<and> (finish_time j, j_id j) < (finish_time k, j_id k)) hist"

definition removable :: "retention_config \<Rightarrow> timestamp \<Rightarrow> job list \<Rightarrow> job \<Rightarrow> bool" where
  "removable cfg now hist j \<longleftrightarrow>
     (\<exists>n. rc_max_age cfg (j_status j) = Some n \<and> (n = 0 \<or> finish_time j < now - days n)) \<or>
     (\<exists>n. rc_max_count cfg (j_status j) = Some n \<and> n \<le> newer_rows hist j) \<or>
     ttl_over [Success] j_result_ttl now j \<or> ttl_over [Failed, Archived] j_failure_ttl now j"

lemma removable_mono:
  assumes "pruned R d e" "removable cfg now (history e) j"
  shows "removable cfg now (history d) j"
proof -
  have "newer_rows (history e) j \<le> newer_rows (history d) j"
    using assms(1) by (auto simp: newer_rows_def pruned_def rowcount_delete_where intro!: rowcount_mono)
  then show ?thesis using assms(2) by (auto simp: removable_def intro: le_trans)
qed

text \<open>A row behind the first \<open>n\<close> of the newest has at least \<open>n\<close> newer rows.\<close>

lemma surplus_newer:
  assumes w: "wf_db d" and j: "j \<in> set (drop n (newest_first (retention_filter (Some st) None None) d))"
  shows "j_status j = st \<and> n \<le> newer_rows (history d) j"
proof -
  let ?F = "retention_filter (Some st) None None" and ?f = "\<lambda>j. (- finish_time j, - j_id j)"
  let ?L = "newest_first ?F d"
  have "inj_on j_id (set (filter ?F (history d)))" "distinct (filter ?F (history d))"
    using wf_history_ids [OF w] by (auto simp: distinct_map inj_on_def)
  then have L: "set ?L = {j \<in> set (history d). ?F j}" "distinct (map j_id ?L)" "sorted (map ?f ?L)"
    by (auto simp: newest_first_def distinct_map)
  have d: "distinct ?L" using L(2) by (simp add: distinct_map)
  obtain i where i: "i < length ?L" "n \<le> i" "j = ?L ! i"
    using j by (auto simp: in_set_conv_nth) (metis add.commute le_add1 less_diff_conv)
  have newer: "(finish_time j, j_id j) < (finish_time k, j_id k)" if k: "k \<in> set (take n ?L)" for k
  proof -
    obtain m where m: "m < n" "m < length ?L" "k = ?L ! m" using k by (auto simp: in_set_conv_nth)
    have "?f k \<le> ?f j" using sorted_nth_mono [OF L(3), of m i] m i by simp
    moreover have "j_id k \<noteq> j_id j"
      using nth_eq_iff_index_eq [OF L(2), of m i] m i by auto
    ultimately show ?thesis by auto
  qed
  have st: "j_status j = st" using j L(1) in_set_dropD by (fastforce simp: retention_filter_def)
  have "n = length (take n ?L)" using i by simp
  also have "\<dots> = card (set (take n ?L))" using d by (simp add: distinct_card)
  also have "\<dots> \<le> card (set (filter (\<lambda>k. j_status k = j_status j \<and> (finish_time j, j_id j) < (finish_time k, j_id k))
      (history d)))"
  proof (rule card_mono [OF finite_set], rule subsetI)
    fix k assume k: "k \<in> set (take n ?L)"
    then have "k \<in> set (history d)" "j_status k = st" using L(1) by (auto simp: retention_filter_def dest: in_set_takeD)
    then show "k \<in> set (filter (\<lambda>k. j_status k = j_status j \<and> (finish_time j, j_id j) < (finish_time k, j_id k)) (history d))"
      using newer [OF k] st by simp
  qed
  also have "\<dots> \<le> newer_rows (history d) j" unfolding newer_rows_def rowcount_def by (rule card_length)
  finally show ?thesis using st by simp
qed

lemma age_pass_prunes:
  assumes "wf_db d"
  shows "prunes_by (removable cfg now (history d)) d (age_pass cfg dry now status d)"
proof (cases "rc_max_age cfg status")
  case None
  then show ?thesis by (simp add: age_pass_def prunes_by_refl)
next
  case (Some n)
  let ?F = "retention_filter (Some status) None (if n = 0 then None else Some (now - days n))"
  have "pruned {j. ?F j} d (fst (cleanup_loop ?F 0 d))" using cleanup_loop_exact [OF assms] by blast
  moreover have "{j. ?F j} \<subseteq> {j. removable cfg now (history d) j}"
    using Some by (auto simp: retention_filter_def removable_def split: if_splits)
  ultimately have "prunes_by (removable cfg now (history d)) d (fst (cleanup_loop ?F 0 d))"
    unfolding prunes_by_def by blast
  then show ?thesis
    using Some prunes_by_refl
    by (simp add: age_pass_def cleanup_old_jobs_def cleanup_jobs_def Let_def split_beta)
qed

lemma count_pass_prunes:
  assumes "wf_db d"
  shows "prunes_by (removable cfg now (history d)) d (count_pass cfg dry status d)"
proof (cases "rc_max_count cfg status")
  case None
  then show ?thesis by (simp add: count_pass_def prunes_by_refl)
next
  case (Some n)
  let ?F = "retention_filter (Some status) None None"
  have "pruned (set (drop n (newest_first ?F d))) d (fst (count_loop ?F n 0 d))"
    using count_loop_exact [OF assms] by blast
  moreover have "set (drop n (newest_first ?F d)) \<subseteq> {j. removable cfg now (history d) j}"
    using Some surplus_newer [OF assms] by (auto simp: removable_def)
  ultimately have "prunes_by (removable cfg now (history d)) d (fst (count_loop ?F n 0 d))"
    unfolding prunes_by_def by blast
  then show ?thesis
    using Some prunes_by_refl
    by (simp add: count_pass_def cleanup_by_count_def cleanup_jobs_by_count_def Let_def split_beta)
qed

lemma ttl_prunes:
  assumes "wf_db d"
  shows "prunes_by (removable cfg now (history d)) d (fst (cleanup_per_job_ttl dry now d))"
proof -
  obtain d1 m where 1: "ttl_pass dry [Success] j_result_ttl now (d, 0) = (d1, m)" by fastforce
  obtain d2 k where 2: "ttl_pass dry [Failed, Archived] j_failure_ttl now (d1, m) = (d2, k)" by fastforce
  note p1 = ttl_pass_exact(1) [OF assms 1]
  note p2 = ttl_pass_exact(1) [OF pruned_wf [OF assms p1] 2]
  have "(if dry then {} else {j. ttl_over [Success] j_result_ttl now j}) \<subseteq> {j. removable cfg now (history d) j}"
    "(if dry then {} else {j. ttl_over [Failed, Archived] j_failure_ttl now j}) \<subseteq> {j. removable cfg now (history d) j}"
    by (auto simp: removable_def)
  then have "prunes_by (removable cfg now (history d)) d d1" "prunes_by (removable cfg now (history d)) d1 d2"
    unfolding prunes_by_def using p1 p2 by blast+
  then show ?thesis using prunes_by_trans by (simp add: cleanup_per_job_ttl_def 1 2)
qed

text \<open>A later pass judges by a smaller history, so what it removes was removable before.\<close>

lemma prunes_then:
  assumes "prunes_by (removable cfg now (history d)) d e" "prunes_by (removable cfg now (history e)) e f"
  shows "prunes_by (removable cfg now (history d)) d f"
proof (rule prunes_by_trans [OF assms(1)])
  obtain R where R: "pruned R d e" using assms(1) by (auto simp: prunes_by_def)
  obtain S where S: "S \<subseteq> {j. removable cfg now (history e) j}" "pruned S e f"
    using assms(2) by (auto simp: prunes_by_def)
  have "S \<subseteq> {j. removable cfg now (history d) j}" using S(1) removable_mono [OF R] by auto
  then show "prunes_by (removable cfg now (history d)) e f" using S(2) unfolding prunes_by_def by blast
qed

lemma auto_cleanup_prunes:
  assumes "wf_db d"
  shows "prunes_by (removable cfg now (history d)) d (fst (auto_cleanup cfg pm dry now (d, g)))"
proof (cases pm)
  case True
  then show ?thesis by (simp add: auto_cleanup_def Let_def prunes_by_refl)
next
  case False
  define d1 where "d1 = age_pass cfg dry now Failed (age_pass cfg dry now Success d)"
  define d2 where "d2 = count_pass cfg dry Failed (count_pass cfg dry Success d1)"
  have 1: "prunes_by (removable cfg now (history d)) d d1"
    unfolding d1_def
    by (rule prunes_then [OF age_pass_prunes [OF assms] age_pass_prunes [OF prunes_by_wf [OF age_pass_prunes [OF assms] assms]]])
  then have w1: "wf_db d1" using prunes_by_wf assms by blast
  have 2: "prunes_by (removable cfg now (history d1)) d1 d2"
    unfolding d2_def
    by (rule prunes_then [OF count_pass_prunes [OF w1] count_pass_prunes [OF prunes_by_wf [OF count_pass_prunes [OF w1] w1]]])
  then have "wf_db d2" using prunes_by_wf w1 by blast
  then have "prunes_by (removable cfg now (history d2)) d2 (fst (cleanup_per_job_ttl dry now d2))"
    by (rule ttl_prunes)
  then show ?thesis
    using prunes_then [OF prunes_then [OF 1 2]] False
    by (simp add: auto_cleanup_def Let_def d1_def d2_def)
qed

lemma newest_retry_settled:
  "j_status dep \<noteq> Failed \<Longrightarrow> j_status dep \<noteq> Archived \<Longrightarrow> newest_retry l n dep = dep"
  by (cases n) simp_all

lemma job_all_history:
  assumes "wf_db d" "h \<in> set (history d)" "x \<in> set (job_all d)" "j_id x = j_id h"
  shows "x = h"
proof -
  have "x \<in> set (history d)"
  proof (rule ccontr)
    assume "x \<notin> set (history d)"
    then obtain j where j: "j \<in> set (live d)" "x \<in> set (live_view d j)"
      using assms(3) by (auto simp: job_all_def)
    then have "j_id x = j_id j" by (auto simp: live_view_def overlay_running_def split: if_splits)
    then show False using wf_live_not_history [OF assms(1) j(1)] assms(2,4) by (metis imageI)
  qed
  then show ?thesis using distinct_key_unique [OF wf_history_ids [OF assms(1)]] assms(2,4) by blast
qed

lemma anywhere_history:
  assumes "wf_db d" "h \<in> set (history d)"
  shows "anywhere_by_id d (j_id h) = Some h"
proof -
  have "h \<in> set (rev (job_all d))" using assms(2) by (simp add: job_all_def)
  then obtain x where "anywhere_by_id d (j_id h) = Some x"
    unfolding anywhere_by_id_def using find_isSome [of "\<lambda>j. j_id j = j_id h" "rev (job_all d)"] by auto
  moreover from this have "x \<in> set (job_all d)" "j_id x = j_id h"
    unfolding anywhere_by_id_def by (auto dest: find_mem)
  ultimately show ?thesis using job_all_history [OF assms] by simp
qed

section \<open>Properties\<close>

text \<open>C33: the batched retention by age is one deletion. Whatever the filters and however many batches it
  takes, the loop ends with exactly the matching history rows gone (and the finished attempts of their
  jobs), every other row and table as before, and it reports the number of rows it deleted.\<close>

theorem cleanup_jobs_exact:
  assumes "wf_db d" "cleanup_jobs status max_age queue_name False now d = (d', stats)"
  shows "let cutoff = (case max_age of None \<Rightarrow> None | Some n \<Rightarrow> if n = 0 then None else Some (now - days n));
      F = retention_filter status queue_name cutoff
    in pruned {j. F j} d d' \<and> cl_deleted stats = rowcount F (history d)"
  using assms(2) cleanup_loop_exact [OF assms(1)]
  by (auto simp: cleanup_jobs_def Let_def split_beta)

text \<open>Retention by count keeps exactly the newest finished jobs: of the rows the filter selects, the
  \<open>keep\<close> newest by finish time and id survive, whatever the number of batches; rows the filter does
  not select survive too.\<close>

theorem cleanup_by_count_keeps_newest:
  assumes w: "wf_db d" and c: "cleanup_jobs_by_count status keep queue_name False d = (d', stats)"
  shows "let F = retention_filter status queue_name None in
    history d' = filter (\<lambda>j. F j \<longrightarrow> j \<in> set (take keep (newest_first F d))) (history d) \<and>
    live d' = live d \<and> cl_deleted stats = rowcount F (history d) - keep"
proof -
  let ?F = "retention_filter status queue_name None"
  let ?L = "newest_first ?F d"
  have p: "pruned (set (drop keep ?L)) d d'" and n: "cl_deleted stats = rowcount ?F (history d) - keep"
    using c count_loop_exact [OF w, of keep ?F 0] by (auto simp: cleanup_jobs_by_count_def Let_def split_beta)
  have L: "set ?L = {j \<in> set (history d). ?F j}" "distinct ?L"
    using sorted_rows [OF w] by (simp_all add: newest_first_def)
  have "j \<notin> set (drop keep ?L) \<longleftrightarrow> (?F j \<longrightarrow> j \<in> set (take keep ?L))" if "j \<in> set (history d)" for j
  proof -
    have "set (take keep ?L) \<inter> set (drop keep ?L) = {}" using L(2) by (simp add: set_take_disj_set_drop_if_distinct)
    moreover have "set (take keep ?L) \<union> set (drop keep ?L) = set ?L"
      by (simp only: set_append [symmetric] append_take_drop_id)
    ultimately show ?thesis using L(1) that by blast
  qed
  then have "delete_where (\<lambda>j. j \<in> set (drop keep ?L)) (history d) =
      filter (\<lambda>j. ?F j \<longrightarrow> j \<in> set (take keep ?L)) (history d)"
    unfolding delete_where_def by (rule filter_cong [OF refl])
  then show ?thesis using pruned_frame [OF p] n by (simp add: Let_def)
qed

text \<open>A history of three finished jobs, two successes and a failure.\<close>

definition sample_history :: db where
  "sample_history = empty_db\<lparr>history :=
     [sample_job\<lparr>j_id := 1, j_status := Success, j_finished_at := Some 10, j_result_ttl := Some 5\<rparr>,
      sample_job\<lparr>j_id := 2, j_status := Failed, j_finished_at := Some 20\<rparr>,
      sample_job\<lparr>j_id := 3, j_status := Success, j_finished_at := Some 30\<rparr>]\<rparr>"

lemma sample_history_wf: "wf_db sample_history"
  by (simp add: sample_history_def wf_db_def wf_jobs_def wf_attempts_def wf_ready_def empty_db_def
      is_terminal_def)

theorem cleanup_jobs_exact_witness:
  "cl_deleted (snd (cleanup_jobs (Some Success) None None False 1000 sample_history)) = 2"
  using cleanup_jobs_exact [OF sample_history_wf, of "Some Success" None None 1000]
  by (cases "cleanup_jobs (Some Success) None None False 1000 sample_history")
    (simp add: Let_def retention_filter_def sample_history_def)

theorem cleanup_by_count_keeps_newest_witness:
  "map j_id (history (fst (cleanup_jobs_by_count (Some Success) 1 None False sample_history))) = [2, 3]"
proof -
  obtain d' stats where c: "cleanup_jobs_by_count (Some Success) 1 None False sample_history = (d', stats)"
    by fastforce
  have "map j_id (filter (\<lambda>j. retention_filter (Some Success) None None j \<longrightarrow>
      j \<in> set (take 1 (newest_first (retention_filter (Some Success) None None) sample_history)))
      (history sample_history)) = [2, 3]"
    by (simp add: newest_first_def retention_filter_def sample_history_def finish_time_def
        sample_job_def queued_job_def)
  then show ?thesis
    unfolding c using cleanup_by_count_keeps_newest [OF sample_history_wf c] by (simp add: Let_def)
qed

text \<open>C32: automatic cleanup never touches work. It changes nothing but the history and the finished
  attempts of the jobs it removes: queued and running jobs, their ready and blocked entries, staged
  jobs and open attempts stay as they are, the integrity of the database is kept, a dry run changes
  nothing, and a history row disappears only because it is past the age limit of its status, because the
  history holds at least as many newer rows of its status as the count limit keeps, or by its own TTL.\<close>

theorem auto_cleanup_keeps_work:
  assumes w: "wf_db d" and c: "auto_cleanup cfg partition_mode dry_run now (d, g) = (d', g')"
  shows "wf_db d' \<and> live d' = live d \<and> ready d' = ready d \<and> blocked d' = blocked d \<and> staged d' = staged d \<and>
    filter (\<lambda>a. a_finished_at a = None) (attempts d') = filter (\<lambda>a. a_finished_at a = None) (attempts d) \<and>
    (dry_run \<longrightarrow> d' = d) \<and>
    (\<forall>j\<in>set (history d). j \<in> set (history d') \<or> removable cfg now (history d) j)"
proof -
  have p: "prunes_by (removable cfg now (history d)) d d'"
    using auto_cleanup_prunes [OF w, of cfg now partition_mode dry_run g] c by simp
  then obtain R where R: "R \<subseteq> {j. removable cfg now (history d) j}" "pruned R d d'" by (auto simp: prunes_by_def)
  have dry: "age_pass cfg True now st e = e" "count_pass cfg True st e = e"
    "fst (cleanup_per_job_ttl True now e) = e" for st e
    by (simp_all add: age_pass_def count_pass_def cleanup_old_jobs_def cleanup_by_count_def
        cleanup_jobs_def cleanup_jobs_by_count_def cleanup_per_job_ttl_def ttl_pass_def Let_def
        split_beta split: option.splits)
  have "dry_run \<Longrightarrow> d' = d" using c by (auto simp: auto_cleanup_def Let_def dry split: if_splits)
  then show ?thesis
    using prunes_by_wf [OF p w] pruned_frame [OF R(2)] pruned_open [OF R(2)] R(1) by auto
qed

definition sample_retention :: retention_config where
  "sample_retention = \<lparr>rc_max_age = (\<lambda>_. None), rc_max_count = (\<lambda>s. if s = Success then Some 1 else None),
     rc_registries = [], rc_auto_registries = True\<rparr>"

theorem auto_cleanup_keeps_work_witness:
  "live (fst (auto_cleanup sample_retention False False 1000 (sample_history, []))) = live sample_history \<and>
   sample_job\<lparr>j_id := 2, j_status := Failed, j_finished_at := Some 20\<rparr> \<in>
     set (history (fst (auto_cleanup sample_retention False False 1000 (sample_history, []))))"
proof -
  obtain d' g' where c: "auto_cleanup sample_retention False False 1000 (sample_history, []) = (d', g')"
    by fastforce
  have "\<not> removable sample_retention 1000 (history sample_history)
      (sample_job\<lparr>j_id := 2, j_status := Failed, j_finished_at := Some 20\<rparr>)"
    by (simp add: removable_def sample_retention_def ttl_over_def sample_job_def queued_job_def
        sample_spec_def)
  moreover have "sample_job\<lparr>j_id := 2, j_status := Failed, j_finished_at := Some 20\<rparr> \<in> set (history sample_history)"
    by (simp add: sample_history_def)
  ultimately show ?thesis using auto_cleanup_keeps_work [OF sample_history_wf c] by (auto simp: c)
qed

text \<open>A dependency must not be pruned before its dependents have looked at it. A job that waits for a
  successful job may run; once the TTL of that job's result has elapsed and the cleanup has removed it
  from the history, the same dependency counts as failed, and the waiting job will be failed.\<close>

theorem pruned_dependency_fails:
  assumes w: "wf_db d" and h: "h \<in> set (history d)" "j_status h = Success"
    and ttl: "ttl_over [Success] j_result_ttl now h"
    and dep: "dependency_ids j = [j_id h]"
    and c: "cleanup_per_job_ttl False now d = (d', n)"
  shows "judge_in d (dependency_ids j) = Met \<and> judge_in d' (dependency_ids j) = Dep_failed [j_id h]"
proof -
  have met: "judge_in d [j_id h] = Met"
    using anywhere_history [OF w h(1)] h(2) newest_retry_settled [of h]
    by (simp add: judge_in_def judge_dependencies_def)
  obtain d1 m where 1: "ttl_pass False [Success] j_result_ttl now (d, 0) = (d1, m)" by fastforce
  have 2: "ttl_pass False [Failed, Archived] j_failure_ttl now (d1, m) = (d', n)"
    using c by (simp add: cleanup_per_job_ttl_def 1)
  note p1 = ttl_pass_exact(1) [OF w 1] and p2 = ttl_pass_exact(1) [OF pruned_wf [OF w ttl_pass_exact(1) [OF w 1]] 2]
  have live: "live d' = live d" and hist: "set (history d') \<subseteq> set (history d) - {h}"
    using pruned_frame [OF p1] pruned_frame [OF p2] ttl by auto
  have "x \<noteq> j_id h" if "x \<in> j_id ` set (job_all d')" for x
  proof
    assume "x = j_id h"
    with that obtain y where y: "y \<in> set (job_all d')" "j_id y = j_id h" by auto
    show False
    proof (cases "y \<in> set (history d')")
      case True
      then show False
        using hist y(2) distinct_key_unique [OF wf_history_ids [OF w]] h(1) by blast
    next
      case False
      then obtain i where i: "i \<in> set (live d)" "y \<in> set (live_view d' i)"
        using y(1) live by (auto simp: job_all_def)
      then have "j_id i = j_id h" using y(2) by (auto simp: live_view_def overlay_running_def split: if_splits)
      then show False using wf_live_not_history [OF w i(1)] h(1) by (metis imageI)
    qed
  qed
  then have "anywhere_by_id d' (j_id h) = None"
    unfolding anywhere_by_id_def by (auto simp: find_none)
  then have "judge_in d' [j_id h] = Dep_failed [j_id h]" by (simp add: judge_in_def judge_dependencies_def)
  with met show ?thesis by (simp add: dep)
qed

theorem pruned_dependency_fails_witness:
  "judge_in (fst (cleanup_per_job_ttl False 60000000 sample_history)) [1] = Dep_failed [1]"
proof -
  let ?h = "sample_job\<lparr>j_id := 1, j_status := Success, j_finished_at := Some 10, j_result_ttl := Some 5\<rparr>"
  let ?j = "sample_job\<lparr>j_dependencies := [JInt 1]\<rparr>"
  obtain d' n where c: "cleanup_per_job_ttl False 60000000 sample_history = (d', n)" by fastforce
  have "?h \<in> set (history sample_history)" "ttl_over [Success] j_result_ttl 60000000 ?h"
    "dependency_ids ?j = [j_id ?h]"
    by (simp_all add: sample_history_def ttl_over_def finish_time_def seconds_def dependency_ids_def)
  from pruned_dependency_fails [OF sample_history_wf this(1) _ this(2,3) c]
  show ?thesis by (simp add: c dependency_ids_def)
qed

end
