(* ===== verification/Sq_Canvas.thy ===== *)
theory Sq_Canvas
  imports Sq_System
begin

text \<open>
  Workflows and result handles: \<^verbatim>\<open>apply_async_job\<close>, \<^verbatim>\<open>AsyncResult\<close> and \<^verbatim>\<open>revoke\<close> of
  \<^verbatim>\<open>core/result.py\<close>, and \<^verbatim>\<open>Signature\<close>, \<^verbatim>\<open>group\<close>, \<^verbatim>\<open>chain\<close> and \<^verbatim>\<open>chord\<close> of \<^verbatim>\<open>core/canvas.py\<close>, with the
  task wrappers of the standalone mode (\<^verbatim>\<open>core/job.py\<close>). A workflow creates all its jobs up front;
  \<open>canvas\<close> is the state that the submissions thread: the database and the number of jobs created so
  far, which selects the id drawn and the time read for the next one. The JSON text of results is not
  modelled.

  An option that a signature overrides is given by its value; overriding one with \<^verbatim>\<open>None\<close> is not
  modelled.
\<close>

section \<open>Submitting a job\<close>

datatype expiry = Exp_seconds rat | Exp_at timestamp

record apply_options =
  ao_queue :: "string option"
  ao_priority :: "int option"
  ao_max_retries :: "int option"
  ao_retry_backoff :: "rat option"
  ao_allow_parallel :: "bool option"
  ao_timeout :: "int option"
  ao_tags :: "string list option"
  ao_countdown :: "rat option"
  ao_eta :: "timestamp option"
  ao_expires :: "expiry option"

record enqueue_config =
  ec_queue :: string
  ec_priority :: int
  ec_max_retries :: int
  ec_retry_backoff :: rat

definition default_to :: "'a option \<Rightarrow> 'a \<Rightarrow> 'a" where
  "default_to v dflt = (case v of Some x \<Rightarrow> x | None \<Rightarrow> dflt)"

definition nonempty :: "'a list option \<Rightarrow> 'a list option" where
  "nonempty xs = (if xs = Some [] then None else xs)"

definition apply_async_job ::
  "enqueue_config \<Rightarrow> timestamp \<Rightarrow> string \<Rightarrow> json \<Rightarrow> apply_options \<Rightarrow> job_id list option \<Rightarrow> json option \<Rightarrow>
     job_spec result" where
  "apply_async_job cfg now task_path payload opts dependencies meta =
     (if ao_countdown opts \<noteq> None \<and> ao_eta opts \<noteq> None then Inl ValueError
      else
        (let scheduled_at = (case ao_eta opts of
                               Some t \<Rightarrow> Some t
                             | None \<Rightarrow> map_option (\<lambda>c. now + timedelta_us c) (ao_countdown opts));
             ttl = map_option (\<lambda>x. max 1 (trunc_rat (case x of
                                   Exp_seconds q \<Rightarrow> q | Exp_at t \<Rightarrow> total_seconds (t - now))))
                     (ao_expires opts)
         in Inr
           \<lparr>s_task_path = task_path, s_kwargs = payload,
            s_queue_name = default_to (ao_queue opts) (ec_queue cfg),
            s_priority = default_to (ao_priority opts) (ec_priority cfg),
            s_scheduled_at = scheduled_at,
            s_max_retries = default_to (ao_max_retries opts) (ec_max_retries cfg),
            s_retry_backoff = default_to (ao_retry_backoff opts) (ec_retry_backoff cfg),
            s_allow_parallel = default_to (ao_allow_parallel opts) False,
            s_timeout_seconds = ao_timeout opts, s_retry_count = None,
            s_scheduled_task_id = None, s_job_name = None, s_retry_intervals = None,
            s_meta = meta, s_dependencies = map_option (map JInt) (nonempty dependencies),
            s_on_success_path = [], s_on_failure_path = [], s_ttl = ttl, s_result_ttl = None,
            s_failure_ttl = None, s_parent_job_id = None, s_tags = nonempty (ao_tags opts)\<rparr>))"

section \<open>Signatures\<close>

record task =
  tk_path :: string
  tk_defaults :: apply_options

record sig =
  sg_task :: task
  sg_args :: "json list"
  sg_kwargs :: "(string \<times> json) list"
  sg_options :: apply_options
  sg_immutable :: bool

definition or_else :: "'a option \<Rightarrow> 'a option \<Rightarrow> 'a option" where
  "or_else own dflt = (case own of Some x \<Rightarrow> Some x | None \<Rightarrow> dflt)"

text \<open>\<^verbatim>\<open>{**a, **b}\<close> on options: what \<open>b\<close> gives wins.\<close>

definition merge_options :: "apply_options \<Rightarrow> apply_options \<Rightarrow> apply_options" where
  "merge_options a b =
     \<lparr>ao_queue = or_else (ao_queue b) (ao_queue a),
      ao_priority = or_else (ao_priority b) (ao_priority a),
      ao_max_retries = or_else (ao_max_retries b) (ao_max_retries a),
      ao_retry_backoff = or_else (ao_retry_backoff b) (ao_retry_backoff a),
      ao_allow_parallel = or_else (ao_allow_parallel b) (ao_allow_parallel a),
      ao_timeout = or_else (ao_timeout b) (ao_timeout a),
      ao_tags = or_else (ao_tags b) (ao_tags a),
      ao_countdown = or_else (ao_countdown b) (ao_countdown a),
      ao_eta = or_else (ao_eta b) (ao_eta a),
      ao_expires = or_else (ao_expires b) (ao_expires a)\<rparr>"

definition set_options :: "apply_options \<Rightarrow> sig \<Rightarrow> sig" where
  "set_options options s = s\<lparr>sg_options := merge_options (sg_options s) options\<rparr>"

fun dict_set :: "string \<Rightarrow> json \<Rightarrow> (string \<times> json) list \<Rightarrow> (string \<times> json) list" where
  "dict_set k v [] = [(k, v)]"
| "dict_set k v ((k', v') # kvs) = (if k = k' then (k, v) # kvs else (k', v') # dict_set k v kvs)"

definition step_payload :: "sig \<Rightarrow> json" where
  "step_payload s =
     JObj (if sg_args s = [] then sg_kwargs s
           else dict_set ''_args'' (JArr (sg_args s)) (sg_kwargs s))"

datatype pass_mode = Pass_single | Pass_list

fun mode_name :: "pass_mode \<Rightarrow> string" where
  "mode_name Pass_single = ''single''"
| "mode_name Pass_list = ''list''"

definition step_meta :: "sig \<Rightarrow> pass_mode option \<Rightarrow> json option" where
  "step_meta s pass_result =
     (case pass_result of
        None \<Rightarrow> None
      | Some m \<Rightarrow>
          if sg_immutable s then None
          else Some (JObj [(''canvas'', JObj [(''pass_result'', JStr (mode_name m))])]))"

definition step_spec ::
  "enqueue_config \<Rightarrow> timestamp \<Rightarrow> sig \<Rightarrow> job_id list option \<Rightarrow> pass_mode option \<Rightarrow> job_spec result" where
  "step_spec cfg now s depends_on pass_result =
     apply_async_job cfg now (tk_path (sg_task s)) (step_payload s)
       (merge_options (tk_defaults (sg_task s)) (sg_options s)) depends_on (step_meta s pass_result)"

section \<open>Workflows\<close>

record canvas =
  cv_db :: db
  cv_made :: nat

record canvas_env =
  ca_config :: enqueue_config
  ca_partitioned :: bool
  ca_threshold_days :: int
  ca_slot :: "nat \<Rightarrow> nat"
  ca_id :: "nat \<Rightarrow> job_id"
  ca_now :: "nat \<Rightarrow> timestamp"

definition sig_enqueue ::
  "canvas_env \<Rightarrow> job_id list option \<Rightarrow> pass_mode option \<Rightarrow> sig \<Rightarrow> canvas \<Rightarrow> canvas \<times> job_id result" where
  "sig_enqueue env depends_on pass_result s c =
     (let k = cv_made c in
      case step_spec (ca_config env) (ca_now env k) s depends_on pass_result of
        Inl e \<Rightarrow> (c, Inl e)
      | Inr spec \<Rightarrow>
          (\<lparr>cv_db = fst (create_job (ca_partitioned env) (ca_threshold_days env) (ca_slot env k)
                          (ca_now env k) (ca_id env k) spec (cv_db c)),
            cv_made = k + 1\<rparr>, Inr (ca_id env k)))"

fun group_enqueue ::
  "canvas_env \<Rightarrow> job_id list option \<Rightarrow> pass_mode option \<Rightarrow> sig list \<Rightarrow> canvas \<Rightarrow> canvas \<times> job_id list result" where
  "group_enqueue env depends_on pass_result [] c = (c, Inr [])"
| "group_enqueue env depends_on pass_result (s # ss) c =
     (case sig_enqueue env depends_on pass_result s c of
        (c1, Inl e) \<Rightarrow> (c1, Inl e)
      | (c1, Inr i) \<Rightarrow>
          (case group_enqueue env depends_on pass_result ss c1 of
             (c2, Inl e) \<Rightarrow> (c2, Inl e)
           | (c2, Inr is) \<Rightarrow> (c2, Inr (i # is))))"

datatype step = One sig | Group "sig list"

datatype handle = H_one job_id | H_group "job_id list"

fun handle_ids :: "handle \<Rightarrow> job_id list" where
  "handle_ids (H_one i) = [i]"
| "handle_ids (H_group is) = is"

fun step_enqueue ::
  "canvas_env \<Rightarrow> job_id list option \<Rightarrow> pass_mode option \<Rightarrow> step \<Rightarrow> canvas \<Rightarrow> canvas \<times> handle result" where
  "step_enqueue env depends_on pass_result (One s) c =
     (case sig_enqueue env depends_on pass_result s c of
        (c1, Inl e) \<Rightarrow> (c1, Inl e) | (c1, Inr i) \<Rightarrow> (c1, Inr (H_one i)))"
| "step_enqueue env depends_on pass_result (Group ss) c =
     (case group_enqueue env depends_on pass_result ss c of
        (c1, Inl e) \<Rightarrow> (c1, Inl e) | (c1, Inr is) \<Rightarrow> (c1, Inr (H_group is)))"

text \<open>\<^verbatim>\<open>chain(...)\<close>: a step that is itself a chain is spliced in.\<close>

datatype piece = Step step | Chain "step list"

fun piece_steps :: "piece \<Rightarrow> step list" where
  "piece_steps (Step s) = [s]"
| "piece_steps (Chain ss) = ss"

definition chain_steps :: "piece list \<Rightarrow> step list result" where
  "chain_steps pieces =
     (let flat = concat (map piece_steps pieces) in if flat = [] then Inl ValueError else Inr flat)"

text \<open>The loop of \<^verbatim>\<open>chain.apply_async\<close>; \<open>prev\<close> is the handle of the step before.\<close>

fun chain_loop ::
  "canvas_env \<Rightarrow> handle option \<Rightarrow> step list \<Rightarrow> canvas \<Rightarrow> canvas \<times> handle option result" where
  "chain_loop env prev [] c = (c, Inr prev)"
| "chain_loop env prev (s # ss) c =
     (let prev_ids = map_option handle_ids prev;
          mode = (case prev of
                    None \<Rightarrow> None
                  | Some (H_one _) \<Rightarrow> Some Pass_single
                  | Some (H_group is) \<Rightarrow> if is = [] then None else Some Pass_list)
      in case step_enqueue env prev_ids mode s c of
           (c1, Inl e) \<Rightarrow> (c1, Inl e)
         | (c1, Inr h) \<Rightarrow> chain_loop env (Some h) ss c1)"

definition chain_apply_async :: "canvas_env \<Rightarrow> piece list \<Rightarrow> canvas \<Rightarrow> canvas \<times> handle option result" where
  "chain_apply_async env pieces c =
     (case chain_steps pieces of Inl e \<Rightarrow> (c, Inl e) | Inr steps \<Rightarrow> chain_loop env None steps c)"

definition chord_apply_async :: "canvas_env \<Rightarrow> sig list \<Rightarrow> sig \<Rightarrow> canvas \<Rightarrow> canvas \<times> job_id result" where
  "chord_apply_async env header body c =
     (case group_enqueue env None None header c of
        (c1, Inl e) \<Rightarrow> (c1, Inl e)
      | (c1, Inr is) \<Rightarrow> sig_enqueue env (Some is) (Some Pass_list) body c1)"

section \<open>Result handles\<close>

datatype state = PENDING | STARTED | SUCCESS | FAILURE | RETRY | REVOKED

fun STATE_MAP :: "job_status \<Rightarrow> state" where
  "STATE_MAP Queued = PENDING"
| "STATE_MAP Running = STARTED"
| "STATE_MAP Shutting_down = STARTED"
| "STATE_MAP Success = SUCCESS"
| "STATE_MAP Failed = FAILURE"
| "STATE_MAP Archived = RETRY"

definition REVOKED_ERRORS :: "string list" where
  "REVOKED_ERRORS = [''Cancelled by user'', ''Revoked by user'']"

definition MAX_RETRY_HOPS :: nat where
  "MAX_RETRY_HOPS = 1000"

text \<open>The \<^verbatim>\<open>while\<close> loop of \<^verbatim>\<open>AsyncResult._job\<close>; \<open>left\<close> is \<open>MAX_RETRY_HOPS - hops\<close>.\<close>

fun follow_retries :: "(job_id \<Rightarrow> job option) \<Rightarrow> nat \<Rightarrow> job \<Rightarrow> job" where
  "follow_retries latest left j =
     (if j_status j = Archived \<or> j_status j = Failed then
        (case latest (j_id j) of
           None \<Rightarrow> j
         | Some child \<Rightarrow> (case left of 0 \<Rightarrow> j | Suc n \<Rightarrow> follow_retries latest n child))
      else j)"

declare follow_retries.simps [simp del]

text \<open>A staged job has no status: it counts as queued, like an unknown id.\<close>

definition async_job :: "job_id \<Rightarrow> db \<Rightarrow> job option" where
  "async_job jid d =
     (case get_job_by_id jid d of
        F_live j \<Rightarrow> Some (follow_retries (latest_retry d) MAX_RETRY_HOPS j)
      | F_history j \<Rightarrow> Some (follow_retries (latest_retry d) MAX_RETRY_HOPS j)
      | F_other \<Rightarrow> None)"

definition async_state :: "job_id \<Rightarrow> db \<Rightarrow> state" where
  "async_state jid d =
     (case async_job jid d of
        None \<Rightarrow> PENDING
      | Some j \<Rightarrow>
          if j_status j = Failed \<and> j_error j \<in> set REVOKED_ERRORS then REVOKED
          else STATE_MAP (j_status j))"

definition async_ready :: "job_id \<Rightarrow> db \<Rightarrow> bool" where
  "async_ready jid d \<longleftrightarrow> async_state jid d \<in> {SUCCESS, FAILURE, REVOKED}"

definition async_output :: "job_id \<Rightarrow> db \<Rightarrow> string option" where
  "async_output jid d =
     (case async_job jid d of
        Some j \<Rightarrow> if j_status j = Success then Some (j_output j) else None
      | None \<Rightarrow> None)"

definition async_error :: "job_id \<Rightarrow> db \<Rightarrow> string option" where
  "async_error jid d =
     (case async_job jid d of
        Some j \<Rightarrow> if j_status j = Failed then Some (j_error j) else None
      | None \<Rightarrow> None)"

definition revoke :: "bool \<Rightarrow> nat \<Rightarrow> timestamp \<Rightarrow> job_id \<Rightarrow> bool \<Rightarrow> db \<Rightarrow> db \<times> bool result" where
  "revoke partitioned slot now jid terminate d =
     (case cancel_job partitioned slot now jid d of
        (d', Inl e) \<Rightarrow> (d', Inl e)
      | (d', Inr True) \<Rightarrow> (d', Inr True)
      | (d', Inr False) \<Rightarrow>
          if terminate then (let (d2, ok) = request_job_revoke jid d' in (d2, Inr ok))
          else (d', Inr False))"

definition async_revoke :: "bool \<Rightarrow> nat \<Rightarrow> timestamp \<Rightarrow> job_id \<Rightarrow> bool \<Rightarrow> db \<Rightarrow> db \<times> bool result" where
  "async_revoke partitioned slot now jid terminate d =
     revoke partitioned slot now (case async_job jid d of Some j \<Rightarrow> j_id j | None \<Rightarrow> jid) terminate d"

text \<open>\<^verbatim>\<open>GroupResult\<close>.\<close>

definition group_ready :: "job_id list \<Rightarrow> db \<Rightarrow> bool" where
  "group_ready is d \<longleftrightarrow> (\<forall>i\<in>set is. async_ready i d)"

definition group_successful :: "job_id list \<Rightarrow> db \<Rightarrow> bool" where
  "group_successful is d \<longleftrightarrow> (\<forall>i\<in>set is. async_state i d = SUCCESS)"

definition group_failed :: "job_id list \<Rightarrow> db \<Rightarrow> bool" where
  "group_failed is d \<longleftrightarrow> (\<exists>i\<in>set is. async_state i d = FAILURE)"

section \<open>What a workflow stores\<close>

text \<open>The task and the dependencies stored for a job, queued or staged.\<close>

fun payload_dependencies :: "payload \<Rightarrow> json list" where
  "payload_dependencies (Full_payload kw p) = p_dependencies p"
| "payload_dependencies (Legacy_payload kw) = []"

definition stored :: "job_id \<Rightarrow> db \<Rightarrow> (string \<times> json list) option" where
  "stored x d =
     (case live_by_id x d of
        Some j \<Rightarrow> Some (j_task_path j, j_dependencies j)
      | None \<Rightarrow> map_option (\<lambda>s. (sj_task_path s, payload_dependencies (sj_payload s)))
                  (List.find (\<lambda>s. sj_id s = x) (staged d)))"

definition deps_json :: "job_id list option \<Rightarrow> json list" where
  "deps_json deps = (case deps of None \<Rightarrow> [] | Some is \<Rightarrow> map JInt is)"

lemma find_append: "List.find P (xs @ ys) = (case List.find P xs of None \<Rightarrow> List.find P ys | Some x \<Rightarrow> Some x)"
  by (induction xs) auto

lemma create_unnamed:
  assumes "s_job_name s = None" "live_by_id k d = None" "\<forall>r\<in>set (staged d). sj_id r \<noteq> k"
  shows "stored x (fst (create_job part days slot now k s d)) =
    (if x = k then Some (s_task_path s, or_empty (s_dependencies s)) else stored x d)"
proof -
  have none: "List.find (\<lambda>r. sj_id r = k) (staged d) = None" using assms(3) by (simp add: find_none)
  show ?thesis
    using assms(1,2) none
    by (auto simp: create_job_def Let_def stored_def live_by_id_def find_append
        staging_row_def queued_job_def add_job_def split: option.splits)
qed

definition fresh_from :: "canvas_env \<Rightarrow> canvas \<Rightarrow> bool" where
  "fresh_from env c \<longleftrightarrow> inj (ca_id env) \<and>
     (\<forall>k\<ge>cv_made c. live_by_id (ca_id env k) (cv_db c) = None \<and>
        (\<forall>r\<in>set (staged (cv_db c)). sj_id r \<noteq> ca_id env k))"

definition keeps_stored :: "db \<Rightarrow> db \<Rightarrow> bool" where
  "keeps_stored d d' \<longleftrightarrow> (\<forall>x. stored x d \<noteq> None \<longrightarrow> stored x d' = stored x d)"

lemma keeps_stored_trans: "keeps_stored d e \<Longrightarrow> keeps_stored e f \<Longrightarrow> keeps_stored d f"
  by (auto simp: keeps_stored_def)

lemma keeps_storedD: "keeps_stored d d' \<Longrightarrow> stored x d = Some y \<Longrightarrow> stored x d' = Some y"
  by (simp add: keeps_stored_def)

lemma fresh_create:
  assumes f: "fresh_from env c" and k: "k = cv_made c" and nm: "s_job_name s = None"
  shows "fresh_from env \<lparr>cv_db = fst (create_job part days slot now (ca_id env k) s (cv_db c)),
    cv_made = k + 1\<rparr>"
proof -
  have neq: "(ca_id env k = ca_id env i) = False" if "i \<ge> k + 1" for i
    using f that by (auto simp: fresh_from_def dest: injD)
  show ?thesis
    using f k nm neq
    by (auto simp: fresh_from_def create_job_def Let_def live_by_id_def find_append staging_row_def
        add_job_def split: option.splits)
qed

abbreviation sig_path :: "sig \<Rightarrow> string" where
  "sig_path s \<equiv> tk_path (sg_task s)"

lemma sig_enqueue_stores:
  assumes f: "fresh_from env c" and e: "sig_enqueue env deps mode s c = (c', Inr i)"
  shows "fresh_from env c' \<and> keeps_stored (cv_db c) (cv_db c') \<and> i = ca_id env (cv_made c) \<and>
    cv_made c' = cv_made c + 1 \<and> stored i (cv_db c') = Some (sig_path s, deps_json deps)"
proof -
  let ?k = "cv_made c"
  obtain spec where spec: "step_spec (ca_config env) (ca_now env ?k) s deps mode = Inr spec"
    and i: "i = ca_id env ?k"
    and c': "c' = \<lparr>cv_db = fst (create_job (ca_partitioned env) (ca_threshold_days env) (ca_slot env ?k)
         (ca_now env ?k) (ca_id env ?k) spec (cv_db c)), cv_made = ?k + 1\<rparr>"
    using e by (auto simp: sig_enqueue_def Let_def split: sum.splits)
  have sd: "s_job_name spec = None" "or_empty (s_dependencies spec) = deps_json deps" "s_task_path spec = sig_path s"
    using spec by (auto simp: step_spec_def apply_async_job_def Let_def or_empty_def deps_json_def
        nonempty_def split: if_splits option.splits)
  have fk: "live_by_id (ca_id env ?k) (cv_db c) = None" "\<forall>r\<in>set (staged (cv_db c)). sj_id r \<noteq> ca_id env ?k"
    using f by (auto simp: fresh_from_def)
  note st = create_unnamed [OF sd(1) fk]
  have none: "stored (ca_id env ?k) (cv_db c) = None"
    using fk by (simp add: stored_def find_none)
  show ?thesis
    using fresh_create [OF f refl sd(1)] st sd(2,3) none by (auto simp: c' i keeps_stored_def)
qed

text \<open>The jobs of a step, the \<open>m\<close>-th created and following, are stored with the tasks of the step and the given
  dependencies.\<close>

definition stored_step :: "canvas_env \<Rightarrow> db \<Rightarrow> job_id list option \<Rightarrow> nat \<Rightarrow> sig list \<Rightarrow> bool" where
  "stored_step env d deps m sigs \<longleftrightarrow>
     (\<forall>k<length sigs. stored (ca_id env (m + k)) d = Some (sig_path (sigs ! k), deps_json deps))"

lemma stored_step_keeps: "stored_step env d deps m sigs \<Longrightarrow> keeps_stored d d' \<Longrightarrow> stored_step env d' deps m sigs"
  by (simp add: stored_step_def keeps_storedD)

lemma group_enqueue_stores:
  assumes "fresh_from env c" "group_enqueue env deps mode ss c = (c', Inr ids)"
  shows "fresh_from env c' \<and> keeps_stored (cv_db c) (cv_db c') \<and> cv_made c' = cv_made c + length ss \<and>
    ids = map (ca_id env) [cv_made c..<cv_made c + length ss] \<and> stored_step env (cv_db c') deps (cv_made c) ss"
  using assms
proof (induction ss arbitrary: c ids)
  case Nil
  then show ?case by (simp add: keeps_stored_def stored_step_def)
next
  case (Cons s ss)
  obtain c1 i js where 1: "sig_enqueue env deps mode s c = (c1, Inr i)"
    and 2: "group_enqueue env deps mode ss c1 = (c', Inr js)" and ids: "ids = i # js"
    using Cons.prems(2) by (auto split: prod.splits sum.splits)
  note a = sig_enqueue_stores [OF Cons.prems(1) 1]
  then have b: "fresh_from env c' \<and> keeps_stored (cv_db c1) (cv_db c') \<and> cv_made c' = cv_made c1 + length ss \<and>
      js = map (ca_id env) [cv_made c1..<cv_made c1 + length ss] \<and> stored_step env (cv_db c') deps (cv_made c1) ss"
    using Cons.IH [OF _ 2] by blast
  have "stored_step env (cv_db c') deps (cv_made c) (s # ss)"
    unfolding stored_step_def
  proof (intro allI impI)
    fix k assume "k < length (s # ss)"
    then show "stored (ca_id env (cv_made c + k)) (cv_db c') = Some (sig_path ((s # ss) ! k), deps_json deps)"
      using a b keeps_storedD by (cases k) (auto simp: stored_step_def)
  qed
  moreover have "keeps_stored (cv_db c) (cv_db c')" using a b keeps_stored_trans by blast
  moreover have "[cv_made c..<cv_made c + length (s # ss)] = cv_made c # [cv_made c1..<cv_made c1 + length ss]"
    using a by (simp add: upt_conv_Cons del: upt_Suc)
  ultimately show ?case using a b by (simp add: ids del: upt_Suc)
qed

fun step_sigs :: "step \<Rightarrow> sig list" where
  "step_sigs (One s) = [s]"
| "step_sigs (Group ss) = ss"

text \<open>The ids of the jobs of a step whose first job is the \<open>m\<close>-th created.\<close>

definition step_ids :: "canvas_env \<Rightarrow> nat \<Rightarrow> step \<Rightarrow> job_id list" where
  "step_ids env m s = map (ca_id env) [m..<m + length (step_sigs s)]"

lemma step_enqueue_stores:
  assumes "fresh_from env c" "step_enqueue env deps mode s c = (c', Inr h)"
  shows "fresh_from env c' \<and> keeps_stored (cv_db c) (cv_db c') \<and> cv_made c' = cv_made c + length (step_sigs s) \<and>
    handle_ids h = step_ids env (cv_made c) s \<and> stored_step env (cv_db c') deps (cv_made c) (step_sigs s)"
proof (cases s)
  case (One sg)
  then obtain i where "sig_enqueue env deps mode sg c = (c', Inr i)" "h = H_one i"
    using assms(2) by (auto split: prod.splits sum.splits)
  then show ?thesis
    using One sig_enqueue_stores [OF assms(1)] by (auto simp: step_ids_def stored_step_def)
next
  case (Group ss)
  then obtain ids where "group_enqueue env deps mode ss c = (c', Inr ids)" "h = H_group ids"
    using assms(2) by (auto split: prod.splits sum.splits)
  then show ?thesis using Group group_enqueue_stores [OF assms(1)] by (auto simp: step_ids_def)
qed

text \<open>A chain as it should be stored: every job of a step names exactly the jobs of the step before as its
  dependencies. The ids are those drawn for the jobs, in the order of the chain from the \<open>m\<close>-th on.\<close>

fun stored_chain :: "canvas_env \<Rightarrow> db \<Rightarrow> job_id list option \<Rightarrow> nat \<Rightarrow> step list \<Rightarrow> bool" where
  "stored_chain env d prev m [] = True"
| "stored_chain env d prev m (s # ss) =
     (stored_step env d prev m (step_sigs s) \<and>
      stored_chain env d (Some (step_ids env m s)) (m + length (step_sigs s)) ss)"

definition chain_size :: "step list \<Rightarrow> nat" where
  "chain_size ss = sum_list (map (\<lambda>s. length (step_sigs s)) ss)"

lemma chain_loop_stores:
  assumes "fresh_from env c" "chain_loop env prev ss c = (c', Inr r)"
  shows "stored_chain env (cv_db c') (map_option handle_ids prev) (cv_made c) ss \<and>
    keeps_stored (cv_db c) (cv_db c') \<and> cv_made c' = cv_made c + chain_size ss \<and>
    (ss \<noteq> [] \<longrightarrow> map_option handle_ids r =
       Some (step_ids env (cv_made c' - length (step_sigs (last ss))) (last ss)))"
  using assms
proof (induction env prev ss c rule: chain_loop.induct)
  case (1 env prev c)
  then show ?case by (simp add: keeps_stored_def chain_size_def)
next
  case (2 env prev s ss c)
  let ?mode = "case prev of None \<Rightarrow> None | Some (H_one _) \<Rightarrow> Some Pass_single
      | Some (H_group is) \<Rightarrow> if is = [] then None else Some Pass_list"
  obtain c1 h where st: "step_enqueue env (map_option handle_ids prev) ?mode s c = (c1, Inr h)"
    and rest: "chain_loop env (Some h) ss c1 = (c', Inr r)"
    using "2.prems"(2) by (auto simp: Let_def split: prod.splits sum.splits)
  note a = step_enqueue_stores [OF "2.prems"(1) st]
  have b: "stored_chain env (cv_db c') (Some (handle_ids h)) (cv_made c1) ss"
      "keeps_stored (cv_db c1) (cv_db c')" "cv_made c' = cv_made c1 + chain_size ss"
      "ss \<noteq> [] \<longrightarrow> map_option handle_ids r =
         Some (step_ids env (cv_made c' - length (step_sigs (last ss))) (last ss))"
    using "2.IH" [OF refl refl st [symmetric] refl _ rest] a by auto
  have "ss = [] \<Longrightarrow> r = Some h" using rest by simp
  moreover have "stored_step env (cv_db c') (map_option handle_ids prev) (cv_made c) (step_sigs s)"
    using a b(2) stored_step_keeps by blast
  moreover have "keeps_stored (cv_db c) (cv_db c')" using a b(2) keeps_stored_trans by blast
  ultimately show ?case using a b by (cases "ss = []") (simp_all add: chain_size_def)
qed

section \<open>Handles and dependencies agree\<close>

lemma follow_newest: "follow_retries latest n j = newest_retry latest n j"
proof (induction n arbitrary: j)
  case 0
  show ?case by (subst follow_retries.simps) (simp split: option.splits)
next
  case (Suc n)
  show ?case
    by (subst follow_retries.simps) (auto simp: Suc split: option.splits)
qed

lemma live_view_find:
  assumes w: "wf_db d" and j: "j \<in> set (live d)"
  shows "live_view d j = [if j_status j = Queued then overlay_running (open_attempt_in d (j_id j)) j else j]"
proof (cases "j_status j = Queued \<and> is_running d (j_id j)")
  case False
  then have "j_status j = Queued \<Longrightarrow> open_attempt_in d (j_id j) = None"
    by (auto simp: open_attempt_in_def is_running_def filter_empty_conv)
  then show ?thesis using False by (auto simp: live_view_def overlay_running_def)
next
  case True
  then obtain a where a: "a \<in> set (attempts d)" "open_for (j_id j) a" by (auto simp: is_running_def)
  have "rowcount (open_for (j_id j)) (attempts d) = 1"
  proof -
    have "rowcount (open_for (j_id j)) (attempts d) \<le> 1" using w by (simp add: wf_db_def wf_attempts_def)
    moreover have "0 < rowcount (open_for (j_id j)) (attempts d)" using a by (auto simp: rowcount_pos)
    ultimately show ?thesis by linarith
  qed
  then obtain b where b: "filter (open_for (j_id j)) (attempts d) = [b]"
    unfolding rowcount_def by (metis One_nat_def length_0_conv length_Suc_conv)
  then have "open_attempt_in d (j_id j) = Some b" by (simp add: open_attempt_in_def first_by_def)
  then show ?thesis using True b by (simp add: live_view_def)
qed

lemma anywhere_found:
  assumes w: "wf_db d"
  shows "anywhere_by_id d x =
    (case get_job_by_id x d of F_live j \<Rightarrow> Some j | F_history j \<Rightarrow> Some j | F_other \<Rightarrow> None)"
proof -
  have id: "j_id y = j_id j" if "y \<in> set (live_view d j)" for y j
    using that by (auto simp: live_view_def overlay_running_def split: if_splits)
  have unique: "anywhere_by_id d x = Some y" if y: "y \<in> set (job_all d)" "j_id y = x"
      "\<And>z. z \<in> set (job_all d) \<Longrightarrow> j_id z = x \<Longrightarrow> z = y" for y
  proof -
    have "\<exists>r\<in>set (rev (job_all d)). j_id r = x" using y(1,2) by auto
    then obtain z where z: "List.find (\<lambda>j. j_id j = x) (rev (job_all d)) = Some z"
      using find_isSome [of "\<lambda>j. j_id j = x" "rev (job_all d)", THEN iffD2] by blast
    then have "z \<in> set (job_all d)" "j_id z = x" using find_mem [OF z] by auto
    then show ?thesis using z y(3) by (simp add: anywhere_by_id_def)
  qed
  show ?thesis
  proof (cases "live_by_id x d")
    case (Some j)
    then have j: "j \<in> set (live d)" "j_id j = x" using live_by_id_Some [OF w] by auto
    let ?y = "if j_status j = Queued then overlay_running (open_attempt_in d x) j else j"
    have view: "live_view d j = [?y]" using live_view_find [OF w j(1)] j(2) by simp
    have "anywhere_by_id d x = Some ?y"
    proof (rule unique)
      have "?y \<in> set (live_view d j)" by (simp add: view)
      then show "?y \<in> set (job_all d)" using j(1) unfolding job_all_def by auto
      show "j_id ?y = x" using id [of ?y j] view j(2) by simp
      fix z assume z: "z \<in> set (job_all d)" "j_id z = x"
      then have "z \<notin> set (history d)" using wf_live_not_history [OF w j(1)] j(2) by force
      then obtain i where i: "i \<in> set (live d)" "z \<in> set (live_view d i)"
        using z(1) by (auto simp: job_all_def)
      then have "i = j" using id z(2) j wf_live_unique [OF w] by metis
      then show "z = ?y" using i view by simp
    qed
    then show ?thesis using Some by (simp add: get_job_by_id_def)
  next
    case None
    then have nl: "\<forall>j\<in>set (live d). j_id j \<noteq> x" by (simp add: live_by_id_None)
    then have hist: "z \<in> set (history d)" if "z \<in> set (job_all d)" "j_id z = x" for z
      using that id by (fastforce simp: job_all_def)
    show ?thesis
    proof (cases "history_by_id d x")
      case (Some h)
      then have h: "h \<in> set (history d)" "j_id h = x" unfolding history_by_id_def by (auto dest: find_mem)
      have "distinct (map j_id (history d))" using w by (simp add: wf_db_def wf_jobs_def)
      then have "anywhere_by_id d x = Some h"
        using unique [of h] h hist distinct_key_unique by (metis UnCI job_all_def set_append)
      then show ?thesis using None Some by (simp add: get_job_by_id_def)
    next
      case n: None
      then have "\<forall>z\<in>set (history d). j_id z \<noteq> x" unfolding history_by_id_def by (simp add: find_none)
      then have "anywhere_by_id d x = None"
        using hist unfolding anywhere_by_id_def by (auto simp: find_none)
      then show ?thesis using None n by (simp add: get_job_by_id_def)
    qed
  qed
qed

lemma judge_one:
  "judge_in d [x] =
     (case anywhere_by_id d x of
        None \<Rightarrow> Dep_failed [x]
      | Some j0 \<Rightarrow>
          (let j = newest_retry (latest_retry d) MAX_CHAIN_HOPS j0 in
           if j_status j = Success then Met
           else if j_status j = Failed \<and> \<not> is_retry_pending (Some (j_termination_reason j))
           then Dep_failed [j_id j] else Pending))"
  by (simp add: judge_in_def judge_dependencies_def Let_def split: option.splits)

lemma claim_ok_runnable:
  assumes "claim_decision now j d = Inr (d', D_ok)"
  shows "\<not> ttl_expired now j \<and> judge_in d (dependency_ids j) = Met"
  using assms
  by (auto simp: claim_decision_def Let_def judge_in_def judge_dependencies_def
      split: if_splits sum.splits dependency_verdict.splits)

lemma claimed_runnable:
  assumes "claim_iteration env queues now st = Inr (st', It_claimed j h)"
  obtains e r where "next_entry queues now (cs_cursor st) (ce_locked env) (cs_db st) = Some e"
    "job_under_entry e (cs_db st) = Some r" "j = as_running r h" "j_status r = Queued"
    "\<not> ttl_expired now r" "judge_in (cs_db st) (dependency_ids r) = Met"
    "tag_limited env now r (cs_db st) = Inr False"
proof -
  obtain e where e: "next_entry queues now (cs_cursor st) (ce_locked env) (cs_db st) = Some e"
    and ex: "examine env now e (st\<lparr>cs_cursor := Some (cursor_of e)\<rparr>) = Inr (st', It_claimed j h)"
    using assms by (auto simp: claim_iteration_def split: option.splits)
  from ex show thesis
  proof (cases rule: examine_cases)
    case (taken r d2)
    have "j = as_running r h"
      by (rule take_entry_cases [of env now e r "cs_db st"]) (use taken(5) in auto)
    then show thesis using that [OF e] taken claim_ok_runnable [OF taken(3)] by simp
  qed auto
qed

section \<open>Properties\<close>

text \<open>C34: a chain is stored in order. When its submission returns, one job was created for every signature, in
  the order of the chain; every job of a step is stored, queued or staged, with the task of its signature
  and with exactly the jobs created for the step before as its dependencies (none for the first step,
  and none after an empty group); and the caller gets the handle of the last step.\<close>

theorem chain_stored_in_order:
  assumes f: "fresh_from env c" and a: "chain_apply_async env pieces c = (c', Inr r)"
    and ss: "ss = concat (map piece_steps pieces)"
  shows "stored_chain env (cv_db c') None (cv_made c) ss \<and> ss \<noteq> [] \<and>
    cv_made c' = cv_made c + sum_list (map (\<lambda>s. length (step_sigs s)) ss) \<and>
    map_option handle_ids r = Some (step_ids env (cv_made c' - length (step_sigs (last ss))) (last ss))"
proof -
  have "ss \<noteq> []" "chain_loop env None ss c = (c', Inr r)"
    using a by (auto simp: chain_apply_async_def chain_steps_def Let_def ss split: if_splits)
  then show ?thesis
    using chain_loop_stores [OF f, of None ss c' r] by (simp only: chain_size_def option.map(1) simp_thms)
qed

definition no_options :: apply_options where
  "no_options = \<lparr>ao_queue = None, ao_priority = None, ao_max_retries = None, ao_retry_backoff = None,
     ao_allow_parallel = None, ao_timeout = None, ao_tags = None, ao_countdown = None, ao_eta = None,
     ao_expires = None\<rparr>"

definition sample_sig :: "string \<Rightarrow> timestamp option \<Rightarrow> sig" where
  "sample_sig path eta = \<lparr>sg_task = \<lparr>tk_path = path, tk_defaults = no_options\<rparr>, sg_args = [], sg_kwargs = [],
     sg_options = no_options\<lparr>ao_eta := eta\<rparr>, sg_immutable = False\<rparr>"

definition sample_canvas_env :: canvas_env where
  "sample_canvas_env = \<lparr>ca_config = \<lparr>ec_queue = ''default'', ec_priority = 0, ec_max_retries = 0,
     ec_retry_backoff = 1\<rparr>, ca_partitioned = True, ca_threshold_days = 1, ca_slot = (\<lambda>_. 0),
     ca_id = int, ca_now = int\<rparr>"

definition sample_canvas :: canvas where
  "sample_canvas = \<lparr>cv_db = \<lparr>live = [], history = [], ready = [], blocked = [], attempts = [], workers = [],
     staged = [], next_attempt = 1\<rparr>, cv_made = 0\<rparr>"

lemma sample_canvas_fresh: "fresh_from sample_canvas_env sample_canvas"
  by (simp add: fresh_from_def sample_canvas_env_def sample_canvas_def live_by_id_def)

theorem chain_stored_in_order_witness:
  "\<exists>c' r. chain_apply_async sample_canvas_env
      [Step (One (sample_sig ''a'' None)), Step (Group [sample_sig ''b'' None, sample_sig ''c'' None])]
      sample_canvas = (c', Inr r) \<and> stored 2 (cv_db c') = Some (''c'', [JInt 0]) \<and>
      map_option handle_ids r = Some [1, 2]"
proof -
  let ?ss = "[One (sample_sig ''a'' None), Group [sample_sig ''b'' None, sample_sig ''c'' None]]"
  have "case snd (chain_apply_async sample_canvas_env (map Step ?ss) sample_canvas) of Inr _ \<Rightarrow> True | Inl _ \<Rightarrow> False"
    by code_simp
  then obtain c' r where r: "chain_apply_async sample_canvas_env (map Step ?ss) sample_canvas = (c', Inr r)"
    by (cases "chain_apply_async sample_canvas_env (map Step ?ss) sample_canvas") (auto split: sum.splits)
  from chain_stored_in_order [OF sample_canvas_fresh r, of ?ss]
  have "stored 2 (cv_db c') = Some (''c'', [JInt 0]) \<and> map_option handle_ids r = Some [1, 2]"
    by (auto simp add: stored_step_def step_ids_def sample_canvas_def sample_canvas_env_def sample_sig_def deps_json_def
        All_less_Suc numeral_2_eq_2 upt_rec)
  then show ?thesis using r by auto
qed

text \<open>A handle reports success exactly when the job's dependents may start: both follow the retries
  of a failed job to the newest one and accept nothing but success.\<close>

theorem async_success_iff_met:
  assumes "wf_db d"
  shows "async_state x d = SUCCESS \<longleftrightarrow> judge_in d [x] = Met"
proof -
  have hops: "MAX_RETRY_HOPS = MAX_CHAIN_HOPS" by (simp add: MAX_RETRY_HOPS_def MAX_CHAIN_HOPS_def)
  have st: "STATE_MAP st = SUCCESS \<longleftrightarrow> st = Success" for st by (cases st) simp_all
  show ?thesis
    using anywhere_found [OF assms, of x]
    by (auto simp: async_state_def async_job_def judge_one follow_newest hops st Let_def
        split: found.splits option.splits if_splits)
qed

theorem async_success_iff_met_witness:
  "async_state 7 sample_db \<noteq> SUCCESS \<and> judge_in sample_db [7] \<noteq> Met"
proof -
  have "async_state 7 sample_db \<noteq> SUCCESS"
    by (simp add: async_state_def async_job_def get_job_by_id_def live_by_id_def sample_db_eval
        sample_job_def open_attempt_in_def first_by_def empty_db_def overlay_running_def
        follow_retries.simps)
  then show ?thesis using async_success_iff_met [OF reachable_wf [OF sample_reachable], of 7] by simp
qed

text \<open>A job must not depend on a staged job. While a dependency waits in the staging table its handle
  says pending, but the dependency is judged as missing, that is as failed: the first claim that
  examines the dependent fails it for good instead of letting it wait.\<close>

theorem staged_dependency_fails:
  assumes w: "wf_db d" and s: "s \<in> set (staged d)" and j: "j \<in> set (live d)" "j_status j = Queued"
    and dep: "dependency_ids j = [sj_id s]" and ttl: "\<not> ttl_expired now j" and idle: "\<not> is_running d (j_id j)"
  shows "async_state (sj_id s) d = PENDING \<and>
    (\<exists>d'. claim_decision now j d = Inr (d', D_failed) \<and>
       (\<exists>h\<in>set (history d'). j_id h = j_id j \<and> j_status h = Failed \<and>
          j_termination_reason h = ''dependency_failed''))"
proof -
  let ?x = "sj_id s"
  have nl: "live_by_id ?x d = None" "history_by_id d ?x = None"
    using w s by (auto simp: wf_db_def wf_jobs_def live_by_id_def history_by_id_def find_none)
  then have other: "get_job_by_id ?x d = F_other" by (simp add: get_job_by_id_def)
  have judge: "judge_in d (dependency_ids j) = Dep_failed [?x]"
    using anywhere_found [OF w, of ?x] other by (simp add: dep judge_one)
  let ?d1 = "delete_blocked [j_id j] (fst (delete_ready [j_id j] d))"
  let ?e = "''Dependencies failed: '' @ show_int_list [?x]"
  let ?v = "no_values\<lparr>v_error := Some ?e, v_termination_reason := Some ''dependency_failed'',
     v_finished_at := Some now\<rparr>"
  let ?fe = "no_fences\<lparr>fe_created_at := Some (j_created_at j), fe_status := Some [Queued], fe_idle := True\<rparr>"
  have "safe d ?d1" by (rule safe_trans [OF delete_ready_safe delete_blocked_safe])
  then have w1: "wf_db ?d1" using w by (simp add: safe_def)
  have row: "live_by_id (j_id j) ?d1 = Some j"
    using live_by_id_Some [OF w] j(1) by (simp add: live_by_id_def)
  have mv: "move_where ?d1 (j_id j) ?fe j" using j idle by (simp add: move_where_def no_fences_def)
  let ?d' = "moved_to_history now (j_id j) Failed ?v j ?d1"
  have fq: "fail_queued now j ?e ''dependency_failed'' d = Inr (?d', True)"
    using row mv by (simp add: fail_queued_def finish_in_cases [OF w1] Let_def)
  have cd: "claim_decision now j d = Inr (?d', D_failed)"
    using ttl judge fq by (simp add: claim_decision_def dep)
  have "j_termination_reason (history_row ?d1 now Failed ?v j) = ''dependency_failed''"
    by (simp add: history_row_def set_ran_def set_values_def override_def no_values_def split: option.splits)
  then have "\<exists>h\<in>set (history ?d'). j_id h = j_id j \<and> j_status h = Failed \<and>
      j_termination_reason h = ''dependency_failed''" by auto
  moreover have "async_state ?x d = PENDING" by (simp add: async_state_def async_job_def other)
  ultimately show ?thesis using cd by blast
qed

text \<open>The chain of a step that starts in three days and one that follows it.\<close>

definition staged_chain :: db where
  "staged_chain = cv_db (fst (chain_apply_async sample_canvas_env
     [Step (One (sample_sig ''a'' (Some (seconds 259200)))), Step (One (sample_sig ''b'' None))] sample_canvas))"

lemma staged_chain_rows:
  "map sj_id (staged staged_chain) = [0]" "map j_id (live staged_chain) = [1]"
  "map j_status (live staged_chain) = [Queued]" "map j_ttl (live staged_chain) = [None]"
  "map dependency_ids (live staged_chain) = [[0]]" "history staged_chain = []"
  "attempts staged_chain = []" "map ready_key (ready staged_chain) = [(0, 1)]"
  by code_simp+

theorem staged_dependency_fails_witness:
  "\<exists>j s d'. live staged_chain = [j] \<and> staged staged_chain = [s] \<and>
     claim_decision 5 j staged_chain = Inr (d', D_failed)"
proof -
  obtain j where j: "live staged_chain = [j]" using staged_chain_rows(2) by (auto simp: map_eq_Cons_conv)
  obtain s where s: "staged staged_chain = [s]" using staged_chain_rows(1) by (auto simp: map_eq_Cons_conv)
  have "\<forall>e\<in>set (ready staged_chain). r_slot e \<in> set SLOTS"
    using staged_chain_rows(8) by (auto simp: map_eq_Cons_conv ready_key_def SLOTS_def)
  then have "wf_db staged_chain"
    using staged_chain_rows by (simp add: wf_db_def wf_jobs_def wf_attempts_def wf_ready_def)
  from staged_dependency_fails [OF this, of s j 5] show ?thesis
    using staged_chain_rows j s by (auto simp: ttl_expired_def is_running_def)
qed

end
