(* ===== verification/Sq_Resilience.thy ===== *)
theory Sq_Resilience
  imports Sq_Crontab
begin

text \<open>
  Connection loss and transient errors (\<^verbatim>\<open>core/db_resilience.py\<close>): the classification of exceptions,
  the retry decorator, the reconnect delay and the PostgreSQL session settings.

  Exception objects live in a store: \<open>heap i\<close> is the object with \<^verbatim>\<open>id\<close> \<open>i\<close>, with what the code asks of
  it (attributes, class membership, text) and its \<^verbatim>\<open>__cause__\<close> and \<^verbatim>\<open>__context__\<close>. Chains may be cyclic.
  The drivers' classes are absent when the package is not installed; then no object is of them.
  A regular expression of the module is a search for its literal text, ignoring case; \<^verbatim>\<open>.*\<close> matches any
  text without a newline.
\<close>

section \<open>Searching\<close>

definition contains :: "string \<Rightarrow> string \<Rightarrow> bool" where
  "contains pat s \<longleftrightarrow> (\<exists>i\<in>set [0..<length s + 1]. startswith (lower (drop i s)) (lower pat))"

text \<open>\<^verbatim>\<open>a.*b\<close>: after an occurrence of \<open>a\<close>, \<open>b\<close> begins before the next newline.\<close>

definition contains_gap :: "string \<Rightarrow> string \<Rightarrow> string \<Rightarrow> bool" where
  "contains_gap a b s \<longleftrightarrow>
     (\<exists>i\<in>set [0..<length s + 1].
        startswith (lower (drop i s)) (lower a) \<and>
        (let rest = drop (i + length a) s
         in \<exists>k\<in>set [0..<length rest + 1].
              CHR 0x0A \<notin> set (take k rest) \<and> startswith (lower (drop k rest)) (lower b)))"

definition is_transient_error :: "string \<Rightarrow> bool" where
  "is_transient_error msg \<longleftrightarrow>
     (\<exists>p\<in>set [''database is locked'', ''disk I/O error'', ''server closed the connection'',
               ''connection already closed'', ''deadlock detected'', ''could not serialize access'',
               ''canceling statement due to statement timeout'',
               ''SSL connection has been closed unexpectedly'', ''could not connect to server''].
        contains p msg)"

definition lost_text :: "string \<Rightarrow> bool" where
  "lost_text msg \<longleftrightarrow>
     (\<exists>p\<in>set [''server closed the connection'', ''connection already closed'',
               ''the connection is lost'', ''the connection is closed'',
               ''SSL connection has been closed unexpectedly'', ''could not connect to server'',
               ''connection refused'', ''terminating connection due to administrator command'',
               ''consuming input failed'', ''no connection to the server'',
               ''connection reset by peer'', ''broken pipe''].
        contains p msg) \<or>
     contains_gap ''connection to server '' '' failed'' msg"

section \<open>The exception chain\<close>

record exc_obj =
  eo_invalidated :: bool
  eo_django_interface :: bool
  eo_psycopg_interface :: bool
  eo_psycopg_operational :: bool
  eo_sqlstate :: "string option"
  eo_text :: string
  eo_cause :: "nat option"
  eo_context :: "nat option"

type_synonym exc_heap = "(nat \<times> exc_obj) list"

definition CONNECTION_LOST_SQLSTATES :: "string list" where
  "CONNECTION_LOST_SQLSTATES = [''57P01'', ''57P02'', ''57P03'']"

definition signals_loss :: "exc_obj \<Rightarrow> bool" where
  "signals_loss e \<longleftrightarrow>
     eo_invalidated e \<or> eo_django_interface e \<or> eo_psycopg_interface e \<or>
     (eo_psycopg_operational e \<and>
        (case eo_sqlstate e of
           None \<Rightarrow> True
         | Some st \<Rightarrow> startswith st ''08'' \<or> st \<in> set CONNECTION_LOST_SQLSTATES)) \<or>
     lost_text (eo_text e)"

text \<open>\<^verbatim>\<open>exc.__cause__ or exc.__context__\<close>; an exception object is never false.\<close>

definition next_exc :: "exc_obj \<Rightarrow> nat option" where
  "next_exc e = (case eo_cause e of Some c \<Rightarrow> Some c | None \<Rightarrow> eo_context e)"

lemma map_of_fst: "map_of xs i = Some e \<Longrightarrow> i \<in> fst ` set xs"
  by (metis map_of_eq_None_iff option.distinct(1))

function lost_loop :: "exc_heap \<Rightarrow> nat option \<Rightarrow> nat list \<Rightarrow> bool" where
  "lost_loop heap exc seen =
     (case exc of
        None \<Rightarrow> False
      | Some i \<Rightarrow>
          if i \<in> set seen then False
          else case map_of heap i of
                 None \<Rightarrow> False
               | Some e \<Rightarrow> signals_loss e \<or> lost_loop heap (next_exc e) (i # seen))"
  by pat_completeness auto
termination
proof (relation "measure (\<lambda>(heap, exc, seen). card (fst ` set heap - set seen))", goal_cases)
  case (2 heap exc seen i e)
  then have "i \<in> fst ` set heap - set seen" using map_of_fst by fastforce
  then have "card (fst ` set heap - set (i # seen)) < card (fst ` set heap - set seen)"
    by (intro psubset_card_mono) auto
  then show ?case by simp
qed simp

declare lost_loop.simps [simp del]

definition is_connection_lost :: "exc_heap \<Rightarrow> nat option \<Rightarrow> bool" where
  "is_connection_lost heap exc = lost_loop heap exc []"

section \<open>Retrying a call\<close>

text \<open>
  What a call of the decorated function does: it returns, or raises an exception with a text that is of
  one of the retryable database classes or of another class. \<open>call k\<close> is the call number \<open>k\<close>.
\<close>

datatype 'a call_end = Returns 'a | Raises_db string | Raises_other string

datatype 'a decorated = Got 'a | Raised string

text \<open>The loop over \<^verbatim>\<open>range(max_retries + 1)\<close>: the result and the delays slept so far.\<close>

function retry_loop ::
  "nat \<Rightarrow> rat \<Rightarrow> (nat \<Rightarrow> 'a call_end) \<Rightarrow> nat \<Rightarrow> 'a decorated \<times> rat list" where
  "retry_loop max_retries backoff_base call attempt =
     (case call attempt of
        Returns x \<Rightarrow> (Got x, [])
      | Raises_other msg \<Rightarrow> (Raised msg, [])
      | Raises_db msg \<Rightarrow>
          if attempt \<ge> max_retries \<or> \<not> is_transient_error msg then (Raised msg, [])
          else case retry_loop max_retries backoff_base call (attempt + 1) of
                 (r, ds) \<Rightarrow> (r, backoff_base * 2 ^ attempt # ds))"
  by pat_completeness auto
termination
  by (relation "measure (\<lambda>(m, b, c, a). m - a)") auto

declare retry_loop.simps [simp del]

definition retry_on_db_error :: "nat \<Rightarrow> rat \<Rightarrow> (nat \<Rightarrow> 'a call_end) \<Rightarrow> 'a decorated \<times> rat list" where
  "retry_on_db_error max_retries backoff_base call = retry_loop max_retries backoff_base call 0"

section \<open>Delays and session settings\<close>

text \<open>\<open>rng\<close> is the draw of \<^verbatim>\<open>random.random\<close>, at least 0 and less than 1.\<close>

definition reconnect_delay :: "nat \<Rightarrow> rat \<Rightarrow> rat \<Rightarrow> rat \<Rightarrow> rat" where
  "reconnect_delay attempt base cap rng = rng * min cap (base * 2 ^ min attempt 32)"

text \<open>The settings as \<^verbatim>\<open>float(...)\<close> reads them; \<open>None\<close> when that raises.\<close>

definition reconnect_backoff_settings :: "rat option \<Rightarrow> rat option \<Rightarrow> rat \<times> rat" where
  "reconnect_backoff_settings base cap =
     (case (base, cap) of
        (Some b, Some c) \<Rightarrow> (max b (1 / 1000), max c (1 / 1000))
      | _ \<Rightarrow> (1 / 2, 30))"

text \<open>\<open>get key\<close> is \<^verbatim>\<open>int(get_setting(key, default))\<close>, \<open>None\<close> when that raises.\<close>

definition pg_session_settings :: "(string \<Rightarrow> int option) \<Rightarrow> bool \<Rightarrow> (string \<times> int) list" where
  "pg_session_settings get for_job_child =
     (let wanted = (''lock_timeout'', ''PG_LOCK_TIMEOUT_MS'', 10000) #
            (if for_job_child then []
             else [(''statement_timeout'', ''PG_STATEMENT_TIMEOUT_MS'', 30000),
                   (''idle_in_transaction_session_timeout'', ''PG_IDLE_IN_TRANSACTION_TIMEOUT_MS'', 60000)]);
          valued = map (\<lambda>(guc, key, d). (guc, case get key of Some v \<Rightarrow> v | None \<Rightarrow> d)) wanted
      in filter (\<lambda>(_, v). v > 0) valued)"

section \<open>Laws\<close>

definition follows :: "exc_heap \<Rightarrow> nat \<Rightarrow> nat \<Rightarrow> bool" where
  "follows heap i j \<longleftrightarrow> (\<exists>e. map_of heap i = Some e \<and> next_exc e = Some j)"

definition lossy :: "exc_heap \<Rightarrow> nat \<Rightarrow> bool" where
  "lossy heap i \<longleftrightarrow> (\<exists>e. map_of heap i = Some e \<and> signals_loss e)"

text \<open>What has been seen is harmless, and its chain stays inside it until it reaches the current object.\<close>

definition harmless :: "exc_heap \<Rightarrow> nat list \<Rightarrow> nat option \<Rightarrow> bool" where
  "harmless heap seen exc \<longleftrightarrow>
     (\<forall>s\<in>set seen. \<not> lossy heap s \<and> (\<forall>n. follows heap s n \<longrightarrow> n \<in> set seen \<or> exc = Some n))"

lemma harmless_closed:
  assumes "harmless heap seen (Some i)" "i \<in> set seen" "(follows heap)\<^sup>*\<^sup>* i j"
  shows "\<not> lossy heap j"
proof -
  have "j \<in> set seen"
    using assms(3,2) by (induction rule: rtranclp_induct) (use assms(1,2) in \<open>auto simp: harmless_def\<close>)
  then show ?thesis using assms(1) by (simp add: harmless_def)
qed

lemma lost_loop_iff:
  "harmless heap seen exc \<Longrightarrow>
     lost_loop heap exc seen \<longleftrightarrow> (\<exists>i j. exc = Some i \<and> (follows heap)\<^sup>*\<^sup>* i j \<and> lossy heap j)"
proof (induction heap exc seen rule: lost_loop.induct)
  case (1 heap exc seen)
  show ?case
  proof (cases exc)
    case None
    then show ?thesis by (subst lost_loop.simps) simp
  next
    case i: (Some i)
    show ?thesis
    proof (cases "i \<in> set seen")
      case True
      then show ?thesis
        using harmless_closed [OF "1.prems" [unfolded i] True] i by (subst lost_loop.simps) auto
    next
      case unseen: False
      show ?thesis
      proof (cases "map_of heap i")
        case None
        have "\<not> lossy heap j" if "(follows heap)\<^sup>*\<^sup>* i j" for j
          using that None by (cases rule: converse_rtranclpE) (simp_all add: follows_def lossy_def)
        then show ?thesis using None i unseen by (subst lost_loop.simps) auto
      next
        case e: (Some e)
        have eq: "lost_loop heap exc seen \<longleftrightarrow> signals_loss e \<or> lost_loop heap (next_exc e) (i # seen)"
          using i unseen e by (subst lost_loop.simps) simp
        show ?thesis
        proof (cases "signals_loss e")
          case True
          then have "lossy heap i" using e by (simp add: lossy_def)
          then show ?thesis using eq True i by blast
        next
          case False
          have "harmless heap (i # seen) (next_exc e)"
            unfolding harmless_def
          proof
            fix s assume s: "s \<in> set (i # seen)"
            show "\<not> lossy heap s \<and> (\<forall>n. follows heap s n \<longrightarrow> n \<in> set (i # seen) \<or> next_exc e = Some n)"
            proof (cases "s = i")
              case True
              then show ?thesis using e False by (simp add: lossy_def follows_def)
            next
              case False
              then show ?thesis using s "1.prems" i by (auto simp: harmless_def)
            qed
          qed
          from "1.IH" [OF i unseen e this]
          have "lost_loop heap exc seen \<longleftrightarrow>
              (\<exists>n j. next_exc e = Some n \<and> (follows heap)\<^sup>*\<^sup>* n j \<and> lossy heap j)"
            using eq False by simp
          also have "\<dots> \<longleftrightarrow> (\<exists>j. (follows heap)\<^sup>*\<^sup>* i j \<and> lossy heap j)"
          proof
            assume "\<exists>n j. next_exc e = Some n \<and> (follows heap)\<^sup>*\<^sup>* n j \<and> lossy heap j"
            then obtain n j where n: "next_exc e = Some n" "(follows heap)\<^sup>*\<^sup>* n j" "lossy heap j" by blast
            have "follows heap i n" using e n(1) by (simp add: follows_def)
            from converse_rtranclp_into_rtranclp [of "follows heap", OF this n(2)] n(3)
            show "\<exists>j. (follows heap)\<^sup>*\<^sup>* i j \<and> lossy heap j" by blast
          next
            assume "\<exists>j. (follows heap)\<^sup>*\<^sup>* i j \<and> lossy heap j"
            then obtain j where j: "(follows heap)\<^sup>*\<^sup>* i j" "lossy heap j" by blast
            then have "i \<noteq> j" using e False by (auto simp: lossy_def)
            with j(1) obtain n where "follows heap i n" "(follows heap)\<^sup>*\<^sup>* n j"
              by (blast elim: converse_rtranclpE)
            then show "\<exists>n j. next_exc e = Some n \<and> (follows heap)\<^sup>*\<^sup>* n j \<and> lossy heap j"
              using e j(2) by (auto simp: follows_def)
          qed
          finally show ?thesis using i by simp
        qed
      qed
    qed
  qed
qed

text \<open>An exception counts as a lost connection exactly when some exception on the chain that starts
  with it (the cause of each, or else its context) signals the loss; the walk ends on cyclic chains too.\<close>

theorem connection_lost_iff_chain:
  "is_connection_lost heap (Some i) \<longleftrightarrow>
     (\<exists>j e. (\<lambda>a b. \<exists>e. map_of heap a = Some e \<and> next_exc e = Some b)\<^sup>*\<^sup>* i j \<and>
        map_of heap j = Some e \<and> signals_loss e)"
  using lost_loop_iff [of heap "[]" "Some i"]
  unfolding is_connection_lost_def harmless_def lossy_def follows_def [abs_def] by simp

lemma retry_loop_result:
  assumes "attempt \<le> max_retries"
  shows "\<exists>k\<ge>attempt. k \<le> max_retries \<and>
    (\<forall>i\<in>{attempt..<k}. \<exists>msg. call i = Raises_db msg \<and> is_transient_error msg) \<and>
    snd (retry_loop max_retries base call attempt) = map (\<lambda>i. base * 2 ^ i) [attempt..<k] \<and>
    (case fst (retry_loop max_retries base call attempt) of
       Got x \<Rightarrow> call k = Returns x
     | Raised msg \<Rightarrow> call k = Raises_other msg \<or>
         call k = Raises_db msg \<and> (k = max_retries \<or> \<not> is_transient_error msg))"
  using assms
proof (induction max_retries base call attempt rule: retry_loop.induct)
  case (1 max_retries base call attempt)
  show ?case
  proof (cases "\<exists>msg. call attempt = Raises_db msg \<and> attempt < max_retries \<and> is_transient_error msg")
    case True
    then obtain msg where c: "call attempt = Raises_db msg" "attempt < max_retries"
      "is_transient_error msg" by blast
    let ?n = "retry_loop max_retries base call (attempt + 1)"
    have r: "retry_loop max_retries base call attempt = (fst ?n, base * 2 ^ attempt # snd ?n)"
      using c by (subst retry_loop.simps) (simp split: prod.splits)
    from "1.IH" [OF c(1)] c obtain k where k: "k \<ge> attempt + 1" "k \<le> max_retries"
      "\<forall>i\<in>{attempt + 1..<k}. \<exists>msg. call i = Raises_db msg \<and> is_transient_error msg"
      "snd ?n = map (\<lambda>i. base * 2 ^ i) [attempt + 1..<k]"
      "case fst ?n of Got x \<Rightarrow> call k = Returns x | Raised msg \<Rightarrow> call k = Raises_other msg \<or>
         call k = Raises_db msg \<and> (k = max_retries \<or> \<not> is_transient_error msg)" by auto
    have "\<forall>i\<in>{attempt..<k}. \<exists>msg. call i = Raises_db msg \<and> is_transient_error msg"
    proof
      fix i assume "i \<in> {attempt..<k}"
      then have "i = attempt \<or> i \<in> {attempt + 1..<k}" by auto
      then show "\<exists>msg. call i = Raises_db msg \<and> is_transient_error msg" using k(3) c by blast
    qed
    moreover have "base * 2 ^ attempt # map (\<lambda>i. base * 2 ^ i) [attempt + 1..<k] =
        map (\<lambda>i. base * 2 ^ i) [attempt..<k]"
      using k(1) by (simp add: upt_conv_Cons)
    ultimately show ?thesis using r k by (intro exI [of _ k]) auto
  next
    case False
    then show ?thesis
      using "1.prems"
      by (intro exI [of _ attempt])
        (cases "call attempt"; subst (1 2) retry_loop.simps; auto)
  qed
qed

text \<open>The decorated call is tried until it returns, raises an error that is not transient, or has been
  tried \<open>max_retries + 1\<close> times: its result is that of the first such try, every try before it raised a
  transient database error, and the delays in between double from \<open>backoff_base\<close>.\<close>

theorem retry_on_db_error_spec:
  "\<exists>k\<le>max_retries.
     (\<forall>i<k. \<exists>msg. call i = Raises_db msg \<and> is_transient_error msg) \<and>
     snd (retry_on_db_error max_retries base call) = map (\<lambda>i. base * 2 ^ i) [0..<k] \<and>
     (case fst (retry_on_db_error max_retries base call) of
        Got x \<Rightarrow> call k = Returns x
      | Raised msg \<Rightarrow> call k = Raises_other msg \<or>
          call k = Raises_db msg \<and> (k = max_retries \<or> \<not> is_transient_error msg))"
  using retry_loop_result [of 0 max_retries call base]
  unfolding retry_on_db_error_def by (auto simp: atLeast0LessThan)

lemma reconnect_delay_bounds:
  assumes "0 \<le> rng" "rng < 1" "reconnect_backoff_settings b c = (base, cap)"
  shows "0 \<le> reconnect_delay attempt base cap rng" "reconnect_delay attempt base cap rng < cap"
    "reconnect_delay attempt base cap rng \<le> base * 2 ^ attempt"
proof -
  have pos: "0 < base" "0 < cap"
    using assms(3) by (auto simp: reconnect_backoff_settings_def split: option.splits)
  let ?m = "min cap (base * 2 ^ min attempt 32)"
  have m: "0 < ?m" "?m \<le> cap" using pos by simp_all
  show "0 \<le> reconnect_delay attempt base cap rng"
    using assms(1) m by (simp add: reconnect_delay_def)
  have "rng * ?m < ?m" using mult_strict_right_mono [OF assms(2) m(1)] by simp
  then show "reconnect_delay attempt base cap rng < cap"
    using m(2) by (simp add: reconnect_delay_def)
  have "base * 2 ^ min attempt 32 \<le> base * 2 ^ attempt"
    using pos by (simp add: power_increasing)
  then show "reconnect_delay attempt base cap rng \<le> base * 2 ^ attempt"
    using \<open>rng * ?m < ?m\<close> unfolding reconnect_delay_def by linarith
qed

end
