(* ===== verification/Sq_Transactions.thy ===== *)
theory Sq_Transactions
  imports Sq_Retry_Flow
begin

text \<open>
  The operations of the backend as sequences of transactions. An operation that commits several times
  (a completion and the release of its dependents, a retry) is a run of the transition system:
  \<open>runs_to d d'\<close> says that \<open>d'\<close> is reached from \<open>d\<close> by steps that create no job. The release of dependents
  recurses over rechecks, so a relation that is closed under rechecks is closed under the release; this
  is the locale \<open>recheck_closed\<close>. The cascade of a success to the ancestors of a retry
  (\<^verbatim>\<open>cascade_ancestor_status\<close>) is defined here, with the termination of its walk.
\<close>

section \<open>The ancestors of a retry\<close>

definition first_all :: "job_id \<Rightarrow> db \<Rightarrow> job option" where
  "first_all k d = List.find (\<lambda>j. j_id j = k) (job_all d)"

lemma live_view_id: "y \<in> set (live_view d x) \<Longrightarrow> j_id y = j_id x"
  by (auto simp: live_view_def overlay_running_def split: if_splits)

lemma first_all_job_ids: "first_all k d = Some row \<Longrightarrow> k \<in> job_ids d"
  using find_mem [of "\<lambda>j. j_id j = k" "job_all d" row] live_view_id
  by (fastforce simp: first_all_def job_all_def job_ids_def)

lemma finish_in_job_ids:
  assumes "finish_in now k st v fe d = Inr (d', ok)"
  shows "job_ids d' \<subseteq> job_ids d"
proof (cases "ok")
  case False
  then show ?thesis using assms by (auto simp: finish_in_def Let_def split: if_splits)
next
  case True
  let ?W = "move_where d k fe"
  have "d' = close_stragglers k st now (d\<lparr>live := delete_where ?W (live d),
      history := history d @ map (history_row d now st v) (filter ?W (live d))\<rparr>)"
    using assms True by (auto simp: finish_in_def Let_def split: if_splits)
  then show ?thesis
    by (auto simp: job_ids_def close_stragglers_def close_open_def delete_where_def Let_def)
qed

lemma update_live_job_ids:
  assumes "\<And>j. j_id (f j) = j_id j"
  shows "job_ids (d\<lparr>live := update_where P f (live d)\<rparr>) \<subseteq> job_ids d"
  using assms by (auto simp: job_ids_def update_where_mem)

function cascade_loop ::
  "timestamp \<Rightarrow> job_status \<Rightarrow> job_id option \<Rightarrow> job_id list \<Rightarrow> db \<Rightarrow> db result" where
  "cascade_loop now st cur seen d =
     (case cur of
        None \<Rightarrow> Inr d
      | Some k \<Rightarrow>
          if k = 0 \<or> k \<in> set seen then Inr d
          else
            (case first_all k d of
               None \<Rightarrow> Inr d
             | Some row \<Rightarrow>
                 if is_terminal st then
                   (case finish_in now k st no_values
                           (no_fences\<lparr>fe_created_at := Some (j_created_at row),
                              fe_status := Some [Queued, Running, Failed, Shutting_down]\<rparr>) d of
                      Inl e \<Rightarrow> Inl e
                    | Inr (d', _) \<Rightarrow>
                        cascade_loop now st (j_parent_job_id row) (k # seen) d')
                 else
                   cascade_loop now st (j_parent_job_id row) (k # seen)
                     (d\<lparr>live := update_where
                         (\<lambda>j. j_id j = k \<and> j_created_at j = j_created_at row \<and>
                              j_status j \<noteq> Success \<and> j_status j \<noteq> Archived)
                         (\<lambda>j. j\<lparr>j_status := st\<rparr>) (live d)\<rparr>)))"
  by pat_completeness auto

lemma finite_job_ids [simp]: "finite (job_ids d)"
  by (simp add: job_ids_def)

lemma seen_decreases:
  assumes "k \<in> job_ids d" "k \<notin> set seen" "job_ids d' \<subseteq> job_ids d"
  shows "card (job_ids d' - set (k # seen)) < card (job_ids d - set seen)"
  by (rule psubset_card_mono) (use assms in auto)

termination cascade_loop
proof (relation "measure (\<lambda>(now, st, cur, seen, d). card (job_ids d - set seen))", goal_cases)
  case 1
  show ?case by (rule wf_measure)
next
  case (2 now st cur seen d k row p d' ok)
  then have "job_ids d' \<subseteq> job_ids d" using finish_in_job_ids by metis
  with 2 show ?case
    using seen_decreases [OF first_all_job_ids [OF 2(3)]] by (simp add: in_measure)
next
  case (3 now st cur seen d k row)
  then show ?case
    using seen_decreases [OF first_all_job_ids [OF 3(3)]] update_live_job_ids by (simp add: in_measure)
qed

definition cascade_ancestor_status :: "timestamp \<Rightarrow> job_id \<Rightarrow> job_status \<Rightarrow> db \<Rightarrow> db result" where
  "cascade_ancestor_status now jid st d =
     cascade_loop now st (case first_all jid d of None \<Rightarrow> None | Some j \<Rightarrow> j_parent_job_id j) [] d"

declare cascade_loop.simps [simp del]

section \<open>Relations closed under rechecks\<close>

locale recheck_closed =
  fixes slot :: nat and R :: "db \<Rightarrow> db \<Rightarrow> bool"
  assumes reflR: "R d d"
    and transR: "R d1 d2 \<Longrightarrow> R d2 d3 \<Longrightarrow> R d1 d3"
    and recheckR: "recheck_blocked slot now jid created_at d = Inr (d', rc) \<Longrightarrow> R d d'"
begin

lemma recheck_all_closed: "R d (fst (recheck_all slot now bs released work d))"
proof (induction bs arbitrary: released work d)
  case Nil
  then show ?case by (simp add: reflR)
next
  case (Cons b bs)
  obtain bid created_at where b: "b = (bid, created_at)" by (cases b)
  show ?case
  proof (cases "recheck_blocked slot now bid created_at d")
    case (Inl e)
    then show ?thesis by (simp add: b reflR)
  next
    case (Inr p)
    obtain d1 rc where p: "p = (d1, rc)" by (cases p)
    have "R d d1" using recheckR Inr p by blast
    then show ?thesis using Inr p transR Cons by (cases rc) (auto simp: b)
  qed
qed

lemma release_loop_closed: "sl = slot \<Longrightarrow> R d (fst (release_loop sl now work seen released d))"
proof (induction sl now work seen released d rule: release_loop.induct)
  case (1 sl now work seen released d)
  show ?case
  proof (cases "work = [] \<or> fst (last work) \<in> set seen")
    case True
    then show ?thesis
      using "1.IH"(1) "1.prems" by (subst release_loop.simps) (auto simp: reflR)
  next
    case False
    let ?ra = "recheck_all sl now (dependents_of (fst (last work)) (snd (last work)) d) released
      (butlast work) d"
    obtain d1 r1 where ra: "?ra = (d1, r1)" by fastforce
    have r: "R d d1" using recheck_all_closed [of d now] ra "1.prems" by (metis fst_conv)
    show ?thesis
    proof (cases r1)
      case (Inl e)
      then show ?thesis using False ra r by (simp add: release_loop.simps [of sl now work])
    next
      case (Inr p)
      obtain rel w where p: "p = (rel, w)" by (cases p)
      have "R d1 (fst (release_loop sl now w (fst (last work) # seen) rel d1))"
        using "1.IH"(2) [OF _ _ ra [symmetric] Inr p [symmetric]] False "1.prems" by blast
      then show ?thesis
        using False ra Inr p transR [OF r] by (simp add: release_loop.simps [of sl now work])
    qed
  qed
qed

lemma release_quietly_closed: "R d (release_dependents_quietly slot now jid parent d)"
  unfolding release_dependents_quietly_def release_dependents_def by (rule release_loop_closed) (rule refl)

end

section \<open>Runs\<close>

definition runs_to :: "db \<Rightarrow> db \<Rightarrow> bool" where
  "runs_to d d' \<longleftrightarrow>
     step\<^sup>*\<^sup>* d d' \<and> job_ids d' \<subseteq> job_ids d \<and> sj_id ` set (staged d') \<subseteq> sj_id ` set (staged d)"

lemma runs_refl [simp]: "runs_to d d"
  by (simp add: runs_to_def)

lemma runs_trans: "runs_to d1 d2 \<Longrightarrow> runs_to d2 d3 \<Longrightarrow> runs_to d1 d3"
  unfolding runs_to_def by (meson rtranclp_trans order_trans)

lemma runs_steps: "runs_to d d' \<Longrightarrow> step\<^sup>*\<^sup>* d d'"
  by (simp add: runs_to_def)

lemma runs_step:
  "step d d' \<Longrightarrow> job_ids d' \<subseteq> job_ids d \<Longrightarrow> staged d' = staged d \<Longrightarrow> runs_to d d'"
  by (simp add: runs_to_def)

lemma runs_fresh: "runs_to d d' \<Longrightarrow> fresh_id k d \<Longrightarrow> fresh_id k d'"
  by (auto simp: runs_to_def fresh_id_def)

lemma finish_in_staged: "finish_in now k st v fe d = Inr (d', ok) \<Longrightarrow> staged d' = staged d"
  by (auto simp: finish_in_def close_stragglers_def close_open_def Let_def split: if_splits)

lemma job_ids_simps [simp]:
  "job_ids (fst (delete_ready ids d)) = job_ids d" "job_ids (delete_blocked ids d) = job_ids d"
  "job_ids (write_ready slot b js d) = job_ids d"
  by (simp_all add: job_ids_def)

lemma fail_queued_ids:
  assumes "fail_queued now j e r d = Inr (d', ok)"
  shows "job_ids d' \<subseteq> job_ids d \<and> staged d' = staged d"
proof -
  let ?d1 = "delete_blocked [j_id j] (fst (delete_ready [j_id j] d))"
  obtain v fe where "finish_in now (j_id j) Failed v fe ?d1 = Inr (d', ok) \<or> d' = d"
    using assms by (auto simp: fail_queued_def Let_def split: sum.splits prod.splits if_splits)
  then show ?thesis using finish_in_job_ids finish_in_staged by fastforce
qed

lemma recheck_runs:
  assumes rc: "recheck_blocked slot now jid created_at d = Inr (d', rc)" and slot: "slot \<in> set SLOTS"
  shows "runs_to d d'"
proof (rule runs_step)
  show "step d d'" by (rule st_recheck [OF slot rc])
  have "job_ids d' \<subseteq> job_ids d \<and> staged d' = staged d"
    using rc fail_queued_ids unfolding recheck_blocked_def
    by (auto split: option.splits if_splits dependency_verdict.splits sum.splits prod.splits)
  then show "job_ids d' \<subseteq> job_ids d" "staged d' = staged d" by auto
qed

lemma recheck_runs_closed: "slot \<in> set SLOTS \<Longrightarrow> recheck_closed slot runs_to"
  by unfold_locales (auto intro: runs_trans recheck_runs)

interpretation runs: recheck_closed "gen mod 3" runs_to
  by (rule recheck_runs_closed) (rule mod3_slot)

lemma slot_mod_SLOTS: "slot \<in> set SLOTS \<Longrightarrow> slot mod 3 = slot"
  by (auto simp: SLOTS_def)

lemma release_quietly_runs:
  "slot \<in> set SLOTS \<Longrightarrow> runs_to d (release_dependents_quietly slot now jid parent d)"
  using runs.release_quietly_closed [of d slot] by (simp add: slot_mod_SLOTS)

section \<open>Completions\<close>

lemma close_attempt_ids:
  assumes "close_attempt now jid att oc d = Inr d1"
  shows "job_ids d1 = job_ids d \<and> staged d1 = staged d"
  using assms
  by (auto simp: close_attempt_def close_exact_def close_unfenced_def close_open_def job_ids_def Let_def
      split: option.splits sum.splits)

lemma record_completion_ids:
  assumes "record_completion now jid ver st v d = Inr (d', ok)"
  shows "job_ids d' \<subseteq> job_ids d \<and> staged d' = staged d"
proof (cases "st = Failed \<and> is_retry_pending (v_termination_reason v)")
  case True
  then show ?thesis
    using assms update_live_job_ids [of "in_place_row st v" "version_where jid ver" d]
    by (auto simp: record_completion_def Let_def)
next
  case False
  then have "finish_in now jid st v (no_fences\<lparr>fe_version := ver\<rparr>) d = Inr (d', ok)"
    using assms by (simp only: record_completion_def False if_False)
  then show ?thesis using finish_in_job_ids finish_in_staged by blast
qed

lemma fenced_update_runs:
  assumes st: "st = Success \<or> st = Failed" and slot: "slot \<in> set SLOTS"
  shows "runs_to d (fst (fenced_update slot now jid ver st v att oc parent d))"
proof (cases rule: fenced_update_cases [of slot now jid ver st v att oc parent d])
  case (accepted d1 d2 d3)
  have "runs_to d d2"
  proof (rule runs_step)
    show "step d d2" by (rule st_complete [OF accepted(1) st accepted(2)])
  qed (use close_attempt_ids [OF accepted(1)] record_completion_ids [OF accepted(2)] in auto)
  then show ?thesis
    unfolding accepted(4) accepted(3) fst_conv
    using runs_trans release_quietly_runs [OF slot] by auto
qed simp_all

lemma mark_job_success_runs:
  "slot \<in> set SLOTS \<Longrightarrow> runs_to d (fst (mark_job_success slot now d0 jid out ver att d))"
  using fenced_update_runs [of Success]
  by (simp add: mark_job_success_def Let_def split: found.splits option.splits sum.splits)

lemma mark_job_failed_runs:
  "slot \<in> set SLOTS \<Longrightarrow> runs_to d (fst (mark_job_failed slot now d0 jid error tb ver reason att d))"
  using fenced_update_runs [of Failed]
  by (simp add: mark_job_failed_def Let_def split: found.splits option.splits)

section \<open>The cascade and the retry\<close>

lemma finish_success_step: "finish_in now k Success v fe d = Inr (d', ok) \<Longrightarrow> step d d'"
  by (rule st_settle [of Success None False]) (simp_all add: settle_status_def)

lemma cascade_loop_runs:
  "cascade_loop now st cur seen d = Inr d' \<Longrightarrow> st = Success \<Longrightarrow> runs_to d d'"
proof (induction now st cur seen d arbitrary: d' rule: cascade_loop.induct)
  case (1 now st cur seen d)
  show ?case
  proof (cases cur)
    case None
    then show ?thesis using "1.prems" by (simp add: cascade_loop.simps)
  next
    case k: (Some k)
    show ?thesis
    proof (cases "k = 0 \<or> k \<in> set seen \<or> first_all k d = None")
      case True
      then have "cascade_loop now st cur seen d = Inr d"
        using k by (subst cascade_loop.simps) auto
      then show ?thesis using "1.prems" by simp
    next
      case False
      then obtain row where row: "first_all k d = Some row" by blast
      let ?f = "finish_in now k st no_values (no_fences\<lparr>fe_created_at := Some (j_created_at row),
        fe_status := Some [Queued, Running, Failed, Shutting_down]\<rparr>) d"
      obtain d1 ok where f: "?f = Inr (d1, ok)"
        and c: "cascade_loop now st (j_parent_job_id row) (k # seen) d1 = Inr d'"
        using "1.prems" False k row
        by (subst (asm) cascade_loop.simps) (auto split: sum.splits prod.splits)
      have "runs_to d d1"
        using f "1.prems"(2) finish_success_step finish_in_job_ids finish_in_staged
        by (metis runs_step)
      moreover have "runs_to d1 d'"
        using "1.IH"(1) [OF k _ row _ f refl c "1.prems"(2)] False "1.prems"(2) by simp
      ultimately show ?thesis by (rule runs_trans)
    qed
  qed
qed

lemma cascade_runs: "runs_to d (quiet (cascade_ancestor_status now jid Success d) d)"
  using cascade_loop_runs [of now Success]
  by (auto simp: cascade_ancestor_status_def quiet_def split: sum.splits)

lemma settle_failed_row_runs:
  assumes "st = Archived \<or> st = Failed"
  shows "runs_to d (quiet (settle_failed_row now jid st d) d)"
proof (cases "settle_failed_row now jid st d")
  case (Inl e)
  then show ?thesis by (simp add: quiet_def)
next
  case (Inr d')
  have "job_ids d' \<subseteq> job_ids d \<and> staged d' = staged d"
    using Inr finish_in_job_ids finish_in_staged
    by (fastforce simp: settle_failed_row_def split: option.splits sum.splits prod.splits)
  then show ?thesis
    using Inr runs_step [OF st_settle_failed [OF assms Inr]] by (simp add: quiet_def)
qed

lemma bookkeeping_runs: "runs_to d (finish_retry_bookkeeping now jid d)"
  using runs_trans settle_failed_row_runs
  by (simp add: finish_retry_bookkeeping_def Let_def mark_job_archived_def settle_retry_pending_def) blast

lemma release_each_runs:
  "slot \<in> set SLOTS \<Longrightarrow> runs_to d (release_each slot now ids d)"
  by (induction ids arbitrary: d) (auto intro: runs_trans release_quietly_runs)

lemma replace_named_runs:
  assumes "slot \<in> set SLOTS"
  shows "runs_to d (replace_named slot now name d)"
proof -
  have "runs_to d (replaced_by_name name d)"
    by (rule runs_step [OF st_replace])
      (auto simp: replaced_by_name_def drop_entries_def job_ids_def Let_def delete_where_def)
  then show ?thesis
    unfolding replace_named_def Let_def replaced_by_name_def
    by (rule runs_trans) (rule release_each_runs [OF assms])
qed

lemma create_job_steps:
  assumes slot: "slot \<in> set SLOTS" and new: "fresh_id k d"
  shows "step\<^sup>*\<^sup>* d (fst (create_job partitioned threshold slot now k s d))"
proof -
  define d1 where "d1 = (case s_job_name s of
      Some n \<Rightarrow> if n \<noteq> [] then replace_named slot now n d else d | None \<Rightarrow> d)"
  have r: "runs_to d d1"
    using replace_named_runs [OF slot] by (simp add: d1_def split: option.splits)
  then have new1: "fresh_id k d1" using new runs_fresh by blast
  have "step d1 (d1\<lparr>staged := staged d1 @ [staging_row k now t s]\<rparr>)" for t
    by (rule st_stage) (simp add: staging_row_def new1)
  moreover have "step d1 (add_job slot (queued_job k now s) d1)"
    by (rule st_enqueue [OF slot]) (simp add: new1)
  ultimately have "step d1 (fst (create_job partitioned threshold slot now k s d))"
    by (simp add: create_job_def d1_def [symmetric] Let_def)
  then show ?thesis using runs_steps [OF r] by (rule rtranclp.rtrancl_into_rtrancl [rotated])
qed

lemma retry_job_steps:
  assumes "slot \<in> set SLOTS" "fresh_id k d"
  shows "step\<^sup>*\<^sup>* d (fst (retry_job env slot now k j e c d))"
proof (cases "latest_retry d (j_id j)")
  case None
  then show ?thesis
    using create_job_steps [OF assms] runs_steps [OF bookkeeping_runs]
    by (auto simp: retry_job_def retry_with_def Let_def split: prod.splits)
      (metis fst_conv rtranclp_trans)
next
  case (Some existing)
  then show ?thesis using runs_steps [OF bookkeeping_runs] by (simp add: retry_job_def retry_with_def)
qed

end
