(* ===== verification/Sq_Workers.thy ===== *)
theory Sq_Workers
  imports Sq_Complete_Laws
begin

text \<open>
  Worker rows, their heartbeats and the worker pool: \<^verbatim>\<open>get_worker_heartbeats\<close>,
  \<^verbatim>\<open>update_worker_heartbeat\<close>, \<^verbatim>\<open>refresh_worker_heartbeat\<close>, \<^verbatim>\<open>_resolve_worker\<close> and
  \<^verbatim>\<open>delete_worker_registration\<close> of \<^verbatim>\<open>fastapi_sqlery/backend.py\<close>, \<^verbatim>\<open>WorkerPoolManager\<close> of
  \<^verbatim>\<open>core/worker_pool.py\<close>, and the worker upkeep of the daemon cycle (\<^verbatim>\<open>_heartbeat_workers\<close>,
  \<^verbatim>\<open>_cleanup_stale_workers_all_nodes\<close> and \<^verbatim>\<open>_purge_dead_workers\<close> of \<^verbatim>\<open>core/daemon.py\<close>), all over
  the rows of the standalone backend.

  What the operating system answers is an argument: \<open>probe pid\<close> is the outcome of
  \<^verbatim>\<open>os.kill(pid, 0)\<close>. So is the clock; where a loop writes row after row, \<open>clk\<close> gives the time at
  which the row of a worker is written.
\<close>

section \<open>Identifiers\<close>

text \<open>What the code uses of \<^verbatim>\<open>uuid\<close>: parsing, name-based ids and the integer value.\<close>

record uuid_lib =
  uu_parse :: "string \<Rightarrow> string option"
  uu_name :: "string \<Rightarrow> string"
  uu_int :: "string \<Rightarrow> int"

definition worker_pk :: "uuid_lib \<Rightarrow> string \<Rightarrow> string" where
  "worker_pk lib wid =
     (case uu_parse lib wid of
        Some u \<Rightarrow> u
      | None \<Rightarrow> uu_name lib (''sqlery-worker:'' @ wid))"

definition ADJECTIVES :: "string list" where
  "ADJECTIVES = [
    ''agile'', ''amber'', ''ancient'', ''autumn'', ''bold'', ''brave'', ''bright'', ''brisk'',
    ''calm'', ''clever'', ''crisp'', ''daring'', ''dawn'', ''deep'', ''eager'', ''fancy'',
    ''fast'', ''fierce'', ''firm'', ''frosty'', ''gentle'', ''golden'', ''grand'', ''green'',
    ''happy'', ''hardy'', ''honest'', ''icy'', ''iron'', ''keen'', ''kind'', ''lively'',
    ''lucky'', ''mighty'', ''misty'', ''modern'', ''noble'', ''odd'', ''plain'', ''proud'',
    ''quick'', ''quiet'', ''rapid'', ''red'', ''rich'', ''rocky'', ''royal'', ''rugged'',
    ''sharp'', ''silent'', ''silver'', ''smart'', ''solid'', ''spring'', ''steady'', ''stone'',
    ''stormy'', ''strong'', ''swift'', ''tall'', ''tough'', ''true'', ''urban'', ''vast'',
    ''vivid'', ''warm'', ''wild'', ''wise'', ''young'', ''zesty'']"

definition PROFESSIONS :: "string list" where
  "PROFESSIONS = [
    ''builder'', ''carpenter'', ''mason'', ''plumber'', ''electrician'', ''welder'',
    ''blacksmith'', ''roofer'', ''painter'', ''tiler'', ''mechanic'', ''locksmith'',
    ''cooper'', ''fletcher'', ''tanner'', ''chandler'', ''weaver'', ''miller'', ''brewer'',
    ''dyer'', ''potter'', ''scribe'', ''smith'', ''cartwright'', ''wheelwright'',
    ''armorer'', ''farmer'', ''miner'', ''logger'', ''fisher'', ''bricklayer'', ''glazier'',
    ''ironworker'', ''shipwright'', ''architect'', ''planner'', ''forger'', ''maker'',
    ''craftsman'', ''artisan'', ''founder'', ''constructor'']"

definition HEX_LETTERS :: string where
  "HEX_LETTERS = ''abcdef''"

definition pick :: "int \<Rightarrow> 'a list \<Rightarrow> 'a" where
  "pick n xs = xs ! nat (n mod int (length xs))"

definition uuid_to_friendly :: "int \<Rightarrow> string" where
  "uuid_to_friendly n0 =
     (let adj1 = pick n0 ADJECTIVES; n1 = n0 div int (length ADJECTIVES);
          adj2 = pick n1 ADJECTIVES; n2 = n1 div int (length ADJECTIVES);
          prof = pick n2 PROFESSIONS; n3 = n2 div int (length PROFESSIONS);
          digit = show_int (n3 mod 10); n4 = n3 div 10;
          letter = pick n4 HEX_LETTERS
      in adj1 @ ''-'' @ adj2 @ ''-'' @ prof @ ''-'' @ digit @ [letter])"

section \<open>Worker rows\<close>

definition get_worker_heartbeats :: "bool \<Rightarrow> timestamp \<Rightarrow> int \<Rightarrow> db \<Rightarrow> worker list" where
  "get_worker_heartbeats active_only now alive_timeout d =
     (let threshold = now - seconds alive_timeout
      in sort_key (\<lambda>w. - w_last_heartbeat w)
           (filter (\<lambda>w. active_only \<longrightarrow> w_last_heartbeat w \<ge> threshold \<and> w_status w \<noteq> W_dead)
             (workers d)))"

record host =
  ho_lib :: uuid_lib
  ho_node :: string
  ho_pid :: int

definition worker_by_pk :: "string \<Rightarrow> db \<Rightarrow> worker option" where
  "worker_by_pk pk d = List.find (\<lambda>w. w_id w = pk) (workers d)"

definition update_worker_heartbeat ::
  "host \<Rightarrow> timestamp \<Rightarrow> string \<Rightarrow> worker_status \<Rightarrow> job_id option \<Rightarrow> int option \<Rightarrow> db \<Rightarrow> db" where
  "update_worker_heartbeat h now wid st current processed d =
     (let pk = worker_pk (ho_lib h) wid
      in case worker_by_pk pk d of
           Some _ \<Rightarrow>
             d\<lparr>workers := update_where (\<lambda>w. w_id w = pk)
                 (\<lambda>w. w\<lparr>w_status := st, w_current_job_id := current, w_last_heartbeat := now,
                       w_jobs_processed :=
                         (case processed of Some n \<Rightarrow> n | None \<Rightarrow> w_jobs_processed w)\<rparr>)
                 (workers d)\<rparr>
         | None \<Rightarrow>
             d\<lparr>workers := workers d @
                 [\<lparr>w_id = pk, w_node_id = ho_node h,
                   w_pid = (if startswith wid ''daemon_'' then 0 else ho_pid h),
                   w_status = st, w_current_job_id = current, w_last_heartbeat = now,
                   w_jobs_processed = (case processed of Some n \<Rightarrow> n | None \<Rightarrow> 0)\<rparr>]\<rparr>)"

text \<open>\<^verbatim>\<open>s.split("_")\<close> and \<^verbatim>\<open>"_".join\<close>.\<close>

fun split_underscore :: "string \<Rightarrow> string list" where
  "split_underscore [] = [[]]"
| "split_underscore (c # s) =
     (if c = CHR ''_'' then [] # split_underscore s
      else case split_underscore s of
             [] \<Rightarrow> [[c]]
           | p # ps \<Rightarrow> (c # p) # ps)"

fun join_underscore :: "string list \<Rightarrow> string" where
  "join_underscore [] = []"
| "join_underscore [p] = p"
| "join_underscore (p # q # ps) = p @ ''_'' @ join_underscore (q # ps)"

definition resolve_worker :: "uuid_lib \<Rightarrow> string \<Rightarrow> db \<Rightarrow> worker option" where
  "resolve_worker lib wid d =
     (case uu_parse lib wid of
        Some u \<Rightarrow> worker_by_pk u d
      | None \<Rightarrow>
          (let parts = split_underscore wid
           in case (if hd parts = ''worker'' \<and> length parts \<ge> 3 then int_of_str (last parts)
                    else Inl ValueError) of
                Inr pid \<Rightarrow>
                  (let node = join_underscore (butlast (tl parts))
                   in List.find (\<lambda>w. w_node_id w = node \<and> w_pid w = pid) (workers d))
              | Inl _ \<Rightarrow> worker_by_pk (worker_pk lib wid) d))"

definition refresh_worker_heartbeat :: "uuid_lib \<Rightarrow> timestamp \<Rightarrow> string \<Rightarrow> db \<Rightarrow> db" where
  "refresh_worker_heartbeat lib now wid d =
     (case resolve_worker lib wid d of
        None \<Rightarrow> d
      | Some w \<Rightarrow> d\<lparr>workers := update_where (\<lambda>r. w_id r = w_id w)
                                 (\<lambda>r. r\<lparr>w_last_heartbeat := now\<rparr>) (workers d)\<rparr>)"

definition delete_worker_registration :: "uuid_lib \<Rightarrow> string \<Rightarrow> db \<Rightarrow> db \<times> nat" where
  "delete_worker_registration lib wid d =
     (let pk = worker_pk lib wid
      in case worker_by_pk pk d of
           None \<Rightarrow> (d, 0)
         | Some _ \<Rightarrow> (d\<lparr>workers := delete_where (\<lambda>w. w_id w = pk) (workers d)\<rparr>, 1))"

section \<open>Processes\<close>

datatype pid_probe = Exists | Not_permitted | No_process

definition is_process_running :: "(int \<Rightarrow> pid_probe) \<Rightarrow> int \<Rightarrow> bool" where
  "is_process_running probe pid \<longleftrightarrow> pid > 0 \<and> probe pid = Exists"

text \<open>\<^verbatim>\<open>except OSError\<close> also catches \<^verbatim>\<open>PermissionError\<close>.\<close>

definition kill0_raises :: "(int \<Rightarrow> pid_probe) \<Rightarrow> int \<Rightarrow> bool" where
  "kill0_raises probe pid \<longleftrightarrow> probe pid \<noteq> Exists"

text \<open>
  The termination of one process: \<open>ke_alive pid n\<close> is the outcome of the \<open>n\<close>-th existence check
  (0 before the first signal, 1 to 10 in the waiting loop, 11 after \<^verbatim>\<open>SIGKILL\<close>), \<open>ke_term\<close> and
  \<open>ke_kill\<close> say whether the signals could be sent.
\<close>

record kill_env =
  ke_alive :: "int \<Rightarrow> nat \<Rightarrow> bool"
  ke_term :: "int \<Rightarrow> bool"
  ke_kill :: "int \<Rightarrow> bool"

definition kill_worker_process :: "int \<Rightarrow> kill_env \<Rightarrow> int \<Rightarrow> bool" where
  "kill_worker_process me ke pid =
     (if pid \<le> 0 \<or> pid = me then False
      else if \<not> ke_alive ke pid 0 then False
      else if \<not> ke_term ke pid then False
      else if \<exists>i\<in>set [1..<11]. \<not> ke_alive ke pid i then True
      else if \<not> ke_kill ke pid then False
      else \<not> ke_alive ke pid 11)"

section \<open>The worker pool\<close>

definition mark_dead :: "host \<Rightarrow> (string \<Rightarrow> timestamp) \<Rightarrow> worker \<Rightarrow> db \<Rightarrow> db" where
  "mark_dead h clk w d = update_worker_heartbeat h (clk (w_id w)) (w_id w) W_dead None None d"

definition worker_is_dead :: "host \<Rightarrow> (int \<Rightarrow> pid_probe) \<Rightarrow> timestamp \<Rightarrow> worker \<Rightarrow> bool" where
  "worker_is_dead h probe now w \<longleftrightarrow>
     w_pid w \<noteq> 0 \<and> w_status w \<noteq> W_dead \<and>
     (w_last_heartbeat w < now - seconds 60 \<or>
      (w_node_id w = ho_node h \<and> kill0_raises probe (w_pid w)))"

definition cleanup_dead_workers ::
  "host \<Rightarrow> (int \<Rightarrow> pid_probe) \<Rightarrow> (string \<Rightarrow> timestamp) \<Rightarrow> timestamp \<Rightarrow> timestamp \<Rightarrow> int \<Rightarrow> db \<Rightarrow> db \<times> nat"
where
  "cleanup_dead_workers h probe clk qnow now alive_timeout d =
     (let dead = filter (worker_is_dead h probe now) (get_worker_heartbeats False qnow alive_timeout d)
      in (fold (mark_dead h clk) dead d, length dead))"

definition count_active_workers :: "host \<Rightarrow> timestamp \<Rightarrow> int \<Rightarrow> db \<Rightarrow> nat" where
  "count_active_workers h now alive_timeout d =
     length (filter (\<lambda>w. w_node_id w = ho_node h \<and> w_pid w \<noteq> 0 \<and> w_status w \<in> {W_idle, W_busy})
       (get_worker_heartbeats True now alive_timeout d))"

text \<open>
  The children of the pool are their pids. \<open>exited pid\<close>: \<^verbatim>\<open>poll\<close> reports an exit code.
  \<open>spawns\<close> holds, for the next attempts to spawn, the pid of the new process or nothing if the
  attempt raises.
\<close>

definition reap_children :: "(int \<Rightarrow> bool) \<Rightarrow> int list \<Rightarrow> int list" where
  "reap_children exited children = filter (\<lambda>p. \<not> exited p) children"

fun spawn_workers :: "nat \<Rightarrow> int option list \<Rightarrow> int list" where
  "spawn_workers 0 spawns = []"
| "spawn_workers (Suc n) [] = []"
| "spawn_workers (Suc n) (None # spawns) = []"
| "spawn_workers (Suc n) (Some pid # spawns) = pid # spawn_workers n spawns"

record pool_report =
  po_current :: int
  po_spawned :: nat
  po_cleaned :: nat

definition ensure_workers ::
  "host \<Rightarrow> (int \<Rightarrow> pid_probe) \<Rightarrow> (string \<Rightarrow> timestamp) \<Rightarrow> timestamp \<Rightarrow> timestamp \<Rightarrow> timestamp \<Rightarrow> int \<Rightarrow>
     (int \<Rightarrow> bool) \<Rightarrow> int option list \<Rightarrow> int \<Rightarrow> int list \<Rightarrow> db \<Rightarrow> db \<times> int list \<times> pool_report" where
  "ensure_workers h probe clk qnow now cnow alive_timeout exited spawns max_workers children d =
     (let children1 = reap_children exited children;
          (d1, cleaned) = cleanup_dead_workers h probe clk qnow now alive_timeout d;
          current = count_active_workers h cnow alive_timeout d1;
          effective = max current (length children1);
          started = spawn_workers (nat (max_workers - int effective)) spawns
      in (d1, children1 @ started,
          \<lparr>po_current = int effective + int (length started), po_spawned = length started,
           po_cleaned = cleaned\<rparr>))"

record irregularities =
  ir_dead :: nat
  ir_killed :: nat

text \<open>One worker of the safety net; \<open>now\<close> is the time read before the query.\<close>

definition fix_worker ::
  "host \<Rightarrow> (int \<Rightarrow> pid_probe) \<Rightarrow> kill_env \<Rightarrow> (string \<Rightarrow> timestamp) \<Rightarrow> timestamp \<Rightarrow> int \<Rightarrow> worker \<Rightarrow>
     db \<times> irregularities \<Rightarrow> db \<times> irregularities" where
  "fix_worker h probe ke clk now alive_timeout w s =
     (if now - w_last_heartbeat w \<le> seconds (alive_timeout * 3) then s
      else if kill0_raises probe (w_pid w)
      then (mark_dead h clk w (fst s), (snd s)\<lparr>ir_dead := ir_dead (snd s) + 1\<rparr>)
      else if kill_worker_process (ho_pid h) ke (w_pid w)
      then (mark_dead h clk w (fst s), (snd s)\<lparr>ir_killed := ir_killed (snd s) + 1\<rparr>)
      else s)"

definition detect_and_fix_irregularities ::
  "host \<Rightarrow> (int \<Rightarrow> pid_probe) \<Rightarrow> kill_env \<Rightarrow> (string \<Rightarrow> timestamp) \<Rightarrow> timestamp \<Rightarrow> timestamp \<Rightarrow> int \<Rightarrow> db \<Rightarrow>
     db \<times> irregularities" where
  "detect_and_fix_irregularities h probe ke clk now qnow alive_timeout d =
     fold (fix_worker h probe ke clk now alive_timeout)
       (filter (\<lambda>w. w_node_id w = ho_node h \<and> w_pid w > 0)
         (get_worker_heartbeats True qnow alive_timeout d))
       (d, \<lparr>ir_dead = 0, ir_killed = 0\<rparr>)"

text \<open>
  \<^verbatim>\<open>stop_all_workers\<close>: the pids that were signalled, and the rows marked dead. \<open>sent pid\<close>: the
  signal could be sent; \<open>exited pid\<close> as above.
\<close>

definition stop_all_workers ::
  "host \<Rightarrow> (int \<Rightarrow> bool) \<Rightarrow> (int \<Rightarrow> bool) \<Rightarrow> (string \<Rightarrow> timestamp) \<Rightarrow> timestamp \<Rightarrow> int \<Rightarrow> int list \<Rightarrow> db \<Rightarrow>
     db \<times> int list" where
  "stop_all_workers h sent exited clk now alive_timeout children d =
     (let mine = filter (\<lambda>w. w_node_id w = ho_node h \<and> w_pid w > 0 \<and> w_pid w \<noteq> ho_pid h)
                   (get_worker_heartbeats True now alive_timeout d);
          signalled = filter sent (map w_pid mine);
          others = filter (\<lambda>p. p \<notin> set signalled \<and> \<not> exited p \<and> sent p) children
      in (fold (mark_dead h clk) mine d, signalled @ others))"

section \<open>Worker upkeep of the daemon\<close>

definition heartbeat_worker ::
  "host \<Rightarrow> string \<Rightarrow> (int \<Rightarrow> pid_probe) \<Rightarrow> (string \<Rightarrow> timestamp) \<Rightarrow> worker \<Rightarrow> db \<Rightarrow> db" where
  "heartbeat_worker h node probe clk w d =
     (if w_node_id w \<noteq> node \<or> w_pid w \<le> 0 \<or> w_pid w = ho_pid h \<or> startswith (w_id w) ''daemon_''
      then d
      else if is_process_running probe (w_pid w)
      then refresh_worker_heartbeat (ho_lib h) (clk (w_id w)) (w_id w) d
      else mark_dead h clk w d)"

definition heartbeat_workers ::
  "host \<Rightarrow> string \<Rightarrow> (int \<Rightarrow> pid_probe) \<Rightarrow> (string \<Rightarrow> timestamp) \<Rightarrow> timestamp \<Rightarrow> int \<Rightarrow> db \<Rightarrow> db" where
  "heartbeat_workers h node probe clk now alive_timeout d =
     fold (heartbeat_worker h node probe clk) (get_worker_heartbeats True now alive_timeout d) d"

text \<open>
  On start-up. Failing the orphaned jobs goes through Django's \<^verbatim>\<open>JobAttempt.objects\<close>, which a
  standalone process does not have: the exception is logged and the worker is marked dead all the
  same, so that the zombie sweep finds its jobs.
\<close>

definition cleanup_stale_workers_all_nodes ::
  "host \<Rightarrow> (string \<Rightarrow> timestamp) \<Rightarrow> timestamp \<Rightarrow> timestamp \<Rightarrow> int \<Rightarrow> db \<Rightarrow> db \<times> nat" where
  "cleanup_stale_workers_all_nodes h clk qnow now alive_timeout d =
     (let stale = filter (\<lambda>w. w_pid w \<noteq> 0 \<and> w_status w \<noteq> W_dead \<and>
                              w_last_heartbeat w < now - seconds alive_timeout)
                    (get_worker_heartbeats False qnow alive_timeout d)
      in (fold (mark_dead h clk) stale d, length stale))"

definition update_heartbeat_db :: "host \<Rightarrow> string \<Rightarrow> timestamp \<Rightarrow> db \<Rightarrow> db" where
  "update_heartbeat_db h node now d =
     update_worker_heartbeat h now (''daemon_'' @ node) W_idle None None d"

section \<open>Laws of the worker rows\<close>

text \<open>
  Worker ids are unique and are the canonical text of the uuid they name, which \<^verbatim>\<open>uuid.UUID\<close> parses
  back to itself.
\<close>

definition wf_workers :: "uuid_lib \<Rightarrow> db \<Rightarrow> bool" where
  "wf_workers lib d \<longleftrightarrow>
     distinct (map w_id (workers d)) \<and> (\<forall>w\<in>set (workers d). uu_parse lib (w_id w) = Some (w_id w))"

lemma worker_by_pk_update:
  assumes "\<And>w. w_id (f w) = w_id w"
  shows "worker_by_pk pk (d\<lparr>workers := update_where (\<lambda>w. w_id w = k) f (workers d)\<rparr>) =
    (if pk = k then map_option f (worker_by_pk pk d) else worker_by_pk pk d)"
proof -
  have "List.find (\<lambda>w. w_id w = pk) (update_where (\<lambda>w. w_id w = k) f ws) =
      (if pk = k then map_option f (List.find (\<lambda>w. w_id w = pk) ws)
       else List.find (\<lambda>w. w_id w = pk) ws)" for ws
    by (induction ws) (auto simp: assms)
  then show ?thesis by (simp add: worker_by_pk_def)
qed

lemma wf_workers_by_pk:
  "wf_workers lib d \<Longrightarrow> w \<in> set (workers d) \<Longrightarrow> worker_by_pk (w_id w) d = Some w"
  unfolding worker_by_pk_def wf_workers_def by (rule find_distinct_key) auto

lemma wf_workers_heartbeats: "wf_workers lib d \<Longrightarrow> distinct (map w_id (get_worker_heartbeats act now t d))"
  unfolding get_worker_heartbeats_def Let_def wf_workers_def
  by (auto simp: distinct_map inj_on_def)

lemma get_worker_heartbeats_set:
  "set (get_worker_heartbeats act now t d) =
     {w \<in> set (workers d). act \<longrightarrow> w_last_heartbeat w \<ge> now - seconds t \<and> w_status w \<noteq> W_dead}"
  by (auto simp: get_worker_heartbeats_def Let_def)

text \<open>The row of a worker after its heartbeat was requested.\<close>

definition heartbeat_row ::
  "host \<Rightarrow> string \<Rightarrow> (int \<Rightarrow> pid_probe) \<Rightarrow> (string \<Rightarrow> timestamp) \<Rightarrow> worker \<Rightarrow> worker \<Rightarrow> worker" where
  "heartbeat_row h node probe clk w r =
     (if w_node_id w \<noteq> node \<or> w_pid w \<le> 0 \<or> w_pid w = ho_pid h \<or> startswith (w_id w) ''daemon_''
      then r
      else if is_process_running probe (w_pid w) then r\<lparr>w_last_heartbeat := clk (w_id w)\<rparr>
      else r\<lparr>w_status := W_dead, w_current_job_id := None, w_last_heartbeat := clk (w_id w)\<rparr>)"

lemma heartbeat_worker_eq:
  assumes "worker_by_pk (w_id w) d = Some r" "uu_parse (ho_lib h) (w_id w) = Some (w_id w)"
  shows "heartbeat_worker h node probe clk w d =
    d\<lparr>workers := update_where (\<lambda>x. w_id x = w_id w) (heartbeat_row h node probe clk w) (workers d)\<rparr>"
proof -
  have id: "w_id r = w_id w" using find_mem assms(1) unfolding worker_by_pk_def by fastforce
  have row: "heartbeat_row h node probe clk w =
      (if w_node_id w \<noteq> node \<or> w_pid w \<le> 0 \<or> w_pid w = ho_pid h \<or> startswith (w_id w) ''daemon_''
       then (\<lambda>r. r)
       else if is_process_running probe (w_pid w) then (\<lambda>r. r\<lparr>w_last_heartbeat := clk (w_id w)\<rparr>)
       else (\<lambda>r. r\<lparr>w_status := W_dead, w_current_job_id := None, w_last_heartbeat := clk (w_id w)\<rparr>))"
    by (simp add: heartbeat_row_def fun_eq_iff)
  have noop: "update_where P (\<lambda>x. x) t = t" for P and t :: "worker list"
    by (simp add: update_where_def)
  show ?thesis
    using assms id
    by (simp add: row noop heartbeat_worker_def refresh_worker_heartbeat_def resolve_worker_def
        mark_dead_def update_worker_heartbeat_def worker_pk_def Let_def)
qed

lemma heartbeat_fold:
  assumes "distinct (map w_id ws)"
    and "\<forall>w\<in>set ws. worker_by_pk (w_id w) d \<noteq> None \<and> uu_parse (ho_lib h) (w_id w) = Some (w_id w)"
  shows "worker_by_pk k (fold (heartbeat_worker h node probe clk) ws d) =
      (case List.find (\<lambda>w. w_id w = k) ws of
         None \<Rightarrow> worker_by_pk k d
       | Some w \<Rightarrow> map_option (heartbeat_row h node probe clk w) (worker_by_pk k d))"
  using assms
proof (induction ws arbitrary: d)
  case (Cons w ws)
  let ?d1 = "heartbeat_worker h node probe clk w d"
  obtain r where r: "worker_by_pk (w_id w) d = Some r" using Cons.prems(2) by auto
  have d1: "?d1 = d\<lparr>workers := update_where (\<lambda>x. w_id x = w_id w) (heartbeat_row h node probe clk w)
      (workers d)\<rparr>"
    using heartbeat_worker_eq [OF r] Cons.prems(2) by simp
  have pk: "worker_by_pk pk ?d1 = (if pk = w_id w then map_option (heartbeat_row h node probe clk w)
      (worker_by_pk pk d) else worker_by_pk pk d)" for pk
    unfolding d1 by (rule worker_by_pk_update) (simp add: heartbeat_row_def)
  have "\<forall>x\<in>set ws. worker_by_pk (w_id x) ?d1 \<noteq> None \<and> uu_parse (ho_lib h) (w_id x) = Some (w_id x)"
    using Cons.prems(2) by (simp add: pk)
  note ih = Cons.IH [OF _ this]
  have none: "List.find (\<lambda>x. w_id x = w_id w) ws = None"
    using Cons.prems(1) by (simp add: find_none image_iff) metis
  show ?case
    using ih Cons.prems(1) none by (cases "k = w_id w") (auto simp: pk split: option.splits)
qed simp

lemma heartbeat_workers_row:
  assumes wf: "wf_workers (ho_lib h) d" and w: "w \<in> set (workers d)"
    and act: "w_last_heartbeat w \<ge> now - seconds t" "w_status w \<noteq> W_dead"
  shows "worker_by_pk (w_id w) (heartbeat_workers h node probe clk now t d) =
    Some (heartbeat_row h node probe clk w w)"
proof -
  let ?ws = "get_worker_heartbeats True now t d"
  have "\<forall>x\<in>set ?ws. worker_by_pk (w_id x) d \<noteq> None \<and> uu_parse (ho_lib h) (w_id x) = Some (w_id x)"
    using wf wf_workers_by_pk [OF wf] by (auto simp: get_worker_heartbeats_set wf_workers_def)
  moreover have "List.find (\<lambda>x. w_id x = w_id w) ?ws = Some w"
    using wf_workers_heartbeats [OF wf] w act
    by (intro find_distinct_key) (simp_all add: get_worker_heartbeats_set)
  ultimately show ?thesis
    using heartbeat_fold [OF wf_workers_heartbeats [OF wf], of True now t d h] wf_workers_by_pk [OF wf w]
    by (simp add: heartbeat_workers_def)
qed

lemma heartbeat_workers_frame: "\<exists>ws. heartbeat_workers h node probe clk now t d = d\<lparr>workers := ws\<rparr>"
proof -
  have one: "\<exists>ws. heartbeat_worker h node probe clk w d = d\<lparr>workers := ws\<rparr>" for w and d :: db
    by (auto simp: heartbeat_worker_def refresh_worker_heartbeat_def mark_dead_def
        update_worker_heartbeat_def Let_def split: option.splits
        intro: exI [of _ "workers d"])
  have "\<exists>ws. fold (heartbeat_worker h node probe clk) xs d = d\<lparr>workers := ws\<rparr>" for xs
  proof (induction xs arbitrary: d)
    case Nil
    show ?case by (rule exI [of _ "workers d"]) simp
  next
    case (Cons x xs)
    obtain ws where "heartbeat_worker h node probe clk x d = d\<lparr>workers := ws\<rparr>" using one by blast
    then show ?case using Cons [of "d\<lparr>workers := ws\<rparr>"] by auto
  qed
  then show ?thesis by (simp add: heartbeat_workers_def)
qed

section \<open>Properties\<close>

text \<open>The safety net against stuck workers never acts. It asks for the workers that are alive, which
  are those with a heartbeat younger than the timeout, and then looks among them for a heartbeat
  older than three times the timeout: no row qualifies, so no worker is ever killed or marked dead by
  it, whatever the operating system answers.\<close>

theorem irregularities_never_fixed:
  assumes "now \<le> qnow" "0 \<le> alive_timeout"
  shows "detect_and_fix_irregularities h probe ke clk now qnow alive_timeout d =
    (d, \<lparr>ir_dead = 0, ir_killed = 0\<rparr>)"
proof -
  have "fold (fix_worker h probe ke clk now alive_timeout) ws s = s"
    if "\<forall>w\<in>set ws. now - w_last_heartbeat w \<le> seconds (alive_timeout * 3)" for ws s
    using that by (induction ws) (simp_all add: fix_worker_def)
  moreover have "now - w_last_heartbeat w \<le> seconds (alive_timeout * 3)"
    if "w \<in> set (get_worker_heartbeats True qnow alive_timeout d)" for w
    using that assms by (auto simp: get_worker_heartbeats_set seconds_def)
  ultimately show ?thesis by (simp add: detect_and_fix_irregularities_def)
qed

theorem irregularities_never_fixed_witness:
  "\<forall>h probe ke clk d. detect_and_fix_irregularities h probe ke clk 1000 1000 30 d =
     (d, \<lparr>ir_dead = 0, ir_killed = 0\<rparr>)"
  by (intro allI irregularities_never_fixed) simp_all

lemma spawn_workers_length: "length (spawn_workers n spawns) \<le> n"
  by (induction n spawns rule: spawn_workers.induct) auto

lemma spawn_workers_full:
  "n \<le> length spawns \<Longrightarrow> None \<notin> set spawns \<Longrightarrow> length (spawn_workers n spawns) = n"
  by (induction n spawns rule: spawn_workers.induct) auto

text \<open>The pool reaches its size and never exceeds it. One call starts at most as many processes as
  are missing, so the children never become more than the configured maximum (or than they were);
  when every start succeeds the pool counts at least the maximum afterwards, and a pool that is
  already full starts nothing.\<close>

theorem ensure_workers_pool_size:
  assumes "ensure_workers h probe clk qnow now cnow alive_timeout exited spawns max_workers children d =
      (d', children', report)"
  shows "int (length children') \<le> max max_workers (int (length (reap_children exited children))) \<and>
    length children' = length (reap_children exited children) + po_spawned report \<and>
    (nat max_workers \<le> length spawns \<and> None \<notin> set spawns \<longrightarrow> max_workers \<le> po_current report)"
proof -
  let ?c = "reap_children exited children"
  define d1 where "d1 = fst (cleanup_dead_workers h probe clk qnow now alive_timeout d)"
  define eff where "eff = max (count_active_workers h cnow alive_timeout d1) (length ?c)"
  define started where "started = spawn_workers (nat (max_workers - int eff)) spawns"
  have *: "children' = ?c @ started" "po_spawned report = length started"
    "po_current report = int eff + int (length started)"
    using assms by (auto simp: ensure_workers_def Let_def split_beta d1_def eff_def started_def)
  have "length started \<le> nat (max_workers - int eff)"
    unfolding started_def by (rule spawn_workers_length)
  moreover have "length ?c \<le> eff" by (simp add: eff_def)
  moreover have "length started = nat (max_workers - int eff)"
    if "nat max_workers \<le> length spawns \<and> None \<notin> set spawns"
    unfolding started_def using that by (intro spawn_workers_full) auto
  ultimately show ?thesis by (auto simp: *)
qed

definition sample_lib :: uuid_lib where
  "sample_lib = \<lparr>uu_parse = Some, uu_name = (\<lambda>s. s), uu_int = (\<lambda>_. 0)\<rparr>"

definition sample_host :: host where
  "sample_host = \<lparr>ho_lib = sample_lib, ho_node = ''n1'', ho_pid = 10\<rparr>"

definition sample_worker :: "string \<Rightarrow> int \<Rightarrow> job_id option \<Rightarrow> worker" where
  "sample_worker wid pid current =
     \<lparr>w_id = wid, w_node_id = ''n1'', w_pid = pid, w_status = W_busy, w_current_job_id = current,
      w_last_heartbeat = 0, w_jobs_processed = 0\<rparr>"

definition sample_pool :: db where
  "sample_pool = \<lparr>live = [], history = [], ready = [], blocked = [], attempts = [],
     workers = [sample_worker ''w1'' 21 None, sample_worker ''w2'' 22 None], staged = [], next_attempt = 0\<rparr>"

text \<open>Process 22 is gone: its row is marked dead and one worker is started.\<close>

theorem ensure_workers_pool_size_witness:
  "\<exists>d'. ensure_workers sample_host (\<lambda>p. if p = 21 then Exists else No_process) (\<lambda>_. 5) 5 5 5 30
      (\<lambda>p. p = 22) [Some 23, Some 24] 2 [21, 22] sample_pool =
      (d', [21, 23], \<lparr>po_current = 2, po_spawned = 1, po_cleaned = 1\<rparr>) \<and>
    int (length [21, 23 :: int]) \<le> max 2 (int (length (reap_children (\<lambda>p. p = 22) [21, 22 :: int])))"
proof -
  let ?r = "ensure_workers sample_host (\<lambda>p. if p = 21 then Exists else No_process) (\<lambda>_. 5) 5 5 5 30
      (\<lambda>p. p = 22) [Some 23, Some 24] 2 [21, 22] sample_pool"
  have e: "snd ?r = ([21, 23], \<lparr>po_current = 2, po_spawned = 1, po_cleaned = 1\<rparr>)" by code_simp
  then have r: "?r = (fst ?r, [21, 23], \<lparr>po_current = 2, po_spawned = 1, po_cleaned = 1\<rparr>)"
    by (metis prod.collapse)
  show ?thesis using ensure_workers_pool_size [OF r] r by blast
qed

end
