(* ===== verification/Sq_Liveness.thy ===== *)
theory Sq_Liveness
  imports Sq_Workers Sq_System
begin

text \<open>
  The zombie sweep: \<^verbatim>\<open>get_running_jobs_for_liveness\<close> of \<^verbatim>\<open>fastapi_sqlery/backend.py\<close>, the record
  \<^verbatim>\<open>RunningJobLiveness\<close> of \<^verbatim>\<open>core/liveness.py\<close> and \<^verbatim>\<open>DaemonManager._fail_zombie_running_jobs\<close> of
  \<^verbatim>\<open>core/daemon.py\<close> with its five checks. The sweep fails the jobs one by one, each in its own
  transaction and with the release of its dependents; \<open>untouched\<close> is the frame that lets the
  verdict on one job be read off the state in which the sweep began.
\<close>

section \<open>Records\<close>

record liveness =
  lv_job_id :: job_id
  lv_started_at :: "timestamp option"
  lv_worker_pid :: "int option"
  lv_node :: "string option"
  lv_status :: "worker_status option"
  lv_current :: "job_id option"
  lv_heartbeat :: "timestamp option"
  lv_friendly :: "string option"
  lv_has_worker :: bool

text \<open>
  \<^verbatim>\<open>running_with_attempts_stmt\<close>: the join of the queued rows with their open attempts, by attempt
  id. An empty selection of queues does not restrict the statement (\<^verbatim>\<open>if queue_names:\<close>).
\<close>

definition running_with_attempts :: "string list option \<Rightarrow> db \<Rightarrow> (job \<times> attempt) list" where
  "running_with_attempts queue_names d =
     concat (map (\<lambda>a. map (\<lambda>j. (j, a))
         (filter (\<lambda>j. j_id j = a_job_id a \<and> j_status j = Queued \<and>
                      (case queue_names of
                         None \<Rightarrow> True
                       | Some qs \<Rightarrow> qs = [] \<or> j_queue_name j \<in> set qs)) (live d)))
       (sort_key a_id (filter (\<lambda>a. a_finished_at a = None) (attempts d))))"

text \<open>\<^verbatim>\<open>pairs[job.id] = (job, attempt)\<close> row by row: a later row replaces the value, not the place.\<close>

fun dict_put :: "(job \<times> attempt) list \<Rightarrow> job \<times> attempt \<Rightarrow> (job \<times> attempt) list" where
  "dict_put [] p = [p]"
| "dict_put (q # qs) p = (if j_id (fst q) = j_id (fst p) then p # qs else q # dict_put qs p)"

definition liveness_of :: "uuid_lib \<Rightarrow> db \<Rightarrow> job \<times> attempt \<Rightarrow> liveness" where
  "liveness_of lib d p =
     (let (j, a) = p;
          worker = (case a_worker_id a of None \<Rightarrow> None | Some wid \<Rightarrow> worker_by_pk wid d)
      in \<lparr>lv_job_id = j_id j, lv_started_at = Some (a_claimed_at a),
          lv_worker_pid = a_worker_pid a, lv_node = map_option w_node_id worker,
          lv_status = map_option w_status worker,
          lv_current = (case worker of None \<Rightarrow> None | Some w \<Rightarrow> w_current_job_id w),
          lv_heartbeat = map_option w_last_heartbeat worker,
          lv_friendly = map_option (\<lambda>w. uuid_to_friendly (uu_int lib (w_id w))) worker,
          lv_has_worker = (worker \<noteq> None)\<rparr>)"

definition get_running_jobs_for_liveness :: "uuid_lib \<Rightarrow> string list option \<Rightarrow> db \<Rightarrow> liveness list" where
  "get_running_jobs_for_liveness lib queue_names d =
     map (liveness_of lib d) (foldl dict_put [] (running_with_attempts queue_names d))"

section \<open>The verdict\<close>

text \<open>The reason texts are those of the code, with a hyphen where the code has a dash.\<close>

text \<open>\<^verbatim>\<open>int(td.total_seconds())\<close> of a positive duration in microseconds.\<close>

definition whole_seconds :: "int \<Rightarrow> int" where
  "whole_seconds us = us div 1000000"

definition truthy :: "int option \<Rightarrow> bool" where
  "truthy v \<longleftrightarrow> v \<noteq> None \<and> v \<noteq> Some 0"

record sweep_env =
  sw_node :: string
  sw_probe :: "int \<Rightarrow> pid_probe"
  sw_alive_timeout :: int
  sw_concurrent :: bool

definition name_of :: "liveness \<Rightarrow> string" where
  "name_of rec = (case lv_friendly rec of Some n \<Rightarrow> n | None \<Rightarrow> ''None'')"

definition check_pid :: "sweep_env \<Rightarrow> liveness \<Rightarrow> string option" where
  "check_pid env rec =
     (if truthy (lv_worker_pid rec) \<and> lv_node rec = Some (sw_node env) \<and>
         sw_probe env (the (lv_worker_pid rec)) = No_process
      then Some (''Worker PID '' @ show_int (the (lv_worker_pid rec)) @ '' no longer exists on '' @
                 sw_node env)
      else None)"

definition check_moved_on :: "sweep_env \<Rightarrow> timestamp \<Rightarrow> liveness \<Rightarrow> string option" where
  "check_moved_on env now rec =
     (if sw_concurrent env \<or> lv_current rec = Some (lv_job_id rec) then None
      else if truthy (lv_current rec)
      then Some (''Worker '' @ name_of rec @ '' moved on to job #'' @ show_int (the (lv_current rec)) @
                 '' - this job was abandoned'')
      else case lv_started_at rec of
             None \<Rightarrow> None
           | Some t \<Rightarrow>
               if t < now - seconds (sw_alive_timeout env)
               then Some (''Worker '' @ name_of rec @ '' is idle but job has been running for '' @
                          show_int (whole_seconds (now - t)) @ ''s - zombie'')
               else None)"

definition check_heartbeat :: "sweep_env \<Rightarrow> timestamp \<Rightarrow> liveness \<Rightarrow> string option" where
  "check_heartbeat env now rec =
     (case lv_heartbeat rec of
        None \<Rightarrow> None
      | Some hb \<Rightarrow>
          if hb < now - seconds (sw_alive_timeout env * 3)
          then Some (''Worker '' @ name_of rec @ '' heartbeat stale ('' @
                     show_int (whole_seconds (now - hb)) @ ''s old, threshold '' @
                     show_int (sw_alive_timeout env * 3) @ ''s)'')
          else None)"

definition zombie_reason :: "sweep_env \<Rightarrow> timestamp \<Rightarrow> liveness \<Rightarrow> string option" where
  "zombie_reason env now rec =
     (case check_pid env rec of
        Some r \<Rightarrow> Some r
      | None \<Rightarrow>
          if \<not> lv_has_worker rec then
            (if sw_concurrent env \<and>
                (case lv_started_at rec of
                   None \<Rightarrow> False | Some t \<Rightarrow> t \<ge> now - seconds (sw_alive_timeout env))
             then None else Some ''Running job has no worker assigned'')
          else if lv_status rec = Some W_dead
          then Some (''Assigned worker '' @ name_of rec @ '' is dead'')
          else case check_moved_on env now rec of
                 Some r \<Rightarrow> Some r
               | None \<Rightarrow> check_heartbeat env now rec)"

section \<open>The sweep\<close>

definition sweep_one ::
  "sweep_env \<Rightarrow> nat \<Rightarrow> (job_id \<Rightarrow> timestamp) \<Rightarrow> timestamp \<Rightarrow> liveness \<Rightarrow> db \<times> nat \<Rightarrow> db \<times> nat" where
  "sweep_one env slot clk now rec s =
     (case zombie_reason env now rec of
        None \<Rightarrow> s
      | Some reason \<Rightarrow>
          (case fail_zombie_job slot (clk (lv_job_id rec)) (lv_job_id rec) reason (fst s) of
             (d', Inr True) \<Rightarrow> (d', snd s + 1)
           | (d', _) \<Rightarrow> (d', snd s)))"

definition fail_zombie_running_jobs ::
  "uuid_lib \<Rightarrow> sweep_env \<Rightarrow> nat \<Rightarrow> (job_id \<Rightarrow> timestamp) \<Rightarrow> timestamp \<Rightarrow> string list option \<Rightarrow> db \<Rightarrow> db \<times> nat" where
  "fail_zombie_running_jobs lib env slot clk now queue_names d =
     fold (sweep_one env slot clk now) (get_running_jobs_for_liveness lib queue_names d) (d, 0)"

section \<open>The frame of another job's failure\<close>

definition untouched :: "job_id \<Rightarrow> db \<Rightarrow> db \<Rightarrow> bool" where
  "untouched k d d' \<longleftrightarrow>
     filter (\<lambda>j. j_id j = k) (live d') = filter (\<lambda>j. j_id j = k) (live d) \<and>
     filter (open_for k) (attempts d') = filter (open_for k) (attempts d)"

lemma untouched_refl [simp]: "untouched k d d"
  by (simp add: untouched_def)

lemma untouched_trans: "untouched k d e \<Longrightarrow> untouched k e f \<Longrightarrow> untouched k d f"
  by (simp add: untouched_def)

lemma untouched_same: "live d' = live d \<Longrightarrow> attempts d' = attempts d \<Longrightarrow> untouched k d d'"
  by (simp add: untouched_def)

lemma is_running_filter: "is_running d k \<longleftrightarrow> filter (open_for k) (attempts d) \<noteq> []"
  by (auto simp: is_running_def filter_empty_conv)

lemma untouched_keeps:
  assumes "untouched k d d'"
  shows "j \<in> set (live d) \<Longrightarrow> j_id j = k \<Longrightarrow> j \<in> set (live d')"
    and "a \<in> set (attempts d) \<Longrightarrow> open_for k a \<Longrightarrow> a \<in> set (attempts d')"
  using assms [unfolded untouched_def, THEN conjunct1, THEN arg_cong [where f = set]]
    assms [unfolded untouched_def, THEN conjunct2, THEN arg_cong [where f = set]]
  by auto

lemma untouched_running: "untouched k d d' \<Longrightarrow> is_running d' k = is_running d k"
  by (simp add: untouched_def is_running_filter)

lemma filter_update_where_other:
  "(\<And>r. Q r \<Longrightarrow> \<not> P r \<and> \<not> P (f r)) \<Longrightarrow> filter P (update_where Q f t) = filter P t"
  by (induction t) auto

lemma filter_delete_where_other:
  "(\<And>r. Q r \<Longrightarrow> \<not> P r) \<Longrightarrow> filter P (delete_where Q t) = filter P t"
  by (induction t) auto

lemma untouched_close: "(\<And>a. P a \<Longrightarrow> a_job_id a \<noteq> k) \<Longrightarrow> untouched k d (fst (close_open P oc now d))"
  by (auto simp: untouched_def close_open_def Let_def open_for_def
      intro!: filter_update_where_other)

lemma untouched_finish_in:
  assumes "finish_in now jid st v fe d = Inr (d', ok)" "jid \<noteq> k"
  shows "untouched k d d'"
proof (cases ok)
  case False
  then show ?thesis using assms(1) by (auto simp: finish_in_def Let_def split: if_splits)
next
  case True
  let ?W = "move_where d jid fe"
  define e where "e = d\<lparr>live := delete_where ?W (live d),
      history := history d @ map (history_row d now st v) (filter ?W (live d))\<rparr>"
  have d': "d' = close_stragglers jid st now e"
    using assms(1) True by (auto simp: finish_in_def Let_def e_def split: if_splits)
  have "filter (\<lambda>j. j_id j = k) (delete_where ?W (live d)) = filter (\<lambda>j. j_id j = k) (live d)"
    by (rule filter_delete_where_other) (use assms(2) move_where_id in metis)
  then have "untouched k d e" by (simp add: untouched_def e_def)
  moreover have "untouched k e d'"
    unfolding d' close_stragglers_def using assms(2) by (intro untouched_close) auto
  ultimately show ?thesis by (rule untouched_trans)
qed

lemma untouched_fail_queued:
  assumes "fail_queued now j e r d = Inr (d', ok)" "is_running d k"
  shows "untouched k d d'"
proof -
  let ?d1 = "delete_blocked [j_id j] (fst (delete_ready [j_id j] d))"
  have u: "untouched k d ?d1" by (rule untouched_same) simp_all
  have "untouched k ?d1 d'"
  proof (cases "j_id j = k")
    case True
    let ?fe = "no_fences\<lparr>fe_created_at := Some (j_created_at j), fe_status := Some [Queued],
                 fe_idle := True\<rparr>"
    have "filter (move_where ?d1 k ?fe) (live ?d1) = []"
      using assms(2) by (auto simp: filter_empty_conv move_where_def)
    then show ?thesis
      using assms(1) True by (simp add: fail_queued_def finish_in_def Let_def)
  next
    case False
    then show ?thesis
      using assms(1) by (auto simp: fail_queued_def Let_def dest: untouched_finish_in)
  qed
  with u show ?thesis by (rule untouched_trans)
qed

lemma untouched_recheck:
  assumes "recheck_blocked slot now jid created_at d = Inr (d', rc)" "is_running d k"
  shows "untouched k d d'"
  using assms(1)
proof (cases rule: recheck_cases)
  case (failed j e r ok)
  then show ?thesis using untouched_fail_queued assms(2) by blast
qed (simp_all add: untouched_same)

lemma untouched_recheck_all:
  assumes "recheck_all slot now bs released work d = (d', r)" "is_running d k"
  shows "untouched k d d'"
  using assms
proof (induction slot now bs released work d rule: recheck_all.induct)
  case (1 slot now released work d)
  then show ?case by simp
next
  case (2 slot now bid created_at rest released work d)
  show ?case
  proof (cases "recheck_blocked slot now bid created_at d")
    case (Inl e)
    then show ?thesis using "2.prems" by simp
  next
    case (Inr p)
    obtain d1 rc where p: "p = (d1, rc)" by fastforce
    have u: "untouched k d d1" using untouched_recheck Inr p "2.prems"(2) by blast
    then have "untouched k d1 d'"
      using "2.IH" [OF Inr p [symmetric]] "2.prems" Inr p untouched_running [OF u] by (cases rc) simp_all
    with u show ?thesis by (rule untouched_trans)
  qed
qed

lemma untouched_release_loop:
  assumes "release_loop slot now work seen released d = (d', r)" "is_running d k"
  shows "untouched k d d'"
  using assms
proof (induction slot now work seen released d rule: release_loop.induct)
  case (1 slot now work seen released d)
  note step = "1.prems"(1) [unfolded release_loop.simps [of slot now work]]
  show ?case
  proof (cases "work = [] \<or> fst (last work) \<in> set seen")
    case True
    then show ?thesis using step "1.IH"(1) "1.prems"(2) by (auto split: if_splits)
  next
    case False
    obtain d1 r1 where ra: "recheck_all slot now (dependents_of (fst (last work)) (snd (last work)) d)
        released (butlast work) d = (d1, r1)" by fastforce
    have u: "untouched k d d1" by (rule untouched_recheck_all [OF ra "1.prems"(2)])
    show ?thesis
    proof (cases r1)
      case (Inl e)
      then show ?thesis using step False ra u by auto
    next
      case (Inr p)
      obtain rel w where p: "p = (rel, w)" by (cases p)
      have "release_loop slot now w (fst (last work) # seen) rel d1 = (d', r)"
        using step False ra Inr p by auto
      then have "untouched k d1 d'"
        using "1.IH"(2) [OF _ _ ra [symmetric] Inr p [symmetric]] False "1.prems"(2)
          untouched_running [OF u] by blast
      then show ?thesis by (rule untouched_trans [OF u])
    qed
  qed
qed

lemma untouched_release_quietly:
  "is_running d k \<Longrightarrow> untouched k d (release_dependents_quietly slot now jid parent d)"
  unfolding release_dependents_quietly_def release_dependents_def
  by (rule untouched_release_loop [OF prod.collapse [symmetric]])

lemma untouched_fail_zombie:
  assumes "jid \<noteq> k" "is_running d k"
  shows "untouched k d (fst (fail_zombie_job slot now jid reason d))"
proof -
  obtain d' r where z: "fail_zombie_job slot now jid reason d = (d', r)" by fastforce
  let ?d1 = "fst (close_unfenced jid Outcome_abandoned now d)"
  have u1: "untouched k d ?d1"
    unfolding close_unfenced_def using assms(1) by (intro untouched_close) auto
  from fail_zombie_cases [OF z] show ?thesis
  proof (elim disjE exE conjE)
    fix v fe d2 parent
    assume *: "finish_in now jid Failed v fe ?d1 = Inr (d2, True)"
      "d' = release_dependents_quietly slot now jid parent d2"
    have u2: "untouched k d d2" by (rule untouched_trans [OF u1 untouched_finish_in [OF *(1) assms(1)]])
    have "untouched k d2 d'"
      unfolding *(2) by (rule untouched_release_quietly) (simp add: untouched_running [OF u2] assms(2))
    then show ?thesis using untouched_trans [OF u2] by (simp add: z)
  qed (simp add: z)
qed

section \<open>What the sweep reads\<close>

lemma dict_put_sub: "set (dict_put qs p) \<subseteq> insert p (set qs)"
  by (induction qs) auto

lemma dict_put_ids: "(j_id \<circ> fst) ` set (dict_put qs p) = insert (j_id (fst p)) ((j_id \<circ> fst) ` set qs)"
  by (induction qs) auto

lemma dict_put_distinct:
  "distinct (map (j_id \<circ> fst) qs) \<Longrightarrow> distinct (map (j_id \<circ> fst) (dict_put qs p))"
proof (induction qs)
  case (Cons q qs)
  have "(j_id \<circ> fst) q \<notin> (j_id \<circ> fst) ` set qs" using Cons.prems by simp
  then show ?case using Cons dict_put_ids [of qs p]
    by (cases "j_id (fst q) = j_id (fst p)") (simp_all add: image_comp)
qed simp

lemma dict_fold:
  assumes "distinct (map (j_id \<circ> fst) qs)"
  shows "distinct (map (j_id \<circ> fst) (foldl dict_put qs ps)) \<and>
    set (foldl dict_put qs ps) \<subseteq> set qs \<union> set ps \<and>
    (j_id \<circ> fst) ` set (foldl dict_put qs ps) = (j_id \<circ> fst) ` set qs \<union> (j_id \<circ> fst) ` set ps"
  using assms
proof (induction ps arbitrary: qs)
  case (Cons p ps)
  note ih = Cons.IH [OF dict_put_distinct [OF Cons.prems], of p]
  show ?case
  proof (intro conjI)
    show "set (foldl dict_put qs (p # ps)) \<subseteq> set qs \<union> set (p # ps)"
      using ih dict_put_sub [of qs p] by auto
    show "(j_id \<circ> fst) ` set (foldl dict_put qs (p # ps)) =
        (j_id \<circ> fst) ` set qs \<union> (j_id \<circ> fst) ` set (p # ps)"
      using ih dict_put_ids [of qs p] by auto
  qed (use ih in simp)
qed simp

definition selected :: "string list option \<Rightarrow> job \<Rightarrow> bool" where
  "selected queue_names j \<longleftrightarrow>
     (case queue_names of None \<Rightarrow> True | Some qs \<Rightarrow> qs = [] \<or> j_queue_name j \<in> set qs)"

lemma running_with_attempts_iff:
  "(j, a) \<in> set (running_with_attempts queue_names d) \<longleftrightarrow>
     j \<in> set (live d) \<and> j_status j = Queued \<and> a \<in> set (attempts d) \<and> open_for (j_id j) a \<and>
     selected queue_names j"
  by (auto simp: running_with_attempts_def selected_def open_for_def)

lemma wf_open_unique:
  assumes "wf_db d" "a \<in> set (attempts d)" "open_for k a" "b \<in> set (attempts d)" "open_for k b"
  shows "a = b"
  using assms rowcount_le1_unique by (metis wf_attempts_def wf_db_def)

lemma records_exact:
  assumes "wf_db d"
  shows "distinct (map lv_job_id (get_running_jobs_for_liveness lib queue_names d)) \<and>
    (rec \<in> set (get_running_jobs_for_liveness lib queue_names d) \<longleftrightarrow>
      (\<exists>j a. (j, a) \<in> set (running_with_attempts queue_names d) \<and> rec = liveness_of lib d (j, a)))"
proof -
  let ?ps = "running_with_attempts queue_names d"
  let ?ds = "foldl dict_put [] ?ps"
  note f = dict_fold [of "[]" ?ps, simplified]
  have id: "lv_job_id \<circ> liveness_of lib d = j_id \<circ> fst"
    by (auto simp: liveness_of_def Let_def fun_eq_iff)
  have "set ?ps \<subseteq> set ?ds"
  proof
    fix p assume p: "p \<in> set ?ps"
    then have "j_id (fst p) \<in> (j_id \<circ> fst) ` set ?ds" using f by auto
    then obtain q where q: "q \<in> set ?ds" "j_id (fst q) = j_id (fst p)" by auto
    then have qp: "q \<in> set ?ps" using f by auto
    obtain j a i b where *: "p = (j, a)" "q = (i, b)" by fastforce
    have "i = j" using q(2) qp p * wf_live_unique [OF assms] by (simp add: running_with_attempts_iff)
    moreover have "b = a"
      using q(2) qp p * wf_open_unique [OF assms, of b "j_id j" a] by (simp add: running_with_attempts_iff)
    ultimately show "p \<in> set ?ds" using q * by simp
  qed
  then have ds: "set ?ds = set ?ps" using f by auto
  show ?thesis
    using f ds by (auto simp: get_running_jobs_for_liveness_def id)
qed

section \<open>What the sweep does\<close>

definition failed_as_zombie :: "job_id \<Rightarrow> string \<Rightarrow> timestamp \<Rightarrow> attempt \<Rightarrow> db \<Rightarrow> bool" where
  "failed_as_zombie k reason t a d \<longleftrightarrow>
     (\<exists>h\<in>set (history d). j_id h = k \<and> j_status h = Failed \<and> j_error h = reason \<and>
        j_termination_reason h = ''zombie_job'') \<and>
     close_row Outcome_abandoned t a \<in> set (attempts d)"

lemma failed_as_zombie_stays:
  assumes f: "failed_as_zombie k reason t a d" and s: "safe d d'" and w: "wf_db d"
  shows "failed_as_zombie k reason t a d' \<and> k \<notin> j_id ` set (live d')"
proof -
  have ev: "evolves d d'" and w': "wf_db d'" using s w by (auto simp: safe_def)
  have f': "failed_as_zombie k reason t a d'"
    using f ev unfolding failed_as_zombie_def
    by (fastforce simp: evolves_def history_grows_def prefix_def attempts_evolve_def att_le_def)
  then obtain h where h: "h \<in> set (history d')" "j_id h = k" by (auto simp: failed_as_zombie_def)
  then have "k \<notin> j_id ` set (live d')" using wf_live_not_history [OF w'] by (metis imageE imageI)
  with f' show ?thesis by blast
qed

lemma zombie_is_failed:
  assumes w: "wf_db d" and j: "j \<in> set (live d)" "j_status j = Queued"
    and a: "a \<in> set (attempts d)" "open_for (j_id j) a" and slot: "slot \<in> set SLOTS"
  shows "\<exists>d'. fail_zombie_job slot now (j_id j) reason d = (d', Inr True) \<and>
    failed_as_zombie (j_id j) reason now a d'"
proof -
  let ?k = "j_id j"
  let ?d1 = "fst (close_unfenced ?k Outcome_abandoned now d)"
  have row: "live_by_id ?k d = Some j" using live_by_id_Some [OF w] j by blast
  have "filter (open_for ?k) (attempts d) \<noteq> []" using a by (auto simp: filter_empty_conv)
  then obtain b where b: "open_attempt_in d ?k = Some b"
    by (cases "open_attempt_in d ?k") (auto simp: open_attempt_in_def)
  have closed: "0 < snd (close_unfenced ?k Outcome_abandoned now d)"
    using a by (auto simp: close_unfenced_def close_open_def Let_def rowcount_pos open_for_def)
  have w1: "wf_db ?d1" using close_variants_safe(3) w by (simp add: safe_def)
  have row1: "live_by_id ?k ?d1 = Some j"
    using row by (simp add: live_by_id_def close_unfenced_def)
  let ?j = "mark_failed now reason [] ''zombie_job'' (overlay_running (Some b) j)"
  let ?v = "no_values\<lparr>v_finished_at := j_finished_at ?j, v_duration := Some (j_duration_seconds ?j),
     v_error := Some (j_error ?j), v_traceback := Some (j_traceback ?j),
     v_termination_reason := Some (j_termination_reason ?j), v_runs := Some (j_runs ?j)\<rparr>"
  let ?fe = "no_fences\<lparr>fe_created_at := Some (j_created_at ?j)\<rparr>"
  let ?d2 = "moved_to_history now ?k Failed ?v j ?d1"
  have mv: "move_where ?d1 ?k ?fe j" by (simp add: move_where_def no_fences_def overlay_running_def)
  have fin: "finish_in now ?k Failed ?v ?fe ?d1 = Inr (?d2, True)"
    using row1 mv by (simp add: finish_in_cases [OF w1])
  let ?d' = "release_dependents_quietly slot now ?k (j_parent_job_id ?j) ?d2"
  have z: "fail_zombie_job slot now ?k reason d = (?d', Inr True)"
    using row j(2) b closed fin by (simp add: fail_zombie_job_def Let_def split_beta)
  have s2: "safe ?d1 ?d2" using row1 live_by_id_Some [OF w1] by (intro moved_safe) auto
  then have w2: "wf_db ?d2" using w1 by (simp add: safe_def)
  then have ev: "evolves ?d2 ?d'" using release_quietly_safe [OF slot] by (auto simp: safe_def)
  have h: "history_row ?d1 now Failed ?v j \<in> set (history ?d')"
    using ev by (auto simp: evolves_def history_grows_def prefix_def)
  have "close_row Outcome_abandoned now a \<in> set (attempts ?d1)"
    using a by (auto simp: close_unfenced_def close_open_def Let_def update_where_mem open_for_def)
  then have "close_row Outcome_abandoned now a \<in> set (attempts ?d')"
    using s2 w1 ev by (fastforce simp: safe_def evolves_def attempts_evolve_def att_le_def)
  moreover have "j_error (history_row ?d1 now Failed ?v j) = reason"
    "j_termination_reason (history_row ?d1 now Failed ?v j) = ''zombie_job''"
    by (simp_all add: history_row_def set_ran_def set_values_def override_def no_values_def
        split: option.splits)
  ultimately have "failed_as_zombie ?k reason now a ?d'"
    unfolding failed_as_zombie_def using h by (intro conjI bexI [OF _ h]) simp_all
  then show ?thesis using z by blast
qed

lemma sweep_one_safe: "slot \<in> set SLOTS \<Longrightarrow> safe (fst s) (fst (sweep_one env slot clk now rec s))"
  using fail_zombie_safe [of slot "fst s"]
  by (auto simp: sweep_one_def split: option.splits prod.splits sum.splits bool.splits)
    (metis fst_conv)+

lemma sweep_safe:
  "slot \<in> set SLOTS \<Longrightarrow> safe (fst s) (fst (fold (sweep_one env slot clk now) recs s))"
proof (induction recs arbitrary: s)
  case (Cons r recs)
  show ?case
    using safe_trans [OF sweep_one_safe Cons.IH [of "sweep_one env slot clk now r s"]] Cons.prems by simp
qed simp

lemma sweep_untouched:
  assumes "is_running (fst s) k" "\<forall>r\<in>set recs. lv_job_id r = k \<longrightarrow> zombie_reason env now r = None"
  shows "untouched k (fst s) (fst (fold (sweep_one env slot clk now) recs s))"
  using assms
proof (induction recs arbitrary: s)
  case (Cons r recs)
  let ?s1 = "sweep_one env slot clk now r s"
  have u: "untouched k (fst s) (fst ?s1)"
  proof (cases "zombie_reason env now r")
    case (Some reason)
    then have "lv_job_id r \<noteq> k" using Cons.prems(2) by auto
    from untouched_fail_zombie [OF this Cons.prems(1)] show ?thesis
      using Some
      by (auto simp: sweep_one_def split: prod.splits sum.splits bool.splits) (metis fst_conv)+
  qed (simp add: sweep_one_def)
  have "untouched k (fst ?s1) (fst (fold (sweep_one env slot clk now) recs ?s1))"
    using Cons.IH [of ?s1] Cons.prems untouched_running [OF u] by simp
  then show ?case using untouched_trans [OF u] by simp
qed simp

lemma sweep_decides:
  assumes w: "wf_db d" and slot: "slot \<in> set SLOTS"
    and j: "j \<in> set (live d)" "j_status j = Queued" "selected queue_names j"
    and a: "a \<in> set (attempts d)" "open_for (j_id j) a"
    and sweep: "fail_zombie_running_jobs lib env slot clk now queue_names d = (d', n)"
  shows "case zombie_reason env now (liveness_of lib d (j, a)) of
      None \<Rightarrow> j \<in> set (live d') \<and> a \<in> set (attempts d')
    | Some reason \<Rightarrow>
        failed_as_zombie (j_id j) reason (clk (j_id j)) a d' \<and> j_id j \<notin> j_id ` set (live d')"
proof -
  let ?rec = "liveness_of lib d (j, a)"
  let ?recs = "get_running_jobs_for_liveness lib queue_names d"
  let ?go = "fold (sweep_one env slot clk now)"
  have rec: "?rec \<in> set ?recs" and dist: "distinct (map lv_job_id ?recs)"
    using records_exact [OF w] j a by (auto simp: running_with_attempts_iff)
  have id: "lv_job_id ?rec = j_id j" by (simp add: liveness_of_def Let_def)
  have run: "is_running d (j_id j)" using a by (auto simp: is_running_def)
  from rec obtain xs ys where split: "?recs = xs @ ?rec # ys" by (meson split_list)
  have others: "lv_job_id r \<noteq> j_id j" if "r \<in> set xs \<union> set ys" for r
    using dist that id unfolding split by (auto simp: image_iff)
  define s1 where "s1 = ?go xs (d, 0)"
  have u1: "untouched (j_id j) d (fst s1)"
    unfolding s1_def using sweep_untouched [of "(d, 0)" "j_id j" xs] run others by auto
  have d': "d' = fst (?go ys (sweep_one env slot clk now ?rec s1))"
    using sweep by (simp add: fail_zombie_running_jobs_def split s1_def)
  show ?thesis
  proof (cases "zombie_reason env now ?rec")
    case None
    have "is_running (fst s1) (j_id j)" using run untouched_running [OF u1] by simp
    then have "untouched (j_id j) (fst s1) d'"
      unfolding d' using sweep_untouched [of s1 "j_id j" ys] others None
      by (auto simp: sweep_one_def)
    from untouched_keeps [OF untouched_trans [OF u1 this]] show ?thesis using None j a by auto
  next
    case (Some reason)
    have w1: "wf_db (fst s1)"
      unfolding s1_def using sweep_safe [OF slot, of "(d, 0)"] w by (simp add: safe_def)
    obtain e where e: "fail_zombie_job slot (clk (j_id j)) (j_id j) reason (fst s1) = (e, Inr True)"
      and f: "failed_as_zombie (j_id j) reason (clk (j_id j)) a e"
      using zombie_is_failed [OF w1 _ j(2) _ a(2) slot] untouched_keeps [OF u1] j(1) a by blast
    have de: "d' = fst (?go ys (e, snd s1 + 1))" using Some e by (simp add: d' sweep_one_def id)
    have "wf_db e" using fail_zombie_safe [OF slot, of "fst s1"] e w1 by (metis fst_conv safe_def)
    then show ?thesis
      using failed_as_zombie_stays [OF f] sweep_safe [OF slot, of "(e, snd s1 + 1)"] Some
      by (simp add: de)
  qed
qed

lemma record_job_id [simp]: "lv_job_id (liveness_of lib d (j, a)) = j_id j"
  by (simp add: liveness_of_def Let_def)

text \<open>A job whose record passes is untouched, whether or not the sweep selects its queue.\<close>

lemma sweep_passes:
  assumes w: "wf_db d" and slot: "slot \<in> set SLOTS" and j: "j \<in> set (live d)" "j_status j = Queued"
    and a: "a \<in> set (attempts d)" "open_for (j_id j) a"
    and none: "zombie_reason env now (liveness_of lib d (j, a)) = None"
  shows "untouched (j_id j) d (fst (fail_zombie_running_jobs lib env slot clk now queue_names d))"
proof -
  have "zombie_reason env now r = None"
    if r: "r \<in> set (get_running_jobs_for_liveness lib queue_names d)" "lv_job_id r = j_id j" for r
  proof -
    obtain i b where i: "(i, b) \<in> set (running_with_attempts queue_names d)" "r = liveness_of lib d (i, b)"
      using r(1) records_exact [OF w] by blast
    then have "i = j" using r(2) j(1) wf_live_unique [OF w] by (simp add: running_with_attempts_iff)
    moreover from this have "b = a"
      using i a wf_open_unique [OF w, of b "j_id j" a] by (simp add: running_with_attempts_iff)
    ultimately show ?thesis using i(2) none by simp
  qed
  then show ?thesis
    using sweep_untouched [of "(d, 0)" "j_id j"] a
    by (fastforce simp: fail_zombie_running_jobs_def is_running_def)
qed

text \<open>An empty selection of queues selects every queue.\<close>

lemma sweep_without_queues:
  "fail_zombie_running_jobs lib env slot clk now (Some []) d =
     fail_zombie_running_jobs lib env slot clk now None d"
  by (simp add: fail_zombie_running_jobs_def get_running_jobs_for_liveness_def
      running_with_attempts_def)

lemma busy_worker_passes:
  assumes "a_worker_id a = Some (w_id w)" "worker_by_pk (w_id w) d = Some w"
    and "w_status w \<noteq> W_dead" "w_current_job_id w = Some (j_id j)"
    and "w_last_heartbeat w \<ge> now - seconds (sw_alive_timeout env * 3)"
    and "\<And>pid. a_worker_pid a = Some pid \<Longrightarrow> w_node_id w = sw_node env \<Longrightarrow>
      sw_probe env pid \<noteq> No_process"
  shows "zombie_reason env now (liveness_of lib d (j, a)) = None"
  using assms
  by (cases "a_worker_pid a")
    (auto simp: zombie_reason_def liveness_of_def check_pid_def check_moved_on_def
      check_heartbeat_def truthy_def Let_def)

section \<open>Properties\<close>

text \<open>C10: the zombie sweep decides every running job by its own record and by nothing else. A job whose
  record passes the five checks keeps its row and its open attempt, whatever else the sweep fails and
  whichever dependents that releases; a job whose record fails a check is moved to the history as
  failed with the reason the check gave, and its attempt is closed as abandoned.\<close>

theorem sweep_exact:
  assumes "wf_db d" "slot \<in> set SLOTS"
    and "j \<in> set (live d)" "j_status j = Queued" "selected queue_names j"
    and "a \<in> set (attempts d)" "open_for (j_id j) a"
    and "fail_zombie_running_jobs lib env slot clk now queue_names d = (d', n)"
  shows "case zombie_reason env now (liveness_of lib d (j, a)) of
      None \<Rightarrow> j \<in> set (live d') \<and> a \<in> set (attempts d')
    | Some reason \<Rightarrow>
        failed_as_zombie (j_id j) reason (clk (j_id j)) a d' \<and> j_id j \<notin> j_id ` set (live d')"
  by (rule sweep_decides [OF assms])

text \<open>The claiming worker of the sample job has no worker row.\<close>

definition sample_sweep :: sweep_env where
  "sample_sweep = \<lparr>sw_node = ''n1'', sw_probe = (\<lambda>_. Exists), sw_alive_timeout = 30,
     sw_concurrent = False\<rparr>"

lemma sample_running_rows:
  "sample_job \<in> set (live sample_running)" "j_status sample_job = Queued"
  "new_attempt 1 7 ''tok'' (Some ''w1'') 42 200 \<in> set (attempts sample_running)"
  "open_for (j_id sample_job) (new_attempt 1 7 ''tok'' (Some ''w1'') 42 200)"
  "j_id sample_job = 7" "wf_db sample_running"
  using reachable_wf [OF sample_running_reachable]
  by (simp_all add: sample_running_eval(1) sample_job_def queued_job_def open_for_def new_attempt_def)

theorem sweep_exact_witness:
  "failed_as_zombie 7 ''Running job has no worker assigned'' 300
     (new_attempt 1 7 ''tok'' (Some ''w1'') 42 200)
     (fst (fail_zombie_running_jobs sample_lib sample_sweep 0 (\<lambda>_. 300) 300 (Some [''default''])
       sample_running))"
proof -
  let ?a = "new_attempt 1 7 ''tok'' (Some ''w1'') 42 200"
  have "zombie_reason sample_sweep 300 (liveness_of sample_lib sample_running (sample_job, ?a)) =
      Some ''Running job has no worker assigned''"
    by (simp add: zombie_reason_def check_pid_def liveness_of_def worker_by_pk_def Let_def
        sample_running_eval(1) empty_db_def new_attempt_def sample_sweep_def)
  moreover have "selected (Some [''default'']) sample_job" "0 \<in> set SLOTS"
    by (simp_all add: selected_def sample_job_def queued_job_def sample_spec_def SLOTS_def)
  ultimately show ?thesis
    using sweep_exact [OF sample_running_rows(6) _ sample_running_rows(1,2) _ sample_running_rows(3,4)
        prod.collapse [symmetric], of 0 "Some [''default'']" sample_lib sample_sweep "\<lambda>_. 300" 300]
    by (simp add: sample_running_rows)
qed

text \<open>A worker that is at work keeps its job. When the process of a worker on the daemon's node
  exists, its row is active and names the job, then the heartbeat round of a daemon cycle followed by
  its zombie sweep leaves the job running, even if the worker wrote no heartbeat of its own in between, as
  long as the sweep looks within three timeouts of the round.\<close>

theorem busy_worker_keeps_job:
  assumes w: "wf_db d" "wf_workers (ho_lib h) d" and slot: "slot \<in> set SLOTS"
    and wk: "wk \<in> set (workers d)" "w_node_id wk = node" "0 < w_pid wk" "w_pid wk \<noteq> ho_pid h"
      "\<not> startswith (w_id wk) ''daemon_''" "sw_probe env (w_pid wk) = Exists"
    and act: "w_status wk \<noteq> W_dead" "w_last_heartbeat wk \<ge> hnow - seconds timeout"
      "w_current_job_id wk = Some (j_id j)"
    and j: "j \<in> set (live d)" "j_status j = Queued"
    and a: "a \<in> set (attempts d)" "open_for (j_id j) a" "a_worker_id a = Some (w_id wk)"
      "a_worker_pid a = Some (w_pid wk)"
    and time: "clk (w_id wk) \<ge> now - seconds (sw_alive_timeout env * 3)"
  shows "let d' = fst (fail_zombie_running_jobs (ho_lib h) env slot jclk now queue_names
               (heartbeat_workers h node (sw_probe env) clk hnow timeout d))
    in j \<in> set (live d') \<and> a \<in> set (attempts d')"
proof -
  let ?d1 = "heartbeat_workers h node (sw_probe env) clk hnow timeout d"
  obtain ws where d1: "?d1 = d\<lparr>workers := ws\<rparr>" using heartbeat_workers_frame by blast
  let ?w = "wk\<lparr>w_last_heartbeat := clk (w_id wk)\<rparr>"
  have "worker_by_pk (w_id wk) ?d1 = Some ?w"
    using heartbeat_workers_row [OF w(2) wk(1) act(2,1)] wk
    by (simp add: heartbeat_row_def is_process_running_def)
  then have none: "zombie_reason env now (liveness_of (ho_lib h) ?d1 (j, a)) = None"
    using busy_worker_passes [of a ?w ?d1 j now env "ho_lib h"] a(3,4) act wk(6) time by auto
  have w1: "wf_db ?d1" using workers_safe w(1) unfolding d1 by (simp add: safe_def)
  have rows: "j \<in> set (live ?d1)" "a \<in> set (attempts ?d1)" using j a unfolding d1 by simp_all
  show ?thesis
    using untouched_keeps [OF sweep_passes [OF w1 slot rows(1) j(2) rows(2) a(2) none]] rows a(2)
    by (simp add: Let_def)
qed

theorem busy_worker_keeps_job_witness:
  "let d' = fst (fail_zombie_running_jobs sample_lib sample_sweep 0 (\<lambda>_. 300) 300 None
       (heartbeat_workers sample_host ''n1'' (\<lambda>_. Exists) (\<lambda>_. 250) 240 30
          (sample_running\<lparr>workers := [sample_worker ''w1'' 42 (Some 7)]\<rparr>)))
   in sample_job \<in> set (live d') \<and> new_attempt 1 7 ''tok'' (Some ''w1'') 42 200 \<in> set (attempts d')"
proof -
  let ?d = "sample_running\<lparr>workers := [sample_worker ''w1'' 42 (Some 7)]\<rparr>"
  have "wf_db ?d" using workers_safe sample_running_rows(6) by (simp add: safe_def)
  moreover have "wf_workers (ho_lib sample_host) ?d"
    by (simp add: wf_workers_def sample_host_def sample_lib_def)
  ultimately show ?thesis
    using busy_worker_keeps_job [of ?d sample_host 0 "sample_worker ''w1'' 42 (Some 7)" "''n1''" sample_sweep
        240 30 sample_job "new_attempt 1 7 ''tok'' (Some ''w1'') 42 200" 300 "\<lambda>_. 250" "\<lambda>_. 300" None]
      sample_running_rows
    by (simp add: sample_worker_def sample_host_def sample_sweep_def SLOTS_def startswith_def
        new_attempt_def seconds_def)
qed

end
