(* ===== verification/Sq_Execution.thy ===== *)
theory Sq_Execution
  imports Sq_Transactions Sq_Liveness
begin

text \<open>
  Running a claimed job (\<^verbatim>\<open>core/worker.py\<close>): \<^verbatim>\<open>JobExecutor.execute_job\<close>, \<^verbatim>\<open>run_job_in_child\<close>,
  \<^verbatim>\<open>persist_outcome\<close>, \<^verbatim>\<open>cleanup_stale_jobs\<close> and \<^verbatim>\<open>can_execute_job\<close>, and of \<^verbatim>\<open>WorkerProcess\<close> the wait for
  the child, the settlement of its outcome and \<^verbatim>\<open>_with_reconnect\<close>; with the backend operations only
  they use (\<^verbatim>\<open>get_running_jobs\<close>, \<^verbatim>\<open>has_running_jobs_in_queue\<close>).

  The task is a parameter: \<open>task_end\<close> is how its call ended, import errors and timeouts included. The
  connection is another: \<open>link\<close> says whether a write was answered, was lost before it was committed, or
  was committed although its answer was lost. A completion reads the job twice; here both reads see the
  same state (the race between them is the argument \<open>d0\<close> of the operations of the backend). Signals,
  callbacks and log lines change no table and are left out.
\<close>

section \<open>The child\<close>

datatype task_end = Task_returned task_output | Task_raised exc string string

text \<open>
  What the process supplies: the retry settings, \<^verbatim>\<open>isinstance\<close> on exception classes, the class, text and
  traceback of an exception that a backend call raised, the slot new entries go to, the clock, and the
  id drawn for a retry.
\<close>

record exec_env =
  xe_retry :: retry_env
  xe_isinst :: "exc \<Rightarrow> string \<Rightarrow> bool"
  xe_describe :: "py_error \<Rightarrow> exc \<times> string \<times> string"
  xe_slot :: nat
  xe_now :: timestamp
  xe_new_id :: job_id

datatype link = Link_up | Lost_before | Lost_after

text \<open>The answer of a call, or the exception for which \<^verbatim>\<open>is_connection_lost\<close> is true.\<close>

datatype 'a reply = Lost | Answer "'a result"

definition over_link :: "link \<Rightarrow> (db \<Rightarrow> db \<times> 'a result) \<Rightarrow> db \<Rightarrow> db \<times> 'a reply" where
  "over_link l f d =
     (case l of
        Link_up \<Rightarrow> (fst (f d), Answer (snd (f d)))
      | Lost_before \<Rightarrow> (d, Lost)
      | Lost_after \<Rightarrow> (fst (f d), Lost))"

record unpersisted_outcome =
  uo_job_id :: job_id
  uo_success :: bool
  uo_expected_version :: "int option"
  uo_attempt :: "attempt_handle option"
  uo_output :: "task_output option"
  uo_error :: string
  uo_traceback :: string
  uo_will_retry :: bool
  uo_countdown :: "rat option"

definition success_outcome :: "job \<Rightarrow> attempt_handle option \<Rightarrow> task_output \<Rightarrow> unpersisted_outcome" where
  "success_outcome job att out =
     \<lparr>uo_job_id = j_id job, uo_success = True, uo_expected_version = Some (j_version job),
      uo_attempt = att, uo_output = Some out, uo_error = [], uo_traceback = [],
      uo_will_retry = False, uo_countdown = None\<rparr>"

definition failure_outcome ::
  "job \<Rightarrow> attempt_handle option \<Rightarrow> string \<Rightarrow> string \<Rightarrow> bool \<Rightarrow> rat option \<Rightarrow> unpersisted_outcome" where
  "failure_outcome job att msg tb will_retry countdown =
     \<lparr>uo_job_id = j_id job, uo_success = False, uo_expected_version = Some (j_version job),
      uo_attempt = att, uo_output = None, uo_error = msg, uo_traceback = tb,
      uo_will_retry = will_retry, uo_countdown = countdown\<rparr>"

text \<open>
  How \<^verbatim>\<open>run_job_in_child\<close> ends: its exit code with what it left in \<^verbatim>\<open>self.unpersisted\<close> and
  \<^verbatim>\<open>self.recorded\<close>, or an exception that leaves the method.
\<close>

datatype child_end =
    Child_returns int "unpersisted_outcome option" "(bool \<times> string) option"
  | Child_raises

definition should_retry_in :: "exec_env \<Rightarrow> job \<Rightarrow> exc option \<Rightarrow> bool" where
  "should_retry_in env = worker_should_retry (re_load_task (xe_retry env)) (xe_isinst env)"

definition executor_mark_failed ::
  "exec_env \<Rightarrow> job_id \<Rightarrow> string \<Rightarrow> string \<Rightarrow> int option \<Rightarrow> bool \<Rightarrow> string \<Rightarrow> attempt_handle option \<Rightarrow>
     db \<Rightarrow> db \<times> job option result" where
  "executor_mark_failed env jid error tb ver will_retry reason att d =
     mark_job_failed (xe_slot env) (xe_now env) d jid error tb ver
       (if will_retry then pending_reason reason else []) att d"

definition executor_retry_job ::
  "exec_env \<Rightarrow> job \<Rightarrow> exc option \<Rightarrow> rat option \<Rightarrow> db \<Rightarrow> db" where
  "executor_retry_job env j e countdown d =
     fst (retry_job (xe_retry env) (xe_slot env) (xe_now env) (xe_new_id env) j e countdown d)"

text \<open>The cascade after a success: only for a retry, and its exceptions are swallowed.\<close>

definition cascade_success :: "exec_env \<Rightarrow> job \<Rightarrow> db \<Rightarrow> db" where
  "cascade_success env j d =
     (if j_parent_job_id j = None \<or> j_parent_job_id j = Some 0 then d
      else quiet (cascade_ancestor_status (xe_now env) (j_id j) Success d) d)"

definition fail_in_child ::
  "exec_env \<Rightarrow> link \<Rightarrow> job \<Rightarrow> attempt_handle option \<Rightarrow> exc \<Rightarrow> string \<Rightarrow> string \<Rightarrow> db \<Rightarrow>
     db \<times> child_end" where
  "fail_in_child env lf job att e msg tb d =
     (let will_retry = should_retry_in env job (Some e)
      in case over_link lf
               (executor_mark_failed env (j_id job) msg tb (Some (j_version job)) will_retry [] att) d of
           (d', Lost) \<Rightarrow>
             (d', Child_returns 1
                (Some (failure_outcome job att msg tb will_retry (retry_countdown (Some e)))) None)
         | (d', Answer (Inl _)) \<Rightarrow> (d', Child_returns 1 None None)
         | (d', Answer (Inr None)) \<Rightarrow>
             (d', Child_returns 1 None (if will_retry then None else Some (False, msg)))
         | (d', Answer (Inr (Some failed))) \<Rightarrow>
             (if will_retry then executor_retry_job env failed (Some e) None d' else d',
              Child_returns 1 None
                (Some (False, if j_error failed \<noteq> [] then j_error failed else msg))))"

definition run_job_in_child ::
  "exec_env \<Rightarrow> link \<Rightarrow> link \<Rightarrow> job \<Rightarrow> attempt_handle option \<Rightarrow> task_end \<Rightarrow> db \<Rightarrow> db \<times> child_end" where
  "run_job_in_child env ls lf job att te d =
     (case te of
        Task_raised e msg tb \<Rightarrow> fail_in_child env lf job att e msg tb d
      | Task_returned out \<Rightarrow>
          (case over_link ls (\<lambda>d. mark_job_success (xe_slot env) (xe_now env) d (j_id job) out
                                    (Some (j_version job)) att d) d of
             (d', Lost) \<Rightarrow> (d', Child_returns 0 (Some (success_outcome job att out)) None)
           | (d', Answer (Inl err)) \<Rightarrow>
               (if err = JobFencingError then (d', Child_returns 0 None None)
                else case xe_describe env err of (e, msg, tb) \<Rightarrow>
                       fail_in_child env lf job att e msg tb d')
           | (d', Answer (Inr None)) \<Rightarrow> (d', Child_raises)
           | (d', Answer (Inr (Some j))) \<Rightarrow>
               (cascade_success env j d', Child_returns 0 None (Some (True, py_str out)))))"

section \<open>The in-process executor\<close>

definition execute_failure ::
  "exec_env \<Rightarrow> job \<Rightarrow> attempt_handle option \<Rightarrow> exc \<Rightarrow> string \<Rightarrow> string \<Rightarrow> db \<Rightarrow> db \<times> job result" where
  "execute_failure env job att e msg tb d =
     (let will_retry = should_retry_in env job (Some e)
      in case executor_mark_failed env (j_id job) msg tb (Some (j_version job)) will_retry [] att d of
           (d', Inl err) \<Rightarrow> (d', if err = JobFencingError then Inr job else Inl err)
         | (d', Inr None) \<Rightarrow> (d', Inl AttributeError)
         | (d', Inr (Some failed)) \<Rightarrow>
             (if will_retry then executor_retry_job env failed (Some e) None d' else d', Inr failed))"

definition execute_job ::
  "exec_env \<Rightarrow> job_id \<Rightarrow> attempt_handle option \<Rightarrow> task_end \<Rightarrow> db \<Rightarrow> db \<times> job result" where
  "execute_job env jid att te d =
     (case get_job_by_id jid d of
        F_other \<Rightarrow> (d, Inl AttributeError)
      | F_history j \<Rightarrow> (d, Inr j)
      | F_live job \<Rightarrow>
          if j_status job \<noteq> Running \<and> j_status job \<noteq> Queued then (d, Inr job)
          else
            (case te of
               Task_raised e msg tb \<Rightarrow> execute_failure env job att e msg tb d
             | Task_returned out \<Rightarrow>
                 (case mark_job_success (xe_slot env) (xe_now env) d (j_id job) out
                         (Some (j_version job)) att d of
                    (d', Inl err) \<Rightarrow>
                      (if err = JobFencingError then (d', Inr job)
                       else case xe_describe env err of (e, msg, tb) \<Rightarrow>
                              execute_failure env job att e msg tb d')
                  | (d', Inr None) \<Rightarrow> (d', Inl AttributeError)
                  | (d', Inr (Some j)) \<Rightarrow> (cascade_success env j d', Inr j))))"

section \<open>The parent\<close>

text \<open>\<^verbatim>\<open>persist_outcome\<close>; the link is that of the write that closes the attempt.\<close>

definition persist_outcome ::
  "exec_env \<Rightarrow> link \<Rightarrow> unpersisted_outcome \<Rightarrow> db \<Rightarrow> db \<times> unit reply" where
  "persist_outcome env l oc d =
     (if uo_success oc then
        (case over_link l (\<lambda>d. mark_job_success (xe_slot env) (xe_now env) d (uo_job_id oc)
                 (case uo_output oc of Some out \<Rightarrow> out | None \<Rightarrow> Output [])
                 (uo_expected_version oc) (uo_attempt oc) d) d of
           (d', Lost) \<Rightarrow> (d', Lost)
         | (d', Answer (Inl err)) \<Rightarrow> (d', Answer (if err = JobFencingError then Inr () else Inl err))
         | (d', Answer (Inr None)) \<Rightarrow> (d', Answer (Inr ()))
         | (d', Answer (Inr (Some j))) \<Rightarrow> (cascade_success env j d', Answer (Inr ())))
      else
        (case over_link l (executor_mark_failed env (uo_job_id oc) (uo_error oc) (uo_traceback oc)
                 (uo_expected_version oc) (uo_will_retry oc) [] (uo_attempt oc)) d of
           (d', Lost) \<Rightarrow> (d', Lost)
         | (d', Answer (Inl err)) \<Rightarrow> (d', Answer (if err = JobFencingError then Inr () else Inl err))
         | (d', Answer (Inr None)) \<Rightarrow>
             (d', Answer (if uo_will_retry oc then Inl AttributeError else Inr ()))
         | (d', Answer (Inr (Some failed))) \<Rightarrow>
             (if uo_will_retry oc then executor_retry_job env failed None (uo_countdown oc) d' else d',
              Answer (Inr ()))))"

definition SHUTDOWN_RECONNECT_ATTEMPTS :: nat where
  "SHUTDOWN_RECONNECT_ATTEMPTS = 3"

text \<open>
  \<^verbatim>\<open>_with_reconnect\<close>: \<open>fn k\<close> is the \<open>k\<close>-th try, \<open>stop k\<close> whether a shutdown was requested by then, and
  \<open>others k\<close> what other sessions commit before the next try. An outage that never ends is a loop that
  never returns.
\<close>

partial_function (option) with_reconnect ::
  "(nat \<Rightarrow> bool) \<Rightarrow> (nat \<Rightarrow> db \<Rightarrow> db) \<Rightarrow> (nat \<Rightarrow> db \<Rightarrow> db \<times> 'a reply) \<Rightarrow> nat \<Rightarrow> db \<Rightarrow>
     (db \<times> 'a reply) option" where
  "with_reconnect stop others fn k d =
     (case fn k d of
        (d', Answer r) \<Rightarrow> Some (d', Answer r)
      | (d', Lost) \<Rightarrow>
          if stop k \<and> SHUTDOWN_RECONNECT_ATTEMPTS \<le> k then Some (d', Lost)
          else with_reconnect stop others fn (k + 1) (others k d'))"

datatype wait_result = Wait_ok string | Wait_failed string

text \<open>The last part of \<^verbatim>\<open>_await_child\<close>: the verdict on a child that has exited or reported.\<close>

definition child_verdict ::
  "exec_env \<Rightarrow> link \<Rightarrow> job_id \<Rightarrow> attempt_handle option \<Rightarrow> int \<Rightarrow> int \<Rightarrow> found \<Rightarrow> db \<Rightarrow>
     db \<times> wait_result" where
  "child_verdict env l jid att child_pid exit_status refreshed d =
     (let crashed =
            (if exit_status = 0 then (d, Wait_ok [])
             else
               (fst (over_link l (\<lambda>d. mark_job_failed (xe_slot env) (xe_now env) d jid
                       (''Child process exited with status '' @ show_int exit_status)
                       (''Child PID '' @ show_int child_pid @ '' exited abnormally'') None [] att d) d),
                Wait_failed (''Child exited with status '' @ show_int exit_status)));
          by_status = (\<lambda>j. if j_status j = Success then (d, Wait_ok (j_output j))
                           else if j_status j = Failed \<or> j_status j = Archived
                           then (d, Wait_failed (j_error j))
                           else crashed)
      in case refreshed of F_live j \<Rightarrow> by_status j | F_history j \<Rightarrow> by_status j | F_other \<Rightarrow> crashed)"

text \<open>
  The whole settlement: the outcome the child handed over is persisted, what the child recorded is
  believed, and otherwise the job is read back. \<open>None\<close> in the second component: an exception leaves the
  method (the worker loop then starts over).
\<close>

definition read_back ::
  "exec_env \<Rightarrow> (nat \<Rightarrow> bool) \<Rightarrow> (nat \<Rightarrow> db \<Rightarrow> db) \<Rightarrow> (nat \<Rightarrow> link) \<Rightarrow> link \<Rightarrow> job_id \<Rightarrow>
     attempt_handle option \<Rightarrow> int \<Rightarrow> int \<Rightarrow> db \<Rightarrow> (db \<times> wait_result option) option" where
  "read_back env stop others lr lf jid att child_pid exit_status d =
     (case with_reconnect stop others
             (\<lambda>k. over_link (lr k) (\<lambda>d. (d, Inr (get_job_by_id jid d)))) 0 d of
        None \<Rightarrow> None
      | Some (d', Answer (Inr refreshed)) \<Rightarrow>
          (case child_verdict env lf jid att child_pid exit_status refreshed d' of
             (d2, r) \<Rightarrow> Some (d2, Some r))
      | Some (d', _) \<Rightarrow> Some (d', None))"

definition settle_child ::
  "exec_env \<Rightarrow> (nat \<Rightarrow> bool) \<Rightarrow> (nat \<Rightarrow> db \<Rightarrow> db) \<Rightarrow> (nat \<Rightarrow> link) \<Rightarrow> (nat \<Rightarrow> link) \<Rightarrow> link \<Rightarrow>
     job_id \<Rightarrow> attempt_handle option \<Rightarrow> int \<Rightarrow> int \<Rightarrow> unpersisted_outcome option \<Rightarrow>
     (bool \<times> string) option \<Rightarrow> db \<Rightarrow> (db \<times> wait_result option) option" where
  "settle_child env stop others lp lr lf jid att child_pid exit_status handed_over recorded d =
     (case handed_over of
        Some oc \<Rightarrow>
          (case with_reconnect stop others (\<lambda>k. persist_outcome env (lp k) oc) 0 d of
             None \<Rightarrow> None
           | Some (d', Answer (Inr _)) \<Rightarrow>
               read_back env stop others lr lf jid att child_pid exit_status d'
           | Some (d', _) \<Rightarrow> Some (d', None))
      | None \<Rightarrow>
          (case recorded of
             Some (success, text) \<Rightarrow>
               Some (d, Some (if success then Wait_ok text else Wait_failed text))
           | None \<Rightarrow> read_back env stop others lr lf jid att child_pid exit_status d))"

section \<open>Waiting for the child\<close>

definition WAIT_TICK_MIN :: rat where "WAIT_TICK_MIN = 5 / 1000"
definition WAIT_TICK_MAX :: rat where "WAIT_TICK_MAX = 1 / 2"
definition WAIT_SPURIOUS_MAX :: nat where "WAIT_SPURIOUS_MAX = 20"

text \<open>
  The local variables of the wait loop. \<open>ws_fd\<close>: there is a descriptor to wait on (\<^verbatim>\<open>wait_fd\<close> is not
  \<^verbatim>\<open>None\<close>).
\<close>

record wait_state =
  ws_fd :: bool
  ws_sleep :: rat
  ws_slept :: rat
  ws_woke :: bool
  ws_spurious :: nat
  ws_revoke_at :: rat
  ws_beat_at :: rat

text \<open>
  What one pass of the loop observes: the poll (the exit code once the child is done), the readings of
  the monotonic clock in the order the pass takes them, the end of a wait on the descriptor, and the
  answer of \<^verbatim>\<open>is_job_revoke_requested\<close> (false when the read fails).
\<close>

datatype fd_wait = Fd_ready | Fd_timeout | Fd_error

record tick =
  tk_poll :: "int option"
  tk_clock :: "nat \<Rightarrow> rat"
  tk_fd :: fd_wait
  tk_revoked :: bool

record wait_config =
  wc_start :: rat
  wc_parent_timeout :: "rat option"
  wc_revoke_poll :: rat
  wc_heartbeat :: rat

datatype wait_end = Exited int | Timed_out int | Revoked

text \<open>What a pass does besides waiting: the deferred heartbeat, and the database duties of a full tick.\<close>

datatype duty = Check_heartbeat | Check_revoke | Lease_heartbeat | Renew_leases

definition duties_of :: "wait_config \<Rightarrow> wait_state \<Rightarrow> tick \<Rightarrow> wait_end option \<times> wait_state \<times> duty list" where
  "duties_of cf st tk =
     (let c = tk_clock tk;
          st1 = st\<lparr>ws_slept := 0\<rparr>;
          due = (wc_revoke_poll cf > 0 \<and> c 3 - ws_revoke_at st \<ge> wc_revoke_poll cf);
          st2 = (if due then st1\<lparr>ws_revoke_at := c 4\<rparr> else st1)
      in if due \<and> tk_revoked tk then (Some Revoked, st2, [Check_revoke])
         else
           (let beat = (c 5 - ws_beat_at st \<ge> wc_heartbeat cf)
            in (None, if beat then st2\<lparr>ws_beat_at := c 5\<rparr> else st2,
                (if due then [Check_revoke] else []) @ (if beat then [Lease_heartbeat] else []) @
                [Renew_leases])))"

definition wait_tick :: "wait_config \<Rightarrow> wait_state \<Rightarrow> tick \<Rightarrow> wait_end option \<times> wait_state \<times> duty list" where
  "wait_tick cf st tk =
     (case tk_poll tk of
        Some code \<Rightarrow> (Some (Exited code), st, [])
      | None \<Rightarrow>
          (let elapsed = tk_clock tk 0 - wc_start cf
           in if (case wc_parent_timeout cf of None \<Rightarrow> False | Some t \<Rightarrow> elapsed > t)
              then (Some (Timed_out \<lfloor>elapsed\<rfloor>), st, [])
              else if ws_woke st then
                (None, st\<lparr>ws_spurious := ws_spurious st + 1,
                          ws_fd := (ws_fd st \<and> ws_spurious st + 1 \<le> WAIT_SPURIOUS_MAX),
                          ws_woke := False\<rparr>, [Check_heartbeat])
              else if ws_fd st \<and> tk_fd tk = Fd_ready then
                (None, st\<lparr>ws_woke := True,
                          ws_slept := ws_slept st + (tk_clock tk 2 - tk_clock tk 1)\<rparr>, [Check_heartbeat])
              else
                (let st1 = st\<lparr>ws_fd := (ws_fd st \<and> tk_fd tk \<noteq> Fd_error),
                             ws_slept := ws_slept st + ws_sleep st,
                             ws_sleep := min (ws_sleep st * 2) WAIT_TICK_MAX\<rparr>
                 in if ws_slept st1 < WAIT_TICK_MAX then (None, st1, [Check_heartbeat])
                    else case duties_of cf st1 tk of
                           (r, st2, ds) \<Rightarrow> (r, st2, Check_heartbeat # ds))))"

text \<open>\<open>None\<close>: after the observed passes the loop is still waiting.\<close>

fun wait_loop :: "wait_config \<Rightarrow> wait_state \<Rightarrow> tick list \<Rightarrow> wait_end option \<times> wait_state" where
  "wait_loop cf st [] = (None, st)"
| "wait_loop cf st (tk # tks) =
     (case wait_tick cf st tk of
        (Some r, st', _) \<Rightarrow> (Some r, st')
      | (None, st', _) \<Rightarrow> wait_loop cf st' tks)"

definition wait_start :: "bool \<Rightarrow> rat \<Rightarrow> rat \<Rightarrow> wait_state" where
  "wait_start fd beat_at revoke_at =
     \<lparr>ws_fd = fd, ws_sleep = WAIT_TICK_MIN, ws_slept = 0, ws_woke = False, ws_spurious = 0,
      ws_revoke_at = revoke_at, ws_beat_at = beat_at\<rparr>"

text \<open>\<^verbatim>\<open>timeout = job.timeout_seconds or get_config(...)\<close> and the safety net 60 seconds later.\<close>

definition job_timeout :: "int \<Rightarrow> job \<Rightarrow> int" where
  "job_timeout dflt j =
     (case j_timeout_seconds j of Some t \<Rightarrow> if t \<noteq> 0 then t else dflt | None \<Rightarrow> dflt)"

definition parent_timeout :: "int \<Rightarrow> rat option" where
  "parent_timeout timeout = (if timeout \<noteq> 0 then Some (of_int (timeout + 60)) else None)"

definition REVOKED_ERROR :: string where
  "REVOKED_ERROR = ''Revoked by user''"

text \<open>
  \<^verbatim>\<open>_await_child\<close> as a whole: \<open>wait\<close> is how the loop above ended. A child that overran its time or was
  revoked is killed and its job failed through the claim's handle; exceptions of that write are
  swallowed.
\<close>

definition give_up ::
  "exec_env \<Rightarrow> link \<Rightarrow> job_id \<Rightarrow> attempt_handle option \<Rightarrow> string \<Rightarrow> string \<Rightarrow> db \<Rightarrow> db" where
  "give_up env l jid att error tb d =
     fst (over_link l
       (\<lambda>d. mark_job_failed (xe_slot env) (xe_now env) d jid error tb None [] att d) d)"

definition await_child ::
  "exec_env \<Rightarrow> (nat \<Rightarrow> bool) \<Rightarrow> (nat \<Rightarrow> db \<Rightarrow> db) \<Rightarrow> (nat \<Rightarrow> link) \<Rightarrow> (nat \<Rightarrow> link) \<Rightarrow> link \<Rightarrow> int \<Rightarrow>
     job \<Rightarrow> attempt_handle option \<Rightarrow> int \<Rightarrow> wait_end \<Rightarrow> unpersisted_outcome option \<Rightarrow>
     (bool \<times> string) option \<Rightarrow> db \<Rightarrow> (db \<times> wait_result option) option" where
  "await_child env stop others lp lr lf dflt job att child_pid wait handed_over recorded d =
     (case wait of
        Exited code \<Rightarrow>
          settle_child env stop others lp lr lf (j_id job) att child_pid code handed_over recorded d
      | Timed_out elapsed \<Rightarrow>
          Some (give_up env lf (j_id job) att
                  (''Job '' @ show_int (j_id job) @ '' exceeded timeout of '' @
                   show_int (job_timeout dflt job) @ '' seconds (parent safety net at '' @
                   show_int elapsed @ ''s)'')
                  (''Parent killed child PID '' @ show_int child_pid @ '' after '' @ show_int elapsed @
                   ''s'') d,
                Some (Wait_failed (''Timeout after '' @ show_int elapsed @ ''s'')))
      | Revoked \<Rightarrow>
          Some (give_up env lf (j_id job) att REVOKED_ERROR
                  (''Child PID '' @ show_int child_pid @ '' terminated on revoke request'') d,
                Some (Wait_failed REVOKED_ERROR)))"

text \<open>What the parent writes before it waits: the child's PID on the attempt, errors swallowed.\<close>

definition note_child :: "link \<Rightarrow> job_id \<Rightarrow> int \<Rightarrow> attempt_handle option \<Rightarrow> db \<Rightarrow> db" where
  "note_child l jid child_pid att d =
     fst (over_link l (\<lambda>d. (update_job_child_pid jid child_pid att d, Inr ())) d)"

section \<open>Admission and stale jobs\<close>

definition has_running_jobs_in_queue :: "string \<Rightarrow> job_id option \<Rightarrow> db \<Rightarrow> bool" where
  "has_running_jobs_in_queue queue exclude d \<longleftrightarrow>
     rowcount (\<lambda>j. j_queue_name j = queue \<and> running_clause d j \<and>
       (case exclude of None \<Rightarrow> True | Some k \<Rightarrow> k = 0 \<or> j_id j \<noteq> k)) (live d) > 0"

definition can_execute_job :: "job \<Rightarrow> db \<Rightarrow> bool" where
  "can_execute_job j d \<longleftrightarrow>
     j_allow_parallel j \<or> \<not> has_running_jobs_in_queue (j_queue_name j) (Some (j_id j)) d"

definition get_running_jobs :: "string option \<Rightarrow> db \<Rightarrow> job list" where
  "get_running_jobs queue d =
     map (\<lambda>(j, a). overlay_running (Some a) j)
       (foldl dict_put [] (running_with_attempts
          (case queue of Some q \<Rightarrow> if q \<noteq> [] then Some [q] else None | None \<Rightarrow> None) d))"

definition stale_threshold :: "job \<Rightarrow> int" where
  "stale_threshold j =
     (case j_timeout_seconds j of Some t \<Rightarrow> if t \<noteq> 0 then t * 2 else 3600 | None \<Rightarrow> 3600)"

text \<open>
  One job of \<^verbatim>\<open>cleanup_stale_jobs\<close>: the database, the process that is killed if any, and the exception
  that ends the sweep. \<open>pid_of\<close> are the open attempts the sweep read at its start.
\<close>

definition stale_one ::
  "timestamp \<Rightarrow> exec_env \<Rightarrow> (job_id \<Rightarrow> attempt option) \<Rightarrow> job \<Rightarrow> db \<Rightarrow>
     db \<times> int option \<times> unit result" where
  "stale_one now env pid_of job d =
     (case j_started_at job of
        None \<Rightarrow>
          (case mark_job_failed (xe_slot env) (xe_now env) d (j_id job)
                  ''Worker crashed before job execution started''
                  ''Job was stuck in 'running' state with no started_at timestamp'' None [] None d of
             (d', r) \<Rightarrow> (d', None, map_sum id (\<lambda>_. ()) r))
      | Some started \<Rightarrow>
          (let threshold = stale_threshold job; running = now - started
           in if \<not> running > seconds threshold then (d, None, Inr ())
              else
                (let pid = (case pid_of (j_id job) of
                              Some a \<Rightarrow> a_worker_pid a | None \<Rightarrow> j_worker_pid job);
                     killed = (case pid of Some p \<Rightarrow> if p \<noteq> 0 then Some p else None | None \<Rightarrow> None)
                 in case executor_mark_failed env (j_id job)
                           (''Worker crashed or was killed (running for '' @
                            show_int (whole_seconds running) @ ''s, threshold '' @
                            show_int threshold @ ''s)'')
                           (''Job was stuck in 'running' state - likely worker process crashed, '' @
                            ''killed by OOM, or terminated by signal'')
                           None (should_retry_in env job None) [] None d of
                      (d', Inl e) \<Rightarrow> (d', killed, Inl e)
                    | (d', Inr _) \<Rightarrow>
                        (case get_job_by_id (j_id job) d' of
                           F_other \<Rightarrow> (d', killed, Inl AttributeError)
                         | F_live j \<Rightarrow>
                             (if should_retry_in env j None
                              then executor_retry_job env j None None d' else d', killed, Inr ())
                         | F_history j \<Rightarrow>
                             (if should_retry_in env j None
                              then executor_retry_job env j None None d' else d', killed, Inr ())))))"

fun stale_each ::
  "timestamp \<Rightarrow> (job_id \<Rightarrow> exec_env) \<Rightarrow> (job_id \<Rightarrow> attempt option) \<Rightarrow> job list \<Rightarrow> db \<Rightarrow>
     db \<times> int list \<times> unit result" where
  "stale_each now env pid_of [] d = (d, [], Inr ())"
| "stale_each now env pid_of (j # js) d =
     (case stale_one now (env (j_id j)) pid_of j d of
        (d', killed, Inl e) \<Rightarrow> (d', (case killed of Some p \<Rightarrow> [p] | None \<Rightarrow> []), Inl e)
      | (d', killed, Inr _) \<Rightarrow>
          (case stale_each now env pid_of js d' of
             (d2, ks, r) \<Rightarrow> (d2, (case killed of Some p \<Rightarrow> [p] | None \<Rightarrow> []) @ ks, r)))"

text \<open>\<open>now\<close> is read once for all comparisons; the environment of a job has the later readings and its
  retry id.\<close>

definition cleanup_stale_jobs ::
  "timestamp \<Rightarrow> (job_id \<Rightarrow> exec_env) \<Rightarrow> string option \<Rightarrow> db \<Rightarrow> db \<times> int list \<times> unit result" where
  "cleanup_stale_jobs now env queue d =
     stale_each now env (open_attempt_in d) (get_running_jobs queue d) d"

section \<open>Reconnecting\<close>

lemma with_reconnect_result:
  assumes "with_reconnect stop others fn k d = Some (d', r)" "I d"
    and lost: "\<And>k d d1. I d \<Longrightarrow> fn k d = (d1, Lost) \<Longrightarrow> I d1"
    and answer: "\<And>k d d1 a. I d \<Longrightarrow> fn k d = (d1, Answer a) \<Longrightarrow> J d1 (Answer a)"
    and stopped: "\<And>k d. I d \<Longrightarrow> stop k \<Longrightarrow> J d Lost"
    and others: "\<And>k d. I d \<Longrightarrow> I (others k d)"
  shows "J d' r"
proof -
  let ?P = "\<lambda>stop' others' fn' k d res. stop' = stop \<longrightarrow> others' = others \<longrightarrow> fn' = fn \<longrightarrow> I d \<longrightarrow>
      J (fst res) (snd res)"
  have "?P stop others fn k d (d', r)"
  proof (rule with_reconnect.raw_induct [where P = ?P, OF _ assms(1)])
    fix loop stop' others' fn' k d res
    assume IH: "\<And>stop' others' fn' k d res. loop stop' others' fn' k d = Some res \<Longrightarrow>
        ?P stop' others' fn' k d res"
      and body: "(case fn' k d of
        (d', Lost) \<Rightarrow> if stop' k \<and> SHUTDOWN_RECONNECT_ATTEMPTS \<le> k then Some (d', Lost)
          else loop stop' others' fn' (k + 1) (others' k d')
        | (d', Answer r) \<Rightarrow> Some (d', Answer r)) = Some res"
    show "?P stop' others' fn' k d res"
    proof (intro impI)
      assume eq: "stop' = stop" "others' = others" "fn' = fn" and i: "I d"
      obtain d1 a where f: "fn k d = (d1, a)" by fastforce
      show "J (fst res) (snd res)"
      proof (cases a)
        case Lost
        then have d1: "I d1" using lost i f by blast
        show ?thesis
        proof (cases "stop k \<and> SHUTDOWN_RECONNECT_ATTEMPTS \<le> k")
          case True
          then have "res = (d1, Lost)" using body f Lost unfolding eq by simp
          then show ?thesis using stopped [OF d1] True by auto
        next
          case False
          then show ?thesis
            using body f Lost IH [of stop others fn "k + 1" "others k d1" res] others [OF d1]
            unfolding eq by (simp add: False split: if_splits)
        qed
      next
        case (Answer x)
        then show ?thesis using body eq f answer [OF i] by auto
      qed
    qed
  qed
  then show ?thesis using assms(2) by simp
qed

lemma with_reconnect_returns:
  assumes "\<And>d. snd (fn n d) \<noteq> Lost" "k \<le> n"
  shows "\<exists>res. with_reconnect stop others fn k d = Some res"
  using assms(2)
proof (induction "n - k" arbitrary: k d)
  case 0
  obtain d1 a where f: "fn k d = (d1, Answer a)"
    using assms(1) [of d] 0 by (cases "fn k d"; cases "snd (fn k d)") auto
  then show ?case by (subst with_reconnect.simps) simp
next
  case (Suc m)
  obtain d1 a where f: "fn k d = (d1, a)" by fastforce
  have "\<exists>res. with_reconnect stop others fn (k + 1) (others k d1) = Some res"
    using Suc by (intro Suc.hyps(1)) linarith+
  then show ?case using f by (subst with_reconnect.simps) (cases a; auto)
qed

text \<open>An outage that ends before a requested shutdown gives up: the loop returns the answer.\<close>

lemma with_reconnect_until:
  assumes up: "\<And>x. snd (fn n x) \<noteq> Lost" and going: "\<And>k. k < n \<Longrightarrow> stop k \<Longrightarrow> k < SHUTDOWN_RECONNECT_ATTEMPTS"
    and lost: "\<And>k x x1. I x \<Longrightarrow> fn k x = (x1, Lost) \<Longrightarrow> I x1" and others: "\<And>k x. I x \<Longrightarrow> I (others k x)"
    and answer: "\<And>k x x1 a. I x \<Longrightarrow> fn k x = (x1, Answer a) \<Longrightarrow> J x1 a"
    and "I d" "k \<le> n"
  shows "\<exists>d' a. with_reconnect stop others fn k d = Some (d', Answer a) \<and> J d' a"
  using assms(6,7)
proof (induction "n - k" arbitrary: k d)
  case 0
  obtain d1 a where f: "fn k d = (d1, Answer a)"
    using up [of d] 0 by (cases "fn k d"; cases "snd (fn k d)") auto
  then show ?case using answer [OF 0(2) f] by (subst with_reconnect.simps) simp
next
  case (Suc m)
  obtain d1 b where f: "fn k d = (d1, b)" by fastforce
  show ?case
  proof (cases b)
    case Lost
    have "k < n" using Suc(2) by linarith
    then have "\<not> (stop k \<and> SHUTDOWN_RECONNECT_ATTEMPTS \<le> k)" using going [of k] by auto
    moreover have "\<exists>d' a. with_reconnect stop others fn (k + 1) (others k d1) = Some (d', Answer a) \<and> J d' a"
      using Suc f Lost lost others by (intro Suc.hyps(1)) auto
    ultimately show ?thesis using f Lost by (subst with_reconnect.simps) auto
  next
    case (Answer a)
    then show ?thesis using answer [OF Suc.prems(1)] f by (subst with_reconnect.simps) auto
  qed
qed

section \<open>Everything a worker does is a run of the system\<close>

text \<open>An environment whose slot exists and whose retry id is new.\<close>

definition env_ok :: "exec_env \<Rightarrow> db \<Rightarrow> bool" where
  "env_ok env d \<longleftrightarrow> xe_slot env \<in> set SLOTS \<and> fresh_id (xe_new_id env) d"

lemma env_ok_runs: "env_ok env d \<Longrightarrow> runs_to d d' \<Longrightarrow> env_ok env d'"
  by (auto simp: env_ok_def intro: runs_fresh)

lemma over_link_runs:
  assumes "\<And>d. runs_to d (fst (f d))"
  shows "runs_to d (fst (over_link l f d))"
  using assms by (simp add: over_link_def split: link.splits)

lemma over_link_up: "f d = (d', a) \<Longrightarrow> over_link Link_up f d = (d', Answer a)"
  by (simp add: over_link_def)

lemma executor_mark_failed_runs:
  "env_ok env d \<Longrightarrow> runs_to d' (fst (executor_mark_failed env jid e tb ver wr reason att d'))"
  by (simp add: executor_mark_failed_def env_ok_def mark_job_failed_runs)

lemma failed_link_runs:
  assumes "env_ok env d"
  shows "runs_to d' (fst (over_link l (executor_mark_failed env jid e tb ver wr reason att) d'))"
  by (rule over_link_runs) (rule executor_mark_failed_runs [OF assms])

lemma executor_retry_steps: "env_ok env d \<Longrightarrow> step\<^sup>*\<^sup>* d (executor_retry_job env j e c d)"
  by (simp add: executor_retry_job_def env_ok_def retry_job_steps)

lemma cascade_success_runs: "runs_to d (cascade_success env j d)"
  by (simp add: cascade_success_def cascade_runs)

lemma runs_then_steps: "runs_to d d1 \<Longrightarrow> step\<^sup>*\<^sup>* d1 d2 \<Longrightarrow> step\<^sup>*\<^sup>* d d2"
  using runs_steps rtranclp_trans by metis

lemma runs_then_retry:
  assumes "runs_to d d1" "env_ok env d"
  shows "step\<^sup>*\<^sup>* d (if wr then executor_retry_job env j e c d1 else d1)"
  using runs_then_steps [OF assms(1)] executor_retry_steps [OF env_ok_runs [OF assms(2,1)]] by simp

lemma reply_job_cases:
  fixes a :: "job option reply"
  obtains "a = Lost" | err where "a = Answer (Inl err)" | "a = Answer (Inr None)"
  | j where "a = Answer (Inr (Some j))"
proof (cases a)
  case (Answer r)
  show ?thesis
  proof (cases r)
    case (Inr oj)
    then show ?thesis using that Answer by (cases oj) auto
  qed (use that Answer in auto)
qed (use that in auto)

lemma fail_in_child_steps:
  assumes ok: "env_ok env d"
  shows "step\<^sup>*\<^sup>* d (fst (fail_in_child env lf job att e msg tb d))"
proof -
  let ?wr = "should_retry_in env job (Some e)"
  obtain d1 a where o: "over_link lf (executor_mark_failed env (j_id job) msg tb
      (Some (j_version job)) ?wr [] att) d = (d1, a)" by fastforce
  have r: "runs_to d d1"
    using failed_link_runs [OF ok,
      of d lf "j_id job" msg tb "Some (j_version job)" ?wr "[]" att] o by simp
  show ?thesis
    by (cases a rule: reply_job_cases)
      (simp_all add: fail_in_child_def Let_def o runs_steps [OF r] runs_then_retry [OF r ok, of ?wr])
qed

lemma success_link_runs:
  assumes "env_ok env d"
  shows "runs_to d' (fst (over_link l (\<lambda>d. mark_job_success (xe_slot env) (xe_now env) d jid out ver att d) d'))"
  by (rule over_link_runs) (use assms in \<open>simp add: env_ok_def mark_job_success_runs\<close>)

lemma run_job_in_child_steps:
  assumes ok: "env_ok env d"
  shows "step\<^sup>*\<^sup>* d (fst (run_job_in_child env ls lf job att te d))"
proof (cases te)
  case (Task_raised e msg tb)
  then show ?thesis using fail_in_child_steps [OF ok] by (simp add: run_job_in_child_def)
next
  case (Task_returned out)
  obtain d1 a where o: "over_link ls (\<lambda>d. mark_job_success (xe_slot env) (xe_now env) d (j_id job) out
      (Some (j_version job)) att d) d = (d1, a)" by fastforce
  have r: "runs_to d d1"
    using success_link_runs [OF ok, of d ls "j_id job" out "Some (j_version job)" att] o by simp
  have "step\<^sup>*\<^sup>* d (fst (fail_in_child env lf job att e msg tb d1))" for e msg tb
    by (rule runs_then_steps [OF r fail_in_child_steps [OF env_ok_runs [OF ok r]]])
  then show ?thesis
    using runs_steps [OF r] runs_steps [OF runs_trans [OF r cascade_success_runs]]
    by (cases a rule: reply_job_cases)
      (simp_all add: run_job_in_child_def Task_returned o split: prod.split)
qed

lemma execute_failure_steps:
  assumes ok: "env_ok env d"
  shows "step\<^sup>*\<^sup>* d (fst (execute_failure env job att e msg tb d))"
proof -
  let ?wr = "should_retry_in env job (Some e)"
  obtain d1 a where o: "executor_mark_failed env (j_id job) msg tb (Some (j_version job)) ?wr [] att d =
      (d1, a)" by fastforce
  have r: "runs_to d d1" using executor_mark_failed_runs [OF ok] o by (metis fst_conv)
  show ?thesis
    by (cases "Answer a" rule: reply_job_cases)
      (simp_all add: execute_failure_def Let_def o runs_steps [OF r] runs_then_retry [OF r ok, of ?wr])
qed

lemma execute_job_steps:
  assumes ok: "env_ok env d"
  shows "step\<^sup>*\<^sup>* d (fst (execute_job env jid att te d))"
proof (cases "get_job_by_id jid d")
  case (F_live job)
  show ?thesis
  proof (cases te)
    case (Task_raised e msg tb)
    then show ?thesis using F_live execute_failure_steps [OF ok] by (simp add: execute_job_def)
  next
    case (Task_returned out)
    obtain d1 a where o: "mark_job_success (xe_slot env) (xe_now env) d (j_id job) out
        (Some (j_version job)) att d = (d1, a)" by fastforce
    have r: "runs_to d d1"
      using mark_job_success_runs o ok by (metis env_ok_def fst_conv)
    have "step\<^sup>*\<^sup>* d (fst (execute_failure env job att e msg tb d1))" for e msg tb
      by (rule runs_then_steps [OF r execute_failure_steps [OF env_ok_runs [OF ok r]]])
    then show ?thesis
      using runs_steps [OF r] runs_steps [OF runs_trans [OF r cascade_success_runs]]
      by (cases "Answer a" rule: reply_job_cases)
        (simp_all add: execute_job_def F_live Task_returned o split: prod.split)
  qed
qed (simp_all add: execute_job_def)

lemma persist_outcome_steps:
  assumes ok: "env_ok env d"
  shows "step\<^sup>*\<^sup>* d (fst (persist_outcome env l oc d))"
    "snd (persist_outcome env l oc d) = Lost \<Longrightarrow> runs_to d (fst (persist_outcome env l oc d))"
proof -
  obtain d1 a where s: "over_link l (\<lambda>d. mark_job_success (xe_slot env) (xe_now env) d (uo_job_id oc)
      (case uo_output oc of Some out \<Rightarrow> out | None \<Rightarrow> Output []) (uo_expected_version oc)
      (uo_attempt oc) d) d = (d1, a)" by fastforce
  obtain d2 b where f: "over_link l (executor_mark_failed env (uo_job_id oc) (uo_error oc)
      (uo_traceback oc) (uo_expected_version oc) (uo_will_retry oc) [] (uo_attempt oc)) d = (d2, b)"
    by fastforce
  have r1: "runs_to d d1"
    using success_link_runs [OF ok, of d l "uo_job_id oc"
      "case uo_output oc of Some out \<Rightarrow> out | None \<Rightarrow> Output []" "uo_expected_version oc" "uo_attempt oc"] s
    by simp
  have r2: "runs_to d d2"
    using failed_link_runs [OF ok, of d l "uo_job_id oc" "uo_error oc" "uo_traceback oc"
      "uo_expected_version oc" "uo_will_retry oc" "[]" "uo_attempt oc"] f by simp
  note runs = runs_steps [OF r1] runs_steps [OF runs_trans [OF r1 cascade_success_runs]]
    runs_steps [OF r2] runs_then_retry [OF r2 ok, of "uo_will_retry oc"]
  show "step\<^sup>*\<^sup>* d (fst (persist_outcome env l oc d))"
    by (cases a rule: reply_job_cases; cases b rule: reply_job_cases)
      (simp_all add: persist_outcome_def s f runs)
  show "runs_to d (fst (persist_outcome env l oc d))" if "snd (persist_outcome env l oc d) = Lost"
    using that r1 r2
    by (cases a rule: reply_job_cases; cases b rule: reply_job_cases)
      (simp_all add: persist_outcome_def s f split: if_splits)
qed

text \<open>Other sessions commit transactions of the system and do not draw this worker's retry id.\<close>

definition others_ok :: "exec_env \<Rightarrow> (nat \<Rightarrow> db \<Rightarrow> db) \<Rightarrow> bool" where
  "others_ok env others \<longleftrightarrow>
     (\<forall>k d. step\<^sup>*\<^sup>* d (others k d) \<and> (env_ok env d \<longrightarrow> env_ok env (others k d)))"

lemma persist_reconnect_steps:
  assumes w: "with_reconnect stop others (\<lambda>k. persist_outcome env (lp k) oc) k d = Some (d', r)"
    and ok: "env_ok env d" "others_ok env others"
  shows "step\<^sup>*\<^sup>* d d'"
proof (rule with_reconnect_result [OF w, where I = "\<lambda>x. step\<^sup>*\<^sup>* d x \<and> env_ok env x" and J = "\<lambda>x _. step\<^sup>*\<^sup>* d x"])
  fix k x x1
  assume x: "step\<^sup>*\<^sup>* d x \<and> env_ok env x" and p: "persist_outcome env (lp k) oc x = (x1, Lost)"
  have "runs_to x x1" using persist_outcome_steps(2) [of env x "lp k" oc] x p by simp
  then show "step\<^sup>*\<^sup>* d x1 \<and> env_ok env x1"
    using x env_ok_runs runs_steps by (meson rtranclp_trans)
next
  fix k x x1 a
  assume x: "step\<^sup>*\<^sup>* d x \<and> env_ok env x" and p: "persist_outcome env (lp k) oc x = (x1, Answer a)"
  then show "step\<^sup>*\<^sup>* d x1"
    using persist_outcome_steps(1) [of env x "lp k" oc] by (auto intro: rtranclp_trans)
qed (use ok in \<open>auto simp: others_ok_def intro: rtranclp_trans\<close>)

lemma read_reconnect_steps:
  assumes w: "with_reconnect stop others (\<lambda>k. over_link (lr k) (\<lambda>d. (d, Inr (g d)))) k d = Some (d', r)"
    and ok: "others_ok env others"
  shows "step\<^sup>*\<^sup>* d d'"
  by (rule with_reconnect_result [OF w, where I = "\<lambda>x. step\<^sup>*\<^sup>* d x" and J = "\<lambda>x _. step\<^sup>*\<^sup>* d x"])
    (use ok in \<open>auto simp: others_ok_def over_link_def intro: rtranclp_trans split: link.splits\<close>)

lemma give_up_runs: "xe_slot env \<in> set SLOTS \<Longrightarrow> runs_to d (give_up env l jid att error tb d)"
  unfolding give_up_def by (rule over_link_runs) (rule mark_job_failed_runs)

lemma child_verdict_crash:
  "\<exists>error tb. fst (child_verdict env l jid att pid code refreshed d) \<in>
     {d, give_up env l jid att error tb d}"
  by (auto simp: child_verdict_def Let_def give_up_def split: found.splits)

lemma child_verdict_steps:
  assumes "xe_slot env \<in> set SLOTS"
  shows "step\<^sup>*\<^sup>* d (fst (child_verdict env l jid att pid code refreshed d))"
  using child_verdict_crash [of env l jid att pid code refreshed d] runs_steps [OF give_up_runs [OF assms]]
  by auto

lemma read_back_steps:
  assumes b: "read_back env stop others lr lf jid att pid code d = Some (d', r)"
    and slot: "xe_slot env \<in> set SLOTS" and ok: "others_ok env others"
  shows "step\<^sup>*\<^sup>* d d'"
proof -
  obtain y a where y: "with_reconnect stop others
      (\<lambda>k. over_link (lr k) (\<lambda>d. (d, Inr (get_job_by_id jid d)))) 0 d = Some (y, a)"
    using b by (auto simp: read_back_def split: option.splits)
  have "d' = y \<or> (\<exists>refreshed. d' = fst (child_verdict env lf jid att pid code refreshed y))"
    using b by (auto simp: read_back_def y split: reply.splits sum.splits prod.splits) (metis fst_conv)
  then show ?thesis
    using read_reconnect_steps [OF y ok] child_verdict_steps [OF slot]
    by (auto intro: rtranclp_trans)
qed

lemma settle_child_steps:
  assumes s: "settle_child env stop others lp lr lf jid att pid code handed recorded d = Some (d', r)"
    and ok: "env_ok env d" "others_ok env others"
  shows "step\<^sup>*\<^sup>* d d'"
proof -
  have slot: "xe_slot env \<in> set SLOTS" using ok(1) by (simp add: env_ok_def)
  note rb = read_back_steps [OF _ slot ok(2)]
  show ?thesis
  proof (cases handed)
    case None
    then show ?thesis using s rb by (auto simp: settle_child_def split: option.splits)
  next
    case (Some oc)
    obtain y a where y: "with_reconnect stop others (\<lambda>k. persist_outcome env (lp k) oc) 0 d = Some (y, a)"
      using s Some by (auto simp: settle_child_def split: option.splits)
    have "d' = y \<or> read_back env stop others lr lf jid att pid code y = Some (d', r)"
    proof (cases a)
      case (Answer x)
      then show ?thesis using s by (cases x) (simp_all add: settle_child_def Some y)
    qed (use s in \<open>simp add: settle_child_def Some y\<close>)
    then show ?thesis
      using persist_reconnect_steps [OF y ok] rtranclp_trans [OF persist_reconnect_steps [OF y ok] rb]
      by blast
  qed
qed

lemma await_child_steps:
  assumes "await_child env stop others lp lr lf dflt job att pid wait handed recorded d = Some (d', r)"
    and ok: "env_ok env d" "others_ok env others"
  shows "step\<^sup>*\<^sup>* d d'"
  using assms runs_steps [OF give_up_runs] settle_child_steps [OF _ ok]
  by (auto simp: await_child_def env_ok_def split: wait_end.splits)

lemma stale_one_steps:
  assumes ok: "env_ok env d"
  shows "step\<^sup>*\<^sup>* d (fst (stale_one now env pid_of job d))"
proof (cases "j_started_at job")
  case None
  have "step\<^sup>*\<^sup>* d (fst (mark_job_failed (xe_slot env) (xe_now env) d (j_id job) e tb None [] None d))"
    for e tb
    using ok by (intro runs_steps mark_job_failed_runs) (simp add: env_ok_def)
  then show ?thesis using None by (simp add: stale_one_def split: prod.splits) (metis fst_conv)
next
  case (Some started)
  show ?thesis
  proof (cases "now - started > seconds (stale_threshold job)")
    case False
    then show ?thesis using Some by (simp add: stale_one_def Let_def)
  next
    case True
    obtain msg tb where m: "msg = ''Worker crashed or was killed (running for '' @
        show_int (whole_seconds (now - started)) @ ''s, threshold '' @
        show_int (stale_threshold job) @ ''s)''"
      "tb = ''Job was stuck in 'running' state - likely worker process crashed, '' @
        ''killed by OOM, or terminated by signal''" by blast
    obtain d1 a where o: "executor_mark_failed env (j_id job) msg tb None (should_retry_in env job None)
        [] None d = (d1, a)" by fastforce
    have r: "runs_to d d1"
      using executor_mark_failed_runs [OF ok, of d "j_id job" msg tb None] o by (metis fst_conv)
    note steps = runs_steps [OF r] runs_then_retry [OF r ok, of "should_retry_in env _ None"]
    show ?thesis
    proof (cases a)
      case (Inl e)
      then show ?thesis using Some True o steps by (simp add: stale_one_def Let_def m)
    next
      case (Inr j)
      then show ?thesis using Some True o steps
        by (cases "get_job_by_id (j_id job) d1") (simp_all add: stale_one_def Let_def m)
    qed
  qed
qed

section \<open>Recording a success\<close>

definition succeeded_once :: "job_id \<Rightarrow> string \<Rightarrow> db \<Rightarrow> bool" where
  "succeeded_once k out d \<longleftrightarrow>
     rowcount (\<lambda>j. j_id j = k) (live d @ history d) = 1 \<and>
     (\<exists>j\<in>set (history d). j_id j = k \<and> j_status j = Success \<and> j_output j = out)"

lemma in_history_once:
  assumes w: "wf_db d" and j: "j \<in> set (history d)" "j_id j = k"
  shows "rowcount (\<lambda>j. j_id j = k) (live d @ history d) = 1"
proof -
  have "distinct (map j_id (live d @ history d))" using w by (simp add: wf_db_def wf_jobs_def)
  then have "rowcount (\<lambda>j. j_id j = k) (live d @ history d) \<le> 1" by (rule rowcount_distinct_key)
  moreover have "0 < rowcount (\<lambda>j. j_id j = k) (live d @ history d)"
    using j by (auto simp: rowcount_pos)
  ultimately show ?thesis by linarith
qed

lemma succeeded_once_grows:
  assumes "succeeded_once k out d" "grows d d'" "wf_db d'"
  shows "succeeded_once k out d'"
proof -
  obtain j where j: "j \<in> set (history d)" "j_id j = k" "j_status j = Success" "j_output j = out"
    using assms(1) by (auto simp: succeeded_once_def)
  have "j \<in> set (history d')"
    using assms(2) j(1) by (auto simp: grows_def history_grows_def prefix_def)
  then show ?thesis using in_history_once [OF assms(3)] j by (auto simp: succeeded_once_def)
qed

lemma fenced_recorded:
  assumes w: "wf_db d" and row: "live_by_id k d = Some row" and h: "handle_open h d" "h_job_id h = k"
    and slot: "slot \<in> set SLOTS" and st: "st = Success \<or> st = Failed"
    and v: "\<not> is_retry_pending (v_termination_reason v)"
    and ver: "ver = None \<or> ver = Some (j_version row)"
    and f: "fenced_update slot now k ver st v (Some h) oc parent d = (d', r)"
  obtains d1 j where "r = Inr (Some j)" "history_row d1 now st v row \<in> set (history d')"
    "rowcount (\<lambda>j. j_id j = k) (live d' @ history d') = 1" "\<not> handle_open h d'" "wf_db d'"
proof -
  define d1 where "d1 = fst (close_exact h oc now d)"
  have ca: "close_attempt now k (Some h) oc d = Inr d1"
    by (simp add: close_attempt_fenced [OF w] h d1_def)
  have s1: "safe d d1" unfolding d1_def by (rule close_variants_safe)
  then have w1: "wf_db d1" using w by (simp add: safe_def)
  have row1: "live_by_id k d1 = Some row" "row \<in> set (live d1)" "j_id row = k"
    using row live_by_id_Some [OF w] by (auto simp: live_by_id_def close_exact_def d1_def)
  define d2 where "d2 = moved_to_history now k st v row d1"
  have fi: "finish_in now k st v (no_fences\<lparr>fe_version := ver\<rparr>) d1 = Inr (d2, True)"
    using row1 ver by (auto simp: finish_in_cases [OF w1] move_where_def no_fences_def d2_def)
  have rc: "record_completion now k ver st v d1 = Inr (d2, True)"
    using v fi by (simp add: record_completion_def)
  have d': "d' = release_dependents_quietly slot now k parent d2" "r = Inr (find_job k d')"
    using f ca rc v st by (auto simp: fenced_update_def Let_def)
  have tm: "is_terminal st" using st by auto
  have s2: "safe d2 d'" unfolding d'(1) by (rule release_quietly_safe [OF slot])
  have acc: "\<not> handle_open h d' \<and> safe d d'"
    using fenced_update_accepted [OF w row tm slot f [unfolded d'(2)]] by simp
  then have w': "wf_db d'" using w by (simp add: safe_def)
  have w2: "wf_db d2" using finish_in_safe [OF fi tm] w1 by (simp add: safe_def)
  have hr: "history_row d1 now st v row \<in> set (history d')"
    using s2 w2 by (auto simp: d2_def safe_def evolves_def history_grows_def prefix_def)
  have "k \<in> job_ids d'" using imageI [OF hr, of j_id] row1(3) by (simp add: job_ids_def)
  then obtain x where "find_job k d' = Some x"
    using job_ids_found [of k d'] by (auto simp: find_job_def split: option.splits)
  with that [OF _ hr in_history_once [OF w' hr]] show ?thesis using acc w' d'(2) row1(3) by simp
qed

lemma success_recorded:
  assumes w: "wf_db d" and row: "live_by_id k d = Some row" and h: "handle_open h d" "h_job_id h = k"
    and slot: "slot \<in> set SLOTS"
    and m: "mark_job_success slot now d k (Output out) (Some (j_version row)) (Some h) d = (d', r)"
  shows "\<exists>j. r = Inr (Some j) \<and> succeeded_once k out d' \<and> \<not> handle_open h d' \<and> wf_db d'"
proof -
  let ?run = "open_attempt_in d k"
  obtain j where j: "mark_success now (Output out) (overlay_running ?run row) = Inr j"
    using mark_success_Output by blast
  define v where "v = no_values\<lparr>v_finished_at := j_finished_at j, v_duration := Some (j_duration_seconds j),
      v_output := Some (j_output j), v_runs := Some (j_runs j), v_ran := ?run\<rparr>"
  have f: "fenced_update slot now k (Some (j_version row)) Success v (Some h) Outcome_success
      (j_parent_job_id j) d = (d', r)"
    using m j row by (simp add: mark_job_success_def get_job_by_id_def v_def)
  have v: "\<not> is_retry_pending (v_termination_reason v)"
    by (simp add: v_def no_values_def is_retry_pending_def)
  have k: "j_id row = k" using row live_by_id_Some [OF w] by auto
  have "j_output j = out"
    using j by (auto simp: mark_success_def reject_unawaited_coroutine_def record_run_def)
  then have out: "j_output (history_row x now Success v row) = out" for x
    by (simp add: v_def override_def)
  from fenced_recorded [OF w row h slot _ v _ f] obtain d1 x where
    "r = Inr (Some x)" "history_row d1 now Success v row \<in> set (history d')"
    "rowcount (\<lambda>j. j_id j = k) (live d' @ history d') = 1" "\<not> handle_open h d'" "wf_db d'" by blast
  then show ?thesis unfolding succeeded_once_def using out k by (metis history_row_simps(1,2))
qed

lemma fenced_update_errors:
  assumes w: "wf_db d" and row: "live_by_id k d = Some row"
    and f: "fenced_update slot now k ver st v att oc parent d = (d', Inl err)"
  shows "err = JobFencingError"
proof (cases "close_attempt now k att oc d")
  case (Inl e)
  then show ?thesis
    using f close_attempt_fenced [OF w, of now k _ oc]
    by (cases att) (auto simp: fenced_update_def close_attempt_def split: if_splits)
next
  case (Inr d1)
  have "safe d d1" by (rule close_attempt_safe [OF Inr])
  then have w1: "wf_db d1" using w by (simp add: safe_def)
  have "live d1 = live d"
    using Inr by (cases att) (auto simp: close_attempt_def close_exact_def close_unfenced_def
        close_open_def Let_def split: sum.splits)
  then have "live_by_id k d1 = Some row" using row by (simp add: live_by_id_def)
  from record_completion_applies [OF w1 this, of now ver st v] obtain d2 ok where
    "record_completion now k ver st v d1 = Inr (d2, ok)" by blast
  then show ?thesis using f Inr by (auto simp: fenced_update_def Let_def split: if_splits)
qed

lemma mark_success_errors:
  assumes "wf_db d" "mark_job_success slot now d k (Output out) ver att d = (d', Inl err)"
  shows "err = JobFencingError"
proof (cases "get_job_by_id k d")
  case (F_live j0)
  then obtain row where row: "live_by_id k d = Some row"
    by (auto simp: get_job_by_id_def split: option.splits)
  obtain j where "mark_success now (Output out) (overlay_running (open_attempt_in d k) row) = Inr j"
    using mark_success_Output by blast
  then show ?thesis
    using assms(2) F_live row fenced_update_errors [OF assms(1) row]
    by (auto simp: mark_job_success_def)
qed (use assms(2) in \<open>auto simp: mark_job_success_def already_finished_def split: if_splits\<close>)

section \<open>Properties\<close>

text \<open>C30: an outcome that a child hands over because its connection was lost is persisted by the worker
  parent exactly as the child would have done: the database afterwards is the one the child would have
  left on a working connection, for a success and for a failure with its retry.\<close>

theorem persist_as_child:
  assumes w: "wf_db d" and te: "te \<noteq> Task_returned Awaitable"
    and c: "run_job_in_child env Lost_before Lost_before job att te d = (d1, Child_returns code (Some oc) None)"
  shows "d1 = d \<and>
    fst (persist_outcome env Link_up oc d1) = fst (run_job_in_child env Link_up Link_up job att te d)"
proof (cases te)
  case (Task_raised e msg tb)
  define wr where "wr = should_retry_in env job (Some e)"
  have oc: "d1 = d" "oc = failure_outcome job att msg tb wr (retry_countdown (Some e))"
    using c Task_raised
    by (auto simp: run_job_in_child_def fail_in_child_def over_link_def Let_def wr_def)
  have retry: "executor_retry_job env j (Some e) None x =
      executor_retry_job env j None (retry_countdown (Some e)) x" for j x
    by (simp add: executor_retry_job_def retry_job_def retry_with_def retry_delay_seconds_def split: option.splits)
  let ?f = "executor_mark_failed env (j_id job) msg tb (Some (j_version job)) wr [] att"
  obtain d2 a where m: "?f d = (d2, a)" by fastforce
  show ?thesis
    by (cases "Answer a" rule: reply_job_cases)
      (simp_all add: run_job_in_child_def Task_raised fail_in_child_def persist_outcome_def oc
        failure_outcome_def over_link_up [where f = ?f, OF m] retry Let_def wr_def [symmetric])
next
  case (Task_returned res)
  then obtain out where res: "res = Output out" using te by (cases res) auto
  have oc: "d1 = d" "oc = success_outcome job att res"
    using c Task_returned by (auto simp: run_job_in_child_def over_link_def)
  obtain d2 a where m: "mark_job_success (xe_slot env) (xe_now env) d (j_id job) (Output out)
      (Some (j_version job)) att d = (d2, a)" by fastforce
  show ?thesis
    using mark_success_errors [OF w, of "xe_slot env" "xe_now env" "j_id job" out] m
    by (cases "Answer a" rule: reply_job_cases)
      (auto simp: run_job_in_child_def Task_returned persist_outcome_def oc success_outcome_def
        over_link_def res)
qed

lemma cascade_succeeded:
  assumes "wf_db d" "succeeded_once k out d" "\<not> handle_open h d" "h_id h < next_attempt d"
  shows "succeeded_once k out (cascade_success env j d) \<and> \<not> handle_open h (cascade_success env j d) \<and>
    wf_db (cascade_success env j d)"
proof -
  have g: "wf_db (cascade_success env j d)" "grows d (cascade_success env j d)"
    using steps_law [OF runs_steps [OF cascade_success_runs] assms(1)] by auto
  then show ?thesis
    using succeeded_once_grows [OF assms(2) g(2,1)] handle_closed_grows [OF assms(3) g(2) assms(4)]
    by blast
qed

lemma persist_stale:
  assumes w: "wf_db d" and k: "k \<in> job_ids d" and h: "\<not> handle_open h d" "h_job_id h = k"
    and slot: "xe_slot env \<in> set SLOTS"
    and oc: "oc = success_outcome job (Some h) (Output out)" "j_id job = k"
  shows "persist_outcome env l oc d = (d, if l = Link_up then Answer (Inr ()) else Lost)"
proof -
  have "mark_job_success (xe_slot env) (xe_now env) d k (Output out) (Some (j_version job)) (Some h) d =
      (d, Inl JobFencingError)"
    using success.stale_rejected [OF w h(1), of "(xe_slot env, xe_now env, out, Some (j_version job))"]
      k h(2) slot_mod_SLOTS [OF slot] by (simp add: complete_success_def)
  then show ?thesis
    by (cases l) (simp_all add: persist_outcome_def over_link_def oc success_outcome_def)
qed

text \<open>A handed-over success, either still to be recorded or recorded.\<close>

definition unrecorded :: "job \<Rightarrow> attempt_handle \<Rightarrow> db \<Rightarrow> bool" where
  "unrecorded row h d \<longleftrightarrow> wf_db d \<and> live_by_id (j_id row) d = Some row \<and> handle_open h d"

definition handed_recorded :: "job_id \<Rightarrow> string \<Rightarrow> attempt_handle \<Rightarrow> db \<Rightarrow> bool" where
  "handed_recorded k out h d \<longleftrightarrow> succeeded_once k out d \<and> \<not> handle_open h d \<and> wf_db d \<and> h_id h < next_attempt d"

lemma handed_recorded_steps:
  assumes "handed_recorded k out h d" "step\<^sup>*\<^sup>* d d'"
  shows "handed_recorded k out h d'"
proof -
  have g: "wf_db d'" "grows d d'" using steps_law [OF assms(2)] assms(1) by (auto simp: handed_recorded_def)
  then show ?thesis
    using assms(1) succeeded_once_grows [OF _ g(2,1)] handle_closed_grows [OF _ g(2)]
    by (auto simp: handed_recorded_def grows_def attempts_evolve_def)
qed

lemma success_records:
  assumes u: "unrecorded row h d" and h: "h_job_id h = j_id row" and slot: "slot \<in> set SLOTS"
  obtains d' j where "mark_job_success slot now d (j_id row) (Output out) (Some (j_version row)) (Some h) d =
      (d', Inr (Some j))" "handed_recorded (j_id row) out h d'"
proof -
  have w: "wf_db d" "handle_open h d" using u by (auto simp: unrecorded_def)
  obtain d' r where m: "mark_job_success slot now d (j_id row) (Output out) (Some (j_version row)) (Some h) d = (d', r)"
    by fastforce
  obtain j where j: "r = Inr (Some j)" "succeeded_once (j_id row) out d'" "\<not> handle_open h d'" "wf_db d'"
    using success_recorded [OF _ _ _ h slot m] u unfolding unrecorded_def by blast
  have "safe d d'" using mark_job_success_safe [OF slot, of d now d] m by (metis fst_conv)
  then have "h_id h < next_attempt d'"
    using w by (fastforce simp: handle_open_def wf_db_def wf_attempts_def safe_def evolves_def attempts_evolve_def)
  then show thesis using that m j by (auto simp: handed_recorded_def)
qed

lemma persist_success:
  assumes h: "h_job_id h = j_id row" and slot: "xe_slot env \<in> set SLOTS"
    and oc: "oc = success_outcome job (Some h) (Output out)" "j_id job = j_id row" "j_version job = j_version row"
    and d: "unrecorded row h d \<or> handed_recorded (j_id row) out h d" and p: "persist_outcome env l oc d = (d1, a)"
  shows "a = Lost \<and> (unrecorded row h d1 \<or> handed_recorded (j_id row) out h d1) \<or>
    a = Answer (Inr ()) \<and> handed_recorded (j_id row) out h d1"
  using d
proof
  assume r: "handed_recorded (j_id row) out h d"
  then have "j_id row \<in> job_ids d" unfolding handed_recorded_def succeeded_once_def job_ids_def by (metis UnI2 imageI)
  then have "persist_outcome env l oc d = (d, if l = Link_up then Answer (Inr ()) else Lost)"
    using persist_stale [OF _ _ _ h slot oc(1,2)] r by (simp add: handed_recorded_def)
  then show ?thesis using p r by (auto split: if_splits)
next
  assume u: "unrecorded row h d"
  obtain d' j where m: "mark_job_success (xe_slot env) (xe_now env) d (j_id row) (Output out) (Some (j_version row)) (Some h) d =
      (d', Inr (Some j))" "handed_recorded (j_id row) out h d'" using success_records [OF u h slot] by blast
  have "handed_recorded (j_id row) out h (cascade_success env j d')"
    by (rule handed_recorded_steps [OF m(2) runs_steps [OF cascade_success_runs]])
  then show ?thesis
    using p u m oc by (cases l) (auto simp: persist_outcome_def success_outcome_def over_link_def)
qed

text \<open>C29: a success that the child handed over is recorded exactly once, however often and whenever the
  connection fails: whether the child's own write was committed or not, whatever the reconnecting
  parent loses before or after a commit, and whatever other sessions commit meanwhile, provided they leave
  the job's row and its open attempt alone (recovery that closes the attempt fences the success off). If the
  database answers again, before a requested shutdown has used up its attempts, the loop returns and the
  job is in the history, once, as successful with the output of the task.\<close>

theorem handed_over_success_recorded:
  assumes w: "wf_db d" and row: "live_by_id (j_id job) d = Some row" "j_version row = j_version job"
    and h: "handle_open h d" "h_job_id h = j_id job" and slot: "xe_slot env \<in> set SLOTS"
    and c: "run_job_in_child env ls lf job (Some h) (Task_returned (Output out)) d =
      (d1, Child_returns code (Some oc) None)"
    and up: "lp n = Link_up" and going: "\<forall>k<n. stop k \<longrightarrow> k < SHUTDOWN_RECONNECT_ATTEMPTS"
    and steps: "\<forall>k x. step\<^sup>*\<^sup>* x (others k x)"
    and alone: "\<forall>k x. handle_open h x \<longrightarrow>
      handle_open h (others k x) \<and> live_by_id (j_id job) (others k x) = live_by_id (j_id job) x"
  shows "\<exists>d2. with_reconnect stop others (\<lambda>k. persist_outcome env (lp k) oc) 0 d1 =
      Some (d2, Answer (Inr ())) \<and> succeeded_once (j_id job) out d2"
proof -
  have id: "j_id row = j_id job" using live_by_id_Some [OF w] row by blast
  have h': "h_job_id h = j_id row" using h id by simp
  have u: "unrecorded row h d" using w row h id by (simp add: unrecorded_def)
  let ?I = "\<lambda>x. unrecorded row h x \<or> handed_recorded (j_id row) out h x"
  obtain D j where m: "mark_job_success (xe_slot env) (xe_now env) d (j_id row) (Output out) (Some (j_version row)) (Some h) d =
      (D, Inr (Some j))" "handed_recorded (j_id row) out h D" using success_records [OF u h' slot] by blast
  have oc: "oc = success_outcome job (Some h) (Output out)" and i1: "?I d1"
    using c m u row(2) id by (auto simp: run_job_in_child_def over_link_def split: link.splits)
  note ps = persist_success [OF h' slot oc id [symmetric] row(2) [symmetric]]
  have "\<exists>d2 a. with_reconnect stop others (\<lambda>k. persist_outcome env (lp k) oc) 0 d1 = Some (d2, Answer a) \<and>
      a = Inr () \<and> handed_recorded (j_id row) out h d2"
  proof (rule with_reconnect_until [where I = ?I and n = n, OF _ _ _ _ _ i1])
    show "snd (persist_outcome env (lp n) oc x) \<noteq> Lost" for x
      by (simp add: up persist_outcome_def over_link_def oc success_outcome_def
          split: prod.splits sum.splits option.splits)
    show "?I (others k x)" if "?I x" for k x
      using that handed_recorded_steps steps alone steps_law [OF spec [OF spec [OF steps]]] id
      unfolding unrecorded_def by metis
    show "?I x1" if "?I x" "persist_outcome env (lp k) oc x = (x1, Lost)" for k x x1
      using ps [OF that] by blast
    show "a = Inr () \<and> handed_recorded (j_id row) out h x1" if "?I x" "persist_outcome env (lp k) oc x = (x1, Answer a)" for k x x1 a
      using ps [OF that] by simp
  qed (use going in simp_all)
  then show ?thesis using id by (auto simp: handed_recorded_def)
qed

definition sample_exec_env :: exec_env where
  "sample_exec_env =
     \<lparr>xe_retry = sample_retry_env, xe_isinst = (\<lambda>_ _. False),
      xe_describe = (\<lambda>_. (Other_exc ''TypeError'', ''error'', ''trace'')),
      xe_slot = 0, xe_now = 300, xe_new_id = 8\<rparr>"

lemma sample_exec_facts:
  "wf_db sample_running" "live_by_id (j_id sample_job) sample_running = Some sample_job"
  "handle_open sample_handle sample_running" "h_job_id sample_handle = j_id sample_job"
  "xe_slot sample_exec_env \<in> set SLOTS" "env_ok sample_exec_env sample_running"
  using reachable_wf [OF sample_running_reachable]
  by (simp_all add: sample_running_eval live_by_id_def sample_job_def sample_handle_def handle_open_def
      new_attempt_def empty_db_def sample_exec_env_def SLOTS_def env_ok_def fresh_id_def job_ids_def)

theorem persist_as_child_witness:
  "\<exists>oc. run_job_in_child sample_exec_env Lost_before Lost_before sample_job (Some sample_handle)
       (Task_raised (Other_exc ''KeyError'') ''boom'' ''trace'') sample_running =
       (sample_running, Child_returns 1 (Some oc) None) \<and>
     fst (persist_outcome sample_exec_env Link_up oc sample_running) =
     fst (run_job_in_child sample_exec_env Link_up Link_up sample_job (Some sample_handle)
       (Task_raised (Other_exc ''KeyError'') ''boom'' ''trace'') sample_running)"
proof -
  obtain oc where c: "run_job_in_child sample_exec_env Lost_before Lost_before sample_job
      (Some sample_handle) (Task_raised (Other_exc ''KeyError'') ''boom'' ''trace'') sample_running =
      (sample_running, Child_returns 1 (Some oc) None)"
    by (simp add: run_job_in_child_def fail_in_child_def over_link_def Let_def)
  from persist_as_child [OF sample_exec_facts(1) _ this] c show ?thesis by blast
qed

theorem handed_over_success_recorded_witness:
  "\<exists>d1 oc d2. run_job_in_child sample_exec_env Lost_after Link_up sample_job (Some sample_handle)
       (Task_returned (Output ''ok'')) sample_running = (d1, Child_returns 0 (Some oc) None) \<and>
     with_reconnect (\<lambda>_. True) (\<lambda>_ x. x)
       (\<lambda>k. persist_outcome sample_exec_env (if k = 2 then Link_up else Lost_before) oc) 0 d1 =
       Some (d2, Answer (Inr ())) \<and> succeeded_once 7 ''ok'' d2"
proof -
  obtain d1 oc where c: "run_job_in_child sample_exec_env Lost_after Link_up sample_job
      (Some sample_handle) (Task_returned (Output ''ok'')) sample_running =
      (d1, Child_returns 0 (Some oc) None)"
    by (simp add: run_job_in_child_def over_link_def)
  have "j_id sample_job = 7" by (simp add: sample_job_def)
  with handed_over_success_recorded [OF sample_exec_facts(1,2) refl sample_exec_facts(3-5) c,
    of "\<lambda>k. if k = 2 then Link_up else Lost_before" 2 "\<lambda>_. True" "\<lambda>_ x. x"] c
  show ?thesis by (auto simp: SHUTDOWN_RECONNECT_ATTEMPTS_def)
qed

text \<open>A child that dies without recording anything ends its job: the job is in the history, once, as
  failed, with the exit status as its error and without the marker of a pending retry, and no retry
  exists afterwards, whatever retries the job has left. If the attempt was already closed (the child
  recorded an outcome, or recovery took the job over), the verdict changes nothing.\<close>

theorem crashed_child_not_retried:
  assumes w: "wf_db d" and row: "live_by_id k d = Some row" "j_status row = Queued"
    and h: "h_job_id h = k" and slot: "xe_slot env \<in> set SLOTS" and code: "code \<noteq> 0"
    and v: "child_verdict env Link_up k (Some h) pid code (get_job_by_id k d) d = (d', r)"
  shows "(if handle_open h d
      then rowcount (\<lambda>j. j_id j = k) (live d' @ history d') = 1 \<and>
        (\<exists>j\<in>set (history d'). j_id j = k \<and> j_status j = Failed \<and> j_termination_reason j = [] \<and>
          j_error j = ''Child process exited with status '' @ show_int code) \<and>
        job_ids d' \<subseteq> job_ids d
      else d' = d) \<and> r = Wait_failed (''Child exited with status '' @ show_int code)"
proof -
  let ?e = "''Child process exited with status '' @ show_int code"
  let ?tb = "''Child PID '' @ show_int pid @ '' exited abnormally''"
  let ?run = "open_attempt_in d k"
  define j where "j = mark_failed (xe_now env) ?e ?tb [] (overlay_running ?run row)"
  define x where "x = no_values\<lparr>v_finished_at := j_finished_at j, v_duration := Some (j_duration_seconds j),
      v_error := Some (j_error j), v_traceback := Some (j_traceback j),
      v_termination_reason := Some (j_termination_reason j), v_runs := Some (j_runs j), v_ran := ?run\<rparr>"
  have "get_job_by_id k d = F_live (overlay_running ?run row)"
    using row by (simp add: get_job_by_id_def)
  moreover have "j_status (overlay_running ?run row) \<in> {Running, Queued}"
    using row(2) by (simp add: overlay_running_def split: option.splits)
  ultimately have r: "r = Wait_failed (''Child exited with status '' @ show_int code)"
    and d': "d' = fst (fenced_update (xe_slot env) (xe_now env) k None Failed x (Some h) Outcome_failed
      (j_parent_job_id j) d)"
    using v code row
    by (auto simp: child_verdict_def over_link_def mark_job_failed_def Let_def x_def j_def
        get_job_by_id_def)
  have j: "j_error j = ?e" "j_termination_reason j = []"
    by (simp_all add: j_def mark_failed_def record_run_def)
  show ?thesis
  proof (cases "handle_open h d")
    case False
    then show ?thesis using r d' fenced_update_stale [OF w False] by simp
  next
    case True
    have np: "\<not> is_retry_pending (v_termination_reason x)"
      using j by (simp add: x_def is_retry_pending_def RETRY_PENDING_def startswith_def)
    obtain r' where f: "fenced_update (xe_slot env) (xe_now env) k None Failed x (Some h) Outcome_failed
        (j_parent_job_id j) d = (d', r')" using d' by (metis prod.collapse)
    have k: "j_id row = k" using row live_by_id_Some [OF w] by auto
    have "j_error (history_row y (xe_now env) Failed x row) = ?e \<and>
        j_termination_reason (history_row y (xe_now env) Failed x row) = []" for y
      using j by (simp add: x_def override_def)
    moreover from fenced_recorded [OF w row(1) True h slot _ np _ f] obtain d1 where
      "history_row d1 (xe_now env) Failed x row \<in> set (history d')"
      "rowcount (\<lambda>j. j_id j = k) (live d' @ history d') = 1" by blast
    moreover have "job_ids d' \<subseteq> job_ids d"
      using fenced_update_runs [of Failed, OF _ slot] d' by (simp add: runs_to_def)
    ultimately show ?thesis using True r k by (metis history_row_simps(1,2))
  qed
qed

theorem crashed_child_not_retried_witness:
  "\<exists>d' r. child_verdict sample_exec_env Link_up 7 (Some sample_handle) 99 (-9)
       (get_job_by_id 7 sample_running) sample_running = (d', r) \<and> retry_budget_left sample_job \<and>
     (\<exists>j\<in>set (history d'). j_id j = 7 \<and> j_status j = Failed \<and> j_termination_reason j = [])"
proof -
  obtain d' r where c: "child_verdict sample_exec_env Link_up 7 (Some sample_handle) 99 (-9)
      (get_job_by_id 7 sample_running) sample_running = (d', r)" by fastforce
  have k: "j_id sample_job = 7" "j_status sample_job = Queued" by (simp_all add: sample_job_def)
  have "retry_budget_left sample_job"
    by (simp add: retry_budget_left_def sample_job_def queued_job_def sample_spec_def)
  with crashed_child_not_retried [OF sample_exec_facts(1) sample_exec_facts(2) [unfolded k(1)] k(2)
      sample_exec_facts(4) [unfolded k(1)] sample_exec_facts(5) _ c] sample_exec_facts(3) c
  show ?thesis by auto
qed

text \<open>A running job whose row was deleted (a job of the same name replaced it) cannot be completed: a
  task that returns makes the child raise instead of returning an exit code, nothing is written, and the
  parent, finding no job, reports the run as crashed.\<close>

theorem replaced_job_crashes_child:
  assumes "j_id job \<notin> job_ids d" "code \<noteq> 0"
  shows "run_job_in_child env Link_up lf job att (Task_returned out) d = (d, Child_raises) \<and>
    child_verdict env l (j_id job) att pid code (get_job_by_id (j_id job) d) d =
      (d, Wait_failed (''Child exited with status '' @ show_int code))"
proof -
  have "live_by_id (j_id job) d = None" "history_by_id d (j_id job) = None"
    using assms(1) by (auto simp: live_by_id_None history_by_id_def find_None_iff job_ids_def image_iff)
  then have "get_job_by_id (j_id job) d = F_other" by (simp add: get_job_by_id_def)
  then show ?thesis
    using assms(2)
    by (simp add: run_job_in_child_def over_link_def mark_job_success_def child_verdict_def
        mark_job_failed_def Let_def split: link.splits)
qed

theorem replaced_job_crashes_child_witness:
  "run_job_in_child sample_exec_env Link_up Link_up sample_job (Some sample_handle)
     (Task_returned (Output ''ok'')) (replaced_by_name ''n'' empty_db) =
     (replaced_by_name ''n'' empty_db, Child_raises)"
  using replaced_job_crashes_child [of sample_job "replaced_by_name ''n'' empty_db" 1]
  by (simp add: job_ids_def replaced_by_name_def drop_entries_def empty_db_def Let_def delete_where_def)

text \<open>The observation that justifies the end of a wait.\<close>

definition wait_cause :: "wait_config \<Rightarrow> tick \<Rightarrow> wait_end \<Rightarrow> bool" where
  "wait_cause cf tk r \<longleftrightarrow>
     (case r of
        Exited c \<Rightarrow> tk_poll tk = Some c
      | Timed_out s \<Rightarrow>
          tk_poll tk = None \<and> s = \<lfloor>tk_clock tk 0 - wc_start cf\<rfloor> \<and>
          (case wc_parent_timeout cf of None \<Rightarrow> False | Some t \<Rightarrow> tk_clock tk 0 - wc_start cf > t)
      | Revoked \<Rightarrow> tk_poll tk = None \<and> tk_revoked tk)"

lemma duties_of_laws:
  assumes "duties_of cf st tk = (r, st', ds)"
  shows "r = None \<or> r = Some Revoked \<and> tk_revoked tk" "ws_sleep st' = ws_sleep st"
  using assms by (auto simp: duties_of_def Let_def split: if_splits)

lemma wait_tick_laws:
  assumes "wait_tick cf st tk = (r, st', ds)"
  shows "r = Some r' \<Longrightarrow> wait_cause cf tk r'"
    and "ws_sleep st' = ws_sleep st \<or> ws_sleep st' = min (ws_sleep st * 2) WAIT_TICK_MAX"
proof -
  let ?st1 = "st\<lparr>ws_fd := (ws_fd st \<and> tk_fd tk \<noteq> Fd_error), ws_slept := ws_slept st + ws_sleep st,
    ws_sleep := min (ws_sleep st * 2) WAIT_TICK_MAX\<rparr>"
  obtain q st2 es where du: "duties_of cf ?st1 tk = (q, st2, es)" using prod_cases3 by blast
  show "wait_cause cf tk r'" if "r = Some r'"
    using assms that duties_of_laws(1) [OF du]
    by (auto simp: wait_tick_def wait_cause_def Let_def du split: option.splits if_splits)
  show "ws_sleep st' = ws_sleep st \<or> ws_sleep st' = min (ws_sleep st * 2) WAIT_TICK_MAX"
    using assms duties_of_laws(2) [OF du]
    by (auto simp: wait_tick_def Let_def du split: option.splits if_splits)
qed

lemma wait_loop_laws:
  assumes "wait_loop cf st0 ticks = (res, st)"
    and "WAIT_TICK_MIN \<le> ws_sleep st0" "ws_sleep st0 \<le> WAIT_TICK_MAX"
  shows "(\<forall>r. res = Some r \<longrightarrow> (\<exists>tk\<in>set ticks. wait_cause cf tk r)) \<and>
    WAIT_TICK_MIN \<le> ws_sleep st \<and> ws_sleep st \<le> WAIT_TICK_MAX"
  using assms
proof (induction ticks arbitrary: st0)
  case Nil
  then show ?case by simp
next
  case (Cons tk ticks)
  obtain q st1 ds where t: "wait_tick cf st0 tk = (q, st1, ds)" using prod_cases3 by blast
  have b: "WAIT_TICK_MIN \<le> ws_sleep st1" "ws_sleep st1 \<le> WAIT_TICK_MAX"
    using wait_tick_laws(2) [OF t] Cons.prems(2,3) by (auto simp: WAIT_TICK_MIN_def WAIT_TICK_MAX_def)
  show ?case
  proof (cases q)
    case None
    then show ?thesis using Cons.prems(1) t Cons.IH [OF _ b] by auto
  next
    case (Some r)
    then show ?thesis using Cons.prems(1) t b wait_tick_laws(1) [OF t] by auto
  qed
qed

text \<open>The worker parent never ends a job early. If the wait ends with an exit code, the child
  reported it; if it ends with a timeout, the child was still running more than a minute after the job's
  own timeout; if it ends with a revocation, the child was still running and the job had been revoked.
  And the pauses between two looks at the child stay between 5 milliseconds and half a second.\<close>

theorem wait_verdict_sound:
  assumes "wait_loop cf (wait_start fd t0 t1) ticks = (Some res, st)"
    and "wc_parent_timeout cf = parent_timeout timeout"
  shows "(\<exists>tk\<in>set ticks. case res of
       Exited c \<Rightarrow> tk_poll tk = Some c
     | Timed_out s \<Rightarrow> tk_poll tk = None \<and> timeout \<noteq> 0 \<and> s = \<lfloor>tk_clock tk 0 - wc_start cf\<rfloor> \<and>
         tk_clock tk 0 - wc_start cf > of_int (timeout + 60)
     | Revoked \<Rightarrow> tk_poll tk = None \<and> tk_revoked tk) \<and>
    5 / 1000 \<le> ws_sleep st \<and> ws_sleep st \<le> 1 / 2"
proof -
  have "WAIT_TICK_MIN \<le> ws_sleep (wait_start fd t0 t1)" "ws_sleep (wait_start fd t0 t1) \<le> WAIT_TICK_MAX"
    by (simp_all add: wait_start_def WAIT_TICK_MIN_def WAIT_TICK_MAX_def)
  from wait_loop_laws [OF assms(1) this] obtain tk where
    "tk \<in> set ticks" "wait_cause cf tk res" "WAIT_TICK_MIN \<le> ws_sleep st" "ws_sleep st \<le> WAIT_TICK_MAX"
    by blast
  then show ?thesis
    using assms(2) unfolding WAIT_TICK_MIN_def WAIT_TICK_MAX_def wait_cause_def parent_timeout_def
    by (intro conjI bexI [of _ tk]) (auto split: wait_end.splits if_splits)
qed

definition sample_ticks :: "tick list" where
  "sample_ticks =
     [\<lparr>tk_poll = None, tk_clock = (\<lambda>_. 1), tk_fd = Fd_timeout, tk_revoked = False\<rparr>,
      \<lparr>tk_poll = None, tk_clock = (\<lambda>_. 91), tk_fd = Fd_timeout, tk_revoked = False\<rparr>]"

theorem wait_verdict_sound_witness:
  "\<exists>st. wait_loop \<lparr>wc_start = 0, wc_parent_timeout = Some 90, wc_revoke_poll = 2, wc_heartbeat = 5\<rparr>
       (wait_start True 0 0) sample_ticks = (Some (Timed_out 91), st) \<and> ws_sleep st \<le> 1 / 2"
proof -
  let ?cf = "\<lparr>wc_start = 0, wc_parent_timeout = Some 90, wc_revoke_poll = 2, wc_heartbeat = 5\<rparr>"
  obtain st where w: "wait_loop ?cf (wait_start True 0 0) sample_ticks = (Some (Timed_out 91), st)"
    by (simp add: sample_ticks_def wait_tick_def wait_start_def WAIT_TICK_MIN_def WAIT_TICK_MAX_def Let_def)
  from wait_verdict_sound [OF this, of 30] w show ?thesis by (auto simp: parent_timeout_def)
qed

lemma note_child_steps: "step\<^sup>*\<^sup>* d (note_child l jid pid att d)"
  using st_child_pid [of d jid pid att]
  by (cases l) (auto simp: note_child_def over_link_def)

text \<open>Whatever a worker does about a job is a run of the system: running the job in a child or
  in-process, and the parent's wait with its reconnections, commit only transactions of the transition
  system, with the transactions of other sessions in between; so every invariant of the reachable states
  holds at each of their commits.\<close>

theorem worker_refines_system:
  assumes "env_ok env d" "others_ok env others"
    and "await_child env stop others lp lr lf dflt job att pid wait handed recorded d = Some (d', r)"
  shows "step\<^sup>*\<^sup>* d (fst (run_job_in_child env ls lf job att te d)) \<and>
    step\<^sup>*\<^sup>* d (fst (execute_job env (j_id job) att te d)) \<and>
    step\<^sup>*\<^sup>* d (note_child l (j_id job) pid att d) \<and>
    step\<^sup>*\<^sup>* d (fst (stale_one now env pid_of job d)) \<and> step\<^sup>*\<^sup>* d d'"
  using note_child_steps run_job_in_child_steps [OF assms(1)] execute_job_steps [OF assms(1)]
    stale_one_steps [OF assms(1)] await_child_steps [OF assms(3,1,2)] by blast

theorem worker_refines_system_witness:
  "step\<^sup>*\<^sup>* sample_running (fst (run_job_in_child sample_exec_env Link_up Link_up sample_job
     (Some sample_handle) (Task_raised (Other_exc ''KeyError'') ''boom'' ''trace'') sample_running))"
proof -
  have "others_ok sample_exec_env (\<lambda>_ x. x)" by (simp add: others_ok_def)
  moreover have "\<exists>d' r. await_child sample_exec_env (\<lambda>_. False) (\<lambda>_ x. x) (\<lambda>_. Link_up) (\<lambda>_. Link_up)
      Link_up 600 sample_job (Some sample_handle) 99 Revoked None None sample_running = Some (d', r)"
    by (simp add: await_child_def)
  ultimately show ?thesis using worker_refines_system [OF sample_exec_facts(6)] by blast
qed

end
