(* ===== verification/Sq_Pool.thy ===== *)
theory Sq_Pool
  imports Sq_Execution Sq_Crontab "HOL-Library.Word"
begin

text \<open>
  The worker pool of one worker process (\<^verbatim>\<open>core/pool.py\<close>): the settings, the recycling of the
  pre-forked child and the frames that parent and child exchange over pipes, with the loop of the child
  (\<^verbatim>\<open>WorkerProcess._pool_child_main\<close> of \<^verbatim>\<open>core/worker.py\<close>).

  A pipe is the sequence of bytes that its writer writes before it closes. How many bytes a read or a
  write of the operating system moves is decided by a list of sizes; a read moves at least one byte
  unless the pipe is at its end. \<open>dumps\<close> and \<open>loads\<close> are those of \<^verbatim>\<open>pickle\<close>; \<open>dumps x = None\<close> when
  pickling raises.
\<close>

section \<open>Settings\<close>

text \<open>A raw setting: a value of the configuration, an argument or an environment variable.\<close>

datatype setting = S_none | S_bool bool | S_int int | S_float rat | S_str string | S_other

definition positive_int :: "setting \<Rightarrow> int option" where
  "positive_int value =
     (let number = (case value of
                      S_int i \<Rightarrow> Some i
                    | S_float q \<Rightarrow> Some (if q \<ge> 0 then \<lfloor>q\<rfloor> else \<lceil>q\<rceil>)
                    | S_str s \<Rightarrow> (case int_of_str s of Inl _ \<Rightarrow> None | Inr i \<Rightarrow> Some i)
                    | _ \<Rightarrow> None)
      in case number of None \<Rightarrow> None | Some n \<Rightarrow> if n > 0 then Some n else None)"

datatype pool = Prefork | Fork

record pool_settings =
  ps_pool :: pool
  ps_max_tasks :: "int option"
  ps_max_memory :: "int option"
  ps_db_reuse :: "int option"

text \<open>\<^verbatim>\<open>str(pool or POOL_PREFORK).strip().lower()\<close>; only a string can name the fork pool.\<close>

definition pool_name :: "setting \<Rightarrow> pool" where
  "pool_name value =
     (case value of S_str s \<Rightarrow> if lower (py_strip s) = ''fork'' then Fork else Prefork | _ \<Rightarrow> Prefork)"

definition resolve_pool_settings :: "setting \<Rightarrow> setting \<Rightarrow> setting \<Rightarrow> setting \<Rightarrow> pool_settings" where
  "resolve_pool_settings pool max_tasks max_memory db_reuse =
     \<lparr>ps_pool = pool_name pool, ps_max_tasks = positive_int max_tasks,
      ps_max_memory = positive_int max_memory,
      ps_db_reuse = (case positive_int db_reuse of Some n \<Rightarrow> Some n | None \<Rightarrow> positive_int max_tasks)\<rparr>"

text \<open>
  \<^verbatim>\<open>_setting\<close>: a non-blank environment variable wins over the configuration; \<^verbatim>\<open>load_pool_settings\<close> puts the
  arguments before both.
\<close>

definition env_setting :: "string option \<Rightarrow> setting \<Rightarrow> setting" where
  "env_setting raw config =
     (case raw of
        Some s \<Rightarrow> if py_strip s \<noteq> [] then S_str (py_strip s) else config
      | None \<Rightarrow> config)"

definition load_pool_settings ::
  "(string \<Rightarrow> string option) \<Rightarrow> (string \<Rightarrow> setting) \<Rightarrow> setting \<Rightarrow> setting \<Rightarrow> setting \<Rightarrow> setting \<Rightarrow>
     pool_settings" where
  "load_pool_settings environ config pool max_tasks max_memory db_reuse =
     (let value = (\<lambda>given name env. if given \<noteq> S_none then given
                                    else env_setting (environ env) (config name))
      in resolve_pool_settings
           (value pool ''WORKER_POOL'' ''SQLERY_WORKER_POOL'')
           (value max_tasks ''WORKER_MAX_TASKS_PER_CHILD'' ''SQLERY_WORKER_MAX_TASKS_PER_CHILD'')
           (value max_memory ''WORKER_MAX_MEMORY_PER_CHILD'' ''SQLERY_WORKER_MAX_MEMORY_PER_CHILD'')
           (value db_reuse ''WORKER_DB_REUSE_MAX'' ''SQLERY_WORKER_DB_REUSE_MAX''))"

text \<open>
  The CPUs a process may use. The cgroup files hold decimal integers, and \<^verbatim>\<open>float\<close> of other text is not
  modelled: such a file counts as unreadable.
\<close>

definition py_words :: "string \<Rightarrow> string list" where
  "py_words s =
     filter (\<lambda>w. w \<noteq> []) (split_on CHR '' '' (map (\<lambda>c. if is_space c then CHR '' '' else c) s))"

definition quota_of :: "string option \<Rightarrow> string option \<Rightarrow> string option \<Rightarrow> (string \<times> string) option" where
  "quota_of cpu_max cfs_quota cfs_period =
     (case cpu_max of
        Some (c # cs) \<Rightarrow>
          (case py_words (c # cs) of
             [q, p] \<Rightarrow> if q \<noteq> ''max'' then Some (q, p) else None
           | _ \<Rightarrow> None)
      | _ \<Rightarrow> (case (cfs_quota, cfs_period) of (Some q, Some p) \<Rightarrow> Some (q, p) | _ \<Rightarrow> None))"

definition cpus_from ::
  "int option \<Rightarrow> string option \<Rightarrow> string option \<Rightarrow> string option \<Rightarrow> int" where
  "cpus_from affinity cpu_max cfs_quota cfs_period =
     (let cpus = (case affinity of Some a \<Rightarrow> if a > 0 then a else 1 | None \<Rightarrow> 1)
      in case quota_of cpu_max cfs_quota cfs_period of
           None \<Rightarrow> cpus
         | Some (q, p) \<Rightarrow>
             (case (int_of_str q, int_of_str p) of
                (Inr quota, Inr period) \<Rightarrow>
                  if quota > 0 \<and> period > 0 then min cpus (max 1 (- ((- quota) div period))) else cpus
              | _ \<Rightarrow> cpus))"

definition resolve_concurrency :: "setting \<Rightarrow> int \<Rightarrow> int" where
  "resolve_concurrency value cpus = (case positive_int value of Some n \<Rightarrow> n | None \<Rightarrow> cpus)"

definition worker_concurrency :: "setting \<Rightarrow> string option \<Rightarrow> setting \<Rightarrow> int \<Rightarrow> int" where
  "worker_concurrency value env config cpus =
     (case positive_int value of
        Some n \<Rightarrow> n
      | None \<Rightarrow> resolve_concurrency (env_setting env config) cpus)"

section \<open>Recycling\<close>

definition db_refresh_due :: "int \<Rightarrow> int option \<Rightarrow> bool" where
  "db_refresh_due jobs_done db_reuse =
     (case db_reuse of None \<Rightarrow> False | Some n \<Rightarrow> n \<noteq> 0 \<and> jobs_done > 0 \<and> jobs_done mod n = 0)"

definition should_recycle :: "int \<Rightarrow> int option \<Rightarrow> int option \<Rightarrow> int option \<Rightarrow> bool" where
  "should_recycle jobs_done max_tasks rss max_memory =
     ((case max_tasks of Some n \<Rightarrow> n \<noteq> 0 \<and> jobs_done \<ge> n | None \<Rightarrow> False) \<or>
      (case (max_memory, rss) of (Some m, Some r) \<Rightarrow> m \<noteq> 0 \<and> r > m | _ \<Rightarrow> False))"

text \<open>
  The loop of the child over the jobs the parent sends: \<open>run j\<close> is \<^verbatim>\<open>run_job_in_child\<close> (with the database
  it leaves), \<open>rss\<close> the memory reading after each job. A report is a frame for the parent. The loop ends
  when a report says so, when \<^verbatim>\<open>run_job_in_child\<close> raises (the child dies without a report) or when the
  parent closes the pipe.
\<close>

record report =
  rp_exit :: int
  rp_recycle :: bool
  rp_unpersisted :: "unpersisted_outcome option"
  rp_recorded :: "(bool \<times> string) option"

fun pool_child_loop ::
  "pool_settings \<Rightarrow> (int \<Rightarrow> int option) \<Rightarrow> (job \<Rightarrow> db \<Rightarrow> db \<times> child_end) \<Rightarrow> int \<Rightarrow> job list \<Rightarrow> db \<Rightarrow>
     db \<times> report list" where
  "pool_child_loop ps rss run jobs_done [] d = (d, [])"
| "pool_child_loop ps rss run jobs_done (j # js) d =
     (case run j d of
        (d', Child_raises) \<Rightarrow> (d', [])
      | (d', Child_returns code unpersisted recorded) \<Rightarrow>
          (let n = jobs_done + 1;
               used = (case ps_max_memory ps of Some m \<Rightarrow> if m \<noteq> 0 then rss n else None | None \<Rightarrow> None);
               recycle = should_recycle n (ps_max_tasks ps) used (ps_max_memory ps);
               rep = \<lparr>rp_exit = code, rp_recycle = recycle, rp_unpersisted = unpersisted,
                      rp_recorded = recorded\<rparr>
           in if recycle then (d', [rep])
              else case pool_child_loop ps rss run n js d' of (d2, rs) \<Rightarrow> (d2, rep # rs)))"

definition pool_child_main ::
  "pool_settings \<Rightarrow> (int \<Rightarrow> int option) \<Rightarrow> (job \<Rightarrow> db \<Rightarrow> db \<times> child_end) \<Rightarrow> job list \<Rightarrow> db \<Rightarrow>
     db \<times> report list" where
  "pool_child_main ps rss run jobs d = pool_child_loop ps rss run 0 jobs d"

section \<open>Frames\<close>

type_synonym byte = "8 word"

text \<open>\<^verbatim>\<open>struct.Struct("!I")\<close>: four bytes, most significant first; a larger number raises.\<close>

definition pack_header :: "nat \<Rightarrow> byte list option" where
  "pack_header n =
     (if n < 2 ^ 32
      then Some (map (\<lambda>k. word_of_nat (n div 2 ^ k)) [24, 16, 8, 0])
      else None)"

definition unpack_header :: "byte list \<Rightarrow> nat" where
  "unpack_header bs = foldl (\<lambda>n b. n * 256 + unat b) 0 bs"

definition encode_frame :: "('a \<Rightarrow> byte list option) \<Rightarrow> 'a \<Rightarrow> byte list option" where
  "encode_frame dumps x =
     (case dumps x of
        None \<Rightarrow> None
      | Some payload \<Rightarrow>
          (case pack_header (length payload) of None \<Rightarrow> None | Some h \<Rightarrow> Some (h @ payload)))"

text \<open>The next size of the list, at least 1 and at most \<open>n\<close>; everything when the list is at its end.\<close>

definition moved :: "nat list \<Rightarrow> nat \<Rightarrow> nat" where
  "moved sizes n = (case sizes of [] \<Rightarrow> n | c # _ \<Rightarrow> max 1 (min c n))"

function write_all :: "nat list \<Rightarrow> byte list \<Rightarrow> byte list \<Rightarrow> byte list" where
  "write_all sizes pipe view =
     (if view = [] then pipe
      else let n = moved sizes (length view)
           in write_all (tl sizes) (pipe @ take n view) (drop n view))"
  by pat_completeness auto

lemma moved_pos: "0 < n \<Longrightarrow> 0 < moved sizes n \<and> moved sizes n \<le> n"
  by (cases sizes) (auto simp: moved_def)

termination write_all
  by (relation "measure (\<lambda>(sizes, pipe, view). length view)")
    (use moved_pos in \<open>auto simp: Let_def\<close>)

function read_exact :: "nat list \<Rightarrow> nat \<Rightarrow> byte list \<Rightarrow> byte list \<Rightarrow> byte list option \<times> byte list \<times> nat list" where
  "read_exact sizes left chunks pipe =
     (if left = 0 then (Some chunks, pipe, sizes)
      else if pipe = [] then (None, [], sizes)
      else let n = moved sizes (min left (length pipe))
           in read_exact (tl sizes) (left - n) (chunks @ take n pipe) (drop n pipe))"
  by pat_completeness auto

termination read_exact
  by (relation "measure (\<lambda>(sizes, left, chunks, pipe). left)")
    (auto simp: Let_def intro!: diff_less conjunct1 [OF moved_pos])

declare write_all.simps [simp del] read_exact.simps [simp del]

definition read_frame :: "(byte list \<Rightarrow> 'a) \<Rightarrow> nat list \<Rightarrow> byte list \<Rightarrow> 'a option \<times> byte list" where
  "read_frame loads sizes pipe =
     (case read_exact sizes 4 [] pipe of
        (None, rest, _) \<Rightarrow> (None, rest)
      | (Some header, rest, sizes') \<Rightarrow>
          (case read_exact sizes' (unpack_header header) [] rest of
             (None, rest', _) \<Rightarrow> (None, rest')
           | (Some payload, rest', _) \<Rightarrow> (Some (loads payload), rest')))"

section \<open>Laws\<close>

lemma write_all_eq: "write_all sizes pipe view = pipe @ view"
proof (induction sizes pipe view rule: write_all.induct)
  case (1 sizes pipe view)
  show ?case
  proof (cases "view = []")
    case False
    then show ?thesis using 1 [OF False refl] by (subst write_all.simps) (simp add: Let_def)
  qed (subst write_all.simps, simp)
qed

lemma read_exact_eq:
  "fst (read_exact sizes left chunks pipe) =
     (if left \<le> length pipe then Some (chunks @ take left pipe) else None) \<and>
   fst (snd (read_exact sizes left chunks pipe)) = drop left pipe"
proof (induction sizes left chunks pipe rule: read_exact.induct)
  case (1 sizes left chunks pipe)
  show ?case
  proof (cases "left = 0 \<or> pipe = []")
    case True
    then show ?thesis by (subst (1 2) read_exact.simps) auto
  next
    case False
    define n where "n = moved sizes (min left (length pipe))"
    have n: "0 < n" "n \<le> left" "n \<le> length pipe"
      using moved_pos [of "min left (length pipe)" sizes] False by (auto simp: n_def)
    have t: "take n pipe @ take (left - n) (drop n pipe) = take left pipe"
      using n by (metis le_add_diff_inverse take_add)
    have l: "left - n \<le> length (drop n pipe) \<longleftrightarrow> left \<le> length pipe" using n by auto
    have "read_exact sizes left chunks pipe =
        read_exact (tl sizes) (left - n) (chunks @ take n pipe) (drop n pipe)"
      using False by (subst read_exact.simps) (simp add: Let_def n_def)
    then show ?thesis
      using "1.IH" [OF _ _ n_def] False n t unfolding l by simp
  qed
qed

lemma unat_byte: "unat (word_of_nat n :: byte) = n mod 256"
  by (simp add: unat_of_nat)

lemma header_roundtrip:
  assumes "pack_header n = Some h"
  shows "length h = 4" "unpack_header h = n"
proof -
  have n: "n < 4294967296" and h: "h = map (\<lambda>k. word_of_nat (n div 2 ^ k)) [24, 16, 8, 0]"
    using assms by (auto simp: pack_header_def split: if_splits)
  show "length h = 4" by (simp add: h)
  have "unpack_header h = ((n div 16777216 mod 256 * 256 + n div 65536 mod 256) * 256 +
      n div 256 mod 256) * 256 + n mod 256"
    by (simp add: h unat_byte unpack_header_def)
  also have "n div 16777216 mod 256 * 256 + n div 65536 mod 256 = n div 65536"
    using n div_mult2_eq [of n 65536 256] by (simp add: div_less_dividend less_mult_imp_div_less)
  also have "n div 65536 * 256 + n div 256 mod 256 = n div 256"
    using div_mult2_eq [of n 256 256] by simp
  also have "n div 256 * 256 + n mod 256 = n" by simp
  finally show "unpack_header h = n" .
qed

section \<open>Properties\<close>

text \<open>C31: a frame survives the pipe. However the operating system splits the writes and the reads, the
  reader gets the object that was framed and leaves what follows in the pipe; and when the writer dies
  in the middle of a frame, the reader gets nothing.\<close>

theorem frame_roundtrip:
  assumes dumps: "dumps x = Some payload" "loads payload = x"
    and f: "encode_frame dumps x = Some frame"
  shows "read_frame loads rs (write_all ws [] frame @ rest) = (Some x, rest) \<and>
    (k < length frame \<longrightarrow> fst (read_frame loads rs (take k (write_all ws [] frame))) = None)"
proof -
  obtain h where h: "pack_header (length payload) = Some h" "frame = h @ payload"
    using f dumps by (auto simp: encode_frame_def split: option.splits)
  note hr = header_roundtrip [OF h(1)]
  have 1: "read_frame loads rs (frame @ rest) = (Some x, rest)"
  proof -
    obtain r where r: "read_exact rs 4 [] (h @ payload @ rest) = (Some h, payload @ rest, r)"
      using read_exact_eq [of rs 4 "[]" "h @ payload @ rest"] hr(1)
      by (cases "read_exact rs 4 [] (h @ payload @ rest)") auto
    obtain q where "read_exact r (length payload) [] (payload @ rest) = (Some payload, rest, q)"
      using read_exact_eq [of r "length payload" "[]" "payload @ rest"]
      by (cases "read_exact r (length payload) [] (payload @ rest)") auto
    then show ?thesis using r hr dumps(2) by (simp add: read_frame_def h)
  qed
  have 2: "fst (read_frame loads rs (take k frame)) = None" if k: "k < length frame"
  proof (cases "k < 4")
    case True
    then have "fst (read_exact rs 4 [] (take k frame)) = None"
      using read_exact_eq [of rs 4 "[]" "take k frame"] by simp
    then show ?thesis by (cases "read_exact rs 4 [] (take k frame)") (simp add: read_frame_def)
  next
    case False
    then have tk: "take k frame = h @ take (k - 4) payload" by (simp add: h hr(1))
    obtain r where r: "read_exact rs 4 [] (take k frame) = (Some h, take (k - 4) payload, r)"
      using read_exact_eq [of rs 4 "[]" "take k frame"] hr(1) unfolding tk
      by (cases "read_exact rs 4 [] (h @ take (k - 4) payload)") auto
    have "fst (read_exact r (length payload) [] (take (k - 4) payload)) = None"
      using read_exact_eq [of r "length payload" "[]" "take (k - 4) payload"] k False
      by (simp add: h hr(1))
    then show ?thesis
      using r hr(2) by (cases "read_exact r (length payload) [] (take (k - 4) payload)")
        (simp add: read_frame_def)
  qed
  show ?thesis using 1 2 by (simp add: write_all_eq)
qed

theorem frame_roundtrip_witness:
  "\<exists>frame. encode_frame (\<lambda>b. Some [b, 7]) (5 :: byte) = Some frame \<and>
     read_frame hd [1, 3, 1] (write_all [2] [] frame @ [9]) = (Some 5, [9])"
proof -
  obtain frame where f: "encode_frame (\<lambda>b. Some [b, 7]) (5 :: byte) = Some frame"
    by (simp add: encode_frame_def pack_header_def)
  from frame_roundtrip [where dumps = "\<lambda>b. Some [b, 7]" and loads = hd, OF refl _ f] f
  show ?thesis by simp
qed

lemma pool_child_loop_bound:
  assumes "ps_max_tasks ps = Some n" "0 < n" "0 \<le> k" "k < n"
  shows "k + int (length (snd (pool_child_loop ps rss run k js d))) \<le> n \<and>
    (\<forall>r\<in>set (butlast (snd (pool_child_loop ps rss run k js d))). \<not> rp_recycle r) \<and>
    (k + int (length (snd (pool_child_loop ps rss run k js d))) = n \<longrightarrow>
       rp_recycle (last (snd (pool_child_loop ps rss run k js d))))"
  using assms
proof (induction js arbitrary: k d)
  case Nil
  then show ?case by simp
next
  case (Cons j js)
  obtain d1 ce where r: "run j d = (d1, ce)" by fastforce
  show ?case
  proof (cases ce)
    case Child_raises
    then show ?thesis using Cons.prems r by simp
  next
    case (Child_returns code u rec)
    define recycle where "recycle = should_recycle (k + 1) (ps_max_tasks ps)
        (case ps_max_memory ps of Some m \<Rightarrow> if m \<noteq> 0 then rss (k + 1) else None | None \<Rightarrow> None)
        (ps_max_memory ps)"
    define rep where "rep = \<lparr>rp_exit = code, rp_recycle = recycle, rp_unpersisted = u, rp_recorded = rec\<rparr>"
    have eq: "snd (pool_child_loop ps rss run k (j # js) d) =
        (if recycle then [rep] else rep # snd (pool_child_loop ps rss run (k + 1) js d1))"
      using r Child_returns
      by (simp add: recycle_def [symmetric] rep_def Let_def split: prod.splits)
    show ?thesis
    proof (cases recycle)
      case True
      then show ?thesis unfolding eq using Cons.prems by (simp add: rep_def)
    next
      case False
      then have "k + 1 < n" using Cons.prems by (auto simp: recycle_def should_recycle_def)
      with Cons.IH [of "k + 1" d1] Cons.prems False show ?thesis unfolding eq by (auto simp: rep_def)
    qed
  qed
qed

text \<open>A pre-forked child with a task limit runs at most that many jobs; only its last report tells the
  parent that it exits, and the report of the last job it is allowed always does.\<close>

theorem child_recycled_in_time:
  assumes "resolve_pool_settings pool max_tasks max_memory db_reuse = ps" "ps_max_tasks ps = Some n"
    and "pool_child_main ps rss run jobs d = (d', reports)"
  shows "int (length reports) \<le> n \<and> (\<forall>r\<in>set (butlast reports). \<not> rp_recycle r) \<and>
    (int (length reports) = n \<longrightarrow> rp_recycle (last reports))"
proof -
  have "0 < n"
    using assms(1,2) by (auto simp: resolve_pool_settings_def positive_int_def Let_def split: option.splits if_splits)
  from pool_child_loop_bound [OF assms(2) this, of 0 rss run jobs d] assms(3) this
  show ?thesis by (simp add: pool_child_main_def)
qed

theorem child_recycled_in_time_witness:
  "\<exists>d' reports. pool_child_main (resolve_pool_settings S_none (S_str '' 2 '') S_none S_none) (\<lambda>_. None)
       (\<lambda>j d. (d, Child_returns 0 None None)) [sample_job, sample_job, sample_job] empty_db = (d', reports) \<and>
     int (length reports) \<le> 2"
proof -
  let ?ps = "resolve_pool_settings S_none (S_str '' 2 '') S_none S_none"
  obtain d' reports where r: "pool_child_main ?ps (\<lambda>_. None)
      (\<lambda>j d. (d, Child_returns 0 None None)) [sample_job, sample_job, sample_job] empty_db = (d', reports)"
    by fastforce
  have "ps_max_tasks ?ps = Some 2" by code_simp
  from child_recycled_in_time [OF refl this r] r show ?thesis by blast
qed

lemma cpus_from_bounds:
  "1 \<le> cpus_from affinity cpu_max q p \<and>
   cpus_from affinity cpu_max q p \<le> (case affinity of Some a \<Rightarrow> max a 1 | None \<Rightarrow> 1)"
  by (auto simp: cpus_from_def Let_def split: option.splits prod.splits sum.splits)

end
