(* ===== verification/Sq_Django.thy ===== *)
theory Sq_Django
  imports Sq_System
begin

text \<open>
  The Django integration, part one: the job objects and the two modules every write goes through,
  \<^verbatim>\<open>django_sqlery/history.py\<close> (the terminal transition) and \<^verbatim>\<open>django_sqlery/ready.py\<close> (ready and blocked
  entries), with the methods of \<^verbatim>\<open>django_sqlery/models.py\<close> that only touch an object or save it.

  Django works on the same tables as the standalone backend, so the database is the record \<open>db\<close>; the
  columns that only Django has (the webhook settings) are left out, and with them the branch of a job
  that waits for its webhook (\<^verbatim>\<open>_awaits_webhook\<close> is false). A job object is a copy of a row plus what
  \<^verbatim>\<open>show_running\<close> put over it. Functions that write run inside \<^verbatim>\<open>transaction.atomic()\<close>: on \<open>Inl\<close> the caller
  is back at the database it started from.
\<close>

section \<open>Job objects\<close>

text \<open>\<^verbatim>\<open>_DERIVED_FIELDS\<close>: what a running job shows but its row does not hold.\<close>

record derived =
  dc_status :: job_status
  dc_started_at :: "timestamp option"
  dc_worker_id :: "string option"
  dc_worker_pid :: "int option"
  dc_child_pid :: "int option"

definition derived_of :: "job \<Rightarrow> derived" where
  "derived_of j =
     \<lparr>dc_status = j_status j, dc_started_at = j_started_at j, dc_worker_id = j_worker_id j,
      dc_worker_pid = j_worker_pid j, dc_child_pid = j_child_pid j\<rparr>"

definition put_derived :: "derived \<Rightarrow> job \<Rightarrow> job" where
  "put_derived c j =
     j\<lparr>j_status := dc_status c, j_started_at := dc_started_at c, j_worker_id := dc_worker_id c,
       j_worker_pid := dc_worker_pid c, j_child_pid := dc_child_pid c\<rparr>"

text \<open>The attributes of an object, \<^verbatim>\<open>_stored_row\<close>, \<^verbatim>\<open>_shown_row\<close>, the attached attempt and \<^verbatim>\<open>_in_history\<close>.\<close>

record job_object =
  jo_fields :: job
  jo_stored :: "derived option"
  jo_shown :: "derived option"
  jo_handle :: "attempt_handle option"
  jo_in_history :: bool

definition loaded :: "job \<Rightarrow> job_object" where
  "loaded j = \<lparr>jo_fields = j, jo_stored = None, jo_shown = None, jo_handle = None, jo_in_history = False\<rparr>"

definition show_running :: "attempt option \<Rightarrow> job_object \<Rightarrow> job_object" where
  "show_running att ob =
     (case att of
        None \<Rightarrow> ob
      | Some a \<Rightarrow>
          (let fields = overlay_running (Some a) (jo_fields ob)
           in ob\<lparr>jo_fields := fields,
                 jo_stored := (case jo_stored ob of
                                 None \<Rightarrow> Some (derived_of (jo_fields ob)) | Some s \<Rightarrow> Some s),
                 jo_shown := Some (derived_of fields)\<rparr>))"

definition forget_running :: "job_object \<Rightarrow> job_object" where
  "forget_running ob = ob\<lparr>jo_stored := None, jo_shown := None\<rparr>"

definition hide_running :: "job_object \<Rightarrow> job_object" where
  "hide_running ob =
     forget_running (ob\<lparr>jo_fields := (case jo_stored ob of
                                       None \<Rightarrow> jo_fields ob
                                     | Some s \<Rightarrow> put_derived s (jo_fields ob))\<rparr>)"

definition get_status :: "db \<Rightarrow> job_object \<Rightarrow> job_status" where
  "get_status d ob =
     (let j = jo_fields ob
      in if j_status j = Queued \<and> jo_stored ob = None \<and> open_attempt_in d (j_id j) \<noteq> None
         then Running else j_status j)"

text \<open>
  The row \<^verbatim>\<open>save\<close> writes: a field that still holds what \<^verbatim>\<open>show_running\<close> put there is written as the row had
  it, one the caller changed since is written as changed.
\<close>

definition unshown :: "derived \<Rightarrow> derived \<Rightarrow> job \<Rightarrow> job" where
  "unshown stored shown j =
     j\<lparr>j_status := (if j_status j = dc_status shown then dc_status stored else j_status j),
       j_started_at := (if j_started_at j = dc_started_at shown then dc_started_at stored
                        else j_started_at j),
       j_worker_id := (if j_worker_id j = dc_worker_id shown then dc_worker_id stored
                       else j_worker_id j),
       j_worker_pid := (if j_worker_pid j = dc_worker_pid shown then dc_worker_pid stored
                        else j_worker_pid j),
       j_child_pid := (if j_child_pid j = dc_child_pid shown then dc_child_pid stored
                       else j_child_pid j)\<rparr>"

definition row_to_save :: "job_object \<Rightarrow> job" where
  "row_to_save ob =
     (case (jo_stored ob, jo_shown ob) of
        (Some stored, Some shown) \<Rightarrow> unshown stored shown (jo_fields ob)
      | _ \<Rightarrow> jo_fields ob)"

section \<open>Attempts\<close>

definition dj_close :: "timestamp \<Rightarrow> attempt_handle \<Rightarrow> outcome \<Rightarrow> db \<Rightarrow> db result" where
  "dj_close now h oc d =
     (let W = (\<lambda>a. a_id a = h_id h \<and> a_token a = h_token h \<and> a_finished_at a = None)
      in case decide_close (rowcount W (attempts d)) h of
           Inl e \<Rightarrow> Inl e
         | Inr _ \<Rightarrow> Inr (d\<lparr>attempts := update_where W (close_row oc now) (attempts d)\<rparr>))"

definition dj_close_open :: "timestamp \<Rightarrow> job_id \<Rightarrow> outcome \<Rightarrow> db \<Rightarrow> db \<times> nat" where
  "dj_close_open now jid oc d =
     (let W = open_for jid
      in (d\<lparr>attempts := update_where W (close_row oc now) (attempts d)\<rparr>, rowcount W (attempts d)))"

definition dj_close_attempt ::
  "timestamp \<Rightarrow> job_id \<Rightarrow> attempt_handle option \<Rightarrow> outcome \<Rightarrow> db \<Rightarrow> db result" where
  "dj_close_attempt now jid att oc d =
     (case att of
        Some h \<Rightarrow> dj_close now h oc d
      | None \<Rightarrow>
          Inr (fst (dj_close_open now jid
                      (if oc = Outcome_success then Outcome_success else Outcome_abandoned) d)))"

definition dj_running_ids :: "job_id list \<Rightarrow> db \<Rightarrow> job_id set" where
  "dj_running_ids ids d =
     a_job_id ` set (filter (\<lambda>a. a_job_id a \<in> set ids \<and> a_finished_at a = None) (attempts d))"

section \<open>History\<close>

text \<open>
  What \<^verbatim>\<open>_attempt_columns\<close> contributes to a finished row; absent (\<open>None\<close>), the move takes the values of the
  newest attempt.
\<close>

definition columns_row :: "derived option \<Rightarrow> job \<Rightarrow> job" where
  "columns_row cols j =
     (case cols of
        None \<Rightarrow> j
      | Some c \<Rightarrow> j\<lparr>j_started_at := dc_started_at c, j_worker_id := dc_worker_id c,
                    j_worker_pid := dc_worker_pid c, j_child_pid := dc_child_pid c\<rparr>)"

text \<open>
  \<^verbatim>\<open>move\<close>. The insert must touch one row, else the caller is told that nothing moved (rows it did insert
  are rolled back by the caller, or stay); a delete that touches another number of rows raises.
\<close>

definition dj_move ::
  "timestamp \<Rightarrow> job_id \<Rightarrow> timestamp \<Rightarrow> job_status \<Rightarrow> finish_values \<Rightarrow> derived option \<Rightarrow> int option \<Rightarrow>
     job_status list option \<Rightarrow> bool \<Rightarrow> bool \<Rightarrow> db \<Rightarrow> (db \<times> bool) result" where
  "dj_move now jid created_at st v cols ver require_status require_idle close_attempts d =
     (let W = move_where d jid \<lparr>fe_created_at = Some created_at, fe_version = ver,
                               fe_status = require_status, fe_idle = require_idle\<rparr>;
          rows = map (\<lambda>j. columns_row cols (history_row d now st v j)) (filter W (live d));
          d1 = d\<lparr>history := history d @ rows\<rparr>
      in if rows \<noteq> [] \<and> \<not> distinct (map history_key (history d @ rows)) then Inl IntegrityError
         else if length rows \<noteq> 1 then Inr (d1, False)
         else if rowcount W (live d1) \<noteq> 1 then Inl RuntimeError
         else
           (let d2 = d1\<lparr>live := delete_where W (live d1)\<rparr>
            in Inr (if close_attempts
                    then fst (dj_close_open now jid
                           (if st = Success then Outcome_success else Outcome_abandoned) d2)
                    else d2, True)))"

fun dj_move_current ::
  "timestamp \<Rightarrow> (job_id \<times> timestamp \<times> job_status) list \<Rightarrow> db \<Rightarrow> (db \<times> nat) result" where
  "dj_move_current now [] d = Inr (d, 0)"
| "dj_move_current now ((jid, created_at, st) # rows) d =
     (case dj_move now jid created_at st no_values None None None False True d of
        Inl e \<Rightarrow> Inl e
      | Inr (d', ok) \<Rightarrow>
          (case dj_move_current now rows d' of
             Inl e \<Rightarrow> Inl e
           | Inr (d2, n) \<Rightarrow> Inr (d2, if ok then n + 1 else n)))"

definition dj_insert_finished :: "job \<Rightarrow> db \<Rightarrow> db result" where
  "dj_insert_finished j d =
     (let row = j\<lparr>j_finished_at := (case j_finished_at j of
                     Some t \<Rightarrow> Some t
                   | None \<Rightarrow> coalesce (j_started_at j) (Some (j_created_at j)))\<rparr>
      in if history_key row \<in> history_key ` set (history d) then Inl IntegrityError
         else Inr (d\<lparr>history := history d @ [row]\<rparr>))"

definition dj_find :: "job_id \<Rightarrow> db \<Rightarrow> job option" where
  "dj_find jid d =
     (case List.find (\<lambda>j. j_id j = jid) (live d) of
        Some j \<Rightarrow> Some j | None \<Rightarrow> List.find (\<lambda>j. j_id j = jid) (history d))"

definition dj_latest_retry :: "db \<Rightarrow> job_id \<Rightarrow> job option" where
  "dj_latest_retry d jid =
     first_by (\<lambda>j. (- j_created_at j, - j_id j))
       (filter (\<lambda>j. j_parent_job_id j = Some jid) (job_all d))"

section \<open>Ready and blocked entries\<close>

definition dj_entry_for :: "nat \<Rightarrow> job \<Rightarrow> ready_entry" where
  "dj_entry_for slot j =
     \<lparr>r_slot = slot, r_job_id = j_id j, r_queue_name = j_queue_name j, r_priority = j_priority j,
      r_created_at = j_created_at j, r_scheduled_at = j_scheduled_at j\<rparr>"

definition dj_add :: "nat \<Rightarrow> bool \<Rightarrow> job list \<Rightarrow> db \<Rightarrow> db" where
  "dj_add slot fresh js d =
     (let js' = (if fresh then js
                 else filter (\<lambda>j. j_id j \<notin> dj_running_ids (map j_id js) d) js)
      in if js' = [] then d
         else d\<lparr>ready := insert_ready (map (dj_entry_for slot) js') (ready d)\<rparr>)"

text \<open>\<open>held e\<close>: another transaction holds the entry (only asked with \<^verbatim>\<open>wait=False\<close> on PostgreSQL).\<close>

definition dj_remove :: "(ready_entry \<Rightarrow> bool) \<Rightarrow> job_id list \<Rightarrow> db \<Rightarrow> db" where
  "dj_remove held ids d =
     d\<lparr>ready := delete_where (\<lambda>e. r_slot e \<in> set SLOTS \<and> r_job_id e \<in> set ids \<and> \<not> held e) (ready d),
       blocked := delete_where (\<lambda>b. b_job_id b \<in> set ids) (blocked d)\<rparr>"

abbreviation no_holder :: "ready_entry \<Rightarrow> bool" where
  "no_holder \<equiv> \<lambda>_. False"

definition dj_before_save :: "job \<Rightarrow> db \<Rightarrow> db \<times> bool" where
  "dj_before_save j d =
     (if j_status j = Queued then
        (let W = (\<lambda>e. r_slot e \<in> set SLOTS \<and> r_job_id e = j_id j)
         in (d\<lparr>ready := update_where W
                 (\<lambda>e. e\<lparr>r_queue_name := j_queue_name j, r_priority := j_priority j,
                       r_scheduled_at := j_scheduled_at j\<rparr>) (ready d)\<rparr>,
             rowcount W (ready d) > 0))
      else (dj_remove no_holder [j_id j] d, False))"

definition dj_after_save :: "nat \<Rightarrow> job \<Rightarrow> bool \<Rightarrow> bool \<Rightarrow> db \<Rightarrow> db" where
  "dj_after_save slot j adding entry_updated d =
     (if j_status j \<noteq> Queued \<or> entry_updated then d
      else if adding \<or> \<not> (\<exists>b\<in>set (blocked d). b_job_id b = j_id j) then dj_add slot adding [j] d
      else d)"

text \<open>The literal values a bulk update gives the columns that the ready entry copies.\<close>

record ready_edits =
  ed_queue_name :: "string option"
  ed_priority :: "int option"
  ed_scheduled_at :: "timestamp option option"

definition edit_entry :: "ready_edits \<Rightarrow> ready_entry \<Rightarrow> ready_entry" where
  "edit_entry ed e =
     e\<lparr>r_queue_name := override (ed_queue_name ed) (r_queue_name e),
       r_priority := override (ed_priority ed) (r_priority e),
       r_scheduled_at := override (ed_scheduled_at ed) (r_scheduled_at e)\<rparr>"

definition dj_before_update :: "job list \<Rightarrow> ready_edits \<Rightarrow> db \<Rightarrow> db" where
  "dj_before_update rows ed d =
     d\<lparr>ready := update_where (\<lambda>e. r_slot e \<in> set SLOTS \<and> r_job_id e \<in> j_id ` set rows)
                  (edit_entry ed) (ready d)\<rparr>"

definition dj_after_update :: "nat \<Rightarrow> job list \<Rightarrow> bool \<Rightarrow> ready_edits \<Rightarrow> db \<Rightarrow> db" where
  "dj_after_update slot rows requeue ed d =
     (if requeue
      then d\<lparr>ready := insert_ready
               (map (\<lambda>j. edit_entry ed (dj_entry_for slot j))
                  (filter (\<lambda>j. j_id j \<notin> dj_running_ids (map j_id rows) d) rows)) (ready d)\<rparr>
      else d)"

section \<open>Saving an object\<close>

text \<open>
  \<^verbatim>\<open>Model.save\<close> of the ORM on an object that has a primary key: \<^verbatim>\<open>UPDATE\<close> by key; without \<^verbatim>\<open>update_fields\<close> a
  missing row is inserted, with \<^verbatim>\<open>update_fields\<close> it is an error. \<open>upd\<close> writes the columns listed there.
\<close>

definition orm_save :: "(job \<Rightarrow> job \<Rightarrow> job) option \<Rightarrow> bool \<Rightarrow> job \<Rightarrow> db \<Rightarrow> db result" where
  "orm_save upd adding j d =
     (let W = (\<lambda>r. j_id r = j_id j \<and> j_created_at r = j_created_at j)
      in if adding then Inr (d\<lparr>live := live d @ [j]\<rparr>)
         else if rowcount W (live d) > 0
         then Inr (d\<lparr>live := update_where W (case upd of None \<Rightarrow> (\<lambda>_. j) | Some f \<Rightarrow> f j) (live d)\<rparr>)
         else (case upd of
                 None \<Rightarrow> Inr (d\<lparr>live := live d @ [j]\<rparr>)
               | Some _ \<Rightarrow> Inl DatabaseError))"

text \<open>How a save ended: written, recorded as a new finished job, or finished (and moved or not).\<close>

datatype save_end = Saved | Recorded | Finished bool

definition dj_save_terminal ::
  "timestamp \<Rightarrow> (job \<Rightarrow> job \<Rightarrow> job) option \<Rightarrow> bool \<Rightarrow> job \<Rightarrow> db \<Rightarrow> (db \<times> save_end) result" where
  "dj_save_terminal now upd adding j d =
     (if adding then
        (case dj_insert_finished (j\<lparr>j_finished_at := coalesce (j_finished_at j) (Some now)\<rparr>) d of
           Inl e \<Rightarrow> Inl e | Inr d' \<Rightarrow> Inr (d', Recorded))
      else
        (case orm_save upd False j (fst (dj_before_save j d)) of
           Inl e \<Rightarrow> Inl e
         | Inr d1 \<Rightarrow>
             (case dj_move now (j_id j) (j_created_at j) (j_status j) no_values None None None False
                     True d1 of
                Inl e \<Rightarrow> Inl e | Inr (d2, moved) \<Rightarrow> Inr (d2, Finished moved))))"

text \<open>
  \<^verbatim>\<open>_save_row\<close>: \<open>relevant\<close> and \<open>status_written\<close> say whether a column of \<^verbatim>\<open>_READY_RELEVANT\<close>, and whether
  \<^verbatim>\<open>status\<close>, is written (both hold without \<^verbatim>\<open>update_fields\<close>).
\<close>

definition dj_save_row ::
  "nat \<Rightarrow> timestamp \<Rightarrow> (job \<Rightarrow> job \<Rightarrow> job) option \<Rightarrow> bool \<Rightarrow> bool \<Rightarrow> bool \<Rightarrow> bool \<Rightarrow> job \<Rightarrow> db \<Rightarrow>
     (db \<times> save_end) result" where
  "dj_save_row slot now upd relevant status_written adding in_history j d =
     (if in_history then Inl TypeError
      else if is_terminal (j_status j) \<and> \<not> is_retry_pending (Some (j_termination_reason j)) \<and>
              (adding \<or> status_written)
      then dj_save_terminal now upd adding j d
      else if \<not> (adding \<or> relevant)
      then (case orm_save upd adding j d of Inl e \<Rightarrow> Inl e | Inr d' \<Rightarrow> Inr (d', Saved))
      else
        (let (d1, updated) = (if adding then (d, False) else dj_before_save j d)
         in case orm_save upd adding j d1 of
              Inl e \<Rightarrow> Inl e
            | Inr d2 \<Rightarrow> Inr (dj_after_save slot j adding updated d2, Saved)))"

section \<open>The statements against the standalone ones\<close>

named_theorems dj_eq \<open>Django statements as the statements of the standalone backend\<close>

lemma dj_running_ids_mem [simp]: "k \<in> dj_running_ids ids d \<longleftrightarrow> k \<in> set ids \<and> is_running d k"
  by (auto simp: dj_running_ids_def is_running_def open_for_def)

lemma dj_entry_for_eq [dj_eq]: "dj_entry_for = ready_values"
  by (simp add: fun_eq_iff dj_entry_for_def ready_values_def)

lemma dj_add_eq [dj_eq]: "dj_add slot fresh js d = write_ready slot fresh js d"
proof -
  have "filter (\<lambda>j. j_id j \<notin> dj_running_ids (map j_id js) d) js = filter (\<lambda>j. \<not> is_running d (j_id j)) js"
    by (rule filter_cong) auto
  then show ?thesis by (simp add: dj_add_def write_ready_def dj_eq Let_def)
qed

lemma dj_remove_eq [dj_eq]: "dj_remove no_holder ids d = delete_blocked ids (fst (delete_ready ids d))"
  by (simp add: dj_remove_def delete_blocked_def delete_ready_def Let_def)

lemma dj_close_open_eq [dj_eq]: "dj_close_open now jid oc d = close_open (\<lambda>a. a_job_id a = jid) oc now d"
  by (simp add: dj_close_open_def close_open_def open_for_def [abs_def] Let_def)

lemma dj_close_attempt_eq [dj_eq]: "dj_close_attempt now jid att oc d = close_attempt now jid att oc d"
  by (simp add: dj_close_attempt_def dj_close_def close_attempt_def close_exact_def close_unfenced_def
      dj_eq close_open_def Let_def split: option.splits sum.splits)

lemma dj_latest_retry_eq [dj_eq]: "dj_latest_retry = latest_retry"
  by (simp add: fun_eq_iff dj_latest_retry_def latest_retry_def)

lemma dj_find_eq [dj_eq]: "dj_find = find_job"
  by (simp add: fun_eq_iff dj_find_def find_job_def live_by_id_def history_by_id_def
      split: option.splits)

text \<open>Under the invariant a move is the terminal transition of the standalone backend.\<close>

lemma dj_move_eq:
  assumes w: "wf_db d"
  shows "dj_move now jid created_at st v None ver sts idle True d =
    finish_in now jid st v \<lparr>fe_created_at = Some created_at, fe_version = ver, fe_status = sts,
      fe_idle = idle\<rparr> d"
proof -
  let ?fe = "\<lparr>fe_created_at = Some created_at, fe_version = ver, fe_status = sts, fe_idle = idle\<rparr>"
  let ?rows = "map (history_row d now st v) (filter (move_where d jid ?fe) (live d))"
  have one: "length ?rows \<le> 1"
    using move_filter [OF w, of jid ?fe] by (auto split: option.splits)
  show ?thesis
  proof (cases "?rows = []")
    case True
    then show ?thesis
      unfolding dj_move_def finish_in_def Let_def columns_row_def option.case by simp
  next
    case False
    with one have "length ?rows = 1" by (cases ?rows) auto
    then show ?thesis
      unfolding dj_move_def finish_in_def Let_def columns_row_def option.case
      by (simp add: dj_eq close_stragglers_def rowcount_def)
  qed
qed

section \<open>Laws\<close>

definition dj_moved ::
  "timestamp \<Rightarrow> job_id \<Rightarrow> job_status \<Rightarrow> finish_values \<Rightarrow> derived option \<Rightarrow> bool \<Rightarrow> job \<Rightarrow> db \<Rightarrow> db" where
  "dj_moved now jid st v cols close j d =
     (let d1 = d\<lparr>live := delete_where (\<lambda>x. j_id x = jid) (live d),
                 history := history d @ [columns_row cols (history_row d now st v j)]\<rparr>
      in if close then close_stragglers jid st now d1 else d1)"

lemma columns_row_simps [simp]:
  "j_id (columns_row c j) = j_id j" "j_status (columns_row c j) = j_status j"
  "j_finished_at (columns_row c j) = j_finished_at j" "j_created_at (columns_row c j) = j_created_at j"
  "j_version (columns_row c j) = j_version j" "j_output (columns_row c j) = j_output j"
  "j_error (columns_row c j) = j_error j" "j_runs (columns_row c j) = j_runs j"
  "j_termination_reason (columns_row c j) = j_termination_reason j"
  "j_parent_job_id (columns_row c j) = j_parent_job_id j"
  "columns_row None j = j"
  by (simp_all add: columns_row_def split: option.splits)

lemma dj_move_cases:
  assumes w: "wf_db d"
  shows "dj_move now jid created_at st v cols ver sts idle close d =
    (case live_by_id jid d of
       None \<Rightarrow> Inr (d, False)
     | Some j \<Rightarrow>
         if move_where d jid \<lparr>fe_created_at = Some created_at, fe_version = ver, fe_status = sts,
              fe_idle = idle\<rparr> j
         then Inr (dj_moved now jid st v cols close j d, True) else Inr (d, False))"
proof -
  let ?fe = "\<lparr>fe_created_at = Some created_at, fe_version = ver, fe_status = sts, fe_idle = idle\<rparr>"
  note mf = move_filter [OF w, of jid ?fe]
  show ?thesis
  proof (cases "\<exists>j. live_by_id jid d = Some j \<and> move_where d jid ?fe j")
    case False
    then have "filter (move_where d jid ?fe) (live d) = []" unfolding mf by (auto split: option.splits)
    then show ?thesis using False by (simp add: dj_move_def Let_def split: option.splits)
  next
    case True
    then obtain j where j: "live_by_id jid d = Some j" "move_where d jid ?fe j" by blast
    then have f: "filter (move_where d jid ?fe) (live d) = [j]" unfolding mf by simp
    have mem: "j \<in> set (live d)" "j_id j = jid" using j(1) live_by_id_Some [OF w] by auto
    have fi: "finish_in now jid st v ?fe d = Inr (moved_to_history now jid st v j d, True)"
      using j by (simp add: finish_in_cases [OF w])
    then have dist: "distinct (map history_key (history d @ [history_row d now st v j]))"
      using f by (auto simp: finish_in_def Let_def split: if_splits)
    have "moved_to_history now jid st v j d = close_stragglers jid st now
        (d\<lparr>live := delete_where (move_where d jid ?fe) (live d),
           history := history d @ [history_row d now st v j]\<rparr>)"
      using fi f by (simp add: finish_in_def Let_def split: if_splits)
    from arg_cong [OF this, of live]
    have del: "delete_where (move_where d jid ?fe) (live d) = delete_where (\<lambda>x. j_id x = jid) (live d)"
      by (simp add: close_stragglers_def)
    have key: "history_key (columns_row cols r) = history_key r" for r
      by (simp add: history_key_def)
    show ?thesis
      using j dist
      unfolding dj_move_def Let_def rowcount_def f list.map del dj_moved_def
      by (simp add: key dj_eq close_stragglers_def f del)
  qed
qed

lemma dj_moved_frame [simp]:
  "live (dj_moved now jid st v cols close j d) = delete_where (\<lambda>x. j_id x = jid) (live d)"
  "history (dj_moved now jid st v cols close j d) =
     history d @ [columns_row cols (history_row d now st v j)]"
  "ready (dj_moved now jid st v cols close j d) = ready d"
  "blocked (dj_moved now jid st v cols close j d) = blocked d"
  "workers (dj_moved now jid st v cols close j d) = workers d"
  "staged (dj_moved now jid st v cols close j d) = staged d"
  "next_attempt (dj_moved now jid st v cols close j d) = next_attempt d"
  by (simp_all add: dj_moved_def close_stragglers_def Let_def)

lemma dj_moved_safe:
  assumes j: "j \<in> set (live d)" "j_id j = jid" and st: "is_terminal st"
  shows "safe d (dj_moved now jid st v cols close j d)"
proof -
  let ?d = "d\<lparr>live := delete_where (\<lambda>x. j_id x = jid) (live d),
          history := history d @ [columns_row cols (history_row d now st v j)]\<rparr>"
  have "safe d ?d"
    unfolding safe_def
  proof (intro impI conjI)
    assume w: "wf_db d"
    have "distinct (map sj_id (staged ?d) @ map j_id (live ?d @ history ?d))"
      using w wf_live_not_history [OF w j(1)] j
      by (fastforce simp: wf_db_def wf_jobs_def)
    then show "wf_db ?d"
      using w st by (auto simp: wf_db_def wf_jobs_def wf_attempts_def wf_ready_def)
    show "evolves d ?d"
      using j by (auto simp: evolves_def history_grows_def attempts_evolve_def job_ids_def
          intro: att_le_refl)
  qed
  then show ?thesis
    using safe_trans [OF _ close_variants_safe(4)] by (simp add: dj_moved_def Let_def)
qed

lemma dj_move_safe:
  assumes "dj_move now jid created_at st v cols ver sts idle close d = Inr (d', ok)" "is_terminal st"
  shows "safe d d'"
proof (cases "wf_db d")
  case True
  then show ?thesis
    using assms dj_moved_safe [OF _ _ assms(2)] live_by_id_Some [OF True]
    by (auto simp: dj_move_cases split: option.splits if_splits)
qed (simp add: safe_def)

lemma dj_move_Inr: "wf_db d \<Longrightarrow> dj_move now jid c st v cols ver sts idle close d \<noteq> Inl e"
  by (simp add: dj_move_cases split: option.splits)

lemma dj_remove_safe [intro]: "safe d (dj_remove held ids d)"
  by (rule wf_frame) (auto simp: dj_remove_def wf_ready_def)

lemma dj_before_save_safe: "safe d (fst (dj_before_save j d))"
proof (cases "j_status j = Queued")
  case True
  then have "fst (dj_before_save j d) = update_ready j d"
    by (simp add: dj_before_save_def update_ready_def Let_def)
  then show ?thesis using update_ready_safe by simp
qed (auto simp: dj_before_save_def)

lemma dj_after_save_safe: "slot \<in> set SLOTS \<Longrightarrow> safe d (dj_after_save slot j adding upd d)"
  by (simp add: dj_after_save_def dj_eq write_ready_safe)

lemma orm_update_safe:
  assumes "orm_save upd False j d = Inr d'" "rowcount (\<lambda>r. j_id r = j_id j \<and> j_created_at r = j_created_at j) (live d) > 0"
    and "\<And>f r. upd = Some f \<Longrightarrow> j_id (f j r) = j_id r"
  shows "safe d d'"
proof (rule live_update_safe)
  let ?f = "case upd of None \<Rightarrow> \<lambda>_. j | Some f \<Rightarrow> f j"
  let ?W = "\<lambda>r. j_id r = j_id j \<and> j_created_at r = j_created_at j"
  have d': "d' = d\<lparr>live := update_where ?W ?f (live d)\<rparr>"
    using assms(1,2) by (simp add: orm_save_def Let_def)
  show "live d' = update_where ?W (\<lambda>r. if j_id r = j_id j then ?f r else r) (live d)"
    unfolding d' by (auto simp: update_where_def)
  show "j_id (if j_id r = j_id j then ?f r else r) = j_id r" for r
    using assms(3) by (auto split: option.splits)
qed (use assms(1,2) in \<open>auto simp: orm_save_def Let_def\<close>)

end
