(* ===== verification/Sq_Django_Jobs.thy ===== *)
theory Sq_Django_Jobs
  imports Sq_Django
begin

text \<open>
  The Django integration, part two: the transitions of a job (\<^verbatim>\<open>mark_success\<close>, \<^verbatim>\<open>mark_failed\<close> with the
  failure of its dependents, \<^verbatim>\<open>mark_running\<close>, \<^verbatim>\<open>force_stop\<close>, \<^verbatim>\<open>delete\<close>, the bulk updates of the query set) in
  \<^verbatim>\<open>django_sqlery/models.py\<close>, and the parts of \<^verbatim>\<open>ready.py\<close> and \<^verbatim>\<open>history.py\<close> that call them: blocking,
  rechecking and releasing dependents, the sweep and the settling of stray rows.

  The dependencies of a job are job ids; a value of that list that is not an integer is passed over.
\<close>

section \<open>Finishing a job\<close>

definition attempt_columns :: "db \<Rightarrow> job_object \<Rightarrow> derived option" where
  "attempt_columns d ob =
     (if jo_stored ob \<noteq> None then Some (derived_of (jo_fields ob))
      else map_option
             (\<lambda>a. derived_of (overlay_running (Some a) (jo_fields ob)))
             (open_attempt_in d (j_id (jo_fields ob))))"

text \<open>The start time, duration and finish time that both transitions set before they record the run.\<close>

definition dj_stamp :: "timestamp \<Rightarrow> derived option \<Rightarrow> job \<Rightarrow> job" where
  "dj_stamp now cols j =
     (let started = coalesce (case cols of None \<Rightarrow> None | Some c \<Rightarrow> dc_started_at c) (j_started_at j)
      in j\<lparr>j_finished_at := Some now,
           j_duration_seconds := map_option (\<lambda>t. total_seconds (now - t)) started,
           j_started_at := coalesce (j_started_at j) started\<rparr>)"

definition dj_record_run :: "job_status \<Rightarrow> string \<Rightarrow> string \<Rightarrow> job \<Rightarrow> job" where
  "dj_record_run st output error j =
     j\<lparr>j_runs := j_runs j @
         [\<lparr>run_attempt_number = j_retry_count j, run_started_at = j_started_at j,
           run_finished_at = j_finished_at j, run_status = st, run_duration = j_duration_seconds j,
           run_output = take 2000 output, run_error = take 2000 error\<rparr>]\<rparr>"

text \<open>\<^verbatim>\<open>_record_final\<close>: the object carries the final state.\<close>

definition record_final ::
  "job_status \<Rightarrow> bool \<Rightarrow> finish_values \<Rightarrow> derived option \<Rightarrow> job_object \<Rightarrow> job_object" where
  "record_final st in_history v cols ob =
     (forget_running ob)
       \<lparr>jo_in_history := in_history,
        jo_fields := columns_row cols
          ((set_values v (jo_fields ob))
             \<lparr>j_status := st, j_version := j_version (jo_fields ob) + 1,
              j_finished_at := coalesce (v_finished_at v) (j_finished_at (jo_fields ob))\<rparr>)\<rparr>"

definition dj_handle :: "attempt_handle option \<Rightarrow> job_object \<Rightarrow> attempt_handle option" where
  "dj_handle att ob = coalesce att (jo_handle ob)"

text \<open>The transaction of \<^verbatim>\<open>mark_success\<close>.\<close>

definition dj_success_in ::
  "timestamp \<Rightarrow> task_output \<Rightarrow> attempt_handle option \<Rightarrow> job_object \<Rightarrow> db \<Rightarrow> (db \<times> job_object) result" where
  "dj_success_in now out att ob d =
     (case reject_unawaited_coroutine out of
        Inl e \<Rightarrow> Inl e
      | Inr _ \<Rightarrow>
          (let j = jo_fields ob; cols = attempt_columns d ob; h = dj_handle att ob;
               j1 = dj_record_run Success (py_str out) [] (dj_stamp now cols j);
               v = no_values\<lparr>v_finished_at := Some now, v_duration := Some (j_duration_seconds j1),
                            v_output := Some (py_str out), v_runs := Some (j_runs j1)\<rparr>
           in case dj_close_attempt now (j_id j) h Outcome_success d of
                Inl e \<Rightarrow> Inl e
              | Inr d1 \<Rightarrow>
                  (case dj_move now (j_id j) (j_created_at j) Success v cols (Some (j_version j)) None
                          False (h = None) d1 of
                     Inl e \<Rightarrow> Inl e
                   | Inr (_, False) \<Rightarrow> Inl ConcurrentModificationError
                   | Inr (d2, True) \<Rightarrow>
                       Inr (d2, record_final Success True v cols (ob\<lparr>jo_fields := j1\<rparr>)))))"

text \<open>
  The transaction of \<^verbatim>\<open>mark_failed\<close>. A failure that owes a retry stays in the live table; with
  \<^verbatim>\<open>idle_only\<close> the failure applies only while no attempt is open.
\<close>

definition dj_in_place_row :: "finish_values \<Rightarrow> derived option \<Rightarrow> job \<Rightarrow> job" where
  "dj_in_place_row v cols j =
     columns_row cols
       ((set_values v j)\<lparr>j_status := Failed, j_version := j_version j + 1,
                         j_finished_at := coalesce (v_finished_at v) (j_finished_at j)\<rparr>)"

definition dj_failed_in ::
  "timestamp \<Rightarrow> string \<Rightarrow> string \<Rightarrow> string \<Rightarrow> attempt_handle option \<Rightarrow> bool \<Rightarrow> job_object \<Rightarrow> db \<Rightarrow>
     (db \<times> job_object) result" where
  "dj_failed_in now error tb reason att idle_only ob d =
     (let j = jo_fields ob; cols = (if idle_only then None else attempt_columns d ob);
          was_queued = (idle_only \<or> j_status j = Queued \<and> cols = None);
          j1 = dj_record_run Failed [] error (dj_stamp now cols j);
          v = no_values\<lparr>v_finished_at := Some now, v_duration := Some (j_duration_seconds j1),
                       v_error := Some error, v_traceback := Some tb,
                       v_termination_reason := Some reason, v_runs := Some (j_runs j1)\<rparr>;
          d1 = (if was_queued then dj_remove no_holder [j_id j] d else d)
      in case (if idle_only then Inr d1
               else dj_close_attempt now (j_id j) (dj_handle att ob) Outcome_failed d1) of
           Inl e \<Rightarrow> Inl e
         | Inr d2 \<Rightarrow>
             if is_retry_pending (Some reason) then
               (let W = (\<lambda>r. j_id r = j_id j \<and> j_created_at r = j_created_at j \<and>
                             j_version r = j_version j \<and> (idle_only \<longrightarrow> \<not> is_running d2 (j_id r)))
                in if rowcount W (live d2) = 1
                   then Inr (d2\<lparr>live := update_where W (dj_in_place_row v cols) (live d2)\<rparr>,
                             record_final Failed False v cols (ob\<lparr>jo_fields := j1\<rparr>))
                   else Inl ConcurrentModificationError)
             else
               (case dj_move now (j_id j) (j_created_at j) Failed v cols (Some (j_version j)) None
                       idle_only True d2 of
                  Inl e \<Rightarrow> Inl e
                | Inr (_, False) \<Rightarrow> Inl ConcurrentModificationError
                | Inr (d3, True) \<Rightarrow>
                    Inr (d3, record_final Failed True v cols (ob\<lparr>jo_fields := j1\<rparr>))))"

definition release_worker :: "timestamp \<Rightarrow> job \<Rightarrow> db \<Rightarrow> db" where
  "release_worker now j d =
     (case j_worker_id j of
        None \<Rightarrow> d
      | Some w \<Rightarrow>
          d\<lparr>workers := update_where (\<lambda>x. w_id x = w \<and> w_current_job_id x = Some (j_id j))
              (\<lambda>x. x\<lparr>w_status := W_idle, w_current_job_id := None, w_last_heartbeat := now\<rparr>)
              (workers d)\<rparr>)"

section \<open>Failing the dependents\<close>

definition int_dependencies :: "job \<Rightarrow> job_id list" where
  "int_dependencies j = List.map_filter (\<lambda>x. case x of JInt n \<Rightarrow> Some n | _ \<Rightarrow> None) (j_dependencies j)"

definition meta_order :: "job \<Rightarrow> int \<times> timestamp" where
  "meta_order j = (- j_priority j, j_created_at j)"

definition waiting_on :: "job_id \<Rightarrow> db \<Rightarrow> job list" where
  "waiting_on k d =
     sort_key meta_order (filter (\<lambda>j. waiting_clause d j \<and> k \<in> set (int_dependencies j)) (live d))"

text \<open>
  \<^verbatim>\<open>fail_dependent_jobs\<close>, with the failures it causes in turn: \<^verbatim>\<open>mark_failed\<close> of a dependent ends with its own
  dependents, and nothing follows that call, so the recursion is this list of (job, cause) still to
  do. A dependent that changed since it was read is passed over.
\<close>

function fail_dependents :: "timestamp \<Rightarrow> (job \<times> job_id) list \<Rightarrow> db \<Rightarrow> db \<times> unit result" where
  "fail_dependents now todo d =
     (case todo of
        [] \<Rightarrow> (d, Inr ())
      | (j, cause) # rest \<Rightarrow>
          (case dj_failed_in now (''Dependency failed: job '' @ show_int cause) []
                  ''dependency_failed'' None True (loaded j) d of
             Inl e \<Rightarrow> (if e = ConcurrentModificationError then fail_dependents now rest d
                       else (d, Inl e))
           | Inr (d', ob) \<Rightarrow>
               (let d2 = release_worker now (jo_fields ob) d'
                in fail_dependents now (map (\<lambda>x. (x, j_id j)) (waiting_on (j_id j) d2) @ rest) d2)))"
  by pat_completeness auto

lemma dj_move_length:
  assumes "dj_move now jid c st v cols ver sts idle close d = Inr (d', True)"
  shows "length (live d') < length (live d)"
proof -
  let ?W = "move_where d jid \<lparr>fe_created_at = Some c, fe_version = ver, fe_status = sts, fe_idle = idle\<rparr>"
  have "live d' = delete_where ?W (live d)" "rowcount ?W (live d) = 1"
    using assms by (auto simp: dj_move_def dj_close_open_def Let_def split: if_splits)
  moreover have "length t = rowcount Q t + length (delete_where Q t)" for Q and t :: "job list"
    by (induction t) auto
  ultimately show ?thesis by (metis less_add_same_cancel2 zero_less_one)
qed

lemma dependency_failed_final: "\<not> is_retry_pending (Some ''dependency_failed'')"
  by (simp add: is_retry_pending_def RETRY_PENDING_def startswith_def)

lemma dj_failed_idle_length:
  assumes "dj_failed_in now error tb reason att True ob d = Inr (d', ob')" "\<not> is_retry_pending (Some reason)"
  shows "length (live d') < length (live d)"
  using assms dj_move_length
  by (fastforce simp: dj_failed_in_def dj_remove_def Let_def split: sum.splits prod.splits bool.splits)

lemma release_worker_frame [simp]:
  "live (release_worker now j d) = live d" "history (release_worker now j d) = history d"
  "ready (release_worker now j d) = ready d" "blocked (release_worker now j d) = blocked d"
  "attempts (release_worker now j d) = attempts d" "staged (release_worker now j d) = staged d"
  "next_attempt (release_worker now j d) = next_attempt d"
  by (simp_all add: release_worker_def split: option.splits)

termination fail_dependents
  by (relation "measures [\<lambda>(now, todo, d). length (live d), \<lambda>(now, todo, d). length todo]")
    (auto dest!: dj_failed_idle_length [OF _ dependency_failed_final])

declare fail_dependents.simps [simp del]

definition dj_mark_failed ::
  "timestamp \<Rightarrow> string \<Rightarrow> string \<Rightarrow> string \<Rightarrow> attempt_handle option \<Rightarrow> bool \<Rightarrow> job_object \<Rightarrow> db \<Rightarrow>
     db \<times> job_object result" where
  "dj_mark_failed now error tb reason att idle_only ob d =
     (case dj_failed_in now error tb reason att idle_only ob d of
        Inl e \<Rightarrow> (d, Inl e)
      | Inr (d1, ob') \<Rightarrow>
          (let jid = j_id (jo_fields ob); d2 = release_worker now (jo_fields ob') d1
           in case fail_dependents now (map (\<lambda>x. (x, jid)) (waiting_on jid d2)) d2 of
                (d3, Inl e) \<Rightarrow> (d3, Inl e)
              | (d3, Inr _) \<Rightarrow> (d3, Inr ob')))"

section \<open>Dependencies\<close>

fun dj_judge :: "db \<Rightarrow> job list \<Rightarrow> job_id list \<Rightarrow> bool \<times> job_id list" where
  "dj_judge d [] failed = (if failed \<noteq> [] then (False, failed) else (True, []))"
| "dj_judge d (dep0 # deps) failed =
     (let dep = newest_retry (dj_latest_retry d) 1000 dep0
      in if j_status dep = Archived then (False, [])
         else if j_status dep = Failed then dj_judge d deps (failed @ [j_id dep])
         else if j_status dep \<noteq> Success then (False, [])
         else dj_judge d deps failed)"

definition check_dependencies_met :: "job \<Rightarrow> db \<Rightarrow> bool \<times> job_id list" where
  "check_dependencies_met j d =
     (let deps = int_dependencies j;
          rows = sort_key meta_order (filter (\<lambda>r. j_id r \<in> set deps) (job_all d));
          missing = filter (\<lambda>k. k \<notin> j_id ` set rows) (remdups deps)
      in if deps = [] then (True, [])
         else if missing \<noteq> [] then (False, missing)
         else dj_judge d rows [])"

definition dj_recheck_blocked ::
  "nat \<Rightarrow> timestamp \<Rightarrow> job_id \<Rightarrow> timestamp \<Rightarrow> db \<Rightarrow> (db \<times> recheck) result" where
  "dj_recheck_blocked slot now jid created_at d =
     (let unblock = (\<lambda>d. d\<lparr>blocked := delete_where (\<lambda>b. b_job_id b = jid) (blocked d)\<rparr>)
      in case List.find (\<lambda>j. j_id j = jid \<and> j_created_at j = created_at) (live d) of
           None \<Rightarrow> Inr (unblock d, Rc_gone)
         | Some j \<Rightarrow>
             if j_status j \<noteq> Queued \<or> j_id j \<in> dj_running_ids [j_id j] d
             then Inr (unblock d, Rc_gone)
             else (case check_dependencies_met j d of
                     (all_met, failed) \<Rightarrow>
                       if failed \<noteq> [] then
                         (case dj_mark_failed now (''Dependencies failed: '' @ show_int_list failed) []
                                 ''dependency_failed'' None True (loaded j) d of
                            (d', Inr _) \<Rightarrow> Inr (d', Rc_failed)
                          | (d', Inl e) \<Rightarrow>
                              if e = ConcurrentModificationError then Inr (d, Rc_gone) else Inl e)
                       else if \<not> all_met then Inr (d, Rc_blocked)
                       else Inr (dj_add slot False [j] (unblock d), Rc_ready)))"

definition dj_recheck_quietly :: "nat \<Rightarrow> timestamp \<Rightarrow> job_id \<Rightarrow> timestamp \<Rightarrow> db \<Rightarrow> db" where
  "dj_recheck_quietly slot now jid created_at d =
     (case dj_recheck_blocked slot now jid created_at d of Inl _ \<Rightarrow> d | Inr (d', _) \<Rightarrow> d')"

text \<open>
  \<^verbatim>\<open>block\<close>: the transaction part, and the recheck that runs once the surrounding transaction has
  committed (at once when there is none).
\<close>

definition dj_block_in :: "timestamp \<Rightarrow> job \<Rightarrow> db \<Rightarrow> db \<times> bool" where
  "dj_block_in now j d =
     (let rows = blocked_rows_of now j;
          W = (\<lambda>e. r_slot e \<in> set SLOTS \<and> r_job_id e = j_id j)
      in if rows = [] then (d, False)
         else if rowcount W (ready d) = 0 then (d, False)
         else (d\<lparr>ready := delete_where W (ready d), blocked := insert_blocked_rows rows (blocked d)\<rparr>, True))"

definition dj_block :: "nat \<Rightarrow> timestamp \<Rightarrow> job \<Rightarrow> db \<Rightarrow> db \<times> bool" where
  "dj_block slot now j d =
     (case dj_block_in now j d of
        (d', True) \<Rightarrow> (dj_recheck_quietly slot now (j_id j) (j_created_at j) d', True)
      | (d', False) \<Rightarrow> (d', False))"

section \<open>Releasing dependents\<close>

fun dj_recheck_all ::
  "nat \<Rightarrow> timestamp \<Rightarrow> (job_id \<times> timestamp) list \<Rightarrow> nat \<Rightarrow> work \<Rightarrow> db \<Rightarrow> db \<times> (nat \<times> work) result" where
  "dj_recheck_all slot now [] released work d = (d, Inr (released, work))"
| "dj_recheck_all slot now ((bid, created_at) # rest) released work d =
     (case dj_recheck_blocked slot now bid created_at d of
        Inl e \<Rightarrow> (d, Inl e)
      | Inr (d', Rc_ready) \<Rightarrow> dj_recheck_all slot now rest (released + 1) work d'
      | Inr (d', Rc_failed) \<Rightarrow> dj_recheck_all slot now rest released (work @ [(bid, None)]) d'
      | Inr (d', _) \<Rightarrow> dj_recheck_all slot now rest released work d')"

text \<open>The dependents of a job and of its retry ancestors (\<^const>\<open>dependents_of\<close> is the same query).\<close>

function dj_release_loop ::
  "nat \<Rightarrow> timestamp \<Rightarrow> work \<Rightarrow> job_id list \<Rightarrow> nat \<Rightarrow> db \<Rightarrow> db \<times> nat result" where
  "dj_release_loop slot now work seen released d =
     (if work = [] then (d, Inr released)
      else if fst (last work) \<in> set seen
      then dj_release_loop slot now (butlast work) seen released d
      else case dj_recheck_all slot now (dependents_of (fst (last work)) (snd (last work)) d)
                  released (butlast work) d of
             (d', Inl e) \<Rightarrow> (d', Inl e)
           | (d', Inr (released', work')) \<Rightarrow>
               dj_release_loop slot now work' (fst (last work) # seen) released' d')"
  by pat_completeness auto

lemma fail_dependents_length: "length (live (fst (fail_dependents now todo d))) \<le> length (live d)"
proof (induction now todo d rule: fail_dependents.induct)
  case (1 now todo d)
  show ?case
  proof (cases todo)
    case Nil
    then show ?thesis by (subst fail_dependents.simps) simp
  next
    case (Cons p rest)
    obtain j cause where p: "p = (j, cause)" by (cases p)
    let ?f = "dj_failed_in now (''Dependency failed: job '' @ show_int cause) [] ''dependency_failed''
        None True (loaded j) d"
    show ?thesis
    proof (cases ?f)
      case (Inl e)
      then show ?thesis
        using 1(1) [OF Cons p [symmetric] Inl] Cons p by (subst fail_dependents.simps) simp
    next
      case (Inr q)
      obtain d' ob where q: "q = (d', ob)" by (cases q)
      have "length (live d') < length (live d)"
        using dj_failed_idle_length Inr q dependency_failed_final by blast
      then show ?thesis
        using 1(2) [OF Cons p [symmetric] Inr q [symmetric] refl] Cons p Inr q
        by (subst fail_dependents.simps) (simp add: Let_def)
    qed
  qed
qed

lemma dj_mark_failed_length:
  assumes "dj_mark_failed now error tb reason att True ob d = (d', Inr ob')" "\<not> is_retry_pending (Some reason)"
  shows "length (live d') < length (live d)"
proof -
  obtain d1 ob1 where f: "dj_failed_in now error tb reason att True ob d = Inr (d1, ob1)"
    using assms(1) by (auto simp: dj_mark_failed_def split: sum.splits)
  let ?d2 = "release_worker now (jo_fields ob1) d1"
  let ?todo = "map (\<lambda>x. (x, j_id (jo_fields ob))) (waiting_on (j_id (jo_fields ob)) ?d2)"
  have "d' = fst (fail_dependents now ?todo ?d2)"
    using assms(1) f by (auto simp: dj_mark_failed_def Let_def split: sum.splits prod.splits)
  then have "length (live d') \<le> length (live ?d2)" by (simp only: fail_dependents_length)
  then show ?thesis using dj_failed_idle_length [OF f assms(2)] by simp
qed

lemma dj_recheck_length:
  assumes "dj_recheck_blocked slot now jid created_at d = Inr (d', rc)"
  shows "length (live d') + (if rc = Rc_failed then 1 else 0) \<le> length (live d)"
  using assms dj_mark_failed_length [OF _ dependency_failed_final]
  by (fastforce simp: dj_recheck_blocked_def dj_add_eq Let_def
      split: option.splits if_splits prod.splits sum.splits)

lemma dj_recheck_all_length:
  assumes "dj_recheck_all slot now bs released work d = (d', Inr (released', work'))"
  shows "2 * length (live d') + length work' \<le> 2 * length (live d) + length work"
  using assms
proof (induction slot now bs released work d rule: dj_recheck_all.induct)
  case (2 slot now bid created_at rest released work d)
  obtain d1 rc where rb: "dj_recheck_blocked slot now bid created_at d = Inr (d1, rc)"
    using "2.prems" by (auto split: sum.splits)
  note len = dj_recheck_length [OF rb]
  show ?case using "2.prems" "2.IH" [OF rb] len by (cases rc) (fastforce simp: rb)+
qed simp

termination dj_release_loop
proof (relation "measure (\<lambda>(slot, now, work, seen, released, d). 2 * length (live d) + length work)",
    goal_cases)
  case (3 slot now work seen released d d' r pr released' work')
  then have "dj_recheck_all slot now (dependents_of (fst (last work)) (snd (last work)) d) released
      (butlast work) d = (d', Inr (released', work'))" by simp
  from dj_recheck_all_length [OF this]
  have "2 * length (live d') + length work' \<le> 2 * length (live d) + (length work - 1)" by simp
  moreover have "0 < length work" using 3(1) by simp
  ultimately have "2 * length (live d') + length work' < 2 * length (live d) + length work" by linarith
  then show ?case by simp
qed simp_all

declare dj_release_loop.simps [simp del]

definition dj_release_dependents ::
  "nat \<Rightarrow> timestamp \<Rightarrow> job_id \<Rightarrow> job_id option \<Rightarrow> db \<Rightarrow> db \<times> nat result" where
  "dj_release_dependents slot now jid parent d = dj_release_loop slot now [(jid, parent)] [] 0 d"

definition dj_release_quietly ::
  "nat \<Rightarrow> timestamp \<Rightarrow> job_id \<Rightarrow> job_id option \<Rightarrow> db \<Rightarrow> db" where
  "dj_release_quietly slot now jid parent d = fst (dj_release_dependents slot now jid parent d)"

definition dj_mark_success ::
  "nat \<Rightarrow> timestamp \<Rightarrow> task_output \<Rightarrow> attempt_handle option \<Rightarrow> job_object \<Rightarrow> db \<Rightarrow> db \<times> job_object result" where
  "dj_mark_success slot now out att ob d =
     (case dj_success_in now out att ob d of
        Inl e \<Rightarrow> (d, Inl e)
      | Inr (d1, ob') \<Rightarrow>
          (dj_release_quietly slot now (j_id (jo_fields ob)) (j_parent_job_id (jo_fields ob))
             (release_worker now (jo_fields ob') d1), Inr ob'))"

text \<open>
  \<^verbatim>\<open>save\<close> of an object: what was shown comes back unless the save finished the job; then the
  dependents are released, after the transaction.
\<close>

definition dj_save ::
  "nat \<Rightarrow> timestamp \<Rightarrow> (job \<Rightarrow> job \<Rightarrow> job) option \<Rightarrow> bool \<Rightarrow> bool \<Rightarrow> bool \<Rightarrow> job_object \<Rightarrow> db \<Rightarrow>
     (db \<times> job_object) result" where
  "dj_save slot now upd relevant status_written adding ob d =
     (let row = row_to_save ob
      in case dj_save_row slot now upd relevant status_written adding (jo_in_history ob) row d of
           Inl e \<Rightarrow> Inl e
         | Inr (d', Saved) \<Rightarrow> Inr (d', ob)
         | Inr (d', Recorded) \<Rightarrow>
             Inr (d', ob\<lparr>jo_fields := (jo_fields ob)
                        \<lparr>j_finished_at := coalesce (j_finished_at (jo_fields ob)) (Some now)\<rparr>,
                      jo_in_history := True\<rparr>)
         | Inr (d', Finished moved) \<Rightarrow>
             Inr (dj_release_quietly slot now (j_id row) (j_parent_job_id row) d',
                  (forget_running ob)\<lparr>jo_fields := row, jo_in_history := moved\<rparr>))"

text \<open>\<^verbatim>\<open>refresh_from_db\<close> of a whole object: a finished job is read from history.\<close>

definition dj_refresh :: "job_object \<Rightarrow> db \<Rightarrow> job_object result" where
  "dj_refresh ob d =
     (let jid = j_id (jo_fields ob);
          ob1 = forget_running ob
      in case List.find (\<lambda>r. j_id r = jid \<and> j_created_at r = j_created_at (jo_fields ob)) (live d) of
           Some j \<Rightarrow>
             Inr (if j_status j = Queued
                  then show_running (open_attempt_in d jid) (ob1\<lparr>jo_fields := j\<rparr>)
                  else ob1\<lparr>jo_fields := j\<rparr>)
         | None \<Rightarrow>
             (case history_by_id d jid of
                None \<Rightarrow> Inl DoesNotExist
              | Some j \<Rightarrow> Inr (ob1\<lparr>jo_fields := j, jo_in_history := True\<rparr>)))"

section \<open>Settling and the sweep\<close>

definition dj_settle :: "timestamp \<Rightarrow> job_status option \<Rightarrow> job \<Rightarrow> db \<Rightarrow> (db \<times> bool) result" where
  "dj_settle now st j d =
     dj_move now (j_id j) (j_created_at j) (override st (j_status j)) no_values None None
       (Some [j_status j]) False True d"

definition dj_settle_object :: "nat \<Rightarrow> timestamp \<Rightarrow> job \<Rightarrow> db \<Rightarrow> db \<times> bool result" where
  "dj_settle_object slot now j d =
     (if \<not> is_terminal (j_status j) then (d, Inr False)
      else case dj_settle now None j d of
             Inl e \<Rightarrow> (d, Inl e)
           | Inr (d', moved) \<Rightarrow>
               (if moved then dj_release_quietly slot now (j_id j) (j_parent_job_id j) d' else d',
                Inr moved))"

definition dj_strays :: "nat \<Rightarrow> timestamp \<Rightarrow> db \<Rightarrow> job list" where
  "dj_strays limit cutoff d =
     take limit (sort_key (\<lambda>j. (j_created_at j, j_id j))
       (filter (\<lambda>j. is_terminal (j_status j) \<and> \<not> startswith (j_termination_reason j) ''retry_pending'' \<and>
                    (case j_finished_at j of None \<Rightarrow> True | Some t \<Rightarrow> t \<le> cutoff)) (live d)))"

fun dj_settle_each :: "nat \<Rightarrow> timestamp \<Rightarrow> job list \<Rightarrow> nat \<Rightarrow> db \<Rightarrow> db \<times> nat" where
  "dj_settle_each slot now [] moved d = (d, moved)"
| "dj_settle_each slot now (j # js) moved d =
     (let has_retry = (\<exists>c\<in>set (job_all d). j_parent_job_id c = Some (j_id j))
      in case settle_status (j_status j) (Some (j_termination_reason j)) has_retry of
           None \<Rightarrow> dj_settle_each slot now js moved d
         | Some st \<Rightarrow>
             if is_retry_pending (Some (j_termination_reason j)) then dj_settle_each slot now js moved d
             else (case dj_move now (j_id j) (j_created_at j) st
                          (no_values\<lparr>v_termination_reason :=
                             Some (settled_termination_reason (Some (j_termination_reason j)))\<rparr>)
                          None None (Some [j_status j]) False True d of
                     Inl _ \<Rightarrow> (d, moved)
                   | Inr (d', ok) \<Rightarrow>
                       if ok then dj_settle_each slot now js (moved + 1)
                                    (dj_release_quietly slot now (j_id j) (j_parent_job_id j) d')
                       else dj_settle_each slot now js moved d'))"

definition dj_settle_finished :: "nat \<Rightarrow> timestamp \<Rightarrow> timestamp \<Rightarrow> nat \<Rightarrow> db \<Rightarrow> db \<times> nat" where
  "dj_settle_finished slot now cutoff limit d =
     dj_settle_each slot now (dj_strays limit cutoff d) 0 d"

definition dj_lost_jobs :: "string list \<Rightarrow> nat \<Rightarrow> db \<Rightarrow> job list" where
  "dj_lost_jobs qs limit d =
     take limit (sort_key meta_order
       (filter (\<lambda>j. waiting_clause d j \<and> (qs = [] \<or> j_queue_name j \<in> set qs) \<and>
                    \<not> (\<exists>e\<in>set (ready d). r_slot e \<in> set SLOTS \<and> r_job_id e = j_id j) \<and>
                    \<not> (\<exists>b\<in>set (blocked d). b_job_id b = j_id j)) (live d)))"

definition dj_ghosts :: "string list \<Rightarrow> nat \<Rightarrow> (ready_entry \<Rightarrow> bool) \<Rightarrow> db \<Rightarrow> ready_entry list" where
  "dj_ghosts qs limit locked d =
     take limit (filter (\<lambda>e. \<not> (\<exists>j\<in>set (live d). waiting_clause d j \<and> j_id j = r_job_id e \<and>
                                 j_created_at j = r_created_at e) \<and>
                             (qs = [] \<or> r_queue_name e \<in> set qs) \<and> \<not> locked e) (ready d))"

record dj_sweep =
  ds_restored :: nat
  ds_dropped :: nat
  ds_rechecked :: nat
  ds_cursor :: job_id

fun dj_recheck_each :: "nat \<Rightarrow> timestamp \<Rightarrow> (job_id \<times> timestamp) list \<Rightarrow> db \<Rightarrow> db" where
  "dj_recheck_each slot now [] d = d"
| "dj_recheck_each slot now ((jid, created_at) # rest) d =
     dj_recheck_each slot now rest (dj_recheck_quietly slot now jid created_at d)"

definition dj_maintain ::
  "nat \<Rightarrow> timestamp \<Rightarrow> string list \<Rightarrow> nat \<Rightarrow> job_id \<Rightarrow> (ready_entry \<Rightarrow> bool) \<Rightarrow> db \<Rightarrow> db \<times> dj_sweep" where
  "dj_maintain slot now qs limit after locked d =
     (let lost = dj_lost_jobs qs limit d;
          d1 = dj_add slot False lost d;
          stale = dj_ghosts qs limit locked d1;
          d2 = delete_entries stale d1;
          page = take limit (sort_key fst (remdups
                   (map (\<lambda>b. (b_job_id b, b_created_at b)) (filter (\<lambda>b. b_job_id b > after) (blocked d2)))))
      in (dj_recheck_each slot now page d2,
          \<lparr>ds_restored = length lost, ds_dropped = length stale, ds_rechecked = length page,
           ds_cursor = (if length page \<ge> limit \<and> page \<noteq> [] then fst (last page) else 0)\<rparr>))"

definition dj_maintain_ready_queue ::
  "nat \<Rightarrow> timestamp \<Rightarrow> timestamp \<Rightarrow> string list \<Rightarrow> nat \<Rightarrow> job_id \<Rightarrow> (ready_entry \<Rightarrow> bool) \<Rightarrow> db \<Rightarrow>
     db \<times> dj_sweep \<times> nat" where
  "dj_maintain_ready_queue slot now cutoff qs limit after locked d =
     (let (d1, settled) = dj_settle_finished slot now cutoff limit d;
          (d2, result) = dj_maintain slot now qs limit after locked d1
      in (d2, result, settled))"

section \<open>Stopping, deleting and bulk updates\<close>

definition force_stop :: "timestamp \<Rightarrow> job_object \<Rightarrow> db \<Rightarrow> db \<times> bool" where
  "force_stop now ob d =
     (let j = jo_fields ob
      in if j_status j \<noteq> Running then (d, False)
         else
           (let d1 = fst (dj_mark_failed now ''Displaced by newer job with same name'' [] ''displaced''
                            None False ob d)
            in (case List.find (\<lambda>w. w_current_job_id w = Some (j_id j) \<and> w_status w = W_busy) (workers d1) of
                  None \<Rightarrow> d1
                | Some w \<Rightarrow>
                    d1\<lparr>workers := update_where (\<lambda>x. w_id x = w_id w)
                        (\<lambda>x. x\<lparr>w_status := W_idle, w_current_job_id := None, w_last_heartbeat := now\<rparr>)
                        (workers d1)\<rparr>, True)))"

text \<open>\<open>busy\<close>: the job row is locked by another transaction (PostgreSQL); \<open>held\<close> as in \<^const>\<open>dj_remove\<close>.\<close>

definition dj_mark_running ::
  "claim_env \<Rightarrow> (ready_entry \<Rightarrow> bool) \<Rightarrow> timestamp \<Rightarrow> job \<Rightarrow> db \<Rightarrow> (db \<times> attempt_handle) result" where
  "dj_mark_running env held now j d =
     (if (\<exists>r\<in>set (live d). j_id r = j_id j \<and> j_created_at r = j_created_at j \<and> j_version r = j_version j \<and>
            j_status r = Queued \<and> \<not> (ce_pg env \<and> ce_busy env (j_id r))) \<and>
         open_attempt_in d (j_id j) = None
      then Inr (open_attempt (env\<lparr>ce_worker := j_worker_id j\<rparr>) (j_id j) now
                  (dj_remove (\<lambda>e. ce_pg env \<and> held e) [j_id j] d))
      else Inl ConcurrentModificationError)"

definition dj_delete :: "nat \<Rightarrow> timestamp \<Rightarrow> job \<Rightarrow> db \<Rightarrow> db" where
  "dj_delete slot now j d =
     (let d1 = dj_remove no_holder [j_id j] d
      in dj_release_quietly slot now (j_id j) (j_parent_job_id j)
           (d1\<lparr>live := delete_where (\<lambda>r. j_id r = j_id j \<and> j_created_at r = j_created_at j) (live d1)\<rparr>))"

fun dj_release_each :: "nat \<Rightarrow> timestamp \<Rightarrow> job_id list \<Rightarrow> db \<Rightarrow> db" where
  "dj_release_each slot now [] d = d"
| "dj_release_each slot now (jid # rest) d =
     dj_release_each slot now rest (dj_release_quietly slot now jid None d)"

text \<open>
  \<^verbatim>\<open>QuerySet.update\<close>: \<open>sel\<close> is the selection, \<open>f\<close> the assignments, \<open>st\<close> and \<open>reason\<close> the values given to
  \<^verbatim>\<open>status\<close> and \<^verbatim>\<open>termination_reason\<close> if any.
\<close>

definition dj_update_to_terminal ::
  "nat \<Rightarrow> timestamp \<Rightarrow> (job \<Rightarrow> bool) \<Rightarrow> job_status \<Rightarrow> string option \<Rightarrow> (job \<Rightarrow> job) \<Rightarrow> db \<Rightarrow> db \<times> nat result" where
  "dj_update_to_terminal slot now sel st reason f d =
     (let rows = filter sel (live d);
          ids = map j_id rows;
          d1 = (if \<exists>r\<in>set rows. j_status r = Queued then dj_remove no_holder ids d else d);
          d2 = d1\<lparr>live := update_where sel f (live d1)\<rparr>
      in if is_retry_pending reason then (d2, Inr (length rows))
         else case dj_move_current now (map (\<lambda>r. (j_id r, j_created_at r, st)) rows) d2 of
                Inl e \<Rightarrow> (d, Inl e)
              | Inr (d3, _) \<Rightarrow> (dj_release_each slot now ids d3, Inr (length rows)))"

definition dj_update ::
  "nat \<Rightarrow> timestamp \<Rightarrow> (job \<Rightarrow> bool) \<Rightarrow> job_status option \<Rightarrow> string option \<Rightarrow> ready_edits \<Rightarrow> (job \<Rightarrow> job) \<Rightarrow>
     db \<Rightarrow> db \<times> nat result" where
  "dj_update slot now sel st reason ed f d =
     (case st of
        Some s \<Rightarrow>
          if is_terminal s then dj_update_to_terminal slot now sel s reason f d
          else
            (let rows = filter sel (live d);
                 d1 = dj_before_update rows ed d;
                 d2 = d1\<lparr>live := update_where sel f (live d1)\<rparr>
             in (dj_after_update slot rows (s = Queued) ed d2, Inr (length rows)))
      | None \<Rightarrow>
          (let rows = filter sel (live d);
               d1 = dj_before_update rows ed d
           in (d1\<lparr>live := update_where sel f (live d1)\<rparr>, Inr (length rows))))"

definition dj_fail_running ::
  "nat \<Rightarrow> timestamp \<Rightarrow> (job \<Rightarrow> bool) \<Rightarrow> string option \<Rightarrow> (job \<Rightarrow> job) \<Rightarrow> db \<Rightarrow> db \<times> nat result" where
  "dj_fail_running slot now sel reason f d =
     (let ids = map j_id (filter (\<lambda>j. sel j \<and> running_clause d j) (live d))
      in if ids = [] then (d, Inr 0)
         else
           (let d1 = d\<lparr>attempts := update_where (\<lambda>a. a_job_id a \<in> set ids \<and> a_finished_at a = None)
                         (close_row Outcome_abandoned now) (attempts d)\<rparr>
            in case dj_update_to_terminal slot now (\<lambda>j. j_id j \<in> set ids \<and> j_status j = Queued) Failed
                      reason (\<lambda>j. (f j)\<lparr>j_status := Failed\<rparr>) d1 of
                 (_, Inl e) \<Rightarrow> (d, Inl e)
               | (d2, Inr n) \<Rightarrow> (d2, Inr n)))"

end
