(* ===== verification/Sq_Django_Laws.thy ===== *)
theory Sq_Django_Laws
  imports Sq_Django_Jobs
begin

text \<open>
  The laws of the Django transitions: each keeps the integrity invariant and lets the database only
  evolve (\<^const>\<open>safe\<close>), by composition of the laws of its statements.
\<close>

named_theorems dj_safe \<open>safety of the Django operations\<close>

lemma slot_0 [simp]: "0 \<in> set SLOTS"
  by (simp add: SLOTS_def)

section \<open>Statements\<close>

lemma unblock_safe: "safe d (d\<lparr>blocked := delete_where P (blocked d)\<rparr>)"
  by (rule wf_frame) (auto simp: wf_ready_def)

lemma dj_add_safe: "slot \<in> set SLOTS \<Longrightarrow> safe d (dj_add slot fresh js d)"
  by (simp add: dj_eq write_ready_safe)

lemma dj_close_attempt_safe: "dj_close_attempt now jid att oc d = Inr d' \<Longrightarrow> safe d d'"
  by (simp add: dj_eq close_attempt_safe)

lemma release_worker_safe [simp]: "safe d (release_worker now j d)"
  by (rule wf_frame) (auto simp: wf_ready_def)

lemma dj_in_place_row_id [simp]: "j_id (dj_in_place_row v cols j) = j_id j"
  by (simp add: dj_in_place_row_def set_values_def)

lemma in_place_safe:
  "(\<And>j. j_id (f j) = j_id j) \<Longrightarrow> safe d (d\<lparr>live := update_where W f (live d)\<rparr>)"
  by (rule live_update_safe [where Q = W and f = f]) auto

section \<open>Transitions\<close>

lemma dj_success_in_safe:
  assumes "dj_success_in now out att ob d = Inr (d', ob')"
  shows "safe d d'"
proof -
  obtain d1 v cols ver close where c: "dj_close_attempt now (j_id (jo_fields ob)) (dj_handle att ob) Outcome_success d = Inr d1"
    and m: "dj_move now (j_id (jo_fields ob)) (j_created_at (jo_fields ob)) Success v cols ver None False close d1
      = Inr (d', True)"
    using assms by (auto simp: dj_success_in_def Let_def split: sum.splits prod.splits bool.splits)
  show ?thesis by (rule safe_trans [OF dj_close_attempt_safe [OF c] dj_move_safe [OF m]]) simp
qed

lemma dj_failed_in_shape:
  assumes "dj_failed_in now error tb reason att idle ob d = Inr (d', ob')"
  obtains d1 d2 where
    "d1 = (if idle \<or> j_status (jo_fields ob) = Queued \<and> attempt_columns d ob = None
           then dj_remove no_holder [j_id (jo_fields ob)] d else d)"
    "(if idle then Inr d1 else dj_close_attempt now (j_id (jo_fields ob)) (dj_handle att ob) Outcome_failed d1) =
       Inr d2" "safe d2 d'"
proof -
  let ?jid = "j_id (jo_fields ob)"
  let ?d1 = "if idle \<or> j_status (jo_fields ob) = Queued \<and> attempt_columns d ob = None
      then dj_remove no_holder [?jid] d else d"
  obtain d2 where c: "(if idle then Inr ?d1
      else dj_close_attempt now ?jid (dj_handle att ob) Outcome_failed ?d1) = Inr d2"
    using assms by (auto simp: dj_failed_in_def Let_def split: sum.splits if_splits)
  have "(\<exists>W v cols. d' = d2\<lparr>live := update_where W (dj_in_place_row v cols) (live d2)\<rparr>) \<or>
      (\<exists>v cols ver. dj_move now ?jid (j_created_at (jo_fields ob)) Failed v cols ver None idle True d2 =
         Inr (d', True))"
    using assms c
    by (fastforce simp: dj_failed_in_def Let_def split: sum.splits if_splits prod.splits bool.splits)
  then have "safe d2 d'"
    using dj_move_safe [of now ?jid _ Failed] in_place_safe [of "dj_in_place_row _ _"] by auto
  then show thesis using that c by blast
qed

lemma dj_failed_in_safe:
  assumes "dj_failed_in now error tb reason att idle ob d = Inr (d', ob')"
  shows "safe d d'"
proof (rule dj_failed_in_shape [OF assms])
  fix d1 d2
  assume d1: "d1 = (if idle \<or> j_status (jo_fields ob) = Queued \<and> attempt_columns d ob = None
      then dj_remove no_holder [j_id (jo_fields ob)] d else d)"
    and c: "(if idle then Inr d1 else dj_close_attempt now (j_id (jo_fields ob)) (dj_handle att ob)
      Outcome_failed d1) = Inr d2" and s: "safe d2 d'"
  have "safe d d1" unfolding d1 by auto
  moreover have "safe d1 d2" using c dj_close_attempt_safe by (auto split: if_splits)
  ultimately show ?thesis using s safe_trans by blast
qed

section \<open>Relations closed under the failure of dependents\<close>

text \<open>
  The failure of a job fails its dependents, a recheck may fail a job, and the release of dependents
  rechecks: a reflexive and transitive relation that is closed under the failure of an idle job and
  under the statements in between is closed under all three. It is used for the safety of the
  database, for the set of running jobs and for the set of live jobs.
\<close>

locale failure_closed =
  fixes R :: "db \<Rightarrow> db \<Rightarrow> bool"
  assumes reflR: "R d d"
    and transR: "R d1 d2 \<Longrightarrow> R d2 d3 \<Longrightarrow> R d1 d3"
    and failR: "dj_failed_in now error tb reason att True ob d = Inr (d', ob') \<Longrightarrow>
      \<not> is_retry_pending (Some reason) \<Longrightarrow> R d d'"
    and workerR: "R d (release_worker now j d)"
    and unblockR: "R d (d\<lparr>blocked := delete_where P (blocked d)\<rparr>)"
    and addR: "slot \<in> set SLOTS \<Longrightarrow> R d (dj_add slot False js d)"
begin

lemma fail_dependents_closed: "R d (fst (fail_dependents now todo d))"
proof (induction now todo d rule: fail_dependents.induct)
  case (1 now todo d)
  show ?case
  proof (cases todo)
    case Nil
    then show ?thesis by (subst fail_dependents.simps) (simp add: reflR)
  next
    case (Cons p rest)
    obtain j cause where p: "p = (j, cause)" by (cases p)
    let ?f = "dj_failed_in now (''Dependency failed: job '' @ show_int cause) [] ''dependency_failed''
        None True (loaded j) d"
    show ?thesis
    proof (cases ?f)
      case (Inl e)
      then show ?thesis
        using 1(1) [OF Cons p [symmetric] Inl] Cons p by (subst fail_dependents.simps) (simp add: reflR)
    next
      case (Inr q)
      obtain d' ob where q: "q = (d', ob)" by (cases q)
      have "R d (release_worker now (jo_fields ob) d')"
        using transR [OF failR workerR] Inr q dependency_failed_final by blast
      from transR [OF this] show ?thesis
        using 1(2) [OF Cons p [symmetric] Inr q [symmetric] refl] Cons p Inr q
        by (subst fail_dependents.simps) (simp add: Let_def)
    qed
  qed
qed

lemma mark_failed_closed:
  assumes "dj_mark_failed now error tb reason att idle ob d = (d', r)"
    and "\<And>d1 ob'. dj_failed_in now error tb reason att idle ob d = Inr (d1, ob') \<Longrightarrow> R d d1"
  shows "R d d'"
proof (cases "dj_failed_in now error tb reason att idle ob d")
  case (Inl e)
  then show ?thesis using assms(1) by (simp add: dj_mark_failed_def reflR)
next
  case (Inr q)
  obtain d1 ob' where q: "q = (d1, ob')" by (cases q)
  let ?d2 = "release_worker now (jo_fields ob') d1"
  let ?todo = "map (\<lambda>x. (x, j_id (jo_fields ob))) (waiting_on (j_id (jo_fields ob)) ?d2)"
  have "R d ?d2" using transR [OF assms(2) workerR] Inr q by blast
  moreover have "d' = fst (fail_dependents now ?todo ?d2)"
    using assms(1) Inr q by (auto simp: dj_mark_failed_def Let_def split: prod.splits sum.splits)
  ultimately show ?thesis using transR fail_dependents_closed by metis
qed

lemma mark_failed_idle_closed:
  "dj_mark_failed now error tb reason att True ob d = (d', r) \<Longrightarrow> \<not> is_retry_pending (Some reason) \<Longrightarrow> R d d'"
  by (erule mark_failed_closed) (rule failR)

lemma recheck_closed:
  assumes "dj_recheck_blocked slot now jid created_at d = Inr (d', rc)" "slot \<in> set SLOTS"
  shows "R d d'"
  using assms mark_failed_idle_closed [OF _ dependency_failed_final] unblockR
    transR [OF unblockR addR [OF assms(2)]] reflR
  by (fastforce simp: dj_recheck_blocked_def Let_def split: option.splits if_splits prod.splits sum.splits)

lemma recheck_quietly_closed: "slot \<in> set SLOTS \<Longrightarrow> R d (dj_recheck_quietly slot now jid created_at d)"
  using recheck_closed reflR by (fastforce simp: dj_recheck_quietly_def split: sum.splits prod.splits)

lemma recheck_all_closed:
  "slot \<in> set SLOTS \<Longrightarrow> R d (fst (dj_recheck_all slot now bs released work d))"
proof (induction slot now bs released work d rule: dj_recheck_all.induct)
  case (2 slot now bid created_at rest released work d)
  show ?case
  proof (cases "dj_recheck_blocked slot now bid created_at d")
    case (Inr q)
    obtain d1 rc where q: "q = (d1, rc)" by (cases q)
    have s: "R d d1" using recheck_closed Inr q "2.prems" by blast
    show ?thesis using "2.IH" [OF Inr [unfolded q]] "2.prems" transR [OF s]
      by (cases rc) (auto simp: Inr q)
  qed (simp add: reflR)
qed (simp add: reflR)

lemma release_loop_closed:
  "slot \<in> set SLOTS \<Longrightarrow> R d (fst (dj_release_loop slot now work seen released d))"
proof (induction slot now work seen released d rule: dj_release_loop.induct)
  case (1 slot now work seen released d)
  show ?case
  proof (cases "work = [] \<or> fst (last work) \<in> set seen")
    case True
    then show ?thesis using 1(1) "1.prems" by (subst dj_release_loop.simps) (auto simp: reflR)
  next
    case False
    let ?r = "dj_recheck_all slot now (dependents_of (fst (last work)) (snd (last work)) d) released
        (butlast work) d"
    have s: "R d (fst ?r)" using recheck_all_closed "1.prems" by blast
    show ?thesis
    proof (cases "snd ?r")
      case (Inl e)
      then show ?thesis
        using False s by (subst dj_release_loop.simps) (auto split: prod.splits)
    next
      case (Inr p)
      obtain released' work' where p: "p = (released', work')" by (cases p)
      then obtain d' where eq: "?r = (d', Inr (released', work'))" using Inr by (metis prod.collapse)
      have "R d' (fst (dj_release_loop slot now work' (fst (last work) # seen) released' d'))"
        using 1(2) [of d' "Inr (released', work')" "(released', work')" released' work'] False "1.prems" eq by auto
      from transR [OF _ this, of d] show ?thesis
        using False eq s by (subst dj_release_loop.simps) simp
    qed
  qed
qed

lemma release_quietly_closed: "slot \<in> set SLOTS \<Longrightarrow> R d (dj_release_quietly slot now jid parent d)"
  by (simp add: dj_release_quietly_def dj_release_dependents_def release_loop_closed)

end

interpretation failing: failure_closed safe
proof
  show "dj_failed_in now error tb reason att True ob d = Inr (d', ob') \<Longrightarrow> safe d d'"
    for now error tb reason att ob d d' ob' by (rule dj_failed_in_safe)
qed (auto intro: safe_trans unblock_safe dj_add_safe)

lemma dj_mark_failed_safe [dj_safe]:
  "dj_mark_failed now error tb reason att idle ob d = (d', r) \<Longrightarrow> safe d d'"
  by (erule failing.mark_failed_closed) (rule dj_failed_in_safe)

lemmas dj_recheck_safe = failing.recheck_closed
  and dj_recheck_quietly_safe [dj_safe] = failing.recheck_quietly_closed
  and dj_release_quietly_safe [dj_safe] = failing.release_quietly_closed

text \<open>An idle job that fails had no open attempt, so what runs stays the same.\<close>

lemma idle_update: "\<not> is_running d jid \<Longrightarrow> update_where (open_for jid) f (attempts d) = attempts d"
  unfolding update_where_def by (rule map_idI) (auto simp: is_running_def)

lemma dj_move_idle_running:
  assumes "dj_move now jid c st v cols ver sts True close d = Inr (d', ok)"
  shows "same_running d d'"
proof -
  let ?W = "move_where d jid \<lparr>fe_created_at = Some c, fe_version = ver, fe_status = sts, fe_idle = True\<rparr>"
  have "attempts d' = attempts d \<or> rowcount ?W (live d) = 1 \<and>
      attempts d' = update_where (open_for jid)
        (close_row (if st = Success then Outcome_success else Outcome_abandoned) now) (attempts d)"
    using assms by (auto simp: dj_move_def dj_close_open_def Let_def split: if_splits)
  moreover have "\<not> is_running d jid" if "rowcount ?W (live d) = 1"
  proof -
    from that obtain r where "?W r"
      by (metis (mono_tags, lifting) filter_False length_0_conv rowcount_def zero_neq_one)
    then show ?thesis by (auto simp: move_where_def)
  qed
  ultimately have "attempts d' = attempts d" by (metis idle_update)
  then show ?thesis by (simp add: same_running_def is_running_def)
qed

lemma dj_failed_idle_running:
  assumes "dj_failed_in now error tb reason att True ob d = Inr (d', ob')"
  shows "same_running d d'"
proof -
  let ?d1 = "dj_remove no_holder [j_id (jo_fields ob)] d"
  have "same_running d ?d1" by (simp add: same_running_def dj_remove_def)
  moreover have "same_running ?d1 d'"
    using assms dj_move_idle_running
    by (fastforce simp: dj_failed_in_def Let_def same_running_def split: if_splits sum.splits prod.splits bool.splits)
  ultimately show ?thesis by (rule same_running_trans)
qed

interpretation fail_running: failure_closed same_running
proof
  show "dj_failed_in now error tb reason att True ob d = Inr (d', ob') \<Longrightarrow> same_running d d'"
    for now error tb reason att ob d d' ob' by (rule dj_failed_idle_running)
qed (auto intro: same_running_trans
  simp: same_running_def is_running_def dj_add_def Let_def)

text \<open>Nothing of this adds a job to the live table.\<close>

definition live_ids :: "db \<Rightarrow> job_id set" where
  "live_ids d = j_id ` set (live d)"

lemma finite_live_ids [simp]: "finite (live_ids d)"
  by (simp add: live_ids_def)

lemma dj_move_live_ids:
  assumes "dj_move now jid c st v cols ver sts idle close d = Inr (d', ok)"
  shows "live_ids d' \<subseteq> live_ids d"
proof -
  let ?W = "move_where d jid \<lparr>fe_created_at = Some c, fe_version = ver, fe_status = sts, fe_idle = idle\<rparr>"
  have "live d' = live d \<or> live d' = delete_where ?W (live d)"
    using assms by (auto simp: dj_move_def dj_close_open_def Let_def split: if_splits)
  then show ?thesis by (auto simp: live_ids_def)
qed

interpretation fail_live: failure_closed "\<lambda>d d'. live_ids d' \<subseteq> live_ids d"
proof
  fix now error tb reason att ob d d' ob'
  assume f: "dj_failed_in now error tb reason att True ob d = Inr (d', ob')" "\<not> is_retry_pending (Some reason)"
  obtain v cols ver where m: "dj_move now (j_id (jo_fields ob)) (j_created_at (jo_fields ob)) Failed v cols ver
      None True True (dj_remove no_holder [j_id (jo_fields ob)] d) = Inr (d', True)"
    using f by (auto simp: dj_failed_in_def Let_def split: sum.splits prod.splits bool.splits)
  show "live_ids d' \<subseteq> live_ids d"
    using dj_move_live_ids [OF m] by (simp add: live_ids_def dj_remove_def)
qed (auto simp: live_ids_def dj_add_def Let_def)

section \<open>Success\<close>

lemma dj_mark_success_safe [dj_safe]:
  assumes "dj_mark_success slot now out att ob d = (d', r)" "slot \<in> set SLOTS"
  shows "safe d d'"
proof (cases "dj_success_in now out att ob d")
  case (Inl e)
  then show ?thesis using assms by (simp add: dj_mark_success_def)
next
  case (Inr q)
  then show ?thesis
    using assms(1) safe_trans [OF safe_trans [OF dj_success_in_safe release_worker_safe]
        dj_release_quietly_safe [OF assms(2)]]
    by (cases q) (auto simp: dj_mark_success_def)
qed

section \<open>Settling, sweeping and bulk updates\<close>

lemma dj_settle_safe: "is_terminal (override st (j_status j)) \<Longrightarrow> dj_settle now st j d = Inr (d', ok) \<Longrightarrow> safe d d'"
  using dj_move_safe by (auto simp: dj_settle_def)

lemma dj_settle_object_safe [dj_safe]:
  assumes "slot \<in> set SLOTS"
  shows "safe d (fst (dj_settle_object slot now j d))"
proof (cases "dj_settle now None j d")
  case (Inr q)
  then show ?thesis
    using dj_settle_safe [of None j] safe_trans [OF _ dj_release_quietly_safe [OF assms]]
    by (cases q) (auto simp: dj_settle_object_def override_def)
qed (simp add: dj_settle_object_def)

lemma dj_settle_each_safe:
  "slot \<in> set SLOTS \<Longrightarrow> safe d (fst (dj_settle_each slot now js moved d))"
proof (induction slot now js moved d rule: dj_settle_each.induct)
  case (2 slot now j js moved d)
  let ?hr = "\<exists>c\<in>set (job_all d). j_parent_job_id c = Some (j_id j)"
  show ?case
  proof (cases "settle_status (j_status j) (Some (j_termination_reason j)) ?hr")
    case None
    then show ?thesis using 2(1) [OF refl] "2.prems" by (simp add: Let_def)
  next
    case (Some st)
    note st = Some
    let ?m = "dj_move now (j_id j) (j_created_at j) st
        (no_values\<lparr>v_termination_reason := Some (settled_termination_reason (Some (j_termination_reason j)))\<rparr>)
        None None (Some [j_status j]) False True d"
    show ?thesis
    proof (cases "is_retry_pending (Some (j_termination_reason j)) \<or> (\<exists>e. ?m = Inl e)")
      case True
      then show ?thesis using 2(2) [OF refl st] "2.prems" st by (auto simp: Let_def)
    next
      case False
      then obtain d' ok where m: "?m = Inr (d', ok)" by (cases ?m) auto
      have s: "safe d d'" using dj_move_safe [OF m] settle_status_terminal [OF st] by blast
      show ?thesis
      proof (cases ok)
        case True
        let ?d2 = "dj_release_quietly slot now (j_id j) (j_parent_job_id j) d'"
        have "safe d ?d2" using safe_trans [OF s dj_release_quietly_safe [OF "2.prems"]] .
        from safe_trans [OF this] show ?thesis
          using 2(3) [OF refl st _ m refl] False "2.prems" st m True by (simp add: Let_def)
      next
        case nok: False
        from safe_trans [OF s] show ?thesis
          using 2(4) [OF refl st _ m refl] False "2.prems" st m nok by (simp add: Let_def)
      qed
    qed
  qed
qed simp

lemma dj_recheck_each_safe: "slot \<in> set SLOTS \<Longrightarrow> safe d (dj_recheck_each slot now page d)"
  by (induction slot now page d rule: dj_recheck_each.induct)
    (auto intro: safe_trans [OF dj_recheck_quietly_safe])

lemma dj_maintain_safe [dj_safe]:
  assumes "slot \<in> set SLOTS"
  shows "safe d (fst (dj_maintain_ready_queue slot now cutoff qs limit after locked d))"
proof -
  have m: "safe e (fst (dj_maintain slot now qs limit after locked e))" for e
    using safe_trans [OF safe_trans [OF dj_add_safe [OF assms] delete_entries_safe]
        dj_recheck_each_safe [OF assms]]
    by (simp add: dj_maintain_def Let_def)
  show ?thesis
    using safe_trans [OF dj_settle_each_safe [OF assms] m]
    by (simp add: dj_maintain_ready_queue_def dj_settle_finished_def split: prod.splits)
      (metis fst_conv)
qed

lemma dj_move_current_safe:
  assumes "dj_move_current now rows d = Inr (d', n)" "\<And>r. r \<in> set rows \<Longrightarrow> is_terminal (snd (snd r))"
  shows "safe d d'"
  using assms
proof (induction now rows d arbitrary: n rule: dj_move_current.induct)
  case (2 now jid created_at st rows d)
  obtain d1 ok m where mv: "dj_move now jid created_at st no_values None None None False True d = Inr (d1, ok)"
    and rest: "dj_move_current now rows d1 = Inr (d', m)"
    using "2.prems"(1) by (auto split: sum.splits prod.splits)
  have "safe d d1" using dj_move_safe [OF mv] "2.prems"(2) [of "(jid, created_at, st)"] by simp
  then show ?case using safe_trans "2.IH" [OF mv refl rest] "2.prems"(2) by simp
qed simp

lemma dj_release_each_safe: "slot \<in> set SLOTS \<Longrightarrow> safe d (dj_release_each slot now ids d)"
  by (induction slot now ids d rule: dj_release_each.induct)
    (auto intro: safe_trans [OF dj_release_quietly_safe])

lemma dj_update_to_terminal_safe [dj_safe]:
  assumes "dj_update_to_terminal slot now sel st reason f d = (d', r)"
    and "slot \<in> set SLOTS" "is_terminal st" "\<And>j. j_id (f j) = j_id j"
  shows "safe d d'"
proof -
  let ?rows = "filter sel (live d)"
  let ?d1 = "if \<exists>r\<in>set ?rows. j_status r = Queued then dj_remove no_holder (map j_id ?rows) d else d"
  let ?d2 = "?d1\<lparr>live := update_where sel f (live ?d1)\<rparr>"
  have s: "safe d ?d2" by (rule safe_trans [OF _ in_place_safe]) (use assms(4) in auto)
  show ?thesis
  proof (cases "is_retry_pending reason")
    case True
    then show ?thesis using assms(1) s by (simp add: dj_update_to_terminal_def Let_def)
  next
    case False
    show ?thesis
    proof (cases "dj_move_current now (map (\<lambda>r. (j_id r, j_created_at r, st)) ?rows) ?d2")
      case (Inl e)
      then show ?thesis using assms(1) False by (simp add: dj_update_to_terminal_def Let_def)
    next
      case (Inr q)
      obtain d3 n where q: "q = (d3, n)" by (cases q)
      have "safe ?d2 d3" using dj_move_current_safe Inr q assms(3) by fastforce
      from safe_trans [OF safe_trans [OF s this] dj_release_each_safe [OF assms(2)]]
      show ?thesis using assms(1) False Inr q by (auto simp: dj_update_to_terminal_def Let_def)
    qed
  qed
qed

lemma dj_fail_running_safe [dj_safe]:
  assumes "dj_fail_running slot now sel reason f d = (d', r)"
    and "slot \<in> set SLOTS" "\<And>j. j_id (f j) = j_id j"
  shows "safe d d'"
proof -
  let ?ids = "map j_id (filter (\<lambda>j. sel j \<and> running_clause d j) (live d))"
  let ?d1 = "d\<lparr>attempts := update_where (\<lambda>a. a_job_id a \<in> set ?ids \<and> a_finished_at a = None)
      (close_row Outcome_abandoned now) (attempts d)\<rparr>"
  have "?d1 = fst (close_open (\<lambda>a. a_job_id a \<in> set ?ids) Outcome_abandoned now d)"
    by (simp add: close_open_def Let_def)
  then have s: "safe d ?d1" using close_open_safe by metis
  let ?u = "dj_update_to_terminal slot now (\<lambda>j. j_id j \<in> set ?ids \<and> j_status j = Queued) Failed reason
      (\<lambda>j. (f j)\<lparr>j_status := Failed\<rparr>) ?d1"
  have "safe ?d1 (fst ?u)"
    by (rule dj_update_to_terminal_safe [OF prod.collapse [symmetric]]) (use assms in simp_all)
  then have u: "safe d (fst ?u)" by (rule safe_trans [OF s])
  show ?thesis
  proof (cases "?ids = [] \<or> (\<exists>e. snd ?u = Inl e)")
    case True
    then have "d' = d" using assms(1) unfolding dj_fail_running_def Let_def
      by (auto split: prod.splits if_splits)
    then show ?thesis by simp
  next
    case False
    then have "d' = fst ?u"
      using assms(1) unfolding dj_fail_running_def Let_def
      by (auto split: prod.splits sum.splits)
    then show ?thesis using u by simp
  qed
qed

lemma force_stop_safe [dj_safe]: "safe d (fst (force_stop now ob d))"
proof -
  let ?d1 = "fst (dj_mark_failed now ''Displaced by newer job with same name'' [] ''displaced'' None False ob d)"
  have "safe d ?d1" by (rule dj_mark_failed_safe [OF prod.collapse [symmetric]])
  then show ?thesis
    using safe_trans [OF _ workers_safe, of d ?d1]
    by (auto simp: force_stop_def Let_def split: option.splits)
qed

lemma dj_delete_law:
  assumes "wf_db d" "slot \<in> set SLOTS"
  shows "wf_db (dj_delete slot now j d) \<and> grows d (dj_delete slot now j d)"
proof -
  let ?d1 = "dj_remove no_holder [j_id j] d"
  let ?d2 = "?d1\<lparr>live := delete_where (\<lambda>r. j_id r = j_id j \<and> j_created_at r = j_created_at j) (live ?d1)\<rparr>"
  have s: "wf_db ?d1" "grows d ?d1"
    using dj_remove_safe [of d] assms evolves_grows by (auto simp: safe_def)
  have "wf_db ?d2"
    using s(1)
    by (auto simp: wf_db_def wf_jobs_def wf_attempts_def wf_ready_def delete_where_def
        distinct_map_filter)
  moreover have "grows ?d1 ?d2"
    by (auto simp: grows_def history_grows_def attempts_evolve_def intro: att_le_refl)
  ultimately have "wf_db ?d2" "grows d ?d2" using grows_trans [OF s(2)] by blast+
  then show ?thesis
    using dj_release_quietly_safe [OF assms(2), of ?d2 now "j_id j" "j_parent_job_id j"] grows_trans evolves_grows
    unfolding dj_delete_def Let_def safe_def by blast
qed

end
