(* ===== verification/Sq_Django_Claim.thy ===== *)
theory Sq_Django_Claim
  imports Sq_Django_Laws
begin

text \<open>
  Claiming in the Django integration: \<^verbatim>\<open>judge_claim\<close> and \<^verbatim>\<open>_claim_fenced\<close> of \<^verbatim>\<open>django_sqlery/db_compat.py\<close>, the
  claim methods of \<^verbatim>\<open>django_sqlery/backend.py\<close> and the candidate scan of \<^verbatim>\<open>core/claiming.py\<close>
  (\<^verbatim>\<open>claim_next_job_with_queue_priority\<close>). The whole scan is one transaction, \<open>dj_scan\<close>; the rechecks of
  the jobs it blocked run after its commit. The environment is the record \<^typ>\<open>claim_env\<close> of the standalone
  claims. The rows of the tag locks and of the job registry are not part of \<^typ>\<open>db\<close>.
\<close>

section \<open>Judging and taking one job\<close>

definition judge_claim :: "claim_env \<Rightarrow> job \<Rightarrow> db \<Rightarrow> claim_outcome" where
  "judge_claim env j d =
     (let base = (\<lambda>r. j_id r = j_id j \<and> j_created_at r = j_created_at j)
      in case List.find (\<lambda>r. base r \<and> \<not> (ce_pg env \<and> ce_busy env (j_id r))) (live d) of
           None \<Rightarrow> if \<exists>r\<in>set (live d). base r then Restore else Keep
         | Some row \<Rightarrow>
             (let running = is_running d (j_id j)
              in if claim_verdict (Some (j_status row)) (Some (j_version row)) (Some (j_version j)) running
                    = V_ok then Claimed
                 else if j_status row \<noteq> Queued \<or> running then Keep else Restore))"

text \<open>The unit that follows the choice of the entries: delete them, judge, open the attempt.\<close>

definition dj_take ::
  "(ready_entry \<Rightarrow> bool) \<Rightarrow> claim_env \<Rightarrow> job \<Rightarrow> timestamp \<Rightarrow> db \<Rightarrow> db \<times> (job \<times> attempt_handle) option" where
  "dj_take W env j now d =
     (let d1 = d\<lparr>ready := delete_where W (ready d)\<rparr>
      in if rowcount W (ready d) < 1 then (d, None)
         else case judge_claim env j d1 of
                Keep \<Rightarrow> (d1, None)
              | Restore \<Rightarrow> (d, None)
              | Claimed \<Rightarrow> (let (d2, h) = open_attempt env (j_id j) now d1 in (d2, Some (as_running j h, h))))"

definition claim_fenced ::
  "claim_env \<Rightarrow> job \<Rightarrow> timestamp \<Rightarrow> db \<Rightarrow> db \<times> (job \<times> attempt_handle) option" where
  "claim_fenced env j now d = dj_take (\<lambda>e. r_job_id e = j_id j) env j now d"

definition dj_atomic_claim_job ::
  "claim_env \<Rightarrow> nat option \<Rightarrow> job \<Rightarrow> timestamp \<Rightarrow> db \<Rightarrow> db \<times> (job \<times> attempt_handle) option" where
  "dj_atomic_claim_job env slot j now d =
     dj_take (\<lambda>e. (case slot of None \<Rightarrow> r_slot e \<in> set SLOTS | Some s \<Rightarrow> r_slot e = s) \<and> r_job_id e = j_id j)
       env j now d"

definition dj_claim_job_by_id ::
  "claim_env \<Rightarrow> job_id \<Rightarrow> timestamp \<Rightarrow> db \<Rightarrow> db \<times> (job \<times> attempt_handle) option" where
  "dj_claim_job_by_id env jid now d =
     (let entries = filter (\<lambda>e. r_slot e \<in> set SLOTS \<and> r_job_id e = jid) (ready d)
      in if ce_pg env \<and> filter (\<lambda>e. \<not> ce_locked env e) entries = [] \<and> entries \<noteq> [] then (d, None)
         else case List.find (\<lambda>j. waiting_clause d j \<and> j_id j = jid) (live d) of
                None \<Rightarrow> (d, None)
              | Some j \<Rightarrow>
                  (let d1 = dj_remove no_holder [jid] d
                   in if judge_claim env j d1 \<noteq> Claimed then (d, None)
                      else (let (d2, h) = open_attempt env jid now d1 in (d2, Some (as_running j h, h)))))"

section \<open>Candidates\<close>

definition queue_weight :: "(string \<times> int) list \<Rightarrow> string list \<Rightarrow> string \<Rightarrow> int" where
  "queue_weight weights queues q =
     (if q \<in> set queues then (case map_of weights q of None \<Rightarrow> 0 | Some w \<Rightarrow> w) else 0)"

definition candidate_entries ::
  "claim_env \<Rightarrow> string list \<Rightarrow> (string \<times> int) list \<Rightarrow> timestamp \<Rightarrow> nat \<Rightarrow> job_id list \<Rightarrow> db \<Rightarrow> ready_entry list" where
  "candidate_entries env queues weights now limit exclude d =
     take limit (sort_key (\<lambda>e. (- queue_weight weights queues (r_queue_name e), claim_key e))
       (filter (\<lambda>e. entry_due queues now e \<and> r_job_id e \<notin> set exclude \<and> \<not> (ce_pg env \<and> ce_locked env e))
         (ready d)))"

definition entry_stale :: "db \<Rightarrow> ready_entry \<Rightarrow> bool" where
  "entry_stale d e =
     (case job_under_entry e d of
        None \<Rightarrow> True | Some j \<Rightarrow> j_status j \<noteq> Queued \<or> is_running d (r_job_id e))"

text \<open>The jobs of the page, each with the slot of its entry; stale entries are dropped on the way.\<close>

definition dj_get_claimable_jobs ::
  "claim_env \<Rightarrow> string list \<Rightarrow> (string \<times> int) list \<Rightarrow> timestamp \<Rightarrow> nat \<Rightarrow> job_id list \<Rightarrow> db \<Rightarrow>
     db \<times> (job \<times> nat) list" where
  "dj_get_claimable_jobs env queues weights now limit exclude d =
     (let entries = candidate_entries env queues weights now limit exclude d;
          stale = map r_job_id (filter (entry_stale d) entries)
      in (if stale = [] then d else dj_remove no_holder stale d,
          List.map_filter (\<lambda>e. if entry_stale d e then None
             else map_option (\<lambda>j. (j, r_slot e)) (job_under_entry e d)) entries))"

section \<open>Limits, dependencies, expiry\<close>

definition count_running_with_tag :: "string \<Rightarrow> db \<Rightarrow> nat" where
  "count_running_with_tag tag d = rowcount (\<lambda>j. running_clause d j \<and> tag \<in> set (j_tags j)) (live d)"

definition count_started_with_tag_since :: "string \<Rightarrow> timestamp \<Rightarrow> db \<Rightarrow> nat" where
  "count_started_with_tag_since tag threshold d =
     rowcount (\<lambda>j. j_status j \<in> {Running, Success, Failed} \<and>
                   (case j_started_at j of None \<Rightarrow> False | Some t \<Rightarrow> t \<ge> threshold) \<and>
                   tag \<in> set (j_tags j)) (job_all d)"

definition check_tag_concurrency_limits :: "(string \<Rightarrow> int option) \<Rightarrow> job \<Rightarrow> db \<Rightarrow> bool" where
  "check_tag_concurrency_limits limits j d \<longleftrightarrow>
     (\<forall>tag\<in>set (j_tags j). case limits tag of
        None \<Rightarrow> True | Some limit \<Rightarrow> int (count_running_with_tag tag d) < limit)"

fun rate_limits_ok ::
  "(string \<Rightarrow> string option) \<Rightarrow> timestamp \<Rightarrow> db \<Rightarrow> string list \<Rightarrow> bool result" where
  "rate_limits_ok rate now d [] = Inr True"
| "rate_limits_ok rate now d (tag # tags) =
     (case rate tag of
        None \<Rightarrow> rate_limits_ok rate now d tags
      | Some r \<Rightarrow>
          if r = [] then rate_limits_ok rate now d tags
          else case parse_rate_limit r of
                 Inl e \<Rightarrow> if e = ValueError then rate_limits_ok rate now d tags else Inl e
               | Inr (count, window) \<Rightarrow>
                   if now - window < datetime_min then Inl OverflowError
                   else if count_started_with_tag_since tag (now - window) d \<ge> count then Inr False
                   else rate_limits_ok rate now d tags)"

definition check_tag_rate_limits ::
  "(string \<Rightarrow> string option) \<Rightarrow> timestamp \<Rightarrow> job \<Rightarrow> db \<Rightarrow> bool result" where
  "check_tag_rate_limits rate now j d = rate_limits_ok rate now d (j_tags j)"

datatype dependency_state = State_met | State_pending | State_failed | State_skip

definition is_lost_race :: "py_error \<Rightarrow> bool" where
  "is_lost_race e \<longleftrightarrow> e = ConcurrentModificationError \<or> e = JobFencingError"

definition judge_dependency_state :: "timestamp \<Rightarrow> job \<Rightarrow> db \<Rightarrow> (db \<times> dependency_state) result" where
  "judge_dependency_state now j d =
     (if j_dependencies j = [] then Inr (d, State_met)
      else case check_dependencies_met j d of
             (all_met, failed) \<Rightarrow>
               if failed \<noteq> [] then
                 (case dj_mark_failed now (''Dependencies failed: '' @ show_int_list failed) []
                         ''dependency_failed'' None True (loaded j) d of
                    (d', Inr _) \<Rightarrow> Inr (d', State_failed)
                  | (d', Inl e) \<Rightarrow> if is_lost_race e then Inr (d', State_skip) else Inl e)
               else if \<not> all_met then Inr (d, State_pending)
               else Inr (d, State_met))"

definition dj_get_expired_ttl_jobs :: "timestamp \<Rightarrow> db \<Rightarrow> job list" where
  "dj_get_expired_ttl_jobs now d =
     sort_key meta_order (filter (\<lambda>j. waiting_clause d j \<and>
       (case j_ttl j of None \<Rightarrow> False | Some ttl \<Rightarrow> j_created_at j + seconds ttl < now)) (live d))"

definition dj_expire_queued_job ::
  "timestamp \<Rightarrow> job \<Rightarrow> string \<Rightarrow> string \<Rightarrow> db \<Rightarrow> (db \<times> bool) result" where
  "dj_expire_queued_job now j error reason d =
     (case dj_mark_failed now error [] reason None True (loaded j) d of
        (d', Inr _) \<Rightarrow> Inr (d', True)
      | (d', Inl e) \<Rightarrow> if e = ConcurrentModificationError then Inr (d', False) else Inl e)"

fun expire_each :: "timestamp \<Rightarrow> job list \<Rightarrow> nat \<Rightarrow> db \<Rightarrow> (db \<times> nat) result" where
  "expire_each now [] n d = Inr (d, n)"
| "expire_each now (j # js) n d =
     (case dj_expire_queued_job now j
             (''Job expired after '' @ show_int (case j_ttl j of None \<Rightarrow> 0 | Some t \<Rightarrow> t) @ ''s in queue'')
             ''expired'' d of
        Inl e \<Rightarrow> if is_lost_race e then expire_each now js n d else Inl e
      | Inr (d', expired) \<Rightarrow> expire_each now js (if expired then n + 1 else n) d')"

definition expire_ttl_jobs :: "timestamp \<Rightarrow> db \<Rightarrow> (db \<times> nat) result" where
  "expire_ttl_jobs now d = expire_each now (dj_get_expired_ttl_jobs now d) 0 d"

section \<open>The scan\<close>

text \<open>
  \<open>wrow\<close> is the key of the worker row (None for the ephemeral claimers). What a page returns besides the
  claim is the list of jobs it blocked, whose rechecks wait for the commit.
\<close>

definition mark_busy :: "string option \<Rightarrow> timestamp \<Rightarrow> job_id \<Rightarrow> db \<Rightarrow> db result" where
  "mark_busy wrow now jid d =
     (case wrow of
        None \<Rightarrow> Inr d
      | Some w \<Rightarrow>
          if rowcount (\<lambda>x. w_id x = w) (workers d) = 0 then Inl DatabaseError
          else Inr (d\<lparr>workers := update_where (\<lambda>x. w_id x = w)
                 (\<lambda>x. x\<lparr>w_status := W_busy, w_current_job_id := Some jid, w_last_heartbeat := now\<rparr>)
                 (workers d)\<rparr>))"

type_synonym scan_result = "db \<times> (job_id \<times> timestamp) list \<times> (job \<times> attempt_handle) option"

definition tags_locked :: "claim_env \<Rightarrow> job \<Rightarrow> bool" where
  "tags_locked env j \<longleftrightarrow>
     ce_pg env \<and> (\<exists>t\<in>set (j_tags j). (ce_rate env t \<noteq> None \<or> ce_conc env t \<noteq> None) \<and> ce_tag_busy env t)"

fun claim_from_candidates ::
  "claim_env \<Rightarrow> timestamp \<Rightarrow> (job \<times> nat) list \<Rightarrow> (job_id \<times> timestamp) list \<Rightarrow> db \<Rightarrow> scan_result result" where
  "claim_from_candidates env now [] bl d = Inr (d, bl, None)"
| "claim_from_candidates env now ((j, slot) # rest) bl d =
     (if tags_locked env j then claim_from_candidates env now rest bl d
      else if \<not> check_tag_concurrency_limits (ce_conc env) j d then claim_from_candidates env now rest bl d
      else case check_tag_rate_limits (ce_rate env) now j d of
             Inl e \<Rightarrow> Inl e
           | Inr False \<Rightarrow> claim_from_candidates env now rest bl d
           | Inr True \<Rightarrow>
               (case judge_dependency_state now j d of
                  Inl e \<Rightarrow> Inl e
                | Inr (d1, State_pending) \<Rightarrow>
                    (case dj_block_in now j d1 of
                       (d2, waits) \<Rightarrow>
                         claim_from_candidates env now rest
                           (if waits then bl @ [(j_id j, j_created_at j)] else bl) d2)
                | Inr (d1, State_met) \<Rightarrow>
                    (case dj_atomic_claim_job env (Some slot) j now d1 of
                       (d2, None) \<Rightarrow> claim_from_candidates env now rest bl d2
                     | (d2, Some (j', h)) \<Rightarrow>
                         (case mark_busy (ce_worker env) now (j_id j) d2 of
                            Inl e \<Rightarrow> Inl e | Inr d3 \<Rightarrow> Inr (d3, bl, Some (j', h))))
                | Inr (d1, _) \<Rightarrow> claim_from_candidates env now rest bl d1))"

function claim_pages ::
  "claim_env \<Rightarrow> string list \<Rightarrow> (string \<times> int) list \<Rightarrow> timestamp \<Rightarrow> nat \<Rightarrow> job_id list \<Rightarrow>
     (job_id \<times> timestamp) list \<Rightarrow> db \<Rightarrow> scan_result result" where
  "claim_pages env queues weights now limit seen bl d =
     (case dj_get_claimable_jobs env queues weights now limit seen d of
        (d1, page) \<Rightarrow>
          (let cands = filter (\<lambda>(j, _). j_id j \<notin> set seen) page
           in if cands = [] then Inr (d1, bl, None)
              else case claim_from_candidates env now cands bl d1 of
                     Inl e \<Rightarrow> Inl e
                   | Inr (d2, bl', Some r) \<Rightarrow> Inr (d2, bl', Some r)
                   | Inr (d2, bl', None) \<Rightarrow>
                       claim_pages env queues weights now limit (seen @ map (j_id \<circ> fst) cands) bl' d2))"
  by pat_completeness auto

section \<open>The scan ends\<close>

text \<open>Every page shows new jobs of the live table, to which the scan adds none.\<close>

lemma same_live_simps [simp]:
  "live_ids (d\<lparr>ready := r\<rparr>) = live_ids d" "live_ids (d\<lparr>blocked := b\<rparr>) = live_ids d"
  "live_ids (d\<lparr>workers := w\<rparr>) = live_ids d" "live_ids (dj_remove h ids d) = live_ids d"
  by (simp_all add: live_ids_def dj_remove_def)

lemma judge_state_mono:
  assumes "judge_dependency_state now j d = Inr (d', st)"
  shows "live_ids d' \<subseteq> live_ids d" "safe d d'" "same_running d d'"
proof -
  note lost = dependency_failed_final
  consider "d' = d" | r where
    "dj_mark_failed now (''Dependencies failed: '' @ show_int_list (snd (check_dependencies_met j d))) []
       ''dependency_failed'' None True (loaded j) d = (d', r)"
    using assms
    by (auto simp: judge_dependency_state_def split: if_splits prod.splits sum.splits)
  note c = this
  show "live_ids d' \<subseteq> live_ids d"
    by (rule c) (auto dest: fail_live.mark_failed_idle_closed [OF _ lost])
  show "safe d d'" by (rule c) (auto dest: failing.mark_failed_idle_closed [OF _ lost])
  show "same_running d d'" by (rule c) (auto dest: fail_running.mark_failed_idle_closed [OF _ lost])
qed

lemma judge_claim_Claimed:
  assumes "judge_claim env j d = Claimed"
  shows "\<exists>row\<in>set (live d). j_id row = j_id j \<and> j_created_at row = j_created_at j \<and> j_status row = Queued \<and>
    j_version row = j_version j \<and> \<not> is_running d (j_id j)"
  using assms
  by (auto simp: judge_claim_def Let_def claim_verdict_def dest!: find_mem
      split: option.splits if_splits)

lemma dj_take_law:
  assumes "dj_take W env j now d = (d', r)"
  shows "live d' = live d \<and> safe d d' \<and>
    (case r of
       None \<Rightarrow> same_running d d'
     | Some (j', h) \<Rightarrow> h_job_id h = j_id j \<and> (\<exists>dm. safe d dm \<and> same_running d dm \<and> claims dm h d'))"
proof -
  let ?d1 = "d\<lparr>ready := delete_where W (ready d)\<rparr>"
  have s: "safe d ?d1" by (rule wf_frame) (auto simp: wf_ready_def)
  have rn: "same_running d ?d1" by (simp add: same_running_def)
  show ?thesis
  proof (cases "rowcount W (ready d) \<ge> 1 \<and> judge_claim env j ?d1 = Claimed")
    case False
    then show ?thesis
      using assms s rn by (auto simp: dj_take_def Let_def split: if_splits claim_outcome.splits)
  next
    case True
    obtain row where row: "row \<in> set (live ?d1)" "j_id row = j_id j" "j_status row = Queued"
      "\<not> is_running ?d1 (j_id j)"
      using judge_claim_Claimed True by blast
    obtain h where oa: "open_attempt env (j_id j) now ?d1 = (d', h)" "r = Some (as_running j h, h)"
      using assms True by (auto simp: dj_take_def Let_def split: prod.splits)
    have cl: "claims ?d1 h d'" "h_job_id h = j_id j"
      using open_attempt_claims [OF row(4) oa(1) row(1-3)] by auto
    have "safe d d'" using safe_trans [OF s open_attempt_safe' [OF row(4) oa(1)]] .
    then show ?thesis using cl s rn oa(2) by (auto simp: claims_def)
  qed
qed

lemma dj_atomic_claim_job_law:
  assumes "dj_atomic_claim_job env slot j now d = (d', r)"
  shows "live d' = live d" "safe d d'" "r = None \<Longrightarrow> same_running d d'"
    "r = Some (j', h) \<Longrightarrow> h_job_id h = j_id j \<and> (\<exists>dm. safe d dm \<and> same_running d dm \<and> claims dm h d')"
  using dj_take_law [OF assms [unfolded dj_atomic_claim_job_def]] by auto

lemma dj_block_in_frame:
  assumes "dj_block_in now j d = (d', b)"
  shows "live_ids d' = live_ids d" "safe d d'" "same_running d d'"
proof -
  have "live d' = live d \<and> history d' = history d \<and> attempts d' = attempts d \<and>
      next_attempt d' = next_attempt d \<and> staged d' = staged d \<and> (\<exists>P. ready d' = delete_where P (ready d))"
  proof -
    have "delete_where (\<lambda>_. False) t = t" for t :: "ready_entry list" by (simp add: delete_where_def)
    then show ?thesis using assms by (auto simp: dj_block_in_def Let_def split: if_splits intro: exI [of _ "\<lambda>_. False"])
  qed
  then show "live_ids d' = live_ids d" "safe d d'" "same_running d d'"
    by (auto simp: live_ids_def same_running_def is_running_def wf_ready_def intro!: wf_frame)
qed

lemma mark_busy_frame:
  assumes "mark_busy w now jid d = Inr d'"
  shows "live d' = live d" "history d' = history d" "attempts d' = attempts d" "safe d d'"
  using assms by (auto simp: mark_busy_def workers_safe split: option.splits if_splits)

lemma claims_cong:
  "claims d h d1 \<Longrightarrow> live d2 = live d1 \<Longrightarrow> history d2 = history d1 \<Longrightarrow> attempts d2 = attempts d1 \<Longrightarrow> claims d h d2"
  by (auto simp: claims_def)

definition scan_law :: "db \<Rightarrow> scan_result \<Rightarrow> bool" where
  "scan_law d res =
     (case res of (d', _, r) \<Rightarrow>
        live_ids d' \<subseteq> live_ids d \<and> safe d d' \<and>
        (case r of
           None \<Rightarrow> same_running d d'
         | Some (_, h) \<Rightarrow> \<exists>dm. safe d dm \<and> same_running d dm \<and> claims dm h d'))"

lemma scan_law_trans:
  assumes "live_ids e \<subseteq> live_ids d" "safe d e" "same_running d e" "scan_law e res"
  shows "scan_law d res"
  using assms safe_trans [OF assms(2)] same_running_trans [OF assms(3)]
  by (auto simp: scan_law_def split: option.splits) blast+

lemma claim_from_candidates_law:
  "claim_from_candidates env now cands bl d = Inr res \<Longrightarrow> scan_law d res"
proof (induction env now cands bl d rule: claim_from_candidates.induct)
  case (1 env now bl d)
  then show ?case by (auto simp: scan_law_def)
next
  case (2 env now j slot rest bl d)
  show ?case
  proof (cases "tags_locked env j \<or> \<not> check_tag_concurrency_limits (ce_conc env) j d \<or>
      check_tag_rate_limits (ce_rate env) now j d = Inr False")
    case True
    then show ?thesis using 2 by (auto split: if_splits)
  next
    case False
    then have rate: "check_tag_rate_limits (ce_rate env) now j d = Inr True"
      using "2.prems" by (auto split: sum.splits bool.splits)
    obtain d1 st where js: "judge_dependency_state now j d = Inr (d1, st)"
      using "2.prems" False rate by (auto split: sum.splits)
    note mono = judge_state_mono [OF js]
    note guards = False rate js
    show ?thesis
    proof (cases st)
      case State_pending
      obtain d2 b where blk: "dj_block_in now j d1 = (d2, b)" by fastforce
      note fr = dj_block_in_frame [OF blk]
      have "scan_law d2 res"
        using "2.IH"(4) [OF _ _ rate _ js _ State_pending blk [symmetric]] "2.prems" guards State_pending blk by auto
      then show ?thesis
        using mono fr safe_trans [OF mono(2) fr(2)] same_running_trans [OF mono(3) fr(3)]
        by (intro scan_law_trans [of d2 d]) auto
    next
      case State_met
      obtain d2 r where cl: "dj_atomic_claim_job env (Some slot) j now d1 = (d2, r)" by fastforce
      note law = dj_atomic_claim_job_law [OF cl]
      show ?thesis
      proof (cases r)
        case None
        have "scan_law d2 res"
          using "2.IH"(3) [OF _ _ rate _ js _ State_met cl [symmetric] None] "2.prems" guards State_met cl None by auto
        then show ?thesis
          using mono law safe_trans [OF mono(2) law(2)] same_running_trans [OF mono(3) law(3)] None
          by (intro scan_law_trans [of d2 d]) (auto simp: live_ids_def)
      next
        case (Some jh)
        obtain j' h where jh: "jh = (j', h)" by (cases jh)
        obtain d3 where mb: "mark_busy (ce_worker env) now (j_id j) d2 = Inr d3" "res = (d3, bl, Some (j', h))"
          using "2.prems" guards State_met cl Some jh by (auto split: sum.splits)
        note fr = mark_busy_frame [OF mb(1)]
        obtain dm where dm: "safe d1 dm" "same_running d1 dm" "claims dm h d2"
          using law(4) Some jh by blast
        have "scan_law d1 res"
          using mb(2) fr law(1) safe_trans [OF law(2) fr(4)] dm claims_cong [OF dm(3) fr(1-3)]
          by (auto simp: scan_law_def live_ids_def)
        then show ?thesis using scan_law_trans mono by blast
      qed
    next
      case State_failed
      then have "scan_law d1 res"
        using "2.IH"(5) [OF _ _ rate _ js _ State_failed] "2.prems" guards by auto
      then show ?thesis using scan_law_trans mono by blast
    next
      case State_skip
      then have "scan_law d1 res"
        using "2.IH"(6) [OF _ _ rate _ js _ State_skip] "2.prems" guards by auto
      then show ?thesis using scan_law_trans mono by blast
    qed
  qed
qed

lemma dj_get_claimable_law:
  assumes "dj_get_claimable_jobs env queues weights now limit exclude d = (d1, page)"
  shows "live d1 = live d" "safe d d1" "same_running d d1"
    "(j, slot) \<in> set page \<Longrightarrow> j \<in> set (live d) \<and> j_status j = Queued \<and> \<not> is_running d (j_id j)"
proof -
  have d1: "d1 = d \<or> (\<exists>ids. d1 = dj_remove no_holder ids d)"
    using assms by (auto simp: dj_get_claimable_jobs_def Let_def split: if_splits)
  then show "live d1 = live d" "same_running d d1"
    by (auto simp: same_running_def dj_remove_def)
  show "safe d d1" using d1 by auto
  show "j \<in> set (live d) \<and> j_status j = Queued \<and> \<not> is_running d (j_id j)" if "(j, slot) \<in> set page"
    using assms that job_under_entry_id
    by (fastforce simp: dj_get_claimable_jobs_def entry_stale_def List.map_filter_def Let_def
        split: if_splits option.splits)
qed

termination claim_pages
proof (relation "measure (\<lambda>(env, queues, weights, now, limit, seen, bl, d). card (live_ids d - set seen))",
    goal_cases)
  case 1
  show ?case by (rule wf_measure)
next
  case (2 env queues weights now limit seen bl d d1 page cands res d2 q bl' r)
  note law = dj_get_claimable_law [OF 2(1) [symmetric]]
  have "claim_from_candidates env now cands bl d1 = Inr (d2, bl', None)" using 2 by simp
  from claim_from_candidates_law [OF this] have sub: "live_ids d2 \<subseteq> live_ids d"
    using law(1) by (simp add: scan_law_def live_ids_def)
  obtain j s where "(j, s) \<in> set cands" using 2(3) by (cases cands) auto
  then have j: "j_id j \<in> live_ids d" "j_id j \<notin> set seen" "j_id j \<in> set (seen @ map (j_id \<circ> fst) cands)"
    using law(4) 2(2) by (force simp: live_ids_def)+
  have "card (live_ids d2 - set (seen @ map (j_id \<circ> fst) cands)) < card (live_ids d - set seen)"
    by (rule psubset_card_mono) (use sub j in auto)
  then show ?case by (simp add: in_measure)
qed

declare claim_pages.simps [simp del]

lemma claim_pages_law:
  "claim_pages env queues weights now limit seen bl d = Inr res \<Longrightarrow> scan_law d res"
proof (induction env queues weights now limit seen bl d rule: claim_pages.induct)
  case (1 env queues weights now limit seen bl d)
  obtain d1 page where g: "dj_get_claimable_jobs env queues weights now limit seen d = (d1, page)" by fastforce
  note law = dj_get_claimable_law [OF g]
  let ?c = "filter (\<lambda>(j, _). j_id j \<notin> set seen) page"
  note unf = claim_pages.simps [of env queues weights now limit seen bl d] g
  have from1: "scan_law d res" if "scan_law d1 res"
    by (rule scan_law_trans [OF _ law(2,3) that]) (simp add: live_ids_def law(1))
  show ?case
  proof (cases "?c = []")
    case True
    then show ?thesis using "1.prems" by (intro from1) (auto simp: unf Let_def scan_law_def)
  next
    case False
    obtain d2 bl' r where c: "claim_from_candidates env now ?c bl d1 = Inr (d2, bl', r)"
      using "1.prems" False by (auto simp: unf Let_def split: sum.splits)
    note cl = claim_from_candidates_law [OF c]
    show ?thesis
    proof (cases r)
      case None
      have "scan_law d2 res"
        using "1.IH" [OF g [symmetric] refl False c refl refl None] "1.prems" False c None
        by (simp add: unf Let_def)
      then show ?thesis
        using cl None by (intro from1 scan_law_trans [of d2 d1]) (auto simp: scan_law_def)
    next
      case (Some jh)
      then have "res = (d2, bl', r)" using "1.prems" False c by (simp add: unf Let_def split: prod.splits)
      then show ?thesis using cl from1 by simp
    qed
  qed
qed

section \<open>The claim of a worker\<close>

text \<open>
  \<^verbatim>\<open>claim_next_job_with_queue_priority\<close>: one transaction with the expiry of waiting jobs in front. The whole
  \<^verbatim>\<open>claim_job\<close> also rechecks, after the commit, what the scan blocked.
\<close>

definition dj_scan ::
  "claim_env \<Rightarrow> string list \<Rightarrow> (string \<times> int) list \<Rightarrow> timestamp \<Rightarrow> nat \<Rightarrow> db \<Rightarrow> scan_result result" where
  "dj_scan env queues weights now max_attempts d =
     (case expire_ttl_jobs now d of
        Inl e \<Rightarrow> Inl e
      | Inr (d1, _) \<Rightarrow> claim_pages env queues weights now max_attempts [] [] d1)"

definition dj_claim ::
  "claim_env \<Rightarrow> string list \<Rightarrow> (string \<times> int) list \<Rightarrow> nat \<Rightarrow> timestamp \<Rightarrow> nat \<Rightarrow> db \<Rightarrow>
     db \<times> (job \<times> attempt_handle) option result" where
  "dj_claim env queues weights slot now max_attempts d =
     (case dj_scan env queues weights now max_attempts d of
        Inl e \<Rightarrow> (d, Inl e)
      | Inr (d1, bl, r) \<Rightarrow> (dj_recheck_each slot now bl d1, Inr r))"

lemma expire_final: "\<not> is_retry_pending (Some ''expired'')"
  by (simp add: is_retry_pending_def RETRY_PENDING_def startswith_def)

lemma expire_each_law:
  "expire_each now js n d = Inr (d', m) \<Longrightarrow> live_ids d' \<subseteq> live_ids d \<and> safe d d' \<and> same_running d d'"
proof (induction now js n d arbitrary: m rule: expire_each.induct)
  case (2 now j js n d)
  let ?e = "dj_expire_queued_job now j
      (''Job expired after '' @ show_int (case j_ttl j of None \<Rightarrow> 0 | Some t \<Rightarrow> t) @ ''s in queue'') ''expired'' d"
  show ?case
  proof (cases ?e)
    case (Inl e)
    then show ?thesis using "2.IH"(1) [OF Inl] "2.prems" by (auto split: if_splits)
  next
    case (Inr q)
    obtain d1 b where q: "q = (d1, b)" by (cases q)
    obtain err r where mf: "dj_mark_failed now err [] ''expired'' None True (loaded j) d = (d1, r)"
      using Inr q by (auto simp: dj_expire_queued_job_def split: prod.splits sum.splits if_splits)
    note one = fail_live.mark_failed_idle_closed [OF mf expire_final]
      failing.mark_failed_idle_closed [OF mf expire_final]
      fail_running.mark_failed_idle_closed [OF mf expire_final]
    have "live_ids d' \<subseteq> live_ids d1 \<and> safe d1 d' \<and> same_running d1 d'"
      using "2.IH"(2) [OF Inr q [symmetric]] "2.prems" Inr q by auto
    then show ?thesis
      using one safe_trans [OF one(2)] same_running_trans [OF one(3)] by blast
  qed
qed simp

lemma dj_scan_law:
  assumes "dj_scan env queues weights now n d = Inr res"
  shows "scan_law d res"
proof -
  obtain d1 m where e: "expire_ttl_jobs now d = Inr (d1, m)"
    and c: "claim_pages env queues weights now n [] [] d1 = Inr res"
    using assms by (auto simp: dj_scan_def split: sum.splits prod.splits)
  show ?thesis
    using scan_law_trans claim_pages_law [OF c] expire_each_law [OF e [unfolded expire_ttl_jobs_def]] by blast
qed

section \<open>The contract of the claim paths\<close>

definition dj_scan_claim ::
  "claim_env \<times> string list \<times> (string \<times> int) list \<times> timestamp \<times> nat \<Rightarrow> db \<Rightarrow>
     (db \<times> attempt_handle option) result" where
  "dj_scan_claim x d =
     (case x of (env, queues, weights, now, n) \<Rightarrow>
        (case dj_scan env queues weights now n d of
           Inl e \<Rightarrow> Inl e | Inr (d', _, r) \<Rightarrow> Inr (d', map_option snd r)))"

definition dj_id_claim ::
  "claim_env \<times> job_id \<times> timestamp \<Rightarrow> db \<Rightarrow> (db \<times> attempt_handle option) result" where
  "dj_id_claim x d = (case x of (env, jid, now) \<Rightarrow>
     Inr (apsnd (map_option snd) (dj_claim_job_by_id env jid now d)))"

definition dj_candidate_claim ::
  "claim_env \<times> job \<times> timestamp \<Rightarrow> db \<Rightarrow> (db \<times> attempt_handle option) result" where
  "dj_candidate_claim x d = (case x of (env, j, now) \<Rightarrow>
     Inr (apsnd (map_option snd) (claim_fenced env j now d)))"

lemma dj_claim_job_by_id_law:
  assumes "dj_claim_job_by_id env jid now d = (d', r)"
  shows "safe d d' \<and>
    (case r of
       None \<Rightarrow> d' = d
     | Some (j, h) \<Rightarrow> h_job_id h = jid \<and> (\<exists>dm. safe d dm \<and> same_running d dm \<and> claims dm h d'))"
proof (cases r)
  case None
  then show ?thesis
    using assms by (auto simp: dj_claim_job_by_id_def Let_def split: if_splits option.splits prod.splits)
next
  case (Some jh)
  let ?d1 = "dj_remove no_holder [jid] d"
  obtain j h where j: "List.find (\<lambda>j. waiting_clause d j \<and> j_id j = jid) (live d) = Some j"
      "judge_claim env j ?d1 = Claimed" "open_attempt env jid now ?d1 = (d', h)" "jh = (as_running j h, h)"
    using assms Some by (auto simp: dj_claim_job_by_id_def Let_def split: if_splits option.splits prod.splits)
  have jid: "j_id j = jid" using find_mem [OF j(1)] by simp
  obtain row where row: "row \<in> set (live ?d1)" "j_id row = jid" "j_status row = Queued" "\<not> is_running ?d1 jid"
    using judge_claim_Claimed [OF j(2)] jid by auto
  have "claims ?d1 h d'" "h_job_id h = jid" using open_attempt_claims [OF row(4) j(3) row(1-3)] by auto
  moreover have "same_running d ?d1" by (simp add: same_running_def dj_remove_def)
  ultimately show ?thesis
    using Some j(4) safe_trans [OF dj_remove_safe open_attempt_safe' [OF row(4) j(3)]] by auto
qed

interpretation dj_scanning: claim_path dj_scan_claim
  by unfold_locales (auto simp: dj_scan_claim_def scan_law_def dest!: dj_scan_law
      split: sum.splits prod.splits option.splits)

lemma dj_id_claim_law:
  assumes "dj_id_claim x d = Inr (d', r)"
  shows "safe d d' \<and> claim_result d r d'"
proof -
  obtain env jid now where x: "x = (env, jid, now)" by (cases x)
  obtain r0 where c: "dj_claim_job_by_id env jid now d = (d', r0)" "r = map_option snd r0"
    using assms by (cases "dj_claim_job_by_id env jid now d") (auto simp: dj_id_claim_def x)
  show ?thesis
    using dj_claim_job_by_id_law [OF c(1)] c(2) by (cases r0) (auto simp: claim_result_def)
qed

lemma dj_candidate_claim_law:
  assumes "dj_candidate_claim x d = Inr (d', r)"
  shows "safe d d' \<and> claim_result d r d'"
proof -
  obtain env j now where x: "x = (env, j, now)" by (cases x)
  obtain r0 where c: "dj_take (\<lambda>e. r_job_id e = j_id j) env j now d = (d', r0)" "r = map_option snd r0"
    using assms by (cases "claim_fenced env j now d") (auto simp: dj_candidate_claim_def claim_fenced_def x)
  show ?thesis using dj_take_law [OF c(1)] c(2) by (cases r0) (auto simp: claim_result_def)
qed

interpretation dj_by_id: claim_path dj_id_claim
  by unfold_locales (auto dest!: dj_id_claim_law simp: claim_result_def)

interpretation dj_candidate: claim_path dj_candidate_claim
  by unfold_locales (auto dest!: dj_candidate_claim_law simp: claim_result_def)

interpretation standalone_dj: claim_paths scan_claim dj_scan_claim ..
interpretation dj_standalone: claim_paths dj_scan_claim scan_claim ..
interpretation dj_dj: claim_paths dj_scan_claim dj_scan_claim ..
interpretation dj_then_id: claim_paths dj_scan_claim dj_id_claim ..

end
