(* ===== verification/Sq_Django_Backend.thy ===== *)
theory Sq_Django_Backend
  imports Sq_Django_Claim Sq_Transactions Sq_Leases
begin

text \<open>
  The remaining operations of \<^verbatim>\<open>DjangoBackend\<close> (\<^verbatim>\<open>django_sqlery/backend.py\<close>) on jobs and leases, the legacy
  \<^verbatim>\<open>_release_job\<close> of \<^verbatim>\<open>core/claiming.py\<close>, and the laws of both: each is a sequence of safe transactions, and
  a completion that presents an attempt handle is fenced as the standalone one is, so that the two
  integrations can work on one database.
\<close>

section \<open>Creating jobs\<close>

text \<open>The new object is saved: the row is inserted and its ready entry with it.\<close>

definition dj_insert_job :: "nat \<Rightarrow> job \<Rightarrow> db \<Rightarrow> db" where
  "dj_insert_job slot j d = dj_after_save slot j True False (d\<lparr>live := live d @ [j]\<rparr>)"

fun stop_conflicts :: "timestamp \<Rightarrow> job list \<Rightarrow> db \<Rightarrow> db" where
  "stop_conflicts now [] d = d"
| "stop_conflicts now (j # js) d =
     (let ob = show_running (open_attempt_in d (j_id j)) (loaded j)
      in stop_conflicts now js
           (if j_status (jo_fields ob) = Running then fst (force_stop now ob d) else d))"

fun release_replaced :: "nat \<Rightarrow> timestamp \<Rightarrow> (job_id \<times> job_id option) list \<Rightarrow> db \<Rightarrow> db" where
  "release_replaced slot now [] d = d"
| "release_replaced slot now ((jid, parent) # rest) d =
     release_replaced slot now rest (dj_release_quietly slot now jid parent d)"

definition dj_replace_in :: "string \<Rightarrow> job_id list \<Rightarrow> db \<Rightarrow> db" where
  "dj_replace_in name replaced d =
     dj_remove no_holder replaced (d\<lparr>live := delete_where (\<lambda>j. j_job_name j = Some name) (live d)\<rparr>)"

definition dj_replace_named :: "nat \<Rightarrow> timestamp \<Rightarrow> string \<Rightarrow> db \<Rightarrow> db" where
  "dj_replace_named slot now name d =
     (let conflicting = sort_key meta_order (filter (\<lambda>j. j_job_name j = Some name) (live d));
          replaced = map (\<lambda>j. (j_id j, j_parent_job_id j)) conflicting
      in release_replaced slot now replaced
           (dj_replace_in name (map fst replaced) (stop_conflicts now conflicting d)))"

definition dj_create_job ::
  "bool \<Rightarrow> int \<Rightarrow> nat \<Rightarrow> timestamp \<Rightarrow> job_id \<Rightarrow> job_spec \<Rightarrow> db \<Rightarrow> db \<times> (staged_job + job)" where
  "dj_create_job partitioned threshold_days slot now new_id s d =
     (let d1 = (case s_job_name s of
                  Some n \<Rightarrow> if n \<noteq> [] then dj_replace_named slot now n d else d
                | None \<Rightarrow> d)
      in if far_future partitioned threshold_days now s then
           (let row = staging_row new_id now (the (s_scheduled_at s)) s
            in (d1\<lparr>staged := staged d1 @ [row]\<rparr>, Inl row))
         else (let j = queued_job new_id now s in (dj_insert_job slot j d1, Inr j)))"

text \<open>\<open>task_exists\<close>: the scheduled tasks that still exist; a retry of a job whose task is gone has none.\<close>

definition dj_retry_copy :: "(int \<Rightarrow> bool) \<Rightarrow> job_id \<Rightarrow> timestamp \<Rightarrow> job \<Rightarrow> job" where
  "dj_retry_copy task_exists new_id now old =
     (retry_copy new_id now old)
       \<lparr>j_kwargs := j_kwargs old,
        j_scheduled_task_id := (case j_scheduled_task_id old of
                                  None \<Rightarrow> None | Some t \<Rightarrow> if task_exists t then Some t else None)\<rparr>"

fun dj_insert_jobs :: "nat \<Rightarrow> job list \<Rightarrow> db \<Rightarrow> db" where
  "dj_insert_jobs slot [] d = d"
| "dj_insert_jobs slot (j # js) d = dj_insert_jobs slot js (dj_insert_job slot j d)"

definition dj_retry_failed_jobs ::
  "(int \<Rightarrow> bool) \<Rightarrow> nat \<Rightarrow> timestamp \<Rightarrow> (job_id \<Rightarrow> job_id) \<Rightarrow> string option \<Rightarrow> nat option \<Rightarrow> db \<Rightarrow> db \<times> nat" where
  "dj_retry_failed_jobs task_exists slot now new_id queue max_jobs d =
     (let failed = retryable_failures queue max_jobs d
      in (dj_insert_jobs slot (map (\<lambda>old. dj_retry_copy task_exists (new_id (j_id old)) now old) failed) d,
          length failed))"

section \<open>Completions\<close>

text \<open>What \<^verbatim>\<open>get_job_by_id\<close> finds; a staging row has nothing to complete (\<open>DF_other\<close>).\<close>

datatype dj_found = DF_live job_object | DF_history job | DF_other

definition dj_get_job_by_id :: "job_id \<Rightarrow> db \<Rightarrow> dj_found" where
  "dj_get_job_by_id jid d =
     (case live_by_id jid d of
        Some j \<Rightarrow>
          DF_live (if j_status j = Queued then show_running (open_attempt_in d jid) (loaded j) else loaded j)
      | None \<Rightarrow> (case history_by_id d jid of Some j \<Rightarrow> DF_history j | None \<Rightarrow> DF_other))"

definition as_fencing :: "py_error \<Rightarrow> py_error" where
  "as_fencing e = (if e = ConcurrentModificationError then JobFencingError else e)"

definition with_version :: "int option \<Rightarrow> job_object \<Rightarrow> job_object" where
  "with_version ver ob =
     (case ver of None \<Rightarrow> ob | Some v \<Rightarrow> ob\<lparr>jo_fields := (jo_fields ob)\<lparr>j_version := v\<rparr>\<rparr>)"

text \<open>\<open>own\<close>: the caller's own object of the job (the claimed job of a worker child), if it passes one.\<close>

definition completion_target :: "job_object option \<Rightarrow> job_id \<Rightarrow> db \<Rightarrow> dj_found" where
  "completion_target own jid d =
     (case own of
        Some ob \<Rightarrow> if j_id (jo_fields ob) = jid then DF_live ob else dj_get_job_by_id jid d
      | None \<Rightarrow> dj_get_job_by_id jid d)"

definition dj_mark_job_success ::
  "nat \<Rightarrow> timestamp \<Rightarrow> job_object option \<Rightarrow> job_id \<Rightarrow> task_output \<Rightarrow> int option \<Rightarrow> attempt_handle option \<Rightarrow>
     db \<Rightarrow> db \<times> job option result" where
  "dj_mark_job_success slot now own jid out ver att d =
     (case completion_target own jid d of
        DF_history j \<Rightarrow> (d, already_finished j ver att)
      | DF_other \<Rightarrow> (d, Inr None)
      | DF_live ob \<Rightarrow>
          (case dj_mark_success slot now out att (with_version ver ob) d of
             (d', Inl e) \<Rightarrow> (d', Inl (as_fencing e))
           | (d', Inr ob') \<Rightarrow> (d', Inr (Some (jo_fields ob')))))"

definition dj_mark_job_failed ::
  "timestamp \<Rightarrow> job_id \<Rightarrow> string \<Rightarrow> string \<Rightarrow> int option \<Rightarrow> string \<Rightarrow> attempt_handle option \<Rightarrow> db \<Rightarrow>
     db \<times> job option result" where
  "dj_mark_job_failed now jid error tb ver reason att d =
     (case dj_get_job_by_id jid d of
        DF_history j \<Rightarrow> (d, already_finished j ver att)
      | DF_other \<Rightarrow> (d, Inr None)
      | DF_live ob \<Rightarrow>
          (case dj_mark_failed now error tb reason att False (with_version ver ob) d of
             (d', Inl e) \<Rightarrow> (d', Inl (as_fencing e))
           | (d', Inr ob') \<Rightarrow> (d', Inr (Some (jo_fields ob')))))"

definition dj_settle_failed_row :: "timestamp \<Rightarrow> job_id \<Rightarrow> job_status \<Rightarrow> db \<Rightarrow> db result" where
  "dj_settle_failed_row now jid st d =
     (case List.find (\<lambda>j. j_id j = jid \<and> j_status j = Failed) (live d) of
        None \<Rightarrow> Inr d
      | Some j \<Rightarrow>
          (case dj_move now jid (j_created_at j) st
                  (no_values\<lparr>v_termination_reason :=
                     Some (settled_termination_reason (Some (j_termination_reason j)))\<rparr>)
                  None None (Some [Failed]) False True d of
             Inl e \<Rightarrow> Inl e | Inr (d', _) \<Rightarrow> Inr d'))"

definition dj_mark_job_archived :: "timestamp \<Rightarrow> job_id \<Rightarrow> db \<Rightarrow> db result" where
  "dj_mark_job_archived now jid d = dj_settle_failed_row now jid Archived d"

definition dj_settle_retry_pending :: "timestamp \<Rightarrow> job_id \<Rightarrow> db \<Rightarrow> db result" where
  "dj_settle_retry_pending now jid d = dj_settle_failed_row now jid Failed d"

definition dj_get_jobs_pending_retry :: "timestamp \<Rightarrow> nat \<Rightarrow> db \<Rightarrow> job list" where
  "dj_get_jobs_pending_retry cutoff limit d =
     take limit (sort_key (\<lambda>j. case j_finished_at j of Some t \<Rightarrow> t | None \<Rightarrow> cutoff)
       (filter (\<lambda>j. j_status j = Failed \<and> startswith (j_termination_reason j) RETRY_PENDING \<and>
                    (case j_finished_at j of Some t \<Rightarrow> t \<le> cutoff | None \<Rightarrow> False)) (live d)))"

function dj_cascade_loop ::
  "nat \<Rightarrow> timestamp \<Rightarrow> job_status \<Rightarrow> job_id option \<Rightarrow> job_id list \<Rightarrow> db \<Rightarrow> db \<times> unit result" where
  "dj_cascade_loop slot now st cur seen d =
     (case cur of
        None \<Rightarrow> (d, Inr ())
      | Some k \<Rightarrow>
          if k = 0 \<or> k \<in> set seen then (d, Inr ())
          else
            (case first_all k d of
               None \<Rightarrow> (d, Inr ())
             | Some row \<Rightarrow>
                 if is_terminal st then
                   (case dj_move now k (j_created_at row) st no_values None None
                           (Some [Queued, Running, Failed, Shutting_down]) False True d of
                      Inl e \<Rightarrow> (d, Inl e)
                    | Inr (d', _) \<Rightarrow> dj_cascade_loop slot now st (j_parent_job_id row) (k # seen) d')
                 else
                   dj_cascade_loop slot now st (j_parent_job_id row) (k # seen)
                     (fst (dj_update slot now
                        (\<lambda>j. j_id j = k \<and> j_created_at j = j_created_at row \<and>
                             j_status j \<noteq> Success \<and> j_status j \<noteq> Archived)
                        (Some st) None \<lparr>ed_queue_name = None, ed_priority = None, ed_scheduled_at = None\<rparr>
                        (\<lambda>j. j\<lparr>j_status := st\<rparr>) d))))"
  by pat_completeness auto

lemma dj_move_job_ids:
  assumes "dj_move now k c st v cols ver sts idle close d = Inr (d', ok)"
  shows "job_ids d' \<subseteq> job_ids d"
  using assms
  by (auto simp: dj_move_def job_ids_def dj_close_open_def Let_def delete_where_def split: if_splits)

lemma dj_update_job_ids:
  assumes "\<not> is_terminal s" "\<And>j. j_id (f j) = j_id j"
  shows "job_ids (fst (dj_update slot now sel (Some s) reason ed f d)) \<subseteq> job_ids d"
  using assms
  by (auto simp: dj_update_def dj_before_update_def dj_after_update_def job_ids_def update_where_mem Let_def)

termination dj_cascade_loop
proof (relation "measure (\<lambda>(slot, now, st, cur, seen, d). card (job_ids d - set seen))", goal_cases)
  case 1
  show ?case by (rule wf_measure)
next
  case (2 slot now st cur seen d k row p d' ok)
  then have "job_ids d' \<subseteq> job_ids d" using dj_move_job_ids by metis
  with 2 show ?case
    using seen_decreases [OF first_all_job_ids [OF 2(3)]] by (simp add: in_measure)
next
  case (3 slot now st cur seen d k row)
  then show ?case
    using seen_decreases [OF first_all_job_ids [OF 3(3)]] dj_update_job_ids by (simp add: in_measure)
qed

declare dj_cascade_loop.simps [simp del]

definition dj_cascade_ancestor_status ::
  "nat \<Rightarrow> timestamp \<Rightarrow> job_id \<Rightarrow> job_status \<Rightarrow> db \<Rightarrow> db \<times> unit result" where
  "dj_cascade_ancestor_status slot now jid st d =
     dj_cascade_loop slot now st (case first_all jid d of None \<Rightarrow> None | Some j \<Rightarrow> j_parent_job_id j) [] d"

section \<open>Recovery and control\<close>

definition dj_fail_zombie_job :: "timestamp \<Rightarrow> job_id \<Rightarrow> string \<Rightarrow> db \<Rightarrow> db \<times> bool result" where
  "dj_fail_zombie_job now jid reason d =
     (case live_by_id jid d of
        None \<Rightarrow> (d, Inr False)
      | Some j \<Rightarrow>
          if j_status j \<noteq> Queued then (d, Inr False)
          else case open_attempt_in d jid of
                 None \<Rightarrow> (d, Inr False)
               | Some a \<Rightarrow>
                   (case dj_close_open now jid Outcome_abandoned d of
                      (d1, n) \<Rightarrow>
                        if n < 1 then (d, Inr False)
                        else case dj_mark_failed now reason [] ''zombie_job'' None False
                                    (show_running (Some a) (loaded j)) d1 of
                               (_, Inl e) \<Rightarrow> (d, Inl e)
                             | (d2, Inr _) \<Rightarrow> (d2, Inr True)))"

definition dj_release_job :: "nat \<Rightarrow> timestamp \<Rightarrow> job_id \<Rightarrow> db \<Rightarrow> db" where
  "dj_release_job slot now jid d =
     (case List.find (\<lambda>j. j_id j = jid \<and> j_status j = Queued) (live d) of
        None \<Rightarrow> d
      | Some j \<Rightarrow>
          (case dj_close_open now jid Outcome_abandoned d of
             (d1, n) \<Rightarrow> if n < 1 then d else dj_add slot False [j] d1))"

definition no_edits :: ready_edits where
  "no_edits = \<lparr>ed_queue_name = None, ed_priority = None, ed_scheduled_at = None\<rparr>"

definition dj_request_job_revoke :: "nat \<Rightarrow> timestamp \<Rightarrow> job_id \<Rightarrow> db \<Rightarrow> db \<times> bool" where
  "dj_request_job_revoke slot now jid d =
     (case dj_update slot now (\<lambda>j. running_clause d j \<and> j_id j = jid) None (Some ''revoke_requested'')
             no_edits (\<lambda>j. j\<lparr>j_termination_reason := ''revoke_requested''\<rparr>) d of
        (d', Inr n) \<Rightarrow> (d', n > 0) | (d', Inl _) \<Rightarrow> (d', False))"

definition dj_cancel_job :: "nat \<Rightarrow> timestamp \<Rightarrow> job_id \<Rightarrow> db \<Rightarrow> db \<times> bool result" where
  "dj_cancel_job slot now jid d =
     (let cancel_staged =
            (\<lambda>d. (d\<lparr>staged := delete_where (\<lambda>s. sj_id s = jid) (staged d)\<rparr>,
                  Inr (rowcount (\<lambda>s. sj_id s = jid) (staged d) > 0)))
      in case List.find (\<lambda>j. waiting_clause d j \<and> j_id j = jid) (live d) of
           None \<Rightarrow> cancel_staged d
         | Some j \<Rightarrow>
             (case dj_move now jid (j_created_at j) Failed (no_values\<lparr>v_error := Some ''Cancelled by user''\<rparr>)
                     None None (Some [Queued]) True True (dj_remove no_holder [jid] d) of
                Inl e \<Rightarrow> (d, Inl e)
              | Inr (_, False) \<Rightarrow> cancel_staged d
              | Inr (d', True) \<Rightarrow> (dj_release_quietly slot now jid None d', Inr True)))"

section \<open>Releasing a processed job\<close>

text \<open>
  \<^verbatim>\<open>release_claimed_job\<close> with the object the worker holds; \<open>kw\<close> are the extra columns, \<open>wrow\<close> the worker row
  that \<open>worker_id\<close> resolves to.
\<close>

definition release_columns :: "finish_values \<Rightarrow> job \<Rightarrow> job \<Rightarrow> job" where
  "release_columns kw j r =
     (set_values kw r)\<lparr>j_status := j_status j, j_finished_at := j_finished_at j,
                       j_duration_seconds := j_duration_seconds j\<rparr>"

definition dj_release_claimed_in ::
  "nat \<Rightarrow> timestamp \<Rightarrow> job_object \<Rightarrow> job_status \<Rightarrow> finish_values \<Rightarrow> db \<Rightarrow> (db \<times> job_object) result" where
  "dj_release_claimed_in slot now ob st kw d =
     (let j = jo_fields ob;
          started = (case open_attempt_in d (j_id j) of Some a \<Rightarrow> Some (a_claimed_at a) | None \<Rightarrow> j_started_at j);
          d1 = fst (dj_close_open now (j_id j) (if st = Success then Outcome_success else Outcome_abandoned) d)
      in if st = Queued then Inr (dj_add slot False [jo_fields (hide_running ob)] d1, hide_running ob)
         else
           (let j1 = (set_values kw j)
                       \<lparr>j_status := st, j_finished_at := Some now,
                        j_duration_seconds := (case started of None \<Rightarrow> j_duration_seconds j
                                               | Some t \<Rightarrow> Some (total_seconds (now - t)))\<rparr>
            in dj_save slot now (Some (release_columns kw)) True True False (ob\<lparr>jo_fields := j1\<rparr>) d1))"

definition dj_release_claimed_job ::
  "nat \<Rightarrow> timestamp \<Rightarrow> job_object \<Rightarrow> string option \<Rightarrow> job_status \<Rightarrow> int \<Rightarrow> finish_values \<Rightarrow> db \<Rightarrow>
     db \<times> job_object result" where
  "dj_release_claimed_job slot now ob wrow st processed kw d =
     (case dj_release_claimed_in slot now ob st kw d of
        Inl e \<Rightarrow> (d, Inl e)
      | Inr (d1, ob') \<Rightarrow>
          (let d2 = (case wrow of
                       None \<Rightarrow> d1
                     | Some w \<Rightarrow> d1\<lparr>workers := update_where (\<lambda>x. w_id x = w) (idle_worker now processed)
                                     (workers d1)\<rparr>);
               j = jo_fields ob'
           in (if st = Success \<or> st = Failed
               then dj_release_quietly slot now (j_id j) (j_parent_job_id j) d2 else d2, Inr ob')))"

text \<open>The legacy release of \<^verbatim>\<open>core/claiming.py\<close>; a version conflict only leaves the row as it is.\<close>

definition dj_legacy_columns :: "timestamp \<Rightarrow> job_status \<Rightarrow> rat option \<Rightarrow> finish_values \<Rightarrow> job \<Rightarrow> job" where
  "dj_legacy_columns now st duration kw r =
     (set_values kw r)\<lparr>j_status := st, j_worker_id := None, j_finished_at := Some now,
                       j_duration_seconds := duration, j_version := j_version r + 1\<rparr>"

definition dj_legacy_release ::
  "nat \<Rightarrow> timestamp \<Rightarrow> job_object \<Rightarrow> string \<Rightarrow> job_status \<Rightarrow> finish_values \<Rightarrow> db \<Rightarrow> db \<times> unit result" where
  "dj_legacy_release slot now ob wrow st kw d =
     (let j = jo_fields ob;
          started = (case open_attempt_in d (j_id j) of Some a \<Rightarrow> Some (a_claimed_at a) | None \<Rightarrow> j_started_at j);
          d1 = fst (dj_close_open now (j_id j) (if st = Success then Outcome_success else Outcome_abandoned) d)
      in case dj_update slot now (\<lambda>r. j_id r = j_id j \<and> j_version r = j_version j) (Some st)
                (v_termination_reason kw) no_edits
                (dj_legacy_columns now st (map_option (\<lambda>t. total_seconds (now - t)) started) kw) d1 of
           (_, Inl e) \<Rightarrow> (d, Inl e)
         | (d2, Inr _) \<Rightarrow>
             (let d3 = d2\<lparr>workers := update_where (\<lambda>x. w_id x = wrow)
                    (\<lambda>x. x\<lparr>w_status := W_idle, w_current_job_id := None,
                          w_jobs_processed := w_jobs_processed x + 1\<rparr>) (workers d2)\<rparr>
              in (if st = Success \<or> st = Failed
                  then dj_release_quietly slot now (j_id j) (j_parent_job_id j) d3 else d3, Inr ())))"

section \<open>Leases\<close>

definition dj_claim_one_lease ::
  "string \<Rightarrow> claimant \<Rightarrow> timestamp \<Rightarrow> int \<Rightarrow> leases \<Rightarrow> leases \<times> bool" where
  "dj_claim_one_lease q c now secs ls =
     (let W = (\<lambda>l. l_queue_name l = q \<and> l_expires_at l < now)
      in if rowcount W ls > 0
         then (update_where W (\<lambda>l. l\<lparr>l_daemon_id := cl_daemon c, l_node_id := cl_node c, l_pid := cl_pid c,
                 l_acquired_at := now, l_expires_at := now + seconds secs\<rparr>) ls, True)
         else case insert_lease (new_lease q c now secs) ls of
                Inl _ \<Rightarrow> (ls, False) | Inr ls' \<Rightarrow> (ls', True))"

section \<open>Laws\<close>

lemma live_append_safe: "fresh_id (j_id j) d \<Longrightarrow> safe d (d\<lparr>live := live d @ [j]\<rparr>)"
  by (auto simp: safe_def wf_db_def wf_jobs_def wf_attempts_def wf_ready_def evolves_def
      history_grows_def attempts_evolve_def job_ids_def fresh_id_def intro: att_le_refl)

lemma dj_insert_job_safe:
  assumes "slot \<in> set SLOTS" "fresh_id (j_id j) d"
  shows "safe d (dj_insert_job slot j d)"
  unfolding dj_insert_job_def by (rule safe_trans [OF live_append_safe dj_after_save_safe]) (use assms in auto)

lemma stop_conflicts_safe: "safe d (stop_conflicts now js d)"
  by (induction now js d rule: stop_conflicts.induct)
    (auto simp: Let_def intro: safe_trans force_stop_safe)

lemma release_replaced_safe: "slot \<in> set SLOTS \<Longrightarrow> safe d (release_replaced slot now rs d)"
  by (induction slot now rs d rule: release_replaced.induct)
    (auto intro: safe_trans [OF dj_release_quietly_safe])

lemma live_delete_law:
  assumes "wf_db d"
  shows "wf_db (d\<lparr>live := delete_where P (live d)\<rparr>) \<and> grows d (d\<lparr>live := delete_where P (live d)\<rparr>)"
  using assms
  by (auto simp: wf_db_def wf_jobs_def wf_attempts_def wf_ready_def delete_where_def distinct_map_filter
      grows_def history_grows_def attempts_evolve_def intro: att_le_refl)

lemma dj_replace_in_law:
  assumes "wf_db d"
  shows "wf_db (dj_replace_in name ids d) \<and> grows d (dj_replace_in name ids d)"
  using live_delete_law [OF assms] dj_remove_safe evolves_grows grows_trans
  unfolding dj_replace_in_def safe_def by blast

lemma as_fencing_simps [simp]: "as_fencing JobFencingError = JobFencingError"
  by (simp add: as_fencing_def)

lemma with_version_id [simp]: "j_id (jo_fields (with_version ver ob)) = j_id (jo_fields ob)"
  by (simp add: with_version_def split: option.splits)

lemma dj_mark_job_success_safe:
  assumes "dj_mark_job_success slot now own jid out ver att d = (d', r)" "slot \<in> set SLOTS"
  shows "safe d d'"
  using assms dj_mark_success_safe [OF _ assms(2)]
  by (fastforce simp: dj_mark_job_success_def split: dj_found.splits prod.splits sum.splits)

lemma dj_mark_job_failed_safe:
  assumes "dj_mark_job_failed now jid error tb ver reason att d = (d', r)"
  shows "safe d d'"
  using assms dj_mark_failed_safe
  by (fastforce simp: dj_mark_job_failed_def split: dj_found.splits prod.splits sum.splits)

lemma dj_settle_failed_row_safe:
  assumes "dj_settle_failed_row now jid st d = Inr d'" "is_terminal st"
  shows "safe d d'"
  using assms dj_move_safe by (fastforce simp: dj_settle_failed_row_def split: option.splits sum.splits prod.splits)

lemma dj_before_update_safe: "safe d (dj_before_update rows ed d)"
proof (rule wf_frame)
  assume "wf_ready d"
  moreover have "map ready_key (update_where P (edit_entry ed) t) = map ready_key t" for P and t :: "ready_entry list"
    by (rule map_update_where) (simp add: ready_key_def edit_entry_def)
  ultimately show "wf_ready (dj_before_update rows ed d)"
    by (auto simp: wf_ready_def dj_before_update_def update_where_mem edit_entry_def)
qed (simp_all add: dj_before_update_def)

lemma dj_after_update_safe: "slot \<in> set SLOTS \<Longrightarrow> safe d (dj_after_update slot rows requeue ed d)"
  unfolding dj_after_update_def
  by (auto simp: edit_entry_def dj_entry_for_def intro!: insert_ready_safe)

lemma dj_update_safe [dj_safe]:
  assumes "dj_update slot now sel st reason ed f d = (d', r)" "slot \<in> set SLOTS" "\<And>j. j_id (f j) = j_id j"
  shows "safe d d'"
proof -
  let ?rows = "filter sel (live d)"
  let ?d1 = "dj_before_update ?rows ed d"
  let ?d2 = "?d1\<lparr>live := update_where sel f (live ?d1)\<rparr>"
  have s: "safe d ?d2" by (rule safe_trans [OF dj_before_update_safe in_place_safe]) (rule assms(3))
  show ?thesis
  proof (cases st)
    case None
    then show ?thesis using assms(1) s by (auto simp: dj_update_def Let_def)
  next
    case (Some t)
    then show ?thesis
      using assms(1) safe_trans [OF s dj_after_update_safe [OF assms(2)]]
        dj_update_to_terminal_safe [OF _ assms(2) _ assms(3)]
      by (auto simp: dj_update_def Let_def split: if_splits)
  qed
qed

lemma dj_cascade_safe:
  "slot \<in> set SLOTS \<Longrightarrow> safe d (fst (dj_cascade_loop slot now st cur seen d))"
proof (induction slot now st cur seen d rule: dj_cascade_loop.induct)
  case (1 slot now st cur seen d)
  note unf = dj_cascade_loop.simps [of slot now st cur seen d]
  show ?case
  proof (cases "\<exists>k row. cur = Some k \<and> k \<noteq> 0 \<and> k \<notin> set seen \<and> first_all k d = Some row")
    case False
    then show ?thesis by (auto simp: unf split: option.splits)
  next
    case True
    then obtain k row where k: "cur = Some k" "\<not> (k = 0 \<or> k \<in> set seen)" "first_all k d = Some row" by blast
    show ?thesis
    proof (cases "is_terminal st")
      case True
      let ?m = "dj_move now k (j_created_at row) st no_values None None
          (Some [Queued, Running, Failed, Shutting_down]) False True d"
      show ?thesis
      proof (cases ?m)
        case (Inr q)
        obtain d1 ok where q: "q = (d1, ok)" by (cases q)
        have "safe d d1" using dj_move_safe Inr q True by blast
        then show ?thesis
          using safe_trans [OF _ 1(1) [OF k(1-3) True Inr q [symmetric] "1.prems"]] k True Inr q
          by (subst unf) simp
      qed (subst unf, use k True in simp)
    next
      case False
      have "safe d (fst (dj_update slot now sel s reason ed (\<lambda>j. j\<lparr>j_status := st\<rparr>) d))" for sel s reason ed
        by (rule dj_update_safe [OF prod.collapse [symmetric] "1.prems"]) simp
      then show ?thesis
        using safe_trans [OF _ 1(2) [OF k(1-3) False "1.prems"]] k False by (subst unf) simp
    qed
  qed
qed

lemma dj_fail_zombie_safe:
  assumes "dj_fail_zombie_job now jid reason d = (d', r)"
  shows "safe d d'"
proof -
  let ?d1 = "fst (dj_close_open now jid Outcome_abandoned d)"
  have s: "safe d ?d1" using close_open_safe by (simp add: dj_eq)
  have "d' = d \<or> (\<exists>ob. \<exists>x. dj_mark_failed now reason [] ''zombie_job'' None False ob ?d1 = (d', x))"
    using assms
    by (auto simp: dj_fail_zombie_job_def split: option.splits if_splits prod.splits sum.splits)
  then show ?thesis using safe_trans [OF s] dj_mark_failed_safe by auto
qed

lemma dj_release_job_safe:
  assumes "slot \<in> set SLOTS"
  shows "safe d (dj_release_job slot now jid d)"
proof -
  have "safe d (fst (dj_close_open now jid Outcome_abandoned d))" using close_open_safe by (simp add: dj_eq)
  from safe_trans [OF this dj_add_safe [OF assms]] show ?thesis
    by (auto simp: dj_release_job_def split: option.splits prod.splits)
qed

lemma dj_cancel_safe:
  assumes "dj_cancel_job slot now jid d = (d', r)" "slot \<in> set SLOTS"
  shows "safe d d'"
proof -
  let ?d1 = "dj_remove no_holder [jid] d"
  consider "d' = d" | "d' = d\<lparr>staged := delete_where (\<lambda>s. sj_id s = jid) (staged d)\<rparr>"
    | c v d2 where "dj_move now jid c Failed v None None (Some [Queued]) True True ?d1 = Inr (d2, True)"
      "d' = dj_release_quietly slot now jid None d2"
    using assms(1)
    by (auto simp: dj_cancel_job_def Let_def split: option.splits sum.splits prod.splits bool.splits)
  then show ?thesis
  proof cases
    case 3
    have "safe d d2" using safe_trans [OF dj_remove_safe dj_move_safe [OF 3(1)]] by simp
    then show ?thesis using safe_trans dj_release_quietly_safe [OF assms(2)] 3(2) by blast
  qed (auto simp: staged_delete_safe)
qed

text \<open>
  Saves: with \<^verbatim>\<open>update_fields\<close> a missing row is an error; a full save is safe as long as the row is there.
\<close>

definition keeps_row :: "(job \<Rightarrow> job \<Rightarrow> job) option \<Rightarrow> job \<Rightarrow> db \<Rightarrow> bool" where
  "keeps_row upd j d =
     (case upd of
        Some f \<Rightarrow> \<forall>x r. j_id (f x r) = j_id r
      | None \<Rightarrow> \<exists>r\<in>set (live d). j_id r = j_id j \<and> j_created_at r = j_created_at j)"

lemma orm_save_safe:
  assumes "orm_save upd False j d = Inr d'" "keeps_row upd j d"
  shows "safe d d'"
proof (rule orm_update_safe [OF assms(1)])
  let ?W = "\<lambda>r. j_id r = j_id j \<and> j_created_at r = j_created_at j"
  have pos: "0 < rowcount ?W (live d) \<longleftrightarrow> (\<exists>r\<in>set (live d). ?W r)"
    by (auto simp: rowcount_def filter_empty_conv)
  show "0 < rowcount ?W (live d)"
    using assms by (cases upd) (auto simp: keeps_row_def orm_save_def Let_def pos split: if_splits)
  show "j_id (f j r) = j_id r" if "upd = Some f" for f r using assms(2) that by (simp add: keeps_row_def)
qed

lemma dj_before_save_live [simp]: "live (fst (dj_before_save j d)) = live d"
  by (simp add: dj_before_save_def dj_remove_def Let_def)

lemma keeps_row_live: "live d' = live d \<Longrightarrow> keeps_row upd j d' = keeps_row upd j d"
  by (simp add: keeps_row_def split: option.splits)

lemma dj_save_row_safe:
  assumes "dj_save_row slot now upd relevant sw False ih j d = Inr (d', e)" "keeps_row upd j d" "slot \<in> set SLOTS"
  shows "safe d d'"
proof -
  let ?d1 = "fst (dj_before_save j d)"
  have k: "keeps_row upd j ?d1" using assms(2) keeps_row_live [OF dj_before_save_live] by blast
  consider "orm_save upd False j d = Inr d'"
    | d2 where "orm_save upd False j ?d1 = Inr d2" "\<exists>b. d' = dj_after_save slot j False b d2"
    | d2 ok where "orm_save upd False j ?d1 = Inr d2" "is_terminal (j_status j)"
      "dj_move now (j_id j) (j_created_at j) (j_status j) no_values None None None False True d2 = Inr (d', ok)"
  proof -
    let ?T = "is_terminal (j_status j) \<and> \<not> is_retry_pending (Some (j_termination_reason j)) \<and> sw"
    have "\<not> ih" using assms(1) by (auto simp: dj_save_row_def)
    then consider (final) "?T" "dj_save_terminal now upd False j d = Inr (d', e)"
      | (plain) "orm_save upd False j d = Inr d'"
      | (entry) d2 b where "orm_save upd False j ?d1 = Inr d2" "d' = dj_after_save slot j False b d2"
      using assms(1) unfolding dj_save_row_def Let_def
      by (cases "dj_before_save j d") (auto split: if_splits sum.splits)
    then show thesis
    proof cases
      case final
      then show thesis using that(3) by (auto simp: dj_save_terminal_def split: sum.splits)
    qed (use that in blast)+
  qed
  then show ?thesis
  proof cases
    case 1
    then show ?thesis using orm_save_safe assms(2) by blast
  next
    case 2
    then show ?thesis
      using safe_trans [OF dj_before_save_safe safe_trans [OF orm_save_safe [OF 2(1) k] dj_after_save_safe [OF assms(3)]]]
      by auto
  next
    case 3
    then show ?thesis
      using safe_trans [OF dj_before_save_safe safe_trans [OF orm_save_safe [OF 3(1) k] dj_move_safe [OF 3(3,2)]]] by simp
  qed
qed

lemma dj_save_safe:
  assumes "dj_save slot now upd relevant sw False ob d = Inr (d', ob')" "keeps_row upd (row_to_save ob) d"
    "slot \<in> set SLOTS"
  shows "safe d d'"
proof -
  obtain d1 e where r: "dj_save_row slot now upd relevant sw False (jo_in_history ob) (row_to_save ob) d = Inr (d1, e)"
    "d' = d1 \<or> d' = dj_release_quietly slot now (j_id (row_to_save ob)) (j_parent_job_id (row_to_save ob)) d1"
    using assms(1) by (auto simp: dj_save_def Let_def split: sum.splits prod.splits save_end.splits)
  have "safe d d1" using dj_save_row_safe [OF r(1) assms(2,3)] .
  then show ?thesis using r(2) safe_trans dj_release_quietly_safe [OF assms(3)] by blast
qed

lemma release_columns_keeps: "keeps_row (Some (release_columns kw)) j d"
  by (simp add: keeps_row_def release_columns_def set_values_def)

lemma dj_release_claimed_safe:
  assumes "dj_release_claimed_job slot now ob wrow st n kw d = (d', r)" "slot \<in> set SLOTS"
  shows "safe d d'"
proof (cases "dj_release_claimed_in slot now ob st kw d")
  case (Inl e)
  then show ?thesis using assms by (simp add: dj_release_claimed_job_def)
next
  case (Inr q)
  obtain d1 ob' where q: "q = (d1, ob')" by (cases q)
  have c: "safe d (fst (dj_close_open now (j_id (jo_fields ob)) oc d))" for oc
    using close_open_safe by (simp add: dj_eq)
  have s: "safe d d1"
    using Inr q safe_trans [OF c dj_add_safe [OF assms(2)]]
      safe_trans [OF c dj_save_safe [OF _ release_columns_keeps assms(2)]]
    by (auto simp: dj_release_claimed_in_def Let_def split: if_splits)
  let ?d2 = "case wrow of None \<Rightarrow> d1 | Some w \<Rightarrow> d1\<lparr>workers := update_where (\<lambda>x. w_id x = w) (idle_worker now n)
      (workers d1)\<rparr>"
  have "safe d ?d2" using safe_trans [OF s workers_safe] s by (auto split: option.splits)
  then show ?thesis
    using assms(1) Inr q safe_trans [OF _ dj_release_quietly_safe [OF assms(2)], of d ?d2]
    by (auto simp: dj_release_claimed_job_def Let_def split: if_splits)
qed

lemma dj_legacy_release_safe:
  assumes "dj_legacy_release slot now ob wrow st kw d = (d', r)" "slot \<in> set SLOTS"
  shows "safe d d'"
proof -
  let ?j = "jo_fields ob"
  have c: "safe d (fst (dj_close_open now (j_id ?j) oc d))" for oc
    using close_open_safe by (simp add: dj_eq)
  have u: "safe e e'" if "dj_update slot now sel s reason ed (dj_legacy_columns now st du kw) e = (e', Inr x)"
    for e e' x sel s reason ed du
    by (rule dj_update_safe [OF that assms(2)]) (simp add: dj_legacy_columns_def set_values_def)
  consider "d' = d" | d2 ws where "safe d d2" "d' = d2\<lparr>workers := ws\<rparr> \<or>
      d' = dj_release_quietly slot now (j_id ?j) (j_parent_job_id ?j) (d2\<lparr>workers := ws\<rparr>)"
  proof -
    let ?oc = "if st = Success then Outcome_success else Outcome_abandoned"
    let ?d1 = "fst (dj_close_open now (j_id ?j) ?oc d)"
    let ?started = "case open_attempt_in d (j_id ?j) of Some a \<Rightarrow> Some (a_claimed_at a) | None \<Rightarrow> j_started_at ?j"
    let ?u = "dj_update slot now (\<lambda>r. j_id r = j_id ?j \<and> j_version r = j_version ?j) (Some st)
        (v_termination_reason kw) no_edits
        (dj_legacy_columns now st (map_option (\<lambda>t. total_seconds (now - t)) ?started) kw) ?d1"
    obtain d2 x where ux: "?u = (d2, x)" by fastforce
    show thesis
    proof (cases x)
      case (Inl e)
      then show thesis using that(1) assms(1) ux unfolding dj_legacy_release_def Let_def by simp
    next
      case (Inr m)
      have "safe d d2" using safe_trans [OF c u] ux Inr by blast
      then show thesis
        using that(2) assms(1) ux Inr unfolding dj_legacy_release_def Let_def by (auto split: if_splits)
    qed
  qed
  then show ?thesis
  proof cases
    case 2
    then show ?thesis
      using safe_trans [OF 2(1) workers_safe] safe_trans dj_release_quietly_safe [OF assms(2)] by blast
  qed simp
qed

end
