(* ===== verification/Sq_Async.thy ===== *)
theory Sq_Async
  imports Sq_System
begin

text \<open>
  The asynchronous backend (\<^verbatim>\<open>fastapi_sqlery/async_backend.py\<close>, \<^verbatim>\<open>SQLAlchemyAsyncBackend\<close>) and what
  \<^verbatim>\<open>core/async_worker.py\<close> does with the outcome of a job. The coroutines run the statements of
  \<open>Sq_Tables\<close>; between two of their transactions anything else may happen, so a transaction is again the
  unit (\<open>as_step\<close>), and an operation that spans several transactions is their composition.

  The async side is not a copy of the synchronous one: the claim judges neither dependencies nor TTL nor
  tags, a completion reads no version, a failure that will be retried stays in the live table without the
  retry marker, a recheck does not ask whether the job is running and reads the retry chains ahead of the
  judgement. The clock, the slot, drawn ids and the parse of a worker id are arguments.
\<close>

section \<open>Claiming\<close>

definition registered_worker_id :: "(string \<Rightarrow> string option) \<Rightarrow> string \<Rightarrow> db \<Rightarrow> string option" where
  "registered_worker_id uuid_of worker_id d =
     (case uuid_of worker_id of
        None \<Rightarrow> None
      | Some wid \<Rightarrow> if wid \<in> w_id ` set (workers d) then Some wid else None)"

definition aclaim_iteration ::
  "claim_env \<Rightarrow> string list \<Rightarrow> timestamp \<Rightarrow> claim_state \<Rightarrow> claim_state \<times> iteration" where
  "aclaim_iteration env queues now st =
     (let d = cs_db st
      in case next_entry queues now (cs_cursor st) (ce_locked env) d of
           None \<Rightarrow> (st, It_none)
         | Some e \<Rightarrow>
             (let st1 = st\<lparr>cs_cursor := Some (cursor_of e)\<rparr>;
                  stale = (st1\<lparr>cs_db := fst (delete_entry (r_slot e) (r_job_id e) d)\<rparr>, It_next)
              in case job_of_entry e d of
                   None \<Rightarrow> stale
                 | Some j \<Rightarrow>
                     if j_status j \<noteq> Queued \<or> is_running d (r_job_id e) then stale
                     else (let (d2, it) = take_entry env now e j d in (st1\<lparr>cs_db := d2\<rparr>, it))))"

lemma aclaim_iteration_cases:
  assumes "aclaim_iteration env queues now st = (st', it)"
  obtains (none) "next_entry queues now (cs_cursor st) (ce_locked env) (cs_db st) = None" "st' = st" "it = It_none"
  | (stale) e where "next_entry queues now (cs_cursor st) (ce_locked env) (cs_db st) = Some e"
      "st' = st\<lparr>cs_cursor := Some (cursor_of e),
                cs_db := fst (delete_entry (r_slot e) (r_job_id e) (cs_db st))\<rparr>" "it = It_next"
  | (taken) e j d2 where "next_entry queues now (cs_cursor st) (ce_locked env) (cs_db st) = Some e"
      "job_of_entry e (cs_db st) = Some j" "j_status j = Queued" "\<not> is_running (cs_db st) (r_job_id e)"
      "take_entry env now e j (cs_db st) = (d2, it)" "st' = st\<lparr>cs_cursor := Some (cursor_of e), cs_db := d2\<rparr>"
proof (cases "next_entry queues now (cs_cursor st) (ce_locked env) (cs_db st)")
  case None
  then show ?thesis using none assms by (simp add: aclaim_iteration_def)
next
  case (Some e)
  show ?thesis
  proof (cases "job_of_entry e (cs_db st)")
    case None
    then show ?thesis using stale [OF Some] assms Some by (simp add: aclaim_iteration_def)
  next
    case j: (Some j)
    show ?thesis
    proof (cases "j_status j \<noteq> Queued \<or> is_running (cs_db st) (r_job_id e)")
      case True
      then show ?thesis using stale [OF Some] assms Some j by (simp add: aclaim_iteration_def)
    next
      case False
      then show ?thesis using taken [OF Some j] assms Some j by (auto simp: aclaim_iteration_def split: prod.splits)
    qed
  qed
qed

lemma aclaim_iteration_decreases:
  assumes "aclaim_iteration env queues now st = (st', It_next)"
  shows "claim_measure queues now st' < claim_measure queues now st"
proof -
  obtain e where e: "next_entry queues now (cs_cursor st) (ce_locked env) (cs_db st) = Some e"
    and c: "cs_cursor st' = Some (cursor_of e)" and s: "shrinks (cs_db st) (cs_db st')"
    using assms by (cases rule: aclaim_iteration_cases) (auto dest: shrinks_take_entry)
  from s obtain P where r: "ready (cs_db st') = filter P (ready (cs_db st))" by (auto simp: shrinks_def)
  note ne = next_entry_Some [OF e]
  have "claim_measure queues now st' \<le>
      rowcount (\<lambda>x. entry_due queues now x \<and> after_cursor (Some (cursor_of e)) x) (ready (cs_db st))"
    unfolding claim_measure_def r c by (rule rowcount_filter_le)
  also have "\<dots> < claim_measure queues now st"
    unfolding claim_measure_def
    by (rule rowcount_less [where x = e]) (use ne in \<open>auto simp: after_cursor_key intro: after_cursor_trans\<close>)
  finally show ?thesis .
qed

function aclaim_loop ::
  "claim_env \<Rightarrow> string list \<Rightarrow> timestamp \<Rightarrow> claim_state \<Rightarrow> claim_state \<times> (job \<times> attempt_handle) option" where
  "aclaim_loop env queues now st =
     (case aclaim_iteration env queues now st of
        (st', It_none) \<Rightarrow> (st', None)
      | (st', It_claimed j h) \<Rightarrow> (st', Some (j, h))
      | (st', It_next) \<Rightarrow> aclaim_loop env queues now st')"
  by pat_completeness auto
termination
  by (relation "measure (\<lambda>(env, queues, now, st). claim_measure queues now st)")
    (simp_all add: aclaim_iteration_decreases)

declare aclaim_loop.simps [simp del]

definition aclaim_job ::
  "claim_env \<Rightarrow> (string \<Rightarrow> string option) \<Rightarrow> string list \<Rightarrow> string \<Rightarrow> timestamp \<Rightarrow> db \<Rightarrow>
     db \<times> (job \<times> attempt_handle) option" where
  "aclaim_job env uuid_of queues worker_id now d =
     (let (st, r) = aclaim_loop (env\<lparr>ce_worker := registered_worker_id uuid_of worker_id d\<rparr>) queues now
                      \<lparr>cs_db = d, cs_cursor = None, cs_blocked = [], cs_failed = []\<rparr>
      in (cs_db st, r))"

text \<open>\<^verbatim>\<open>amark_running\<close>: for a job started by other means than a claim.\<close>

definition amark_running ::
  "claim_env \<Rightarrow> (string \<Rightarrow> string option) \<Rightarrow> job_id \<Rightarrow> string \<Rightarrow> timestamp \<Rightarrow> db \<Rightarrow> db" where
  "amark_running env uuid_of jid worker_id now d =
     (case live_by_id jid d of
        None \<Rightarrow> d
      | Some j \<Rightarrow>
          if j_status j \<noteq> Queued then d
          else (let d1 = delete_blocked [jid] (fst (delete_ready [jid] d))
                in case start_attempt (env\<lparr>ce_worker := registered_worker_id uuid_of worker_id d1\<rparr>) j now d1 of
                     (d2, Some h, _) \<Rightarrow> d2
                   | (d2, None, _) \<Rightarrow> d))"

definition anext_due_delay :: "string list \<Rightarrow> timestamp \<Rightarrow> db \<Rightarrow> rat option" where
  "anext_due_delay queues now d = map_option (\<lambda>nxt. total_seconds (nxt - now)) (next_due queues now d)"

section \<open>Jobs that wait for dependencies\<close>

text \<open>
  The retry chains are read before the judgement, level by level: \<open>prefetch_each\<close> is the inner loop over a
  frontier, \<open>prefetch_retries\<close> the outer one, at most \<^const>\<open>MAX_CHAIN_HOPS\<close> times.
\<close>

definition superseded :: "job \<Rightarrow> bool" where
  "superseded j \<longleftrightarrow> j_status j = Failed \<or> j_status j = Archived"

fun prefetch_each ::
  "db \<Rightarrow> job list \<Rightarrow> (job_id \<Rightarrow> job option) \<Rightarrow> job list \<Rightarrow> (job_id \<Rightarrow> job option) \<times> job list" where
  "prefetch_each d [] retries nxt = (retries, nxt)"
| "prefetch_each d (dep # deps) retries nxt =
     (let child = latest_retry d (j_id dep)
      in prefetch_each d deps (retries(j_id dep := child))
           (case child of None \<Rightarrow> nxt | Some c \<Rightarrow> if superseded c then nxt @ [c] else nxt))"

fun prefetch_retries :: "db \<Rightarrow> nat \<Rightarrow> job list \<Rightarrow> (job_id \<Rightarrow> job option) \<Rightarrow> (job_id \<Rightarrow> job option)" where
  "prefetch_retries d 0 frontier retries = retries"
| "prefetch_retries d (Suc hops) frontier retries =
     (if frontier = [] then retries
      else let (retries', nxt) = prefetch_each d frontier retries []
           in prefetch_retries d hops nxt retries')"

text \<open>\<^verbatim>\<open>{d.id: d for d in ...}\<close>: in the order of the first row of an id, with the last row as its value.\<close>

definition dependency_rows :: "job_id list \<Rightarrow> db \<Rightarrow> job list" where
  "dependency_rows deps d =
     List.map_filter (anywhere_by_id d)
       (rev (remdups (rev (map j_id (filter (\<lambda>j. j_id j \<in> set deps) (job_all d))))))"

definition ajudge :: "db \<Rightarrow> job_id list \<Rightarrow> dependency_verdict" where
  "ajudge d deps =
     judge_dependencies deps (\<lambda>i. List.find (\<lambda>r. j_id r = i) (dependency_rows deps d))
       (prefetch_retries d MAX_CHAIN_HOPS (filter superseded (dependency_rows deps d)) (\<lambda>_. None))"

definition arecheck_blocked ::
  "nat \<Rightarrow> timestamp \<Rightarrow> job_id \<Rightarrow> timestamp \<Rightarrow> db \<Rightarrow> (db \<times> recheck) result" where
  "arecheck_blocked slot now jid created_at d =
     (case List.find (\<lambda>j. j_id j = jid \<and> j_created_at j = created_at) (live d) of
        None \<Rightarrow> Inr (delete_blocked [jid] d, Rc_gone)
      | Some j \<Rightarrow>
          if j_status j \<noteq> Queued then Inr (delete_blocked [jid] d, Rc_gone)
          else case ajudge d (dependency_ids j) of
                 Pending \<Rightarrow> Inr (d, Rc_blocked)
               | Dep_failed failed \<Rightarrow>
                   (case finish_in now jid Failed
                           (no_values\<lparr>v_error := Some (''Dependencies failed: '' @ show_int_list failed),
                                      v_termination_reason := Some ''dependency_failed'',
                                      v_finished_at := Some now\<rparr>)
                           (no_fences\<lparr>fe_created_at := Some created_at, fe_status := Some [Queued]\<rparr>)
                           (delete_blocked [jid] (fst (delete_ready [jid] d))) of
                      Inl e \<Rightarrow> Inl e
                    | Inr (d', _) \<Rightarrow> Inr (d', Rc_failed))
               | Met \<Rightarrow> Inr (write_ready slot False [j] (delete_blocked [jid] d), Rc_ready))"

definition adependents_of :: "job_id \<Rightarrow> job_id option \<Rightarrow> db \<Rightarrow> (job_id \<times> timestamp) list" where
  "adependents_of jid parent d =
     dependents_of jid
       (case parent of
          Some p \<Rightarrow> Some p
        | None \<Rightarrow> (case List.find (\<lambda>j. j_id j = jid) (job_all d) of
                     None \<Rightarrow> None | Some j \<Rightarrow> j_parent_job_id j)) d"

fun arecheck_all ::
  "nat \<Rightarrow> timestamp \<Rightarrow> (job_id \<times> timestamp) list \<Rightarrow> nat \<Rightarrow> work \<Rightarrow> db \<Rightarrow> db \<times> (nat \<times> work) result" where
  "arecheck_all slot now [] released work d = (d, Inr (released, work))"
| "arecheck_all slot now ((bid, created_at) # rest) released work d =
     (case arecheck_blocked slot now bid created_at d of
        Inl e \<Rightarrow> (d, Inl e)
      | Inr (d', Rc_ready) \<Rightarrow> arecheck_all slot now rest (released + 1) work d'
      | Inr (d', Rc_failed) \<Rightarrow> arecheck_all slot now rest released (work @ [(bid, None)]) d'
      | Inr (d', _) \<Rightarrow> arecheck_all slot now rest released work d')"

text \<open>The branches of a recheck.\<close>

lemma arecheck_cases:
  assumes "arecheck_blocked slot now jid created_at d = Inr (d', rc)"
  obtains (gone) "d' = delete_blocked [jid] d" "rc = Rc_gone"
  | (same) "d' = d" "rc = Rc_blocked"
  | (failed) j v fe where "j \<in> set (live d)" "j_id j = jid"
      "finish_in now jid Failed v fe (delete_blocked [jid] (fst (delete_ready [jid] d))) = Inr (d', True)" "rc = Rc_failed"
  | (woken) j where "j \<in> set (live d)" "j_id j = jid"
      "d' = write_ready slot False [j] (delete_blocked [jid] d)" "rc = Rc_ready"
proof (cases "List.find (\<lambda>j. j_id j = jid \<and> j_created_at j = created_at) (live d)")
  case None
  then show ?thesis using assms gone by (simp add: arecheck_blocked_def)
next
  case (Some j)
  have j: "j \<in> set (live d)" "j_id j = jid" "j_created_at j = created_at" using find_mem [OF Some] by auto
  show ?thesis
  proof (cases "j_status j = Queued")
    case False
    then show ?thesis using assms Some gone by (simp add: arecheck_blocked_def)
  next
    case queued: True
    show ?thesis
    proof (cases "ajudge d (dependency_ids j)")
      case (Dep_failed ds)
      let ?v = "no_values\<lparr>v_error := Some (''Dependencies failed: '' @ show_int_list ds),
          v_termination_reason := Some ''dependency_failed'', v_finished_at := Some now\<rparr>"
      let ?fe = "no_fences\<lparr>fe_created_at := Some created_at, fe_status := Some [Queued]\<rparr>"
      let ?d = "delete_blocked [jid] (fst (delete_ready [jid] d))"
      obtain ok where f: "finish_in now jid Failed ?v ?fe ?d = Inr (d', ok)" "rc = Rc_failed"
        using assms Some queued Dep_failed by (auto simp: arecheck_blocked_def split: sum.splits)
      have "move_where ?d jid ?fe j" using j queued by (simp add: move_where_def no_fences_def)
      then have "filter (move_where ?d jid ?fe) (live ?d) \<noteq> []" using j(1) by (auto simp: filter_empty_conv)
      then have ok using f(1) by (auto simp: finish_in_def Let_def split: if_splits)
      then show ?thesis using failed [OF j(1,2), of ?v ?fe] f by simp
    next
      case Pending
      then show ?thesis using same assms Some queued by (simp add: arecheck_blocked_def)
    next
      case Met
      then show ?thesis using woken [OF j(1,2)] assms Some queued by (simp add: arecheck_blocked_def)
    qed
  qed
qed

lemma arecheck_length:
  assumes "arecheck_blocked slot now jid created_at d = Inr (d', rc)"
  shows "length (live d') + (if rc = Rc_failed then 1 else 0) = length (live d)"
  using assms
proof (cases rule: arecheck_cases)
  case (failed j v fe)
  then show ?thesis using finish_in_live_length [OF failed(3)] by simp
qed auto

lemma arecheck_all_length:
  assumes "arecheck_all slot now bs released work d = (d', Inr (released', work'))"
  shows "2 * length (live d') + length work' \<le> 2 * length (live d) + length work"
  using assms
proof (induction slot now bs released work d rule: arecheck_all.induct)
  case (2 slot now bid created_at rest released work d)
  obtain d1 rc where rb: "arecheck_blocked slot now bid created_at d = Inr (d1, rc)"
    using "2.prems" by (auto split: sum.splits)
  show ?case using "2.prems" "2.IH" [OF rb] arecheck_length [OF rb] by (cases rc) (fastforce simp: rb)+
qed simp

function arelease_loop ::
  "nat \<Rightarrow> timestamp \<Rightarrow> work \<Rightarrow> job_id list \<Rightarrow> nat \<Rightarrow> db \<Rightarrow> db \<times> nat result" where
  "arelease_loop slot now work seen released d =
     (if work = [] then (d, Inr released)
      else if fst (last work) \<in> set seen
      then arelease_loop slot now (butlast work) seen released d
      else case arecheck_all slot now (adependents_of (fst (last work)) (snd (last work)) d)
                  released (butlast work) d of
             (d', Inl e) \<Rightarrow> (d', Inl e)
           | (d', Inr (released', work')) \<Rightarrow>
               arelease_loop slot now work' (fst (last work) # seen) released' d')"
  by pat_completeness auto
termination
proof (relation "measure (\<lambda>(slot, now, work, seen, released, d). 2 * length (live d) + length work)",
    goal_cases)
  case (3 slot now work seen released d d' r pr released' work')
  then have "arecheck_all slot now (adependents_of (fst (last work)) (snd (last work)) d) released
      (butlast work) d = (d', Inr (released', work'))" by simp
  from arecheck_all_length [OF this]
  have "2 * length (live d') + length work' \<le> 2 * length (live d) + (length work - 1)" by simp
  moreover have "0 < length work" using 3(1) by simp
  ultimately have "2 * length (live d') + length work' < 2 * length (live d) + length work"
    by linarith
  then show ?case by simp
qed simp_all

declare arelease_loop.simps [simp del]

definition arelease_dependents ::
  "nat \<Rightarrow> timestamp \<Rightarrow> job_id \<Rightarrow> job_id option \<Rightarrow> db \<Rightarrow> db \<times> nat result" where
  "arelease_dependents slot now jid parent d = arelease_loop slot now [(jid, parent)] [] 0 d"

definition arelease_dependents_quietly ::
  "nat \<Rightarrow> timestamp \<Rightarrow> job_id \<Rightarrow> job_id option \<Rightarrow> db \<Rightarrow> db" where
  "arelease_dependents_quietly slot now jid parent d = fst (arelease_dependents slot now jid parent d)"

section \<open>Completion\<close>

text \<open>
  \<^verbatim>\<open>_afinish\<close>: the close of the attempt and the terminal state in one transaction. Without a handle every
  open attempt of the job is closed; a job that is no longer in the live table leaves the transaction
  rolled back and the caller uninformed.
\<close>

definition afinish ::
  "nat \<Rightarrow> timestamp \<Rightarrow> job_id \<Rightarrow> attempt_handle option \<Rightarrow> outcome \<Rightarrow> job_status \<Rightarrow> finish_values \<Rightarrow> bool \<Rightarrow> db \<Rightarrow>
     db \<times> unit result" where
  "afinish slot now jid att oc st v in_place d =
     (let v' = v\<lparr>v_ran := open_attempt_in d jid\<rparr>
      in case close_attempt now jid att oc d of
           Inl e \<Rightarrow> (d, Inl e)
         | Inr d1 \<Rightarrow>
             if in_place
             then (d1\<lparr>live := update_where (\<lambda>j. j_id j = jid) (in_place_row st v') (live d1)\<rparr>, Inr ())
             else (let parent = (case live_by_id jid d1 of None \<Rightarrow> None | Some j \<Rightarrow> j_parent_job_id j)
                   in case finish_in now jid st v' no_fences d1 of
                        Inl e \<Rightarrow> (d, Inl e)
                      | Inr (_, False) \<Rightarrow> (d, Inr ())
                      | Inr (d2, True) \<Rightarrow>
                          (if oc = Outcome_success then arelease_dependents_quietly slot now jid parent d2 else d2,
                           Inr ())))"

definition amark_success ::
  "nat \<Rightarrow> timestamp \<Rightarrow> job_id \<Rightarrow> task_output option \<Rightarrow> attempt_handle option \<Rightarrow> db \<Rightarrow> db \<times> unit result" where
  "amark_success slot now jid result att d =
     (case (case result of None \<Rightarrow> Inr () | Some out \<Rightarrow> reject_unawaited_coroutine out) of
        Inl e \<Rightarrow> (d, Inl e)
      | Inr _ \<Rightarrow>
          afinish slot now jid att Outcome_success Success
            (no_values\<lparr>v_finished_at := Some now,
                       v_output := Some (case result of None \<Rightarrow> [] | Some out \<Rightarrow> py_str out)\<rparr>)
            False d)"

text \<open>\<^verbatim>\<open>_should_retry\<close> of the async worker, and the same test of \<^verbatim>\<open>amark_failed\<close> on the stored row.\<close>

definition ashould_retry :: "job \<Rightarrow> bool" where
  "ashould_retry j \<longleftrightarrow> j_max_retries j > 0 \<and> int (j_retry_count j) < j_max_retries j"

definition amark_failed ::
  "nat \<Rightarrow> timestamp \<Rightarrow> job_id \<Rightarrow> string \<Rightarrow> string \<Rightarrow> attempt_handle option \<Rightarrow> db \<Rightarrow> db \<times> unit result" where
  "amark_failed slot now jid error tb att d =
     afinish slot now jid att Outcome_failed Failed
       (no_values\<lparr>v_finished_at := Some now, v_error := Some error, v_traceback := Some tb\<rparr>)
       (case live_by_id jid d of None \<Rightarrow> False | Some row \<Rightarrow> ashould_retry row) d"

definition amark_shutting_down :: "job_id \<Rightarrow> db \<Rightarrow> db" where
  "amark_shutting_down jid d =
     d\<lparr>live := update_where (\<lambda>j. j_id j = jid) (\<lambda>j. j\<lparr>j_status := Shutting_down\<rparr>) (live d)\<rparr>"

definition afail_zombie_job ::
  "nat \<Rightarrow> timestamp \<Rightarrow> job_id \<Rightarrow> string \<Rightarrow> db \<Rightarrow> db \<times> bool result" where
  "afail_zombie_job slot now jid reason d =
     (case live_by_id jid d of
        None \<Rightarrow> (d, Inr False)
      | Some row \<Rightarrow>
          if j_status row \<noteq> Queued then (d, Inr False)
          else case open_attempt_in d jid of
                 None \<Rightarrow> (d, Inr False)
               | Some a \<Rightarrow>
                   (let (d1, n) = close_unfenced jid Outcome_abandoned now d
                    in if n < 1 then (d, Inr False)
                       else
                         (let j = mark_failed now reason [] ''zombie_job'' (overlay_running (Some a) row)
                          in case finish_in now jid Failed
                                    (no_values\<lparr>v_finished_at := j_finished_at j,
                                               v_duration := Some (j_duration_seconds j),
                                               v_error := Some (j_error j),
                                               v_traceback := Some (j_traceback j),
                                               v_termination_reason := Some (j_termination_reason j),
                                               v_runs := Some (j_runs j)\<rparr>)
                                    (no_fences\<lparr>fe_created_at := Some (j_created_at j)\<rparr>) d1 of
                               Inl e \<Rightarrow> (d, Inl e)
                             | Inr (_, False) \<Rightarrow> (d, Inr False)
                             | Inr (d2, True) \<Rightarrow>
                                 (arelease_dependents_quietly slot now jid (j_parent_job_id j) d2, Inr True))))"

section \<open>Retries\<close>

definition spec_of_fields :: "job_fields \<Rightarrow> timestamp \<Rightarrow> job_spec" where
  "spec_of_fields f at_time =
     \<lparr>s_task_path = f_task_path f, s_kwargs = f_kwargs f, s_queue_name = f_queue_name f, s_priority = f_priority f,
      s_scheduled_at = Some at_time, s_max_retries = f_max_retries f, s_retry_backoff = f_retry_backoff f,
      s_allow_parallel = f_allow_parallel f, s_timeout_seconds = f_timeout_seconds f,
      s_retry_count = Some (f_retry_count f), s_scheduled_task_id = None, s_job_name = f_job_name f,
      s_retry_intervals = f_retry_intervals f, s_meta = f_meta f, s_dependencies = Some (f_dependencies f),
      s_on_success_path = f_on_success_path f, s_on_failure_path = f_on_failure_path f, s_ttl = None,
      s_result_ttl = f_result_ttl f, s_failure_ttl = f_failure_ttl f, s_parent_job_id = f_parent_job_id f,
      s_tags = Some (f_tags f)\<rparr>"

definition aretry_row :: "timestamp \<Rightarrow> job_id \<Rightarrow> job \<Rightarrow> job" where
  "aretry_row now new_id j =
     (let (f, delay) = retry_job_fields j in queued_job new_id now (spec_of_fields f (now + timedelta_us delay)))"

text \<open>The insert (whose flush hook writes the ready entry) and the archiving of the failed row are one
  transaction.\<close>

definition arequeue_retry :: "nat \<Rightarrow> timestamp \<Rightarrow> job_id \<Rightarrow> job \<Rightarrow> db \<Rightarrow> db result" where
  "arequeue_retry slot now new_id j d =
     (let d1 = add_job slot (aretry_row now new_id j) d
      in case List.find (\<lambda>r. j_id r = j_id j \<and> j_status r = Failed) (live d1) of
           None \<Rightarrow> Inr d1
         | Some row \<Rightarrow>
             (case finish_in now (j_id j) Archived
                     (no_values\<lparr>v_termination_reason :=
                        Some (settled_termination_reason (Some (j_termination_reason row)))\<rparr>)
                     (no_fences\<lparr>fe_created_at := Some (j_created_at row), fe_status := Some [Failed]\<rparr>) d1 of
                Inl e \<Rightarrow> Inl e
              | Inr (d2, _) \<Rightarrow> Inr d2))"

section \<open>Reads and worker rows\<close>

definition aget_status :: "job_id \<Rightarrow> db \<Rightarrow> job_status option" where
  "aget_status jid d = map_option j_status (List.find (\<lambda>j. j_id j = jid) (job_all d))"

definition aget_job :: "job_id \<Rightarrow> db \<Rightarrow> job option" where
  "aget_job jid d =
     (case live_by_id jid d of
        Some j \<Rightarrow> Some (if j_status j = Queued then overlay_running (open_attempt_in d jid) j else j)
      | None \<Rightarrow> history_by_id d jid)"

definition aupdate_heartbeat :: "timestamp \<Rightarrow> string \<Rightarrow> db \<Rightarrow> db" where
  "aupdate_heartbeat now wid d =
     d\<lparr>workers := update_where (\<lambda>w. w_id w = wid) (\<lambda>w. w\<lparr>w_last_heartbeat := now\<rparr>) (workers d)\<rparr>"

definition aregister_worker :: "timestamp \<Rightarrow> string \<Rightarrow> string \<Rightarrow> int \<Rightarrow> worker_status \<Rightarrow> db \<Rightarrow> db" where
  "aregister_worker now wid node pid st d =
     (if wid \<in> w_id ` set (workers d)
      then d\<lparr>workers := update_where (\<lambda>w. w_id w = wid)
               (\<lambda>w. w\<lparr>w_node_id := node, w_pid := pid, w_status := st, w_last_heartbeat := now\<rparr>) (workers d)\<rparr>
      else d\<lparr>workers := workers d @ [\<lparr>w_id = wid, w_node_id = node, w_pid = pid, w_status = st,
               w_current_job_id = None, w_last_heartbeat = now, w_jobs_processed = 0\<rparr>]\<rparr>)"

definition aunregister_worker :: "string \<Rightarrow> db \<Rightarrow> db" where
  "aunregister_worker wid d = d\<lparr>workers := delete_where (\<lambda>w. w_id w = wid) (workers d)\<rparr>"

section \<open>Leases\<close>

text \<open>
  The lease table of the async side. \<^verbatim>\<open>aclaim_lease\<close> reads the row and then writes, with no lock and no
  version: the write is a separate function, whose argument \<open>existing\<close> is what was read. The unit of work
  writes the attributes that changed, so a re-claim of the own lease does not write the owner.
\<close>

record alease =
  al_queue_name :: string
  al_daemon_id :: string
  al_node_id :: string
  al_pid :: int
  al_acquired_at :: timestamp
  al_expires_at :: timestamp

definition aread_lease :: "string \<Rightarrow> alease list \<Rightarrow> alease option" where
  "aread_lease q ls = List.find (\<lambda>l. al_queue_name l = q) ls"

definition awrite_lease ::
  "timestamp \<Rightarrow> int \<Rightarrow> string \<Rightarrow> string \<Rightarrow> alease option \<Rightarrow> alease list \<Rightarrow> alease list \<times> bool result" where
  "awrite_lease now ttl q wid existing ls =
     (case existing of
        None \<Rightarrow>
          if q \<in> al_queue_name ` set ls then (ls, Inl IntegrityError)
          else (ls @ [\<lparr>al_queue_name = q, al_daemon_id = wid, al_node_id = wid, al_pid = 0, al_acquired_at = now,
                        al_expires_at = now + seconds ttl\<rparr>], Inr True)
      | Some e \<Rightarrow>
          if al_daemon_id e = wid \<or> al_expires_at e < now
          then (if q \<notin> al_queue_name ` set ls then (ls, Inl DatabaseError)
                else (update_where (\<lambda>l. al_queue_name l = q)
                        (\<lambda>l. (if al_daemon_id e = wid then l else l\<lparr>al_daemon_id := wid\<rparr>)
                              \<lparr>al_node_id := (if al_node_id e = wid then al_node_id l else wid),
                               al_acquired_at := now, al_expires_at := now + seconds ttl\<rparr>) ls, Inr True))
          else (ls, Inr False))"

definition aclaim_lease ::
  "timestamp \<Rightarrow> int \<Rightarrow> string \<Rightarrow> string \<Rightarrow> alease list \<Rightarrow> alease list \<times> bool result" where
  "aclaim_lease now ttl q wid ls = awrite_lease now ttl q wid (aread_lease q ls) ls"

definition arenew_lease :: "timestamp \<Rightarrow> string \<Rightarrow> string \<Rightarrow> alease list \<Rightarrow> alease list \<times> bool" where
  "arenew_lease now q wid ls =
     (let W = (\<lambda>l. al_queue_name l = q \<and> al_daemon_id l = wid)
      in (update_where W (\<lambda>l. l\<lparr>al_expires_at := now + seconds 30\<rparr>) ls, rowcount W ls > 0))"

definition arelease_lease :: "string \<Rightarrow> string \<Rightarrow> alease list \<Rightarrow> alease list" where
  "arelease_lease q wid ls = delete_where (\<lambda>l. al_queue_name l = q \<and> al_daemon_id l = wid) ls"

section \<open>The worker's handling of an outcome\<close>

text \<open>\<^verbatim>\<open>_on_job_success\<close>: a fencing error is logged, any other exception leaves the task.\<close>

definition on_job_success ::
  "nat \<Rightarrow> timestamp \<Rightarrow> job_id \<Rightarrow> task_output option \<Rightarrow> attempt_handle option \<Rightarrow> db \<Rightarrow> db \<times> unit result" where
  "on_job_success slot now jid result att d =
     (case amark_success slot now jid result att d of
        (d', Inl e) \<Rightarrow> (d', if e = JobFencingError then Inr () else Inl e)
      | r \<Rightarrow> r)"

definition on_job_failed ::
  "nat \<Rightarrow> timestamp \<Rightarrow> job_id \<Rightarrow> job \<Rightarrow> string \<Rightarrow> string \<Rightarrow> attempt_handle option \<Rightarrow> db \<Rightarrow> db \<times> unit result" where
  "on_job_failed slot now new_id j error tb att d =
     (case amark_failed slot now (j_id j) error tb att d of
        (d1, Inl e) \<Rightarrow> (d1, if e = JobFencingError then Inr () else Inl e)
      | (d1, Inr _) \<Rightarrow>
          (let d2 = (if ashould_retry j then quiet (arequeue_retry slot now new_id j d1) d1 else d1)
           in (arelease_dependents_quietly slot now (j_id j) None d2, Inr ())))"

text \<open>\<^verbatim>\<open>_execute_job\<close>, when the task cannot be imported or its arguments cannot be read.\<close>

definition on_load_failed ::
  "nat \<Rightarrow> timestamp \<Rightarrow> job_id \<Rightarrow> string \<Rightarrow> string \<Rightarrow> attempt_handle option \<Rightarrow> db \<Rightarrow> db \<times> unit result" where
  "on_load_failed slot now jid error tb att d =
     (case amark_failed slot now jid error tb att d of
        (d1, Inl e) \<Rightarrow> (d1, if e = JobFencingError then Inr () else Inl e)
      | r \<Rightarrow> r)"

text \<open>\<^verbatim>\<open>_drain_one\<close>: what the race between the job and the deadline ended with.\<close>

datatype drained = Finished "task_output option" | Raised string string | Deadline

definition SHUTDOWN_TIMEOUT_ERROR :: string where
  "SHUTDOWN_TIMEOUT_ERROR = ''shutdown_timeout: worker terminated before job finished''"

definition drain_one ::
  "nat \<Rightarrow> timestamp \<Rightarrow> job_id \<Rightarrow> job_id \<Rightarrow> drained \<Rightarrow> attempt_handle option \<Rightarrow> db \<Rightarrow> db \<times> unit result" where
  "drain_one slot now new_id jid outcome att d =
     (let found = aget_job jid d; d0 = amark_shutting_down jid d
      in case outcome of
           Finished result \<Rightarrow> on_job_success slot now jid result att d0
         | Raised error tb \<Rightarrow>
             (case found of
                Some j \<Rightarrow> on_job_failed slot now new_id j error tb att d0
              | None \<Rightarrow> amark_failed slot now jid error tb att d0)
         | Deadline \<Rightarrow>
             (case amark_failed slot now jid SHUTDOWN_TIMEOUT_ERROR [] att d0 of
                (d1, Inl e) \<Rightarrow> (d1, if e = JobFencingError then Inr () else Inl e)
              | (d1, Inr _) \<Rightarrow>
                  (case found of
                     Some j \<Rightarrow>
                       (if ashould_retry j then quiet (arequeue_retry slot now new_id j d1) d1 else d1, Inr ())
                   | None \<Rightarrow> (d1, Inr ()))))"

end
