(* ===== verification/Sq_Async_Laws.thy ===== *)
theory Sq_Async_Laws
  imports Sq_Async
begin

text \<open>
  The laws of the async backend: the retry chains read ahead give the judgement of the synchronous
  backend, every transaction is \<open>safe\<close>, the claim is a claim path and the completions reject a closed
  handle. \<open>as_step\<close> is one committed transaction of the async side.
\<close>

section \<open>Reading retry chains ahead\<close>

lemma prefetched_chain_settled: "\<not> superseded j \<Longrightarrow> newest_retry f n j = j"
  by (cases n) (auto simp: superseded_def)

lemma prefetch_each_retries:
  "prefetch_each d deps retries nxt = (retries', nxt') \<Longrightarrow>
     retries' i = (if i \<in> j_id ` set deps then latest_retry d i else retries i)"
  by (induction d deps retries nxt rule: prefetch_each.induct) (auto simp: Let_def split: if_splits)

lemma prefetch_each_nxt:
  "prefetch_each d deps retries nxt = (retries', nxt') \<Longrightarrow>
     set nxt' = set nxt \<union> {c. superseded c \<and> (\<exists>dep\<in>set deps. latest_retry d (j_id dep) = Some c)}"
  by (induction d deps retries nxt rule: prefetch_each.induct) (auto simp: Let_def split: option.splits if_splits)

lemma prefetch_keeps:
  "retries i = latest_retry d i \<Longrightarrow> prefetch_retries d n frontier retries i = latest_retry d i"
proof (induction d n frontier retries rule: prefetch_retries.induct)
  case (2 d hops frontier retries)
  show ?case
  proof (cases "frontier = []")
    case False
    obtain retries' nxt where p: "prefetch_each d frontier retries [] = (retries', nxt)" by fastforce
    have "retries' i = latest_retry d i" using prefetch_each_retries [OF p, of i] "2.prems" by simp
    then show ?thesis using "2.IH" [OF False p [symmetric] refl] False p by simp
  qed (use "2.prems" in simp)
qed simp

lemma prefetch_follows:
  "dep \<in> set frontier \<Longrightarrow>
     newest_retry (prefetch_retries d n frontier retries) n dep = newest_retry (latest_retry d) n dep"
proof (induction n arbitrary: frontier retries dep)
  case (Suc n)
  obtain retries' nxt where p: "prefetch_each d frontier retries [] = (retries', nxt)" by fastforce
  have R: "prefetch_retries d (Suc n) frontier retries = prefetch_retries d n nxt retries'"
    using Suc.prems p by auto
  have "retries' (j_id dep) = latest_retry d (j_id dep)"
    using prefetch_each_retries [OF p, of "j_id dep"] Suc.prems by simp
  then have look: "prefetch_retries d n nxt retries' (j_id dep) = latest_retry d (j_id dep)"
    by (rule prefetch_keeps)
  show ?case
  proof (cases "superseded dep")
    case False
    then show ?thesis by (metis prefetched_chain_settled)
  next
    case True
    show ?thesis
    proof (cases "latest_retry d (j_id dep)")
      case None
      then show ?thesis unfolding R using look by (simp add: superseded_def)
    next
      case (Some c)
      have "newest_retry (prefetch_retries d n nxt retries') n c = newest_retry (latest_retry d) n c"
      proof (cases "superseded c")
        case True
        then have "c \<in> set nxt" using prefetch_each_nxt [OF p] Suc.prems Some by auto
        then show ?thesis by (rule Suc.IH)
      qed (simp add: prefetched_chain_settled)
      then show ?thesis unfolding R using look Some True by (simp add: superseded_def)
    qed
  qed
qed simp

lemma judge_loop_cong:
  assumes "\<forall>i\<in>set deps. f i = g i"
    and "\<forall>i\<in>set deps. \<forall>r. g i = Some r \<longrightarrow> newest_retry l MAX_CHAIN_HOPS r = newest_retry l' MAX_CHAIN_HOPS r"
  shows "judge_loop f l failed pending deps = judge_loop g l' failed pending deps"
  using assms
  by (induction f l failed pending deps rule: judge_loop.induct) (auto simp: Let_def split: option.splits)

lemma anywhere_id: "anywhere_by_id d i = Some r \<Longrightarrow> j_id r = i \<and> r \<in> set (job_all d)"
  unfolding anywhere_by_id_def by (drule find_mem) simp

lemma find_rows:
  "List.find (\<lambda>r. j_id r = i) (List.map_filter (anywhere_by_id d) ids) =
     (if i \<in> set ids then anywhere_by_id d i else None)"
proof (induction ids)
  case (Cons k ids)
  show ?case
  proof (cases "anywhere_by_id d k")
    case None
    then show ?thesis using Cons.IH by (auto simp: List.map_filter_simps)
  next
    case (Some a)
    have "j_id a = k" using anywhere_id [OF Some] by simp
    then show ?thesis using Cons.IH Some by (auto simp: List.map_filter_simps)
  qed
qed (simp add: List.map_filter_simps)

lemma dependency_rows_find:
  assumes "i \<in> set deps"
  shows "List.find (\<lambda>r. j_id r = i) (dependency_rows deps d) = anywhere_by_id d i"
proof -
  have "anywhere_by_id d i = None" if "i \<notin> j_id ` {j \<in> set (job_all d). j_id j \<in> set deps}"
    using that assms by (cases "anywhere_by_id d i") (auto dest: anywhere_id)
  then show ?thesis by (simp add: dependency_rows_def find_rows)
qed

text \<open>The judgement on chains read ahead is the judgement that reads them as it goes.\<close>

lemma ajudge_eq: "ajudge d deps = judge_in d deps"
proof -
  let ?rows = "dependency_rows deps d"
  let ?R = "prefetch_retries d MAX_CHAIN_HOPS (filter superseded ?rows) (\<lambda>_. None)"
  have "newest_retry ?R MAX_CHAIN_HOPS r = newest_retry (latest_retry d) MAX_CHAIN_HOPS r"
    if "i \<in> set deps" "anywhere_by_id d i = Some r" for i r
  proof (cases "superseded r")
    case True
    have "List.find (\<lambda>r. j_id r = i) ?rows = Some r" using dependency_rows_find that by simp
    then have "r \<in> set (filter superseded ?rows)" using True by (auto dest: find_mem)
    then show ?thesis by (rule prefetch_follows)
  qed (simp add: prefetched_chain_settled)
  then have "judge_loop (\<lambda>i. List.find (\<lambda>r. j_id r = i) ?rows) ?R [] False deps =
      judge_loop (anywhere_by_id d) (latest_retry d) [] False deps"
    by (intro judge_loop_cong) (auto simp: dependency_rows_find)
  then show ?thesis by (simp add: ajudge_def judge_in_def judge_dependencies_def)
qed

section \<open>Transactions are safe\<close>

lemma arecheck_safe:
  assumes "arecheck_blocked slot now jid created_at d = Inr (d', rc)" "slot \<in> set SLOTS"
  shows "safe d d'"
  using assms(1)
proof (cases rule: arecheck_cases)
  case (failed j v fe)
  have "safe d (delete_blocked [jid] (fst (delete_ready [jid] d)))"
    by (rule safe_trans [OF delete_ready_safe delete_blocked_safe])
  then show ?thesis using safe_trans finish_in_safe [OF failed(3)] by simp
next
  case (woken j)
  then show ?thesis using safe_trans [OF delete_blocked_safe write_ready_safe [OF assms(2)]] by simp
qed auto

lemma arecheck_all_safe:
  assumes "arecheck_all slot now bs released work d = (d', r)" "slot \<in> set SLOTS"
  shows "safe d d'"
  using assms
proof (induction slot now bs released work d rule: arecheck_all.induct)
  case (2 slot now bid created_at rest released work d)
  show ?case
  proof (cases "arecheck_blocked slot now bid created_at d")
    case (Inl e)
    then show ?thesis using "2.prems" by simp
  next
    case (Inr p)
    obtain d1 rc where p: "p = (d1, rc)" by (cases p)
    have "safe d d1" using arecheck_safe Inr p "2.prems"(2) by blast
    then show ?thesis
      using "2.prems" "2.IH" [OF Inr p [symmetric]] Inr p by (cases rc) (auto intro: safe_trans)
  qed
qed auto

lemma arelease_loop_safe:
  assumes "arelease_loop slot now work seen released d = (d', r)" "slot \<in> set SLOTS"
  shows "safe d d'"
  using assms
proof (induction slot now work seen released d rule: arelease_loop.induct)
  case (1 slot now work seen released d)
  note step = "1.prems"(1) [unfolded arelease_loop.simps [of slot now work]]
  show ?case
  proof (cases "work = [] \<or> fst (last work) \<in> set seen")
    case True
    then show ?thesis using step "1.IH"(1) "1.prems"(2) by (auto split: if_splits)
  next
    case False
    obtain d1 r1 where ra: "arecheck_all slot now (adependents_of (fst (last work)) (snd (last work)) d)
        released (butlast work) d = (d1, r1)" by fastforce
    have s: "safe d d1" by (rule arecheck_all_safe [OF ra "1.prems"(2)])
    show ?thesis
    proof (cases r1)
      case (Inl e)
      then show ?thesis using step False ra s by auto
    next
      case (Inr p)
      obtain rel w where p: "p = (rel, w)" by (cases p)
      have "arelease_loop slot now w (fst (last work) # seen) rel d1 = (d', r)"
        using step False ra Inr p by auto
      then have "safe d1 d'"
        using "1.IH"(2) [OF _ _ ra [symmetric] Inr p [symmetric]] False "1.prems"(2) by blast
      then show ?thesis using s safe_trans by blast
    qed
  qed
qed

lemma arelease_quietly_safe:
  "slot \<in> set SLOTS \<Longrightarrow> safe d (arelease_dependents_quietly slot now jid parent d)"
  unfolding arelease_dependents_quietly_def arelease_dependents_def
  using arelease_loop_safe [OF prod.collapse [symmetric]] .

text \<open>The branches of a completion.\<close>

lemma afinish_cases:
  assumes "afinish slot now jid att oc st v in_place d = (d', r)"
  obtains (rejected) e where "close_attempt now jid att oc d = Inl e" "d' = d" "r = Inl e"
  | (broken) e where "d' = d" "r = Inl e" "\<not> in_place"
  | (marked) d1 v' where "close_attempt now jid att oc d = Inr d1" "in_place"
      "d' = d1\<lparr>live := update_where (\<lambda>j. j_id j = jid) (in_place_row st v') (live d1)\<rparr>" "r = Inr ()"
      "v' = v\<lparr>v_ran := open_attempt_in d jid\<rparr>"
  | (absent) d1 d2 v' where "close_attempt now jid att oc d = Inr d1" "\<not> in_place" "d' = d" "r = Inr ()"
      "finish_in now jid st v' no_fences d1 = Inr (d2, False)"
  | (finished) d1 d2 v' parent where "close_attempt now jid att oc d = Inr d1" "\<not> in_place"
      "finish_in now jid st v' no_fences d1 = Inr (d2, True)" "v' = v\<lparr>v_ran := open_attempt_in d jid\<rparr>"
      "d' = (if oc = Outcome_success then arelease_dependents_quietly slot now jid parent d2 else d2)" "r = Inr ()"
proof (cases "close_attempt now jid att oc d")
  case (Inl e)
  then show ?thesis using rejected assms by (simp add: afinish_def Let_def)
next
  case (Inr d1)
  let ?v = "v\<lparr>v_ran := open_attempt_in d jid\<rparr>"
  show ?thesis
  proof (cases in_place)
    case True
    then show ?thesis using marked [OF Inr] assms Inr by (auto simp: afinish_def Let_def)
  next
    case ip: False
    show ?thesis
    proof (cases "finish_in now jid st ?v no_fences d1")
      case (Inl e)
      then show ?thesis using broken ip assms Inr by (auto simp: afinish_def Let_def)
    next
      case f: (Inr p)
      obtain d2 ok where p: "p = (d2, ok)" by (cases p)
      show ?thesis
      proof (cases ok)
        case True
        then have f1: "finish_in now jid st ?v no_fences d1 = Inr (d2, True)" using f p by simp
        show ?thesis
          by (rule finished [OF Inr ip f1 refl,
                where parent = "case live_by_id jid d1 of None \<Rightarrow> None | Some j \<Rightarrow> j_parent_job_id j"])
            (use assms Inr ip f p True in \<open>simp_all add: afinish_def Let_def\<close>)
      next
        case False
        then have f1: "finish_in now jid st ?v no_fences d1 = Inr (d2, False)" using f p by simp
        show ?thesis
          by (rule absent [OF Inr ip _ _ f1]) (use assms Inr ip f p False in \<open>simp_all add: afinish_def Let_def\<close>)
      qed
    qed
  qed
qed

lemma mark_in_place_safe: "safe d (d\<lparr>live := update_where Q (in_place_row st v) (live d)\<rparr>)"
  by (rule live_update_safe [where Q = Q and f = "in_place_row st v"]) (simp_all add: in_place_row_def Let_def set_values_def split: option.splits)

lemma afinish_safe:
  assumes "afinish slot now jid att oc st v in_place d = (d', r)" "slot \<in> set SLOTS" "is_terminal st"
  shows "safe d d'"
  using assms(1)
proof (cases rule: afinish_cases)
  case (marked d1 v')
  then show ?thesis using safe_trans [OF close_attempt_safe mark_in_place_safe] by simp
next
  case (finished d1 d2 v' parent)
  have "safe d d2" using safe_trans [OF close_attempt_safe [OF finished(1)] finish_in_safe [OF finished(3) assms(3)]] .
  then show ?thesis using finished(5) safe_trans arelease_quietly_safe [OF assms(2)] by simp
qed simp_all

lemma amark_safe:
  assumes "slot \<in> set SLOTS"
  shows "amark_success slot now jid result att d = (d', r) \<Longrightarrow> safe d d'"
    and "amark_failed slot now jid error tb att d = (d', r) \<Longrightarrow> safe d d'"
  using afinish_safe [OF _ assms] by (auto simp: amark_success_def amark_failed_def split: sum.splits)

lemma amark_shutting_down_safe: "safe d (amark_shutting_down jid d)"
  by (rule live_update_safe [where Q = "\<lambda>j. j_id j = jid" and f = "\<lambda>j. j\<lparr>j_status := Shutting_down\<rparr>"])
    (simp_all add: amark_shutting_down_def)

lemma aretry_row_id [simp]: "j_id (aretry_row now new_id j) = new_id" "j_status (aretry_row now new_id j) = Queued"
  by (simp_all add: aretry_row_def queued_job_def split: prod.splits)

lemma arequeue_safe:
  assumes "arequeue_retry slot now new_id j d = Inr d'" "slot \<in> set SLOTS" "fresh_id new_id d"
  shows "safe d d'"
proof -
  let ?d1 = "add_job slot (aretry_row now new_id j) d"
  have s: "safe d ?d1" using add_job_safe [of "aretry_row now new_id j"] assms(2,3) by simp
  have "safe ?d1 d'"
    using assms(1) by (auto simp: arequeue_retry_def Let_def split: option.splits sum.splits dest: finish_in_safe)
  then show ?thesis using s safe_trans by blast
qed

lemma afail_zombie_cases:
  assumes "afail_zombie_job slot now jid reason d = (d', r)"
  shows "d' = d \<or> (\<exists>v fe d2 parent.
    finish_in now jid Failed v fe (fst (close_unfenced jid Outcome_abandoned now d)) = Inr (d2, True) \<and>
    d' = arelease_dependents_quietly slot now jid parent d2)"
proof (cases "live_by_id jid d")
  case row: (Some row)
  show ?thesis
  proof (cases "open_attempt_in d jid")
    case (Some a)
    obtain d1 n where cu: "close_unfenced jid Outcome_abandoned now d = (d1, n)" by fastforce
    show ?thesis
      using assms row Some
      unfolding afail_zombie_job_def Let_def option.case cu prod.case fst_conv
      by (auto split: if_splits sum.splits prod.splits bool.splits)
  qed (use assms row in \<open>auto simp: afail_zombie_job_def split: if_splits\<close>)
qed (use assms in \<open>simp add: afail_zombie_job_def\<close>)

lemma amark_running_safe: "safe d (amark_running env uuid_of jid worker_id now d)"
proof (cases "live_by_id jid d")
  case (Some j)
  let ?d1 = "delete_blocked [jid] (fst (delete_ready [jid] d))"
  obtain d2 h oc where st: "start_attempt (env\<lparr>ce_worker := registered_worker_id uuid_of worker_id ?d1\<rparr>) j now ?d1 =
      (d2, h, oc)" using prod_cases3 by blast
  have "safe d ?d1" by (rule safe_trans [OF delete_ready_safe delete_blocked_safe])
  then have "safe d d2" using start_attempt_law [OF st] safe_trans by blast
  then show ?thesis using Some st by (cases h) (auto simp: amark_running_def Let_def)
qed (simp add: amark_running_def)

section \<open>The claim is a claim path\<close>

lemma aclaim_iteration_law:
  assumes "aclaim_iteration env queues now st = (st', it)"
  shows "safe (cs_db st) (cs_db st') \<and>
    (case it of
       It_claimed j' h \<Rightarrow> \<exists>dm. safe (cs_db st) dm \<and> same_running (cs_db st) dm \<and> claims dm h (cs_db st')
     | It_next \<Rightarrow> same_running (cs_db st) (cs_db st')
     | It_none \<Rightarrow> st' = st)"
  using assms
proof (cases rule: aclaim_iteration_cases)
  case (stale e)
  then show ?thesis by (auto simp: same_running_def)
next
  case (taken e j d2)
  have "safe (cs_db st) (fst (delete_entry (r_slot e) (r_job_id e) (cs_db st)))"
    "same_running (cs_db st) (fst (delete_entry (r_slot e) (r_job_id e) (cs_db st)))"
    by (auto simp: same_running_def)
  then show ?thesis using take_entry_law [OF taken(5)] taken(6) by (cases it) auto
qed simp

lemma aclaim_loop_law:
  assumes "aclaim_loop env queues now st = (st', r)"
  shows "safe (cs_db st) (cs_db st') \<and>
    (case r of
       Some (j, h) \<Rightarrow> \<exists>dm. safe (cs_db st) dm \<and> same_running (cs_db st) dm \<and> claims dm h (cs_db st')
     | None \<Rightarrow> same_running (cs_db st) (cs_db st'))"
  using assms
proof (induction env queues now st rule: aclaim_loop.induct)
  case (1 env queues now st)
  obtain s1 it where i: "aclaim_iteration env queues now st = (s1, it)" by fastforce
  note law = aclaim_iteration_law [OF i]
  show ?case
  proof (cases it)
    case It_next
    have rest: "aclaim_loop env queues now s1 = (st', r)"
      using "1.prems" i It_next by (simp add: aclaim_loop.simps [of env queues now st])
    have s: "safe (cs_db st) (cs_db s1)" "same_running (cs_db st) (cs_db s1)" using law It_next by auto
    note IH = "1.IH" [OF i [symmetric] It_next rest]
    have "safe (cs_db st) (cs_db st')" using s(1) IH safe_trans by blast
    moreover have "\<exists>dm. safe (cs_db st) dm \<and> same_running (cs_db st) dm \<and> claims dm h (cs_db st')" if "r = Some (j, h)" for j h
      using IH s that safe_trans same_running_trans by (simp, blast)
    moreover have "same_running (cs_db st) (cs_db st')" if "r = None"
      using IH s(2) that same_running_trans by simp
    ultimately show ?thesis by (cases r) auto
  qed (use "1.prems" i law in \<open>auto simp: aclaim_loop.simps [of env queues now st]\<close>)
qed

definition async_claim ::
  "claim_env \<times> (string \<Rightarrow> string option) \<times> string list \<times> string \<times> timestamp \<Rightarrow> db \<Rightarrow> (db \<times> attempt_handle option) result" where
  "async_claim x d =
     (case x of (env, uuid_of, queues, worker_id, now) \<Rightarrow>
        (case aclaim_job env uuid_of queues worker_id now d of (d', r) \<Rightarrow> Inr (d', map_option snd r)))"

lemma async_claim_law:
  assumes "async_claim x d = Inr (d', r)"
  shows "safe d d' \<and> claim_result d r d'"
proof -
  obtain env uuid_of queues worker_id now where x: "x = (env, uuid_of, queues, worker_id, now)" by (cases x)
  let ?env = "env\<lparr>ce_worker := registered_worker_id uuid_of worker_id d\<rparr>"
  obtain st r0 where c: "aclaim_loop ?env queues now
      \<lparr>cs_db = d, cs_cursor = None, cs_blocked = [], cs_failed = []\<rparr> = (st, r0)" by fastforce
  then have "d' = cs_db st" "r = map_option snd r0"
    using assms by (simp_all add: async_claim_def x aclaim_job_def)
  then show ?thesis using aclaim_loop_law [OF c] by (cases r0) (auto simp: claim_result_def)
qed

interpretation asynchronous: claim_path async_claim
  by unfold_locales (auto dest!: async_claim_law simp: claim_result_def)

interpretation async_async: claim_paths async_claim async_claim ..
interpretation scan_async: claim_paths scan_claim async_claim ..
interpretation async_scan: claim_paths async_claim scan_claim ..

section \<open>The fence\<close>

definition async_success :: "nat \<times> timestamp \<times> string option \<Rightarrow> attempt_handle \<Rightarrow> db \<Rightarrow> db \<times> unit result" where
  "async_success x h d =
     (case x of (gen, now, out) \<Rightarrow>
        amark_success (gen mod 3) now (h_job_id h) (map_option Output out) (Some h) d)"

definition async_failure :: "nat \<times> timestamp \<times> string \<times> string \<Rightarrow> attempt_handle \<Rightarrow> db \<Rightarrow> db \<times> unit result" where
  "async_failure x h d =
     (case x of (gen, now, error, tb) \<Rightarrow> amark_failed (gen mod 3) now (h_job_id h) error tb (Some h) d)"

lemma afinish_stale:
  assumes "wf_db d" "\<not> handle_open h d"
  shows "afinish slot now jid (Some h) oc st v in_place d = (d, Inl JobFencingError)"
  using close_attempt_fenced [OF assms(1)] assms(2) by (simp add: afinish_def Let_def)

lemma async_stale:
  assumes "wf_db d" "\<not> handle_open h d"
  shows "async_success x h d = (d, Inl JobFencingError)" "async_failure y h d = (d, Inl JobFencingError)"
  using afinish_stale [OF assms]
  by (auto simp: async_success_def async_failure_def amark_success_def amark_failed_def
      reject_unawaited_coroutine_def split: prod.splits option.splits sum.splits)

text \<open>An accepted completion of a job of the live table has closed its attempt.\<close>

lemma afinish_accepted:
  assumes w: "wf_db d" and live: "jid \<in> j_id ` set (live d)" and slot: "slot \<in> set SLOTS" and st: "is_terminal st"
    and a: "afinish slot now jid (Some h) oc st v in_place d = (d', Inr r)"
  shows "handle_open h d \<and> \<not> handle_open h d' \<and> safe d d'"
proof -
  have ho: "handle_open h d" using afinish_stale [OF w] a by fastforce
  let ?d1 = "fst (close_exact h oc now d)"
  have ca: "close_attempt now jid (Some h) oc d = Inr ?d1" by (simp add: close_attempt_fenced [OF w] ho)
  have s1: "safe d ?d1" by (rule close_variants_safe)
  then have w1: "wf_db ?d1" using w by (simp add: safe_def)
  obtain row where row: "live_by_id jid ?d1 = Some row"
    using live live_by_id_Some [OF w1] by (auto simp: close_exact_def)
  have "safe ?d1 d'"
    using a
  proof (cases rule: afinish_cases)
    case (absent d1 d2 v')
    have "j_id row = jid" using row live_by_id_Some [OF w1] by blast
    then show ?thesis using absent ca finish_in_cases [OF w1] row by (simp add: move_where_def no_fences_def)
  next
    case (marked d1 v')
    then show ?thesis using ca mark_in_place_safe by simp
  next
    case (finished d1 d2 v' parent)
    then show ?thesis
      using ca finish_in_safe [OF finished(3) st] safe_trans arelease_quietly_safe [OF slot] by simp
  qed simp_all
  then have "evolves ?d1 d'" "safe d d'" using w1 s1 safe_trans by (auto simp: safe_def)
  moreover have "h_id h < next_attempt ?d1"
    using ho w by (auto simp: handle_open_def wf_db_def wf_attempts_def close_exact_def)
  ultimately show ?thesis using ho handle_closed_stays [OF close_exact_closes] by blast
qed

lemma async_accepted:
  assumes "wf_db d" "h_job_id h \<in> j_id ` set (live d)"
  shows "async_success x h d = (d', Inr r) \<Longrightarrow> handle_open h d \<and> \<not> handle_open h d' \<and> safe d d'"
    and "async_failure y h d = (d', Inr r) \<Longrightarrow> handle_open h d \<and> \<not> handle_open h d' \<and> safe d d'"
proof -
  obtain gen now out where x: "x = (gen, now, out)" by (cases x)
  show "handle_open h d \<and> \<not> handle_open h d' \<and> safe d d'" if "async_success x h d = (d', Inr r)"
    by (rule afinish_accepted [OF assms mod3_slot])
      (use that in \<open>auto simp: x async_success_def amark_success_def split: sum.splits\<close>)
  obtain gen now error tb where y: "y = (gen, now, error, tb)" by (cases y)
  show "handle_open h d \<and> \<not> handle_open h d' \<and> safe d d'" if "async_failure y h d = (d', Inr r)"
    by (rule afinish_accepted [OF assms mod3_slot])
      (use that in \<open>auto simp: y async_failure_def amark_failed_def\<close>)
qed

section \<open>Transactions of the async side\<close>

inductive as_step :: "db \<Rightarrow> db \<Rightarrow> bool" where
  as_st_scan: "aclaim_iteration env queues now st = (st', it) \<Longrightarrow> as_step (cs_db st) (cs_db st')"
| as_st_running: "as_step d (amark_running env uuid_of jid worker_id now d)"
| as_st_recheck: "slot \<in> set SLOTS \<Longrightarrow> arecheck_blocked slot now jid created_at d = Inr (d', rc) \<Longrightarrow> as_step d d'"
| as_st_finish: "close_attempt now jid att oc d = Inr d1 \<Longrightarrow> is_terminal st \<Longrightarrow>
    finish_in now jid st v no_fences d1 = Inr (d2, True) \<Longrightarrow> as_step d d2"
| as_st_in_place: "close_attempt now jid att oc d = Inr d1 \<Longrightarrow>
    as_step d (d1\<lparr>live := update_where (\<lambda>j. j_id j = jid) (in_place_row Failed v) (live d1)\<rparr>)"
| as_st_shutting_down: "as_step d (amark_shutting_down jid d)"
| as_st_zombie: "finish_in now jid Failed v fe (fst (close_unfenced jid Outcome_abandoned now d)) = Inr (d2, True) \<Longrightarrow>
    as_step d d2"
| as_st_retry: "slot \<in> set SLOTS \<Longrightarrow> fresh_id new_id d \<Longrightarrow> arequeue_retry slot now new_id j d = Inr d' \<Longrightarrow> as_step d d'"
| as_st_workers: "as_step d (d\<lparr>workers := w\<rparr>)"

lemma as_step_safe: "as_step d d' \<Longrightarrow> safe d d'"
proof (induction rule: as_step.induct)
  case (as_st_scan env queues now st st' it)
  then show ?case using aclaim_iteration_law by blast
next
  case (as_st_finish now jid att oc d d1 st v d2)
  then show ?case using safe_trans [OF close_attempt_safe finish_in_safe] by blast
next
  case (as_st_in_place now jid att oc d d1 v)
  then show ?case using safe_trans [OF close_attempt_safe mark_in_place_safe] by blast
next
  case (as_st_zombie now jid v fe d d2)
  then show ?case using safe_trans [OF close_variants_safe(3) finish_in_safe] is_terminal_simps by blast
qed (blast intro: amark_running_safe arecheck_safe amark_shutting_down_safe arequeue_safe workers_safe)+

end
