(* ===== verification/Sq_Django_System.thy ===== *)
theory Sq_Django_System
  imports Sq_Django_Backend Sq_Async_Laws Sq_Retention
begin

text \<open>
  All sides on one database. The completions of the Django backend satisfy the contract of the
  fenced completions (\<open>fenced_completion\<close>), its claims that of the claim paths; \<open>dj_step\<close> is one committed
  transaction of the Django side, \<open>any_step\<close> a transaction of the standalone, the Django or the async
  side, \<open>rt_step\<close> one of retention, and \<open>db_step\<close> a transaction of any of the four. The theorems are about
  all interleavings.
\<close>

section \<open>Fenced completions\<close>

definition dj_complete_success ::
  "nat \<times> timestamp \<times> string \<times> int option \<Rightarrow> attempt_handle \<Rightarrow> db \<Rightarrow> db \<times> job option result" where
  "dj_complete_success x h d =
     (case x of (gen, now, out, ver) \<Rightarrow>
        dj_mark_job_success (gen mod 3) now None (h_job_id h) (Output out) ver (Some h) d)"

definition dj_complete_failure ::
  "timestamp \<times> (string \<times> string \<times> string) \<times> int option \<Rightarrow> attempt_handle \<Rightarrow> db \<Rightarrow> db \<times> job option result" where
  "dj_complete_failure x h d =
     (case x of (now, (error, tb, reason), ver) \<Rightarrow>
        dj_mark_job_failed now (h_job_id h) error tb ver reason (Some h) d)"

lemma dj_close_fenced:
  "wf_db d \<Longrightarrow> dj_close_attempt now jid (Some h) oc d =
     (if handle_open h d then Inr (fst (close_exact h oc now d)) else Inl JobFencingError)"
  by (simp add: dj_eq close_attempt_fenced)

lemma dj_handle_given [simp]: "dj_handle (Some h) ob = Some h"
  by (simp add: dj_handle_def coalesce_def)

lemma handle_open_bound: "wf_db d \<Longrightarrow> handle_open h d \<Longrightarrow> h_id h < next_attempt d"
  by (auto simp: handle_open_def wf_db_def wf_attempts_def)

lemma dj_success_in_fenced:
  assumes w: "wf_db d"
  shows "\<not> handle_open h d \<Longrightarrow> dj_success_in now (Output out) (Some h) ob d = Inl JobFencingError"
    and "dj_success_in now (Output out) (Some h) ob d = Inr (d', ob') \<Longrightarrow>
      handle_open h d \<and> \<not> handle_open h d'"
proof -
  show "dj_success_in now (Output out) (Some h) ob d = Inl JobFencingError" if "\<not> handle_open h d"
    using that by (simp add: dj_success_in_def reject_unawaited_coroutine_def dj_close_fenced [OF w] Let_def)
  assume a: "dj_success_in now (Output out) (Some h) ob d = Inr (d', ob')"
  let ?d1 = "fst (close_exact h Outcome_success now d)"
  obtain v cols ver c cl where o: "handle_open h d"
    and m: "dj_move now (j_id (jo_fields ob)) c Success v cols ver None False cl ?d1 = Inr (d', True)"
    using a
    by (auto simp: dj_success_in_def reject_unawaited_coroutine_def dj_close_fenced [OF w] Let_def
        split: sum.splits prod.splits bool.splits if_splits)
  have s: "safe d ?d1"
    using close_attempt_safe [of now 0 "Some h" Outcome_success d ?d1] close_attempt_fenced [OF w] o by simp
  have "evolves ?d1 d'" "h_id h < next_attempt ?d1"
    using dj_move_safe [OF m] s w handle_open_bound [OF w o]
    by (auto simp: safe_def evolves_def attempts_evolve_def)
  then show "handle_open h d \<and> \<not> handle_open h d'"
    using o handle_closed_stays [OF close_exact_closes] by blast
qed

lemma dj_failed_in_fenced:
  assumes w: "wf_db d"
  shows "\<not> handle_open h d \<Longrightarrow>
      dj_failed_in now error tb reason (Some h) False ob d = Inl JobFencingError"
    and "dj_failed_in now error tb reason (Some h) False ob d = Inr (d', ob') \<Longrightarrow>
      handle_open h d \<and> \<not> handle_open h d'"
proof -
  let ?j = "jo_fields ob"
  let ?d0 = "if j_status ?j = Queued \<and> attempt_columns d ob = None
      then dj_remove no_holder [j_id ?j] d else d"
  have s0: "safe d ?d0" by auto
  then have w0: "wf_db ?d0" using w by (simp add: safe_def)
  have h0: "handle_open h ?d0 = handle_open h d" by (simp add: handle_open_def dj_remove_def)
  note close = dj_close_fenced [OF w0, of now "j_id ?j" h Outcome_failed, unfolded h0]
  show "dj_failed_in now error tb reason (Some h) False ob d = Inl JobFencingError" if "\<not> handle_open h d"
    using that close by (simp add: dj_failed_in_def Let_def)
  assume a: "dj_failed_in now error tb reason (Some h) False ob d = Inr (d', ob')"
  show "handle_open h d \<and> \<not> handle_open h d'"
  proof (rule dj_failed_in_shape [OF a])
    fix d1 d2
    assume d1: "d1 = (if False \<or> j_status ?j = Queued \<and> attempt_columns d ob = None
        then dj_remove no_holder [j_id ?j] d else d)"
      and c: "(if False then Inr d1 else dj_close_attempt now (j_id ?j) (dj_handle (Some h) ob)
        Outcome_failed d1) = Inr d2" and s: "safe d2 d'"
    have c': "dj_close_attempt now (j_id ?j) (Some h) Outcome_failed ?d0 = Inr d2" using c d1 by simp
    with close have o: "handle_open h d" "d2 = fst (close_exact h Outcome_failed now ?d0)"
      by (auto split: if_splits)
    have "safe d d2" using safe_trans [OF s0 dj_close_attempt_safe [OF c']] .
    then have "evolves d2 d'" "h_id h < next_attempt d2"
      using s w handle_open_bound [OF w o(1)] by (auto simp: safe_def evolves_def attempts_evolve_def)
    then show ?thesis using o handle_closed_stays [OF close_exact_closes] by blast
  qed
qed

lemma dj_target_cases:
  assumes "jid \<in> job_ids d"
  shows "(\<exists>ob. dj_get_job_by_id jid d = DF_live ob) \<or> (\<exists>j. dj_get_job_by_id jid d = DF_history j)"
  using job_ids_found [OF assms] by (auto simp: dj_get_job_by_id_def)

lemma closed_after_evolution:
  assumes "wf_db d" "handle_open h d" "safe d d1" "\<not> handle_open h d1" "safe d1 d2"
  shows "\<not> handle_open h d2"
proof -
  have "wf_db d1" "evolves d d1" "evolves d1 d2" using assms by (auto simp: safe_def)
  moreover have "h_id h < next_attempt d1"
    using handle_open_bound [OF assms(1,2)] \<open>evolves d d1\<close> by (auto simp: evolves_def attempts_evolve_def)
  ultimately show ?thesis using handle_closed_stays assms(4) by blast
qed

lemma dj_complete_stale:
  assumes w: "wf_db d" and id: "h_job_id h \<in> job_ids d" and st: "\<not> handle_open h d"
  shows "dj_complete_success x h d = (d, Inl JobFencingError)"
    "dj_complete_failure y h d = (d, Inl JobFencingError)"
proof -
  obtain gen now out ver where x: "x = (gen, now, out, ver)" by (cases x)
  obtain now' e tb rs ver' where y: "y = (now', (e, tb, rs), ver')" by (cases y) auto
  show "dj_complete_success x h d = (d, Inl JobFencingError)"
    using dj_success_in_fenced(1) [OF w st] dj_target_cases [OF id]
    by (auto simp: dj_complete_success_def x dj_mark_job_success_def completion_target_def
        dj_mark_success_def already_finished_def)
  show "dj_complete_failure y h d = (d, Inl JobFencingError)"
    using dj_failed_in_fenced(1) [OF w st] dj_target_cases [OF id]
    by (auto simp: dj_complete_failure_def y dj_mark_job_failed_def dj_mark_failed_def already_finished_def)
qed

lemma dj_complete_success_accepted:
  assumes w: "wf_db d" and id: "h_job_id h \<in> job_ids d" and a: "dj_complete_success x h d = (d', Inr r)"
  shows "handle_open h d \<and> \<not> handle_open h d' \<and> safe d d'"
proof -
  obtain gen now out ver where x: "x = (gen, now, out, ver)" by (cases x)
  obtain ob d1 ob' where s: "dj_success_in now (Output out) (Some h) ob d = Inr (d1, ob')"
    and d': "d' = dj_release_quietly (gen mod 3) now (j_id (jo_fields ob)) (j_parent_job_id (jo_fields ob))
        (release_worker now (jo_fields ob') d1)"
    using a dj_target_cases [OF id]
    by (auto simp: dj_complete_success_def x dj_mark_job_success_def completion_target_def
        dj_mark_success_def already_finished_def split: sum.splits prod.splits)
  have "safe d1 d'"
    unfolding d' by (rule safe_trans [OF release_worker_safe dj_release_quietly_safe]) simp
  then show ?thesis
    using dj_success_in_fenced(2) [OF w s] dj_success_in_safe [OF s] closed_after_evolution [OF w]
      safe_trans by blast
qed

lemma dj_complete_failure_accepted:
  assumes w: "wf_db d" and id: "h_job_id h \<in> job_ids d" and a: "dj_complete_failure x h d = (d', Inr r)"
  shows "handle_open h d \<and> \<not> handle_open h d' \<and> safe d d'"
proof -
  obtain now e tb rs ver where x: "x = (now, (e, tb, rs), ver)" by (cases x) auto
  obtain ob d1 ob' todo where s: "dj_failed_in now e tb rs (Some h) False ob d = Inr (d1, ob')"
    and d': "d' = fst (fail_dependents now todo (release_worker now (jo_fields ob') d1))"
    using a dj_target_cases [OF id]
    by (auto simp: dj_complete_failure_def x dj_mark_job_failed_def dj_mark_failed_def already_finished_def Let_def
        split: sum.splits prod.splits) (metis fst_conv)
  have "safe d1 d'"
    unfolding d' by (rule safe_trans [OF release_worker_safe failing.fail_dependents_closed])
  then show ?thesis
    using dj_failed_in_fenced(2) [OF w s] dj_failed_in_safe [OF s] closed_after_evolution [OF w]
      safe_trans by blast
qed

interpretation dj_success: fenced_completion dj_complete_success
  by unfold_locales (use dj_complete_stale(1) dj_complete_success_accepted in blast)+

interpretation dj_failure: fenced_completion dj_complete_failure
  by unfold_locales (use dj_complete_stale(2) dj_complete_failure_accepted in blast)+

text \<open>Two ways to complete a job, from either integration: what one accepted the other rejects.\<close>

locale fenced_completions = one: fenced_completion complete1 + two: fenced_completion complete2
  for complete1 :: "'a \<Rightarrow> attempt_handle \<Rightarrow> db \<Rightarrow> db \<times> job option result"
  and complete2 :: "'b \<Rightarrow> attempt_handle \<Rightarrow> db \<Rightarrow> db \<times> job option result"
begin

lemma other_rejected:
  assumes "wf_db d" "h_job_id h \<in> job_ids d" "complete1 x h d = (d1, Inr r)"
    and "grows d1 d2" "wf_db d2" "h_job_id h \<in> job_ids d2"
  shows "complete2 y h d2 = (d2, Inl JobFencingError)"
proof (rule two.stale_rejected)
  have a: "handle_open h d" "\<not> handle_open h d1" "safe d d1" using one.accepted_closes assms by blast+
  have "h_id h < next_attempt d1"
    using handle_open_bound [OF assms(1) a(1)] a(3) assms(1)
    by (auto simp: safe_def evolves_def attempts_evolve_def)
  then show "\<not> handle_open h d2" using handle_closed_grows a(2) assms(4) by blast
qed (use assms in auto)

end

interpretation dj_then_standalone: fenced_completions dj_complete_success complete_success ..
interpretation standalone_then_dj: fenced_completions complete_success dj_complete_success ..
interpretation dj_then_dj: fenced_completions dj_complete_failure dj_complete_success ..

section \<open>Transactions of the Django side\<close>

text \<open>
  One committed transaction, with any arguments. A full \<^verbatim>\<open>save()\<close> is a step only if the row it writes is
  there (\<^const>\<open>keeps_row\<close>). The code does not check this (\<^verbatim>\<open>cleanup_dead_workers\<close> saves an object it has read
  before); \<open>stale_save_forks_job\<close> proves that such a save breaks the integrity of the tables, so the invariants
  below are about runs without it.
\<close>

inductive dj_step :: "db \<Rightarrow> db \<Rightarrow> bool" where
  dj_st_scan: "dj_scan env queues weights now n d = Inr (d', bl, r) \<Longrightarrow> dj_step d d'"
| dj_st_claim_id: "dj_claim_job_by_id env jid now d = (d', r) \<Longrightarrow> dj_step d d'"
| dj_st_claim: "claim_fenced env j now d = (d', r) \<Longrightarrow> dj_step d d'"
| dj_st_running: "dj_mark_running env held now j d = Inr (d', h) \<Longrightarrow> dj_step d d'"
| dj_st_block: "dj_block_in now j d = (d', b) \<Longrightarrow> dj_step d d'"
| dj_st_recheck: "slot \<in> set SLOTS \<Longrightarrow> dj_recheck_blocked slot now jid created_at d = Inr (d', rc) \<Longrightarrow>
    dj_step d d'"
| dj_st_success: "dj_success_in now out att ob d = Inr (d', ob') \<Longrightarrow> dj_step d d'"
| dj_st_failed: "dj_failed_in now error tb reason att idle ob d = Inr (d', ob') \<Longrightarrow> dj_step d d'"
| dj_st_workers: "dj_step d (d\<lparr>workers := w\<rparr>)"
| dj_st_settle: "is_terminal st \<Longrightarrow>
    dj_move now jid c st v None None (Some sts) False True d = Inr (d', ok) \<Longrightarrow> dj_step d d'"
| dj_st_zombie: "dj_fail_zombie_job now jid reason d = (d', r) \<Longrightarrow> dj_step d d'"
| dj_st_release: "slot \<in> set SLOTS \<Longrightarrow> dj_step d (dj_release_job slot now jid d)"
| dj_st_cancel: "dj_move now jid c Failed v None None (Some [Queued]) True True (dj_remove no_holder [jid] d) =
    Inr (d', True) \<Longrightarrow> dj_step d d'"
| dj_st_cancel_staged: "dj_step d (d\<lparr>staged := delete_where (\<lambda>s. sj_id s = jid) (staged d)\<rparr>)"
| dj_st_save: "slot \<in> set SLOTS \<Longrightarrow> keeps_row upd j d \<Longrightarrow>
    dj_save_row slot now upd relevant sw False ih j d = Inr (d', e) \<Longrightarrow> dj_step d d'"
| dj_st_update: "slot \<in> set SLOTS \<Longrightarrow> (\<And>j. j_id (f j) = j_id j) \<Longrightarrow>
    dj_update slot now sel st reason ed f d = (d', r) \<Longrightarrow> dj_step d d'"
| dj_st_fail_running: "slot \<in> set SLOTS \<Longrightarrow> (\<And>j. j_id (f j) = j_id j) \<Longrightarrow>
    dj_fail_running slot now sel reason f d = (d', r) \<Longrightarrow> dj_step d d'"
| dj_st_restore: "slot \<in> set SLOTS \<Longrightarrow> dj_step d (dj_add slot False js d)"
| dj_st_ghosts: "dj_step d (delete_entries es d)"
| dj_st_insert: "slot \<in> set SLOTS \<Longrightarrow> fresh_id (j_id j) d \<Longrightarrow> dj_step d (dj_insert_job slot j d)"
| dj_st_stage: "fresh_id (sj_id s) d \<Longrightarrow> dj_step d (d\<lparr>staged := staged d @ [s]\<rparr>)"
| dj_st_replace: "dj_step d (dj_replace_in name ids d)"
| dj_st_delete: "slot \<in> set SLOTS \<Longrightarrow> dj_step d (dj_delete slot now j d)"

lemma dj_mark_running_safe:
  assumes "dj_mark_running env held now j d = Inr (d', h)"
  shows "safe d d'"
proof -
  let ?d1 = "dj_remove (\<lambda>e. ce_pg env \<and> held e) [j_id j] d"
  have nr: "\<not> is_running ?d1 (j_id j)"
    using assms by (auto simp: dj_mark_running_def open_attempt_in_def is_running_def dj_remove_def filter_empty_conv
        split: if_splits option.splits)
  have "open_attempt (env\<lparr>ce_worker := j_worker_id j\<rparr>) (j_id j) now ?d1 = (d', h)"
    using assms by (simp add: dj_mark_running_def split: if_splits)
  from safe_trans [OF dj_remove_safe open_attempt_safe' [OF nr this]] show ?thesis .
qed

lemma dj_step_safe_or_delete:
  "dj_step d d' \<Longrightarrow> safe d d' \<or> (\<exists>name ids. d' = dj_replace_in name ids d) \<or>
     (\<exists>slot now j. slot \<in> set SLOTS \<and> d' = dj_delete slot now j d)"
proof (induction rule: dj_step.induct)
  case (dj_st_scan env queues weights now n d d' bl r)
  then show ?case using dj_scan_law [OF dj_st_scan] by (simp add: scan_law_def)
next
  case (dj_st_claim_id env jid now d d' r)
  then show ?case using dj_claim_job_by_id_law [OF dj_st_claim_id] by blast
next
  case (dj_st_claim env j now d d' r)
  then show ?case using dj_take_law [OF dj_st_claim [unfolded claim_fenced_def]] by blast
next
  case (dj_st_cancel now jid c v d d')
  then show ?case using safe_trans [OF dj_remove_safe dj_move_safe [OF dj_st_cancel]] by simp
next
  case (dj_st_save slot upd j d now relevant sw ih d' e)
  then show ?case using dj_save_row_safe by blast
next
  case (dj_st_update slot f now sel st reason ed d d' r)
  then show ?case using dj_update_safe by blast
next
  case (dj_st_fail_running slot f now sel reason d d' r)
  then show ?case using dj_fail_running_safe by blast
next
  case (dj_st_replace d name ids)
  then show ?case by blast
next
  case (dj_st_delete slot d now j)
  then show ?case by blast
qed (blast intro: dj_mark_running_safe dj_block_in_frame(2) dj_recheck_safe dj_success_in_safe
      dj_failed_in_safe workers_safe dj_move_safe dj_fail_zombie_safe dj_release_job_safe staged_delete_safe
      dj_add_safe delete_entries_safe dj_insert_job_safe stage_safe)+

lemma dj_step_law: "dj_step d d' \<Longrightarrow> wf_db d \<Longrightarrow> wf_db d' \<and> grows d d'"
  using dj_step_safe_or_delete dj_replace_in_law dj_delete_law evolves_grows unfolding safe_def by blast

section \<open>All sides\<close>

definition any_step :: "db \<Rightarrow> db \<Rightarrow> bool" where
  "any_step d d' \<longleftrightarrow> step d d' \<or> dj_step d d' \<or> as_step d d'"

lemma any_step_intros:
  "step d d' \<Longrightarrow> any_step d d'" "dj_step d d' \<Longrightarrow> any_step d d'" "as_step d d' \<Longrightarrow> any_step d d'"
  by (simp_all add: any_step_def)

lemma any_steps_law: "any_step\<^sup>*\<^sup>* d d' \<Longrightarrow> wf_db d \<Longrightarrow> wf_db d' \<and> grows d d'"
proof (induction rule: rtranclp_induct)
  case (step e f)
  have "wf_db f \<and> grows e f" if "as_step e f"
    using as_step_safe [OF that] step.IH step.prems evolves_grows by (auto simp: safe_def)
  then show ?case using step step_law dj_step_law grows_trans unfolding any_step_def by blast
qed simp

lemma steps_any: "step\<^sup>*\<^sup>* d d' \<Longrightarrow> any_step\<^sup>*\<^sup>* d d'"
  by (erule rtranclp_mono [THEN predicate2D, rotated]) (auto simp: any_step_def)

lemma any_reachable_wf: "any_step\<^sup>*\<^sup>* empty_db d \<Longrightarrow> wf_db d"
  using any_steps_law empty_wf by blast

section \<open>Retention\<close>

text \<open>
  The transactions of retention: a batch of \<^verbatim>\<open>_delete_history_batch\<close>, \<^verbatim>\<open>_prune_attempts_without_history\<close>, and
  on partitioned tables the drop of a partition of the history (a range of finish times) or of the attempts
  (a range of claim times, dropped only when none of its attempts is open).
\<close>

inductive rt_step :: "db \<Rightarrow> db \<Rightarrow> bool" where
  rt_batch: "rt_step d (fst (delete_history_batch ids F d))"
| rt_prune: "rt_step d (fst (prune_attempts_without_history n d))"
| rt_drop_history: "rt_step d
    (d\<lparr>history := delete_where (\<lambda>j. lo \<le> finish_time j \<and> finish_time j < hi) (history d)\<rparr>)"
| rt_drop_attempts: "\<forall>a\<in>set (attempts d). lo \<le> a_claimed_at a \<and> a_claimed_at a < hi \<longrightarrow> a_finished_at a \<noteq> None \<Longrightarrow>
    rt_step d (d\<lparr>attempts := delete_where (\<lambda>a. lo \<le> a_claimed_at a \<and> a_claimed_at a < hi) (attempts d)\<rparr>)"

lemma subseq_distinct: "subseq xs ys \<Longrightarrow> distinct ys \<Longrightarrow> distinct xs"
  by (induction rule: list_emb.induct) (auto dest: list_emb_set)

lemma subseq_keys: "subseq xs ys \<Longrightarrow> distinct (map f ys) \<Longrightarrow> distinct (map f xs)"
  using subseq_distinct subseq_map by blast

lemma delete_where_subseq: "subseq (delete_where P t) t"
  by (simp add: delete_where_def)

lemma keep_open:
  assumes "\<And>a. a \<in> set t \<Longrightarrow> P a \<Longrightarrow> a_finished_at a \<noteq> None"
  shows "filter (\<lambda>a. a_finished_at a = None) (delete_where P t) = filter (\<lambda>a. a_finished_at a = None) t"
  using assms by (induction t) auto

text \<open>Retention only removes rows: of the history, and finished attempts.\<close>

lemma rt_step_frame:
  "rt_step d d' \<Longrightarrow> wf_db d \<Longrightarrow>
     d' = d\<lparr>history := history d', attempts := attempts d'\<rparr> \<and>
     subseq (history d') (history d) \<and> subseq (attempts d') (attempts d) \<and>
     filter (\<lambda>a. a_finished_at a = None) (attempts d') = filter (\<lambda>a. a_finished_at a = None) (attempts d)"
proof (induction rule: rt_step.induct)
  case (rt_batch d ids F)
  have "filter (\<lambda>a. a_finished_at a = None) (delete_where (\<lambda>a. a_job_id a \<in> set ids \<and> a_finished_at a \<noteq> None) (attempts d)) =
      filter (\<lambda>a. a_finished_at a = None) (attempts d)"
    by (rule keep_open) simp
  then show ?case by (simp add: delete_history_batch_def Let_def delete_where_subseq)
next
  case (rt_prune d n)
  let ?ids = "take n (map a_id (filter (\<lambda>a. a_finished_at a \<noteq> None \<and>
      \<not> (\<exists>j\<in>set (job_all d). j_id j = a_job_id a)) (attempts d)))"
  have dis: "distinct (map a_id (attempts d))" using rt_prune by (simp add: wf_db_def wf_attempts_def)
  have "a_finished_at a \<noteq> None" if a: "a \<in> set (attempts d)" "a_id a \<in> set ?ids" for a
  proof -
    obtain b where b: "b \<in> set (attempts d)" "a_finished_at b \<noteq> None" "a_id b = a_id a"
      using set_take_subset [of n] a(2) by fastforce
    then have "b = a" using dis a(1) by (auto dest: distinct_key_unique)
    then show ?thesis using b(2) by simp
  qed
  then have "filter (\<lambda>a. a_finished_at a = None) (delete_where (\<lambda>a. a_id a \<in> set ?ids) (attempts d)) =
      filter (\<lambda>a. a_finished_at a = None) (attempts d)"
    by (intro keep_open) blast
  then show ?case by (simp add: prune_attempts_without_history_def Let_def delete_where_subseq)
next
  case (rt_drop_history d lo hi)
  show ?case by (simp add: delete_where_subseq)
next
  case (rt_drop_attempts d lo hi)
  then have "filter (\<lambda>a. a_finished_at a = None) (delete_where (\<lambda>a. lo \<le> a_claimed_at a \<and> a_claimed_at a < hi) (attempts d)) =
      filter (\<lambda>a. a_finished_at a = None) (attempts d)"
    by (intro keep_open) blast
  then show ?case by (simp add: delete_where_subseq)
qed

lemma open_rows:
  assumes "filter (\<lambda>a. a_finished_at a = None) t' = filter (\<lambda>a. a_finished_at a = None) t"
  shows "rowcount (open_for k) t' = rowcount (open_for k) t"
proof -
  have "rowcount (open_for k) u = length (filter (\<lambda>a. a_job_id a = k) (filter (\<lambda>a. a_finished_at a = None) u))" for u
    by (induction u) (auto simp: open_for_def)
  then show ?thesis by (simp only: assms)
qed

lemma rt_step_wf:
  assumes "rt_step d d'" "wf_db d"
  shows "wf_db d'"
proof -
  note f = rt_step_frame [OF assms]
  have eq: "live d' = live d" "ready d' = ready d" "staged d' = staged d" "next_attempt d' = next_attempt d"
    by (subst conjunct1 [OF f], simp)+
  have sub: "set (history d') \<subseteq> set (history d)" "set (attempts d') \<subseteq> set (attempts d)"
    using f by (auto dest: list_emb_set)
  have "subseq (map sj_id (staged d') @ map j_id (live d' @ history d')) (map sj_id (staged d) @ map j_id (live d @ history d))"
    unfolding eq map_append using f by (intro list_emb_append_mono subseq_order.refl subseq_map) simp
  then have "wf_jobs d'"
    using assms(2) sub(1) subseq_distinct unfolding wf_db_def wf_jobs_def by blast
  moreover have "distinct (map a_id (attempts d'))"
    using f assms(2) by (auto simp: wf_db_def wf_attempts_def intro: subseq_keys)
  moreover have "rowcount (open_for k) (attempts d') = rowcount (open_for k) (attempts d)" for k
    using f by (intro open_rows) simp
  ultimately have "wf_jobs d'" "wf_attempts d'" "wf_ready d'"
    using assms(2) sub(2) eq unfolding wf_db_def wf_attempts_def wf_ready_def by auto
  then show ?thesis by (simp add: wf_db_def)
qed

section \<open>All sides and retention\<close>

definition db_step :: "db \<Rightarrow> db \<Rightarrow> bool" where
  "db_step d d' \<longleftrightarrow> any_step d d' \<or> rt_step d d'"

text \<open>
  What survives retention as well: the sequence of attempt ids never goes back, and an attempt whose id was
  drawn before is the row it was, or a later version of it.
\<close>

definition persists :: "db \<Rightarrow> db \<Rightarrow> bool" where
  "persists d d' \<longleftrightarrow> next_attempt d \<le> next_attempt d' \<and>
     (\<forall>b\<in>set (attempts d'). (\<exists>a\<in>set (attempts d). att_le a b) \<or> next_attempt d \<le> a_id b)"

lemma persists_refl [simp]: "persists d d"
  by (auto simp: persists_def intro: att_le_refl)

lemma persists_trans: "persists d e \<Longrightarrow> persists e f \<Longrightarrow> persists d f"
  unfolding persists_def by (metis att_le_def att_le_trans order_trans)

lemma grows_persists: "grows d d' \<Longrightarrow> persists d d'"
  by (simp add: grows_def attempts_evolve_def persists_def)

lemma rt_step_persists:
  assumes "rt_step d d'" "wf_db d"
  shows "persists d d'"
proof -
  note f = rt_step_frame [OF assms]
  have "next_attempt d' = next_attempt d" by (subst conjunct1 [OF f]) simp
  moreover have "set (attempts d') \<subseteq> set (attempts d)" using f by (auto dest: list_emb_set)
  ultimately show ?thesis by (auto simp: persists_def intro: att_le_refl)
qed

lemma any_step_law:
  assumes "any_step d d'" "wf_db d"
  shows "wf_db d' \<and> grows d d'"
  using any_steps_law assms by blast

lemma db_step_law:
  assumes "db_step d d'" "wf_db d"
  shows "wf_db d' \<and> persists d d'"
  using assms any_step_law rt_step_wf rt_step_persists grows_persists unfolding db_step_def by blast

lemma db_steps_law: "db_step\<^sup>*\<^sup>* d d' \<Longrightarrow> wf_db d \<Longrightarrow> wf_db d' \<and> persists d d'"
proof (induction rule: rtranclp_induct)
  case (step e f)
  then show ?case using db_step_law persists_trans by blast
qed simp

lemma steps_db: "step\<^sup>*\<^sup>* d d' \<Longrightarrow> db_step\<^sup>*\<^sup>* d d'"
  by (erule rtranclp_mono [THEN predicate2D, rotated]) (auto simp: db_step_def any_step_def)

lemma db_reachable_wf: "db_step\<^sup>*\<^sup>* empty_db d \<Longrightarrow> wf_db d"
  using db_steps_law empty_wf by blast

lemma handle_closed_persists:
  assumes "\<not> handle_open h d" "persists d d'" "h_id h < next_attempt d"
  shows "\<not> handle_open h d'"
proof
  assume "handle_open h d'"
  then obtain b where b: "b \<in> set (attempts d')" "a_id b = h_id h" "a_token b = h_token h"
    "a_finished_at b = None" by (auto simp: handle_open_def)
  then obtain a where a: "a \<in> set (attempts d)" "att_le a b"
    using assms(2,3) by (fastforce simp: persists_def)
  then have "a_id a = h_id h" "a_token a = h_token h" using b by (simp_all add: att_le_def)
  then have "a_finished_at a \<noteq> None" using assms(1) a(1) by (auto simp: handle_open_def)
  then show False using a(2) b(4) by (auto simp: att_le_def)
qed

text \<open>A finished row, of the history or of the attempts, goes only in a retention transaction.\<close>

lemma removed_by_retention:
  assumes run: "db_step\<^sup>*\<^sup>* d d'" and w: "wf_db d" and x: "x \<in> rows d" "x \<notin> rows d'"
    and keep: "\<And>e f. any_step e f \<Longrightarrow> wf_db e \<Longrightarrow> x \<in> rows e \<Longrightarrow> x \<in> rows f"
  shows "\<exists>e f. db_step\<^sup>*\<^sup>* d e \<and> rt_step e f \<and> db_step\<^sup>*\<^sup>* f d' \<and> x \<in> rows e \<and> x \<notin> rows f"
  using run x(2)
proof (induction rule: rtranclp_induct)
  case base
  then show ?case using x(1) by blast
next
  case (step e f)
  have we: "wf_db e" using db_steps_law [OF step.hyps(1) w] by blast
  show ?case
  proof (cases "x \<in> rows e")
    case True
    then have "\<not> any_step e f" using keep we step.prems by blast
    then have "rt_step e f" using step.hyps(2) by (simp add: db_step_def)
    then show ?thesis using step.hyps(1) True step.prems by blast
  next
    case False
    then show ?thesis using step.IH step.hyps(2) rtranclp.rtrancl_into_rtrancl by metis
  qed
qed

text \<open>The transactions in which a job disappears, each with the jobs it takes.\<close>

lemma live_delete_ids:
  "k \<in> job_ids d \<Longrightarrow> k \<notin> job_ids (d\<lparr>live := delete_where P (live d)\<rparr>) \<Longrightarrow> \<exists>j\<in>set (live d). j_id j = k \<and> P j"
  by (auto simp: job_ids_def)

lemma remove_ids [simp]: "job_ids (dj_remove held ids d) = job_ids d" "live (dj_remove held ids d) = live d"
  by (simp_all add: dj_remove_def job_ids_def)

lemma dj_delete_lost:
  assumes "wf_db d" "slot \<in> set SLOTS" "k \<in> job_ids d" "k \<notin> job_ids (dj_delete slot now j d)"
  shows "k = j_id j"
proof -
  let ?d1 = "dj_remove no_holder [j_id j] d"
  let ?d2 = "?d1\<lparr>live := delete_where (\<lambda>r. j_id r = j_id j \<and> j_created_at r = j_created_at j) (live ?d1)\<rparr>"
  have "wf_db ?d1" using dj_remove_safe assms(1) by (simp add: safe_def)
  then have "wf_db ?d2"
    by (auto simp: wf_db_def wf_jobs_def wf_attempts_def wf_ready_def delete_where_def distinct_map_filter)
  moreover have "safe ?d2 (dj_delete slot now j d)"
    unfolding dj_delete_def Let_def by (rule dj_release_quietly_safe [OF assms(2)])
  ultimately have "job_ids ?d2 \<subseteq> job_ids (dj_delete slot now j d)" by (simp add: safe_def evolves_def)
  then have "k \<notin> job_ids ?d2" using assms(4) by blast
  moreover have "k \<in> job_ids ?d1" using assms(3) by simp
  ultimately show ?thesis using live_delete_ids [of k ?d1] by blast
qed

lemma replaced_lost:
  assumes "k \<in> job_ids d"
  shows "k \<notin> job_ids (replaced_by_name name d) \<Longrightarrow> \<exists>j\<in>set (live d). j_id j = k \<and> j_job_name j = Some name"
    and "k \<notin> job_ids (dj_replace_in name ids d) \<Longrightarrow> \<exists>j\<in>set (live d). j_id j = k \<and> j_job_name j = Some name"
  using assms live_delete_ids [OF assms]
  by (auto simp: replaced_by_name_def Let_def drop_entries_def job_ids_def dj_replace_in_def dj_remove_def)

lemma any_step_lost:
  assumes "any_step d d'" "wf_db d" "k \<in> job_ids d" "k \<notin> job_ids d'"
  shows "(\<exists>j\<in>set (live d). \<exists>name. j_id j = k \<and> j_job_name j = Some name \<and>
      (d' = replaced_by_name name d \<or> (\<exists>ids. d' = dj_replace_in name ids d))) \<or>
    (\<exists>slot now j. j_id j = k \<and> d' = dj_delete slot now j d)"
proof -
  have ns: "\<not> safe d d'" using assms(2-4) by (auto simp: safe_def evolves_def)
  then have "step d d' \<or> dj_step d d'" using assms(1) as_step_safe unfolding any_step_def by blast
  then consider name where "d' = replaced_by_name name d" | name ids where "d' = dj_replace_in name ids d"
    | slot now j where "slot \<in> set SLOTS" "d' = dj_delete slot now j d"
    using step_safe_or_replace dj_step_safe_or_delete ns by blast
  then show ?thesis
  proof cases
    case (1 name)
    then show ?thesis using replaced_lost(1) [OF assms(3)] assms(4) by blast
  next
    case (2 name ids)
    then show ?thesis using replaced_lost(2) [OF assms(3)] assms(4) by blast
  next
    case (3 slot now j)
    then show ?thesis using dj_delete_lost [OF assms(2) 3(1) assms(3)] assms(4) by blast
  qed
qed

lemma rt_step_lost:
  assumes "rt_step d d'" "wf_db d" "k \<in> job_ids d" "k \<notin> job_ids d'"
  shows "k \<in> j_id ` set (history d)"
proof -
  have "live d' = live d" by (subst conjunct1 [OF rt_step_frame [OF assms(1,2)]]) simp
  then show ?thesis using assms(3,4) by (auto simp: job_ids_def)
qed

text \<open>The job that a creation under a name puts in the place of the ones it replaces.\<close>

definition successor :: "string \<Rightarrow> job_id \<Rightarrow> db \<Rightarrow> bool" where
  "successor name k d \<longleftrightarrow>
     (\<exists>j\<in>set (live d). j_id j = k \<and> j_job_name j = Some name \<and> j_status j = Queued) \<or>
     (\<exists>r\<in>set (staged d). sj_id r = k \<and> j_job_name (promoted_job r) = Some name)"

lemma after_save_live: "live (dj_after_save slot j adding upd d) = live d"
  by (simp add: dj_after_save_def dj_add_def Let_def)

lemma created_successor:
  assumes "s_job_name s = Some name"
  shows "create_job partitioned threshold slot now k s d = (d', r) \<Longrightarrow> successor name k d'"
    and "dj_create_job partitioned threshold slot now k s d = (d', r) \<Longrightarrow> successor name k d'"
proof -
  have q: "j_id (queued_job k now s) = k" "j_job_name (queued_job k now s) = Some name"
    "j_status (queued_job k now s) = Queued"
    using assms by (simp_all add: queued_job_def)
  have st: "sj_id (staging_row k now t s) = k" "j_job_name (promoted_job (staging_row k now t s)) = Some name" for t
    using assms by (simp_all add: staging_row_def promoted_job_def promoted_spec_def)
  show "create_job partitioned threshold slot now k s d = (d', r) \<Longrightarrow> successor name k d'"
    using q st by (auto simp: create_job_def Let_def successor_def add_job_def split: if_splits)
  show "dj_create_job partitioned threshold slot now k s d = (d', r) \<Longrightarrow> successor name k d'"
    using q st by (auto simp: dj_create_job_def Let_def successor_def dj_insert_job_def after_save_live split: if_splits)
qed

text \<open>After an accepted completion the attempt stays closed, whatever any side does.\<close>

lemma accepted_closed_forever:
  assumes w: "wf_db d" and a: "handle_open h d \<and> \<not> handle_open h d1 \<and> safe d d1" and s: "db_step\<^sup>*\<^sup>* d1 d2"
  shows "wf_db d2 \<and> \<not> handle_open h d2"
proof -
  have "h_id h < next_attempt d" using handle_open_bound [OF w] a by blast
  then have "h_id h < next_attempt d1" using a w by (auto simp: safe_def evolves_def attempts_evolve_def)
  moreover have "wf_db d1" using a w by (simp add: safe_def)
  ultimately show ?thesis using db_steps_law [OF s] handle_closed_persists a by blast
qed

context fenced_completion
begin

lemma accepted_stays_closed:
  assumes "wf_db d" "h_job_id h \<in> job_ids d" "complete x h d = (d1, Inr r)" "db_step\<^sup>*\<^sup>* d1 d2"
  shows "wf_db d2 \<and> \<not> handle_open h d2"
  using accepted_closed_forever [OF assms(1) accepted_closes [OF assms(1-3)] assms(4)] .

end

lemma claims_attempt:
  assumes "claims dm h d1"
  shows "\<exists>a\<in>set (attempts d1). a_id a = h_id h \<and> a_job_id a = h_job_id h"
  using assms by (auto simp: claims_def)

text \<open>While a handle's attempt is open its job is running, also after retention.\<close>

lemma persisting_handle_running:
  assumes w: "wf_db d1" and c: "a \<in> set (attempts d1)" "a_id a = h_id h" "a_job_id a = h_job_id h"
    and g: "persists d1 d2" and o: "handle_open h d2"
  shows "is_running d2 (h_job_id h)"
proof -
  obtain b where b: "b \<in> set (attempts d2)" "a_id b = h_id h" "a_finished_at b = None"
    using o by (auto simp: handle_open_def)
  have "a_id a < next_attempt d1" using w c(1) by (simp add: wf_db_def wf_attempts_def)
  then obtain a' where a': "a' \<in> set (attempts d1)" "att_le a' b"
    using g b c(2) by (fastforce simp: persists_def)
  then have "a' = a"
    using w c b(2) by (auto simp: wf_db_def wf_attempts_def att_le_def dest: distinct_key_unique)
  then have "a_job_id b = h_job_id h" using a'(2) c(3) by (simp add: att_le_def)
  then show ?thesis using b by (auto simp: is_running_def open_for_def)
qed

text \<open>After a claim of any path, the job is running for as long as the handle is open.\<close>

context claim_path
begin

lemma claimed_while_open:
  assumes w: "wf_db d" and c: "claim x d = Inr (d1, Some h)" and s: "db_step\<^sup>*\<^sup>* d1 d2" and o: "handle_open h d2"
  shows "wf_db d2 \<and> is_running d2 (h_job_id h)"
proof -
  obtain dm where "claims dm h d1" using claim_opens [OF w c] by blast
  then obtain a where a: "a \<in> set (attempts d1)" "a_id a = h_id h" "a_job_id a = h_job_id h"
    using claims_attempt by blast
  have w1: "wf_db d1" using claim_safe [OF c] w by (simp add: safe_def)
  from db_steps_law [OF s w1] have g: "wf_db d2" "persists d1 d2" by auto
  then show ?thesis using persisting_handle_running [OF w1 a g(2) o] by blast
qed

end

end
