(* ===== verification/Sq_Django_Props.thy ===== *)
theory Sq_Django_Props
  imports Sq_Django_System
begin

text \<open>
  Properties of the Django integration: the record a success leaves is the one the standalone backend
  leaves, what \<^verbatim>\<open>show_running\<close> puts on an object is never saved, and three places where the code does
  something else than it means to.
\<close>

section \<open>The record of a success\<close>









abbreviation sample_attempt :: attempt where
  "sample_attempt \<equiv> new_attempt 1 7 ''tok'' (Some ''w1'') 42 200"



section \<open>What is shown is not saved\<close>

text \<open>However often an object was shown running and whatever other columns its owner then changed, saving
  it writes the stored status, start time and worker columns: the row is the stored row with just the
  owner's change.\<close>

theorem shown_values_not_saved:
  assumes keeps: "\<And>j. derived_of (g j) = derived_of j"
    and commutes: "\<And>c j. g (put_derived c j) = put_derived c (g j)"
  shows "row_to_save ((fold show_running atts (loaded j))
    \<lparr>jo_fields := g (jo_fields (fold show_running atts (loaded j)))\<rparr>) = g j"
proof -
  define inv where "inv ob \<longleftrightarrow> ob = loaded j \<or>
      (jo_stored ob = Some (derived_of j) \<and> jo_shown ob = Some (derived_of (jo_fields ob)) \<and>
       (\<exists>c. jo_fields ob = put_derived c j))" for ob
  have one: "inv (show_running att ob)" if "inv ob" for att ob
  proof (cases att)
    case (Some a)
    have ov: "overlay_running (Some a) x = put_derived
        \<lparr>dc_status = Running, dc_started_at = Some (a_claimed_at a), dc_worker_id = a_worker_id a,
         dc_worker_pid = a_worker_pid a, dc_child_pid = a_child_pid a\<rparr> x" for x
      by (simp add: overlay_running_def put_derived_def)
    have pp: "put_derived c (put_derived c' x) = put_derived c x" for c c' x by (simp add: put_derived_def)
    show ?thesis using that by (auto simp: inv_def show_running_def Some ov pp loaded_def Let_def)
  qed (use that in \<open>simp add: show_running_def\<close>)
  have "inv (fold show_running atts ob)" if "inv ob" for ob
    using that by (induction atts arbitrary: ob) (simp_all add: one)
  then have i: "inv (fold show_running atts (loaded j))" by (simp add: inv_def)
  have un: "unshown s (derived_of x) x = put_derived s x" for s x
    by (simp add: unshown_def derived_of_def put_derived_def)
  have back_to: "put_derived (derived_of j) (g (put_derived c j)) = g j" for c
  proof -
    have "put_derived (derived_of (g j)) (put_derived c (g j)) = g j" by (simp add: put_derived_def derived_of_def)
    then show ?thesis by (simp only: commutes keeps)
  qed
  from i show ?thesis
  proof (unfold inv_def, elim disjE conjE exE)
    fix c
    assume s: "jo_stored (fold show_running atts (loaded j)) = Some (derived_of j)"
      "jo_shown (fold show_running atts (loaded j)) = Some (derived_of (jo_fields (fold show_running atts (loaded j))))"
      "jo_fields (fold show_running atts (loaded j)) = put_derived c j"
    have "derived_of (put_derived c j) = derived_of (g (put_derived c j))" by (simp only: keeps)
    then show ?thesis using s by (simp add: row_to_save_def un back_to)
  qed (simp add: row_to_save_def loaded_def)
qed

theorem shown_values_not_saved_witness:
  "row_to_save ((fold show_running [Some sample_attempt] (loaded sample_job))
     \<lparr>jo_fields := (\<lambda>j. j\<lparr>j_error := ''slow''\<rparr>)
        (jo_fields (fold show_running [Some sample_attempt] (loaded sample_job)))\<rparr>) =
   sample_job\<lparr>j_error := ''slow''\<rparr>"
  by (rule shown_values_not_saved) (simp_all add: derived_of_def put_derived_def)

section \<open>Where the code does something else\<close>

text \<open>
  The object that \<^verbatim>\<open>cleanup_dead_workers\<close> of \<^verbatim>\<open>worker_registry.py\<close> holds of the running sample job when it is
  about to save it as failed.
\<close>

definition stale_object :: job_object where
  "stale_object =
     (let ob = show_running (Some sample_attempt) (loaded sample_job)
      in ob\<lparr>jo_fields := (jo_fields ob)\<lparr>j_status := Failed, j_error := ''Worker died'', j_finished_at := Some 500\<rparr>\<rparr>)"

definition after_success :: db where
  "after_success = fst (dj_mark_job_success 0 300 None 7 (Output ''ok'') (Some 0) (Some sample_handle) sample_running)"

lemma history_row_fields:
  "j_id (history_row d now st no_values j) = j_id j" "j_status (history_row d now st no_values j) = st"
  "j_finished_at (history_row d now st no_values j) = coalesce (j_finished_at j) (Some now)"
  by (simp_all add: history_row_def set_ran_def set_values_def no_values_def Let_def split: option.splits)

text \<open>C22: a save that comes too late forks the job. When an object of a job is saved whole with a final status
  (as \<^verbatim>\<open>cleanup_dead_workers\<close> does with a running job it has read before) and the job has been finished in the
  meantime, its row is gone; the ORM then inserts the row again and the save moves it to the history a second
  time: the earlier record stays, a second one with the same id and the late status follows it, and the
  integrity of the tables is lost (the two finish times differ, or the primary key of the history would
  refuse the row).\<close>

theorem stale_save_forks_job:
  assumes w: "wf_db d" and r: "r \<in> set (history d)" "j_id r = j_id j"
    and t: "is_terminal (j_status j)" "\<not> is_retry_pending (Some (j_termination_reason j))"
    and fin: "j_finished_at j = Some fin" "j_finished_at r \<noteq> Some fin"
  shows "\<exists>d' row. dj_save_row slot now None relevant True False False j d = Inr (d', save_end.Finished True) \<and>
    history d' = history d @ [row] \<and> j_id row = j_id r \<and> j_status row = j_status j \<and> live d' = live d \<and> \<not> wf_db d'"
proof -
  let ?d0 = "dj_remove no_holder [j_id j] d"
  define d1 where "d1 = ?d0\<lparr>live := live d @ [j]\<rparr>"
  let ?W = "move_where d1 (j_id j) \<lparr>fe_created_at = Some (j_created_at j), fe_version = None, fe_status = None, fe_idle = False\<rparr>"
  let ?row = "history_row d1 now (j_status j) no_values j"
  have frame: "live ?d0 = live d" "live d1 = live d @ [j]" "history d1 = history d" by (simp_all add: dj_remove_def d1_def)
  have "j_id ` set (live d) \<inter> j_id ` set (history d) = {}" using w by (simp add: wf_db_def wf_jobs_def)
  then have gone: "j_id x \<noteq> j_id j" if "x \<in> set (live d)" for x
    using r that by (metis disjoint_iff imageI)
  have W: "filter ?W (live d) = []" "?W j" using gone by (auto simp: move_where_def filter_empty_conv)
  have "rowcount (\<lambda>x. j_id x = j_id j \<and> j_created_at x = j_created_at j) (live d) = 0"
    using gone by (auto simp: rowcount_def filter_empty_conv)
  moreover have "j_status j \<noteq> Queued" using t(1) by auto
  ultimately have save: "orm_save None False j (fst (dj_before_save j d)) = Inr d1"
    by (simp add: orm_save_def dj_before_save_def frame(1) d1_def)
  have rows: "filter ?W (live d1) = [j]" "delete_where ?W (live d1) = live d" "rowcount ?W (live d1) = 1"
    using W gone by (auto simp: rowcount_def delete_where_def filter_id_conv move_where_def frame(2))
  have ids: "distinct (map j_id (history d))" using w by (simp add: wf_db_def wf_jobs_def)
  have only: "x = r" if "x \<in> set (history d)" "j_id x = j_id j" for x
    using distinct_key_unique [OF ids that(1) r(1)] that(2) r(2) by simp
  have "history_key ?row \<notin> history_key ` set (history d)"
    using only fin by (auto simp: history_key_def history_row_fields coalesce_def)
  moreover have "distinct (map history_key (history d))"
    using ids by (auto simp: distinct_map inj_on_def history_key_def)
  ultimately have keys: "distinct (map history_key (history d @ [?row]))" by simp
  let ?d2 = "d1\<lparr>history := history d @ [?row], live := live d\<rparr>"
  let ?d3 = "fst (dj_close_open now (j_id j) (if j_status j = Success then Outcome_success else Outcome_abandoned) ?d2)"
  have "dj_move now (j_id j) (j_created_at j) (j_status j) no_values None None None False True d1 = Inr (?d3, True)"
    unfolding dj_move_def Let_def rows(1) using rows(2,3) keys by (simp add: columns_row_def frame(3))
  then have "dj_save_row slot now None relevant True False False j d = Inr (?d3, save_end.Finished True)"
    using t save by (simp add: dj_save_row_def dj_save_terminal_def)
  moreover have "history ?d3 = history d @ [?row]" "live ?d3 = live d" by (simp_all add: dj_close_open_def Let_def)
  moreover have "j_id ?row = j_id r" "j_status ?row = j_status j" using r(2) by (simp_all add: history_row_fields)
  moreover have "\<not> wf_db ?d3"
    using calculation(2,4) r(1) by (auto simp: wf_db_def wf_jobs_def)
  ultimately show ?thesis by blast
qed

theorem stale_save_forks_job_witness:
  "\<exists>d' row. dj_save_row 0 500 None True True False False (row_to_save stale_object) after_success = Inr (d', save_end.Finished True) \<and>
     history d' = history after_success @ [row] \<and> map j_status (history d') = [Success, Failed]"
proof -
  have "safe sample_running after_success"
    unfolding after_success_def
    by (rule dj_mark_job_success_safe [OF prod.collapse [symmetric]]) (simp add: SLOTS_def)
  then have w: "wf_db after_success" using reachable_wf [OF sample_running_reachable] by (simp add: safe_def)
  have ev: "map (\<lambda>r. (j_id r, j_status r, j_finished_at r)) (history after_success) = [(7, Success, Some 300)]"
    "j_id (row_to_save stale_object) = 7" "is_terminal (j_status (row_to_save stale_object))"
    "\<not> is_retry_pending (Some (j_termination_reason (row_to_save stale_object)))"
    "j_finished_at (row_to_save stale_object) = Some 500" "j_status (row_to_save stale_object) = Failed"
    by code_simp+
  then obtain r where r: "history after_success = [r]" "j_id r = 7" "j_status r = Success" "j_finished_at r = Some 300"
    by auto
  from stale_save_forks_job [OF w, of r "row_to_save stale_object" 500 0 500 True] r ev show ?thesis by fastforce
qed

definition dependent_job :: job where
  "dependent_job = (queued_job 8 150 sample_spec)\<lparr>j_dependencies := [JInt 7]\<rparr>"

definition with_dependent :: db where
  "with_dependent = sample_running
     \<lparr>live := [sample_job, dependent_job],
      blocked := [\<lparr>b_job_id = 8, b_dependency_id = 7, b_created_at = 150, b_blocked_at = 160\<rparr>]\<rparr>"

text \<open>A failure that owes a retry. Recorded through the standalone backend it leaves the jobs that depend
  on the failed job waiting for the retry; recorded through the Django backend it fails them for good
  at once, although the retry may succeed.\<close>

theorem django_retry_fails_dependents:
  "(case mark_job_failed 0 300 with_dependent 7 ''boom'' [] (Some 0) (pending_reason ''exception'')
           (Some sample_handle) with_dependent of
      (d1, Inr _) \<Rightarrow> map j_id (live d1) = [7, 8] \<and> history d1 = []
    | _ \<Rightarrow> False) \<and>
   (case dj_mark_job_failed 300 7 ''boom'' [] (Some 0) (pending_reason ''exception'') (Some sample_handle)
           with_dependent of
      (d2, Inr _) \<Rightarrow> map j_id (live d2) = [7] \<and>
        map (\<lambda>j. (j_id j, j_status j, j_termination_reason j)) (history d2) = [(8, Failed, ''dependency_failed'')]
    | _ \<Rightarrow> False)"
  by code_simp

text \<open>Ten ready entries that other writers left behind, in front of the entry of a waiting job.\<close>

definition stale_entries :: "ready_entry list" where
  "stale_entries = map (\<lambda>k. \<lparr>r_slot = 0, r_job_id = k, r_queue_name = ''default'', r_priority = 5,
     r_created_at = k, r_scheduled_at = None\<rparr>) [11,12,13,14,15,16,17,18,19,20]"

definition stale_queue :: db where
  "stale_queue = sample_db\<lparr>ready := stale_entries @ ready sample_db\<rparr>"

text \<open>C23: a page of stale entries ends the scan. The Django claim reads its candidates one page at a time; when
  every entry of the first page is stale (its job is gone, no longer queued, or running), the scan drops
  those entries and returns nothing, however many runnable jobs wait behind the page: every other entry is
  still there, unexamined, and only the next claim comes to it.\<close>

theorem stale_page_hides_work:
  assumes x: "expire_ttl_jobs now d = Inr (d0, m)"
    and stale: "\<forall>e\<in>set (candidate_entries env queues weights now limit [] d0). entry_stale d0 e"
  shows "\<exists>d1. dj_scan env queues weights now limit d = Inr (d1, [], None) \<and>
    ready d1 = filter (\<lambda>e. \<not> (r_slot e \<in> set SLOTS \<and>
      r_job_id e \<in> r_job_id ` set (candidate_entries env queues weights now limit [] d0))) (ready d0)"
proof -
  let ?es = "candidate_entries env queues weights now limit [] d0"
  have "List.map_filter (\<lambda>e. if entry_stale d0 e then None else map_option (\<lambda>j. (j, r_slot e)) (job_under_entry e d0)) ?es = []"
    using stale by (auto simp: List.map_filter_def filter_empty_conv)
  moreover have "filter (entry_stale d0) ?es = ?es" using stale by (simp add: filter_id_conv)
  ultimately have g: "dj_get_claimable_jobs env queues weights now limit [] d0 =
      (if ?es = [] then d0 else dj_remove no_holder (map r_job_id ?es) d0, [])"
    by (simp add: dj_get_claimable_jobs_def Let_def)
  then have "dj_scan env queues weights now limit d =
      Inr (if ?es = [] then d0 else dj_remove no_holder (map r_job_id ?es) d0, [], None)"
    using x by (simp add: dj_scan_def claim_pages.simps [of env queues weights now limit])
  moreover have "ready (if ?es = [] then d0 else dj_remove no_holder (map r_job_id ?es) d0) =
      filter (\<lambda>e. \<not> (r_slot e \<in> set SLOTS \<and> r_job_id e \<in> r_job_id ` set ?es)) (ready d0)"
    by (simp add: dj_remove_def delete_where_def)
  ultimately show ?thesis by blast
qed

theorem stale_page_hides_work_witness:
  "\<exists>d1. dj_scan (sample_env\<lparr>ce_worker := None\<rparr>) [''default''] [] 200 10 stale_queue = Inr (d1, [], None) \<and>
     ready d1 = ready sample_db \<and>
     (\<exists>d2 h. dj_scan_claim (sample_env\<lparr>ce_worker := None\<rparr>, [''default''], [], 200, 10) d1 = Inr (d2, Some h) \<and> h_job_id h = 7)"
proof -
  let ?env = "sample_env\<lparr>ce_worker := None\<rparr>"
  have ev: "expire_ttl_jobs 200 stale_queue = Inr (stale_queue, 0)"
    "list_all (entry_stale stale_queue) (candidate_entries ?env [''default''] [] 200 10 [] stale_queue)"
    "filter (\<lambda>e. \<not> (r_slot e \<in> set SLOTS \<and>
      r_job_id e \<in> r_job_id ` set (candidate_entries ?env [''default''] [] 200 10 [] stale_queue))) (ready stale_queue) = ready sample_db"
    by code_simp+
  have again: "case dj_scan_claim (?env, [''default''], [], 200, 10) stale_queue of
      Inr (d1, None) \<Rightarrow> (case dj_scan_claim (?env, [''default''], [], 200, 10) d1 of
           Inr (_, Some h) \<Rightarrow> h_job_id h = 7 | _ \<Rightarrow> False) | _ \<Rightarrow> False" by code_simp
  obtain d1 where d1: "dj_scan ?env [''default''] [] 200 10 stale_queue = Inr (d1, [], None)" "ready d1 = ready sample_db"
    using stale_page_hides_work [OF ev(1), of ?env "[''default'']" "[]" 10] ev(2,3) by (auto simp: list_all_iff)
  moreover have "dj_scan_claim (?env, [''default''], [], 200, 10) stale_queue = Inr (d1, None)"
    using d1(1) by (simp add: dj_scan_claim_def)
  ultimately show ?thesis using again by (auto split: sum.splits option.splits)
qed

end
