(* ===== verification/Sq_Partition.thy ===== *)
theory Sq_Partition
  imports Sq_Crontab Sq_Utils "HOL-Library.Multiset"
begin

text \<open>
  Maintenance of the time-partitioned PostgreSQL tables (\<^verbatim>\<open>core/partitioning.py\<close> and
  \<^verbatim>\<open>ensure_partitions\<close> / \<^verbatim>\<open>reclaim_partitions\<close> of \<^verbatim>\<open>core/history.py\<close>): the walk that creates the partitions of
  the live table ahead of time, the creation for the other tables, the two reclaim passes and the
  check of the DEFAULT partition.

  A partitioned table is the list of its partitions, each with its name, its range (none for the
  DEFAULT partition) and its rows; a row is its partition-key timestamp and the rest of its columns.
  The text form of the bounds (\<^verbatim>\<open>pg_get_expr\<close>) is not modelled. The DDL statements behave as PostgreSQL
  documents them: \<^verbatim>\<open>CREATE TABLE IF NOT EXISTS .. PARTITION OF\<close> does nothing if the name is taken, refuses an
  empty or overlapping range, and refuses a range for which the DEFAULT partition holds rows.
\<close>

section \<open>Partitioned tables\<close>

type_synonym 'a prow = "timestamp \<times> 'a"

record 'a partition =
  p_name :: string
  p_range :: "(timestamp \<times> timestamp) option"
  p_rows :: "'a prow list"

type_synonym 'a catalog = "'a partition list"

definition in_range :: "timestamp \<Rightarrow> timestamp \<times> timestamp \<Rightarrow> bool" where
  "in_range t r \<longleftrightarrow> fst r \<le> t \<and> t < snd r"

definition covers :: "'a partition \<Rightarrow> timestamp \<Rightarrow> bool" where
  "covers p t \<longleftrightarrow> (case p_range p of None \<Rightarrow> False | Some r \<Rightarrow> in_range t r)"

definition overlaps :: "timestamp \<times> timestamp \<Rightarrow> timestamp \<times> timestamp \<Rightarrow> bool" where
  "overlaps r s \<longleftrightarrow> fst r < snd s \<and> fst s < snd r"

definition part_ranges :: "'a catalog \<Rightarrow> (timestamp \<times> timestamp) list" where
  "part_ranges cat = List.map_filter p_range cat"

definition all_rows :: "'a catalog \<Rightarrow> 'a prow list" where
  "all_rows cat = concat (map p_rows cat)"

definition default_rows :: "'a catalog \<Rightarrow> 'a prow list" where
  "default_rows cat = all_rows (filter (\<lambda>p. p_range p = None) cat)"

text \<open>An \<^verbatim>\<open>INSERT\<close> goes to the partition whose range holds the key, else to the DEFAULT partition.\<close>

definition part_for :: "timestamp \<Rightarrow> 'a catalog \<Rightarrow> 'a partition option" where
  "part_for t cat =
     (case find (\<lambda>p. covers p t) cat of
        Some p \<Rightarrow> Some p
      | None \<Rightarrow> find (\<lambda>p. p_range p = None) cat)"

definition insert_row :: "'a prow \<Rightarrow> 'a catalog \<Rightarrow> 'a catalog" where
  "insert_row r cat =
     (case part_for (fst r) cat of
        None \<Rightarrow> cat
      | Some q \<Rightarrow> map (\<lambda>p. if p_name p = p_name q then p\<lparr>p_rows := p_rows p @ [r]\<rparr> else p) cat)"

definition insert_rows :: "'a prow list \<Rightarrow> 'a catalog \<Rightarrow> 'a catalog" where
  "insert_rows rs cat = fold insert_row rs cat"

definition create_partition ::
  "string \<Rightarrow> timestamp \<Rightarrow> timestamp \<Rightarrow> 'a catalog \<Rightarrow> 'a catalog result" where
  "create_partition name lo hi cat =
     (if name \<in> p_name ` set cat then Inr cat
      else if lo \<ge> hi \<or> list_ex (overlaps (lo, hi)) (part_ranges cat) then Inl DatabaseError
      else if list_ex (\<lambda>r. in_range (fst r) (lo, hi)) (default_rows cat) then Inl IntegrityError
      else Inr (cat @ [\<lparr>p_name = name, p_range = Some (lo, hi), p_rows = []\<rparr>]))"

definition drop_partition :: "string \<Rightarrow> 'a catalog \<Rightarrow> 'a catalog" where
  "drop_partition name cat = filter (\<lambda>p. p_name p \<noteq> name) cat"

section \<open>Intervals and names\<close>

text \<open>
  \<^verbatim>\<open>parse_interval\<close>: blanks, a decimal number, blanks, a unit with an optional plural s, blanks, in any
  case of letters.
\<close>

definition INTERVAL_UNIT_SECONDS :: "(string \<times> int) list" where
  "INTERVAL_UNIT_SECONDS =
     [(''second'', 1), (''sec'', 1), (''minute'', 60), (''min'', 60), (''hour'', 3600),
      (''day'', 86400), (''week'', 604800)]"

definition interval_unit :: "string \<Rightarrow> int option" where
  "interval_unit s =
     map_option snd (find (\<lambda>(u, _). s = u \<or> s = u @ ''s'') INTERVAL_UNIT_SECONDS)"

definition interval_number :: "string \<Rightarrow> (rat \<times> string) option" where
  "interval_number s =
     (let whole = takeWhile is_digit s; rest = dropWhile is_digit s;
          base = rat_of_int (int (nat_of_digits whole))
      in if whole = [] then None
         else case rest of
                c # rest' \<Rightarrow>
                  (let fraction = takeWhile is_digit rest'
                   in if c = CHR ''.'' \<and> fraction \<noteq> []
                      then Some (base + rat_of_int (int (nat_of_digits fraction)) / 10 ^ length fraction,
                                 dropWhile is_digit rest')
                      else Some (base, rest))
              | [] \<Rightarrow> Some (base, []))"

definition parse_interval :: "string option \<Rightarrow> int option result" where
  "parse_interval value =
     (case value of
        None \<Rightarrow> Inr None
      | Some s \<Rightarrow>
          (case interval_number (dropWhile is_space s) of
             None \<Rightarrow> Inr None
           | Some (number, rest) \<Rightarrow>
               (case interval_unit (lower (py_strip rest)) of
                  None \<Rightarrow> Inr None
                | Some unit \<Rightarrow>
                    (let secs = number * rat_of_int unit
                     in if secs \<le> 0 then Inr None
                        else if timedelta_us secs > seconds (timedelta_max_seconds + 1) - 1 then Inl OverflowError
                        else Inr (Some (timedelta_us secs))))))"

definition DEFAULT_LIVE_PARTITION_INTERVAL :: string where
  "DEFAULT_LIVE_PARTITION_INTERVAL = ''1 hour''"

definition DEFAULT_LIVE_PARTITION_GRACE :: string where
  "DEFAULT_LIVE_PARTITION_GRACE = ''1 hour''"

definition MIN_LIVE_PARTITION_GRACE_SECONDS :: int where
  "MIN_LIVE_PARTITION_GRACE_SECONDS = 60"

definition LIVE_LOOKAHEAD :: string where
  "LIVE_LOOKAHEAD = ''1 day''"

definition day_us :: int where
  "day_us = seconds 86400"

text \<open>\<^verbatim>\<open>strftime\<close> with \<^verbatim>\<open>%Y%m%d\<close> or \<^verbatim>\<open>%Y%m%d_%H%M\<close> in UTC.\<close>

datatype suffix_fmt = By_day | By_minute

definition two_digits :: "int \<Rightarrow> string" where
  "two_digits n = [digit_char (nat n div 10), digit_char (nat n)]"

definition day_suffix :: "timestamp \<Rightarrow> string" where
  "day_suffix t =
     (case date_of t of (y, m, d) \<Rightarrow> show_int y @ two_digits m @ two_digits d)"

definition part_suffix :: "suffix_fmt \<Rightarrow> timestamp \<Rightarrow> string" where
  "part_suffix fmt t =
     (case fmt of
        By_day \<Rightarrow> day_suffix t
      | By_minute \<Rightarrow> day_suffix t @ ''_'' @ two_digits (hour_of t) @ two_digits (minute_of t))"

definition partition_name :: "suffix_fmt \<Rightarrow> string \<Rightarrow> timestamp \<Rightarrow> string" where
  "partition_name fmt table t = table @ ''_'' @ part_suffix fmt t"

section \<open>Creating partitions of the live table\<close>

text \<open>
  The loop of \<^verbatim>\<open>ensure_live_partitions\<close>: \<open>fuel\<close> is the remaining part of its 10 000 iterations,
  \<open>until\<close> the time up to which the table has to be covered. An attach conflict is logged; any other
  error of the statement leaves the function. The first component is that error.
\<close>

definition add_time :: "timestamp \<Rightarrow> int \<Rightarrow> timestamp result" where
  "add_time t d = (if representable (t + d) then Inr (t + d) else Inl OverflowError)"

definition next_start :: "(timestamp \<times> timestamp) list \<Rightarrow> timestamp \<Rightarrow> timestamp option" where
  "next_start existing cursor =
     (case filter (\<lambda>lo. lo > cursor) (map fst existing) of
        [] \<Rightarrow> None | lo # los \<Rightarrow> Some (fold min los lo))"

definition clip :: "(timestamp \<times> timestamp) list \<Rightarrow> timestamp \<Rightarrow> timestamp \<Rightarrow> timestamp" where
  "clip existing cursor hi =
     (case next_start existing cursor of
        Some lo \<Rightarrow> if lo < hi then lo else hi
      | None \<Rightarrow> hi)"

fun live_walk ::
  "nat \<Rightarrow> string \<Rightarrow> suffix_fmt \<Rightarrow> int \<Rightarrow> timestamp \<Rightarrow> timestamp \<Rightarrow> (timestamp \<times> timestamp) list \<Rightarrow> nat \<Rightarrow>
   'a catalog \<Rightarrow> py_error option \<times> nat \<times> 'a catalog" where
  "live_walk 0 table fmt width until cursor existing created cat = (None, created, cat)"
| "live_walk (Suc fuel) table fmt width until cursor existing created cat =
     (if cursor \<ge> until then (None, created, cat)
      else case find (in_range cursor) existing of
        Some r \<Rightarrow> live_walk fuel table fmt width until (snd r) existing created cat
      | None \<Rightarrow>
          (case add_time cursor width of
             Inl e \<Rightarrow> (Some e, created, cat)
           | Inr hi0 \<Rightarrow>
               (let hi = clip existing cursor hi0;
                    existing' = sort (existing @ [(cursor, hi)])
                in case create_partition (partition_name fmt table cursor) cursor hi cat of
                     Inr cat' \<Rightarrow>
                       live_walk fuel table fmt width until hi existing' (created + 1) cat'
                   | Inl e \<Rightarrow>
                       if e = IntegrityError
                       then live_walk fuel table fmt width until hi existing' created cat
                       else (Some e, created, cat))))"

definition MAX_LIVE_STEPS :: nat where
  "MAX_LIVE_STEPS = 10000"

text \<open>The interval that is used: the configured one, unless it is invalid or below one minute.\<close>

definition live_width :: "string option \<Rightarrow> int result" where
  "live_width interval_str =
     (let chosen = (case interval_str of
                      None \<Rightarrow> DEFAULT_LIVE_PARTITION_INTERVAL
                    | Some s \<Rightarrow> if s = [] then DEFAULT_LIVE_PARTITION_INTERVAL else s)
      in case parse_interval (Some chosen) of
           Inl e \<Rightarrow> Inl e
         | Inr (Some w) \<Rightarrow> if w < minutes_us 1 then Inr (seconds 3600) else Inr w
         | Inr None \<Rightarrow> Inr (seconds 3600))"

definition live_ahead :: "int \<Rightarrow> int \<Rightarrow> string \<Rightarrow> int result" where
  "live_ahead width premake lookahead_str =
     (let span = width * max premake 1
      in if span > seconds (timedelta_max_seconds + 1) - 1 then Inl OverflowError
         else case parse_interval (Some lookahead_str) of
                Inl e \<Rightarrow> Inl e
              | Inr la \<Rightarrow> Inr (max span (case la of
                                         Some l \<Rightarrow> if l = 0 then day_us else l
                                       | None \<Rightarrow> day_us)))"

text \<open>
  Where the walk starts: \<^verbatim>\<open>date_trunc('day', now())\<close> (the argument \<open>trunc_day\<close>, it depends on the time
  zone of the session) for widths of whole days, else the start of the epoch-aligned bucket.
\<close>

definition live_start :: "(timestamp \<Rightarrow> timestamp) \<Rightarrow> int \<Rightarrow> timestamp \<Rightarrow> timestamp" where
  "live_start trunc_day width now =
     (if width \<ge> day_us \<and> width mod day_us = 0 then trunc_day now else now div width * width)"

definition live_fmt :: "int \<Rightarrow> suffix_fmt" where
  "live_fmt width = (if width < day_us then By_minute else By_day)"

definition ensure_live_partitions ::
  "bool \<Rightarrow> (timestamp \<Rightarrow> timestamp) \<Rightarrow> timestamp \<Rightarrow> string \<Rightarrow> string option \<Rightarrow> int \<Rightarrow> string \<Rightarrow>
   'a catalog \<Rightarrow> py_error option \<times> nat \<times> 'a catalog" where
  "ensure_live_partitions lock_acquired trunc_day now table interval_str premake lookahead_str cat =
     (case live_width interval_str of
        Inl e \<Rightarrow> (Some e, 0, cat)
      | Inr width \<Rightarrow>
          (case live_ahead width premake lookahead_str of
             Inl e \<Rightarrow> (Some e, 0, cat)
           | Inr ahead \<Rightarrow>
               if \<not> lock_acquired then (None, 0, cat)
               else case add_time now ahead of
                      Inl e \<Rightarrow> (Some e, 0, cat)
                    | Inr until \<Rightarrow>
                        live_walk MAX_LIVE_STEPS table (live_fmt width) width until
                          (live_start trunc_day width now) (sort (part_ranges cat)) 0 cat))"

section \<open>Creating partitions of the other tables\<close>

text \<open>
  \<^verbatim>\<open>ensure_future_partitions\<close>: PostgreSQL evaluates the interval, so \<open>lower_of i\<close> (the start of the
  \<open>i\<close>-th partition) and \<open>plus_iv\<close> (one interval later) are arguments; a sub-daily interval names its unit.
\<close>

definition word_char :: "char \<Rightarrow> bool" where
  "word_char c \<longleftrightarrow> is_digit c \<or> c = CHR ''_'' \<or>
     (let n = (of_char c :: nat) in 65 \<le> n \<and> n \<le> 90 \<or> 97 \<le> n \<and> n \<le> 122)"

text \<open>The words of a string: \<^verbatim>\<open>\b..\b\<close> around letters delimits a maximal run of word characters.\<close>

fun words_of :: "string \<Rightarrow> string \<Rightarrow> string list" where
  "words_of acc [] = [rev acc]"
| "words_of acc (c # s) = (if word_char c then words_of (c # acc) s else rev acc # words_of [] s)"

definition is_sub_daily_interval :: "string \<Rightarrow> bool" where
  "is_sub_daily_interval s \<longleftrightarrow>
     list_ex (\<lambda>w. lower w \<in> {''hour'', ''hours'', ''minute'', ''minutes''}) (words_of [] s)"

fun future_walk ::
  "string \<Rightarrow> suffix_fmt \<Rightarrow> (nat \<Rightarrow> timestamp) \<Rightarrow> (timestamp \<Rightarrow> timestamp) \<Rightarrow> nat list \<Rightarrow>
   (timestamp \<times> timestamp) list \<Rightarrow> nat \<Rightarrow> 'a catalog \<Rightarrow> py_error option \<times> nat \<times> 'a catalog" where
  "future_walk table fmt lower_of plus_iv [] existing created cat = (None, created, cat)"
| "future_walk table fmt lower_of plus_iv (i # is) existing created cat =
     (let lo = lower_of i; hi = plus_iv lo
      in if list_ex (\<lambda>r. fst r < hi \<and> lo < snd r) existing
         then future_walk table fmt lower_of plus_iv is existing created cat
         else case create_partition (partition_name fmt table lo) lo hi cat of
                Inr cat' \<Rightarrow>
                  future_walk table fmt lower_of plus_iv is (existing @ [(lo, hi)]) (created + 1) cat'
              | Inl e \<Rightarrow>
                  if e = IntegrityError
                  then future_walk table fmt lower_of plus_iv is existing created cat
                  else (Some e, created, cat))"

definition ensure_future_partitions ::
  "bool \<Rightarrow> (nat \<Rightarrow> timestamp) \<Rightarrow> (timestamp \<Rightarrow> timestamp) \<Rightarrow> string \<Rightarrow> string \<Rightarrow> int \<Rightarrow>
   'a catalog \<Rightarrow> py_error option \<times> nat \<times> 'a catalog" where
  "ensure_future_partitions lock_acquired lower_of plus_iv table interval_str premake cat =
     (if \<not> lock_acquired then (None, 0, cat)
      else future_walk table (if is_sub_daily_interval interval_str then By_minute else By_day)
             lower_of plus_iv [0..<nat (premake + 1)] (part_ranges cat) 0 cat)"

section \<open>Dropping drained partitions of the live table\<close>

datatype reclaim_decision =
  Drop | Check_rows | Take_lock | Skip_default | Skip_grace | Skip_has_rows | Skip_locked

definition decide_partition_reclaim ::
  "timestamp option \<Rightarrow> timestamp \<Rightarrow> int \<Rightarrow> bool option \<Rightarrow> bool \<Rightarrow> bool option \<Rightarrow> reclaim_decision" where
  "decide_partition_reclaim upper_bound now grace has_rows is_default lock_ok =
     (case upper_bound of
        None \<Rightarrow> Skip_default
      | Some ub \<Rightarrow>
          if is_default then Skip_default
          else if ub \<ge> now - grace then Skip_grace
          else case has_rows of
                 None \<Rightarrow> Check_rows
               | Some True \<Rightarrow> Skip_has_rows
               | Some False \<Rightarrow>
                   (case lock_ok of
                      None \<Rightarrow> Take_lock
                    | Some False \<Rightarrow> Skip_locked
                    | Some True \<Rightarrow> Drop))"

definition partition_has_rows :: "string \<Rightarrow> 'a catalog \<Rightarrow> bool" where
  "partition_has_rows name cat \<longleftrightarrow> list_ex (\<lambda>p. p_name p = name \<and> p_rows p \<noteq> []) cat"

text \<open>
  What happens around one partition: the look is cancelled by its timeout, rows arrive from other
  sessions between the look and the lock, the transaction is nested in one of the caller with some
  isolation level, the lock, the second scan or the parent lock of \<^verbatim>\<open>DETACH\<close> is not obtained in time. A
  fault is a database error other than these; a lost connection is passed on.
\<close>

datatype fault = Connection_lost | Statement_failed

record 'a reclaim_env =
  look_canceled :: bool
  look_fault :: "fault option"
  arrivals :: "'a prow list"
  nested_txn :: bool
  read_committed :: bool
  lock_refused :: bool
  check_canceled :: bool
  detach_refused :: bool
  drop_fault :: "fault option"

definition locked_drop ::
  "'a reclaim_env \<Rightarrow> string \<Rightarrow> timestamp \<Rightarrow> timestamp \<Rightarrow> int \<Rightarrow> 'a catalog \<Rightarrow>
   (fault + reclaim_decision) \<times> 'a catalog" where
  "locked_drop env name upper now grace cat =
     (if nested_txn env \<and> \<not> read_committed env then (Inr Skip_locked, cat)
      else if lock_refused env \<or> check_canceled env then (Inr Skip_locked, cat)
      else let step = decide_partition_reclaim (Some upper) now grace
                        (Some (partition_has_rows name cat)) False (Some True)
           in if step \<noteq> Drop then (Inr step, cat)
              else if detach_refused env then (Inr Skip_locked, cat)
              else case drop_fault env of
                     Some f \<Rightarrow> (Inl f, cat)
                   | None \<Rightarrow> (Inr Drop, drop_partition name cat))"

definition try_reclaim_one ::
  "'a reclaim_env \<Rightarrow> string \<Rightarrow> timestamp \<Rightarrow> timestamp \<Rightarrow> int \<Rightarrow> 'a catalog \<Rightarrow>
   (fault + reclaim_decision) \<times> 'a catalog" where
  "try_reclaim_one env name upper now grace cat =
     (let first = decide_partition_reclaim (Some upper) now grace None False None;
          cat' = insert_rows (arrivals env) cat
      in if first \<noteq> Check_rows then (Inr first, cat')
         else case look_fault env of
                Some f \<Rightarrow> (Inl f, cat')
              | None \<Rightarrow>
                  if look_canceled env then (Inr Skip_has_rows, cat')
                  else let step = decide_partition_reclaim (Some upper) now grace
                                    (Some (partition_has_rows name cat)) False None
                       in if step \<noteq> Take_lock then (Inr step, cat')
                          else locked_drop env name upper now grace cat')"

text \<open>The loop over the partitions, oldest first; the first component tells of a lost connection, which
  the function raises.\<close>

fun reclaim_each ::
  "(string \<Rightarrow> 'a reclaim_env) \<Rightarrow> timestamp \<Rightarrow> int \<Rightarrow> (string \<times> timestamp) list \<Rightarrow> nat \<Rightarrow> 'a catalog \<Rightarrow>
   fault option \<times> nat \<times> 'a catalog" where
  "reclaim_each env now grace [] dropped cat = (None, dropped, cat)"
| "reclaim_each env now grace ((name, upper) # parts) dropped cat =
     (if upper \<ge> now - grace then reclaim_each env now grace parts dropped cat
      else case try_reclaim_one (env name) name upper now grace cat of
             (Inl Connection_lost, cat') \<Rightarrow> (Some Connection_lost, dropped, cat')
           | (Inl Statement_failed, cat') \<Rightarrow> reclaim_each env now grace parts dropped cat'
           | (Inr outcome, cat') \<Rightarrow>
               reclaim_each env now grace parts (if outcome = Drop then dropped + 1 else dropped) cat')"

definition live_grace :: "string option \<Rightarrow> int result" where
  "live_grace grace_str =
     (case parse_interval (Some (case grace_str of Some s \<Rightarrow> s | None \<Rightarrow> DEFAULT_LIVE_PARTITION_GRACE)) of
        Inl e \<Rightarrow> Inl e
      | Inr g \<Rightarrow>
          (case (case g of Some x \<Rightarrow> Inr (Some x) | None \<Rightarrow> parse_interval (Some DEFAULT_LIVE_PARTITION_GRACE)) of
             Inr (Some x) \<Rightarrow> Inr (max x (seconds MIN_LIVE_PARTITION_GRACE_SECONDS))
           | Inr None \<Rightarrow> Inl TypeError
           | Inl e \<Rightarrow> Inl e))"

definition list_uppers :: "'a catalog \<Rightarrow> (string \<times> timestamp) list" where
  "list_uppers cat = List.map_filter (\<lambda>p. map_option (\<lambda>r. (p_name p, snd r)) (p_range p)) cat"

definition reclaim_drained_live_partitions ::
  "bool \<Rightarrow> bool \<Rightarrow> (string \<Rightarrow> 'a reclaim_env) \<Rightarrow> timestamp \<Rightarrow> string option \<Rightarrow> 'a catalog \<Rightarrow>
   py_error option \<times> nat \<times> 'a catalog" where
  "reclaim_drained_live_partitions lock_acquired own_txn env now grace_str cat =
     (case live_grace grace_str of
        Inl e \<Rightarrow> (Some e, 0, cat)
      | Inr grace \<Rightarrow>
          if \<not> lock_acquired then (None, 0, cat)
          else if \<not> own_txn then (None, 0, cat)
          else (case reclaim_each env now grace (sort_key snd (list_uppers cat)) 0 cat of
                  (lost, n, cat') \<Rightarrow> (map_option (\<lambda>_. DatabaseError) lost, n, cat')))"

section \<open>Dropping partitions past retention\<close>

text \<open>
  \<^verbatim>\<open>reclaim_drained_partitions\<close>: the second catalog holds the detached tables that could not be
  dropped. \<open>hook_raises\<close> does not matter to the tables, \<open>drop_fails\<close> does.
\<close>

fun retention_each ::
  "(string \<Rightarrow> bool) \<Rightarrow> timestamp \<Rightarrow> ('a prow \<Rightarrow> bool) option \<Rightarrow> 'a catalog \<Rightarrow> nat \<Rightarrow> 'a catalog \<Rightarrow>
   'a catalog \<Rightarrow> nat \<times> 'a catalog \<times> 'a catalog" where
  "retention_each drop_fails cutoff live_predicate [] dropped detached cat = (dropped, detached, cat)"
| "retention_each drop_fails cutoff live_predicate (p # ps) dropped detached cat =
     (case p_range p of
        None \<Rightarrow> retention_each drop_fails cutoff live_predicate ps dropped detached cat
      | Some (_, upper) \<Rightarrow>
          if upper > cutoff then retention_each drop_fails cutoff live_predicate ps dropped detached cat
          else if (case live_predicate of None \<Rightarrow> False | Some P \<Rightarrow> list_ex P (p_rows p))
          then retention_each drop_fails cutoff live_predicate ps dropped detached cat
          else if drop_fails (p_name p)
          then retention_each drop_fails cutoff live_predicate ps dropped (detached @ [p])
                 (drop_partition (p_name p) cat)
          else retention_each drop_fails cutoff live_predicate ps (dropped + 1) detached
                 (drop_partition (p_name p) cat))"

definition reclaim_drained_partitions ::
  "bool \<Rightarrow> (string \<Rightarrow> bool) \<Rightarrow> timestamp \<Rightarrow> ('a prow \<Rightarrow> bool) option \<Rightarrow> 'a catalog \<Rightarrow>
   nat \<times> 'a catalog \<times> 'a catalog" where
  "reclaim_drained_partitions lock_acquired drop_fails cutoff live_predicate cat =
     (if \<not> lock_acquired then (0, [], cat)
      else retention_each drop_fails cutoff live_predicate cat 0 [] cat)"

definition check_default_partition :: "'a catalog \<Rightarrow> nat" where
  "check_default_partition cat =
     (case find (\<lambda>p. p_range p = None) cat of None \<Rightarrow> 0 | Some p \<Rightarrow> length (p_rows p))"

section \<open>The three partitioned tables\<close>

text \<open>
  \<^verbatim>\<open>partitioned_tables\<close>, \<^verbatim>\<open>ensure_partitions\<close> and \<^verbatim>\<open>reclaim_partitions\<close>: a table that is not partitioned is
  absent. The rows of the three tables are the values of one type here.
\<close>

record 'a part_tables =
  pt_live :: "'a catalog option"
  pt_history :: "'a catalog option"
  pt_attempts :: "'a catalog option"

definition LIVE_TABLE :: string where "LIVE_TABLE = ''sqlery_queued_job''"
definition HISTORY_TABLE :: string where "HISTORY_TABLE = ''sqlery_job_history''"
definition ATTEMPT_TABLE :: string where "ATTEMPT_TABLE = ''sqlery_job_attempt''"

definition on_table ::
  "('a catalog \<Rightarrow> py_error option \<times> nat \<times> 'a catalog) \<Rightarrow> 'a catalog option \<Rightarrow>
   py_error option \<times> nat \<times> 'a catalog option" where
  "on_table f t =
     (case t of
        None \<Rightarrow> (None, 0, None)
      | Some cat \<Rightarrow> (case f cat of (e, n, cat') \<Rightarrow> (e, n, Some cat')))"

definition ensure_partitions ::
  "(string \<Rightarrow> bool) \<Rightarrow> (timestamp \<Rightarrow> timestamp) \<Rightarrow> timestamp \<Rightarrow> (nat \<Rightarrow> timestamp) \<Rightarrow> (timestamp \<Rightarrow> timestamp) \<Rightarrow>
   string \<Rightarrow> int \<Rightarrow> string option \<Rightarrow> 'a part_tables \<Rightarrow> py_error option \<times> nat \<times> 'a part_tables" where
  "ensure_partitions lock trunc_day now lower_of plus_iv interval_str premake live_interval ts =
     (case on_table (ensure_live_partitions (lock LIVE_TABLE) trunc_day now LIVE_TABLE live_interval premake
                       LIVE_LOOKAHEAD) (pt_live ts) of
        (Some e, n, l) \<Rightarrow> (Some e, n, ts\<lparr>pt_live := l\<rparr>)
      | (None, n, l) \<Rightarrow>
          (case on_table (ensure_future_partitions (lock HISTORY_TABLE) lower_of plus_iv HISTORY_TABLE
                            interval_str premake) (pt_history ts) of
             (Some e, m, h) \<Rightarrow> (Some e, n + m, ts\<lparr>pt_live := l, pt_history := h\<rparr>)
           | (None, m, h) \<Rightarrow>
               (case on_table (ensure_future_partitions (lock ATTEMPT_TABLE) lower_of plus_iv ATTEMPT_TABLE
                                 interval_str premake) (pt_attempts ts) of
                  (e, k, a) \<Rightarrow>
                    (e, n + m + k, ts\<lparr>pt_live := l, pt_history := h, pt_attempts := a\<rparr>))))"

definition retention_on ::
  "bool \<Rightarrow> (string \<Rightarrow> bool) \<Rightarrow> timestamp \<Rightarrow> ('a prow \<Rightarrow> bool) option \<Rightarrow> 'a catalog option \<Rightarrow>
   nat \<times> 'a catalog \<times> 'a catalog option" where
  "retention_on lock drop_fails cutoff live_predicate t =
     (case t of
        None \<Rightarrow> (0, [], None)
      | Some cat \<Rightarrow>
          (case reclaim_drained_partitions lock drop_fails cutoff live_predicate cat of
             (n, detached, cat') \<Rightarrow> (n, detached, Some cat')))"

text \<open>The counts are those of the live table, the history and the attempts (0 for an absent table).\<close>

definition reclaim_partitions ::
  "(string \<Rightarrow> bool) \<Rightarrow> bool \<Rightarrow> (string \<Rightarrow> 'a reclaim_env) \<Rightarrow> timestamp \<Rightarrow> string option \<Rightarrow> (string \<Rightarrow> bool) \<Rightarrow>
   timestamp \<Rightarrow> ('a prow \<Rightarrow> bool) \<Rightarrow> 'a part_tables \<Rightarrow>
   py_error option \<times> (nat \<times> nat \<times> nat) \<times> 'a catalog \<times> 'a part_tables" where
  "reclaim_partitions lock own_txn env now live_grace_str drop_fails cutoff open_attempt ts =
     (case on_table (reclaim_drained_live_partitions (lock LIVE_TABLE) own_txn env now live_grace_str)
             (pt_live ts) of
        (Some e, n, l) \<Rightarrow> (Some e, (n, 0, 0), [], ts\<lparr>pt_live := l\<rparr>)
      | (None, n, l) \<Rightarrow>
          (case retention_on (lock HISTORY_TABLE) drop_fails cutoff None (pt_history ts) of
             (m, dh, h) \<Rightarrow>
               (case retention_on (lock ATTEMPT_TABLE) drop_fails cutoff (Some open_attempt) (pt_attempts ts) of
                  (k, da, a) \<Rightarrow>
                    (None, (n, m, k), dh @ da,
                     ts\<lparr>pt_live := l, pt_history := h, pt_attempts := a\<rparr>))))"

end
