(* ===== verification/Sq_Partition_Laws.thy ===== *)
theory Sq_Partition_Laws
  imports Sq_Partition
begin

text \<open>
  Laws of the partition maintenance: partition names determine their instants, the walk of
  \<^verbatim>\<open>ensure_live_partitions\<close> covers the time ahead within its 10 000 iterations, and reclaiming loses no row
  of the live table, no open attempt and no row younger than the retention.
\<close>

section \<open>Names of partitions\<close>

definition fmt_unit :: "suffix_fmt \<Rightarrow> int" where
  "fmt_unit fmt = (case fmt of By_day \<Rightarrow> day_us | By_minute \<Rightarrow> minutes_us 1)"

text \<open>The instants whose year has four digits.\<close>

definition datable :: "timestamp \<Rightarrow> bool" where
  "datable t \<longleftrightarrow> representable t \<and> ts_of (1000, 1, 1) 0 0 \<le> t"

lemma datable_year:
  assumes "datable t"
  shows "1000 \<le> fst (date_of t)"
proof (rule ccontr)
  assume year: "\<not> 1000 \<le> fst (date_of t)"
  have valid: "valid_date (date_of t)" "valid_date (1000, 1, 1)"
    using assms representable_date by (auto simp: datable_def valid_date_def MAXYEAR_def days_in_month_def)
  have "date_of t < (1000, 1, 1)" using year by (cases "date_of t") (simp add: less_prod_def)
  then have "minutes_us (minute_index t) < ts_of (1000, 1, 1) 0 0"
    using ts_of_less_date [OF valid, of "hour_of t" "minute_of t" 0 0] field_bounds [of t]
    unfolding ts_of_fields by simp
  then have "minutes_us (minute_index t + 1) \<le> ts_of (1000, 1, 1) 0 0" by (simp add: ts_of_def)
  then show False using assms minute_index_floor(2) [of t] by (simp add: datable_def)
qed

lemma datable_between: "datable a \<Longrightarrow> representable b \<Longrightarrow> a \<le> t \<Longrightarrow> t \<le> b \<Longrightarrow> datable t"
  unfolding datable_def representable_def by linarith

lemma two_digits_length [simp]: "length (two_digits n) = 2"
  by (simp add: two_digits_def)

lemma digit_char_inj: "digit_char a = digit_char b \<longleftrightarrow> a mod 10 = b mod 10"
proof
  assume "digit_char a = digit_char b"
  then have "of_char (digit_char a) - (48 :: nat) = of_char (digit_char b) - 48" by (rule arg_cong)
  then show "a mod 10 = b mod 10" unfolding digit_value .
next
  assume "a mod 10 = b mod 10"
  then show "digit_char a = digit_char b" by (simp only: digit_char_def)
qed

lemma two_digits_inj:
  assumes "two_digits a = two_digits b" "0 \<le> a" "a < 100" "0 \<le> b" "b < 100"
  shows "a = b"
proof -
  have "nat a div 10 mod 10 = nat b div 10 mod 10" "nat a mod 10 = nat b mod 10"
    using assms(1) by (simp_all add: two_digits_def digit_char_inj)
  moreover have "nat a div 10 < 10" "nat b div 10 < 10" using assms by (simp_all add: nat_less_iff)
  ultimately have "nat a div 10 = nat b div 10" "nat a mod 10 = nat b mod 10" by simp_all
  then have "nat a = nat b" by (metis div_mult_mod_eq)
  then show ?thesis using assms by simp
qed

lemma datable_fields:
  assumes "datable t"
  obtains y m d where "date_of t = (y, m, d)" "1000 \<le> y" "y \<le> 9999" "1 \<le> m" "m \<le> 12" "1 \<le> d" "d \<le> 31"
proof -
  obtain y m d where dt: "date_of t = (y, m, d)" by (metis prod_cases3)
  have "valid_date (y, m, d)" using representable_date [of t] assms dt by (simp add: datable_def)
  then have "y \<le> 9999" "1 \<le> m" "m \<le> 12" "1 \<le> d" "d \<le> 31"
    using days_in_month_pos(2) [of y m] by (auto simp: valid_date_def MAXYEAR_def)
  then show ?thesis using that dt datable_year [OF assms] by simp
qed

lemma show_nat_four:
  assumes "1000 \<le> n" "n \<le> 9999"
  shows "length (show_nat n) = 4"
proof -
  have small: "n div 10 div 10 div 10 < 10" using assms by linarith
  have big: "\<not> n div 10 div 10 < 10" "\<not> n div 10 < 10" "\<not> n < 10" using assms by linarith+
  have "length (show_nat (n div 10 div 10 div 10)) = 1" using small by (subst show_nat.simps) simp
  then have "length (show_nat (n div 10 div 10)) = 2" using big by (subst show_nat.simps) simp
  then have "length (show_nat (n div 10)) = 3" using big by (subst show_nat.simps) simp
  then show ?thesis using big by (subst show_nat.simps) simp
qed

lemma show_nat_inj: "show_nat a = show_nat b \<longleftrightarrow> a = b"
  by (metis nat_of_digits_show)

lemma show_year:
  assumes "1000 \<le> y" "y \<le> 9999"
  shows "show_int y = show_nat (nat y)" "length (show_int y) = 4"
  using assms by (simp_all add: show_int_def show_nat_four)

lemma day_suffix_length: "datable t \<Longrightarrow> length (day_suffix t) = 8"
  by (erule datable_fields) (simp add: day_suffix_def show_year(2))

lemma day_suffix_inj:
  assumes "day_suffix s = day_suffix t" "datable s" "datable t"
  shows "date_of s = date_of t"
proof -
  obtain y m d where s: "date_of s = (y, m, d)" "1000 \<le> y" "y \<le> 9999" "1 \<le> m" "m \<le> 12" "1 \<le> d" "d \<le> 31"
    using datable_fields [OF assms(2)] .
  obtain y' m' d' where t: "date_of t = (y', m', d')" "1000 \<le> y'" "y' \<le> 9999" "1 \<le> m'" "m' \<le> 12" "1 \<le> d'" "d' \<le> 31"
    using datable_fields [OF assms(3)] .
  have "show_int y @ two_digits m @ two_digits d = show_int y' @ two_digits m' @ two_digits d'"
    using assms(1) s(1) t(1) by (simp add: day_suffix_def)
  then have eq: "show_int y = show_int y'" "two_digits m = two_digits m'" "two_digits d = two_digits d'"
    using s t by (simp_all add: append_eq_append_conv show_year(2))
  have "y = y'" using eq(1) s t by (simp add: show_year(1) show_nat_inj)
  moreover have "m = m'" by (rule two_digits_inj [OF eq(2)]) (use s t in simp_all)
  moreover have "d = d'" by (rule two_digits_inj [OF eq(3)]) (use s t in simp_all)
  ultimately show ?thesis using s t by simp
qed

lemma minute_aligned: "minutes_us 1 dvd t \<Longrightarrow> minutes_us (minute_index t) = t"
  unfolding minute_index_def minutes_us_def seconds_def by (elim dvdE) simp

lemma day_aligned:
  assumes "day_us dvd t"
  shows "minutes_us 1 dvd t" "hour_of t = 0" "minute_of t = 0"
proof -
  obtain k where t: "t = minutes_us (1440 * k)"
    using assms unfolding day_us_def minutes_us_def seconds_def by (elim dvdE) simp
  show "minutes_us 1 dvd t" by (simp add: t minutes_us_def seconds_def)
  have "1440 * k mod 60 = (0 :: int)" by (simp add: mod_eq_0_iff_dvd dvd_mult2)
  then show "hour_of t = 0" "minute_of t = 0" by (simp_all add: t hour_of_def minute_of_def)
qed

lemma fmt_unit_minute: "fmt_unit fmt dvd t \<Longrightarrow> minutes_us 1 dvd t"
  by (cases fmt) (simp_all add: fmt_unit_def day_aligned)

lemma fmt_unit_pos: "0 < fmt_unit fmt"
  by (cases fmt) (simp_all add: fmt_unit_def day_us_def minutes_us_def seconds_def)

text \<open>A partition name determines its format and, for an aligned instant, the instant.\<close>

lemma partition_name_inj:
  assumes "partition_name f table s = partition_name g table t" "datable s" "datable t"
    and "fmt_unit f dvd s" "fmt_unit f dvd t"
  shows "s = t"
proof -
  have sfx: "part_suffix f s = part_suffix g t" using assms(1) by (simp add: partition_name_def)
  then have "length (part_suffix f s) = length (part_suffix g t)" by simp
  then have fg: "f = g"
    using day_suffix_length [OF assms(2)] day_suffix_length [OF assms(3)]
    by (cases f; cases g) (simp_all add: part_suffix_def)
  have "day_suffix s = day_suffix t"
    using sfx fg day_suffix_length [OF assms(2)] day_suffix_length [OF assms(3)]
    by (cases g) (simp_all add: part_suffix_def)
  then have date: "date_of s = date_of t" using assms(2,3) by (rule day_suffix_inj)
  have "hour_of s = hour_of t \<and> minute_of s = minute_of t"
  proof (cases g)
    case By_day
    then show ?thesis using fg assms(4,5) day_aligned(2,3) by (simp add: fmt_unit_def)
  next
    case By_minute
    then have "two_digits (hour_of s) = two_digits (hour_of t)" "two_digits (minute_of s) = two_digits (minute_of t)"
      using sfx fg \<open>day_suffix s = day_suffix t\<close> by (simp_all add: part_suffix_def)
    then show ?thesis using field_bounds [of s] field_bounds [of t] two_digits_inj by simp
  qed
  then have "minutes_us (minute_index s) = minutes_us (minute_index t)"
    using ts_of_fields [of s] ts_of_fields [of t] date by simp
  then show ?thesis using minute_aligned fmt_unit_minute assms(4,5) by metis
qed

lemma partition_name_not_default:
  assumes "datable t"
  shows "partition_name fmt table t \<noteq> table @ ''_default''"
proof
  assume "partition_name fmt table t = table @ ''_default''"
  then have "length (part_suffix fmt t) = 7" by (simp add: partition_name_def)
  then show False using day_suffix_length [OF assms] by (cases fmt) (simp_all add: part_suffix_def)
qed

section \<open>The walk covers the time ahead\<close>

text \<open>
  A well-formed table: distinct names, non-empty disjoint ranges. \<open>named_by\<close> says that its range
  partitions are named after their lower bounds and that the bounds are aligned to the unit of the
  names to come.
\<close>

definition wf_catalog :: "'a catalog \<Rightarrow> bool" where
  "wf_catalog cat \<longleftrightarrow> distinct (map p_name cat) \<and>
     (\<forall>p\<in>set cat. case p_range p of None \<Rightarrow> True | Some r \<Rightarrow> fst r < snd r) \<and>
     (\<forall>p\<in>set cat. \<forall>q\<in>set cat.
        case (p_range p, p_range q) of (Some r, Some s) \<Rightarrow> overlaps r s \<longrightarrow> p = q | _ \<Rightarrow> True)"

lemma wf_catalog_iff:
  "wf_catalog cat \<longleftrightarrow> distinct (map p_name cat) \<and>
     (\<forall>p\<in>set cat. \<forall>r. p_range p = Some r \<longrightarrow> fst r < snd r) \<and>
     (\<forall>p\<in>set cat. \<forall>q\<in>set cat. \<forall>r s. p_range p = Some r \<longrightarrow> p_range q = Some s \<longrightarrow> overlaps r s \<longrightarrow> p = q)"
  unfolding wf_catalog_def by (simp split: option.splits) blast

definition named_by :: "suffix_fmt \<Rightarrow> string \<Rightarrow> 'a catalog \<Rightarrow> bool" where
  "named_by fmt table cat \<longleftrightarrow>
     (\<forall>p\<in>set cat. case p_range p of
        None \<Rightarrow> p_name p = table @ ''_default''
      | Some (lo, hi) \<Rightarrow>
          p_name p \<in> {partition_name By_day table lo, partition_name By_minute table lo} \<and>
          fmt_unit fmt dvd lo \<and> fmt_unit fmt dvd hi \<and> datable lo \<and> datable hi)"

lemma part_ranges_iff: "r \<in> set (part_ranges cat) \<longleftrightarrow> (\<exists>p\<in>set cat. p_range p = Some r)"
proof
  assume "\<exists>p\<in>set cat. p_range p = Some r"
  then obtain p where "p \<in> set cat" "p_range p = Some r" by blast
  then show "r \<in> set (part_ranges cat)"
    unfolding part_ranges_def List.map_filter_def by (auto intro!: rev_image_eqI [of p])
qed (auto simp: part_ranges_def List.map_filter_def)

lemma part_ranges_append [simp]: "part_ranges (cat @ cat') = part_ranges cat @ part_ranges cat'"
  by (simp add: part_ranges_def List.map_filter_def)

lemma covers_iff: "covers p t \<longleftrightarrow> (\<exists>r. p_range p = Some r \<and> in_range t r)"
  by (simp add: covers_def split: option.splits)

lemma next_start_some:
  assumes "next_start existing cursor = Some lo"
  shows "lo \<in> fst ` set existing \<and> cursor < lo \<and> (\<forall>r\<in>set existing. cursor < fst r \<longrightarrow> lo \<le> fst r)"
proof -
  obtain x xs where f: "filter (\<lambda>lo. lo > cursor) (map fst existing) = x # xs" and lo: "lo = fold min xs x"
    using assms by (auto simp: next_start_def split: list.splits)
  have "lo = Min (set (x # xs))" by (simp only: lo Min.set_eq_fold)
  then have m: "lo = Min {l \<in> fst ` set existing. l > cursor}" by (simp flip: f)
  have "{l \<in> fst ` set existing. l > cursor} = set (x # xs)" by (simp flip: f)
  then have ne: "{l \<in> fst ` set existing. l > cursor} \<noteq> {}" by simp
  have fin: "finite {l \<in> fst ` set existing. l > cursor}" by simp
  show ?thesis using Min_in [OF fin ne] Min_le [OF fin] unfolding m by auto
qed

lemma next_start_none: "next_start existing cursor = None \<longleftrightarrow> (\<forall>r\<in>set existing. \<not> cursor < fst r)"
proof -
  have "next_start existing cursor = None \<longleftrightarrow> filter (\<lambda>lo. lo > cursor) (map fst existing) = []"
    by (simp add: next_start_def split: list.splits)
  then show ?thesis by (auto simp: filter_empty_conv)
qed

lemma clip_bounds:
  assumes "cursor < hi"
  shows "cursor < clip existing cursor hi" "clip existing cursor hi \<le> hi"
    and "\<forall>r\<in>set existing. cursor < fst r \<longrightarrow> clip existing cursor hi \<le> fst r"
    and "clip existing cursor hi = hi \<or>
      clip existing cursor hi \<in> fst ` set existing"
proof -
  have "cursor < clip existing cursor hi \<and> clip existing cursor hi \<le> hi \<and>
      (\<forall>r\<in>set existing. cursor < fst r \<longrightarrow> clip existing cursor hi \<le> fst r) \<and>
      (clip existing cursor hi = hi \<or> clip existing cursor hi \<in> fst ` set existing)"
  proof (cases "next_start existing cursor")
    case None
    then show ?thesis using assms by (simp add: clip_def next_start_none [THEN iffD1])
  next
    case (Some lo)
    then show ?thesis using assms next_start_some [OF Some] by (force simp: clip_def)
  qed
  then show "cursor < clip existing cursor hi" "clip existing cursor hi \<le> hi"
    "\<forall>r\<in>set existing. cursor < fst r \<longrightarrow> clip existing cursor hi \<le> fst r"
    "clip existing cursor hi = hi \<or> clip existing cursor hi \<in> fst ` set existing" by simp_all
qed

text \<open>In a walk, the statement for an uncovered instant always creates its partition.\<close>

definition new_partition :: "suffix_fmt \<Rightarrow> string \<Rightarrow> timestamp \<Rightarrow> timestamp \<Rightarrow> 'a partition" where
  "new_partition fmt table lo hi = \<lparr>p_name = partition_name fmt table lo, p_range = Some (lo, hi), p_rows = []\<rparr>"

lemma name_is_free:
  assumes "wf_catalog cat" "named_by fmt table cat" "fmt_unit fmt dvd cursor" "datable cursor"
    and "\<forall>r\<in>set (part_ranges cat). \<not> in_range cursor r"
  shows "partition_name fmt table cursor \<notin> p_name ` set cat"
proof
  assume "partition_name fmt table cursor \<in> p_name ` set cat"
  then obtain p where p: "p \<in> set cat" and n: "p_name p = partition_name fmt table cursor" by auto
  show False
  proof (cases "p_range p")
    case None
    then show False using assms(2,4) p n partition_name_not_default by (fastforce simp: named_by_def)
  next
    case (Some r)
    obtain lo hi where r: "r = (lo, hi)" by (cases r)
    have "lo = cursor"
      using assms(2-4) p Some r n partition_name_inj [of fmt table cursor _ lo]
      by (fastforce simp: named_by_def)
    moreover have "lo < hi" using assms(1) p Some r by (fastforce simp: wf_catalog_iff)
    ultimately have "in_range cursor r" by (simp add: in_range_def r)
    then show False using assms(5) p Some part_ranges_iff by blast
  qed
qed

lemma no_overlap:
  assumes "\<forall>r\<in>set rs. \<not> in_range cursor r" "\<forall>r\<in>set rs. cursor < fst r \<longrightarrow> hi \<le> fst r"
  shows "\<not> list_ex (overlaps (cursor, hi)) rs"
  using assms by (fastforce simp: list_ex_iff overlaps_def in_range_def)

lemma create_partition_free:
  assumes "wf_catalog cat" "named_by fmt table cat" "fmt_unit fmt dvd cursor" "datable cursor"
    and "\<forall>r\<in>set (part_ranges cat). \<not> in_range cursor r"
    and "\<forall>r\<in>set (part_ranges cat). cursor < fst r \<longrightarrow> hi \<le> fst r" "cursor < hi"
    and "\<forall>r\<in>set (default_rows cat). \<not> in_range (fst r) (cursor, hi)"
  shows "create_partition (partition_name fmt table cursor) cursor hi cat =
    Inr (cat @ [new_partition fmt table cursor hi])"
  using name_is_free [OF assms(1-5)] no_overlap [OF assms(5,6)] assms(7,8)
  by (simp add: create_partition_def new_partition_def list_ex_iff)

lemma wf_catalog_new:
  assumes "wf_catalog cat" "partition_name fmt table cursor \<notin> p_name ` set cat" "cursor < hi"
    and "\<not> list_ex (overlaps (cursor, hi)) (part_ranges cat)"
  shows "wf_catalog (cat @ [new_partition fmt table cursor hi])"
proof -
  have "\<not> overlaps (cursor, hi) r" "\<not> overlaps r (cursor, hi)" if "p \<in> set cat" "p_range p = Some r" for p r
    using assms(4) that part_ranges_iff [of r cat] by (auto simp: list_ex_iff overlaps_def)
  then show ?thesis using assms(1-3) unfolding wf_catalog_iff
    by (auto simp: new_partition_def)
qed

lemma named_by_new:
  assumes "named_by fmt table cat" "fmt_unit fmt dvd cursor" "fmt_unit fmt dvd hi" "datable cursor" "datable hi"
  shows "named_by fmt table (cat @ [new_partition fmt table cursor hi])"
  using assms by (cases fmt) (simp_all add: named_by_def new_partition_def)

lemma default_rows_new [simp]: "default_rows (cat @ [new_partition fmt table lo hi]) = default_rows cat"
  by (simp add: default_rows_def new_partition_def)

lemma part_ranges_new [simp]: "part_ranges [new_partition fmt table lo hi] = [(lo, hi)]"
  by (simp add: part_ranges_def new_partition_def List.map_filter_def)

text \<open>How many iterations the walk still needs.\<close>

definition steps_left :: "int \<Rightarrow> timestamp \<Rightarrow> timestamp \<Rightarrow> (timestamp \<times> timestamp) list \<Rightarrow> nat" where
  "steps_left width until cursor existing =
     length (filter (\<lambda>r. cursor < fst r) existing) + length (filter (\<lambda>r. cursor < snd r) existing) +
     nat ((until - cursor + width - 1) div width)"

lemma length_filter_sort [simp]: "length (filter P (sort xs)) = length (filter P xs)"
  by (metis mset_filter mset_sort size_mset)

lemma length_filter_mono: "(\<And>x. P x \<Longrightarrow> Q x) \<Longrightarrow> length (filter P xs) \<le> length (filter Q xs)"
  by (induction xs) (auto intro: le_SucI)

lemma length_filter_strict:
  assumes "\<And>x. P x \<Longrightarrow> Q x" "x \<in> set xs" "Q x" "\<not> P x"
  shows "length (filter P xs) < length (filter Q xs)"
  using assms(2)
proof (induction xs)
  case (Cons y ys)
  show ?case
  proof (cases "x = y")
    case True
    then show ?thesis using assms(3,4) length_filter_mono [of P Q ys] assms(1) by (simp add: le_imp_less_Suc)
  next
    case False
    then have "length (filter P ys) < length (filter Q ys)" using Cons by simp
    then show ?thesis using assms(1) [of y] by auto
  qed
qed simp

lemma steps_left_jump:
  assumes "r \<in> set existing" "in_range cursor r" "0 < width"
  shows "steps_left width until (snd r) existing < steps_left width until cursor existing"
proof -
  have "cursor < snd r" using assms(2) by (simp add: in_range_def)
  then have "length (filter (\<lambda>x. snd r < snd x) existing) < length (filter (\<lambda>x. cursor < snd x) existing)"
    "length (filter (\<lambda>x. snd r < fst x) existing) \<le> length (filter (\<lambda>x. cursor < fst x) existing)"
    using assms(1) by (auto intro!: length_filter_strict [of _ _ r] length_filter_mono)
  moreover have "(until - snd r + width - 1) div width \<le> (until - cursor + width - 1) div width"
    using \<open>cursor < snd r\<close> assms(3) by (intro zdiv_mono1) auto
  ultimately show ?thesis by (simp add: steps_left_def nat_mono add_less_le_mono)
qed

lemma steps_left_create:
  assumes "0 < width" "cursor < until" "hi = clip existing cursor (cursor + width)"
  shows "steps_left width until hi (sort (existing @ [(cursor, hi)])) < steps_left width until cursor existing"
proof -
  have hi: "cursor < hi" using clip_bounds(1) assms by simp
  have le: "length (filter (\<lambda>x. hi < fst x) existing) \<le> length (filter (\<lambda>x. cursor < fst x) existing)"
    "length (filter (\<lambda>x. hi < snd x) existing) \<le> length (filter (\<lambda>x. cursor < snd x) existing)"
    using hi by (auto intro!: length_filter_mono)
  have div_le: "(until - hi + width - 1) div width \<le> (until - cursor + width - 1) div width"
    using hi assms(1) by (intro zdiv_mono1) auto
  consider "hi = cursor + width" | "hi \<in> fst ` set existing"
    using clip_bounds(4) [of cursor "cursor + width" existing] assms by auto
  then show ?thesis
  proof cases
    case 1
    have "(until - hi + width - 1) div width = (until - cursor + width - 1 + - 1 * width) div width"
      unfolding 1 by (simp add: algebra_simps)
    also have "\<dots> = (until - cursor + width - 1) div width - 1"
      using assms(1) by (subst div_mult_self1) auto
    finally have "(until - hi + width - 1) div width < (until - cursor + width - 1) div width" by simp
    moreover have "0 < (until - cursor + width - 1) div width"
      using assms(1,2) by (simp add: pos_imp_zdiv_pos_iff)
    ultimately show ?thesis using le hi by (simp add: steps_left_def)
  next
    case 2
    then obtain r where "r \<in> set existing" "fst r = hi" by auto
    then have "length (filter (\<lambda>x. hi < fst x) existing) < length (filter (\<lambda>x. cursor < fst x) existing)"
      using hi by (auto intro!: length_filter_strict [of _ _ r])
    then show ?thesis using le(2) hi div_le by (simp add: steps_left_def nat_mono add_less_le_mono)
  qed
qed

text \<open>What the walk needs to know of the table and of the time at which it stands.\<close>

definition walk_ok ::
  "suffix_fmt \<Rightarrow> string \<Rightarrow> int \<Rightarrow> timestamp \<Rightarrow> timestamp \<Rightarrow> (timestamp \<times> timestamp) list \<Rightarrow> 'a catalog \<Rightarrow> bool" where
  "walk_ok fmt table width until cursor existing cat \<longleftrightarrow>
     wf_catalog cat \<and> named_by fmt table cat \<and> set existing = set (part_ranges cat) \<and>
     fmt_unit fmt dvd cursor \<and> datable cursor \<and>
     (\<forall>r\<in>set (default_rows cat). \<not> in_range (fst r) (cursor, until + width))"

lemma walk_ok_jump:
  assumes "walk_ok fmt table width until cursor existing cat" "r \<in> set existing" "in_range cursor r"
  shows "walk_ok fmt table width until (snd r) existing cat"
proof -
  obtain lo hi where r: "r = (lo, hi)" by (cases r)
  have "r \<in> set (part_ranges cat)" using assms(1,2) by (simp add: walk_ok_def)
  then obtain p where p: "p \<in> set cat" "p_range p = Some r" unfolding part_ranges_iff by blast
  then have "fmt_unit fmt dvd snd r" "datable (snd r)"
    using assms(1) r by (auto simp: walk_ok_def named_by_def split: option.splits)
  moreover have "cursor < snd r" using assms(3) by (simp add: in_range_def)
  ultimately show ?thesis using assms(1) by (fastforce simp: walk_ok_def in_range_def)
qed

lemma walk_ok_create:
  assumes ok: "walk_ok fmt table width until cursor existing cat"
    and free: "\<forall>r\<in>set existing. \<not> in_range cursor r"
    and w: "0 < width" "fmt_unit fmt dvd width" "cursor < until" "representable (until + width)"
    and hi: "hi = clip existing cursor (cursor + width)"
  shows "add_time cursor width = Inr (cursor + width)"
    and "create_partition (partition_name fmt table cursor) cursor hi cat =
      Inr (cat @ [new_partition fmt table cursor hi])"
    and "walk_ok fmt table width until hi (sort (existing @ [(cursor, hi)])) (cat @ [new_partition fmt table cursor hi])"
proof -
  note k = ok [unfolded walk_ok_def]
  have dc: "datable cursor" using k by blast
  have sum: "datable (cursor + width)"
    by (rule datable_between [OF dc w(4)]) (use w in linarith)+
  then show "add_time cursor width = Inr (cursor + width)" by (simp add: add_time_def datable_def)
  have b: "cursor < hi" "hi \<le> cursor + width" "\<forall>r\<in>set existing. cursor < fst r \<longrightarrow> hi \<le> fst r"
    "hi = cursor + width \<or> hi \<in> fst ` set existing"
    using clip_bounds [of cursor "cursor + width" existing] w(1) hi by simp_all
  have aligned: "fmt_unit fmt dvd hi" using b(4)
  proof
    assume "hi \<in> fst ` set existing"
    then obtain x where "(hi, x) \<in> set (part_ranges cat)" using k by force
    then obtain p where "p \<in> set cat" "p_range p = Some (hi, x)" unfolding part_ranges_iff by blast
    then show ?thesis using k by (auto simp: named_by_def split: option.splits)
  qed (use k w in auto)
  have dat: "datable hi" by (rule datable_between [OF dc _ _ b(2)]) (use sum b(1) in \<open>simp_all add: datable_def\<close>)
  have none: "\<forall>r\<in>set (default_rows cat). \<not> in_range (fst r) (cursor, hi)"
    using k b(2) w(3) by (fastforce simp: in_range_def)
  have fr: "\<forall>r\<in>set (part_ranges cat). \<not> in_range cursor r"
    "\<forall>r\<in>set (part_ranges cat). cursor < fst r \<longrightarrow> hi \<le> fst r" using free b(3) k by simp_all
  show "create_partition (partition_name fmt table cursor) cursor hi cat =
      Inr (cat @ [new_partition fmt table cursor hi])"
    using k fr b(1) none by (intro create_partition_free) auto
  have name: "partition_name fmt table cursor \<notin> p_name ` set cat"
    using k fr(1) by (intro name_is_free) auto
  show "walk_ok fmt table width until hi (sort (existing @ [(cursor, hi)])) (cat @ [new_partition fmt table cursor hi])"
    unfolding walk_ok_def
    using k wf_catalog_new [OF _ name b(1) no_overlap [OF fr]] named_by_new aligned dat b(1)
    by (auto simp: in_range_def)
qed

lemma live_walk_covers:
  assumes "walk_ok fmt table width until cursor existing cat" "0 < width" "fmt_unit fmt dvd width"
    "representable (until + width)" "steps_left width until cursor existing \<le> fuel"
  shows "\<exists>news. live_walk fuel table fmt width until cursor existing created cat =
      (None, created + length news, cat @ news) \<and> wf_catalog (cat @ news) \<and>
      (\<forall>t. cursor \<le> t \<longrightarrow> t < until \<longrightarrow> (\<exists>p\<in>set (cat @ news). covers p t)) \<and> all_rows news = []"
  using assms(1,5)
proof (induction fuel arbitrary: cursor existing created cat)
  case 0
  then have "until \<le> cursor"
    using assms(2) pos_imp_zdiv_pos_iff [of width "until - cursor + width - 1"]
    by (simp add: steps_left_def not_less [symmetric])
  then show ?case using 0 by (auto simp: walk_ok_def all_rows_def)
next
  case (Suc fuel)
  consider (stop) "until \<le> cursor"
    | (jump) r where "cursor < until" "find (in_range cursor) existing = Some r"
    | (create) "cursor < until" "find (in_range cursor) existing = None"
    by (cases "find (in_range cursor) existing") (auto simp: not_le [symmetric])
  then show ?case
  proof cases
    case stop
    then show ?thesis using Suc.prems by (auto simp: walk_ok_def all_rows_def)
  next
    case jump
    then have r: "r \<in> set existing" "in_range cursor r" by (auto simp: find_Some_iff)
    then have "r \<in> set (part_ranges cat)" using Suc.prems(1) by (simp add: walk_ok_def)
    then obtain p where p: "p \<in> set cat" "p_range p = Some r" unfolding part_ranges_iff by blast
    have "steps_left width until (snd r) existing \<le> fuel"
      using steps_left_jump [OF r assms(2), of until] Suc.prems(2) by simp
    from Suc.IH [OF walk_ok_jump [OF Suc.prems(1) r] this, of created] obtain news where
      n: "live_walk fuel table fmt width until (snd r) existing created cat =
        (None, created + length news, cat @ news)" "wf_catalog (cat @ news)" "all_rows news = []"
        "\<forall>t. snd r \<le> t \<longrightarrow> t < until \<longrightarrow> (\<exists>p\<in>set (cat @ news). covers p t)" by blast
    have "\<exists>p\<in>set (cat @ news). covers p t" if "cursor \<le> t" "t < until" for t
    proof (cases "t < snd r")
      case True
      then have "covers p t" using p r that by (auto simp: covers_iff in_range_def)
      then show ?thesis using p by auto
    qed (use n(4) that in auto)
    then show ?thesis using n jump by auto
  next
    case create
    define hi where "hi = clip existing cursor (cursor + width)"
    define new where "new = (new_partition fmt table cursor hi :: 'a partition)"
    have free: "\<forall>r\<in>set existing. \<not> in_range cursor r" using create by (auto simp: find_None_iff)
    note c = walk_ok_create [OF Suc.prems(1) free assms(2,3) create(1) assms(4) hi_def, folded new_def]
    have "steps_left width until hi (sort (existing @ [(cursor, hi)])) \<le> fuel"
      using steps_left_create [OF assms(2) create(1) hi_def] Suc.prems(2) by simp
    from Suc.IH [OF c(3) this, of "created + 1"] obtain news where
      n: "live_walk fuel table fmt width until hi (sort (existing @ [(cursor, hi)])) (created + 1) (cat @ [new]) =
        (None, created + 1 + length news, (cat @ [new]) @ news)" "wf_catalog ((cat @ [new]) @ news)" "all_rows news = []"
        "\<forall>t. hi \<le> t \<longrightarrow> t < until \<longrightarrow> (\<exists>p\<in>set ((cat @ [new]) @ news). covers p t)" by blast
    have "covers new t" if "cursor \<le> t" "t < hi" for t
      using that by (simp add: new_def new_partition_def covers_def in_range_def)
    then have "\<forall>t. cursor \<le> t \<longrightarrow> t < until \<longrightarrow> (\<exists>p\<in>set (cat @ new # news). covers p t)"
      using n(4) by (metis append.assoc append_Cons append_Nil in_set_conv_decomp not_le)
    moreover have "live_walk (Suc fuel) table fmt width until cursor existing created cat =
        (None, created + length (new # news), cat @ new # news)"
      using create c(1,2) n(1) by (simp add: hi_def Let_def)
    moreover have "all_rows (new # news) = []" using n(3) by (simp add: all_rows_def new_def new_partition_def)
    ultimately show ?thesis using n(2) by (metis append.assoc append_Cons append_Nil)
  qed
qed

section \<open>Coverage\<close>

lemma live_width_minute: "live_width interval_str = Inr w \<Longrightarrow> minutes_us 1 \<le> w"
  by (auto simp: live_width_def Let_def minutes_us_def split: sum.splits option.splits if_splits)

lemma live_ahead_width:
  assumes "live_ahead w premake la = Inr ahead" "0 < w"
  shows "w \<le> ahead"
proof -
  have "w * 1 \<le> w * max premake 1" using assms(2) by (intro mult_left_mono) auto
  then show ?thesis using assms(1)
    by (auto simp: live_ahead_def Let_def split: sum.splits option.splits if_splits)
qed

lemma set_part_ranges_length: "length (part_ranges cat) \<le> length cat"
  by (simp add: part_ranges_def List.map_filter_def)

lemma wf_catalog_unique:
  assumes "wf_catalog cat" "p \<in> set cat" "q \<in> set cat" "covers p t" "covers q t"
  shows "p = q"
proof -
  obtain r s where "p_range p = Some r" "p_range q = Some s" "in_range t r" "in_range t s"
    using assms(4,5) by (auto simp: covers_iff)
  moreover from this have "overlaps r s" by (simp add: overlaps_def in_range_def)
  ultimately show ?thesis using assms(1-3) unfolding wf_catalog_iff by blast
qed

text \<open>C12: \<^verbatim>\<open>ensure_live_partitions\<close> covers the time from the bucket of now to the look-ahead without gap or
  overlap, whatever partitions exist: if the advisory lock is granted and the dates are representable, the
  bounds of the existing partitions and the new width are aligned to the unit of the partition names, no row of the DEFAULT partition is in the way and the
  hard stop of 10 000 iterations is not reached, then it succeeds, keeps every existing partition, and
  afterwards each of these instants has exactly one partition.\<close>

theorem live_partitions_cover:
  fixes cat :: "'a catalog"
  assumes "live_width interval_str = Inr w" "live_ahead w premake lookahead = Inr ahead"
    and "wf_catalog cat" "named_by (live_fmt w) table cat" "fmt_unit (live_fmt w) dvd w"
    and "fmt_unit (live_fmt w) dvd start" "datable start" "start = live_start trunc_day w now" "start \<le> now"
    and "representable (now + ahead + w)"
    and "\<forall>r\<in>set (default_rows cat). \<not> in_range (fst r) (start, now + ahead + w)"
    and "2 * length cat + nat ((now + ahead - start + w - 1) div w) \<le> MAX_LIVE_STEPS"
  shows "\<exists>news. ensure_live_partitions True trunc_day now table interval_str premake lookahead cat =
      (None, length news, cat @ news) \<and> wf_catalog (cat @ news) \<and> all_rows news = [] \<and>
      (\<forall>t. start \<le> t \<longrightarrow> t < now + ahead \<longrightarrow> (\<exists>!p. p \<in> set (cat @ news) \<and> covers p t))"
proof -
  have w: "0 < w" using live_width_minute [OF assms(1)] by (simp add: minutes_us_def seconds_def)
  have "w \<le> ahead" using live_ahead_width [OF assms(2) w] .
  then have until: "add_time now ahead = Inr (now + ahead)"
    using datable_between [OF assms(7,10), of "now + ahead"] assms(9) w by (simp add: add_time_def datable_def)
  have ok: "walk_ok (live_fmt w) table w (now + ahead) start (sort (part_ranges cat)) cat"
    using assms(3-7,11) by (simp add: walk_ok_def)
  have "length (filter P (part_ranges cat)) \<le> length cat" for P
    using set_part_ranges_length [of cat] length_filter_le [of P "part_ranges cat"] by linarith
  from this [of "\<lambda>r. start < fst r"] this [of "\<lambda>r. start < snd r"]
  have steps: "steps_left w (now + ahead) start (sort (part_ranges cat)) \<le> MAX_LIVE_STEPS"
    using assms(12) by (simp add: steps_left_def)
  obtain news where n: "live_walk MAX_LIVE_STEPS table (live_fmt w) w (now + ahead) start (sort (part_ranges cat)) 0 cat =
      (None, 0 + length news, cat @ news)" "wf_catalog (cat @ news)" "all_rows news = []"
      "\<forall>t. start \<le> t \<longrightarrow> t < now + ahead \<longrightarrow> (\<exists>p\<in>set (cat @ news). covers p t)"
    using live_walk_covers [OF ok w assms(5,10) steps, of 0] by blast
  have "ensure_live_partitions True trunc_day now table interval_str premake lookahead cat =
      (None, length news, cat @ news)"
    using assms(1,2,8) until n(1) by (simp add: ensure_live_partitions_def)
  moreover have "\<exists>!p. p \<in> set (cat @ news) \<and> covers p t" if "start \<le> t" "t < now + ahead" for t
    using n(4) [rule_format, OF that] wf_catalog_unique [OF n(2)] by (metis (no_types))
  ultimately show ?thesis using n(2,3) by (intro exI [of _ news]) simp
qed

definition sample_catalog :: "nat catalog" where
  "sample_catalog =
     [\<lparr>p_name = ''q_default'', p_range = None, p_rows = [(ts_of (2025, 1, 1) 0 0, 1)]\<rparr>,
      \<lparr>p_name = ''q_20260105'', p_range = Some (ts_of (2026, 1, 5) 0 0, ts_of (2026, 1, 6) 0 0),
       p_rows = [(ts_of (2026, 1, 5) 4 0, 2)]\<rparr>]"

definition utc_day :: "timestamp \<Rightarrow> timestamp" where
  "utc_day t = t div day_us * day_us"

lemma sample_eval:
  "live_width None = Inr (minutes_us 60)" "live_ahead (minutes_us 60) 3 ''1 day'' = Inr (minutes_us 1440)"
  "live_start utc_day (minutes_us 60) (ts_of (2026, 1, 5) 9 30) = ts_of (2026, 1, 5) 9 0"
  "wf_catalog sample_catalog" "named_by By_minute ''q'' sample_catalog" "live_fmt (minutes_us 60) = By_minute"
  by code_simp+

theorem live_partitions_cover_witness:
  "\<exists>news. ensure_live_partitions True utc_day (ts_of (2026, 1, 5) 9 30) ''q'' None 3 ''1 day'' sample_catalog =
      (None, length news, sample_catalog @ news) \<and>
    (\<exists>!p. p \<in> set (sample_catalog @ news) \<and> covers p (ts_of (2026, 1, 6) 2 0))"
proof -
  let ?now = "ts_of (2026, 1, 5) 9 30"
  have side: "datable (ts_of (2026, 1, 5) 9 0)" "representable (?now + minutes_us 1440 + minutes_us 60)"
    "fmt_unit By_minute dvd minutes_us 60" "fmt_unit By_minute dvd ts_of (2026, 1, 5) 9 0"
    "\<forall>r\<in>set (default_rows sample_catalog).
       \<not> in_range (fst r) (ts_of (2026, 1, 5) 9 0, ?now + minutes_us 1440 + minutes_us 60)"
    "2 * length sample_catalog + nat ((?now + minutes_us 1440 - ts_of (2026, 1, 5) 9 0 + minutes_us 60 - 1)
       div minutes_us 60) \<le> MAX_LIVE_STEPS"
    "ts_of (2026, 1, 5) 9 0 \<le> ?now" "ts_of (2026, 1, 5) 9 0 \<le> ts_of (2026, 1, 6) 2 0"
    "ts_of (2026, 1, 6) 2 0 < ?now + minutes_us 1440"
    by code_simp+
  show ?thesis
    using live_partitions_cover [OF sample_eval(1,2,4), unfolded sample_eval, OF sample_eval(5) side(3,4,1)
        sample_eval(3) [symmetric] side(7) side(2,5,6)] side(8,9) by blast
qed

definition hourly_left :: "nat catalog" where
  "hourly_left =
     [\<lparr>p_name = ''q_default'', p_range = None, p_rows = []\<rparr>,
      \<lparr>p_name = ''q_20260105_0600'', p_range = Some (ts_of (2026, 1, 5) 6 0, ts_of (2026, 1, 5) 7 0), p_rows = []\<rparr>]"

definition after_daily :: "nat catalog" where
  "after_daily = hourly_left @
     [\<lparr>p_name = ''q_20260105'', p_range = Some (ts_of (2026, 1, 5) 0 0, ts_of (2026, 1, 5) 6 0), p_rows = []\<rparr>]"

text \<open>The alignment matters: with an hourly partition left on a day, the walk for a width of one day
  needs two partitions that start on that day and gives both the same name; the second statement is a
  no-op (\<^verbatim>\<open>IF NOT EXISTS\<close>), is counted as created, and the rest of the day has no partition, so that
  new rows go to the DEFAULT partition.\<close>

theorem daily_name_taken_leaves_gap:
  "ensure_live_partitions True utc_day (ts_of (2026, 1, 5) 3 0) ''q'' (Some ''1 day'') 1 LIVE_LOOKAHEAD hourly_left =
     (None, 2, after_daily) \<and>
   map_option p_range (part_for (ts_of (2026, 1, 5) 12 0) after_daily) = Some None"
  by code_simp

section \<open>Reclaiming loses no row\<close>

definition shape :: "'a catalog \<Rightarrow> (string \<times> (timestamp \<times> timestamp) option) list" where
  "shape cat = map (\<lambda>p. (p_name p, p_range p)) cat"

definition has_default :: "'a catalog \<Rightarrow> bool" where
  "has_default cat \<longleftrightarrow> list_ex (\<lambda>p. p_range p = None) cat"

lemma shape_names: "map p_name cat = map fst (shape cat)"
  by (simp add: shape_def)

lemma shape_default: "has_default cat \<longleftrightarrow> None \<in> snd ` set (shape cat)"
  by (force simp: has_default_def shape_def list_ex_iff image_iff)

lemma insert_row_shape [simp]: "shape (insert_row r cat) = shape cat"
  by (auto simp: shape_def insert_row_def split: option.splits)

lemma insert_rows_shape [simp]: "shape (insert_rows rs cat) = shape cat"
  by (induction rs arbitrary: cat) (simp_all add: insert_rows_def)

lemma all_rows_Cons [simp]: "all_rows (p # cat) = p_rows p @ all_rows cat" "all_rows [] = []"
  by (simp_all add: all_rows_def)

lemma part_for_in: "part_for t cat = Some p \<Longrightarrow> p \<in> set cat"
  by (auto simp: part_for_def find_Some_iff split: option.splits)

lemma part_for_default: "has_default cat \<Longrightarrow> part_for t cat \<noteq> None"
proof -
  assume "has_default cat"
  then have "find (\<lambda>p. p_range p = None) cat \<noteq> None"
    unfolding has_default_def list_ex_iff find_None_iff by blast
  then show ?thesis by (simp add: part_for_def split: option.splits)
qed

lemma rows_of_update:
  assumes "distinct (map p_name cat)" "n \<in> p_name ` set cat"
  shows "mset (all_rows (map (\<lambda>p. if p_name p = n then p\<lparr>p_rows := p_rows p @ [r]\<rparr> else p) cat)) =
    add_mset r (mset (all_rows cat))"
  using assms
proof (induction cat)
  case (Cons p cat)
  show ?case
  proof (cases "p_name p = n")
    case True
    then have "map (\<lambda>p. if p_name p = n then p\<lparr>p_rows := p_rows p @ [r]\<rparr> else p) cat = cat"
      using Cons.prems(1) by (intro map_idI) (auto simp: image_iff)
    then show ?thesis using True by simp
  qed (use Cons in auto)
qed simp

lemma insert_row_rows:
  assumes "distinct (map p_name cat)" "has_default cat"
  shows "mset (all_rows (insert_row r cat)) = add_mset r (mset (all_rows cat))"
proof -
  obtain q where q: "part_for (fst r) cat = Some q" using part_for_default [OF assms(2)] by auto
  then show ?thesis
    using rows_of_update [OF assms(1), of "p_name q"] part_for_in [OF q] by (simp add: insert_row_def)
qed

lemma insert_rows_rows:
  assumes "distinct (map p_name cat)" "has_default cat"
  shows "mset (all_rows (insert_rows rs cat)) = mset (all_rows cat) + mset rs"
  using assms
proof (induction rs arbitrary: cat)
  case (Cons r rs)
  have "distinct (map p_name (insert_row r cat))" "has_default (insert_row r cat)"
    using Cons.prems by (simp_all add: shape_names shape_default)
  then show ?case using Cons insert_row_rows [of cat r] by (simp add: insert_rows_def)
qed (simp add: insert_rows_def)

lemma drop_empty_rows: "\<not> partition_has_rows name cat \<Longrightarrow> all_rows (drop_partition name cat) = all_rows cat"
  by (induction cat) (auto simp: partition_has_rows_def drop_partition_def)

lemma drop_partition_shape: "shape (drop_partition name cat) = filter (\<lambda>s. fst s \<noteq> name) (shape cat)"
  by (simp add: shape_def drop_partition_def filter_map comp_def)

text \<open>One partition: the rows that arrive are kept, and the partition goes only past its grace.\<close>

lemma decide_drop_iff:
  "decide_partition_reclaim ub now grace rows def lock = Drop \<longleftrightarrow>
     (\<exists>u. ub = Some u \<and> u < now - grace) \<and> rows = Some False \<and> \<not> def \<and> lock = Some True"
  by (auto simp: decide_partition_reclaim_def split: option.splits bool.splits)

lemma try_reclaim_one_keeps:
  assumes "try_reclaim_one env name upper now grace cat = (res, cat')"
    and "distinct (map p_name cat)" "has_default cat"
  shows "mset (all_rows cat') = mset (all_rows cat) + mset (arrivals env)"
    and "shape cat' = shape cat \<or> shape cat' = filter (\<lambda>s. fst s \<noteq> name) (shape cat) \<and> upper < now - grace"
proof -
  let ?c = "insert_rows (arrivals env) cat"
  consider "cat' = ?c" | "cat' = drop_partition name ?c" "\<not> partition_has_rows name ?c" "upper < now - grace"
    using assms(1) decide_drop_iff [of "Some upper" now grace _ False "Some True"]
    by (auto simp: try_reclaim_one_def locked_drop_def Let_def split: if_splits option.splits)
  then have "(cat' = ?c \<or> cat' = drop_partition name ?c \<and> upper < now - grace) \<and> all_rows cat' = all_rows ?c"
    by cases (simp_all add: drop_empty_rows)
  then show "mset (all_rows cat') = mset (all_rows cat) + mset (arrivals env)"
    "shape cat' = shape cat \<or> shape cat' = filter (\<lambda>s. fst s \<noteq> name) (shape cat) \<and> upper < now - grace"
    using insert_rows_rows [OF assms(2,3)] by (auto simp: drop_partition_shape)
qed

definition past_grace :: "timestamp \<Rightarrow> int \<Rightarrow> (string \<times> timestamp) list \<Rightarrow> (string \<times> timestamp) list" where
  "past_grace now grace parts = filter (\<lambda>p. snd p < now - grace) parts"

definition arrived :: "(string \<Rightarrow> 'a reclaim_env) \<Rightarrow> (string \<times> timestamp) list \<Rightarrow> 'a prow list" where
  "arrived env parts = concat (map (\<lambda>p. arrivals (env (fst p))) parts)"

lemma default_kept:
  assumes "has_default cat" "distinct (map fst (shape cat))" "name \<notin> fst ` {s \<in> set (shape cat). snd s = None}"
    and "shape cat' = shape cat \<or> shape cat' = filter (\<lambda>s. fst s \<noteq> name) (shape cat) \<and> P"
  shows "has_default cat'" "distinct (map fst (shape cat'))"
    "fst ` {s \<in> set (shape cat'). snd s = None} \<subseteq> fst ` {s \<in> set (shape cat). snd s = None}"
proof -
  show "has_default cat'" using assms(1,3,4) unfolding shape_default by (fastforce simp: image_iff)
  show "distinct (map fst (shape cat'))" using assms(2,4) by (auto simp: distinct_map_filter)
  show "fst ` {s \<in> set (shape cat'). snd s = None} \<subseteq> fst ` {s \<in> set (shape cat). snd s = None}"
    using assms(4) by auto
qed

lemma reclaim_each_keeps:
  assumes "distinct (map p_name cat)" "has_default cat"
    and "fst ` set parts \<inter> fst ` {s \<in> set (shape cat). snd s = None} = {}"
    and "reclaim_each env now grace parts dropped cat = (lost, n, cat')"
  shows "(\<exists>k. mset (all_rows cat') = mset (all_rows cat) + mset (arrived env (take k (past_grace now grace parts))) \<and>
      (lost = None \<longrightarrow> length (past_grace now grace parts) \<le> k)) \<and>
    set (shape cat) - {s. \<exists>u. (fst s, u) \<in> set (past_grace now grace parts)} \<subseteq> set (shape cat')"
  using assms
proof (induction parts arbitrary: dropped cat)
  case Nil
  then show ?case by (auto simp: past_grace_def arrived_def)
next
  case (Cons part parts)
  obtain name upper where part: "part = (name, upper)" by (cases part)
  show ?case
  proof (cases "upper \<ge> now - grace")
    case True
    then show ?thesis using Cons.IH [OF Cons.prems(1,2)] Cons.prems(3,4) part
      by (auto simp: past_grace_def)
  next
    case False
    then have d: "past_grace now grace (part # parts) = part # past_grace now grace parts" by (simp add: past_grace_def part)
    obtain res c where t: "try_reclaim_one (env name) name upper now grace cat = (res, c)" by fastforce
    note one = try_reclaim_one_keeps [OF t Cons.prems(1,2)]
    have notdef: "name \<notin> fst ` {s \<in> set (shape cat). snd s = None}" using Cons.prems(3) part by auto
    note def = default_kept [OF Cons.prems(2) Cons.prems(1) [unfolded shape_names] notdef one(2)]
    have parts: "fst ` set parts \<inter> fst ` {s \<in> set (shape c). snd s = None} = {}"
      using Cons.prems(3) def(3) by auto
    have keep: "set (shape cat) - {s. fst s = name} \<subseteq> set (shape c)" using one(2) by auto
    show ?thesis
    proof (cases "res = Inl Connection_lost")
      case True
      then have "lost = Some Connection_lost" "cat' = c"
        using Cons.prems(4) t False part by auto
      then show ?thesis using one(1) keep d part
        by (intro conjI exI [of _ 1]) (auto simp: arrived_def)
    next
      case False
      then obtain m where r: "reclaim_each env now grace parts m c = (lost, n, cat')"
        using Cons.prems(4) t \<open>\<not> now - grace \<le> upper\<close> part
        by (cases res) (auto split: fault.splits)
      note ih = Cons.IH [OF def(2) [folded shape_names] def(1) parts r]
      then obtain k where k: "mset (all_rows cat') = mset (all_rows c) + mset (arrived env (take k (past_grace now grace parts)))"
        "lost = None \<longrightarrow> length (past_grace now grace parts) \<le> k" by blast
      have "mset (all_rows cat') = mset (all_rows cat) + mset (arrived env (take (Suc k) (past_grace now grace (part # parts))))"
        using k(1) one(1) d part by (simp add: arrived_def)
      then show ?thesis using k(2) ih keep d part by (intro conjI exI [of _ "Suc k"]) auto
    qed
  qed
qed

lemma list_uppers_iff: "(n, u) \<in> set (list_uppers cat) \<longleftrightarrow> (\<exists>lo. (n, Some (lo, u)) \<in> set (shape cat))"
proof -
  have "(n, u) \<in> set (list_uppers cat) \<longleftrightarrow> (\<exists>p\<in>set cat. map_option (\<lambda>r. (p_name p, snd r)) (p_range p) = Some (n, u))"
    unfolding list_uppers_def List.map_filter_def by (force simp: image_iff)
  also have "\<dots> \<longleftrightarrow> (\<exists>p\<in>set cat. \<exists>lo. n = p_name p \<and> p_range p = Some (lo, u))" by auto
  also have "\<dots> \<longleftrightarrow> (\<exists>lo. (n, Some (lo, u)) \<in> set (shape cat))"
    unfolding shape_def set_map image_iff prod.inject eq_commute [of "Some (_, u)"] by blast
  finally show ?thesis .
qed

lemma live_grace_minute: "live_grace s = Inr g \<Longrightarrow> seconds 60 \<le> g"
  by (auto simp: live_grace_def MIN_LIVE_PARTITION_GRACE_SECONDS_def split: sum.splits option.splits)

text \<open>C11: dropping drained partitions of the live table loses no row: whatever rows other sessions insert
  between the look at a partition and its lock, whichever locks are refused and whichever statements
  fail, the table afterwards holds exactly its rows and the rows that arrived; and only range partitions
  go, those whose upper bound lies a grace of at least a minute in the past.\<close>

theorem reclaim_live_loses_no_row:
  assumes "wf_catalog cat" "has_default cat" "live_grace grace_str = Inr grace"
    and "reclaim_drained_live_partitions True True env now grace_str cat = (err, n, cat')"
  shows "(\<exists>k. mset (all_rows cat') = mset (all_rows cat) +
        mset (arrived env (take k (past_grace now grace (sort_key snd (list_uppers cat))))) \<and>
      (err = None \<longrightarrow> length (past_grace now grace (list_uppers cat)) \<le> k)) \<and>
    (\<forall>p\<in>set cat. (p_name p, p_range p) \<notin> set (shape cat') \<longrightarrow>
      (\<exists>lo hi. p_range p = Some (lo, hi) \<and> hi < now - grace)) \<and> seconds 60 \<le> grace"
proof -
  let ?parts = "sort_key snd (list_uppers cat)"
  have dist: "distinct (map p_name cat)" using assms(1) by (simp add: wf_catalog_iff)
  have uniq: "r = s" if "(m, r) \<in> set (shape cat)" "(m, s) \<in> set (shape cat)" for m r s
    using dist that unfolding shape_names by (metis eq_key_imp_eq_value)
  then have disj: "fst ` set ?parts \<inter> fst ` {s \<in> set (shape cat). snd s = None} = {}"
    using list_uppers_iff [of _ _ cat] by fastforce
  obtain lost where r: "reclaim_each env now grace ?parts 0 cat = (lost, n, cat')"
    and err: "err = map_option (\<lambda>_. DatabaseError) lost"
    using assms(3,4) by (auto simp: reclaim_drained_live_partitions_def split: prod.splits)
  note keeps = reclaim_each_keeps [OF dist assms(2) disj r]
  have len: "length (past_grace now grace ?parts) = length (past_grace now grace (list_uppers cat))"
    unfolding past_grace_def by (metis mset_filter mset_sort size_mset)
  have rows: "\<exists>k. mset (all_rows cat') = mset (all_rows cat) + mset (arrived env (take k (past_grace now grace ?parts))) \<and>
      (err = None \<longrightarrow> length (past_grace now grace (list_uppers cat)) \<le> k)"
    using keeps [THEN conjunct1] err len by auto
  have kept: "\<forall>p\<in>set cat. (p_name p, p_range p) \<notin> set (shape cat') \<longrightarrow>
      (\<exists>lo hi. p_range p = Some (lo, hi) \<and> hi < now - grace)"
  proof (intro ballI impI)
    fix p assume p: "p \<in> set cat" "(p_name p, p_range p) \<notin> set (shape cat')"
    then have s: "(p_name p, p_range p) \<in> set (shape cat)" by (auto simp: shape_def)
    then have "\<exists>u. (p_name p, u) \<in> set (past_grace now grace ?parts)"
      using subsetD [OF keeps [THEN conjunct2], of "(p_name p, p_range p)"] p(2) by auto
    then obtain u where "(p_name p, u) \<in> set (list_uppers cat)" "u < now - grace"
      by (auto simp: past_grace_def)
    then show "\<exists>lo hi. p_range p = Some (lo, hi) \<and> hi < now - grace"
      using uniq [OF s] list_uppers_iff by blast
  qed
  show ?thesis using rows kept live_grace_minute [OF assms(3)] by blast
qed

text \<open>A row arrives in a drained partition after the look: the partition stays. The other one goes.\<close>

definition drained_catalog :: "nat catalog" where
  "drained_catalog =
     [\<lparr>p_name = ''q_default'', p_range = None, p_rows = []\<rparr>,
      \<lparr>p_name = ''q_a'', p_range = Some (0, minutes_us 60), p_rows = []\<rparr>,
      \<lparr>p_name = ''q_b'', p_range = Some (minutes_us 60, minutes_us 120), p_rows = []\<rparr>]"

definition late_row :: "string \<Rightarrow> nat reclaim_env" where
  "late_row name =
     \<lparr>look_canceled = False, look_fault = None, arrivals = (if name = ''q_b'' then [(minutes_us 90, 7)] else []),
      nested_txn = False, read_committed = True, lock_refused = False, check_canceled = False,
      detach_refused = False, drop_fault = None\<rparr>"

theorem reclaim_live_loses_no_row_witness:
  "let after = snd (snd (reclaim_drained_live_partitions True True late_row (minutes_us 300) None drained_catalog))
   in shape after = [(''q_default'', None), (''q_b'', Some (minutes_us 60, minutes_us 120))] \<and>
      (\<exists>k. mset (all_rows after) = mset (all_rows drained_catalog) + mset (arrived late_row
         (take k (past_grace (minutes_us 300) (minutes_us 60) (sort_key snd (list_uppers drained_catalog))))))"
proof -
  obtain err n after where r: "reclaim_drained_live_partitions True True late_row (minutes_us 300) None drained_catalog =
      (err, n, after)" by (metis prod_cases3)
  have pre: "wf_catalog drained_catalog" "has_default drained_catalog" "live_grace None = Inr (minutes_us 60)"
    "shape (snd (snd (reclaim_drained_live_partitions True True late_row (minutes_us 300) None drained_catalog))) =
      [(''q_default'', None), (''q_b'', Some (minutes_us 60, minutes_us 120))]"
    by code_simp+
  show ?thesis
    using reclaim_live_loses_no_row [OF pre(1-3) r] pre(4) r by auto
qed

section \<open>Retention\<close>

text \<open>Every row of a range partition has its key in the range.\<close>

definition placed :: "'a catalog \<Rightarrow> bool" where
  "placed cat \<longleftrightarrow> (\<forall>p\<in>set cat. \<forall>r\<in>set (p_rows p). case p_range p of None \<Rightarrow> True | Some s \<Rightarrow> in_range (fst r) s)"

definition reclaimable :: "timestamp \<Rightarrow> ('a prow \<Rightarrow> bool) option \<Rightarrow> 'a partition \<Rightarrow> bool" where
  "reclaimable cutoff live_predicate p \<longleftrightarrow>
     (case p_range p of None \<Rightarrow> False | Some (_, upper) \<Rightarrow> upper \<le> cutoff) \<and>
     (case live_predicate of None \<Rightarrow> True | Some P \<Rightarrow> \<not> list_ex P (p_rows p))"

lemma retention_each_eq:
  assumes "retention_each fails cutoff pred ps dropped detached cat = (n, det, cat')"
  shows "cat' = filter (\<lambda>p. p_name p \<notin> p_name ` set (filter (reclaimable cutoff pred) ps)) cat \<and>
    n + length det = dropped + length detached + length (filter (reclaimable cutoff pred) ps)"
  using assms
proof (induction ps arbitrary: dropped detached cat)
  case (Cons p ps)
  show ?case
  proof (cases "reclaimable cutoff pred p")
    case True
    then have "retention_each fails cutoff pred ps (if fails (p_name p) then dropped else dropped + 1)
        (if fails (p_name p) then detached @ [p] else detached) (drop_partition (p_name p) cat) = (n, det, cat')"
      using Cons.prems by (auto simp: reclaimable_def split: option.splits)
    from Cons.IH [OF this] True show ?thesis
      by (auto simp: drop_partition_def intro!: filter_cong split: if_splits)
  next
    case False
    then have "retention_each fails cutoff pred ps dropped detached cat = (n, det, cat')"
      using Cons.prems by (auto simp: reclaimable_def split: option.splits if_splits)
    from Cons.IH [OF this] False show ?thesis by simp
  qed
qed auto

text \<open>C15: retention never takes live work nor young rows: of the history and of the attempt table, every
  row whose key is not older than the cutoff, every row for which the live predicate holds (an open
  attempt) and every row of the DEFAULT partition is still there afterwards, and the partitions that are
  gone are exactly the ones counted as dropped or left detached because the drop failed.\<close>

theorem retention_keeps_live_work:
  assumes "wf_catalog cat" "placed cat"
    and "reclaim_drained_partitions lock fails cutoff pred cat = (n, detached, cat')"
  shows "(\<forall>r\<in>set (all_rows cat). cutoff \<le> fst r \<or> (\<exists>P. pred = Some P \<and> P r) \<or> r \<in> set (default_rows cat) \<longrightarrow>
      r \<in> set (all_rows cat')) \<and> set cat' \<subseteq> set cat \<and> length cat = length cat' + n + length detached"
proof (cases lock)
  case True
  let ?gone = "reclaimable cutoff pred"
  have eq: "cat' = filter (\<lambda>p. p_name p \<notin> p_name ` set (filter ?gone cat)) cat"
    "n + length detached = length (filter ?gone cat)"
    using retention_each_eq [of fails cutoff pred cat 0 "[]" cat n detached cat'] assms(3) True
    by (auto simp: reclaim_drained_partitions_def)
  have "p_name p \<in> p_name ` set (filter ?gone cat) \<longleftrightarrow> ?gone p" if "p \<in> set cat" for p
    using assms(1) that by (auto simp: wf_catalog_iff distinct_map inj_on_def)
  then have cat': "cat' = filter (\<lambda>p. \<not> ?gone p) cat" unfolding eq(1) by (intro filter_cong) auto
  have keep: "\<not> ?gone p" if "p \<in> set cat" "r \<in> set (p_rows p)"
    "cutoff \<le> fst r \<or> (\<exists>P. pred = Some P \<and> P r) \<or> p_range p = None" for p r
    using that assms(2) by (force simp: reclaimable_def placed_def in_range_def list_ex_iff split: option.splits)
  show ?thesis
    using eq(2) keep sum_length_filter_compl [of ?gone cat]
    unfolding cat' by (fastforce simp: all_rows_def default_rows_def)
qed (use assms(3) in \<open>auto simp: reclaim_drained_partitions_def\<close>)

definition pinned_catalog :: "bool catalog" where
  "pinned_catalog =
     [\<lparr>p_name = ''a_default'', p_range = None, p_rows = []\<rparr>,
      \<lparr>p_name = ''a_1'', p_range = Some (0, 10), p_rows = [(3, False), (4, True)]\<rparr>,
      \<lparr>p_name = ''a_2'', p_range = Some (10, 20), p_rows = [(11, False)]\<rparr>]"

theorem retention_keeps_live_work_witness:
  "(4, True) \<in> set (all_rows (snd (snd (reclaim_drained_partitions True (\<lambda>_. False) 100 (Some snd) pinned_catalog)))) \<and>
   fst (reclaim_drained_partitions True (\<lambda>_. False) 100 (Some snd) pinned_catalog) = 1"
proof -
  obtain n det cat' where r: "reclaim_drained_partitions True (\<lambda>_. False) 100 (Some snd) pinned_catalog = (n, det, cat')"
    by (metis prod_cases3)
  have pre: "wf_catalog pinned_catalog" "placed pinned_catalog" "(4, True) \<in> set (all_rows pinned_catalog)"
    "fst (reclaim_drained_partitions True (\<lambda>_. False) 100 (Some snd) pinned_catalog) = 1" by code_simp+
  show ?thesis using retention_keeps_live_work [OF pre(1,2) r] pre(3,4) r by fastforce
qed

end
