(* ===== verification/Sq_Health.thy ===== *)
theory Sq_Health
  imports Sq_Partition_Laws Sq_Pool Sq_Rotation
begin

text \<open>
  The health probe of the database (\<^verbatim>\<open>core/horizon.py\<close>): thresholds from the settings, the assessment of
  the xmin horizon and of drained live partitions that could not be dropped, the lag of the ready-queue
  rotation (the configuration and health part of \<^verbatim>\<open>core/rotation.py\<close>) and \<^verbatim>\<open>check_horizon\<close>, which combines
  them and never raises. What the queries return, or that they raise, is an argument. A number in a
  string is a decimal literal; infinities and NaN are not modelled.
\<close>

section \<open>Numeric settings\<close>

definition split_sign :: "string \<Rightarrow> rat \<times> string" where
  "split_sign s =
     (case s of
        c # r \<Rightarrow> if c = CHR ''-'' then (- 1, r) else if c = CHR ''+'' then (1, r) else (1, s)
      | [] \<Rightarrow> (1, s))"

definition float_exponent :: "string \<Rightarrow> int option" where
  "float_exponent s =
     (case s of
        [] \<Rightarrow> Some 0
      | c # r \<Rightarrow>
          if c \<noteq> CHR ''e'' \<and> c \<noteq> CHR ''E'' then None
          else (let (sg, ds) = split_sign r
                in if isnumeric ds then Some (if sg < 0 then - int (nat_of_digits ds) else int (nat_of_digits ds))
                   else None))"

definition float_of_str :: "string \<Rightarrow> rat option" where
  "float_of_str s =
     (let (sg, body) = split_sign (py_strip s);
          whole = takeWhile is_digit body; rest = dropWhile is_digit body;
          (fraction, rest') = (case rest of
                                 c # r \<Rightarrow> if c = CHR ''.'' then (takeWhile is_digit r, dropWhile is_digit r) else ([], rest)
                               | [] \<Rightarrow> ([], rest))
      in if whole = [] \<and> fraction = [] then None
         else case float_exponent rest' of
                None \<Rightarrow> None
              | Some e \<Rightarrow>
                  Some (sg * (rat_of_int (int (nat_of_digits (whole @ fraction))) / 10 ^ length fraction) *
                        (if e \<ge> 0 then 10 ^ nat e else 1 / 10 ^ nat (- e))))"

definition cast_float :: "setting \<Rightarrow> rat option" where
  "cast_float v =
     (case v of
        S_int i \<Rightarrow> Some (rat_of_int i)
      | S_bool b \<Rightarrow> Some (if b then 1 else 0)
      | S_float q \<Rightarrow> Some q
      | S_str s \<Rightarrow> float_of_str s
      | _ \<Rightarrow> None)"

definition cast_int :: "setting \<Rightarrow> int option" where
  "cast_int v =
     (case v of
        S_int i \<Rightarrow> Some i
      | S_bool b \<Rightarrow> Some (if b then 1 else 0)
      | S_float q \<Rightarrow> Some (if q \<ge> 0 then \<lfloor>q\<rfloor> else \<lceil>q\<rceil>)
      | S_str s \<Rightarrow> (case int_of_str s of Inl _ \<Rightarrow> None | Inr i \<Rightarrow> Some i)
      | _ \<Rightarrow> None)"

text \<open>The two helpers \<^verbatim>\<open>_num\<close>: the value if it can be read and reaches the minimum, else the default.\<close>

definition num_setting :: "(setting \<Rightarrow> 'n option) \<Rightarrow> ('n::linorder) \<Rightarrow> 'n \<Rightarrow> setting \<Rightarrow> 'n" where
  "num_setting cast minimum dflt v =
     (case cast v of Some x \<Rightarrow> if x \<ge> minimum then x else dflt | None \<Rightarrow> dflt)"

type_synonym getter = "string \<Rightarrow> setting \<Rightarrow> setting"

section \<open>The xmin horizon\<close>

record thresholds =
  max_xmin_age_seconds :: rat
  max_dead_tuple_ratio :: rat
  min_dead_tuples :: int
  max_slot_xid_age :: int

definition default_thresholds :: thresholds where
  "default_thresholds =
     \<lparr>max_xmin_age_seconds = 300, max_dead_tuple_ratio = 1 / 2, min_dead_tuples = 10000,
      max_slot_xid_age = 5000000\<rparr>"

definition thresholds_from_config :: "getter \<Rightarrow> thresholds" where
  "thresholds_from_config get =
     (let d = default_thresholds
      in \<lparr>max_xmin_age_seconds =
            num_setting cast_float 0 (max_xmin_age_seconds d)
              (get ''PG_XMIN_AGE_DEGRADED_SECONDS'' (S_float (max_xmin_age_seconds d))),
          max_dead_tuple_ratio =
            num_setting cast_float 0 (max_dead_tuple_ratio d)
              (get ''PG_DEAD_TUPLE_RATIO_DEGRADED'' (S_float (max_dead_tuple_ratio d))),
          min_dead_tuples =
            num_setting cast_int 0 (min_dead_tuples d) (get ''PG_DEAD_TUPLE_MIN'' (S_int (min_dead_tuples d))),
          max_slot_xid_age =
            num_setting cast_int 0 (max_slot_xid_age d)
              (get ''PG_SLOT_XID_AGE_DEGRADED'' (S_int (max_slot_xid_age d)))\<rparr>)"

definition assess_horizon ::
  "rat option \<Rightarrow> rat option \<Rightarrow> thresholds \<Rightarrow> int option \<Rightarrow> int option \<Rightarrow> health" where
  "assess_horizon oldest_xmin_age dead_tuple_ratio t dead_tuples slot_xid_age =
     (let verdicts =
        (case oldest_xmin_age of
           None \<Rightarrow> [] | Some a \<Rightarrow> [max_xmin_age_seconds t > 0 \<and> a > max_xmin_age_seconds t]) @
        (case slot_xid_age of
           None \<Rightarrow> [] | Some x \<Rightarrow> [max_slot_xid_age t > 0 \<and> x > max_slot_xid_age t]) @
        (case dead_tuple_ratio of
           None \<Rightarrow> []
         | Some r \<Rightarrow>
             [max_dead_tuple_ratio t > 0 \<and>
              (case dead_tuples of None \<Rightarrow> True | Some n \<Rightarrow> n \<ge> min_dead_tuples t) \<and>
              r > max_dead_tuple_ratio t])
      in if verdicts = [] then UNKNOWN else if list_ex (\<lambda>v. v) verdicts then DEGRADED else OK)"

record metrics =
  oldest_xmin_age_seconds :: rat
  slot_xid_age :: int
  dead_tuples :: int
  live_tuples :: int
  dead_tuple_ratio :: rat

text \<open>The row of \<^verbatim>\<open>HORIZON_SQL\<close>: age of the oldest session and prepared transaction, xid age of slots and
  standbys, dead and live tuples; a null counts as 0.\<close>

type_synonym horizon_row = "rat option \<times> rat option \<times> rat option \<times> rat option \<times> rat option \<times> rat option"

definition or_zero :: "rat option \<Rightarrow> rat" where
  "or_zero v = (case v of Some x \<Rightarrow> x | None \<Rightarrow> 0)"

definition trunc :: "rat \<Rightarrow> int" where
  "trunc q = (if q \<ge> 0 then \<lfloor>q\<rfloor> else \<lceil>q\<rceil>)"

definition metrics_from_row :: "horizon_row \<Rightarrow> metrics" where
  "metrics_from_row row =
     (case row of
        (activity, prepared, slot, standby, dead, alive) \<Rightarrow>
          \<lparr>oldest_xmin_age_seconds = max (or_zero activity) (or_zero prepared),
           slot_xid_age = trunc (max (or_zero slot) (or_zero standby)),
           dead_tuples = trunc (or_zero dead), live_tuples = trunc (or_zero alive),
           dead_tuple_ratio = or_zero dead / max (or_zero alive) 1\<rparr>)"

section \<open>Drained live partitions\<close>

definition assess_live_partitions :: "rat list \<Rightarrow> rat \<Rightarrow> health" where
  "assess_live_partitions stuck_ages max_age =
     (if max_age > 0 \<and> list_ex (\<lambda>age. age > max_age) stuck_ages then DEGRADED else OK)"

text \<open>A catalog row: the name, the upper bound (none for the DEFAULT partition), the estimated number of
  rows and the time of the query.\<close>

type_synonym partition_row = "string \<times> timestamp option \<times> int option \<times> timestamp"

definition live_partition_candidates :: "partition_row list \<Rightarrow> int \<Rightarrow> (string \<times> rat \<times> int) list" where
  "live_partition_candidates rows grace =
     sort_key (\<lambda>item. - fst (snd item))
       (List.map_filter
          (\<lambda>(name, bound, rows_estimate, now).
             case bound of
               None \<Rightarrow> None
             | Some upper \<Rightarrow>
                 (let age = total_seconds (now - (upper + grace))
                  in if age > 0 then Some (name, age, case rows_estimate of Some n \<Rightarrow> n | None \<Rightarrow> 0) else None))
          rows)"

definition MAX_PARTITION_PROBES :: nat where
  "MAX_PARTITION_PROBES = 10"

definition DEFAULT_STUCK_PARTITION_SECONDS :: rat where
  "DEFAULT_STUCK_PARTITION_SECONDS = 900"

text \<open>The loop over the overdue partitions: \<open>probe name\<close> is whether the partition holds a row, or nothing if
  the query raises.\<close>

fun count_stuck ::
  "(string \<Rightarrow> bool option) \<Rightarrow> nat \<Rightarrow> (string \<times> rat \<times> int) list \<Rightarrow> rat list \<times> nat \<Rightarrow> rat list \<times> nat" where
  "count_stuck probe probes [] acc = acc"
| "count_stuck probe probes ((name, age, alive) # rest) (stuck, with_rows) =
     (if alive > 0 then count_stuck probe probes rest (stuck, with_rows + 1)
      else if probes < MAX_PARTITION_PROBES then
        (case probe name of
           None \<Rightarrow> count_stuck probe (probes + 1) rest (stuck, with_rows)
         | Some True \<Rightarrow> count_stuck probe (probes + 1) rest (stuck, with_rows + 1)
         | Some False \<Rightarrow> count_stuck probe (probes + 1) rest (stuck @ [age], with_rows))
      else count_stuck probe probes rest (stuck @ [age], with_rows))"

record live_health =
  lh_status :: health
  lh_drained_undroppable :: nat
  lh_oldest_age :: int
  lh_with_rows :: nat
  lh_threshold :: rat

text \<open>\<^verbatim>\<open>str(value)\<close> of a setting, as far as an interval can be read from it: other values have no unit.\<close>

definition setting_text :: "setting \<Rightarrow> string option" where
  "setting_text v =
     (case v of
        S_none \<Rightarrow> None
      | S_str s \<Rightarrow> Some s
      | S_int i \<Rightarrow> Some (show_int i)
      | S_bool b \<Rightarrow> Some (if b then ''True'' else ''False'')
      | _ \<Rightarrow> Some ''?'')"

definition stuck_limit :: "getter \<Rightarrow> rat" where
  "stuck_limit get =
     num_setting cast_float 0 DEFAULT_STUCK_PARTITION_SECONDS
       (get ''PG_LIVE_PARTITION_STUCK_DEGRADED_SECONDS'' (S_float DEFAULT_STUCK_PARTITION_SECONDS))"

text \<open>The grace of the probe: an invalid setting or a zero interval falls back to the default.\<close>

definition probe_grace :: "getter \<Rightarrow> int option result" where
  "probe_grace get =
     (case parse_interval (setting_text (get ''SQLERY_LIVE_PARTITION_GRACE'' (S_str ''1 hour''))) of
        Inl e \<Rightarrow> Inl e
      | Inr (Some g) \<Rightarrow> if g \<noteq> 0 then Inr (Some g) else parse_interval (Some DEFAULT_LIVE_PARTITION_GRACE)
      | Inr None \<Rightarrow> parse_interval (Some DEFAULT_LIVE_PARTITION_GRACE))"

text \<open>\<^verbatim>\<open>check_live_partitions\<close>: nothing when the table is not partitioned; a failure gives an unknown status
  without numbers.\<close>

definition unknown_live :: live_health where
  "unknown_live = \<lparr>lh_status = UNKNOWN, lh_drained_undroppable = 0, lh_oldest_age = 0, lh_with_rows = 0, lh_threshold = 0\<rparr>"

definition check_live_partitions ::
  "getter \<Rightarrow> partition_row list option \<Rightarrow> (string \<Rightarrow> bool option) \<Rightarrow> live_health option" where
  "check_live_partitions get rows probe =
     (case probe_grace get of
        Inl _ \<Rightarrow> Some unknown_live
      | Inr None \<Rightarrow> Some unknown_live
      | Inr (Some grace) \<Rightarrow>
          (case rows of
             None \<Rightarrow> Some unknown_live
           | Some [] \<Rightarrow> None
           | Some (r # rs) \<Rightarrow>
               (case count_stuck probe 0 (live_partition_candidates (r # rs) grace) ([], 0) of
                  (stuck, with_rows) \<Rightarrow>
                    Some \<lparr>lh_status = assess_live_partitions stuck (stuck_limit get),
                          lh_drained_undroppable = length stuck,
                          lh_oldest_age = (case stuck of [] \<Rightarrow> 0 | a # as \<Rightarrow> trunc (fold max as a)),
                          lh_with_rows = with_rows, lh_threshold = stuck_limit get\<rparr>)))"

section \<open>The lag of the rotation\<close>

definition truthy :: "setting \<Rightarrow> bool" where
  "truthy v =
     (case v of
        S_str s \<Rightarrow> lower (py_strip s) \<in> {''1'', ''true'', ''yes'', ''on''}
      | S_none \<Rightarrow> False
      | S_bool b \<Rightarrow> b
      | S_int i \<Rightarrow> i \<noteq> 0
      | S_float q \<Rightarrow> q \<noteq> 0
      | S_other \<Rightarrow> True)"

record rotation_config =
  rc_enabled :: bool
  rc_interval :: rat
  rc_drain_batch :: int
  rc_lag_degraded :: rat

definition lag_threshold :: "rotation_config \<Rightarrow> rat" where
  "lag_threshold c = (if rc_lag_degraded c > 0 then rc_lag_degraded c else 3 * rc_interval c + 60)"

definition rotation_enabled :: "getter \<Rightarrow> bool" where
  "rotation_enabled get = truthy (get ''READY_ROTATION_ENABLED'' (S_bool False))"

definition config_from_getter :: "getter \<Rightarrow> rotation_config" where
  "config_from_getter get =
     \<lparr>rc_enabled = rotation_enabled get,
      rc_interval = num_setting cast_float 1 60 (get ''READY_ROTATION_INTERVAL'' (S_float 60)),
      rc_drain_batch = num_setting cast_int 1 1000 (get ''READY_ROTATION_DRAIN_BATCH'' (S_int 1000)),
      rc_lag_degraded = num_setting cast_float 0 0 (get ''READY_ROTATION_LAG_DEGRADED_SECONDS'' (S_float 0))\<rparr>"

record rotation_health =
  rh_status :: health
  rh_lag :: "int option"

text \<open>\<open>row\<close>: the two timestamp sequences and the clock, nothing if the query raises or there is no
  PostgreSQL; \<open>seq_ts\<close> is \<^verbatim>\<open>_ts\<close>.\<close>

definition status_from_row :: "int \<times> int \<times> rat \<Rightarrow> rotation_config \<Rightarrow> rotation_health" where
  "status_from_row row c =
     (case row of
        (switch_ts, reclaim_ts, now) \<Rightarrow>
          (let lag = rotation_lag now (seq_ts reclaim_ts) (seq_ts switch_ts)
           in \<lparr>rh_status = assess_rotation (rc_enabled c) lag (lag_threshold c),
               rh_lag = map_option trunc lag\<rparr>))"

definition check_rotation :: "getter \<Rightarrow> (int \<times> int \<times> rat) option \<Rightarrow> rotation_health option" where
  "check_rotation get row =
     (let c = config_from_getter get
      in if \<not> rc_enabled c then None
         else case row of
                None \<Rightarrow> Some \<lparr>rh_status = UNKNOWN, rh_lag = None\<rparr>
              | Some r \<Rightarrow> Some (status_from_row r c))"

section \<open>The probe\<close>

text \<open>
  What the database answers: the horizon query raises, the backend is not PostgreSQL, or a row; the row of
  the rotation; the catalog rows of the live table and the probes of its partitions.
\<close>

datatype horizon_query = Query_failed | Not_postgresql | Query_row horizon_row

record probe_env =
  pe_horizon :: horizon_query
  pe_rotation :: "(int \<times> int \<times> rat) option"
  pe_partitions :: "partition_row list option"
  pe_probe :: "string \<Rightarrow> bool option"

record horizon_result =
  hr_status :: health
  hr_metrics :: "metrics option"
  hr_xmin_status :: "health option"
  hr_rotation :: "rotation_health option"
  hr_live :: "live_health option"

definition unknown_result :: horizon_result where
  "unknown_result = \<lparr>hr_status = UNKNOWN, hr_metrics = None, hr_xmin_status = None, hr_rotation = None, hr_live = None\<rparr>"

definition check_horizon :: "getter \<Rightarrow> probe_env \<Rightarrow> horizon_result" where
  "check_horizon get env =
     (case pe_horizon env of
        Query_failed \<Rightarrow> unknown_result
      | Not_postgresql \<Rightarrow> unknown_result
      | Query_row row \<Rightarrow>
          (let m = metrics_from_row row;
               status = assess_horizon (Some (oldest_xmin_age_seconds m)) (Some (dead_tuple_ratio m))
                          (thresholds_from_config get) (Some (dead_tuples m)) (Some (slot_xid_age m));
               rot = check_rotation get (pe_rotation env);
               parts = check_live_partitions get (pe_partitions env) (pe_probe env);
               degrade = (\<lambda>st h. if h = Some DEGRADED then DEGRADED else st)
           in \<lparr>hr_status = degrade (degrade status (map_option rh_status rot)) (map_option lh_status parts),
               hr_metrics = Some m,
               hr_xmin_status = (if rot = None \<and> parts = None then None else Some status),
               hr_rotation = rot, hr_live = parts\<rparr>))"

section \<open>The verdict\<close>

lemma num_setting_minimum: "minimum \<le> dflt \<Longrightarrow> minimum \<le> num_setting cast minimum dflt v"
  by (simp add: num_setting_def split: option.splits)

lemma lag_threshold_positive: "0 < lag_threshold (config_from_getter get)"
  using num_setting_minimum [of 1 60 cast_float "get ''READY_ROTATION_INTERVAL'' (S_float 60)"]
  by (simp add: lag_threshold_def config_from_getter_def)

lemma assess_horizon_degraded:
  "assess_horizon (Some a) (Some r) t (Some n) (Some x) = DEGRADED \<longleftrightarrow>
     0 < max_xmin_age_seconds t \<and> max_xmin_age_seconds t < a \<or>
     0 < max_slot_xid_age t \<and> max_slot_xid_age t < x \<or>
     0 < max_dead_tuple_ratio t \<and> min_dead_tuples t \<le> n \<and> max_dead_tuple_ratio t < r"
  "assess_horizon (Some a) (Some r) t (Some n) (Some x) \<noteq> UNKNOWN"
  by (auto simp: assess_horizon_def Let_def)

lemma check_rotation_degraded:
  "map_option rh_status (check_rotation get row) = Some DEGRADED \<longleftrightarrow>
     rotation_enabled get \<and>
     (\<exists>s c now lag. row = Some (s, c, now) \<and> rotation_lag now (seq_ts c) (seq_ts s) = Some lag \<and>
        lag_threshold (config_from_getter get) < lag)"
  using lag_threshold_positive [of get]
  by (cases row) (auto simp: check_rotation_def status_from_row_def assess_rotation_def Let_def
      config_from_getter_def split: option.splits if_splits prod.splits)

text \<open>The ages of the partitions that count as stuck.\<close>

definition stuck_ages :: "getter \<Rightarrow> probe_env \<Rightarrow> rat list" where
  "stuck_ages get env =
     (case (probe_grace get, pe_partitions env) of
        (Inr (Some grace), Some rows) \<Rightarrow>
          fst (count_stuck (pe_probe env) 0 (live_partition_candidates rows grace) ([], 0))
      | _ \<Rightarrow> [])"

lemma check_live_degraded:
  "map_option lh_status (check_live_partitions get (pe_partitions env) (pe_probe env)) = Some DEGRADED \<longleftrightarrow>
     0 < stuck_limit get \<and> (\<exists>age\<in>set (stuck_ages get env). stuck_limit get < age)"
proof (cases "probe_grace get")
  case (Inr g)
  then show ?thesis
    by (cases g; cases "pe_partitions env"; cases "the (pe_partitions env)")
      (auto simp: check_live_partitions_def stuck_ages_def unknown_live_def assess_live_partitions_def
        live_partition_candidates_def List.map_filter_def list_ex_iff split: prod.splits list.splits)
qed (auto simp: check_live_partitions_def stuck_ages_def unknown_live_def)

lemma count_stuck_sound:
  assumes "age \<in> set (fst (count_stuck probe n cands (stuck, rows)))"
  shows "age \<in> set stuck \<or> (\<exists>name alive. (name, age, alive) \<in> set cands \<and> alive \<le> 0 \<and>
    (probe name = Some False \<or> n + length cands > MAX_PARTITION_PROBES))"
  using assms
proof (induction cands arbitrary: n stuck rows)
  case (Cons c cands)
  obtain name a alive where c: "c = (name, a, alive)" by (metis prod_cases3)
  have step: ?case if "age \<in> set (fst (count_stuck probe n' cands (stuck', rows')))" "n' \<le> n + 1"
    "age \<in> set stuck' \<Longrightarrow> age \<in> set stuck \<or> age = a \<and> alive \<le> 0 \<and>
      (probe name = Some False \<or> MAX_PARTITION_PROBES < n + length (c # cands))" for n' stuck' rows'
    using Cons.IH [OF that(1)] that(2,3) c by (elim disjE exE conjE) auto
  show ?case
  proof (cases "alive > 0 \<or> n < MAX_PARTITION_PROBES")
    case True
    then show ?thesis using Cons.prems c step [of "n + 1" "stuck @ [a]" rows] step [of "n + 1" stuck "rows + 1"]
        step [of "n + 1" stuck rows] step [of n stuck "rows + 1"]
      by (auto split: if_splits option.splits bool.splits)
  next
    case False
    then show ?thesis using Cons.prems c step [of n "stuck @ [a]" rows] by auto
  qed
qed simp

text \<open>The verdict of the health probe, which never raises: it is unknown exactly when the horizon could
  not be measured, and degraded exactly when it was measured and one configured limit is exceeded: the age of
  the oldest snapshot, the xid age of slots and standbys, the share of dead tuples on a table with enough of
  them, the lag of an enabled rotation, or the age of a drained partition that was not dropped.\<close>

theorem check_horizon_verdict:
  "let t = thresholds_from_config get in (hr_status (check_horizon get env) = UNKNOWN \<longleftrightarrow> (\<forall>row. pe_horizon env \<noteq> Query_row row)) \<and>
    (hr_status (check_horizon get env) = DEGRADED \<longleftrightarrow>
      (\<exists>row. pe_horizon env = Query_row row \<and>
        (0 < max_xmin_age_seconds t \<and> max_xmin_age_seconds t < oldest_xmin_age_seconds (metrics_from_row row) \<or>
         0 < max_slot_xid_age t \<and> max_slot_xid_age t < slot_xid_age (metrics_from_row row) \<or>
         0 < max_dead_tuple_ratio t \<and> min_dead_tuples t \<le> dead_tuples (metrics_from_row row) \<and>
           max_dead_tuple_ratio t < dead_tuple_ratio (metrics_from_row row) \<or>
         rotation_enabled get \<and> (\<exists>s c now lag. pe_rotation env = Some (s, c, now) \<and>
           rotation_lag now (seq_ts c) (seq_ts s) = Some lag \<and> lag_threshold (config_from_getter get) < lag) \<or>
         0 < stuck_limit get \<and> (\<exists>age\<in>set (stuck_ages get env). stuck_limit get < age))))"
proof (cases "pe_horizon env")
  case (Query_row row)
  define t where "t = thresholds_from_config get"
  let ?m = "metrics_from_row row"
  let ?st = "assess_horizon (Some (oldest_xmin_age_seconds ?m)) (Some (dead_tuple_ratio ?m)) t (Some (dead_tuples ?m))
    (Some (slot_xid_age ?m))"
  have st: "hr_status (check_horizon get env) =
    (if map_option lh_status (check_live_partitions get (pe_partitions env) (pe_probe env)) = Some DEGRADED then DEGRADED
     else if map_option rh_status (check_rotation get (pe_rotation env)) = Some DEGRADED then DEGRADED else ?st)"
    by (simp add: check_horizon_def Query_row Let_def t_def del: map_option_eq_Some)
  show ?thesis unfolding Let_def t_def [symmetric] st check_live_degraded check_rotation_degraded
    using assess_horizon_degraded Query_row by (auto split: if_splits)
qed (simp_all add: check_horizon_def unknown_result_def)

end
