(* ===== verification/Sq_Url.thy ===== *)
theory Sq_Url
  imports Sq_Crontab Sq_Utils
begin

text \<open>
  Outbound webhook addresses (\<^verbatim>\<open>security/ssrf.py\<close>): the denylists, \<^verbatim>\<open>resolve_webhook_url\<close> and \<^verbatim>\<open>pin_url\<close>, on
  models of the parts of \<^verbatim>\<open>ipaddress\<close> and \<^verbatim>\<open>urllib.parse\<close> they use: parsing and printing of IPv4 and IPv6
  addresses, and the split of a URL into its components. Strings are ASCII. What \<^verbatim>\<open>socket.getaddrinfo\<close>
  answers is an argument.
\<close>

section \<open>String methods\<close>

text \<open>\<^verbatim>\<open>s.partition(c)\<close> and \<^verbatim>\<open>s.rpartition(c)\<close>; the middle component tells whether the separator occurs.\<close>

definition py_partition :: "char \<Rightarrow> string \<Rightarrow> string \<times> bool \<times> string" where
  "py_partition c s =
     (case dropWhile (\<lambda>x. x \<noteq> c) s of
        [] \<Rightarrow> (s, False, [])
      | _ # r \<Rightarrow> (takeWhile (\<lambda>x. x \<noteq> c) s, True, r))"

definition py_rpartition :: "char \<Rightarrow> string \<Rightarrow> string \<times> bool \<times> string" where
  "py_rpartition c s =
     (case py_partition c (rev s) of
        (a, True, b) \<Rightarrow> (rev b, True, rev a)
      | (a, False, b) \<Rightarrow> ([], False, s))"

definition is_letter :: "char \<Rightarrow> bool" where
  "is_letter c \<longleftrightarrow> (let n = (of_char c :: nat) in 65 \<le> n \<and> n \<le> 90 \<or> 97 \<le> n \<and> n \<le> 122)"

section \<open>IP addresses\<close>

text \<open>\<^verbatim>\<open>int(s)\<close> of decimal digits.\<close>

definition int_of_digits :: "string \<Rightarrow> int" where
  "int_of_digits = foldl (\<lambda>acc c. acc * 10 + (of_char c - 48)) 0"

datatype ip = IPv4 int | IPv6 int "string option"

definition parse_octet :: "string \<Rightarrow> int option" where
  "parse_octet s =
     (if \<not> isnumeric s \<or> length s > 3 \<or> s \<noteq> ''0'' \<and> hd s = CHR ''0'' \<or> int_of_digits s > 255 then None
      else Some (int_of_digits s))"

definition parse_ipv4 :: "string \<Rightarrow> int option" where
  "parse_ipv4 s =
     (case map parse_octet (split_on CHR ''.'' s) of
        [Some a, Some b, Some c, Some d] \<Rightarrow> Some (((a * 256 + b) * 256 + c) * 256 + d)
      | _ \<Rightarrow> None)"

definition hex_digit :: "char \<Rightarrow> int option" where
  "hex_digit c =
     (let n = (of_char c :: int)
      in if 48 \<le> n \<and> n \<le> 57 then Some (n - 48)
         else if 97 \<le> n \<and> n \<le> 102 then Some (n - 87)
         else if 65 \<le> n \<and> n \<le> 70 then Some (n - 55)
         else None)"

definition parse_hextet :: "string \<Rightarrow> int option" where
  "parse_hextet s =
     (if s = [] \<or> length s > 4 \<or> \<not> list_all (\<lambda>c. hex_digit c \<noteq> None) s then None
      else Some (foldl (\<lambda>acc c. acc * 16 + the (hex_digit c)) 0 s))"

definition hextets_value :: "int list \<Rightarrow> int" where
  "hextets_value = foldl (\<lambda>acc h. acc * 65536 + h) 0"

definition hex_char :: "int \<Rightarrow> char" where
  "hex_char d = ''0123456789abcdef'' ! nat (d mod 16)"

function show_hex :: "int \<Rightarrow> string" where
  "show_hex n = (if n < 16 then [hex_char n] else show_hex (n div 16) @ [hex_char n])"
  by pat_completeness auto
termination
  by (relation "measure nat") auto

declare show_hex.simps [simp del]

text \<open>The parts of an IPv6 address, with an embedded IPv4 suffix converted.\<close>

definition ipv6_parts :: "string \<Rightarrow> string list option" where
  "ipv6_parts s =
     (let parts = split_on CHR '':'' s
      in if length parts < 3 then None
         else if CHR ''.'' \<in> set (last parts)
         then (case parse_ipv4 (last parts) of
                 None \<Rightarrow> None
               | Some v \<Rightarrow> Some (butlast parts @ [show_hex (v div 65536), show_hex (v mod 65536)]))
         else Some parts)"

definition all_some :: "'a option list \<Rightarrow> 'a list option" where
  "all_some xs = (if None \<in> set xs then None else Some (map the xs))"

definition ipv6_of_parts :: "string list \<Rightarrow> int option" where
  "ipv6_of_parts parts =
     (if length parts > 9 then None
      else case filter (\<lambda>i. parts ! i = []) [1..<length parts - 1] of
        [] \<Rightarrow>
          if length parts \<noteq> 8 \<or> hd parts = [] \<or> last parts = [] then None
          else map_option hextets_value (all_some (map parse_hextet parts))
      | [k] \<Rightarrow>
          (let hi = (if hd parts = [] then k - 1 else k);
               lo0 = length parts - k - 1;
               lo = (if last parts = [] then lo0 - 1 else lo0)
           in if hd parts = [] \<and> hi \<noteq> 0 \<or> last parts = [] \<and> lo \<noteq> 0 \<or> hi + lo \<ge> 8 then None
              else map_option hextets_value
                     (all_some (map parse_hextet (take hi parts) @ replicate (8 - (hi + lo)) (Some 0) @
                                map parse_hextet (drop (length parts - lo) parts))))
      | _ \<Rightarrow> None)"

definition parse_ipv6 :: "string \<Rightarrow> (int \<times> string option) option" where
  "parse_ipv6 s =
     (case py_partition CHR ''%'' s of
        (addr, scoped, scope) \<Rightarrow>
          if scoped \<and> (scope = [] \<or> CHR ''%'' \<in> set scope) then None
          else case Option.bind (ipv6_parts addr) ipv6_of_parts of
                 None \<Rightarrow> None
               | Some v \<Rightarrow> Some (v, if scoped then Some scope else None))"

definition ip_address :: "string \<Rightarrow> ip option" where
  "ip_address s =
     (if CHR ''/'' \<in> set s then None
      else case parse_ipv4 s of
             Some v \<Rightarrow> Some (IPv4 v)
           | None \<Rightarrow> map_option (\<lambda>(v, sc). IPv6 v sc) (parse_ipv6 s))"

text \<open>Printing: dotted decimals, or hextets with the first longest run of zeros compressed; an IPv4-mapped
  address keeps its dotted suffix.\<close>

definition show_ipv4 :: "int \<Rightarrow> string" where
  "show_ipv4 v =
     show_int (v div 16777216) @ ''.'' @ show_int (v div 65536 mod 256) @ ''.'' @
     show_int (v div 256 mod 256) @ ''.'' @ show_int (v mod 256)"

definition hextets_of :: "int \<Rightarrow> int list" where
  "hextets_of v = map (\<lambda>i. v div 65536 ^ (7 - i) mod 65536) [0..<8]"

fun zero_runs :: "nat \<Rightarrow> int list \<Rightarrow> (nat \<times> nat) list" where
  "zero_runs i [] = []"
| "zero_runs i (h # hs) = (length (takeWhile (\<lambda>x. x = 0) (h # hs)), i) # zero_runs (i + 1) hs"

definition best_run :: "int list \<Rightarrow> nat \<times> nat" where
  "best_run hs = fold (\<lambda>r best. if fst r > fst best then r else best) (zero_runs 0 hs) (0, 0)"

fun join_colon :: "string list \<Rightarrow> string" where
  "join_colon [] = []"
| "join_colon [x] = x"
| "join_colon (x # y # ys) = x @ '':'' @ join_colon (y # ys)"

definition show_hextets :: "int list \<Rightarrow> string" where
  "show_hextets hs =
     (case best_run hs of
        (n, start) \<Rightarrow>
          if n > 1
          then join_colon ((if start = 0 then [[]] else []) @ map show_hex (take start hs) @ [[]] @
                 map show_hex (drop (start + n) hs) @ (if start + n = length hs then [[]] else []))
          else join_colon (map show_hex hs))"

definition show_ipv6 :: "int \<Rightarrow> string" where
  "show_ipv6 v =
     (if v div 4294967296 = 65535 then ''::ffff:'' @ show_ipv4 (v mod 4294967296)
      else show_hextets (hextets_of v))"

definition show_ip :: "ip \<Rightarrow> string" where
  "show_ip a =
     (case a of
        IPv4 v \<Rightarrow> show_ipv4 v
      | IPv6 v None \<Rightarrow> show_ipv6 v
      | IPv6 v (Some scope) \<Rightarrow> show_ipv6 v @ ''%'' @ scope)"

section \<open>The denylists\<close>

text \<open>A network: an address and the length of its prefix.\<close>

definition in_net4 :: "int \<Rightarrow> string \<times> nat \<Rightarrow> bool" where
  "in_net4 v net =
     (case net of
        (a, len) \<Rightarrow>
          (case parse_ipv4 a of None \<Rightarrow> False | Some n \<Rightarrow> v div 2 ^ (32 - len) = n div 2 ^ (32 - len)))"

definition in_net6 :: "int \<Rightarrow> string \<times> nat \<Rightarrow> bool" where
  "in_net6 v net =
     (case net of
        (a, len) \<Rightarrow>
          (case parse_ipv6 a of
             None \<Rightarrow> False | Some (n, _) \<Rightarrow> v div 2 ^ (128 - len) = n div 2 ^ (128 - len)))"

definition BLOCKED_V4_NETS :: "(string \<times> nat) list" where
  "BLOCKED_V4_NETS =
     [(''127.0.0.0'', 8), (''10.0.0.0'', 8), (''172.16.0.0'', 12), (''192.168.0.0'', 16),
      (''169.254.0.0'', 16), (''0.0.0.0'', 8), (''100.64.0.0'', 10)]"

definition BLOCKED_V6_NETS :: "(string \<times> nat) list" where
  "BLOCKED_V6_NETS = [(''::1'', 128), (''::'', 128), (''fe80::'', 10), (''fc00::'', 7)]"

definition BLOCKED_HOSTNAMES :: "string list" where
  "BLOCKED_HOSTNAMES = [''localhost'', ''metadata.google.internal'', ''metadata'']"

definition LOOPBACK_V4 :: "string \<times> nat" where "LOOPBACK_V4 = (''127.0.0.0'', 8)"
definition LOOPBACK_V6 :: "string \<times> nat" where "LOOPBACK_V6 = (''::1'', 128)"

definition ip_blocked :: "ip \<Rightarrow> bool \<Rightarrow> bool" where
  "ip_blocked a allow_loopback =
     (case a of
        IPv4 v \<Rightarrow>
          list_ex (\<lambda>net. in_net4 v net \<and> \<not> (allow_loopback \<and> net = LOOPBACK_V4)) BLOCKED_V4_NETS
      | IPv6 v _ \<Rightarrow>
          list_ex (\<lambda>net. in_net6 v net \<and> \<not> (allow_loopback \<and> net = LOOPBACK_V6)) BLOCKED_V6_NETS)"

section \<open>URLs\<close>

record url_parts =
  u_scheme :: string
  u_netloc :: string
  u_path :: string
  u_params :: string
  u_query :: string
  u_fragment :: string

definition scheme_char :: "char \<Rightarrow> bool" where
  "scheme_char c \<longleftrightarrow> is_letter c \<or> is_digit c \<or> c \<in> {CHR ''+'', CHR ''-'', CHR ''.''}"

definition split_scheme :: "string \<Rightarrow> string \<times> string" where
  "split_scheme url =
     (case py_partition CHR '':'' url of
        (s, found, rest) \<Rightarrow>
          if found \<and> s \<noteq> [] \<and> is_letter (hd s) \<and> list_all scheme_char s then (lower s, rest) else ([], url))"

definition ends_netloc :: "char \<Rightarrow> bool" where
  "ends_netloc c \<longleftrightarrow> c \<in> {CHR ''/'', CHR ''?'', CHR ''#''}"

text \<open>\<^verbatim>\<open>_check_bracketed_host\<close>: an IPv6 address or an IPvFuture literal.\<close>

definition ipv_future :: "string \<Rightarrow> bool" where
  "ipv_future s =
     (case py_partition CHR ''.'' s of
        (v, found, rest) \<Rightarrow>
          found \<and> rest \<noteq> [] \<and> CHR 0x0A \<notin> set rest \<and> v \<noteq> [] \<and> hd v = CHR ''v'' \<and> tl v \<noteq> [] \<and>
          list_all (\<lambda>c. hex_digit c \<noteq> None) (tl v))"

definition bracketed_host_ok :: "string \<Rightarrow> bool" where
  "bracketed_host_ok h =
     (if startswith h ''v'' then ipv_future h
      else case ip_address h of Some (IPv6 _ _) \<Rightarrow> True | _ \<Rightarrow> False)"

definition netloc_ok :: "string \<Rightarrow> bool" where
  "netloc_ok netloc =
     (let opening = CHR ''['' \<in> set netloc; closing = CHR '']'' \<in> set netloc
      in opening = closing \<and>
         (opening \<longrightarrow>
          bracketed_host_ok (fst (py_partition CHR '']'' (snd (snd (py_partition CHR ''['' netloc)))))))"

definition splits_params :: "string \<Rightarrow> string \<Rightarrow> string \<times> string" where
  "splits_params scheme path =
     (if scheme \<notin> {''http'', ''https'', ''ftp'', ''hdl'', ''prospero'', ''imap'', ''shttp'', ''rtsp'',
        ''rtsps'', ''rtspu'', ''sip'', ''sips'', ''mms'', ''sftp'', ''tel'', []} then (path, [])
      else let (dir, slash, seg) = py_rpartition CHR ''/'' path;
               (base, found, params) = py_partition CHR '';'' seg
           in if found then ((if slash then dir @ ''/'' else []) @ base, params) else (path, []))"

text \<open>\<^verbatim>\<open>urlparse\<close>: leading blanks and control characters, and tabs and line breaks anywhere, are removed;
  bad brackets raise \<^verbatim>\<open>ValueError\<close>.\<close>

definition strip_url :: "string \<Rightarrow> string" where
  "strip_url url =
     filter (\<lambda>c. c \<notin> {CHR 0x09, CHR 0x0A, CHR 0x0D}) (dropWhile (\<lambda>c. (of_char c :: int) \<le> 32) url)"

definition urlparse :: "string \<Rightarrow> url_parts result" where
  "urlparse url =
     (case split_scheme (strip_url url) of
        (scheme, rest) \<Rightarrow>
          (let authority = startswith rest ''//'';
               netloc = (if authority then takeWhile (\<lambda>c. \<not> ends_netloc c) (drop 2 rest) else []);
               tail = (if authority then dropWhile (\<lambda>c. \<not> ends_netloc c) (drop 2 rest) else rest)
           in if authority \<and> \<not> netloc_ok netloc then Inl ValueError
              else let (front, _, fragment) = py_partition CHR ''#'' tail;
                       (path0, _, query) = py_partition CHR ''?'' front;
                       (path, params) = splits_params scheme path0
                   in Inr \<lparr>u_scheme = scheme, u_netloc = netloc, u_path = path, u_params = params,
                           u_query = query, u_fragment = fragment\<rparr>))"

text \<open>\<^verbatim>\<open>geturl\<close>; of the schemes that always have a network location only http and https matter here.\<close>

definition geturl :: "url_parts \<Rightarrow> string" where
  "geturl u =
     (let path = u_path u @ (if u_params u = [] then [] else '';'' @ u_params u);
          body = (if u_netloc u \<noteq> [] \<or> startswith path ''//'' \<or> u_scheme u \<in> {''http'', ''https''}
                  then ''//'' @ u_netloc u @ (if path \<noteq> [] \<and> hd path \<noteq> CHR ''/'' then ''/'' else []) @ path
                  else path)
      in (if u_scheme u = [] then [] else u_scheme u @ '':'') @ body @
         (if u_query u = [] then [] else ''?'' @ u_query u) @
         (if u_fragment u = [] then [] else ''#'' @ u_fragment u))"

text \<open>The properties of a parse result that read its network location.\<close>

definition hostinfo :: "string \<Rightarrow> string \<times> string option" where
  "hostinfo netloc =
     (let (_, _, info) = py_rpartition CHR ''@'' netloc;
          (before, bracket, inner) = py_partition CHR ''['' info;
          (host, port) =
            (if bracket
             then (let (h, _, after) = py_partition CHR '']'' inner in (h, snd (snd (py_partition CHR '':'' after))))
             else (let (h, _, p) = py_partition CHR '':'' info in (h, p)))
      in (host, if port = [] then None else Some port))"

definition hostname :: "string \<Rightarrow> string option" where
  "hostname netloc =
     (let host = fst (hostinfo netloc)
      in if host = [] then None
         else let (h, percent, zone) = py_partition CHR ''%'' host
              in Some (lower h @ (if percent then ''%'' else []) @ zone))"

definition url_port :: "string \<Rightarrow> int option result" where
  "url_port netloc =
     (case snd (hostinfo netloc) of
        None \<Rightarrow> Inr None
      | Some p \<Rightarrow>
          if \<not> isnumeric p \<or> int_of_digits p > 65535 then Inl ValueError else Inr (Some (int_of_digits p)))"

definition userinfo :: "string \<Rightarrow> (string \<times> string option) option" where
  "userinfo netloc =
     (case py_rpartition CHR ''@'' netloc of
        (_, False, _) \<Rightarrow> None
      | (info, True, _) \<Rightarrow>
          (case py_partition CHR '':'' info of
             (user, have, password) \<Rightarrow> Some (user, if have then Some password else None)))"

section \<open>Resolving and pinning\<close>

record resolved_target =
  rt_scheme :: string
  rt_host :: string
  rt_port :: "int option"
  rt_ip :: string

text \<open>The outcome of the validation: blocked (\<^verbatim>\<open>WebhookURLBlocked\<close>) or another exception that escapes.\<close>

datatype resolve_failure = Blocked | Escapes py_error

definition explicit_port :: "string \<Rightarrow> resolve_failure + int option" where
  "explicit_port netloc = (case url_port netloc of Inl _ \<Rightarrow> Inl Blocked | Inr p \<Rightarrow> Inr p)"

text \<open>The loop over the answers of \<^verbatim>\<open>getaddrinfo\<close>: \<open>chosen\<close> is the first accepted address.\<close>

fun check_answers :: "bool \<Rightarrow> string list \<Rightarrow> string option \<Rightarrow> string option option" where
  "check_answers allow [] chosen = Some chosen"
| "check_answers allow (s # ss) chosen =
     (case ip_address s of
        None \<Rightarrow> None
      | Some a \<Rightarrow>
          if ip_blocked a allow then None
          else check_answers allow ss (case chosen of None \<Rightarrow> Some (show_ip a) | Some _ \<Rightarrow> chosen))"

definition webhook_host :: "string \<Rightarrow> string" where
  "webhook_host netloc = (case hostname netloc of Some h \<Rightarrow> lower h | None \<Rightarrow> [])"

definition resolve_webhook_url ::
  "(string \<Rightarrow> string list option) \<Rightarrow> bool \<Rightarrow> string \<Rightarrow> resolve_failure + resolved_target" where
  "resolve_webhook_url getaddrinfo allow_loopback url =
     (case urlparse url of
        Inl e \<Rightarrow> Inl (Escapes e)
      | Inr parsed \<Rightarrow>
          if u_scheme parsed \<notin> {''http'', ''https''} then Inl Blocked
          else (let host = webhook_host (u_netloc parsed);
                    target = (\<lambda>ip. case explicit_port (u_netloc parsed) of
                                     Inl f \<Rightarrow> Inl f
                                   | Inr p \<Rightarrow> Inr \<lparr>rt_scheme = u_scheme parsed, rt_host = host, rt_port = p, rt_ip = ip\<rparr>)
                in if host = [] then Inl Blocked
                   else if host \<in> set BLOCKED_HOSTNAMES then Inl Blocked
                   else case ip_address host of
                          Some a \<Rightarrow> if ip_blocked a allow_loopback then Inl Blocked else target (show_ip a)
                        | None \<Rightarrow>
                            (case getaddrinfo host of
                               None \<Rightarrow> Inl Blocked
                             | Some infos \<Rightarrow>
                                 (case check_answers allow_loopback infos None of
                                    None \<Rightarrow> Inl Blocked
                                  | Some None \<Rightarrow> Inl Blocked
                                  | Some (Some ip) \<Rightarrow> target ip))))"

definition bracketed :: "string \<Rightarrow> string" where
  "bracketed h = (if CHR '':'' \<in> set h then ''['' @ h @ '']'' else h)"

definition port_part :: "int option \<Rightarrow> string" where
  "port_part p = (case p of Some n \<Rightarrow> if n = 0 then [] else '':'' @ show_int n | None \<Rightarrow> [])"

definition pinned_netloc :: "string \<Rightarrow> resolved_target \<Rightarrow> string" where
  "pinned_netloc netloc target =
     (case userinfo netloc of
        None \<Rightarrow> []
      | Some (user, password) \<Rightarrow>
          user @ (case password of Some (c # cs) \<Rightarrow> '':'' @ c # cs | _ \<Rightarrow> []) @ ''@'') @
     bracketed (rt_ip target) @ port_part (rt_port target)"

definition pin_url :: "string \<Rightarrow> resolved_target \<Rightarrow> (string \<times> string) result" where
  "pin_url url target =
     (case urlparse url of
        Inl e \<Rightarrow> Inl e
      | Inr parsed \<Rightarrow>
          Inr (geturl (parsed\<lparr>u_netloc := pinned_netloc (u_netloc parsed) target\<rparr>),
               bracketed (rt_host target) @ port_part (rt_port target)))"

section \<open>Partitions of strings\<close>

lemma partition_found: "c \<notin> set a \<Longrightarrow> py_partition c (a @ c # b) = (a, True, b)"
  by (induction a) (auto simp: py_partition_def split: list.splits)

lemma partition_absent: "c \<notin> set s \<Longrightarrow> py_partition c s = (s, False, [])"
proof -
  assume "c \<notin> set s"
  then have "dropWhile (\<lambda>x. x \<noteq> c) s = []" by (auto simp: dropWhile_eq_Nil_conv)
  then show ?thesis by (simp only: py_partition_def list.case)
qed

lemma rpartition_found: "c \<notin> set b \<Longrightarrow> py_rpartition c (a @ c # b) = (a, True, b)"
  using partition_found [of c "rev b" "rev a"] by (simp add: py_rpartition_def)

lemma rpartition_absent: "c \<notin> set s \<Longrightarrow> py_rpartition c s = ([], False, s)"
  using partition_absent [of c "rev s"] by (simp add: py_rpartition_def)

lemma partition_cases:
  obtains (absent) "c \<notin> set s" "py_partition c s = (s, False, [])"
  | (found) a b where "s = a @ c # b" "c \<notin> set a" "py_partition c s = (a, True, b)"
proof (cases "c \<in> set s")
  case True
  then obtain a b where "s = a @ c # b" "c \<notin> set a" by (metis split_list_first)
  then show ?thesis using found partition_found by metis
qed (use absent partition_absent in auto)

lemma rpartition_cases:
  obtains (absent) "c \<notin> set s" "py_rpartition c s = ([], False, s)"
  | (found) a b where "s = a @ c # b" "c \<notin> set b" "py_rpartition c s = (a, True, b)"
proof (cases "c \<in> set s")
  case True
  then obtain a b where "s = a @ c # b" "c \<notin> set b" by (metis split_list_last)
  then show ?thesis using found rpartition_found by metis
qed (use absent rpartition_absent in auto)

lemma partition_subset:
  assumes "py_partition c s = (a, f, b)"
  shows "set a \<subseteq> set s" "set b \<subseteq> set s" "c \<notin> set a" "f \<longleftrightarrow> c \<in> set s"
  using assms by (cases rule: partition_cases [of c s]; auto)+

lemma rpartition_subset:
  assumes "py_rpartition c s = (a, f, b)"
  shows "set a \<subseteq> set s" "set b \<subseteq> set s" "c \<notin> set b"
  using assms by (cases rule: rpartition_cases [of c s]; auto)+

section \<open>The characters of printed addresses\<close>

definition safe_char :: "char \<Rightarrow> bool" where
  "safe_char c \<longleftrightarrow> c \<notin> {CHR ''@'', CHR ''/'', CHR ''?'', CHR ''#'', CHR '']'', CHR 0x09, CHR 0x0A, CHR 0x0D}"

definition plain_char :: "char \<Rightarrow> bool" where
  "plain_char c \<longleftrightarrow> c \<in> set ''0123456789abcdef.-:''"

lemma plain_safe: "plain_char c \<Longrightarrow> safe_char c" "plain_char c \<Longrightarrow> c \<noteq> CHR ''%''" "plain_char c \<Longrightarrow> c \<noteq> CHR ''[''"
  by (auto simp: plain_char_def safe_char_def)

lemma lower_char_plain:
  "plain_char c \<Longrightarrow> (if 65 \<le> (of_char c :: nat) \<and> (of_char c :: nat) \<le> 90 then char_of (of_char c + 32 :: nat) else c) = c"
  by (auto simp: plain_char_def)

lemma lower_plain: "list_all plain_char s \<Longrightarrow> lower s = s"
  unfolding lower_def by (rule map_idI) (use lower_char_plain in \<open>auto simp: list_all_iff\<close>)

lemma digit_plain: "is_digit c \<Longrightarrow> plain_char c"
  by (auto simp: is_digit_def plain_char_def)

lemma show_int_plain: "list_all plain_char (show_int n)"
proof -
  have "list_all plain_char (show_nat m)" for m
    using show_nat_digits [of m] digit_plain by (auto simp: list_all_iff)
  then show ?thesis by (simp add: show_int_def plain_char_def)
qed

lemma hex_char_plain: "plain_char (hex_char d)"
proof -
  have "nat (d mod 16) < length ''0123456789abcdef''" by (simp add: nat_less_iff)
  then have "hex_char d \<in> set ''0123456789abcdef''" unfolding hex_char_def by (rule nth_mem)
  then show ?thesis by (auto simp: plain_char_def)
qed

lemma show_hex_plain: "list_all plain_char (show_hex n)"
  by (induction n rule: show_hex.induct) (subst show_hex.simps, simp add: hex_char_plain)

lemma join_colon_plain: "\<forall>x\<in>set xs. list_all plain_char x \<Longrightarrow> list_all plain_char (join_colon xs)"
  by (induction xs rule: join_colon.induct) (auto simp: plain_char_def)

lemma join_colon_colon: "2 \<le> length xs \<Longrightarrow> CHR '':'' \<in> set (join_colon xs)"
  by (induction xs rule: join_colon.induct) auto

lemma show_ipv4_plain: "list_all plain_char (show_ipv4 v)"
  using show_int_plain by (simp add: show_ipv4_def plain_char_def)

lemma show_ipv6_plain: "list_all plain_char (show_ipv6 v)"
proof -
  have "list_all plain_char (show_hextets hs)" for hs
    unfolding show_hextets_def using show_hex_plain
    by (auto simp: plain_char_def split: prod.splits intro!: join_colon_plain)
  then show ?thesis using show_ipv4_plain by (simp add: show_ipv6_def plain_char_def)
qed

lemma show_ipv6_colon: "CHR '':'' \<in> set (show_ipv6 v)"
proof -
  obtain n start where b: "best_run (hextets_of v) = (n, start)" by fastforce
  have len: "length (hextets_of v) = 8" by (simp add: hextets_of_def)
  have "CHR '':'' \<in> set (show_hextets (hextets_of v))"
    unfolding show_hextets_def b prod.case
    by (cases "start = 0"; cases "n > 1"; simp only: if_True if_False; rule join_colon_colon)
      (simp_all add: len)
  then show ?thesis by (simp add: show_ipv6_def)
qed

section \<open>The pinned URL names the checked address\<close>

definition wf_ip :: "ip \<Rightarrow> bool" where
  "wf_ip a = (case a of IPv6 _ (Some scope) \<Rightarrow> list_all safe_char scope | _ \<Rightarrow> True)"

definition good_ip :: "string \<Rightarrow> bool" where
  "good_ip s \<longleftrightarrow> s \<noteq> [] \<and> list_all safe_char s \<and> (CHR '':'' \<notin> set s \<longrightarrow> CHR ''['' \<notin> set s) \<and>
     lower (fst (py_partition CHR ''%'' s)) = fst (py_partition CHR ''%'' s)"

lemma plain_good: "list_all plain_char s \<Longrightarrow> s \<noteq> [] \<Longrightarrow> good_ip s"
proof -
  assume s: "list_all plain_char s" "s \<noteq> []"
  then have no: "CHR ''%'' \<notin> set s" using plain_safe(2) by (auto simp: list_all_iff)
  show "good_ip s"
    using s plain_safe(1,3) partition_absent [OF no] lower_plain [OF s(1)] by (auto simp: good_ip_def list_all_iff)
qed

lemma good_show_ip:
  assumes "wf_ip a"
  shows "good_ip (show_ip a)"
proof -
  have v6: "good_ip (show_ipv6 v)" for v
    by (rule plain_good [OF show_ipv6_plain]) (use show_ipv6_colon [of v] in auto)
  show ?thesis
  proof (cases a)
    case (IPv4 v)
    have "show_ipv4 v \<noteq> []" by (simp add: show_ipv4_def)
    then show ?thesis using IPv4 plain_good [OF show_ipv4_plain] by (simp add: show_ip_def)
  next
    case (IPv6 v sc)
    show ?thesis
    proof (cases sc)
      case None
      then show ?thesis using IPv6 v6 by (simp add: show_ip_def)
    next
      case (Some scope)
      have no: "CHR ''%'' \<notin> set (show_ipv6 v)" using show_ipv6_plain [of v] plain_safe(2) by (auto simp: list_all_iff)
      have "show_ip a = show_ipv6 v @ CHR ''%'' # scope" using IPv6 Some by (simp add: show_ip_def)
      then show ?thesis
        using partition_found [OF no] show_ipv6_colon [of v] show_ipv6_plain [of v] plain_safe(1) assms IPv6 Some
        by (auto simp: good_ip_def wf_ip_def lower_plain list_all_iff safe_char_def [of "CHR ''%''"])
    qed
  qed
qed

lemma ip_address_wf:
  assumes "ip_address s = Some a" "list_all safe_char s \<or> CHR '':'' \<notin> set s"
  shows "wf_ip a"
proof (cases a)
  case (IPv6 v sc)
  then have p: "parse_ipv6 s = Some (v, sc)" using assms(1) by (auto simp: ip_address_def split: if_splits option.splits)
  obtain addr f scope where part: "py_partition CHR ''%'' s = (addr, f, scope)" by (metis prod_cases3)
  note sub = partition_subset [OF part]
  have sc: "sc = (if f then Some scope else None)" and "ipv6_parts addr \<noteq> None"
    using p part by (auto simp: parse_ipv6_def bind_eq_Some_conv split: if_splits option.splits)
  have one: "split_on c t = [t]" if "c \<notin> set t" for c t using that by (induction t) auto
  have "CHR '':'' \<in> set addr"
  proof (rule ccontr)
    assume "CHR '':'' \<notin> set addr"
    then have "ipv6_parts addr = None" by (simp add: ipv6_parts_def one)
    then show False using \<open>ipv6_parts addr \<noteq> None\<close> by simp
  qed
  then show ?thesis using assms(2) sub(1,2) sc IPv6 by (auto simp: wf_ip_def list_all_iff)
qed (simp add: wf_ip_def)

lemma port_part_chars: "c \<in> set (port_part p) \<Longrightarrow> safe_char c \<and> c \<noteq> CHR ''[''"
  using show_int_plain plain_safe(1,3) by (auto simp: port_part_def list_all_iff safe_char_def split: option.splits if_splits)

lemma port_part_cases: "port_part p = [] \<or> (\<exists>r. port_part p = CHR '':'' # r)"
  by (simp add: port_part_def split: option.splits)

text \<open>The host part behind the user information.\<close>

lemma hostinfo_pinned:
  assumes good: "good_ip s" and user: "u = [] \<or> (\<exists>v. u = v @ ''@'')"
  shows "fst (hostinfo (u @ bracketed s @ port_part p)) = s"
proof -
  let ?info = "bracketed s @ port_part p"
  have at: "CHR ''@'' \<notin> set ?info"
    using good port_part_chars [of "CHR ''@''" p]
    by (auto simp: bracketed_def good_ip_def list_all_iff safe_char_def)
  then obtain x f where info: "py_rpartition CHR ''@'' (u @ ?info) = (x, f, ?info)"
    using user rpartition_absent [OF at] rpartition_found [OF at] by auto
  show ?thesis
  proof (cases "CHR '':'' \<in> set s")
    case True
    have "CHR '']'' \<notin> set s" using good by (auto simp: good_ip_def list_all_iff safe_char_def)
    then have "py_partition CHR '']'' (s @ CHR '']'' # port_part p) = (s, True, port_part p)" by (rule partition_found)
    moreover have "py_partition CHR ''['' ?info = ([], True, s @ CHR '']'' # port_part p)"
      using partition_found [of "CHR ''[''" "[]" "s @ CHR '']'' # port_part p"] True by (simp add: bracketed_def)
    ultimately show ?thesis using info by (simp add: hostinfo_def Let_def)
  next
    case False
    then have "CHR ''['' \<notin> set ?info"
      using good port_part_chars [of "CHR ''[''" p] by (auto simp: bracketed_def good_ip_def)
    from partition_absent [OF this] have br: "py_partition CHR ''['' ?info = (?info, False, [])" .
    have "fst (py_partition CHR '':'' ?info) = s"
      using port_part_cases [of p] partition_absent [OF False] partition_found [OF False] False
      by (auto simp: bracketed_def)
    then show ?thesis using info br by (cases "py_partition CHR '':'' ?info") (simp add: hostinfo_def Let_def)
  qed
qed

lemma pinned_netloc_shape:
  obtains u where "pinned_netloc netloc t = u @ bracketed (rt_ip t) @ port_part (rt_port t)"
    "u = [] \<or> (\<exists>v. u = v @ ''@'')" "set u \<subseteq> set netloc \<union> {CHR ''@'', CHR '':''}"
proof (cases "userinfo netloc")
  case None
  then show ?thesis using that [of "[]"] by (simp add: pinned_netloc_def)
next
  case (Some up)
  obtain user password where up: "up = (user, password)" by fastforce
  obtain info h where at: "py_rpartition CHR ''@'' netloc = (info, True, h)"
    using Some by (auto simp: userinfo_def split: prod.splits bool.splits)
  obtain f pw where colon: "py_partition CHR '':'' info = (user, f, pw)" and "password = (if f then Some pw else None)"
    using Some up at by (auto simp: userinfo_def split: prod.splits)
  moreover have "set user \<subseteq> set netloc" "set pw \<subseteq> set netloc"
    using partition_subset [OF colon] rpartition_subset [OF at] by auto
  moreover define tail where "tail = (case password of Some (c # cs) \<Rightarrow> '':'' @ c # cs | _ \<Rightarrow> [])"
  ultimately have "set tail \<subseteq> set netloc \<union> {CHR '':''}" by (auto split: if_splits list.splits option.splits)
  then show ?thesis
    using that [of "user @ tail @ ''@''"] Some up \<open>set user \<subseteq> set netloc\<close> tail_def
    by (auto simp: pinned_netloc_def)
qed

lemma hostname_pinned:
  assumes "good_ip (rt_ip t)"
  shows "hostname (pinned_netloc netloc t) = Some (rt_ip t)"
proof -
  obtain u where u: "pinned_netloc netloc t = u @ bracketed (rt_ip t) @ port_part (rt_port t)"
    "u = [] \<or> (\<exists>v. u = v @ ''@'')" by (rule pinned_netloc_shape)
  have host: "fst (hostinfo (pinned_netloc netloc t)) = rt_ip t" using hostinfo_pinned [OF assms u(2)] u(1) by simp
  show ?thesis
  proof (cases rule: partition_cases [of "CHR ''%''" "rt_ip t"])
    case absent
    then show ?thesis using host assms by (simp add: hostname_def Let_def good_ip_def)
  next
    case (found a b)
    then show ?thesis using host assms by (auto simp: hostname_def Let_def good_ip_def)
  qed
qed

definition url_blank :: "char \<Rightarrow> bool" where
  "url_blank c \<longleftrightarrow> c \<in> {CHR 0x09, CHR 0x0A, CHR 0x0D}"

lemma urlparse_netloc_chars:
  assumes "urlparse url = Inr u" "c \<in> set (u_netloc u)"
  shows "\<not> ends_netloc c" "\<not> url_blank c"
proof -
  obtain scheme rest where sp: "split_scheme (strip_url url) = (scheme, rest)" by fastforce
  obtain a f b where "py_partition CHR '':'' (strip_url url) = (a, f, b)" by (metis prod_cases3)
  from partition_subset(2) [OF this] this have "set rest \<subseteq> set (strip_url url)"
    using sp by (auto simp: split_scheme_def split: if_splits)
  then have rest: "\<not> url_blank x" if "x \<in> set rest" for x using that by (auto simp: strip_url_def url_blank_def)
  have "c \<in> set (takeWhile (\<lambda>c. \<not> ends_netloc c) (drop 2 rest))"
    using assms sp by (auto simp: urlparse_def Let_def split: if_splits prod.splits)
  then show "\<not> ends_netloc c" "\<not> url_blank c" using rest
    by (auto dest: set_takeWhileD in_set_dropD)
qed

lemma takeWhile_stop: "list_all P xs \<Longrightarrow> ys = [] \<or> \<not> P (hd ys) \<Longrightarrow> takeWhile P (xs @ ys) = xs"
  by (induction xs; cases ys) auto

lemma urlparse_authority:
  assumes "urlparse (scheme @ ''://'' @ nl @ tail) = Inr u" "scheme \<in> {''http'', ''https''}"
    and "\<forall>c\<in>set nl. \<not> ends_netloc c \<and> \<not> url_blank c" "tail = [] \<or> ends_netloc (hd tail)"
  shows "u_netloc u = nl" "u_scheme u = scheme"
proof -
  let ?keep = "filter (\<lambda>c. \<not> url_blank c)"
  have keep: "?keep nl = nl" using assms(3) by (simp add: filter_id_conv)
  have tail: "?keep tail = [] \<or> ends_netloc (hd (?keep tail))"
    using assms(4) by (cases tail) (auto simp: ends_netloc_def url_blank_def)
  have strip: "strip_url (scheme @ ''://'' @ nl @ tail) = scheme @ ''://'' @ nl @ ?keep tail"
    using assms(2) keep by (auto simp: strip_url_def url_blank_def)
  have "CHR '':'' \<notin> set scheme" using assms(2) by auto
  from partition_found [OF this, of "''//'' @ nl @ ?keep tail"]
  have part: "py_partition CHR '':'' (scheme @ ''://'' @ nl @ ?keep tail) = (scheme, True, ''//'' @ nl @ ?keep tail)"
    by simp
  have sp: "split_scheme (strip_url (scheme @ ''://'' @ nl @ tail)) = (scheme, ''//'' @ nl @ ?keep tail)"
    unfolding strip split_scheme_def part prod.case
    using assms(2) by (auto simp: lower_def scheme_char_def is_letter_def is_digit_def)
  have "takeWhile (\<lambda>c. \<not> ends_netloc c) (nl @ ?keep tail) = nl"
    using assms(3) tail by (intro takeWhile_stop) (auto simp: list_all_iff)
  then show "u_netloc u = nl" "u_scheme u = scheme"
    using assms(1) unfolding urlparse_def sp
    by (auto simp: Let_def startswith_def split: if_splits prod.splits)
qed

lemma geturl_authority:
  assumes "u_scheme u \<in> {''http'', ''https''}"
  obtains tail where "geturl u = u_scheme u @ ''://'' @ u_netloc u @ tail" "tail = [] \<or> ends_netloc (hd tail)"
proof -
  let ?path = "u_path u @ (if u_params u = [] then [] else '';'' @ u_params u)"
  let ?tail = "(if ?path \<noteq> [] \<and> hd ?path \<noteq> CHR ''/'' then ''/'' else []) @ ?path @
    (if u_query u = [] then [] else ''?'' @ u_query u) @ (if u_fragment u = [] then [] else ''#'' @ u_fragment u)"
  have "geturl u = u_scheme u @ ''://'' @ u_netloc u @ ?tail"
    using assms unfolding geturl_def Let_def by auto
  moreover have "?tail = [] \<or> ends_netloc (hd ?tail)"
    by (cases ?path) (auto simp: ends_netloc_def)
  ultimately show ?thesis using that by blast
qed

lemma pinned_netloc_chars:
  assumes "\<forall>c\<in>set netloc. \<not> ends_netloc c \<and> \<not> url_blank c" "good_ip (rt_ip t)" "c \<in> set (pinned_netloc netloc t)"
  shows "\<not> ends_netloc c \<and> \<not> url_blank c"
proof -
  obtain u where u: "pinned_netloc netloc t = u @ bracketed (rt_ip t) @ port_part (rt_port t)"
    "set u \<subseteq> set netloc \<union> {CHR ''@'', CHR '':''}" using pinned_netloc_shape [of netloc t] by metis
  have safe: "safe_char c \<Longrightarrow> \<not> ends_netloc c \<and> \<not> url_blank c" for c
    by (auto simp: safe_char_def ends_netloc_def url_blank_def)
  consider "c \<in> set u" | "c \<in> set (bracketed (rt_ip t))" | "c \<in> set (port_part (rt_port t))"
    using assms(3) u(1) by auto
  then show ?thesis
  proof cases
    case 1
    then show ?thesis using u(2) assms(1) by (auto simp: ends_netloc_def url_blank_def)
  next
    case 2
    then show ?thesis using assms(2) safe
      by (auto simp: bracketed_def good_ip_def list_all_iff ends_netloc_def url_blank_def split: if_splits)
  next
    case 3
    then show ?thesis using port_part_chars safe by blast
  qed
qed

lemma pinned_host:
  assumes "urlparse url = Inr parsed" "u_scheme parsed \<in> {''http'', ''https''}" "good_ip (rt_ip t)"
    and "pin_url url t = Inr (pinned, header)" "urlparse pinned = Inr u"
  shows "hostname (u_netloc u) = Some (rt_ip t) \<and> u_scheme u = u_scheme parsed"
proof -
  let ?nl = "pinned_netloc (u_netloc parsed) t"
  have pinned: "pinned = geturl (parsed\<lparr>u_netloc := ?nl\<rparr>)" using assms(1,4) by (simp add: pin_url_def)
  obtain tail where "geturl (parsed\<lparr>u_netloc := ?nl\<rparr>) = u_scheme parsed @ ''://'' @ ?nl @ tail"
    and tail: "tail = [] \<or> ends_netloc (hd tail)"
    using geturl_authority [of "parsed\<lparr>u_netloc := ?nl\<rparr>"] assms(2) by auto
  then have parse: "urlparse (u_scheme parsed @ ''://'' @ ?nl @ tail) = Inr u" using assms(5) pinned by simp
  have "\<forall>c\<in>set ?nl. \<not> ends_netloc c \<and> \<not> url_blank c"
    using urlparse_netloc_chars [OF assms(1)] pinned_netloc_chars [OF _ assms(3)] by blast
  from urlparse_authority [OF parse assms(2) this tail] show ?thesis using hostname_pinned [OF assms(3)] by simp
qed

lemma lower_special:
  assumes "x \<in> set (lower s)" "of_char x < (97 :: nat) \<or> (122 :: nat) < of_char x"
  shows "x \<in> set s"
proof -
  obtain c where c: "c \<in> set s"
    "x = (if 65 \<le> (of_char c :: nat) \<and> (of_char c :: nat) \<le> 90 then char_of (of_char c + 32 :: nat) else c)"
    using assms(1) by (auto simp: lower_def)
  have "\<not> (65 \<le> (of_char c :: nat) \<and> (of_char c :: nat) \<le> 90)"
    using assms(2) c(2) by (auto simp: of_char_of split: if_splits)
  then show ?thesis using c by auto
qed

lemma unsafe_special: "\<not> safe_char c \<Longrightarrow> of_char c < (97 :: nat) \<or> (122 :: nat) < of_char c"
  by (auto simp: safe_char_def)

lemma lower_safe: "list_all safe_char s \<Longrightarrow> list_all safe_char (lower s)"
  using lower_special unsafe_special by (metis list_all_iff)

lemma lower_colon: "CHR '':'' \<notin> set s \<Longrightarrow> CHR '':'' \<notin> set (lower s)"
  using lower_special [of "CHR '':''" s] by auto

lemma hostname_chars:
  assumes "\<forall>c\<in>set netloc. \<not> ends_netloc c \<and> \<not> url_blank c" "hostname netloc = Some h"
  shows "list_all safe_char (lower h) \<or> CHR '':'' \<notin> set (lower h)"
proof -
  let ?h = "fst (hostinfo netloc)"
  obtain x f info where at: "py_rpartition CHR ''@'' netloc = (x, f, info)" by (metis prod_cases3)
  obtain y br inner where open_br: "py_partition CHR ''['' info = (y, br, inner)" by (metis prod_cases3)
  obtain g m after where close: "py_partition CHR '']'' inner = (g, m, after)" by (metis prod_cases3)
  obtain k n p where colon: "py_partition CHR '':'' info = (k, n, p)" by (metis prod_cases3)
  have host: "?h = (if br then g else k)"
    using at open_br close colon by (simp add: hostinfo_def)
  have safe: "list_all safe_char ?h \<or> CHR '':'' \<notin> set ?h"
  proof (cases br)
    case True
    have "set g \<subseteq> set netloc" "CHR ''@'' \<notin> set g" "CHR '']'' \<notin> set g"
      using partition_subset [OF close] partition_subset [OF open_br] rpartition_subset [OF at] by auto
    then show ?thesis using assms(1) host True
      by (auto simp: list_all_iff safe_char_def ends_netloc_def url_blank_def)
  qed (use host partition_subset(3) [OF colon] in simp)
  have h: "h = lower (fst (py_partition CHR ''%'' ?h)) @ (if fst (snd (py_partition CHR ''%'' ?h)) then ''%'' else []) @
      snd (snd (py_partition CHR ''%'' ?h))"
    using assms(2) by (auto simp: hostname_def Let_def split: if_splits prod.splits)
  from safe show ?thesis
  proof
    assume safe: "list_all safe_char ?h"
    show ?thesis
    proof (cases rule: partition_cases [of "CHR ''%''" ?h])
      case absent
      then show ?thesis using h safe lower_safe by simp
    next
      case (found a b)
      then have "list_all safe_char h" using h safe lower_safe [of a] by (simp add: safe_char_def [of "CHR ''%''"])
      then show ?thesis using lower_safe by blast
    qed
  next
    assume c: "CHR '':'' \<notin> set ?h"
    have "CHR '':'' \<notin> set h"
      using h c lower_colon
      by (cases rule: partition_cases [of "CHR ''%''" ?h]) auto
    then show ?thesis using lower_colon by blast
  qed
qed

lemma check_answers_sound:
  assumes "check_answers allow ss chosen = Some res"
  shows "(\<forall>s\<in>set ss. \<exists>a. ip_address s = Some a \<and> \<not> ip_blocked a allow) \<and>
    (res = chosen \<or> (\<exists>s\<in>set ss. \<exists>a. ip_address s = Some a \<and> \<not> ip_blocked a allow \<and> res = Some (show_ip a)))"
  using assms
proof (induction allow ss chosen rule: check_answers.induct)
  case (2 allow s ss chosen)
  then show ?case by (auto split: option.splits if_splits)
qed simp

text \<open>C13: SSRF protection: a webhook URL that passes the validation is delivered to a checked address. The
  target's address is the text of an address in none of the blocked networks, the scheme is http or https,
  the host is not on the denylist, every answer of the resolver was checked, and the URL that the client
  connects to names exactly that address as its host, whatever user information, port, path or letters
  the original has (the answers of the resolver are address texts, without URL delimiters).\<close>

theorem webhook_target_checked:
  assumes "resolve_webhook_url dns False url = Inr target" "pin_url url target = Inr (pinned, header)"
    and "\<forall>h ss. dns h = Some ss \<longrightarrow> (\<forall>s\<in>set ss. list_all safe_char s)"
  shows "(\<exists>a. rt_ip target = show_ip a \<and> \<not> ip_blocked a False) \<and> rt_host target \<notin> set BLOCKED_HOSTNAMES \<and>
    rt_scheme target \<in> {''http'', ''https''} \<and>
    (ip_address (rt_host target) = None \<longrightarrow>
      (\<exists>ss. dns (rt_host target) = Some ss \<and> (\<forall>s\<in>set ss. \<exists>a. ip_address s = Some a \<and> \<not> ip_blocked a False))) \<and>
    (\<forall>u. urlparse pinned = Inr u \<longrightarrow> hostname (u_netloc u) = Some (rt_ip target) \<and> u_scheme u = rt_scheme target)"
proof -
  obtain parsed where p: "urlparse url = Inr parsed"
    using assms(1) by (auto simp: resolve_webhook_url_def split: sum.splits)
  define host where "host = webhook_host (u_netloc parsed)"
  have scheme: "u_scheme parsed \<in> {''http'', ''https''}" and listed: "host \<notin> set BLOCKED_HOSTNAMES" and ne: "host \<noteq> []"
    using assms(1) p by (auto simp: resolve_webhook_url_def Let_def host_def split: if_splits)
  have fields: "rt_scheme target = u_scheme parsed" "rt_host target = host"
    using assms(1) p by (auto simp: resolve_webhook_url_def Let_def host_def [symmetric]
        split: if_splits option.splits sum.splits)
  have chars: "list_all safe_char host \<or> CHR '':'' \<notin> set host"
    using hostname_chars [of "u_netloc parsed"] urlparse_netloc_chars [OF p] by (auto simp: host_def webhook_host_def split: option.splits)
  have "\<exists>a. rt_ip target = show_ip a \<and> \<not> ip_blocked a False \<and> wf_ip a \<and>
      (ip_address host = None \<longrightarrow>
        (\<exists>ss. dns host = Some ss \<and> (\<forall>s\<in>set ss. \<exists>a. ip_address s = Some a \<and> \<not> ip_blocked a False)))"
  proof (cases "ip_address host")
    case (Some a)
    then have "rt_ip target = show_ip a \<and> \<not> ip_blocked a False"
      using assms(1) p scheme listed ne
      by (auto simp: resolve_webhook_url_def Let_def host_def [symmetric] split: if_splits sum.splits)
    then show ?thesis using ip_address_wf [OF Some chars] Some by auto
  next
    case None
    then obtain ss where ss: "dns host = Some ss" "check_answers False ss None = Some (Some (rt_ip target))"
      using assms(1) p scheme listed ne
      by (auto simp: resolve_webhook_url_def Let_def host_def [symmetric] split: option.splits sum.splits)
    from check_answers_sound [OF ss(2)] obtain s a where "s \<in> set ss" "ip_address s = Some a"
      "\<not> ip_blocked a False" "rt_ip target = show_ip a" by auto
    then show ?thesis using ip_address_wf [of s a] assms(3) ss check_answers_sound [OF ss(2)] by blast
  qed
  then obtain a where a: "rt_ip target = show_ip a" "\<not> ip_blocked a False" "wf_ip a"
    and dns: "ip_address host = None \<longrightarrow>
        (\<exists>ss. dns host = Some ss \<and> (\<forall>s\<in>set ss. \<exists>a. ip_address s = Some a \<and> \<not> ip_blocked a False))"
    by (elim exE conjE) (rule that)
  have "good_ip (rt_ip target)" using good_show_ip [OF a(3)] a(1) by simp
  from pinned_host [OF p scheme this assms(2)]
  have "\<forall>u. urlparse pinned = Inr u \<longrightarrow> hostname (u_netloc u) = Some (rt_ip target) \<and> u_scheme u = rt_scheme target"
    unfolding fields by blast
  moreover have "\<exists>a. rt_ip target = show_ip a \<and> \<not> ip_blocked a False" using a(1,2) by blast
  ultimately show ?thesis using dns scheme listed unfolding fields by (intro conjI)
qed

theorem webhook_target_checked_witness:
  "\<exists>target pinned header. resolve_webhook_url (\<lambda>_. Some [''93.184.216.34'']) False ''https://u:p@Example.com:81/a?q'' = Inr target \<and>
     pin_url ''https://u:p@Example.com:81/a?q'' target = Inr (pinned, header) \<and>
     (\<exists>u. urlparse pinned = Inr u \<and> hostname (u_netloc u) = Some ''93.184.216.34'')"
proof -
  let ?dns = "\<lambda>_. Some [''93.184.216.34'']"
  let ?url = "''https://u:p@Example.com:81/a?q''"
  let ?t = "\<lparr>rt_scheme = ''https'', rt_host = ''example.com'', rt_port = Some 81, rt_ip = ''93.184.216.34''\<rparr>"
  let ?pin = "''https://u:p@93.184.216.34:81/a?q''"
  have ev: "resolve_webhook_url ?dns False ?url = Inr ?t"
    "pin_url ?url ?t = Inr (?pin, ''example.com:81'')" "case urlparse ?pin of Inr _ \<Rightarrow> True | Inl _ \<Rightarrow> False"
    by code_simp+
  have "\<forall>h ss. ?dns h = Some ss \<longrightarrow> (\<forall>s\<in>set ss. list_all safe_char s)" by (simp add: safe_char_def)
  from webhook_target_checked [OF ev(1,2) this] ev show ?thesis by (auto split: sum.splits)
qed

lemma blocked_v6_parsed:
  "map (\<lambda>(a, len). (map_option fst (parse_ipv6 a), len)) BLOCKED_V6_NETS =
     [(Some 1, 128), (Some 0, 128), (Some 338288524927261089654018896841347694592, 10),
      (Some 334965454937798799971759379190646833152, 7)]"
  by code_simp

lemma mapped_not_in_nets:
  assumes "0 \<le> n" "n < (4294967296 :: int)"
  shows "\<not> ip_blocked (IPv6 (281470681743360 + n) sc) allow"
proof -
  let ?v = "281470681743360 + n"
  have in6: "in_net6 v (a, len) \<longleftrightarrow> (\<exists>k. map_option fst (parse_ipv6 a) = Some k \<and> v div 2 ^ (128 - len) = k div 2 ^ (128 - len))"
    for v a len by (auto simp: in_net6_def split: option.splits)
  have nets: "map_option fst (parse_ipv6 ''::1'') = Some 1" "map_option fst (parse_ipv6 ''::'') = Some 0"
    "map_option fst (parse_ipv6 ''fe80::'') = Some 338288524927261089654018896841347694592"
    "map_option fst (parse_ipv6 ''fc00::'') = Some 334965454937798799971759379190646833152"
    using blocked_v6_parsed by (simp_all add: BLOCKED_V6_NETS_def)
  have "?v div 2 ^ 118 = 0" "?v div 2 ^ 121 = 0" using assms by simp_all
  then have "\<not> in_net6 ?v net" if "net \<in> set BLOCKED_V6_NETS" for net
    using that assms by (auto simp: BLOCKED_V6_NETS_def in6 nets)
  then show ?thesis by (auto simp: ip_blocked_def list_ex_iff)
qed

lemma numeric_host: "ip_address host = Some a \<Longrightarrow> host \<noteq> [] \<and> host \<notin> set BLOCKED_HOSTNAMES"
proof -
  have "\<forall>h\<in>set ([] # BLOCKED_HOSTNAMES). ip_address h = None" by code_simp
  then show "ip_address host = Some a \<Longrightarrow> ?thesis" by auto
qed

text \<open>C25: the denylist has a hole: an IPv4-mapped IPv6 address is compared with the IPv6 networks only, and
  none of them contains one. So a URL (that parses, with an HTTP scheme and a port that parses) whose host is
  the mapped form of any IPv4 address whatsoever, the blocked ones included, is accepted and its target is that
  address; a resolver answer of this form is accepted as well; and yet, for example, every address of the
  link-local network with the cloud metadata service is blocked when it is written as IPv4.\<close>

theorem mapped_address_not_blocked:
  assumes n: "0 \<le> n" "n < 4294967296"
    and url: "urlparse url = Inr u" "u_scheme u \<in> {''http'', ''https''}" "explicit_port (u_netloc u) = Inr port"
    and host: "ip_address (webhook_host (u_netloc u)) = Some (IPv6 (281470681743360 + n) sc)"
    and answer: "ip_address s = Some (IPv6 (281470681743360 + n) sc)"
  shows "resolve_webhook_url dns allow url =
      Inr \<lparr>rt_scheme = u_scheme u, rt_host = webhook_host (u_netloc u), rt_port = port,
           rt_ip = show_ip (IPv6 (281470681743360 + n) sc)\<rparr> \<and>
    check_answers allow (s # ss) None = check_answers allow ss (Some (show_ip (IPv6 (281470681743360 + n) sc))) \<and>
    (2851995648 \<le> n \<and> n < 2852061184 \<longrightarrow> ip_blocked (IPv4 n) allow)"
proof (intro conjI impI)
  note free = mapped_not_in_nets [OF n, of sc allow]
  show "resolve_webhook_url dns allow url =
      Inr \<lparr>rt_scheme = u_scheme u, rt_host = webhook_host (u_netloc u), rt_port = port,
           rt_ip = show_ip (IPv6 (281470681743360 + n) sc)\<rparr>"
    using url host free numeric_host [OF host] by (auto simp: resolve_webhook_url_def Let_def)
  show "check_answers allow (s # ss) None = check_answers allow ss (Some (show_ip (IPv6 (281470681743360 + n) sc)))"
    using answer free by simp
  assume "2851995648 \<le> n \<and> n < 2852061184"
  then have "n div 65536 = 43518" by linarith
  moreover have "map_option (\<lambda>v. v div 65536) (parse_ipv4 ''169.254.0.0'') = Some 43518" by code_simp
  ultimately have "in_net4 n (''169.254.0.0'', 16)" by (auto simp: in_net4_def)
  then show "ip_blocked (IPv4 n) allow" by (auto simp: ip_blocked_def BLOCKED_V4_NETS_def LOOPBACK_V4_def)
qed

theorem mapped_address_not_blocked_witness:
  "resolve_webhook_url (\<lambda>_. None) False ''http://169.254.169.254/latest'' = Inl Blocked \<and>
   resolve_webhook_url (\<lambda>_. None) False ''http://[::ffff:169.254.169.254]/latest'' =
     Inr \<lparr>rt_scheme = ''http'', rt_host = ''::ffff:169.254.169.254'', rt_port = None,
          rt_ip = ''::ffff:169.254.169.254''\<rparr>"
proof -
  let ?url = "''http://[::ffff:169.254.169.254]/latest''"
  let ?h = "''::ffff:169.254.169.254''"
  have ev: "case urlparse ?url of Inr u \<Rightarrow> u_scheme u = ''http'' \<and> explicit_port (u_netloc u) = Inr None \<and>
      webhook_host (u_netloc u) = ?h | Inl _ \<Rightarrow> False"
    "ip_address ?h = Some (IPv6 (281470681743360 + 2852039166) None)"
    "show_ip (IPv6 (281470681743360 + 2852039166) None) = ?h"
    "resolve_webhook_url (\<lambda>_. None) False ''http://169.254.169.254/latest'' = Inl Blocked" by code_simp+
  then obtain u where u: "urlparse ?url = Inr u" "u_scheme u = ''http''" "explicit_port (u_netloc u) = Inr None"
    "webhook_host (u_netloc u) = ?h" by (auto split: sum.splits)
  then show ?thesis
    using mapped_address_not_blocked [of 2852039166 ?url u None None ?h "\<lambda>_. None" False "[]"] ev(2-4) by simp
qed

end
