(* ===== verification/Sq_Webhook.thy ===== *)
theory Sq_Webhook
  imports Sq_Django_Props Sq_Url
begin

text \<open>
  Webhook delivery of the Django integration (\<^verbatim>\<open>django_sqlery/webhooks.py\<close>): \<^verbatim>\<open>send_webhook\<close>,
  \<^verbatim>\<open>send_webhook_with_retry\<close> and \<^verbatim>\<open>retry_failed_webhooks\<close>, and the ends of \<^verbatim>\<open>mark_success\<close> / \<^verbatim>\<open>mark_failed\<close> for a
  job with a webhook. The webhook columns of a job row are a table of their own here, keyed by the
  job id; a save of these columns needs the live row. The payload and its signature are not modelled:
  what the receiver answers to the pinned URL is an argument.
\<close>

section \<open>Delivery\<close>

datatype hook_status = Hook_none | Hook_pending | Hook_sent | Hook_failed

record hook =
  h_url :: string
  h_events :: "string list"
  h_status :: hook_status
  h_retries :: int
  h_max_retries :: int

record whdb =
  wd_db :: db
  wd_hooks :: "job_id \<Rightarrow> hook"

datatype response = Http_status nat | Http_timeout | Http_error | Unexpected

record wh_env =
  we_dns :: "string \<Rightarrow> string list option"
  we_httpx :: bool
  we_post :: "string \<Rightarrow> string \<Rightarrow> response"

text \<open>\<^verbatim>\<open>job.save(update_fields=[...])\<close> on webhook columns.\<close>

definition save_hook :: "job_id \<Rightarrow> hook \<Rightarrow> whdb \<Rightarrow> whdb result" where
  "save_hook jid h s =
     (if jid \<in> j_id ` set (live (wd_db s)) then Inr (s\<lparr>wd_hooks := (wd_hooks s)(jid := h)\<rparr>)
      else Inl DatabaseError)"

definition post_pinned :: "wh_env \<Rightarrow> string \<Rightarrow> resolved_target \<Rightarrow> response" where
  "post_pinned env url target =
     (case pin_url url target of
        Inl _ \<Rightarrow> Unexpected
      | Inr (pinned, host_header) \<Rightarrow> we_post env pinned host_header)"

definition send_webhook ::
  "wh_env \<Rightarrow> string \<Rightarrow> job_id \<Rightarrow> hook \<Rightarrow> whdb \<Rightarrow> (bool \<times> hook \<times> whdb) result" where
  "send_webhook env event jid h s =
     (if h_url h = [] then Inr (True, h, s)
      else if event \<notin> set (h_events h) then Inr (True, h, s)
      else case resolve_webhook_url (we_dns env) False (h_url h) of
             Inl Blocked \<Rightarrow> Inr (False, h, s)
           | Inl (Escapes e) \<Rightarrow> Inl e
           | Inr target \<Rightarrow>
               if \<not> we_httpx env then Inr (False, h, s)
               else (case post_pinned env (h_url h) target of
                       Http_status code \<Rightarrow>
                         if code \<in> {200, 201, 202, 204}
                         then (let h' = h\<lparr>h_status := Hook_sent\<rparr>
                               in case save_hook jid h' s of
                                    Inl _ \<Rightarrow> Inr (False, h', s)
                                  | Inr s' \<Rightarrow> Inr (True, h', s'))
                         else Inr (False, h, s)
                     | _ \<Rightarrow> Inr (False, h, s)))"

text \<open>\<^verbatim>\<open>_settle\<close>: an exception is logged.\<close>

definition settle_job :: "nat \<Rightarrow> timestamp \<Rightarrow> job \<Rightarrow> whdb \<Rightarrow> whdb" where
  "settle_job slot now j s = s\<lparr>wd_db := fst (dj_settle_object slot now j (wd_db s))\<rparr>"

text \<open>The bookkeeping after a failed delivery.\<close>

definition after_failure :: "nat \<Rightarrow> timestamp \<Rightarrow> job \<Rightarrow> hook \<Rightarrow> whdb \<Rightarrow> whdb \<times> bool result" where
  "after_failure slot now j h s =
     (let h1 = h\<lparr>h_retries := h_retries h + 1\<rparr>
      in case save_hook (j_id j) h1 s of
           Inl e \<Rightarrow> (s, Inl e)
         | Inr s1 \<Rightarrow>
             if h_retries h1 < h_max_retries h1
             then (case save_hook (j_id j) (h1\<lparr>h_status := Hook_pending\<rparr>) s1 of
                     Inl e \<Rightarrow> (s1, Inl e) | Inr s2 \<Rightarrow> (s2, Inr False))
             else (case save_hook (j_id j) (h1\<lparr>h_status := Hook_failed\<rparr>) s1 of
                     Inl e \<Rightarrow> (s1, Inl e) | Inr s2 \<Rightarrow> (settle_job slot now j s2, Inr False)))"

definition send_webhook_with_retry ::
  "wh_env \<Rightarrow> nat \<Rightarrow> timestamp \<Rightarrow> string \<Rightarrow> job \<Rightarrow> hook \<Rightarrow> whdb \<Rightarrow> whdb \<times> bool result" where
  "send_webhook_with_retry env slot now event j h s =
     (if h_url h = [] then (s, Inr True)
      else let h0 = (if h_retries h = 0 then h\<lparr>h_status := Hook_pending\<rparr> else h)
           in case (if h_retries h = 0 then save_hook (j_id j) h0 s else Inr s) of
                Inl e \<Rightarrow> (s, Inl e)
              | Inr s0 \<Rightarrow>
                  (case send_webhook env event (j_id j) h0 s0 of
                     Inl e \<Rightarrow> (s0, Inl e)
                   | Inr (True, h1, s1) \<Rightarrow> (settle_job slot now j s1, Inr True)
                   | Inr (False, h1, s1) \<Rightarrow> after_failure slot now j h1 s1))"

text \<open>\<^verbatim>\<open>retry_failed_webhooks\<close>: the jobs are read once, in the default order; the counts are total, success,
  failed and skipped. An exception of a delivery leaves the loop.\<close>

definition pending_webhooks :: "whdb \<Rightarrow> job list" where
  "pending_webhooks s =
     sort_key meta_order
       (filter (\<lambda>j. h_status (wd_hooks s (j_id j)) = Hook_pending \<and>
                    h_retries (wd_hooks s (j_id j)) < h_max_retries (wd_hooks s (j_id j)))
          (live (wd_db s)))"

record retry_stats =
  rs_total :: nat
  rs_success :: nat
  rs_failed :: nat
  rs_skipped :: nat

fun retry_webhooks ::
  "wh_env \<Rightarrow> nat \<Rightarrow> timestamp \<Rightarrow> (job \<times> hook) list \<Rightarrow> retry_stats \<Rightarrow> whdb \<Rightarrow> whdb \<times> retry_stats result" where
  "retry_webhooks env slot now [] st s = (s, Inr st)"
| "retry_webhooks env slot now ((j, h) # js) st s =
     (let st1 = st\<lparr>rs_total := rs_total st + 1\<rparr>;
          event = (if j_status j = Success then Some ''success''
                   else if j_status j = Failed then Some ''failure'' else None)
      in case event of
           None \<Rightarrow> retry_webhooks env slot now js (st1\<lparr>rs_skipped := rs_skipped st1 + 1\<rparr>) s
         | Some ev \<Rightarrow>
             (case send_webhook_with_retry env slot now ev j h s of
                (s', Inl e) \<Rightarrow> (s', Inl e)
              | (s', Inr True) \<Rightarrow> retry_webhooks env slot now js (st1\<lparr>rs_success := rs_success st1 + 1\<rparr>) s'
              | (s', Inr False) \<Rightarrow> retry_webhooks env slot now js (st1\<lparr>rs_failed := rs_failed st1 + 1\<rparr>) s'))"

definition retry_failed_webhooks :: "wh_env \<Rightarrow> nat \<Rightarrow> timestamp \<Rightarrow> whdb \<Rightarrow> whdb \<times> retry_stats result" where
  "retry_failed_webhooks env slot now s =
     retry_webhooks env slot now (map (\<lambda>j. (j, wd_hooks s (j_id j))) (pending_webhooks s))
       \<lparr>rs_total = 0, rs_success = 0, rs_failed = 0, rs_skipped = 0\<rparr> s"

text \<open>The last lines of \<^verbatim>\<open>mark_failed\<close> for a failure that stays in the live table: \<open>j\<close> is the job as the
  object shows it after the transition.\<close>

definition deliver_failure :: "wh_env \<Rightarrow> nat \<Rightarrow> timestamp \<Rightarrow> job \<Rightarrow> whdb \<Rightarrow> whdb \<times> bool result" where
  "deliver_failure env slot now j s =
     send_webhook_with_retry env slot now ''failure'' j (wd_hooks s (j_id j)) s"

section \<open>Settling\<close>

lemma settle_job_moves:
  assumes w: "wf_db (wd_db s)" and j: "j \<in> set (live (wd_db s))" "is_terminal (j_status j)" and slot: "slot \<in> set SLOTS"
  shows "j_id j \<notin> j_id ` set (live (wd_db (settle_job slot now j s)))"
    and "\<exists>r\<in>set (history (wd_db (settle_job slot now j s))). j_id r = j_id j \<and> j_status r = j_status j \<and>
      j_termination_reason r = j_termination_reason j"
    and "wf_db (wd_db (settle_job slot now j s))" "wd_hooks (settle_job slot now j s) = wd_hooks s"
proof -
  let ?d = "wd_db s"
  let ?m = "dj_moved now (j_id j) (j_status j) no_values None True j ?d"
  let ?r = "dj_release_quietly slot now (j_id j) (j_parent_job_id j) ?m"
  have live: "live_by_id (j_id j) ?d = Some j" using live_by_id_Some [OF w] j(1) by blast
  have "dj_settle now None j ?d = Inr (?m, True)"
    unfolding dj_settle_def dj_move_cases [OF w] using live by (simp add: move_where_def override_def)
  then have eq: "wd_db (settle_job slot now j s) = ?r"
    using j(2) by (simp add: settle_job_def dj_settle_object_def)
  have m: "wf_db ?m" using dj_moved_safe [OF j(1) refl j(2)] w by (simp add: safe_def)
  have r: "wf_db ?r" "prefix (history ?m) (history ?r)"
    using dj_release_quietly_safe [OF slot, of ?m now "j_id j" "j_parent_job_id j"] m
    unfolding safe_def evolves_def history_grows_def by blast+
  obtain row where row: "row \<in> set (history ?m)" "j_id row = j_id j" "j_status row = j_status j"
    "j_termination_reason row = j_termination_reason j"
    by (rule that [of "history_row ?d now (j_status j) no_values j"])
      (simp_all add: history_row_def set_values_def no_values_def override_def)
  then have h: "row \<in> set (history ?r)" using r(2) by (auto simp: prefix_def)
  then show "\<exists>r\<in>set (history (wd_db (settle_job slot now j s))). j_id r = j_id j \<and> j_status r = j_status j \<and>
      j_termination_reason r = j_termination_reason j" using row unfolding eq by blast
  show "wf_db (wd_db (settle_job slot now j s))" using r(1) unfolding eq .
  show "j_id j \<notin> j_id ` set (live (wd_db (settle_job slot now j s)))"
    using wf_live_not_history [OF r(1)] h row(2) unfolding eq by (metis image_eqI imageE)
  show "wd_hooks (settle_job slot now j s) = wd_hooks s" by (simp add: settle_job_def)
qed

section \<open>Outcomes of a delivery\<close>

lemma resolve_escapes: "resolve_webhook_url dns allow url = Inl (Escapes e) \<longleftrightarrow> urlparse url = Inl e"
  by (auto simp: resolve_webhook_url_def explicit_port_def Let_def split: sum.splits option.splits if_splits)

lemma send_webhook_cases:
  assumes "jid \<in> j_id ` set (live (wd_db s))" "\<forall>e. urlparse (h_url h) \<noteq> Inl e"
  obtains (quiet) "send_webhook env event jid h s = Inr (True, h, s)" "h_url h = [] \<or> event \<notin> set (h_events h)"
  | (sent) "send_webhook env event jid h s =
      Inr (True, h\<lparr>h_status := Hook_sent\<rparr>, s\<lparr>wd_hooks := (wd_hooks s)(jid := h\<lparr>h_status := Hook_sent\<rparr>)\<rparr>)"
  | (refused) "send_webhook env event jid h s = Inr (False, h, s)"
proof (cases "h_url h = [] \<or> event \<notin> set (h_events h)")
  case True
  then show ?thesis using quiet by (auto simp: send_webhook_def)
next
  case False
  show ?thesis
  proof (cases "resolve_webhook_url (we_dns env) False (h_url h)")
    case (Inl f)
    then have "f = Blocked" using assms(2) resolve_escapes by (cases f) metis+
    then show ?thesis using refused False Inl by (simp add: send_webhook_def)
  next
    case (Inr t)
    show ?thesis
    proof (cases "we_httpx env \<and> (\<exists>c\<in>{200, 201, 202, 204}. post_pinned env (h_url h) t = Http_status c)")
      case True
      then show ?thesis using sent False Inr assms(1) by (auto simp: send_webhook_def save_hook_def Let_def)
    next
      case no: False
      then show ?thesis using refused False Inr by (auto simp: send_webhook_def split: response.splits)
    qed
  qed
qed

lemma save_hook_live: "j \<in> set (live (wd_db s)) \<Longrightarrow> save_hook (j_id j) h s = Inr (s\<lparr>wd_hooks := (wd_hooks s)(j_id j := h)\<rparr>)"
  by (simp add: save_hook_def)

text \<open>C14: one delivery attempt of a finished job whose webhook URL \<^verbatim>\<open>urlparse\<close> accepts (the others raise, see
  \<open>malformed_webhook_blocks_sweep\<close>), for every answer of the resolver and of the receiver: it returns, and either the delivery is resolved (delivered, not subscribed, or out of retries) and the job has
  moved to the history with its status, or the job stays and exactly one retry has been used up. So a
  delivery takes at most as many attempts as there are retries left, and none follows the last one.\<close>

theorem webhook_attempt_outcome:
  assumes "wf_db (wd_db s)" "j \<in> set (live (wd_db s))" "is_terminal (j_status j)" "slot \<in> set SLOTS"
    and "h = wd_hooks s (j_id j)" "h_url h \<noteq> []" "\<forall>e. urlparse (h_url h) \<noteq> Inl e"
  shows "\<exists>ok s'. send_webhook_with_retry env slot now event j h s = (s', Inr ok) \<and> wf_db (wd_db s') \<and>
    (if ok \<or> h_max_retries h \<le> h_retries h + 1
     then j_id j \<notin> j_id ` set (live (wd_db s')) \<and>
       (\<exists>r\<in>set (history (wd_db s')). j_id r = j_id j \<and> j_status r = j_status j)
     else wd_db s' = wd_db s \<and>
       wd_hooks s' = (wd_hooks s)(j_id j := h\<lparr>h_retries := h_retries h + 1, h_status := Hook_pending\<rparr>))"
proof -
  let ?h0 = "if h_retries h = 0 then h\<lparr>h_status := Hook_pending\<rparr> else h"
  let ?s0 = "if h_retries h = 0 then s\<lparr>wd_hooks := (wd_hooks s)(j_id j := ?h0)\<rparr> else s"
  have s0: "(if h_retries h = 0 then save_hook (j_id j) ?h0 s else Inr s) = Inr ?s0" "wd_db ?s0 = wd_db s"
    using save_hook_live [OF assms(2)] by auto
  have start: "send_webhook_with_retry env slot now event j h s =
      (case send_webhook env event (j_id j) ?h0 ?s0 of
         Inl e \<Rightarrow> (?s0, Inl e)
       | Inr (True, h1, s1) \<Rightarrow> (settle_job slot now j s1, Inr True)
       | Inr (False, h1, s1) \<Rightarrow> after_failure slot now j h1 s1)"
    unfolding send_webhook_with_retry_def Let_def s0(1) using assms(6) by simp
  have moved: "wf_db (wd_db (settle_job slot now j s1)) \<and> j_id j \<notin> j_id ` set (live (wd_db (settle_job slot now j s1))) \<and>
      (\<exists>r\<in>set (history (wd_db (settle_job slot now j s1))). j_id r = j_id j \<and> j_status r = j_status j)"
    if same: "wd_db s1 = wd_db s" for s1
    using settle_job_moves(1-3) [of s1 j slot now, unfolded same, OF assms(1-4)] by blast
  have pre: "j_id j \<in> j_id ` set (live (wd_db ?s0))" "\<forall>e. urlparse (h_url ?h0) \<noteq> Inl e"
    using assms(2,7) by auto
  show ?thesis
  proof (cases rule: send_webhook_cases [OF pre, of env event])
    case 1
    then have "send_webhook_with_retry env slot now event j h s = (settle_job slot now j ?s0, Inr True)"
      unfolding start by (simp only: sum.case prod.case bool.case)
    then show ?thesis using moved [OF s0(2)] by (intro exI conjI) auto
  next
    case 2
    let ?s1 = "?s0\<lparr>wd_hooks := (wd_hooks ?s0)(j_id j := ?h0\<lparr>h_status := Hook_sent\<rparr>)\<rparr>"
    have "send_webhook_with_retry env slot now event j h s = (settle_job slot now j ?s1, Inr True)"
      unfolding start 2 by (simp only: sum.case prod.case bool.case)
    moreover have "wd_db ?s1 = wd_db s" by simp
    ultimately show ?thesis using moved [of ?s1] by (intro exI conjI) auto
  next
    case 3
    have live: "j \<in> set (live (wd_db ?s0))" using assms(2) s0(2) by simp
    have fail: "send_webhook_with_retry env slot now event j h s = after_failure slot now j ?h0 ?s0"
      unfolding start 3 by (simp only: sum.case prod.case bool.case)
    show ?thesis
    proof (cases "h_retries h + 1 < h_max_retries h")
      case True
      then have "send_webhook_with_retry env slot now event j h s =
          (s\<lparr>wd_hooks := (wd_hooks s)(j_id j := h\<lparr>h_retries := h_retries h + 1, h_status := Hook_pending\<rparr>)\<rparr>, Inr False)"
        using live unfolding fail after_failure_def Let_def by (auto simp: save_hook_live)
      then show ?thesis using True assms(1) by auto
    next
      case False
      let ?s2 = "?s0\<lparr>wd_hooks := (wd_hooks ?s0)(j_id j := ?h0\<lparr>h_retries := h_retries h + 1, h_status := Hook_failed\<rparr>)\<rparr>"
      have "send_webhook_with_retry env slot now event j h s = (settle_job slot now j ?s2, Inr False)"
        using live False unfolding fail after_failure_def Let_def by (auto simp: save_hook_live)
      moreover have "wd_db ?s2 = wd_db s" by simp
      ultimately show ?thesis using False moved [of ?s2] by (intro exI conjI) auto
    qed
  qed
qed

definition finished_job :: "job_id \<Rightarrow> int \<Rightarrow> job" where
  "finished_job k prio = sample_job\<lparr>j_id := k, j_status := Success, j_priority := prio\<rparr>"

definition hooked :: "string \<Rightarrow> hook" where
  "hooked url = \<lparr>h_url = url, h_events = [''success''], h_status = Hook_pending, h_retries = 0, h_max_retries = 3\<rparr>"

definition sample_hooks :: whdb where
  "sample_hooks =
     \<lparr>wd_db = empty_db\<lparr>live := [finished_job 1 9, finished_job 2 5]\<rparr>,
      wd_hooks = (\<lambda>k. if k = 1 then hooked ''http://[bad/'' else hooked ''http://93.184.216.34/'')\<rparr>"

definition accepting :: wh_env where
  "accepting = \<lparr>we_dns = (\<lambda>_. None), we_httpx = True, we_post = (\<lambda>_ _. Http_status 200)\<rparr>"

lemma sample_hooks_wf: "wf_db (wd_db sample_hooks)"
  by (simp add: sample_hooks_def wf_db_def wf_jobs_def wf_attempts_def wf_ready_def empty_db_def finished_job_def open_for_def)

theorem webhook_attempt_outcome_witness:
  "\<exists>ok s'. send_webhook_with_retry accepting 0 5 ''success'' (finished_job 2 5) (hooked ''http://93.184.216.34/'') sample_hooks =
     (s', Inr ok) \<and> (ok \<longrightarrow> 2 \<notin> j_id ` set (live (wd_db s')))"
proof -
  have side: "finished_job 2 5 \<in> set (live (wd_db sample_hooks))" "is_terminal (j_status (finished_job 2 5))"
    "0 \<in> set SLOTS" "hooked ''http://93.184.216.34/'' = wd_hooks sample_hooks (j_id (finished_job 2 5))"
    "h_url (hooked ''http://93.184.216.34/'') \<noteq> []"
    by (simp_all add: sample_hooks_def finished_job_def hooked_def SLOTS_def is_terminal_def)
  have "case urlparse ''http://93.184.216.34/'' of Inl _ \<Rightarrow> False | Inr _ \<Rightarrow> True" by code_simp
  then have "\<forall>e. urlparse (h_url (hooked ''http://93.184.216.34/'')) \<noteq> Inl e"
    by (auto simp: hooked_def split: sum.splits)
  from webhook_attempt_outcome [OF sample_hooks_wf side this, of accepting 5 "''success''"]
  show ?thesis by (auto simp: finished_job_def)
qed

section \<open>A malformed URL stops the sweep\<close>

lemma malformed_delivery:
  assumes "j \<in> set (live (wd_db s))" "h = wd_hooks s (j_id j)" "h_status h = Hook_pending"
    and "event \<in> set (h_events h)" "urlparse (h_url h) = Inl e"
  shows "send_webhook_with_retry env slot now event j h s = (s, Inl e)"
proof -
  have url: "h_url h \<noteq> []"
    using assms(5) by (auto simp: urlparse_def split_scheme_def strip_url_def py_partition_def startswith_def Let_def splits_params_def py_rpartition_def)
  have same: "h\<lparr>h_status := Hook_pending\<rparr> = h" "s\<lparr>wd_hooks := (wd_hooks s)(j_id j := h)\<rparr> = s"
    using assms(2,3) by (simp_all add: hook.equality whdb.equality)
  have "send_webhook env event (j_id j) h s = Inl e"
    using url assms(4,5) resolve_escapes [of "we_dns env" False "h_url h" e] by (simp add: send_webhook_def)
  then show ?thesis
    using url same save_hook_live [OF assms(1), of h] by (simp add: send_webhook_with_retry_def Let_def)
qed

text \<open>A webhook URL with unbalanced or invalid brackets makes \<^verbatim>\<open>urlparse\<close> raise, and nothing catches it: if
  such a job comes first among the pending ones, \<^verbatim>\<open>retry_failed_webhooks\<close> raises and changes nothing, so the
  same job comes first in every later sweep and no other pending webhook is ever retried.\<close>

theorem malformed_webhook_blocks_sweep:
  assumes "pending_webhooks s = j # js" "j_status j = Success"
    and "''success'' \<in> set (h_events (wd_hooks s (j_id j)))" "urlparse (h_url (wd_hooks s (j_id j))) = Inl e"
  shows "retry_failed_webhooks env slot now s = (s, Inl e)"
proof -
  have "j \<in> set (pending_webhooks s)" using assms(1) by simp
  then have j: "j \<in> set (live (wd_db s))" "h_status (wd_hooks s (j_id j)) = Hook_pending"
    by (auto simp: pending_webhooks_def)
  show ?thesis
    using malformed_delivery [OF j(1) refl j(2) assms(3,4), of env slot now] assms(1,2)
    by (simp add: retry_failed_webhooks_def)
qed

theorem malformed_webhook_blocks_sweep_witness:
  "map j_id (pending_webhooks sample_hooks) = [1, 2] \<and>
   retry_failed_webhooks accepting 0 5 sample_hooks = (sample_hooks, Inl ValueError)"
proof -
  have p: "pending_webhooks sample_hooks = [finished_job 1 9, finished_job 2 5]" by code_simp
  have u: "urlparse ''http://[bad/'' = Inl ValueError" by code_simp
  have "retry_failed_webhooks accepting 0 5 sample_hooks = (sample_hooks, Inl ValueError)"
    by (rule malformed_webhook_blocks_sweep [OF p])
      (simp_all add: sample_hooks_def finished_job_def hooked_def u)
  then show ?thesis using p by (simp add: finished_job_def)
qed

section \<open>A delivered failure webhook strands the retry\<close>

lemma delivered_settles:
  assumes "send_webhook_with_retry env slot now event j h s = (s', Inr True)" "h_url h \<noteq> []"
  obtains s1 where "wd_db s1 = wd_db s" "s' = settle_job slot now j s1"
proof -
  have fail: "snd (after_failure slot now j h1 s1) \<noteq> Inr True" for h1 s1
    by (auto simp: after_failure_def Let_def split: sum.splits)
  have send: "wd_db s1 = wd_db s0" if "send_webhook env event k h0 s0 = Inr (b, h1, s1)" for k h0 s0 b h1 s1
    using that by (auto simp: send_webhook_def save_hook_def Let_def split: if_splits sum.splits resolve_failure.splits response.splits)
  have save: "wd_db s0 = wd_db s" if "(if c then save_hook k h0 s else Inr s) = Inr s0" for c k h0 s0
    using that by (auto simp: save_hook_def split: if_splits)
  let ?h0 = "if h_retries h = 0 then h\<lparr>h_status := Hook_pending\<rparr> else h"
  obtain s0 where s0: "(if h_retries h = 0 then save_hook (j_id j) ?h0 s else Inr s) = Inr s0"
    using assms by (cases "if h_retries h = 0 then save_hook (j_id j) ?h0 s else Inr s")
      (simp_all add: send_webhook_with_retry_def Let_def)
  note eq = assms(1) [unfolded send_webhook_with_retry_def Let_def s0]
  obtain b h1 s1 where sent: "send_webhook env event (j_id j) ?h0 s0 = Inr (b, h1, s1)"
    using eq assms(2) by (cases "send_webhook env event (j_id j) ?h0 s0") auto
  have eq1: "(if b then (settle_job slot now j s1, Inr True) else after_failure slot now j h1 s1) = (s', Inr True)"
    using eq assms(2) by (simp only: sent sum.case prod.case if_False) (simp split: bool.splits)
  then have b using fail [of h1 s1] by (auto split: if_splits)
  then show ?thesis using that [of s1] eq1 send [OF sent] save [OF s0] by simp
qed

text \<open>C24: a failed job that owes a retry stays in the live table, with its marker, until the retry exists; but
  if it has a webhook that is delivered, the delivery settles it at once: the history then holds the failed
  job with the marker, the recovery of lost retries does not see it any more (a worker that dies before it
  queues the retry loses the retry), and the worker that does queue it can no longer archive the failed job.\<close>

theorem delivered_webhook_strands_retry:
  assumes "wf_db (wd_db s)" "j \<in> set (live (wd_db s))" "j_status j = Failed"
    and "is_retry_pending (Some (j_termination_reason j))" "slot \<in> set SLOTS" "h_url (wd_hooks s (j_id j)) \<noteq> []"
    and "deliver_failure env slot now j s = (s', Inr True)"
  shows "(\<exists>r\<in>set (history (wd_db s')). j_id r = j_id j \<and> j_status r = Failed \<and>
      is_retry_pending (Some (j_termination_reason r))) \<and>
    j_id j \<notin> j_id ` set (dj_get_jobs_pending_retry cutoff limit (wd_db s')) \<and>
    dj_mark_job_archived later (j_id j) (wd_db s') = Inr (wd_db s')"
proof -
  obtain s1 where s1: "wd_db s1 = wd_db s" "s' = settle_job slot now j s1"
    using delivered_settles [OF assms(7) [unfolded deliver_failure_def] assms(6)] .
  have "is_terminal (j_status j)" using assms(3) by (simp add: is_terminal_def)
  from settle_job_moves(1,2) [of s1 j slot now, unfolded s1(1), OF assms(1,2) this assms(5)]
  have gone: "j_id j \<notin> j_id ` set (live (wd_db s'))"
    and row: "\<exists>r\<in>set (history (wd_db s')). j_id r = j_id j \<and> j_status r = Failed \<and>
      j_termination_reason r = j_termination_reason j"
    using s1(2) assms(3) by auto
  have "set (dj_get_jobs_pending_retry cutoff limit (wd_db s')) \<subseteq> set (live (wd_db s'))"
    by (auto simp: dj_get_jobs_pending_retry_def dest!: in_set_takeD)
  moreover have "List.find (\<lambda>x. j_id x = j_id j \<and> j_status x = Failed) (live (wd_db s')) = None"
    using gone unfolding find_None_iff by (metis image_eqI)
  then have "dj_mark_job_archived later (j_id j) (wd_db s') = Inr (wd_db s')"
    by (simp add: dj_mark_job_archived_def dj_settle_failed_row_def)
  ultimately show ?thesis using gone row assms(4) by (metis image_mono subsetD)
qed

definition owing_job :: job where
  "owing_job = (finished_job 2 5)\<lparr>j_status := Failed, j_termination_reason := ''retry_pending:timeout''\<rparr>"

definition owing_hooks :: whdb where
  "owing_hooks =
     \<lparr>wd_db = empty_db\<lparr>live := [owing_job]\<rparr>,
      wd_hooks = (\<lambda>_. (hooked ''http://93.184.216.34/'')\<lparr>h_events := [''failure'']\<rparr>)\<rparr>"

theorem delivered_webhook_strands_retry_witness:
  "\<exists>s'. deliver_failure accepting 0 5 owing_job owing_hooks = (s', Inr True) \<and>
     (\<exists>r\<in>set (history (wd_db s')). j_id r = 2 \<and> is_retry_pending (Some (j_termination_reason r))) \<and>
     2 \<notin> j_id ` set (dj_get_jobs_pending_retry 99 10 (wd_db s'))"
proof -
  obtain s' r where d: "deliver_failure accepting 0 5 owing_job owing_hooks = (s', r)" by fastforce
  have "snd (deliver_failure accepting 0 5 owing_job owing_hooks) = Inr True" by code_simp
  then have d': "deliver_failure accepting 0 5 owing_job owing_hooks = (s', Inr True)" using d by simp
  have w: "wf_db (wd_db owing_hooks)"
    by (simp add: owing_hooks_def owing_job_def wf_db_def wf_jobs_def wf_attempts_def wf_ready_def empty_db_def
        finished_job_def open_for_def)
  have side: "owing_job \<in> set (live (wd_db owing_hooks))" "j_status owing_job = Failed" "0 \<in> set SLOTS"
    "h_url (wd_hooks owing_hooks (j_id owing_job)) \<noteq> []" "j_id owing_job = 2"
    by (simp_all add: owing_hooks_def owing_job_def finished_job_def hooked_def SLOTS_def)
  have "is_retry_pending (Some (j_termination_reason owing_job))" by code_simp
  from delivered_webhook_strands_retry [OF w side(1,2) this side(3,4) d', of 99 10] side(5) d' show ?thesis by auto
qed

end
