(* ===== verification/Sq_Async_Props.thy ===== *)
theory Sq_Async_Props
  imports Sq_Django_System Sq_Execution
begin

text \<open>
  What the async backend and worker promise, and where they differ from the synchronous ones: the recheck of
  a blocked job, the retry of a failed one, the claim that does not look at dependencies, the job that is left
  in the state \<^verbatim>\<open>shutting_down\<close>, the task that cannot be loaded, and the lease that two workers are given.
\<close>

section \<open>Rechecking\<close>

lemma move_where_idle:
  assumes "\<not> is_running d jid"
  shows "move_where d jid (fe\<lparr>fe_idle := b\<rparr>) = move_where d jid fe"
  using assms by (auto simp: move_where_def fun_eq_iff)

lemma finish_in_idle:
  assumes "\<not> is_running d jid"
  shows "finish_in now jid st v (fe\<lparr>fe_idle := b\<rparr>) d = finish_in now jid st v fe d"
  unfolding finish_in_def move_where_idle [OF assms] ..

text \<open>C16: the async backend rechecks a blocked job as the synchronous backend does, although it reads the retry
  chains of the dependencies ahead, level by level, and fails the job with its own statements: for a job that
  is not running both leave the same database and report the same outcome or exception.\<close>

theorem async_recheck_same:
  assumes "\<not> is_running d jid"
  shows "arecheck_blocked slot now jid created_at d = recheck_blocked slot now jid created_at d"
proof (cases "List.find (\<lambda>j. j_id j = jid \<and> j_created_at j = created_at) (live d)")
  case None
  then show ?thesis by (simp add: arecheck_blocked_def recheck_blocked_def)
next
  case (Some j)
  have j: "j_id j = jid" "j_created_at j = created_at" using find_mem [OF Some] by auto
  let ?d = "delete_blocked [jid] (fst (delete_ready [jid] d))"
  have idle: "\<not> is_running ?d jid" using assms by simp
  have "fail_queued now j err r d = finish_in now jid Failed
      (no_values\<lparr>v_error := Some err, v_termination_reason := Some r, v_finished_at := Some now\<rparr>)
      (no_fences\<lparr>fe_created_at := Some created_at, fe_status := Some [Queued]\<rparr>) ?d" for err r
    using finish_in_idle [OF idle, where b = True and
        fe = "no_fences\<lparr>fe_created_at := Some created_at, fe_status := Some [Queued]\<rparr>"]
    by (simp add: fail_queued_def Let_def j)
  then show ?thesis
    using Some assms by (cases "judge_in d (dependency_ids j)") (simp_all add: arecheck_blocked_def recheck_blocked_def ajudge_eq)
qed

theorem async_recheck_same_witness:
  "\<not> is_running sample_db 7 \<and> arecheck_blocked 0 300 7 100 sample_db = recheck_blocked 0 300 7 100 sample_db"
proof -
  have "\<not> is_running sample_db 7" by code_simp
  then show ?thesis using async_recheck_same by blast
qed

section \<open>Retries\<close>

lemma close_attempt_live: "close_attempt now jid att oc d = Inr d1 \<Longrightarrow>
    live d1 = live d \<and> history d1 = history d \<and> ready d1 = ready d \<and> staged d1 = staged d \<and> blocked d1 = blocked d"
  by (auto simp: close_attempt_def close_exact_def close_unfenced_def close_open_def Let_def split: option.splits sum.splits)

lemma add_job_frame:
  "live (add_job slot j d) = live d @ [j]" "history (add_job slot j d) = history d"
  "attempts (add_job slot j d) = attempts d"
  by (simp_all add: add_job_def Let_def)

lemma add_job_entry: "\<exists>e\<in>set (ready (add_job slot j d)). r_job_id e = j_id j"
proof -
  obtain e where e: "e \<in> set (insert_ready [ready_values slot j] (ready d))" "r_job_id e = j_id j"
    using insert_ready_key [of "ready_values slot j" "[ready_values slot j]" "ready d"]
    by (auto simp: ready_key_def ready_values_def)
  let ?f = "\<lambda>e. if r_slot e \<in> set SLOTS \<and> r_job_id e = j_id j
      then e\<lparr>r_queue_name := j_queue_name j, r_priority := j_priority j, r_scheduled_at := j_scheduled_at j\<rparr> else e"
  have "?f e \<in> set (ready (add_job slot j d))"
    using e(1) by (auto simp: add_job_def ensure_entry_def update_ready_def write_ready_def Let_def update_where_def)
  moreover have "r_job_id (?f e) = j_id j" using e(2) by simp
  ultimately show ?thesis by blast
qed

lemma in_place_simps [simp]:
  "j_id (in_place_row st v j) = j_id j" "j_status (in_place_row st v j) = st"
  "j_created_at (in_place_row st v j) = j_created_at j" "j_error (in_place_row st v j) = override (v_error v) (j_error j)"
  "j_termination_reason (in_place_row st v j) = override (v_termination_reason v) (j_termination_reason j)"
  by (simp_all add: in_place_row_def set_values_def Let_def split: option.splits)

text \<open>The first transaction: the failed job stays in the live table, without a marker.\<close>

lemma amark_failed_in_place:
  assumes w: "wf_db d" and j: "j \<in> set (live d)" and b: "ashould_retry j" and h: "handle_open h d"
  obtains d1 row where "amark_failed slot now (j_id j) error tb (Some h) d = (d1, Inr ())" "row \<in> set (live d1)"
    "j_id row = j_id j" "j_status row = Failed" "j_error row = error" "j_termination_reason row = j_termination_reason j"
    "map j_id (live d1) = map j_id (live d)" "history d1 = history d" "staged d1 = staged d" "blocked d1 = blocked d"
    "\<not> handle_open h d1"
proof -
  let ?v = "no_values\<lparr>v_finished_at := Some now, v_error := Some error, v_traceback := Some tb,
      v_ran := open_attempt_in d (j_id j)\<rparr>"
  let ?c = "fst (close_exact h Outcome_failed now d)"
  let ?d1 = "?c\<lparr>live := update_where (\<lambda>x. j_id x = j_id j) (in_place_row Failed ?v) (live ?c)\<rparr>"
  have c: "live ?c = live d" "history ?c = history d" "staged ?c = staged d" "blocked ?c = blocked d"
    by (simp_all add: close_exact_def close_open_def Let_def)
  have row: "live_by_id (j_id j) d = Some j" using live_by_id_Some [OF w] j by blast
  have f: "amark_failed slot now (j_id j) error tb (Some h) d = (?d1, Inr ())"
    by (simp add: amark_failed_def row b afinish_def close_attempt_fenced [OF w] h)
  have mem: "in_place_row Failed ?v j \<in> set (live ?d1)" using j c(1) by (force simp: update_where_def)
  have "handle_open h ?d1 = handle_open h ?c" by (simp add: handle_open_def)
  then have closed: "\<not> handle_open h ?d1" using close_exact_closes by simp
  show ?thesis
    by (rule that [OF f mem]) (use c closed in \<open>simp_all add: map_update_where override_def no_values_def\<close>)
qed

text \<open>The second transaction: the retry is queued and the failed job archived.\<close>

lemma arequeue_archives:
  assumes w: "wf_db d" and row: "row \<in> set (live d)" "j_id row = j_id j" "j_status row = Failed"
    and new: "fresh_id new_id d" "slot \<in> set SLOTS"
  obtains d' r where "arequeue_retry slot now new_id j d = Inr d'" "safe d d'" "r \<in> set (history d')" "j_id r = j_id j"
    "j_status r = Archived" "j_error r = j_error row"
    "live d' = delete_where (\<lambda>x. j_id x = j_id j) (live d @ [aretry_row now new_id j])"
    "\<exists>e\<in>set (ready d'). r_job_id e = new_id"
proof -
  let ?d1 = "add_job slot (aretry_row now new_id j) d"
  let ?v = "no_values\<lparr>v_termination_reason := Some (settled_termination_reason (Some (j_termination_reason row)))\<rparr>"
  let ?fe = "no_fences\<lparr>fe_created_at := Some (j_created_at row), fe_status := Some [Failed]\<rparr>"
  let ?d2 = "moved_to_history now (j_id j) Archived ?v row ?d1"
  have s1: "safe d ?d1" using add_job_safe new by simp
  then have w1: "wf_db ?d1" using w by (simp add: safe_def)
  have row1: "row \<in> set (live ?d1)" using row(1) by (simp add: add_job_frame)
  obtain x where x: "List.find (\<lambda>r. j_id r = j_id j \<and> j_status r = Failed) (live ?d1) = Some x"
    using row(2,3) row1 find_isSome [of "\<lambda>r. j_id r = j_id j \<and> j_status r = Failed" "live ?d1"] by blast
  moreover have "x = row" using find_mem [OF x] wf_live_unique [OF w1 _ row1] row(2) by simp
  ultimately have find: "List.find (\<lambda>r. j_id r = j_id j \<and> j_status r = Failed) (live ?d1) = Some row" by simp
  have "live_by_id (j_id j) ?d1 = Some row" using live_by_id_Some [OF w1] row1 row(2) by blast
  then have fi: "finish_in now (j_id j) Archived ?v ?fe ?d1 = Inr (?d2, True)"
    using row(2,3) by (simp add: finish_in_cases [OF w1] move_where_def no_fences_def)
  have r: "arequeue_retry slot now new_id j d = Inr ?d2"
    unfolding arequeue_retry_def Let_def find option.case fi by simp
  have hist: "history_row ?d1 now Archived ?v row \<in> set (history ?d2)"
    by (simp add: moved_to_history_def close_stragglers_def)
  show ?thesis
  proof (rule that [OF r safe_trans [OF s1] hist])
    show "safe ?d1 ?d2" using finish_in_safe [OF fi] by simp
    show "live ?d2 = delete_where (\<lambda>x. j_id x = j_id j) (live d @ [aretry_row now new_id j])"
      by (simp add: moved_to_history_def close_stragglers_def add_job_frame)
    show "\<exists>e\<in>set (ready ?d2). r_job_id e = new_id"
      using add_job_entry [of slot "aretry_row now new_id j" d] by (simp add: moved_to_history_def close_stragglers_def)
  qed (use row(2) in \<open>simp_all add: history_row_def set_ran_def set_values_def no_values_def override_def split: option.splits\<close>)
qed

text \<open>Both transactions together.\<close>

lemma failed_then_requeued:
  assumes "wf_db d" "j \<in> set (live d)" "ashould_retry j" "handle_open h d" "slot \<in> set SLOTS" "fresh_id new_id d"
  shows "\<exists>d1 d2. amark_failed slot now (j_id j) error tb (Some h) d = (d1, Inr ()) \<and>
    arequeue_retry slot now new_id j d1 = Inr d2 \<and> wf_db d2 \<and> \<not> handle_open h d2 \<and> j_id j \<notin> j_id ` set (live d2) \<and>
    (\<exists>r\<in>set (history d2). j_id r = j_id j \<and> j_status r = Archived \<and> j_error r = error) \<and>
    (\<exists>r\<in>set (live d2). j_id r = new_id \<and> j_status r = Queued \<and> j_parent_job_id r = Some (j_id j) \<and>
       j_retry_count r = j_retry_count j + 1) \<and> (\<exists>e\<in>set (ready d2). r_job_id e = new_id)"
proof -
  obtain d1 row where f: "amark_failed slot now (j_id j) error tb (Some h) d = (d1, Inr ())"
    and row: "row \<in> set (live d1)" "j_id row = j_id j" "j_status row = Failed" "j_error row = error"
    and same: "map j_id (live d1) = map j_id (live d)" "history d1 = history d" "staged d1 = staged d"
    and closed: "\<not> handle_open h d1"
    using amark_failed_in_place [OF assms(1-4)] .
  have s: "safe d d1" using amark_safe(2) [OF assms(5) f] .
  then have w1: "wf_db d1" using assms(1) by (simp add: safe_def)
  have "job_ids d1 = job_ids d" using same(2) arg_cong [OF same(1), of set] by (simp add: job_ids_def)
  then have fr: "fresh_id new_id d1" using assms(6) same(3) by (simp add: fresh_id_def)
  have ne: "new_id \<noteq> j_id j" using assms(2,6) by (auto simp: fresh_id_def job_ids_def)
  obtain d2 r where q: "arequeue_retry slot now new_id j d1 = Inr d2" and s2: "safe d1 d2"
    and r: "r \<in> set (history d2)" "j_id r = j_id j" "j_status r = Archived" "j_error r = j_error row"
    and l: "live d2 = delete_where (\<lambda>x. j_id x = j_id j) (live d1 @ [aretry_row now new_id j])"
    and e: "\<exists>e\<in>set (ready d2). r_job_id e = new_id"
    using arequeue_archives [OF w1 row(1-3) fr assms(5)] .
  have "h_id h < next_attempt d1"
    using assms(1,4) s by (fastforce simp: handle_open_def wf_db_def wf_attempts_def safe_def evolves_def attempts_evolve_def)
  then have "\<not> handle_open h d2" using handle_closed_stays [OF closed] s2 w1 by (simp add: safe_def)
  moreover have "aretry_row now new_id j \<in> set (live d2)" using l ne by (simp add: delete_where_def)
  moreover have "j_parent_job_id (aretry_row now new_id j) = Some (j_id j)" "j_retry_count (aretry_row now new_id j) = j_retry_count j + 1"
    by (simp_all add: aretry_row_def retry_job_fields_def spec_of_fields_def queued_job_def Let_def)
  moreover have "j_id j \<notin> j_id ` set (live d2)" using l by (auto simp: delete_where_def)
  moreover have "wf_db d2" using s2 w1 by (simp add: safe_def)
  moreover have "\<exists>r\<in>set (history d2). j_id r = j_id j \<and> j_status r = Archived \<and> j_error r = error" using r row(4) by auto
  ultimately show ?thesis using f q e aretry_row_id by blast
qed

text \<open>A failure without budget: the job is moved to the history as failed.\<close>

lemma amark_failed_final:
  assumes w: "wf_db d" and j: "j \<in> set (live d)" and b: "\<not> ashould_retry j" and h: "handle_open h d" and slot: "slot \<in> set SLOTS"
  obtains d1 r where "amark_failed slot now (j_id j) error tb (Some h) d = (d1, Inr ())" "wf_db d1" "\<not> handle_open h d1"
    "r \<in> set (history d1)" "j_id r = j_id j" "j_status r = Failed" "j_error r = error"
    "live d1 = delete_where (\<lambda>x. j_id x = j_id j) (live d)"
proof -
  let ?v = "no_values\<lparr>v_finished_at := Some now, v_error := Some error, v_traceback := Some tb,
      v_ran := open_attempt_in d (j_id j)\<rparr>"
  let ?c = "fst (close_exact h Outcome_failed now d)"
  let ?d1 = "moved_to_history now (j_id j) Failed ?v j ?c"
  have c: "live ?c = live d" by (simp add: close_exact_def close_open_def Let_def)
  have "safe d ?c" by (rule close_variants_safe)
  then have wc: "wf_db ?c" using w by (simp add: safe_def)
  have row: "live_by_id (j_id j) d = Some j" "live_by_id (j_id j) ?c = Some j"
    using live_by_id_Some [OF w] live_by_id_Some [OF wc] j c by auto
  have "finish_in now (j_id j) Failed ?v no_fences ?c = Inr (?d1, True)"
    using row(2) by (simp add: finish_in_cases [OF wc] move_where_def no_fences_def)
  then have f: "amark_failed slot now (j_id j) error tb (Some h) d = (?d1, Inr ())"
    by (simp add: amark_failed_def row(1) b afinish_def close_attempt_fenced [OF w] h Let_def)
  have "handle_open h d \<and> \<not> handle_open h ?d1 \<and> safe d ?d1"
    using f [unfolded amark_failed_def] by (rule afinish_accepted [OF w _ slot, rotated -1]) (use j in auto)
  then have "wf_db ?d1" "\<not> handle_open h ?d1" using w by (auto simp: safe_def)
  then show ?thesis
    by (rule that [OF f, where r = "history_row ?c now Failed ?v j"])
      (simp_all add: moved_to_history_def close_stragglers_def c history_row_def set_ran_def set_values_def no_values_def
        override_def split: option.splits)
qed

text \<open>C17: what the async worker does with a job whose task raised, decided by the worker itself. With budget
  left the failed job ends archived in the history with its error and its attempt closed, and one new queued
  job names it as its parent, counts one retry more and has a ready entry; without budget the job ends in the
  history as failed with its error, and no job is added. Either way the dependents are rechecked last. (A task
  that cannot be loaded goes another way, \<open>load_failure_not_retried\<close>.)\<close>

theorem async_failure_requeued:
  assumes "wf_db d" "j \<in> set (live d)" "handle_open h d" "slot \<in> set SLOTS" "fresh_id new_id d"
  shows "\<exists>d2. on_job_failed slot now new_id j error tb (Some h) d =
      (arelease_dependents_quietly slot now (j_id j) None d2, Inr ()) \<and> wf_db d2 \<and> \<not> handle_open h d2 \<and>
    (if ashould_retry j then j_id j \<notin> j_id ` set (live d2) \<and>
      (\<exists>r\<in>set (history d2). j_id r = j_id j \<and> j_status r = Archived \<and> j_error r = error) \<and>
      (\<exists>r\<in>set (live d2). j_id r = new_id \<and> j_status r = Queued \<and> j_parent_job_id r = Some (j_id j) \<and>
         j_retry_count r = j_retry_count j + 1) \<and> (\<exists>e\<in>set (ready d2). r_job_id e = new_id)
     else (\<exists>r\<in>set (history d2). j_id r = j_id j \<and> j_status r = Failed \<and> j_error r = error) \<and>
       live d2 = delete_where (\<lambda>x. j_id x = j_id j) (live d))"
proof (cases "ashould_retry j")
  case True
  obtain d1 d2 where f: "amark_failed slot now (j_id j) error tb (Some h) d = (d1, Inr ())"
    and q: "arequeue_retry slot now new_id j d1 = Inr d2" and facts: "wf_db d2" "\<not> handle_open h d2"
      "j_id j \<notin> j_id ` set (live d2)" "\<exists>r\<in>set (history d2). j_id r = j_id j \<and> j_status r = Archived \<and> j_error r = error"
      "\<exists>r\<in>set (live d2). j_id r = new_id \<and> j_status r = Queued \<and> j_parent_job_id r = Some (j_id j) \<and>
         j_retry_count r = j_retry_count j + 1" "\<exists>e\<in>set (ready d2). r_job_id e = new_id"
    using failed_then_requeued [OF assms(1,2) True assms(3-5)] by blast
  have "on_job_failed slot now new_id j error tb (Some h) d =
      (arelease_dependents_quietly slot now (j_id j) None d2, Inr ())"
    using f q True by (simp add: on_job_failed_def Let_def quiet_def)
  then show ?thesis using facts True by (intro exI [of _ d2]) simp
next
  case False
  obtain d1 r where f: "amark_failed slot now (j_id j) error tb (Some h) d = (d1, Inr ())" "wf_db d1" "\<not> handle_open h d1"
    "r \<in> set (history d1)" "j_id r = j_id j" "j_status r = Failed" "j_error r = error"
    "live d1 = delete_where (\<lambda>x. j_id x = j_id j) (live d)"
    using amark_failed_final [OF assms(1,2) False assms(3,4)] .
  have "on_job_failed slot now new_id j error tb (Some h) d =
      (arelease_dependents_quietly slot now (j_id j) None d1, Inr ())"
    using f(1) False by (simp add: on_job_failed_def Let_def)
  then show ?thesis using f(2-8) False by (intro exI [of _ d1]) auto
qed

lemma sample_running_open:
  "sample_job \<in> set (live sample_running)" "ashould_retry sample_job" "handle_open sample_handle sample_running"
  "fresh_id 9 sample_running" "0 \<in> set SLOTS" "j_id sample_job = 7"
  by (simp_all add: sample_running_eval empty_db_def sample_job_def sample_spec_def queued_job_def ashould_retry_def
      handle_open_def sample_handle_def new_attempt_def fresh_id_def job_ids_def SLOTS_def)

theorem async_failure_requeued_witness:
  "\<exists>d2. on_job_failed 0 300 9 sample_job ''boom'' [] (Some sample_handle) sample_running =
      (arelease_dependents_quietly 0 300 7 None d2, Inr ()) \<and> (\<exists>r\<in>set (live d2). j_id r = 9 \<and> j_retry_count r = 1)"
proof -
  have "j_retry_count sample_job = 0" by (simp add: sample_job_def sample_spec_def queued_job_def)
  then show ?thesis
    using async_failure_requeued [OF reachable_wf [OF sample_running_reachable] sample_running_open(1,3,5,4), of 300 "''boom''" "[]"]
      sample_running_open(2)
    unfolding sample_running_open(6) by auto
qed

section \<open>Claims without a look at the dependencies\<close>

lemma take_entry_claims:
  assumes w: "wf_db d" and e: "e \<in> set (ready d)" and j: "job_of_entry e d = Some j" "j_status j = Queued"
    "\<not> is_running d (j_id j)" "\<not> (ce_pg env \<and> ce_busy env (j_id j))"
  obtains d' h where "take_entry env now e j d = (d', It_claimed (as_running j h) h)" "h_job_id h = j_id j"
proof -
  have jm: "j \<in> set (live d)" "j_id j = r_job_id e" using find_mem [OF j(1) [unfolded job_of_entry_def]] by auto
  obtain d1 n where de: "delete_entry (r_slot e) (r_job_id e) d = (d1, n)" by fastforce
  have keys: "distinct (map ready_key (ready d))" using w by (simp add: wf_db_def wf_ready_def)
  have "n = rowcount (\<lambda>x. ready_key x = ready_key e) (ready d)"
    using de by (auto simp: delete_entry_def Let_def ready_key_def intro!: arg_cong2 [where f = rowcount])
  moreover have "rowcount (\<lambda>x. ready_key x = ready_key e) (ready d) \<le> 1" using rowcount_distinct_key [OF keys] .
  moreover have "0 < rowcount (\<lambda>x. ready_key x = ready_key e) (ready d)" using e by (auto simp: rowcount_pos)
  ultimately have n: "n = 1" by linarith
  have d1: "live d1 = live d" "is_running d1 = is_running d"
    using delete_entry_frame [of "r_slot e" "r_job_id e" d] by (simp_all add: de)
  let ?P = "\<lambda>r. j_id r = j_id j \<and> j_created_at r = j_created_at j \<and> \<not> (ce_pg env \<and> ce_busy env (j_id r))"
  obtain x where x: "List.find ?P (live d) = Some x"
    using jm(1) j(4) find_isSome [of ?P "live d"] by blast
  have "x = j" using find_mem [OF x] wf_live_unique [OF w _ jm(1)] by simp
  then have find: "List.find ?P (live d1) = Some j" using x d1 by simp
  obtain d2 h where o: "open_attempt env (j_id j) now d1 = (d2, h)" by fastforce
  have "start_attempt env j now d1 = (d2, Some h, Claimed)"
    unfolding start_attempt_def find option.case Let_def using j(2,3) d1(2) o by (simp add: claim_verdict_ok_iff)
  then have "take_entry env now e j d = (d2, It_claimed (as_running j h) h)" using de n by (simp add: take_entry_def)
  then show ?thesis using that o by (auto simp: open_attempt_def Let_def)
qed

text \<open>The async claim ignores dependencies: when the first due entry belongs to a queued job with a dependency that
  is still pending, the synchronous scan sets the job aside, but the async worker is given the job and runs it
  before its dependency.\<close>

theorem async_claim_ignores_dependencies:
  assumes w: "wf_db d" and n: "next_entry queues now None (ce_locked env) d = Some e" and j: "job_of_entry e d = Some j"
    and q: "j_status j = Queued" "\<not> is_running d (j_id j)" "\<not> (ce_pg env \<and> ce_busy env (j_id j))"
    and p: "judge_in d (dependency_ids j) = Pending" "\<not> ttl_expired now j"
  shows "(\<exists>st'. claim_iteration env queues now \<lparr>cs_db = d, cs_cursor = None, cs_blocked = [], cs_failed = []\<rparr> =
      Inr (st', It_next)) \<and>
    (\<exists>d' h. aclaim_job env uuid_of queues worker_id now d = (d', Some (as_running j h, h)) \<and> h_job_id h = j_id j)"
proof
  let ?st = "\<lparr>cs_db = d, cs_cursor = None, cs_blocked = [], cs_failed = []\<rparr>"
  have id: "r_job_id e = j_id j" using find_mem [OF j [unfolded job_of_entry_def]] by simp
  have "dependency_ids j \<noteq> []" using p(1) by (auto simp: judge_in_def judge_dependencies_def)
  then have "claim_decision now j d = Inr (d, D_pending)" using p by (simp add: claim_decision_def)
  then show "\<exists>st'. claim_iteration env queues now ?st = Inr (st', It_next)"
    using n j q(1,2) id by (auto simp: claim_iteration_def examine_def job_under_entry_def split: prod.splits)
  let ?env = "env\<lparr>ce_worker := registered_worker_id uuid_of worker_id d\<rparr>"
  obtain d' h where t: "take_entry ?env now e j d = (d', It_claimed (as_running j h) h)" "h_job_id h = j_id j"
    using take_entry_claims [OF w _ j q(1,2), of ?env now] next_entry_Some [OF n] q(3) by auto
  have "aclaim_iteration ?env queues now ?st = (?st\<lparr>cs_cursor := Some (cursor_of e), cs_db := d'\<rparr>, It_claimed (as_running j h) h)"
    using n j q(1,2) id t(1) by (simp add: aclaim_iteration_def Let_def)
  then have "aclaim_loop ?env queues now ?st = (?st\<lparr>cs_cursor := Some (cursor_of e), cs_db := d'\<rparr>, Some (as_running j h, h))"
    by (simp add: aclaim_loop.simps [of ?env queues now ?st])
  then show "\<exists>d' h. aclaim_job env uuid_of queues worker_id now d = (d', Some (as_running j h, h)) \<and> h_job_id h = j_id j"
    using t(2) by (auto simp: aclaim_job_def)
qed

definition second_job :: job where
  "second_job = queued_job 8 110 (sample_spec\<lparr>s_queue_name := ''later'', s_dependencies := Some [JInt 7]\<rparr>)"

definition two_jobs :: db where
  "two_jobs = add_job 0 second_job sample_db"

theorem async_claim_ignores_dependencies_witness:
  "judge_in two_jobs (dependency_ids second_job) = Pending \<and>
   (\<exists>d' h. aclaim_job sample_env Some [''later''] ''w1'' 200 two_jobs = (d', Some (as_running second_job h, h)))"
proof -
  have r: "reachable two_jobs"
  proof (rule rtranclp.rtrancl_into_rtrancl [OF sample_reachable])
    show "step sample_db two_jobs" unfolding two_jobs_def
      by (rule st_enqueue) (auto simp: SLOTS_def fresh_id_def job_ids_def sample_db_eval second_job_def queued_job_def
          sample_job_def empty_db_def)
  qed
  have pre: "next_entry [''later''] 200 None (ce_locked sample_env) two_jobs = Some (ready_values 0 second_job)"
    "job_of_entry (ready_values 0 second_job) two_jobs = Some second_job" "j_status second_job = Queued"
    "\<not> is_running two_jobs (j_id second_job)" "\<not> (ce_pg sample_env \<and> ce_busy sample_env (j_id second_job))"
    "judge_in two_jobs (dependency_ids second_job) = Pending" "\<not> ttl_expired 200 second_job"
    by code_simp+
  show ?thesis
    using async_claim_ignores_dependencies [OF reachable_wf [OF r] pre, of Some "''w1''"] pre(6) by blast
qed

section \<open>Jobs that are left behind\<close>

lemma shutting_down_row:
  assumes "wf_db d" "jid \<in> j_id ` set (live d)"
  obtains row where "live_by_id jid (amark_shutting_down jid d) = Some row" "j_status row = Shutting_down"
proof -
  have w: "wf_db (amark_shutting_down jid d)" using amark_shutting_down_safe assms(1) by (simp add: safe_def)
  obtain j where j: "j \<in> set (live d)" "j_id j = jid" using assms(2) by auto
  then have "j\<lparr>j_status := Shutting_down\<rparr> \<in> set (live (amark_shutting_down jid d))"
    by (force simp: amark_shutting_down_def update_where_def)
  then show ?thesis using that [of "j\<lparr>j_status := Shutting_down\<rparr>"] live_by_id_Some [OF w] j(2) by simp
qed

text \<open>C20: a job that is left in the state \<^verbatim>\<open>shutting_down\<close> with its attempt open (its worker was killed while it
  drained) is out of reach of recovery, in every consistent state: no claim of any path of any side hands it
  out; the zombie check does not list it and the sweep of stale jobs does not either, nor do Django's
  selections of running jobs; all three backends refuse to fail it as a zombie; releasing it changes nothing;
  and neither the settling of stray rows nor the recovery of lost retries finds it. So it stays where it is
  until its own worker completes it, or a retry chain it belongs to is closed.\<close>

theorem shutting_down_job_unrecovered:
  assumes w: "wf_db d" and j: "j \<in> set (live d)" "j_id j = jid" "j_status j = Shutting_down" and run: "is_running d jid"
  shows "((scan_claim x d = Inr (d', Some h) \<or> id_claim xi d = Inr (d', Some h) \<or> candidate_claim xc d = Inr (d', Some h) \<or>
       dj_scan_claim y d = Inr (d', Some h) \<or> dj_id_claim xi d = Inr (d', Some h) \<or>
       dj_candidate_claim xc d = Inr (d', Some h) \<or> async_claim t d = Inr (d', Some h)) \<longrightarrow> h_job_id h \<noteq> jid) \<and>
    jid \<notin> lv_job_id ` set (get_running_jobs_for_liveness lib queue_names d) \<and>
    jid \<notin> j_id ` set (get_running_jobs queue d) \<and> jid \<notin> j_id ` set (filter (running_clause d) (live d)) \<and>
    fail_zombie_job slot now jid reason d = (d, Inr False) \<and> afail_zombie_job slot now jid reason d = (d, Inr False) \<and>
    dj_fail_zombie_job now jid reason d = (d, Inr False) \<and>
    release_job slot now jid d = d \<and> dj_release_job slot now jid d = d \<and>
    jid \<notin> j_id ` set (stray_terminal limit cutoff d) \<and> jid \<notin> j_id ` set (dj_strays limit cutoff d) \<and>
    jid \<notin> j_id ` set (get_jobs_pending_retry cutoff limit d) \<and> jid \<notin> j_id ` set (dj_get_jobs_pending_retry cutoff limit d)"
proof (intro conjI impI)
  assume "scan_claim x d = Inr (d', Some h) \<or> id_claim xi d = Inr (d', Some h) \<or> candidate_claim xc d = Inr (d', Some h) \<or>
       dj_scan_claim y d = Inr (d', Some h) \<or> dj_id_claim xi d = Inr (d', Some h) \<or>
       dj_candidate_claim xc d = Inr (d', Some h) \<or> async_claim t d = Inr (d', Some h)"
  then have "\<not> is_running d (h_job_id h)"
    by (elim disjE) (erule scan.claimed_running(1) [OF w] by_id.claimed_running(1) [OF w] candidate.claimed_running(1) [OF w]
      dj_scanning.claimed_running(1) [OF w] dj_by_id.claimed_running(1) [OF w] dj_candidate.claimed_running(1) [OF w]
      asynchronous.claimed_running(1) [OF w])+
  then show "h_job_id h \<noteq> jid" using run by blast
next
  have st: "j_status r = Shutting_down" if "r \<in> set (live d)" "j_id r = jid" for r
    using wf_live_unique [OF w that(1) j(1)] that(2) j(2,3) by simp
  have running: "j_id r \<noteq> jid" if "(r, a) \<in> set (foldl dict_put [] (running_with_attempts qs d))" for r a qs
  proof -
    have "(r, a) \<in> set (running_with_attempts qs d)" using that dict_fold [of "[]" "running_with_attempts qs d"] by auto
    then show ?thesis using st [of r] by (auto simp: running_with_attempts_def)
  qed
  show "jid \<notin> lv_job_id ` set (get_running_jobs_for_liveness lib queue_names d)"
    by (auto simp: get_running_jobs_for_liveness_def liveness_of_def Let_def dest!: running)
  show "jid \<notin> j_id ` set (get_running_jobs queue d)"
    by (auto simp: get_running_jobs_def overlay_running_def dest!: running)
  show "jid \<notin> j_id ` set (filter (running_clause d) (live d))" using st by (auto simp: running_clause_def)
  show "jid \<notin> j_id ` set (stray_terminal limit cutoff d)" "jid \<notin> j_id ` set (dj_strays limit cutoff d)"
    using st by (auto simp: stray_terminal_def dj_strays_def is_terminal_def dest!: in_set_takeD)
  show "jid \<notin> j_id ` set (get_jobs_pending_retry cutoff limit d)" "jid \<notin> j_id ` set (dj_get_jobs_pending_retry cutoff limit d)"
    using st by (auto simp: get_jobs_pending_retry_def dj_get_jobs_pending_retry_def dest!: in_set_takeD)
  have "List.find (\<lambda>r. j_id r = jid \<and> j_status r = Queued) (live d) = None" using st by (auto simp: find_None_iff)
  then show "dj_release_job slot now jid d = d" by (simp add: dj_release_job_def)
next
  have row: "live_by_id jid d = Some j" using live_by_id_Some [OF w] j by blast
  then show "fail_zombie_job slot now jid reason d = (d, Inr False)" "afail_zombie_job slot now jid reason d = (d, Inr False)"
    "dj_fail_zombie_job now jid reason d = (d, Inr False)" "release_job slot now jid d = d"
    using j(3) by (simp_all add: fail_zombie_job_def afail_zombie_job_def dj_fail_zombie_job_def release_job_def)
qed

theorem shutting_down_job_unrecovered_witness:
  "let d' = amark_shutting_down 7 sample_running
   in is_running d' 7 \<and> release_job 0 300 7 d' = d' \<and> fail_zombie_job 0 300 7 ''gone'' d' = (d', Inr False)"
proof -
  let ?d = "amark_shutting_down 7 sample_running"
  have m: "7 \<in> j_id ` set (live sample_running)" using sample_running_open(1,6) by force
  obtain row where row: "live_by_id 7 ?d = Some row" "j_status row = Shutting_down"
    using shutting_down_row [OF reachable_wf [OF sample_running_reachable] m] .
  have w: "wf_db ?d" using amark_shutting_down_safe reachable_wf [OF sample_running_reachable] by (simp add: safe_def)
  have "is_running ?d 7" by code_simp
  moreover have "row \<in> set (live ?d)" "j_id row = 7" using row(1) live_by_id_Some [OF w] by auto
  ultimately show ?thesis
    using shutting_down_job_unrecovered [OF w _ _ row(2), of 7] unfolding Let_def by blast
qed

text \<open>A task that cannot be loaded: the failure is marked as one that will be retried, but no retry follows.\<close>

lemma load_failure_not_retried:
  assumes "wf_db d" "j \<in> set (live d)" "ashould_retry j" "handle_open h d" "\<not> like_retry_pending (j_termination_reason j)"
  obtains d' row where "on_load_failed slot now (j_id j) error tb (Some h) d = (d', Inr ())" "row \<in> set (live d')"
    "j_id row = j_id j" "j_status row = Failed" "map j_id (live d') = map j_id (live d)" "blocked d' = blocked d"
    "row \<notin> set (get_jobs_pending_retry cutoff limit d')"
proof -
  obtain d1 row where f: "amark_failed slot now (j_id j) error tb (Some h) d = (d1, Inr ())"
    and row: "row \<in> set (live d1)" "j_id row = j_id j" "j_status row = Failed"
      "j_termination_reason row = j_termination_reason j"
    and same: "map j_id (live d1) = map j_id (live d)" "blocked d1 = blocked d"
    using amark_failed_in_place [OF assms(1-4)] by metis
  have "row \<notin> set (get_jobs_pending_retry cutoff limit d1)"
    using row(4) assms(5) by (auto simp: get_jobs_pending_retry_def dest!: in_set_takeD)
  then show ?thesis using that f row same by (simp add: on_load_failed_def)
qed

section \<open>Leases\<close>

lemma aread_written:
  assumes "q \<in> al_queue_name ` set ls" "\<And>l. al_queue_name (f l) = al_queue_name l"
  shows "\<exists>l. aread_lease q (update_where (\<lambda>l. al_queue_name l = q) f ls) = Some (f l)"
  using assms(1)
proof (induction ls)
  case (Cons l ls)
  then show ?case using assms(2) by (cases "al_queue_name l = q") (auto simp: aread_lease_def update_where_def)
qed simp

text \<open>The async lease is not exclusive: two workers that both read an expired lease before either writes are both
  told that they hold it, and the table names the second one.\<close>

theorem async_lease_claimed_twice:
  assumes "aread_lease q ls = Some e" "al_expires_at e < now" "now \<le> now'" "al_daemon_id e \<noteq> w2"
  shows "\<exists>ls1 ls2. awrite_lease now ttl q w1 (Some e) ls = (ls1, Inr True) \<and>
    awrite_lease now' ttl q w2 (Some e) ls1 = (ls2, Inr True) \<and> map_option al_daemon_id (aread_lease q ls2) = Some w2"
proof -
  let ?f = "\<lambda>w n l. (if al_daemon_id e = w then l else l\<lparr>al_daemon_id := w\<rparr>)
      \<lparr>al_node_id := (if al_node_id e = w then al_node_id l else w), al_acquired_at := n, al_expires_at := n + seconds ttl\<rparr>"
  let ?W = "\<lambda>l. al_queue_name l = q"
  have q: "q \<in> al_queue_name ` set ls" using find_mem [OF assms(1) [unfolded aread_lease_def]] by auto
  have "al_queue_name ` set (update_where ?W (?f w1 now) ls) = al_queue_name ` set ls"
    using arg_cong [OF map_update_where [of al_queue_name "?f w1 now" ?W ls], of set] by simp
  then have q1: "q \<in> al_queue_name ` set (update_where ?W (?f w1 now) ls)" using q by simp
  obtain l where "aread_lease q (update_where ?W (?f w2 now') (update_where ?W (?f w1 now) ls)) = Some (?f w2 now' l)"
    using aread_written [OF q1, of "?f w2 now'"] by fastforce
  then show ?thesis using q q1 assms(2-4) by (simp add: awrite_lease_def)
qed

theorem async_lease_claimed_twice_witness:
  "let l = \<lparr>al_queue_name = ''q'', al_daemon_id = ''w0'', al_node_id = ''w0'', al_pid = 0, al_acquired_at = 0, al_expires_at = 30\<rparr>
   in \<exists>ls1 ls2. awrite_lease 50 30 ''q'' ''w1'' (Some l) [l] = (ls1, Inr True) \<and>
        awrite_lease 51 30 ''q'' ''w2'' (Some l) ls1 = (ls2, Inr True) \<and> map_option al_daemon_id (aread_lease ''q'' ls2) = Some ''w2''"
  unfolding Let_def by (rule async_lease_claimed_twice) (simp_all add: aread_lease_def)

end
