(* ===== verification/Sq_Trigger.thy ===== *)
theory Sq_Trigger
  imports Sq_Execution Sq_Url Sq_Health
begin

text \<open>
  The trigger receiver, the entry point that lets an HTTP request run jobs (\<^verbatim>\<open>core/triggers.py\<close> with
  \<^verbatim>\<open>core/signature.py\<close>). The keyed hash and the digest of \<^verbatim>\<open>hmac\<close> and \<^verbatim>\<open>hashlib\<close> are arguments (\<open>mac\<close>, \<open>sha\<close>), as are the clocks, the environment
  variables and the settings. A triggered job runs through the claim and the executor of the standalone
  backend.
\<close>

section \<open>Signatures\<close>

definition message :: "(string \<Rightarrow> string) \<Rightarrow> string \<Rightarrow> string option \<Rightarrow> string" where
  "message sha ts body = (case body of None \<Rightarrow> ts | Some b \<Rightarrow> ts @ ''.'' @ sha b)"

definition generate_signature ::
  "(string \<Rightarrow> string \<Rightarrow> string) \<Rightarrow> (string \<Rightarrow> string) \<Rightarrow> string \<Rightarrow> int \<Rightarrow> string option \<Rightarrow> string \<times> string" where
  "generate_signature mac sha secret ts body = (mac secret (message sha (show_int ts) body), show_int ts)"

definition verify_signature ::
  "(string \<Rightarrow> string \<Rightarrow> string) \<Rightarrow> (string \<Rightarrow> string) \<Rightarrow> rat \<Rightarrow> string \<Rightarrow> string \<Rightarrow> string \<Rightarrow> int \<Rightarrow> string option \<Rightarrow> bool" where
  "verify_signature mac sha now signature ts secret max_age body =
     (case int_of_str ts of
        Inl _ \<Rightarrow> False
      | Inr t \<Rightarrow>
          if \<bar>now - rat_of_int t\<bar> > rat_of_int max_age then False
          else mac secret (message sha ts body) = signature)"

definition make_signed_request_headers ::
  "(string \<Rightarrow> string \<Rightarrow> string) \<Rightarrow> (string \<Rightarrow> string) \<Rightarrow> string \<Rightarrow> int \<Rightarrow> string option \<Rightarrow> (string \<times> string) list" where
  "make_signed_request_headers mac sha secret ts body =
     (let (signature, ts_str) = generate_signature mac sha secret ts body
      in [(''X-Signature'', signature), (''X-Timestamp'', ts_str)] @
         (case body of None \<Rightarrow> [] | Some _ \<Rightarrow> [(''X-Signature-Version'', ''2'')]))"

section \<open>The idempotency cache\<close>

text \<open>An ordered dictionary of fingerprints, oldest first.\<close>

type_synonym fingerprint = "string \<times> string"
type_synonym cache = "(fingerprint \<times> rat) list"

definition IDEMPOTENCY_TTL_SECONDS :: rat where "IDEMPOTENCY_TTL_SECONDS = 30"
definition IDEMPOTENCY_MAX_ENTRIES :: nat where "IDEMPOTENCY_MAX_ENTRIES = 1024"

definition evict :: "rat \<Rightarrow> cache \<Rightarrow> cache" where
  "evict now c = filter (\<lambda>(k, ts). \<not> now - ts > IDEMPOTENCY_TTL_SECONDS) c"

definition idempotency_seen :: "rat \<Rightarrow> fingerprint \<Rightarrow> cache \<Rightarrow> cache \<times> bool" where
  "idempotency_seen now key c =
     (let c1 = evict now c
      in if key \<in> fst ` set c1 then (c1, True)
         else (let c2 = c1 @ [(key, now)] in (drop (length c2 - IDEMPOTENCY_MAX_ENTRIES) c2, False)))"

section \<open>Settings\<close>

definition resolve_secret :: "string option \<Rightarrow> string option \<Rightarrow> string option" where
  "resolve_secret configured env = (case configured of None \<Rightarrow> env | Some s \<Rightarrow> Some s)"

definition require_body_signature :: "string option \<Rightarrow> string option \<Rightarrow> bool" where
  "require_body_signature configured env =
     (lower (py_strip (case configured of Some v \<Rightarrow> v | None \<Rightarrow> (case env of Some v \<Rightarrow> v | None \<Rightarrow> []))) \<in>
        {''1'', ''true'', ''yes'', ''on''})"

definition resolve_max_age :: "json option \<Rightarrow> int" where
  "resolve_max_age v =
     (case v of None \<Rightarrow> 5 | Some x \<Rightarrow> (case py_int x of Inl _ \<Rightarrow> 5 | Inr n \<Rightarrow> n))"

definition is_ip_allowed :: "string list option \<Rightarrow> string option \<Rightarrow> bool" where
  "is_ip_allowed allowed remote =
     (case allowed of
        None \<Rightarrow> True
      | Some entries \<Rightarrow>
          ''*'' \<in> set entries \<or>
          (case remote of
             None \<Rightarrow> False
           | Some r \<Rightarrow>
               r \<noteq> [] \<and>
               (case ip_address r of
                  None \<Rightarrow> False
                | Some source \<Rightarrow> list_ex (\<lambda>x. ip_address x = Some source) entries)))"

section \<open>Dispatch\<close>

text \<open>The clock and the executor's environment (its own clock, and the id of a retry it queues) are read
  anew for each job of the request.\<close>

record trigger_env =
  te_claim :: claim_env
  te_slot :: nat
  te_now :: "nat \<Rightarrow> timestamp"
  te_exec :: "nat \<Rightarrow> exec_env"
  te_task :: "job_id \<Rightarrow> task_end"
  te_monotonic :: "nat \<Rightarrow> rat"
  te_scheduler :: "db \<Rightarrow> db \<times> job_id list result"

record trigger_result =
  tr_status :: nat
  tr_job_ids :: "job_id list"

definition answer :: "nat \<Rightarrow> trigger_result" where
  "answer code = \<lparr>tr_status = code, tr_job_ids = []\<rparr>"

text \<open>\<^verbatim>\<open>float(value)\<close>: a finite number, an infinity, or not a number.\<close>

datatype fnum = Fin rat | Pos_inf | Neg_inf | Nan

definition float_word :: "string \<Rightarrow> fnum option" where
  "float_word s =
     (let t = lower (py_strip s); (sg, body) = split_sign t
      in if body = ''inf'' \<or> body = ''infinity'' then Some (if sg < 0 then Neg_inf else Pos_inf)
         else if body = ''nan'' then Some Nan
         else map_option Fin (float_of_str s))"

fun py_float :: "json \<Rightarrow> fnum result" where
  "py_float (JInt n) = (if \<bar>n\<bar> < 2 ^ 1024 - 2 ^ 970 then Inr (Fin (rat_of_int n)) else Inl OverflowError)"
| "py_float (JBool b) = Inr (Fin (if b then 1 else 0))"
| "py_float (JFloat q) = Inr (Fin q)"
| "py_float (JStr s) = (case float_word s of None \<Rightarrow> Inl ValueError | Some x \<Rightarrow> Inr x)"
| "py_float _ = Inl TypeError"

definition not_positive :: "fnum \<Rightarrow> bool" where
  "not_positive x = (case x of Fin q \<Rightarrow> q \<le> 0 | Neg_inf \<Rightarrow> True | _ \<Rightarrow> False)"

definition min_cap :: "fnum \<Rightarrow> rat option \<Rightarrow> fnum" where
  "min_cap x cap =
     (case cap of
        None \<Rightarrow> x
      | Some c \<Rightarrow> (case x of Fin q \<Rightarrow> Fin (if c < q then c else q) | Pos_inf \<Rightarrow> Fin c | _ \<Rightarrow> x))"

text \<open>Only \<^verbatim>\<open>TypeError\<close> and \<^verbatim>\<open>ValueError\<close> are caught.\<close>

definition positive_number :: "json \<Rightarrow> rat option \<Rightarrow> rat option \<Rightarrow> fnum option result" where
  "positive_number v dflt cap =
     (case py_float v of
        Inl e \<Rightarrow> if e = TypeError \<or> e = ValueError then Inr (map_option Fin dflt) else Inl e
      | Inr x \<Rightarrow> if not_positive x then Inr (map_option Fin dflt) else Inr (Some (min_cap x cap)))"

definition MAX_JOBS_PER_REQUEST :: nat where "MAX_JOBS_PER_REQUEST = 100"

definition payload_get :: "string \<Rightarrow> (string \<times> json) list \<Rightarrow> json" where
  "payload_get k p = (case map_of p k of None \<Rightarrow> JNull | Some v \<Rightarrow> v)"

text \<open>\<^verbatim>\<open>int(...)\<close> of the number of jobs.\<close>

definition max_jobs_of :: "(string \<times> json) list \<Rightarrow> nat result" where
  "max_jobs_of payload =
     (case positive_number (payload_get ''max_jobs'' payload) (Some 1) (Some (of_nat MAX_JOBS_PER_REQUEST)) of
        Inl e \<Rightarrow> Inl e
      | Inr (Some (Fin q)) \<Rightarrow> Inr (nat \<lfloor>q\<rfloor>)
      | Inr (Some Nan) \<Rightarrow> Inl ValueError
      | Inr (Some _) \<Rightarrow> Inl OverflowError
      | Inr None \<Rightarrow> Inl TypeError)"

definition run_claimed :: "trigger_env \<Rightarrow> nat \<Rightarrow> job \<Rightarrow> attempt_handle \<Rightarrow> db \<Rightarrow> db \<times> unit result" where
  "run_claimed env i j h d =
     (case execute_job (te_exec env i) (j_id j) (Some h) (te_task env (j_id j)) d of
        (d', Inl e) \<Rightarrow> (d', Inl e) | (d', Inr _) \<Rightarrow> (d', Inr ()))"

text \<open>The loop; the first argument is the number of jobs that may still run, and the clock is read once per
  pass after the first.\<close>

fun trigger_loop ::
  "trigger_env \<Rightarrow> string \<Rightarrow> rat option \<Rightarrow> nat \<Rightarrow> job_id list \<Rightarrow> db \<Rightarrow> db \<times> trigger_result" where
  "trigger_loop env q deadline 0 ids d = (d, \<lparr>tr_status = 200, tr_job_ids = ids\<rparr>)"
| "trigger_loop env q deadline (Suc n) ids d =
     (if ids \<noteq> [] \<and> (case deadline of None \<Rightarrow> False | Some t \<Rightarrow> te_monotonic env (length ids) \<ge> t)
      then (d, \<lparr>tr_status = 200, tr_job_ids = ids\<rparr>)
      else case claim_job (te_claim env) (te_slot env) [q] (te_now env (length ids)) d of
             (d1, Inl _) \<Rightarrow> (d1, answer 500)
           | (d1, Inr None) \<Rightarrow> (d1, \<lparr>tr_status = 200, tr_job_ids = ids\<rparr>)
           | (d1, Inr (Some (j, h))) \<Rightarrow>
               (case run_claimed env (length ids) j h d1 of
                  (d2, Inl _) \<Rightarrow> (d2, \<lparr>tr_status = 500, tr_job_ids = ids @ [j_id j]\<rparr>)
                | (d2, Inr _) \<Rightarrow> trigger_loop env q deadline n (ids @ [j_id j]) d2))"

definition trigger_by_id :: "trigger_env \<Rightarrow> json \<Rightarrow> db \<Rightarrow> db \<times> trigger_result" where
  "trigger_by_id env raw d =
     (case py_int raw of
        Inl _ \<Rightarrow> (d, answer 404)
      | Inr jid \<Rightarrow>
          (case get_job_by_id jid d of
             F_other \<Rightarrow> (d, answer 404)
           | _ \<Rightarrow>
               (case claim_job_by_id (te_claim env) jid (te_now env 0) d of
                  (d1, None) \<Rightarrow> (d1, answer 409)
                | (d1, Some (j, h)) \<Rightarrow>
                    (case run_claimed env 0 j h d1 of
                       (d2, Inl _) \<Rightarrow> (d2, answer 500)
                     | (d2, Inr _) \<Rightarrow> (d2, \<lparr>tr_status = 200, tr_job_ids = [j_id j]\<rparr>)))))"

definition queue_of :: "(string \<times> json) list \<Rightarrow> string result" where
  "queue_of payload =
     (case payload_get ''queue_name'' payload of
        JStr s \<Rightarrow> Inr (if s = [] then ''default'' else s)
      | JNull \<Rightarrow> Inr ''default''
      | _ \<Rightarrow> Inl TypeError)"

definition dispatch_process_queue :: "trigger_env \<Rightarrow> (string \<times> json) list \<Rightarrow> db \<Rightarrow> db \<times> trigger_result result" where
  "dispatch_process_queue env payload d =
     (let raw = payload_get ''job_id'' payload
      in if raw \<noteq> JNull then (case trigger_by_id env raw d of (d', r) \<Rightarrow> (d', Inr r))
         else case (queue_of payload, max_jobs_of payload, positive_number (payload_get ''budget_s'' payload) None None) of
                (Inr q, Inr n, Inr budget) \<Rightarrow>
                  (let deadline = (case budget of Some (Fin b) \<Rightarrow> Some (te_monotonic env 0 + b) | _ \<Rightarrow> None)
                   in case trigger_loop env q deadline n [] d of (d', r) \<Rightarrow> (d', Inr r))
              | (Inl e, _, _) \<Rightarrow> (d, Inl e)
              | (_, Inl e, _) \<Rightarrow> (d, Inl e)
              | (_, _, Inl e) \<Rightarrow> (d, Inl e))"

definition dispatch_process_scheduled :: "trigger_env \<Rightarrow> db \<Rightarrow> db \<times> trigger_result" where
  "dispatch_process_scheduled env d =
     (case te_scheduler env d of
        (d', Inl _) \<Rightarrow> (d', answer 500) | (d', Inr ids) \<Rightarrow> (d', \<lparr>tr_status = 200, tr_job_ids = ids\<rparr>))"

section \<open>The receiver\<close>

record envelope =
  ev_body :: string
  ev_headers :: "(string \<times> string) list"
  ev_payload :: "(string \<times> json) list"
  ev_remote :: "string option"

record trigger_config =
  tc_mac :: "string \<Rightarrow> string \<Rightarrow> string"
  tc_sha :: "string \<Rightarrow> string"
  tc_secret :: "string option"
  tc_require_body :: bool
  tc_max_age :: int
  tc_allowed :: "string list option"

definition header :: "string \<Rightarrow> string \<Rightarrow> envelope \<Rightarrow> string" where
  "header name small ev =
     (case map_of (ev_headers ev) name of
        Some v \<Rightarrow> if v \<noteq> [] then v else (case map_of (ev_headers ev) small of Some w \<Rightarrow> w | None \<Rightarrow> [])
      | None \<Rightarrow> (case map_of (ev_headers ev) small of Some w \<Rightarrow> w | None \<Rightarrow> []))"

definition signature_of :: "envelope \<Rightarrow> string" where
  "signature_of ev = header ''X-Signature'' ''x-signature'' ev"

definition timestamp_of :: "envelope \<Rightarrow> string" where
  "timestamp_of ev = header ''X-Timestamp'' ''x-timestamp'' ev"

definition signed_body :: "envelope \<Rightarrow> string option" where
  "signed_body ev = (if header ''X-Signature-Version'' ''x-signature-version'' ev = ''2'' then Some (ev_body ev) else None)"

text \<open>The checks before the dispatch: \<open>Inl\<close> is the answer that ends the request. The clock is read twice, for
  the age of the signature (\<open>now\<close>) and for the cache (\<open>stamp\<close>).\<close>

definition admit :: "trigger_config \<Rightarrow> rat \<Rightarrow> rat \<Rightarrow> envelope \<Rightarrow> cache \<Rightarrow> cache \<times> (nat + unit)" where
  "admit cfg now stamp ev c =
     (if \<not> is_ip_allowed (tc_allowed cfg) (ev_remote ev) then (c, Inl 403)
      else if signature_of ev = [] \<or> timestamp_of ev = [] then (c, Inl 401)
      else case tc_secret cfg of
             None \<Rightarrow> (c, Inl 500)
           | Some secret \<Rightarrow>
               if secret = [] then (c, Inl 500)
               else if signed_body ev = None \<and> tc_require_body cfg then (c, Inl 401)
               else if \<not> verify_signature (tc_mac cfg) (tc_sha cfg) now (signature_of ev) (timestamp_of ev) secret
                            (tc_max_age cfg) (signed_body ev) then (c, Inl 401)
               else (case idempotency_seen stamp (timestamp_of ev, signature_of ev) c of
                       (c', True) \<Rightarrow> (c', Inl 409) | (c', False) \<Rightarrow> (c', Inr ())))"

definition handle ::
  "trigger_config \<Rightarrow> trigger_env \<Rightarrow> rat \<Rightarrow> rat \<Rightarrow> envelope \<Rightarrow> cache \<Rightarrow> db \<Rightarrow> cache \<times> db \<times> trigger_result result" where
  "handle cfg env now stamp ev c d =
     (case admit cfg now stamp ev c of
        (c', Inl code) \<Rightarrow> (c', d, Inr (answer code))
      | (c', Inr _) \<Rightarrow>
          (let action = (case map_of (ev_payload ev) ''action'' of None \<Rightarrow> JStr ''process_queue'' | Some a \<Rightarrow> a)
           in if action = JStr ''process_queue'' then (c', dispatch_process_queue env (ev_payload ev) d)
              else if action = JStr ''process_scheduled''
              then (case dispatch_process_scheduled env d of (d', r) \<Rightarrow> (c', d', Inr r))
              else (c', d, Inr (answer 400))))"

section \<open>The cache remembers\<close>

text \<open>A fingerprint is remembered with at most \<open>k\<close> younger ones after it.\<close>

definition remembers :: "fingerprint \<Rightarrow> rat \<Rightarrow> nat \<Rightarrow> cache \<Rightarrow> bool" where
  "remembers key s k c \<longleftrightarrow> (\<exists>xs ys. c = xs @ (key, s) # ys \<and> length ys \<le> k)"

lemma remembersI: "c = xs @ (key, s) # ys \<Longrightarrow> length ys \<le> k \<Longrightarrow> remembers key s k c"
  unfolding remembers_def by blast

lemma remembers_mono:
  assumes "remembers key s k c" "k \<le> m"
  shows "remembers key s m c"
proof -
  obtain xs ys where "c = xs @ (key, s) # ys" "length ys \<le> k" using assms(1) by (auto simp: remembers_def)
  then show ?thesis using assms(2) by (intro remembersI) auto
qed

lemma remembers_mem: "remembers key s k c \<Longrightarrow> key \<in> fst ` set c"
  by (force simp: remembers_def)

lemma remembers_evict:
  assumes "remembers key s k c" "now - s \<le> IDEMPOTENCY_TTL_SECONDS"
  shows "remembers key s k (evict now c)"
proof -
  obtain xs ys where c: "c = xs @ (key, s) # ys" "length ys \<le> k" using assms(1) by (auto simp: remembers_def)
  have "evict now c = evict now xs @ (key, s) # evict now ys" using assms(2) by (simp add: evict_def c)
  moreover have "length (evict now ys) \<le> k" using c(2) by (simp add: evict_def le_trans [OF length_filter_le])
  ultimately show ?thesis unfolding remembers_def by blast
qed

lemma remembers_drop:
  assumes "remembers key s k c" "k < m"
  shows "remembers key s k (drop (length c - m) c)"
proof -
  obtain xs ys where c: "c = xs @ (key, s) # ys" "length ys \<le> k" using assms(1) by (auto simp: remembers_def)
  then have "length c - m \<le> length xs" using assms(2) by simp
  then have "drop (length c - m) c = drop (length c - m) xs @ (key, s) # ys" by (simp add: c(1))
  then show ?thesis using c(2) unfolding remembers_def by blast
qed

lemma remembers_push:
  assumes "remembers key s k c"
  shows "remembers key s (Suc k) (c @ [e])"
proof -
  obtain xs ys where "c = xs @ (key, s) # ys" "length ys \<le> k" using assms by (auto simp: remembers_def)
  then show ?thesis by (intro remembersI [of _ xs _ _ "ys @ [e]"]) auto
qed

lemma seen_first:
  assumes "idempotency_seen now key c = (c', False)"
  shows "remembers key now 0 c'"
proof -
  have "remembers key now 0 (evict now c @ [(key, now)])" by (auto simp: remembers_def)
  then show ?thesis
    using assms remembers_drop [of key now 0 "evict now c @ [(key, now)]" IDEMPOTENCY_MAX_ENTRIES]
    by (auto simp: idempotency_seen_def Let_def IDEMPOTENCY_MAX_ENTRIES_def split: if_splits)
qed

lemma seen_keeps:
  assumes "remembers key s k c" "now - s \<le> IDEMPOTENCY_TTL_SECONDS" "Suc k < IDEMPOTENCY_MAX_ENTRIES"
  shows "remembers key s (Suc k) (fst (idempotency_seen now other c))"
  using remembers_evict [OF assms(1,2)] remembers_mono [of key s k _ "Suc k"]
    remembers_drop [OF remembers_push [OF remembers_evict [OF assms(1,2)]] assms(3)]
  by (auto simp: idempotency_seen_def Let_def)

lemma seen_again:
  assumes "remembers key s k c" "now - s \<le> IDEMPOTENCY_TTL_SECONDS"
  shows "snd (idempotency_seen now key c)"
  using remembers_mem [OF remembers_evict [OF assms]] by (simp add: idempotency_seen_def Let_def)

section \<open>Admission\<close>

definition fingerprint_of :: "envelope \<Rightarrow> fingerprint" where
  "fingerprint_of ev = (timestamp_of ev, signature_of ev)"

lemma admit_Inr:
  assumes "admit cfg now stamp ev c = (c', Inr ())"
  shows "idempotency_seen stamp (fingerprint_of ev) c = (c', False)"
    "\<exists>t. int_of_str (timestamp_of ev) = Inr t \<and> \<bar>now - rat_of_int t\<bar> \<le> rat_of_int (tc_max_age cfg)"
  using assms
  by (auto simp: admit_def fingerprint_of_def verify_signature_def not_less
      split: if_splits option.splits sum.splits prod.splits bool.splits)

lemma admit_keeps:
  assumes "remembers key s k c" "stamp - s \<le> IDEMPOTENCY_TTL_SECONDS" "Suc k < IDEMPOTENCY_MAX_ENTRIES"
  shows "remembers key s (Suc k) (fst (admit cfg now stamp ev c))"
proof -
  have "fst (admit cfg now stamp ev c) = c \<or>
      fst (admit cfg now stamp ev c) = fst (idempotency_seen stamp (fingerprint_of ev) c)"
    by (auto simp: admit_def fingerprint_of_def split: option.split prod.split bool.split)
  then show ?thesis
    using seen_keeps [OF assms, of "fingerprint_of ev"] remembers_mono [OF assms(1), of "Suc k"] by auto
qed

text \<open>A run of requests, each with its two readings of the clock.\<close>

type_synonym arrival = "rat \<times> rat \<times> envelope"

fun admit_all :: "trigger_config \<Rightarrow> arrival list \<Rightarrow> cache \<Rightarrow> cache" where
  "admit_all cfg [] c = c"
| "admit_all cfg ((now, stamp, ev) # rs) c = admit_all cfg rs (fst (admit cfg now stamp ev c))"

lemma admit_all_keeps:
  assumes "remembers key s k c" "\<And>r. r \<in> set rs \<Longrightarrow> fst (snd r) - s \<le> IDEMPOTENCY_TTL_SECONDS"
    and "k + length rs < IDEMPOTENCY_MAX_ENTRIES"
  shows "remembers key s (k + length rs) (admit_all cfg rs c)"
  using assms
proof (induction rs arbitrary: k c)
  case (Cons r rs)
  obtain now stamp ev where r: "r = (now, stamp, ev)" by (cases r)
  have "remembers key s (Suc k) (fst (admit cfg now stamp ev c))"
    by (rule admit_keeps [OF Cons.prems(1)]) (use Cons.prems(2) [of r] Cons.prems(3) r in auto)
  from Cons.IH [OF this] show ?case using Cons.prems(2,3) by (simp add: r)
qed simp

section \<open>Properties\<close>

text \<open>C18: a signed request is carried out at most once: after a request was admitted, a later request with the
  same signature and timestamp is not admitted, whatever its body and whatever other requests came between,
  as long as fewer than 1024 came, the signature window twice over (with the delay between the two readings
  of the clock) is within the 30 seconds the cache keeps, and the clock did not run backwards.\<close>

theorem replay_refused:
  assumes first: "admit cfg n1 s1 ev c = (c1, Inr ())" and "n1 \<le> s1"
    and between: "\<forall>r\<in>set rs. fst (snd r) \<le> s2" "length rs < IDEMPOTENCY_MAX_ENTRIES"
    and same: "timestamp_of ev' = timestamp_of ev" "signature_of ev' = signature_of ev"
    and window: "s2 \<le> n2 + delay" "2 * rat_of_int (tc_max_age cfg) + delay \<le> IDEMPOTENCY_TTL_SECONDS"
  shows "snd (admit cfg n2 s2 ev' (admit_all cfg rs c1)) \<noteq> Inr ()"
proof
  assume "snd (admit cfg n2 s2 ev' (admit_all cfg rs c1)) = Inr ()"
  then obtain c2 where a: "admit cfg n2 s2 ev' (admit_all cfg rs c1) = (c2, Inr ())"
    by (metis prod.collapse)
  obtain t where t: "int_of_str (timestamp_of ev) = Inr t"
    "\<bar>n1 - rat_of_int t\<bar> \<le> rat_of_int (tc_max_age cfg)" using admit_Inr(2) [OF first] by blast
  then have "\<bar>n2 - rat_of_int t\<bar> \<le> rat_of_int (tc_max_age cfg)" using admit_Inr(2) [OF a] same by auto
  then have d: "s2 - s1 \<le> IDEMPOTENCY_TTL_SECONDS" using t(2) window assms(2) by linarith
  have "remembers (fingerprint_of ev) s1 (0 + length rs) (admit_all cfg rs c1)"
    by (rule admit_all_keeps [OF seen_first [OF admit_Inr(1) [OF first]]]) (use between d in force)+
  from seen_again [OF this d] show False using admit_Inr(1) [OF a] same by (simp add: fingerprint_of_def)
qed

lemma int_of_show_int: "0 \<le> n \<Longrightarrow> int_of_str (show_int n) = Inr n"
  by (simp add: show_int_def int_of_show)

lemma show_int_nonempty: "0 \<le> n \<Longrightarrow> show_int n \<noteq> []"
  by (simp add: show_int_def show_nat_nonempty)

text \<open>The request a client sends with the headers of \<^const>\<open>make_signed_request_headers\<close>.\<close>

definition signed_request ::
  "trigger_config \<Rightarrow> string \<Rightarrow> int \<Rightarrow> string option \<Rightarrow> string \<Rightarrow> string option \<Rightarrow> envelope" where
  "signed_request cfg secret ts signed_b body remote =
     \<lparr>ev_body = body, ev_headers = make_signed_request_headers (tc_mac cfg) (tc_sha cfg) secret ts signed_b,
      ev_payload = [], ev_remote = remote\<rparr>"

lemma signed_request_facts:
  assumes "0 \<le> ts" "tc_mac cfg secret (message (tc_sha cfg) (show_int ts) (Some b)) \<noteq> []"
  shows "signature_of (signed_request cfg secret ts (Some b) body remote) =
      tc_mac cfg secret (message (tc_sha cfg) (show_int ts) (Some b))"
    "timestamp_of (signed_request cfg secret ts (Some b) body remote) = show_int ts"
    "signed_body (signed_request cfg secret ts (Some b) body remote) = Some body"
    "ev_remote (signed_request cfg secret ts (Some b) body remote) = remote"
  using assms show_int_nonempty [OF assms(1)]
  by (simp_all add: signed_request_def signature_of_def timestamp_of_def signed_body_def header_def
      make_signed_request_headers_def generate_signature_def)

text \<open>C19: what a client signs is what the receiver accepts: a request with the headers of the signing helper,
  from an allowed address, with a configured secret, within the window and not seen before, is admitted when it carries the body that
  was signed; with another body it is answered 401 and leaves the cache alone, unless the keyed hash of the
  two messages collides.\<close>

theorem signed_request_admitted:
  assumes "tc_secret cfg = Some secret" "secret \<noteq> []" "is_ip_allowed (tc_allowed cfg) remote" "0 \<le> ts"
    and "\<bar>now - rat_of_int ts\<bar> \<le> rat_of_int (tc_max_age cfg)"
    and sig: "sg = tc_mac cfg secret (message (tc_sha cfg) (show_int ts) (Some b))" "sg \<noteq> []"
    and "(show_int ts, sg) \<notin> fst ` set (evict stamp c)"
  shows "snd (admit cfg now stamp (signed_request cfg secret ts (Some b) b remote) c) = Inr () \<and>
    (tc_mac cfg secret (message (tc_sha cfg) (show_int ts) (Some b')) \<noteq> sg \<longrightarrow>
      admit cfg now stamp (signed_request cfg secret ts (Some b) b' remote) c = (c, Inl 401))"
  using assms signed_request_facts [OF assms(4), of cfg secret b] show_int_nonempty [OF assms(4)]
  by (simp add: admit_def verify_signature_def int_of_show_int idempotency_seen_def Let_def)

definition sample_config :: trigger_config where
  "sample_config = \<lparr>tc_mac = (\<lambda>k m. k @ m), tc_sha = rev, tc_secret = Some ''k'', tc_require_body = False,
     tc_max_age = 5, tc_allowed = Some [''127.0.0.1'']\<rparr>"

definition sample_request :: envelope where
  "sample_request = signed_request sample_config ''k'' 100 (Some ''ab'') ''ab'' (Some ''127.0.0.1'')"

lemma sample_config_simps [simp]:
  "tc_max_age sample_config = 5" "tc_secret sample_config = Some ''k''"
  "tc_allowed sample_config = Some [''127.0.0.1'']"
  "tc_mac sample_config k m = k @ m"
  by (simp_all add: sample_config_def)

lemma sample_first:
  "admit sample_config 101 101 sample_request [] = ([((''100'', ''k100.ba''), 101)], Inr ())"
  by code_simp

theorem replay_refused_witness:
  "snd (admit sample_config 104 105 sample_request
     (admit_all sample_config [(102, 102, sample_request)] [((''100'', ''k100.ba''), 101)])) \<noteq> Inr ()"
  by (rule replay_refused [OF sample_first, where delay = 1])
    (simp_all add: IDEMPOTENCY_MAX_ENTRIES_def IDEMPOTENCY_TTL_SECONDS_def)

theorem signed_request_admitted_witness:
  "snd (admit sample_config 101 101 (signed_request sample_config ''k'' 100 (Some ''ab'') ''ab'' (Some ''127.0.0.1'')) []) =
     Inr () \<and>
   admit sample_config 101 101 (signed_request sample_config ''k'' 100 (Some ''ab'') ''xy'' (Some ''127.0.0.1'')) [] =
     ([], Inl 401)"
proof -
  have "is_ip_allowed (Some [''127.0.0.1'']) (Some ''127.0.0.1'')" by code_simp
  moreover have "message (tc_sha sample_config) (show_int 100) (Some ''ab'') = ''100.ba''" by code_simp
  moreover have "message (tc_sha sample_config) (show_int 100) (Some ''xy'') = ''100.yx''" by code_simp
  ultimately show ?thesis
    using signed_request_admitted [of sample_config "''k''" "Some ''127.0.0.1''" 100 101 _ "''ab''" 101 "[]" "''xy''", OF _ _ _ _ _ refl]
    by (simp add: evict_def)
qed

text \<open>With a longer window the cache forgets a signature that is still valid: with
  \<^verbatim>\<open>SIGNATURE_MAX_AGE\<close> 60 the same request is admitted again 31 seconds later.\<close>

lemma replay_after_ttl:
  "snd (admit (sample_config\<lparr>tc_max_age := 60\<rparr>) 132 132 sample_request
     (fst (admit (sample_config\<lparr>tc_max_age := 60\<rparr>) 101 101 sample_request []))) = Inr ()"
  by code_simp

subsection \<open>The amount of work of one request\<close>

lemma trigger_loop_ids:
  "tr_job_ids (snd (trigger_loop env q deadline n ids d)) = [] \<or>
   length (tr_job_ids (snd (trigger_loop env q deadline n ids d))) \<le> length ids + n"
proof (induction env q deadline n ids d rule: trigger_loop.induct)
  case (2 env q deadline n ids d)
  obtain d1 r where c: "claim_job (te_claim env) (te_slot env) [q] (te_now env (length ids)) d = (d1, r)"
    by fastforce
  show ?case
  proof (cases r)
    case (Inr x)
    show ?thesis
    proof (cases x)
      case (Some y)
      obtain j h where y: "y = (j, h)" by fastforce
      obtain d2 e where e: "run_claimed env (length ids) j h d1 = (d2, e)" by fastforce
      show ?thesis using 2 [OF _ c [symmetric] Inr Some y [symmetric] e [symmetric]] c Inr Some y e by (cases e) auto
    qed (use c Inr in simp)
  qed (use c in \<open>simp add: answer_def\<close>)
qed simp

lemma max_jobs_le:
  assumes "max_jobs_of payload = Inr n"
  shows "n \<le> MAX_JOBS_PER_REQUEST"
proof -
  have "nat \<lfloor>x\<rfloor> \<le> 100" if "\<not> 100 < x" for x :: rat using that by linarith
  then show ?thesis
    using assms by (auto simp: max_jobs_of_def positive_number_def min_cap_def MAX_JOBS_PER_REQUEST_def
        split: sum.splits option.splits fnum.splits if_splits)
qed

text \<open>One request to the receiver runs a bounded amount of work: whatever numbers its payload carries, at
  most 100 jobs, and at most one when it names a job.\<close>

theorem trigger_request_bounded:
  assumes "dispatch_process_queue env payload d = (d', Inr r)"
  shows "length (tr_job_ids r) \<le> 100 \<and>
    (payload_get ''job_id'' payload \<noteq> JNull \<longrightarrow> length (tr_job_ids r) \<le> 1)"
proof (cases "payload_get ''job_id'' payload = JNull")
  case True
  then obtain q n dl where q: "max_jobs_of payload = Inr n" "trigger_loop env q dl n [] d = (d', r)"
    using assms by (auto simp: dispatch_process_queue_def Let_def split: sum.splits prod.splits)
  then show ?thesis
    using True trigger_loop_ids [of env q dl n "[]" d] max_jobs_le [OF q(1)]
    by (auto simp: MAX_JOBS_PER_REQUEST_def)
next
  case False
  have "length (tr_job_ids (snd (trigger_by_id env x d))) \<le> 1" for x
    by (simp add: trigger_by_id_def answer_def split: sum.split found.split prod.split option.split)
  moreover have "r = snd (trigger_by_id env (payload_get ''job_id'' payload) d)"
    using assms False by (auto simp: dispatch_process_queue_def Let_def split: prod.splits)
  ultimately have "length (tr_job_ids r) \<le> 1" by simp
  then show ?thesis by simp
qed

definition sample_trigger_env :: trigger_env where
  "sample_trigger_env = \<lparr>te_claim = sample_env, te_slot = 0, te_now = (\<lambda>_. 200), te_exec = (\<lambda>_. sample_exec_env),
     te_task = (\<lambda>_. Task_raised (Other_exc ''KeyError'') ''boom'' ''trace''), te_monotonic = rat_of_nat, te_scheduler = (\<lambda>d. (d, Inr []))\<rparr>"

theorem trigger_request_bounded_witness:
  "\<exists>d' r. dispatch_process_queue sample_trigger_env [(''job_id'', JInt 7)] sample_db = (d', Inr r) \<and>
     length (tr_job_ids r) \<le> 1"
proof -
  have job: "payload_get ''job_id'' [(''job_id'', JInt 7)] = JInt 7" by (simp add: payload_get_def)
  then obtain d' r where r: "dispatch_process_queue sample_trigger_env [(''job_id'', JInt 7)] sample_db = (d', Inr r)"
    by (cases "trigger_by_id sample_trigger_env (JInt 7) sample_db") (simp add: dispatch_process_queue_def)
  then show ?thesis using trigger_request_bounded [OF r] job by auto
qed

end
