(* ===== verification/Sq_Auth.thy ===== *)
theory Sq_Auth
  imports Sq_Url Sq_Decisions
begin

text \<open>
  The authentication of the dashboard (\<^verbatim>\<open>fastapi_sqlery/auth.py\<close>): the mode of a request, the key and its file,
  the middleware. Environment variables, the key file and the generated token are arguments.
\<close>

section \<open>Modes, key and middleware\<close>

record request =
  rq_path :: string
  rq_app_root :: "string option"
  rq_root :: "string option"
  rq_app :: "nat option"
  rq_key :: "string option"

datatype auth_mode = Standalone | Disabled | Inherit

definition HEALTH_PATH :: string where "HEALTH_PATH = ''/healthz''"

definition explicit_mode :: "string option \<Rightarrow> auth_mode option" where
  "explicit_mode env =
     (let v = lower (py_strip (case env of None \<Rightarrow> [] | Some s \<Rightarrow> s))
      in if v = ''standalone'' then Some Standalone
         else if v = ''disabled'' then Some Disabled
         else if v = ''inherit'' then Some Inherit
         else None)"

definition resolve_auth_mode :: "string option \<Rightarrow> nat \<Rightarrow> request \<Rightarrow> auth_mode" where
  "resolve_auth_mode env our_app rq =
     (case explicit_mode env of
        Some m \<Rightarrow> m
      | None \<Rightarrow>
          if rq_app_root rq \<noteq> None \<and>
             (case rq_root rq of None \<Rightarrow> [] | Some p \<Rightarrow> p) \<noteq> the (rq_app_root rq) then Inherit
          else if rq_app rq \<noteq> None \<and> rq_app rq \<noteq> Some our_app then Inherit
          else Standalone)"

text \<open>The key file is \<^const>\<open>None\<close> before it exists; the permissions of the file are not part of the model.\<close>

definition load_or_create_key :: "string option \<Rightarrow> string \<Rightarrow> string option \<Rightarrow> string option \<times> string" where
  "load_or_create_key env_key token key_file =
     (case env_key of
        Some k \<Rightarrow>
          if k \<noteq> [] then (key_file, k)
          else (case key_file of Some t \<Rightarrow> (key_file, py_strip t) | None \<Rightarrow> (Some token, token))
      | None \<Rightarrow> (case key_file of Some t \<Rightarrow> (key_file, py_strip t) | None \<Rightarrow> (Some token, token)))"

text \<open>The middleware: \<open>True\<close> passes the request on, \<open>False\<close> answers 401.\<close>

definition auth_dispatch :: "string option \<Rightarrow> nat \<Rightarrow> string \<Rightarrow> request \<Rightarrow> bool" where
  "auth_dispatch env our_app expected rq =
     (if rq_path rq = HEALTH_PATH then True
      else if resolve_auth_mode env our_app rq \<in> {Disabled, Inherit} then True
      else (case rq_key rq of None \<Rightarrow> [] | Some k \<Rightarrow> k) = expected)"

text \<open>\<^verbatim>\<open>install\<close>: the key file and the key the middleware expects.\<close>

definition auth_install :: "string option \<Rightarrow> string option \<Rightarrow> string \<Rightarrow> string option \<Rightarrow> string option \<times> string" where
  "auth_install env env_key token key_file =
     (if explicit_mode env = Some Disabled then (key_file, [])
      else if explicit_mode env = Some Inherit then (key_file, [])
      else load_or_create_key env_key token key_file)"

section \<open>The key\<close>

lemma standalone_needs_key:
  assumes "explicit_mode env = Some Standalone" "auth_install env env_key token key_file = (f, key)"
    and "rq_path rq \<noteq> HEALTH_PATH" "key \<noteq> []"
  shows "auth_dispatch env app key rq \<longleftrightarrow> rq_key rq = Some key"
  using assms by (auto simp: auth_dispatch_def resolve_auth_mode_def split: option.split)

text \<open>The key survives a restart.\<close>

lemma key_persists:
  assumes "load_or_create_key env_key token key_file = (f, key)" "py_strip token = token"
  shows "load_or_create_key env_key token' f = (f, key)"
  using assms by (auto simp: load_or_create_key_def split: option.splits if_splits)

text \<open>A key file of blanks gives the empty key, and the empty key matches a request without a key.\<close>

lemma blank_key_file_opens:
  assumes "py_strip t = []" "explicit_mode env = Some Standalone"
    and "auth_install env None token (Some t) = (f, key)" "rq_key rq = None"
  shows "auth_dispatch env app key rq"
  using assms by (simp add: auth_dispatch_def auth_install_def load_or_create_key_def)

end
