(* ===== verification/Spec2Isabelle.thy ===== *)
theory Spec2Isabelle
  imports Sq_Retry_Flow Sq_Leases Sq_Scheduler Sq_Rotation Sq_Retention Sq_Canvas Sq_Resilience
    Sq_Pool Sq_Django_Props Sq_Health Sq_Webhook Sq_Async_Props Sq_Trigger Sq_Auth
begin

text \<open>
  \<^bold>\<open>A verification development for sqlery\<close>, the job queue on an SQL database
  (\<^verbatim>\<open>src/src/sqlery\<close>; all file names below are relative to it).

  \<^bold>\<open>The program.\<close> Clients enqueue jobs as rows of \<^verbatim>\<open>sqlery_queued_job\<close>. A job that waits owns an entry
  in the ready queue or in the blocked queue; a worker claims it by deleting the entry and opening an
  attempt row, runs the task, and completes the attempt under a fence (attempt id, token, executor).
  A finished job moves to the insert-only history, a failed one may leave a retry row, and its
  dependents are released or failed. Daemons hold queue leases, advance scheduled tasks, promote
  staged jobs, keep the worker pool, sweep zombies, rotate the ready slots, maintain the partitions
  and prune the history. There are three backends over the same tables: the standalone one
  (\<^verbatim>\<open>fastapi_sqlery\<close>, SQL statements), its asynchronous twin and the Django integration (\<^verbatim>\<open>django_sqlery\<close>, job objects that are
  saved); \<^verbatim>\<open>core\<close> holds the decisions and processes they share.

  \<^bold>\<open>State.\<close> The record \<open>db\<close> of \<open>Sq_Tables\<close> is the database: live jobs, history, staged jobs, ready and
  blocked entries, attempts and the rotation state, each table a list of rows (\<open>Sq_Models\<close>) in insertion
  order. A transaction is a function on it; an operation that commits several times is a sequence of
  such functions. Other tables (worker rows, leases, scheduled tasks, registries) are the state of the
  theory that models their operations, since no transaction here reads them together with the jobs.

  \<^bold>\<open>Theories.\<close>
  \<^item> \<open>Sq_Prelude\<close>: column types, Python exceptions, the statement shapes (update, delete, rowcount), list
    facts, the simplification collections. \<open>Sq_Calendar\<close>: the Gregorian calendar of \<^verbatim>\<open>datetime\<close>.
  \<^item> \<open>Sq_Models\<close>, \<open>Sq_Retry\<close>, \<open>Sq_Utils\<close>, \<open>Sq_Decisions\<close>: the rows and row methods of \<^verbatim>\<open>core/models.py\<close>, the
    retry policy of \<^verbatim>\<open>core/retry.py\<close>, rate limits of \<^verbatim>\<open>core/utils.py\<close>, and the decisions of
    \<^verbatim>\<open>core/attempts.py\<close>, \<^verbatim>\<open>core/ready.py\<close> and \<^verbatim>\<open>core/history.py\<close>.
  \<^item> \<open>Sq_Tables\<close>, \<open>Sq_Table_Laws\<close>: the statements of \<^verbatim>\<open>attempt_sql.py\<close>, \<^verbatim>\<open>ready_sql.py\<close>, \<^verbatim>\<open>history_sql.py\<close>, the
    integrity invariant \<open>wf_db\<close> and the relation \<open>evolves\<close> between a state and a later one; \<open>safe\<close> is both.
  \<^item> \<open>Sq_Claim\<close>, \<open>Sq_Claim_Laws\<close>, \<open>Sq_Cover\<close>, \<open>Sq_Blocked\<close>, \<open>Sq_Complete\<close>, \<open>Sq_Complete_Laws\<close>, \<open>Sq_Enqueue\<close>,
    \<open>Sq_Maintain\<close>: the operations of \<^verbatim>\<open>fastapi_sqlery/backend.py\<close> on jobs: the claim scan with its cursor,
    dependents, completion, recovery, creation, staging and promotion, the repair sweep.
  \<^item> \<open>Sq_System\<close>, \<open>Sq_Retry_Flow\<close>, \<open>Sq_Transactions\<close>: all transactions as the step relation \<open>step\<close>,
    reachability, and operations as runs of it.
  \<^item> \<open>Sq_Execution\<close>, \<open>Sq_Pool\<close>, \<open>Sq_Resilience\<close>: \<^verbatim>\<open>core/worker.py\<close> (execution, the wait for the child, the
    persisted outcome), \<^verbatim>\<open>core/pool.py\<close> and \<^verbatim>\<open>core/launcher.py\<close>, \<^verbatim>\<open>core/db_resilience.py\<close>.
  \<^item> \<open>Sq_Leases\<close>, \<open>Sq_Workers\<close>, \<open>Sq_Liveness\<close>: queue leases, worker rows and pool, zombie sweep
    (\<^verbatim>\<open>fastapi_sqlery/backend.py\<close>, \<^verbatim>\<open>core/daemon.py\<close>, \<^verbatim>\<open>core/worker_pool.py\<close>, \<^verbatim>\<open>core/liveness.py\<close>).
  \<^item> \<open>Sq_Crontab\<close>, \<open>Sq_Scheduler\<close>: \<^verbatim>\<open>crontab.py\<close> and \<^verbatim>\<open>core/scheduler.py\<close>.
  \<^item> \<open>Sq_Rotation\<close>, \<open>Sq_Retention\<close>, \<open>Sq_Canvas\<close>: \<^verbatim>\<open>core/rotation.py\<close>; \<^verbatim>\<open>core/cleanup.py\<close> and
    \<^verbatim>\<open>core/registry.py\<close>; \<^verbatim>\<open>core/canvas.py\<close> and \<^verbatim>\<open>core/result.py\<close>.
  \<^item> \<open>Sq_Django\<close>, \<open>Sq_Django_Jobs\<close>, \<open>Sq_Django_Laws\<close>, \<open>Sq_Django_Claim\<close>, \<open>Sq_Django_Backend\<close>,
    \<open>Sq_Django_System\<close>, \<open>Sq_Django_Props\<close>: \<^verbatim>\<open>django_sqlery/models.py\<close>, \<^verbatim>\<open>history.py\<close>, \<^verbatim>\<open>ready.py\<close>,
    \<^verbatim>\<open>backend.py\<close>, \<^verbatim>\<open>db_compat.py\<close> and \<^verbatim>\<open>core/claiming.py\<close>. A job object is a row together with what was
    loaded and shown; \<open>dj_save\<close> writes the columns \<^verbatim>\<open>save\<close> writes. \<open>dj_step\<close> is one committed transaction
    of this integration.
  \<^item> \<open>Sq_Async\<close>, \<open>Sq_Async_Laws\<close>, \<open>Sq_Async_Props\<close>: \<^verbatim>\<open>fastapi_sqlery/async_backend.py\<close> and what
    \<^verbatim>\<open>core/async_worker.py\<close> does with an outcome; \<open>as_step\<close> is one of its transactions. \<open>any_step\<close> is a step
    of any of the three sides, \<open>rt_step\<close> a transaction of retention, \<open>db_step\<close> either (\<open>Sq_Django_System\<close>).
  \<^item> \<open>Sq_Partition\<close>, \<open>Sq_Partition_Laws\<close>, \<open>Sq_Health\<close>: \<^verbatim>\<open>core/partitioning.py\<close> and the upkeep part of
    \<^verbatim>\<open>core/history.py\<close> (a catalog of partitions with bounds and rows; rows arrive between a look and its lock),
    the probes of \<^verbatim>\<open>core/horizon.py\<close> and \<^verbatim>\<open>core/rotation.py\<close>.
  \<^item> \<open>Sq_Url\<close>, \<open>Sq_Webhook\<close>: \<^verbatim>\<open>security/ssrf.py\<close> with the URL and address parsing it calls, and
    \<^verbatim>\<open>django_sqlery/webhooks.py\<close>. \<open>Sq_Trigger\<close>: \<^verbatim>\<open>core/triggers.py\<close> and \<^verbatim>\<open>core/signature.py\<close>. \<open>Sq_Auth\<close>:
    \<^verbatim>\<open>fastapi_sqlery/auth.py\<close>.

  \<^bold>\<open>Interfaces.\<close> \<open>claim_path\<close> is the contract of a claim (the handed-out job gets the only open attempt),
  interpreted for the claims of all backends, and \<open>claim_paths\<close> combines two of them;
  \<open>fenced_completion\<close> and \<open>fenced_completions\<close> do the same for completions. \<open>lease_claim\<close> is the contract
  of a lease read, interpreted for the three lock strategies; \<open>recheck_closed\<close> and \<open>failure_closed\<close>
  carry a relation through the release and the failure of dependents, and are interpreted for runs,
  \<open>safe\<close>, the set of running jobs and the live ids.

  \<^bold>\<open>What is shown.\<close> Integrity and exactly-once completion hold for every interleaving of the
  transactions of the three backends and of retention, a stale whole-object save of the Django integration
  excepted (the theorems of this file); finished records change only by retention, and a job disappears
  only by replacement under its name, by a delete or by retention; claims exclude each other, examine every
  due entry and hand out only runnable jobs; waiting jobs keep an entry; the steps of a chain, leases,
  scheduler ticks and retries (if their calls do not overlap) happen once and in order; what a child could
  not record its parent records the same way; loops of the code are total here, with
  a bound proved where the code has one; batched, paged and bounded loops equal their direct
  specifications. In every reachable state an attempt has an outcome exactly when it is finished. Partition
  upkeep loses no row and leaves no gap, a webhook goes only to checked addresses, a signed trigger
  request is admitted at most once. Where the code does something else than it says, a theorem states what it does.

  \<^bold>\<open>Bounds and fuel.\<close> The chain walks stop at \<^verbatim>\<open>MAX_CHAIN_HOPS\<close> = \<^verbatim>\<open>MAX_RETRY_HOPS\<close> = 1000 and the catch-up
  of a schedule at 2000000 steps because the code does; cron searches end with year 9999; deletions
  come in batches of 500; a rotation tick makes at most \<^verbatim>\<open>MAX_STEPS_PER_TICK\<close> steps. The cascade of
  dependents ends because its set of visited jobs grows, the Django paging because the excluded
  live ids grow; the reconnect loop of the worker has no bound in the code and is a
  \<^verbatim>\<open>partial_function\<close> whose result is proved to exist.

  \<^bold>\<open>Idealisations.\<close> Clock readings, fresh ids and tokens, what the operating system, the network and
  user code answer, and which rows are locked or which commits are lost, are arguments. Times are
  microseconds, Python floats exact rationals, strings ASCII. Statements of a transaction run
  alone; commits interleave freely.

  \<^bold>\<open>Not modelled.\<close> HTTP views, admin, templates, command-line parsing and logging; migrations and
  generated models; drivers, engines and LISTEN/NOTIFY; fork, signals and pid files; the JSON text of
  results and webhooks and the hash functions; the conversion of an unpartitioned table and the text of
  the catalog queries; solar schedules (floating-point trigonometry); the RDS data API and the Lambda
  glue; the loop of the async worker, and the Django async backend, which calls modelled
  operations in threads.
\<close>

section \<open>Integrity of the queue\<close>

text \<open>C2: in every state the system can reach, whatever transactions of the standalone backend, of the
  Django integration, of the async backend and of retention ran and in whatever order (a whole-object save of
  the Django integration excepted whose job's row is gone from the live table: see \<^const>\<open>keeps_row\<close> and
  \<open>stale_save_forks_job\<close>), job ids are unique across the live table, the history
  and the staging table, no job has two open attempts, every history row is terminal, attempt ids are
  unique and a job has at most one ready entry per slot.\<close>

theorem reachable_integrity:
  assumes "db_step\<^sup>*\<^sup>* empty_db d"
  shows "distinct (map sj_id (staged d) @ map j_id (live d @ history d)) \<and>
    (\<forall>jid. rowcount (open_for jid) (attempts d) \<le> 1) \<and>
    (\<forall>j\<in>set (history d). is_terminal (j_status j)) \<and>
    distinct (map a_id (attempts d)) \<and> distinct (map ready_key (ready d))"
  using db_reachable_wf [OF assms]
  by (simp add: wf_db_def wf_jobs_def wf_attempts_def wf_ready_def)

theorem reachable_integrity_witness:
  "rowcount (open_for 7) (attempts sample_running) = 1 \<and>
   rowcount (open_for 7) (attempts sample_running) \<le> 1"
  using reachable_integrity [OF steps_db [OF sample_running_reachable]]
  by (simp add: sample_running_eval empty_db_def open_for_def new_attempt_def)

text \<open>C3: the rows keep the types the readers rely on: in every state the three sides and retention can reach, an attempt has
  an outcome exactly when it has a finish time and its id was drawn from the sequence, a ready entry is in one of
  the three slots, and a finished job carries one of the terminal statuses.\<close>

theorem reachable_rows_typed:
  assumes "db_step\<^sup>*\<^sup>* empty_db d"
  shows "(\<forall>a\<in>set (attempts d). (a_finished_at a = None \<longleftrightarrow> a_outcome a = None) \<and> a_id a < next_attempt d) \<and>
    (\<forall>e\<in>set (ready d). r_slot e \<in> {0, 1, 2}) \<and>
    (\<forall>j\<in>set (history d). j_status j \<in> {Success, Failed, Archived})"
  using db_reachable_wf [OF assms]
  by (auto simp: wf_db_def wf_jobs_def wf_attempts_def wf_ready_def SLOTS_def is_terminal_def)

theorem reachable_rows_typed_witness:
  "map a_outcome (attempts sample_running) = [None] \<and> list_all (\<lambda>a. a_id a < next_attempt sample_running) (attempts sample_running)"
  using reachable_rows_typed [OF steps_db [OF sample_running_reachable]]
  by (simp add: sample_running_eval empty_db_def new_attempt_def)

text \<open>C6: finished records are insert-only up to retention. Transactions of the three sides only append to the
  history and keep every finished attempt as it is; a retention transaction changes nothing but the history and
  the attempts, removes whole rows there, keeping the others in order, and removes no open attempt. So in any
  run that mixes them, a history row or a finished attempt is unchanged at the end, unless one retention
  transaction of the run removed it.\<close>

theorem history_insert_only:
  assumes "db_step\<^sup>*\<^sup>* empty_db d"
  shows "(any_step\<^sup>*\<^sup>* d d' \<longrightarrow> prefix (history d) (history d') \<and>
      (\<forall>a\<in>set (attempts d). a_finished_at a \<noteq> None \<longrightarrow> a \<in> set (attempts d'))) \<and>
    (rt_step d d' \<longrightarrow> d' = d\<lparr>history := history d', attempts := attempts d'\<rparr> \<and>
      subseq (history d') (history d) \<and> subseq (attempts d') (attempts d) \<and>
      filter (\<lambda>a. a_finished_at a = None) (attempts d') = filter (\<lambda>a. a_finished_at a = None) (attempts d)) \<and>
    (db_step\<^sup>*\<^sup>* d d' \<longrightarrow> (\<forall>r\<in>set (history d). r \<notin> set (history d') \<longrightarrow>
      (\<exists>e f. db_step\<^sup>*\<^sup>* d e \<and> rt_step e f \<and> db_step\<^sup>*\<^sup>* f d' \<and> r \<in> set (history e) \<and> r \<notin> set (history f)))) \<and>
    (db_step\<^sup>*\<^sup>* d d' \<longrightarrow> (\<forall>a\<in>set (attempts d). a_finished_at a \<noteq> None \<longrightarrow> a \<notin> set (attempts d') \<longrightarrow>
      (\<exists>e f. db_step\<^sup>*\<^sup>* d e \<and> rt_step e f \<and> db_step\<^sup>*\<^sup>* f d' \<and> a \<in> set (attempts e) \<and> a \<notin> set (attempts f))))"
proof -
  have w: "wf_db d" using db_reachable_wf [OF assms] .
  have hist: "r \<in> set (history f)" if "any_step e f" "wf_db e" "r \<in> set (history e)" for e f r
    using any_step_law [OF that(1,2)] that(3) by (auto simp: grows_def history_grows_def prefix_def)
  have att: "a \<in> set (attempts f)" if "grows e f" "a \<in> set (attempts e)" "a_finished_at a \<noteq> None" for e f a
    using that by (fastforce simp: grows_def attempts_evolve_def att_le_def)
  have att_step: "a \<in> set (attempts f)" if "any_step e f" "wf_db e" "a \<in> set (attempts e)" "a_finished_at a \<noteq> None" for e f a
    using att that any_step_law by blast
  show ?thesis
  proof (intro conjI impI ballI)
    assume r: "any_step\<^sup>*\<^sup>* d d'"
    then have g: "grows d d'" using any_steps_law w by blast
    show "prefix (history d) (history d')" using g by (simp add: grows_def history_grows_def)
    show "a \<in> set (attempts d')" if "a \<in> set (attempts d)" "a_finished_at a \<noteq> None" for a using att g that by blast
  next
    assume "rt_step d d'"
    note f = rt_step_frame [OF this w]
    show "d' = d\<lparr>history := history d', attempts := attempts d'\<rparr>" using f by blast
    show "subseq (history d') (history d)" "subseq (attempts d') (attempts d)" using f by blast+
    show "filter (\<lambda>a. a_finished_at a = None) (attempts d') = filter (\<lambda>a. a_finished_at a = None) (attempts d)"
      using f by blast
  next
    fix r assume "db_step\<^sup>*\<^sup>* d d'" "r \<in> set (history d)" "r \<notin> set (history d')"
    then show "\<exists>e f. db_step\<^sup>*\<^sup>* d e \<and> rt_step e f \<and> db_step\<^sup>*\<^sup>* f d' \<and> r \<in> set (history e) \<and> r \<notin> set (history f)"
      using removed_by_retention [of d d' r "\<lambda>d. set (history d)"] w hist by blast
  next
    fix a assume "db_step\<^sup>*\<^sup>* d d'" "a \<in> set (attempts d)" "a_finished_at a \<noteq> None" "a \<notin> set (attempts d')"
    then show "\<exists>e f. db_step\<^sup>*\<^sup>* d e \<and> rt_step e f \<and> db_step\<^sup>*\<^sup>* f d' \<and> a \<in> set (attempts e) \<and> a \<notin> set (attempts f)"
      using removed_by_retention [of d d' a "\<lambda>d. set (attempts d)"] w att_step by blast
  qed
qed

theorem history_insert_only_witness:
  "prefix (history sample_db) (history sample_running)"
proof -
  have "step sample_db sample_running"
    unfolding sample_running_def by (rule st_claim_id) (rule prod.collapse [symmetric])
  then have "any_step\<^sup>*\<^sup>* sample_db sample_running" using steps_any by blast
  then show ?thesis
    using history_insert_only [OF steps_db [OF sample_reachable], of sample_running] by blast
qed

text \<open>C7: no job is lost silently. A job id of the live table or of the history that a transaction of any side
  or of retention takes away was either the id of a live job with a name, in a transaction that replaces the
  jobs of that name, or that of the job which a Django delete was asked to delete, or that of a history row
  which retention removed. And the call that replaces the jobs of a name, in either integration, ends with a
  new queued or staged job of that name (deleting and inserting are two transactions, so the successor is
  promised at the end of the call and not after every step of it).\<close>

theorem no_job_lost:
  assumes "db_step\<^sup>*\<^sup>* empty_db d" "db_step d d'" "k \<in> job_ids d" "k \<notin> job_ids d'"
  shows "((\<exists>j\<in>set (live d). \<exists>name. j_id j = k \<and> j_job_name j = Some name \<and>
        (d' = replaced_by_name name d \<or> (\<exists>ids. d' = dj_replace_in name ids d))) \<or>
      (\<exists>slot now j. j_id j = k \<and> d' = dj_delete slot now j d) \<or>
      rt_step d d' \<and> k \<in> j_id ` set (history d)) \<and>
    (\<forall>partitioned threshold slot now new s name d2 r. s_job_name s = Some name \<longrightarrow>
      create_job partitioned threshold slot now new s d = (d2, r) \<or>
      dj_create_job partitioned threshold slot now new s d = (d2, r) \<longrightarrow> successor name new d2)"
proof (rule conjI)
  have w: "wf_db d" using db_reachable_wf [OF assms(1)] .
  consider "any_step d d'" | "rt_step d d'" using assms(2) by (auto simp: db_step_def)
  then show "(\<exists>j\<in>set (live d). \<exists>name. j_id j = k \<and> j_job_name j = Some name \<and>
        (d' = replaced_by_name name d \<or> (\<exists>ids. d' = dj_replace_in name ids d))) \<or>
      (\<exists>slot now j. j_id j = k \<and> d' = dj_delete slot now j d) \<or> rt_step d d' \<and> k \<in> j_id ` set (history d)"
  proof cases
    case 1
    from any_step_lost [OF this w assms(3,4)] show ?thesis by (elim disjE) (rule disjI1, assumption, rule disjI2, rule disjI1, assumption)
  next
    case 2
    with rt_step_lost [OF this w assms(3,4)] show ?thesis by simp
  qed
  show "\<forall>partitioned threshold slot now new s name d2 r. s_job_name s = Some name \<longrightarrow>
      create_job partitioned threshold slot now new s d = (d2, r) \<or>
      dj_create_job partitioned threshold slot now new s d = (d2, r) \<longrightarrow> successor name new d2"
    using created_successor by blast
qed

definition named_db :: db where
  "named_db = add_job 0 (queued_job 7 100 (sample_spec\<lparr>s_job_name := Some ''nightly''\<rparr>)) empty_db"

theorem no_job_lost_witness:
  "7 \<in> job_ids named_db \<and> 7 \<notin> job_ids (replaced_by_name ''nightly'' named_db) \<and>
   successor ''nightly'' 9 (fst (create_job False 1 0 200 9 (sample_spec\<lparr>s_job_name := Some ''nightly''\<rparr>) named_db))"
proof -
  have ev: "7 \<in> job_ids named_db" "7 \<notin> job_ids (replaced_by_name ''nightly'' named_db)"
    by code_simp+
  have "step empty_db named_db" unfolding named_db_def
    by (rule st_enqueue) (simp_all add: SLOTS_def fresh_id_def job_ids_def empty_db_def)
  then have r: "db_step\<^sup>*\<^sup>* empty_db named_db" using steps_db by blast
  have s: "db_step named_db (replaced_by_name ''nightly'' named_db)"
    using st_replace by (auto simp: db_step_def any_step_def)
  let ?s = "sample_spec\<lparr>s_job_name := Some ''nightly''\<rparr>"
  obtain d2 r2 where c: "create_job False 1 0 200 9 ?s named_db = (d2, r2)" by fastforce
  have "successor ''nightly'' 9 d2"
    by (rule conjunct2 [OF no_job_lost [OF r s ev], rule_format, OF _ disjI1 [OF c]]) simp
  then show ?thesis using ev c by simp
qed

section \<open>Exactly-once completion\<close>

text \<open>C1: once a completion with a handle has been accepted, success or failure, by the standalone, the Django
  or the async backend (the last one on a job of the live table, since it does not tell a missing job from a
  recorded one), every later completion with that handle, success or failure, through any of the three backends,
  in any state that the three sides and retention reach from there and in which the job still exists, is
  rejected with a fencing error and changes nothing.\<close>

theorem completion_at_most_once:
  assumes "wf_db d" "h_job_id h \<in> job_ids d"
    and "complete_success x h d = (d1, Inr r) \<or> complete_failure xf h d = (d1, Inr r) \<or>
      dj_complete_success x h d = (d1, Inr r) \<or> dj_complete_failure xd h d = (d1, Inr r) \<or>
      h_job_id h \<in> j_id ` set (live d) \<and>
        (async_success t h d = (d1, Inr ()) \<or> async_failure tf h d = (d1, Inr ()))"
    and "db_step\<^sup>*\<^sup>* d1 d2" "h_job_id h \<in> job_ids d2"
  shows "complete_success y h d2 = (d2, Inl JobFencingError) \<and>
    complete_failure z h d2 = (d2, Inl JobFencingError) \<and>
    dj_complete_success y h d2 = (d2, Inl JobFencingError) \<and>
    dj_complete_failure u h d2 = (d2, Inl JobFencingError) \<and>
    async_success t' h d2 = (d2, Inl JobFencingError) \<and> async_failure t'' h d2 = (d2, Inl JobFencingError)"
proof -
  have "wf_db d2 \<and> \<not> handle_open h d2"
    using assms(3) success.accepted_stays_closed [OF assms(1,2) _ assms(4)]
      failure.accepted_stays_closed [OF assms(1,2) _ assms(4)]
      dj_success.accepted_stays_closed [OF assms(1,2) _ assms(4)]
      dj_failure.accepted_stays_closed [OF assms(1,2) _ assms(4)]
      accepted_closed_forever [OF assms(1) async_accepted(1) [OF assms(1)] assms(4)]
      accepted_closed_forever [OF assms(1) async_accepted(2) [OF assms(1)] assms(4)] by blast
  then show ?thesis
    using success.stale_rejected failure.stale_rejected dj_success.stale_rejected dj_failure.stale_rejected
      async_stale assms(5) by blast
qed

lemma sample_completed:
  "snd (complete_success (0, 300, ''ok'', Some 0) sample_handle sample_running) = Inr
     (Some ((as_running sample_job sample_handle)
        \<lparr>j_status := Success, j_version := 1, j_finished_at := Some 300,
         j_duration_seconds := Some (1 / 10000), j_output := ''ok'',
         j_runs := [\<lparr>run_attempt_number = 0, run_started_at = Some 200, run_finished_at = Some 300,
           run_status = Success, run_duration = Some (1 / 10000), run_output = ''ok'',
           run_error = []\<rparr>]\<rparr>))"
  "7 \<in> job_ids (fst (complete_success (0, 300, ''ok'', Some 0) sample_handle sample_running))"
  by code_simp+

theorem completion_at_most_once_witness:
  "\<exists>d1 r. complete_success (0, 300, ''ok'', Some 0) sample_handle sample_running = (d1, Inr r) \<and>
     dj_complete_success (0, 400, ''again'', None) sample_handle d1 = (d1, Inl JobFencingError) \<and>
     async_failure (0, 400, ''late'', []) sample_handle d1 = (d1, Inl JobFencingError)"
proof -
  obtain d1 r where c: "complete_success (0, 300, ''ok'', Some 0) sample_handle sample_running =
      (d1, Inr r)"
    using sample_completed(1) by (metis prod.collapse)
  have k: "h_job_id sample_handle \<in> job_ids sample_running"
    by (simp add: sample_handle_def job_ids_def sample_running_eval sample_job_def)
  have k1: "h_job_id sample_handle \<in> job_ids d1"
    using sample_completed(2) c by (simp add: sample_handle_def)
  from completion_at_most_once [OF reachable_wf [OF sample_running_reachable] k disjI1 [OF c] _ k1] c
  show ?thesis by blast
qed

lemma recovery_closes:
  assumes "wf_db d" "a \<in> set (attempts d)" "a_id a = h_id h" "a_job_id a = jid"
  shows "\<not> handle_open h (fst (close_unfenced jid oc now d))"
proof
  assume "handle_open h (fst (close_unfenced jid oc now d))"
  then obtain b where b: "b \<in> set (attempts (fst (close_unfenced jid oc now d)))"
    "a_id b = h_id h" "a_finished_at b = None" by (auto simp: handle_open_def)
  then obtain a0 where a0: "a0 \<in> set (attempts d)" "b = (if a_job_id a0 = jid \<and> a_finished_at a0 = None
      then close_row (if oc = Outcome_success then Outcome_success else Outcome_abandoned) now a0 else a0)"
    by (auto simp: close_unfenced_def update_where_mem)
  then have "a_id a0 = a_id a" using b(2) assms(3) by (auto split: if_splits)
  then have "a0 = a"
    using a0(1) assms(1,2) by (auto simp: wf_db_def wf_attempts_def dest: distinct_key_unique)
  then show False using a0(2) assms(4) b(3) by (auto split: if_splits)
qed

lemma closed_is_fenced:
  assumes w: "wf_db d" and d1: "safe d d1" "\<not> handle_open h d1" and a: "a \<in> set (attempts d)"
    "a_id a = h_id h" and s: "step\<^sup>*\<^sup>* d1 d2" and k: "h_job_id h \<in> job_ids d2"
  shows "complete_success y h d2 = (d2, Inl JobFencingError) \<and>
    complete_failure z h d2 = (d2, Inl JobFencingError)"
proof -
  have w1: "wf_db d1" "evolves d d1" using w d1(1) by (auto simp: safe_def)
  have "a_id a < next_attempt d" using w a(1) by (simp add: wf_db_def wf_attempts_def)
  then have lt: "h_id h < next_attempt d1"
    using w1(2) a(2) by (simp add: evolves_def attempts_evolve_def)
  from steps_law [OF s w1(1)] have g: "wf_db d2" "grows d1 d2" by auto
  have "\<not> handle_open h d2" by (rule handle_closed_grows [OF d1(2) g(2) lt])
  then show ?thesis using success.stale_rejected failure.stale_rejected g(1) k by blast
qed



text \<open>Releasing a running job puts it back in the queue: it stops running, its row is unchanged,
  it has a ready entry again, and the worker that held it can no longer complete it.\<close>

theorem release_requeues_and_fences:
  assumes w: "wf_db d" and j: "j \<in> set (live d)" "j_status j = Queued"
    and a: "a \<in> set (attempts d)" "a_id a = h_id h" "a_job_id a = j_id j" "a_finished_at a = None"
    and h: "h_job_id h = j_id j"
    and r: "d1 = release_job (gen mod 3) now (j_id j) d"
    and s: "step\<^sup>*\<^sup>* d1 d2" "j_id j \<in> job_ids d2"
  shows "live d1 = live d \<and> \<not> is_running d1 (j_id j) \<and> (\<exists>e\<in>set (ready d1). r_job_id e = j_id j) \<and>
    complete_success y h d2 = (d2, Inl JobFencingError) \<and>
    complete_failure x h d2 = (d2, Inl JobFencingError)"
proof -
  let ?c = "fst (close_unfenced (j_id j) Outcome_abandoned now d)"
  have lb: "live_by_id (j_id j) d = Some j" using live_by_id_Some [OF w] j by simp
  have "0 < rowcount (open_for (j_id j)) (attempts d)"
    using a by (auto simp: rowcount_pos open_for_def)
  then have n: "\<not> snd (close_unfenced (j_id j) Outcome_abandoned now d) < 1"
    by (simp add: close_unfenced_def snd_close_job del: close_open_frame)
  have d1: "d1 = write_ready (gen mod 3) False [j] ?c"
    using lb j n by (cases "close_unfenced (j_id j) Outcome_abandoned now d")
      (simp add: r release_job_def)
  have nr: "\<not> is_running ?c (j_id j)" by (simp add: close_unfenced_def)
  have frame: "live d1 = live d" "\<not> is_running d1 (j_id j)" "attempts d1 = attempts ?c"
    using nr by (simp_all add: d1 close_unfenced_def)
  have e: "\<exists>e\<in>set (ready d1). r_job_id e = j_id j"
    unfolding d1 by (rule write_ready_has) (use nr in simp_all)
  have "\<not> handle_open h d1"
    using recovery_closes [OF w a(1,2,3)] frame(3) by (simp add: handle_open_def)
  moreover have "safe d d1" unfolding r by (rule release_job_safe) simp
  ultimately show ?thesis
    using closed_is_fenced [OF w _ _ a(1,2) s(1)] s(2) h frame(1,2) e by simp
qed

theorem release_requeues_and_fences_witness:
  "\<not> is_running (release_job (0 mod 3) 900 7 sample_running) 7 \<and>
   complete_success (0, 1000, ''late'', None) sample_handle (release_job (0 mod 3) 900 7 sample_running) =
     (release_job (0 mod 3) 900 7 sample_running, Inl JobFencingError)"
proof -
  let ?a = "new_attempt 1 7 ''tok'' (Some ''w1'') 42 200"
  have f: "sample_job \<in> set (live sample_running)" "j_status sample_job = Queued"
    "?a \<in> set (attempts sample_running)" "a_id ?a = h_id sample_handle" "a_job_id ?a = j_id sample_job"
    "a_finished_at ?a = None" "h_job_id sample_handle = j_id sample_job"
    by (simp_all add: sample_running_eval new_attempt_def sample_handle_def sample_job_def)
  have id: "j_id sample_job = 7" by (simp add: sample_job_def)
  have k: "j_id sample_job \<in> job_ids (release_job (0 mod 3) 900 (j_id sample_job) sample_running)"
    unfolding id by code_simp
  from release_requeues_and_fences [OF reachable_wf [OF sample_running_reachable] f refl
      rtranclp.rtrancl_refl k]
  show ?thesis unfolding id by blast
qed

section \<open>Claims\<close>

text \<open>C4: mutual exclusion. After a claim of any path of the standalone, the Django or the async side has handed out a job,
  and as long as its attempt is open, no claim of any path of any side (scan, claim by id, claim of a
  candidate) hands the job out again, whatever the three sides and retention did in the meantime.\<close>

theorem claim_excludes_claim:
  assumes w: "wf_db d"
    and c: "scan_claim x d = Inr (d1, Some h) \<or> id_claim xi d = Inr (d1, Some h) \<or> candidate_claim xc d = Inr (d1, Some h) \<or>
      dj_scan_claim x' d = Inr (d1, Some h) \<or> dj_id_claim xi d = Inr (d1, Some h) \<or>
      dj_candidate_claim xc d = Inr (d1, Some h) \<or> async_claim t d = Inr (d1, Some h)"
    and s: "db_step\<^sup>*\<^sup>* d1 d2" and o: "handle_open h d2"
  shows "(scan_claim y d2 = Inr (d3, Some h') \<longrightarrow> h_job_id h' \<noteq> h_job_id h) \<and>
    (id_claim u d2 = Inr (d3, Some h') \<longrightarrow> h_job_id h' \<noteq> h_job_id h) \<and>
    (candidate_claim v d2 = Inr (d3, Some h') \<longrightarrow> h_job_id h' \<noteq> h_job_id h) \<and>
    (dj_scan_claim y' d2 = Inr (d3, Some h') \<longrightarrow> h_job_id h' \<noteq> h_job_id h) \<and>
    (dj_id_claim u d2 = Inr (d3, Some h') \<longrightarrow> h_job_id h' \<noteq> h_job_id h) \<and>
    (dj_candidate_claim v d2 = Inr (d3, Some h') \<longrightarrow> h_job_id h' \<noteq> h_job_id h) \<and>
    (async_claim t' d2 = Inr (d3, Some h') \<longrightarrow> h_job_id h' \<noteq> h_job_id h)"
proof -
  have "wf_db d2 \<and> is_running d2 (h_job_id h)"
    using c scan.claimed_while_open [OF w _ s o] by_id.claimed_while_open [OF w _ s o]
      candidate.claimed_while_open [OF w _ s o] dj_scanning.claimed_while_open [OF w _ s o]
      dj_by_id.claimed_while_open [OF w _ s o] dj_candidate.claimed_while_open [OF w _ s o]
      asynchronous.claimed_while_open [OF w _ s o] by blast
  then have "wf_db d2" "is_running d2 (h_job_id h)" by blast+
  then show ?thesis
    using scan.claimed_running(1) by_id.claimed_running(1) candidate.claimed_running(1)
      dj_scanning.claimed_running(1) dj_by_id.claimed_running(1) dj_candidate.claimed_running(1)
      asynchronous.claimed_running(1) by metis
qed

theorem claim_excludes_claim_witness:
  "\<exists>d1 h. scan_claim (sample_env, [''default''], 200) sample_db = Inr (d1, Some h) \<and>
     (\<forall>d3 h'. dj_id_claim (sample_env, 7, 300) d1 = Inr (d3, Some h') \<longrightarrow> h_job_id h' \<noteq> 7)"
proof -
  let ?st = "\<lparr>cs_db = sample_db, cs_cursor = None, cs_blocked = [], cs_failed = []\<rparr>"
  have "case claim_iteration sample_env [''default''] 200 ?st of
      Inr (st', It_claimed j h) \<Rightarrow> handle_open h (cs_db st') \<and> h_job_id h = 7 | _ \<Rightarrow> False"
    by code_simp
  then obtain st' j h where ci: "claim_iteration sample_env [''default''] 200 ?st =
      Inr (st', It_claimed j h)" and o: "handle_open h (cs_db st')" "h_job_id h = 7"
    by (auto split: sum.splits prod.splits iteration.splits)
  define d1 where "d1 = cs_db st'"
  have c: "scan_claim (sample_env, [''default''], 200) sample_db = Inr (d1, Some h)"
    unfolding scan_claim_def prod.case by (subst claim_from_ready.simps) (simp add: ci d1_def)
  have o: "handle_open h d1" "h_job_id h = 7" using o by (simp_all add: d1_def)
  from claim_excludes_claim [OF reachable_wf [OF sample_reachable] disjI1 [OF c] rtranclp.rtrancl_refl o(1)] c o(2)
  show ?thesis by metis
qed

text \<open>C8: no runnable job is hidden. When a scan of the ready queue ends without a job, every due
  entry of the requested queues that no other session had locked had its job examined: some pass of
  that scan fetched an entry of the job, and the job could not be claimed in the state of that pass.\<close>

theorem scan_hides_no_job:
  assumes "wf_db d"
    and "claim_from_ready env queues now
           \<lparr>cs_db = d, cs_cursor = None, cs_blocked = [], cs_failed = []\<rparr> = (st', Inr None)"
    and "e \<in> set (ready d)" "entry_due queues now e" "\<not> ce_locked env e"
  shows "\<exists>st1 e'. (passes env queues now)\<^sup>*\<^sup>*
        \<lparr>cs_db = d, cs_cursor = None, cs_blocked = [], cs_failed = []\<rparr> st1 \<and>
      next_entry queues now (cs_cursor st1) (ce_locked env) (cs_db st1) = Some e' \<and>
      r_job_id e' = r_job_id e \<and> \<not> runnable env now (cs_db st1) e'"
  using scan_examines [OF assms(2)] assms by (auto simp: after_cursor_def)

theorem scan_hides_no_job_witness:
  "\<exists>(st1 :: claim_state) e'. next_entry [''default''] 200 (cs_cursor st1) (\<lambda>_. False) (cs_db st1) = Some e' \<and>
     r_job_id e' = 7 \<and>
     \<not> runnable (sample_env\<lparr>ce_pg := True, ce_busy := (\<lambda>_. True)\<rparr>) 200 (cs_db st1) e'"
proof -
  let ?env = "sample_env\<lparr>ce_pg := True, ce_busy := (\<lambda>_. True)\<rparr>"
  let ?st = "\<lparr>cs_db = sample_db, cs_cursor = None, cs_blocked = [], cs_failed = []\<rparr>"
  have "case claim_iteration ?env [''default''] 200 ?st of
      Inr (s1, It_next) \<Rightarrow> (case claim_iteration ?env [''default''] 200 s1 of
        Inr (_, It_none) \<Rightarrow> True | _ \<Rightarrow> False) | _ \<Rightarrow> False" by code_simp
  then obtain s1 st' where ci: "claim_iteration ?env [''default''] 200 ?st = Inr (s1, It_next)"
    "claim_iteration ?env [''default''] 200 s1 = Inr (st', It_none)"
    by (auto split: sum.splits prod.splits iteration.splits)
  have c: "claim_from_ready ?env [''default''] 200 ?st = (st', Inr None)"
    by (simp add: claim_from_ready.simps [of ?env "[''default'']" 200 ?st]
        claim_from_ready.simps [of ?env "[''default'']" 200 s1] ci)
  have e: "ready_values 0 sample_job \<in> set (ready sample_db)"
    "entry_due [''default''] 200 (ready_values 0 sample_job)" "\<not> ce_locked ?env (ready_values 0 sample_job)"
    by (simp_all add: sample_db_eval entry_due_def ready_values_def sample_job_def queued_job_def
        sample_spec_def sample_env_def)
  have e7: "r_job_id (ready_values 0 sample_job) = 7" by (simp add: ready_values_def sample_job_def)
  obtain st1 :: claim_state and e' where
    "next_entry [''default''] 200 (cs_cursor st1) (ce_locked ?env) (cs_db st1) = Some e'"
    "r_job_id e' = 7" "\<not> runnable ?env 200 (cs_db st1) e'"
    using scan_hides_no_job [OF reachable_wf [OF sample_reachable] c e, unfolded e7]
    by blast
  moreover have "ce_locked ?env = (\<lambda>_. False)" by (simp add: sample_env_def)
  ultimately show ?thesis by (intro exI [of _ st1] exI [of _ e']) simp
qed

text \<open>A runnable entry at the head of the claim order is claimed, and the claim writes nothing
  to the job row: the job tables are unchanged and the job is running with the new attempt.\<close>

theorem head_of_queue_is_claimed:
  assumes w: "wf_db d" and e: "next_entry queues now None (ce_locked env) d = Some e"
    and r: "runnable env now d e"
  shows "\<exists>st' j h. claim_from_ready env queues now
        \<lparr>cs_db = d, cs_cursor = None, cs_blocked = [], cs_failed = []\<rparr> = (st', Inr (Some (j, h))) \<and>
      j_id j = r_job_id e \<and> j_status j = Running \<and> live (cs_db st') = live d \<and>
      history (cs_db st') = history d \<and> is_running (cs_db st') (r_job_id e) \<and> handle_open h (cs_db st')"
proof -
  let ?st = "\<lparr>cs_db = d, cs_cursor = Some (cursor_of e), cs_blocked = [], cs_failed = []\<rparr>"
  have "e \<in> set (ready d)" using next_entry_Some [OF e] by simp
  from runnable_taken [OF w this r, of ?st] obtain st' j h where
    ex: "examine env now e ?st = Inr (st', It_claimed (as_running j h) h)" "j_id j = r_job_id e"
    by auto
  have ci: "claim_iteration env queues now
      \<lparr>cs_db = d, cs_cursor = None, cs_blocked = [], cs_failed = []\<rparr> =
      Inr (st', It_claimed (as_running j h) h)"
    using e ex(1) by (simp add: claim_iteration_def)
  have cl: "claims (fst (delete_entry (r_slot e) (r_job_id e) d)) h (cs_db st')"
    using examine_law [OF ex(1)] by simp
  have "h_job_id h = r_job_id e"
    using ex by (auto elim!: examine_cases dest!: take_entry_law dest: job_under_entry_id)
  then have "is_running (cs_db st') (r_job_id e)" "handle_open h (cs_db st')"
    "live (cs_db st') = live d" "history (cs_db st') = history d"
    using cl by (auto simp: claims_def is_running_def open_for_def handle_open_def)
  then show ?thesis
    using ci ex(2) by (subst claim_from_ready.simps) (auto simp: as_running_def)
qed

theorem head_of_queue_is_claimed_witness:
  "\<exists>st' j h. claim_from_ready sample_env [''default''] 200
       \<lparr>cs_db = sample_db, cs_cursor = None, cs_blocked = [], cs_failed = []\<rparr> = (st', Inr (Some (j, h))) \<and>
     j_id j = 7"
proof -
  have e: "next_entry [''default''] 200 None (ce_locked sample_env) sample_db = Some (ready_values 0 sample_job)"
    by code_simp
  have r: "runnable sample_env 200 sample_db (ready_values 0 sample_job)"
    unfolding runnable_def by (rule exI [of _ sample_job]) code_simp
  have id: "r_job_id (ready_values 0 sample_job) = 7" by (simp add: ready_values_def sample_job_def)
  show ?thesis
    using head_of_queue_is_claimed [OF reachable_wf [OF sample_reachable] e r] id by metis
qed

text \<open>C9: a job that the scan hands out was ready to run in the database of that very transaction: its
  row was queued, its TTL had not elapsed, none of its tags was over a limit, and each of its
  dependencies had succeeded, directly or in its newest retry. So a step of a chain never starts before
  the step it follows has succeeded.\<close>

theorem claimed_job_was_runnable:
  assumes "claim_iteration env queues now st = Inr (st', It_claimed j h)"
  shows "\<exists>e r. next_entry queues now (cs_cursor st) (ce_locked env) (cs_db st) = Some e \<and>
    job_under_entry e (cs_db st) = Some r \<and> j = as_running r h \<and> j_status r = Queued \<and>
    \<not> ttl_expired now r \<and> tag_limited env now r (cs_db st) = Inr False \<and>
    (\<forall>x\<in>set (dependency_ids r). \<exists>dep. anywhere_by_id (cs_db st) x = Some dep \<and>
       j_status (newest_retry (latest_retry (cs_db st)) MAX_CHAIN_HOPS dep) = Success)"
proof -
  obtain e r where er: "next_entry queues now (cs_cursor st) (ce_locked env) (cs_db st) = Some e"
    "job_under_entry e (cs_db st) = Some r" "j = as_running r h" "j_status r = Queued"
    "\<not> ttl_expired now r" "judge_in (cs_db st) (dependency_ids r) = Met"
    "tag_limited env now r (cs_db st) = Inr False"
    using claimed_runnable [OF assms] by metis
  have "\<exists>dep. anywhere_by_id (cs_db st) x = Some dep \<and>
      j_status (newest_retry (latest_retry (cs_db st)) MAX_CHAIN_HOPS dep) = Success"
    if "x \<in> set (dependency_ids r)" for x
    using er(6) that
    by (auto simp: judge_in_def judge_dependencies_Met dep_state_def Let_def
        split: option.splits if_splits)
  then show ?thesis using er by blast
qed

theorem claimed_job_was_runnable_witness:
  "\<exists>st' j h e r. claim_iteration sample_env [''default''] 300
      \<lparr>cs_db = sample_db, cs_cursor = None, cs_blocked = [], cs_failed = []\<rparr> = Inr (st', It_claimed j h) \<and>
    job_under_entry e sample_db = Some r \<and> j_status r = Queued \<and> \<not> ttl_expired 300 r"
proof -
  let ?st = "\<lparr>cs_db = sample_db, cs_cursor = None, cs_blocked = [], cs_failed = []\<rparr>"
  have "case claim_iteration sample_env [''default''] 300 ?st of
      Inr (st', It_claimed j h) \<Rightarrow> True | _ \<Rightarrow> False" by code_simp
  then obtain st' j h where c: "claim_iteration sample_env [''default''] 300 ?st = Inr (st', It_claimed j h)"
    by (auto split: sum.splits prod.splits iteration.splits)
  from claimed_job_was_runnable [OF c] c show ?thesis by auto
qed

section \<open>No waiting job is forgotten\<close>

text \<open>C37: a transaction of a claim scan never takes the last entry from a waiting job: if every queued,
  idle job had a ready or blocked entry before, it has one afterwards, whichever branch the
  iteration took.\<close>

theorem claim_keeps_coverage:
  assumes "wf_db (cs_db st)" "covered (cs_db st)" "claim_iteration env queues now st = Inr (st', it)"
  shows "covered (cs_db st')"
  using covered_claim_iteration [OF assms] .

theorem claim_keeps_coverage_witness:
  "\<exists>st' it. claim_iteration sample_env [''default''] 200
     \<lparr>cs_db = sample_db, cs_cursor = None, cs_blocked = [], cs_failed = []\<rparr> = Inr (st', it) \<and>
     covered (cs_db st')"
proof -
  let ?st = "\<lparr>cs_db = sample_db, cs_cursor = None, cs_blocked = [], cs_failed = []\<rparr>"
  have "case claim_iteration sample_env [''default''] 200 ?st of Inr _ \<Rightarrow> True | _ \<Rightarrow> False"
    by code_simp
  then obtain st' it where ci: "claim_iteration sample_env [''default''] 200 ?st = Inr (st', it)"
    by (auto split: sum.splits)
  have "covered (cs_db ?st)"
    by (simp add: covered_def covered_but_def has_entry_def sample_db_eval ready_values_def)
  then show ?thesis
    using claim_keeps_coverage [OF _ _ ci] ci reachable_wf [OF sample_reachable] by auto
qed

text \<open>The periodic sweep repairs the queue from any damage: whatever entries were lost, one
  unrestricted repair gives every queued, idle job a ready or blocked entry again.\<close>

theorem sweep_restores_coverage:
  assumes "wf_db d" "ready_dated d" "length (live d) \<le> limit" "slot \<in> set SLOTS"
  shows "covered (fst (repair_ready [] limit locked slot d))"
  using repair_covers [OF assms] .

theorem sweep_restores_coverage_witness:
  "\<not> covered (sample_db\<lparr>ready := []\<rparr>) \<and>
   covered (fst (repair_ready [] 10 (\<lambda>_. False) 1 (sample_db\<lparr>ready := []\<rparr>)))"
proof -
  let ?d = "sample_db\<lparr>ready := []\<rparr>"
  have "wf_db ?d" "ready_dated ?d" "length (live ?d) \<le> 10" "1 \<in> set SLOTS" "\<not> covered ?d"
    by (simp_all add: sample_db_eval empty_db_def wf_db_def wf_jobs_def wf_attempts_def wf_ready_def
        ready_dated_def SLOTS_def covered_def covered_but_def waiting_clause_def is_running_def
        has_entry_def sample_job_def)
  then show ?thesis using sweep_restores_coverage [of ?d 10 1] by blast
qed

text \<open>Staging loses nothing. A job scheduled beyond the threshold on a partitioned database goes to
  the staging table, and promoting its row later yields, field for field, the job that would have
  been queued directly.\<close>

theorem staged_job_promoted_losslessly:
  assumes "far_future partitioned threshold_days now s"
  shows "\<exists>d' row. create_job partitioned threshold_days slot now k s d = (d', Inl row) \<and>
    row \<in> set (staged d') \<and> promoted_job row = queued_job k now s"
proof -
  obtain t where t: "s_scheduled_at s = Some t" using assms by (auto simp: far_future_def split: option.splits)
  show ?thesis
    using assms promoted_staged [OF t, of k now] t by (simp add: create_job_def Let_def)
qed

theorem staged_job_promoted_losslessly_witness:
  "\<exists>d' row. create_job True 1 0 0 9 (sample_spec\<lparr>s_scheduled_at := Some (seconds 200000)\<rparr>) empty_db =
     (d', Inl row) \<and>
     promoted_job row = queued_job 9 0 (sample_spec\<lparr>s_scheduled_at := Some (seconds 200000)\<rparr>)"
proof -
  have "far_future True 1 0 (sample_spec\<lparr>s_scheduled_at := Some (seconds 200000)\<rparr>)"
    by (simp add: far_future_def)
  from staged_job_promoted_losslessly [OF this, of 0 9 empty_db] show ?thesis by blast
qed

end
